(* ===== verification/Prelude.thy ===== *)
theory Prelude
  imports Main "HOL-Library.Word"
begin

text \<open>
  Shared vocabulary of the development: the machine integer types of the code, the faults
  that end an execution, the error-or-value results that the operations of the components
  return, and the generic lemmas on lists, options and words that several components use.

  The code's \<open>ASSERT(x)\<close>, \<open>PANIC(...)\<close> and \<open>NOTREACHED\<close> (debug/DebugUtils.h)
  print a message and kill the process; an execution that reaches one is the value
  \<open>Inl\<close> of a \<open>fault\<close>. Reading or writing outside an object, dereferencing a null
  or invalid pointer and signed overflow are undefined in C++; the models that can meet
  them return \<open>Inl Undefined\<close> at that point.
\<close>

type_synonym byte = "8 word"
type_synonym u16 = "16 word"
type_synonym u32 = "32 word"
type_synonym u64 = "64 word"
type_synonym bytes = "8 word list"

datatype fault = Assert_failed | Panicked | Undefined | Thrown

type_synonym 'a run = "fault + 'a"

named_theorems run_simps \<open>unfolding of the result combinators\<close>

definition bind_run :: "('e + 'a) \<Rightarrow> ('a \<Rightarrow> 'e + 'b) \<Rightarrow> 'e + 'b" where
  "bind_run m f = (case m of Inl e \<Rightarrow> Inl e | Inr x \<Rightarrow> f x)"

lemma bind_run_Inl [simp, run_simps]: "bind_run (Inl e) f = Inl e"
  by (simp add: bind_run_def)

lemma bind_run_Inr [simp, run_simps]: "bind_run (Inr x) f = f x"
  by (simp add: bind_run_def)

lemma bind_run_eq_Inr [run_simps]:
  "bind_run m f = Inr y \<longleftrightarrow> (\<exists>x. m = Inr x \<and> f x = Inr y)"
  by (cases m) auto

lemma bind_run_assoc: "bind_run (bind_run m f) g = bind_run m (\<lambda>x. bind_run (f x) g)"
  by (cases m) auto

lemma bind_run_cong [fundef_cong]:
  "m = m' \<Longrightarrow> (\<And>x. m' = Inr x \<Longrightarrow> f x = g x) \<Longrightarrow> bind_run m f = bind_run m' g"
  by (cases m') auto

definition assert_run :: "bool \<Rightarrow> unit run" where
  "assert_run b = (if b then Inr () else Inl Assert_failed)"

lemma assert_run_True [simp, run_simps]: "assert_run True = Inr ()"
  by (simp add: assert_run_def)

lemma assert_run_False [simp, run_simps]: "assert_run False = Inl Assert_failed"
  by (simp add: assert_run_def)

lemma assert_run_eq_Inr [run_simps]: "assert_run b = Inr u \<longleftrightarrow> b"
  by (simp add: assert_run_def)

text \<open>Machine words: bounds that hold with wrap-around, and the signed reading of 64 bits\<close>

lemma unat_mult_le: "unat (x * y) \<le> unat x * unat y"
  by (simp add: unat_word_ariths)

lemma unat_add_le: "unat (x + y) \<le> unat x + unat y"
  by (simp add: unat_word_ariths)

lemma unat_lt: "unat (w :: 'a::len word) < 2 ^ LENGTH('a)"
  by (rule unsigned_less)

lemma sint64: "sint (w :: u64) = (if unat w < 2 ^ 63 then int (unat w) else int (unat w) - 2 ^ 64)"
proof -
  have i: "uint w = int (unat w)" by simp
  have u: "unat w < 9223372036854775808 \<longleftrightarrow> uint w < 9223372036854775808"
    unfolding i using of_nat_less_iff [where ?'a = int, of "unat w" 9223372036854775808]
    by (simp only: of_nat_numeral)
  have s: "sint w = (uint w + 9223372036854775808) mod 18446744073709551616 - 9223372036854775808"
    using int_word_sint [of "uint w", where ?'a = 64] by simp
  have b: "0 \<le> uint w" "uint w < 18446744073709551616" using uint_bounded [of w] by simp_all
  show ?thesis
  proof (cases "uint w < 9223372036854775808")
    case True
    then have "(uint w + 9223372036854775808) mod 18446744073709551616 = uint w + 9223372036854775808"
      using b by (intro mod_pos_pos_trivial) auto
    with True s u show ?thesis by simp
  next
    case False
    have "(uint w + 9223372036854775808) mod 18446744073709551616 =
        (uint w + 9223372036854775808 - 18446744073709551616) mod 18446744073709551616"
      by (simp only: minus_mod_self2)
    also have "\<dots> = uint w + 9223372036854775808 - 18446744073709551616"
      using False b by (intro mod_pos_pos_trivial) auto
    finally show ?thesis using False s u by simp
  qed
qed

lemma unat_ucast_32_64: "unat (ucast (x :: u32) :: u64) = unat x"
  using unat_lt [of x] by (simp add: unsigned_ucast_eq take_bit_nat_eq_self_iff)

text \<open>Text of the source as bytes, and letters in lower case.\<close>

definition cstr :: "string \<Rightarrow> bytes" where
  "cstr = map of_char"

definition lower_byte :: "byte \<Rightarrow> byte" where
  "lower_byte c = (if 65 \<le> c \<and> c \<le> 90 then c + 32 else c)"

text \<open>Searching a list\<close>

lemma find_Some_split:
  "find P xs = Some x \<Longrightarrow> \<exists>ys zs. xs = ys @ x # zs \<and> P x \<and> (\<forall>y\<in>set ys. \<not> P y)"
proof (induction xs)
  case (Cons y ys)
  show ?case
  proof (cases "P y")
    case True
    with Cons.prems show ?thesis by (intro exI [of _ "[]"] exI [of _ ys]) simp
  next
    case False
    with Cons obtain us zs where "ys = us @ x # zs" "P x" "\<forall>u\<in>set us. \<not> P u" by auto
    with False show ?thesis by (intro exI [of _ "y # us"] exI [of _ zs]) simp
  qed
qed simp

lemma find_Some_in: "find P xs = Some x \<Longrightarrow> x \<in> set xs \<and> P x"
  using find_Some_split by fastforce

text \<open>Loops over a list that need not end: \<open>partial_function\<close> under a list case.\<close>

lemma monotone_case_list [partial_function_mono]:
  assumes "monotone orda ordb (\<lambda>f. nil f)"
    and "\<And>x xs. monotone orda ordb (\<lambda>f. cons f x xs)"
  shows "monotone orda ordb (\<lambda>f. case ys of [] \<Rightarrow> nil f | x # xs \<Rightarrow> cons f x xs)"
  using assms by (cases ys) simp_all

text \<open>A \<open>std::map\<close> as the list of its entries in the order of the keys: inserting a new entry\<close>

definition entry_insert :: "'k::linorder \<Rightarrow> 'v \<Rightarrow> ('k \<times> 'v) list \<Rightarrow> ('k \<times> 'v) list" where
  "entry_insert k v m = takeWhile (\<lambda>x. fst x < k) m @ (k, v) # dropWhile (\<lambda>x. fst x < k) m"

lemma entry_insert_sorted:
  assumes "sorted_wrt (<) (map fst m)" "k \<notin> fst ` set m"
  shows "sorted_wrt (<) (map fst (entry_insert k v m))"
proof -
  let ?l = "takeWhile (\<lambda>x. fst x < k) m" and ?r = "dropWhile (\<lambda>x. fst x < k) m"
  have srt: "sorted_wrt (<) (map fst (?l @ ?r))" using assms(1) by simp
  have l: "n < k" if "n \<in> fst ` set ?l" for n using that by (auto dest: set_takeWhileD)
  have r: "k < n" if n: "n \<in> fst ` set ?r" for n
  proof (cases ?r)
    case Nil
    show ?thesis using n unfolding Nil by simp
  next
    case (Cons p ps)
    have "\<not> fst p < k" using hd_dropWhile [of "\<lambda>x. fst x < k" m] Cons by simp
    moreover have "fst p \<noteq> k" using assms(2) Cons by (metis list.set_intros(1) image_eqI set_dropWhileD)
    moreover have "fst p \<le> n" using srt n Cons by (auto simp: sorted_wrt_append)
    ultimately show ?thesis by simp
  qed
  have "sorted_wrt (<) (A @ k # B)" if "sorted_wrt (<) (A @ B)" "\<forall>x\<in>set A. x < k" "\<forall>x\<in>set B. k < x" for A B
    using that by (auto simp: sorted_wrt_append)
  from this [of "map fst ?l" "map fst ?r"] have "sorted_wrt (<) (map fst ?l @ k # map fst ?r)"
    using srt l r unfolding map_append set_map by blast
  then show ?thesis by (simp add: entry_insert_def)
qed

lemma map_of_entry_insert:
  assumes "k \<notin> fst ` set m"
  shows "map_of (entry_insert k v m) = (map_of m)(k \<mapsto> v)"
proof -
  let ?l = "takeWhile (\<lambda>x. fst x < k) m" and ?r = "dropWhile (\<lambda>x. fst x < k) m"
  have "k \<notin> fst ` set ?l" using assms by (auto dest: set_takeWhileD)
  then have "map_of ?l k = None" by (simp add: map_of_eq_None_iff)
  moreover have "map_of (A @ (k, v) # B) = (map_of (A @ B))(k \<mapsto> v)" if "map_of A k = None" for A B
    using that by (auto simp: fun_eq_iff map_add_def split: option.split)
  ultimately have "map_of (?l @ (k, v) # ?r) = (map_of (?l @ ?r))(k \<mapsto> v)" by blast
  then show ?thesis by (simp add: entry_insert_def)
qed

lemma map_of_replace:
  "map_of (map (\<lambda>(j, w). (j, if j = k then v else w)) m) j = (if j = k then map_option (\<lambda>_. v) (map_of m k) else map_of m j)"
  by (induction m) auto

lemma map_of_remove: "map_of (filter (\<lambda>x. fst x \<noteq> k) m) j = (if j = k then None else map_of m j)"
  by (induction m) auto

end
