(* ===== verification/SparseBitmap.thy ===== *)
theory SparseBitmap
  imports Prelude
begin

text \<open>
  util/SparseBitmap.h and util/SparseBitmap.tcc: a set of integers kept as a sorted vector
  of ranges. The template parameter \<open>_inttype_t\<close> is read as \<open>int\<close>: for the signed
  instantiations the repository uses, an execution in which an endpoint leaves the type's
  range is undefined, so every defined execution computes with the mathematical integers.

  A vector with an iterator into it is the pair of the entries before the iterator (nearest
  first) and the entries from the iterator on. \<open>sb_scan\<close>, \<open>sb_compact_right\<close> and
  \<open>sb_compact_left\<close> are the three loops of \<open>set()\<close>; \<open>sb_clear_loop\<close> is the loop of
  \<open>clear(start, len)\<close>, written without a termination proof, so it is an \<open>option\<close>; the capacity of the vector,
  which the library chooses, is its argument, because the loop uses an iterator that an insertion which has to
  allocate memory has invalidated.
\<close>

section \<open>State and operations\<close>

record rng =
  rng_start :: int
  rng_end :: int

type_synonym bitmap = "rng list"

datatype scan = Nothing_to_do | At "rng list" rng "rng list"

fun sb_scan :: "int \<Rightarrow> int \<Rightarrow> rng list \<Rightarrow> rng list \<Rightarrow> scan" where
  "sb_scan s e pre [] = At pre \<lparr>rng_start = s, rng_end = e\<rparr> []"
| "sb_scan s e pre (i # suf) =
     (if rng_start i \<le> s \<and> s \<le> rng_end i + 1 then
        (if e \<le> rng_end i then Nothing_to_do else At pre (i\<lparr>rng_end := e\<rparr>) suf)
      else if rng_start i - 1 \<le> e \<and> e \<le> rng_end i then
        (if rng_start i \<le> s then Nothing_to_do else At pre (i\<lparr>rng_start := s\<rparr>) suf)
      else if e < rng_start i then At pre \<lparr>rng_start = s, rng_end = e\<rparr> (i # suf)
      else sb_scan s e (i # pre) suf)"

fun sb_compact_right :: "rng \<Rightarrow> rng list \<Rightarrow> rng \<times> rng list" where
  "sb_compact_right i [] = (i, [])"
| "sb_compact_right i (j # suf) =
     (if rng_start j - 1 \<le> rng_end i then
        sb_compact_right (if rng_end i < rng_end j then i\<lparr>rng_end := rng_end j\<rparr> else i) suf
      else (i, j # suf))"

fun sb_compact_left :: "rng list \<Rightarrow> rng \<Rightarrow> rng list \<times> rng" where
  "sb_compact_left [] i = ([], i)"
| "sb_compact_left (j # pre) i =
     (if rng_start i - 1 \<le> rng_end j then
        sb_compact_left pre
          (let i1 = (if rng_start j < rng_start i then i\<lparr>rng_start := rng_start j\<rparr> else i)
           in if rng_end i1 < rng_end j then i1\<lparr>rng_end := rng_end j\<rparr> else i1)
      else (j # pre, i))"

text \<open>
  \<open>validate()\<close> dereferences the first entry before it looks for the end, and then
  asserts for each entry that it is well formed and starts after the one before ends.
\<close>

fun sb_validate_from :: "rng \<Rightarrow> rng list \<Rightarrow> bool" where
  "sb_validate_from i [] = True"
| "sb_validate_from i (j # suf) =
     (rng_start j \<le> rng_end j \<and> rng_end i < rng_start j \<and> sb_validate_from j suf)"

definition sb_validate :: "bitmap \<Rightarrow> unit run" where
  "sb_validate bm = (case bm of
      [] \<Rightarrow> Inl Undefined
    | i # suf \<Rightarrow> assert_run (rng_start i \<le> rng_end i \<and> sb_validate_from i suf))"

definition sb_set :: "bitmap \<Rightarrow> int \<Rightarrow> int \<Rightarrow> bitmap run" where
  "sb_set bm s len =
     (if len = 0 then Inl Assert_failed
      else case sb_scan s (s + len - 1) [] bm of
        Nothing_to_do \<Rightarrow> Inr bm
      | At pre i suf \<Rightarrow>
          (let (i1, suf1) = sb_compact_right i suf;
               (pre1, i2) = sb_compact_left pre i1;
               bm1 = rev pre1 @ i2 # suf1
           in bind_run (sb_validate bm1) (\<lambda>_. Inr bm1)))"

text \<open>
  \<open>i->end_ = start\<close> after \<open>bitmap_.insert(i + 1, ...)\<close> is undefined when the vector was full: it has
  been moved to other memory then, and \<open>i\<close> still points into the old one.
\<close>

partial_function (option) sb_clear_loop ::
    "nat \<Rightarrow> int \<Rightarrow> int \<Rightarrow> rng list \<Rightarrow> rng list \<Rightarrow> bitmap run option" where
  "sb_clear_loop capacity s e pre suf = (case suf of
      [] \<Rightarrow> Some (Inr (rev pre))
    | i # suf' \<Rightarrow>
       (if s \<le> rng_start i \<and> rng_end i \<le> e then sb_clear_loop capacity s e pre suf'
        else if s \<le> rng_start i \<and> e < rng_end i \<and> rng_start i \<le> e then
          sb_clear_loop capacity s e (i\<lparr>rng_start := e + 1\<rparr> # pre) suf'
        else if rng_start i < s \<and> s \<le> rng_end i then
          (if rng_end i \<le> e then sb_clear_loop capacity s e (i\<lparr>rng_end := s - 1\<rparr> # pre) suf'
           else if length pre + length suf < capacity then
             sb_clear_loop capacity s e (i\<lparr>rng_end := s\<rparr> # pre)
                  (\<lparr>rng_start = e, rng_end = rng_end i\<rparr> # suf')
           else Some (Inl Undefined))
        else sb_clear_loop capacity s e (i # pre) suf'))"

definition sb_clear :: "nat \<Rightarrow> bitmap \<Rightarrow> int \<Rightarrow> int \<Rightarrow> bitmap run option" where
  "sb_clear capacity bm s len = sb_clear_loop capacity s (s + len - 1) [] bm"

fun sb_is_set :: "bitmap \<Rightarrow> int \<Rightarrow> int \<Rightarrow> bool" where
  "sb_is_set [] s len = False"
| "sb_is_set (i # bm) s len =
     (if rng_start i \<le> s \<and> s + len - 1 \<le> rng_end i then True else sb_is_set bm s len)"

definition sb_num_contiguous :: "bitmap \<Rightarrow> int" where
  "sb_num_contiguous bm = (case bm of [] \<Rightarrow> 0 | i # _ \<Rightarrow> rng_end i - rng_start i + 1)"

fun sb_num_set_from :: "int \<Rightarrow> bitmap \<Rightarrow> int" where
  "sb_num_set_from ret [] = ret"
| "sb_num_set_from ret (i # bm) = sb_num_set_from (ret + (rng_end i - rng_start i + 1)) bm"

definition sb_num_set :: "bitmap \<Rightarrow> int" where
  "sb_num_set bm = sb_num_set_from 0 bm"

section \<open>Iterators\<close>

text \<open>
  The class \<open>iterator\<close>: a position in the vector and an offset into the range there.
  Dereferencing the end iterator, or moving before the first entry, is undefined.
\<close>

record sb_iter =
  it_idx :: nat
  it_off :: int

definition sb_begin :: "bitmap \<Rightarrow> sb_iter" where
  "sb_begin bm = \<lparr>it_idx = 0, it_off = 0\<rparr>"

definition sb_end :: "bitmap \<Rightarrow> sb_iter" where
  "sb_end bm = \<lparr>it_idx = length bm, it_off = 0\<rparr>"

definition it_entry :: "bitmap \<Rightarrow> sb_iter \<Rightarrow> rng run" where
  "it_entry bm it = (if it_idx it < length bm then Inr (bm ! it_idx it) else Inl Undefined)"

definition it_deref :: "bitmap \<Rightarrow> sb_iter \<Rightarrow> int run" where
  "it_deref bm it = bind_run (it_entry bm it) (\<lambda>r. Inr (rng_start r + it_off it))"

definition it_incr :: "bitmap \<Rightarrow> sb_iter \<Rightarrow> sb_iter run" where
  "it_incr bm it = bind_run (it_entry bm it) (\<lambda>r.
     if rng_start r + it_off it = rng_end r
     then Inr \<lparr>it_idx = Suc (it_idx it), it_off = 0\<rparr>
     else Inr (it\<lparr>it_off := it_off it + 1\<rparr>))"

definition it_prev_entry :: "bitmap \<Rightarrow> sb_iter \<Rightarrow> sb_iter run" where
  "it_prev_entry bm it =
     (if it_idx it = 0 then Inl Undefined
      else bind_run (it_entry bm (it\<lparr>it_idx := it_idx it - 1\<rparr>)) (\<lambda>r.
        Inr \<lparr>it_idx = it_idx it - 1, it_off = rng_end r - rng_start r\<rparr>))"

definition it_decr :: "bitmap \<Rightarrow> sb_iter \<Rightarrow> sb_iter run" where
  "it_decr bm it =
     (if it_off it = 0 then it_prev_entry bm it else Inr (it\<lparr>it_off := it_off it - 1\<rparr>))"

text \<open>
  \<open>operator+=\<close> converts the room left in the range to \<open>size_t\<close>; \<open>diff\<close> is an
  \<open>unsigned int\<close>.
\<close>

function it_plus :: "bitmap \<Rightarrow> sb_iter \<Rightarrow> nat \<Rightarrow> sb_iter run" where
  "it_plus bm it diff =
     (if diff = 0 then Inr it
      else bind_run (it_entry bm it) (\<lambda>r.
        let space = nat ((rng_end r - (rng_start r + it_off it)) mod 2 ^ 64) in
        if diff \<le> space then Inr (it\<lparr>it_off := it_off it + int diff\<rparr>)
        else it_plus bm \<lparr>it_idx = Suc (it_idx it), it_off = 0\<rparr> (diff - (space + 1))))"
  by pat_completeness auto
termination
  by (relation "measure (\<lambda>(bm, it, diff). diff)") auto

function it_minus :: "bitmap \<Rightarrow> sb_iter \<Rightarrow> nat \<Rightarrow> sb_iter run" where
  "it_minus bm it diff =
     (if diff = 0 then Inr it
      else if int diff \<le> it_off it then Inr (it\<lparr>it_off := it_off it - int diff\<rparr>)
      else bind_run (it_prev_entry bm it) (\<lambda>it'.
        it_minus bm it' (nat (int diff - (it_off it + 1)))))"
  by pat_completeness auto
termination
  by (relation "measure (\<lambda>(bm, it, diff). it_idx it)")
     (auto simp: it_prev_entry_def it_entry_def split: if_splits)

declare it_plus.simps [simp del] it_minus.simps [simp del]

definition it_skip_contiguous :: "bitmap \<Rightarrow> sb_iter \<Rightarrow> sb_iter run" where
  "it_skip_contiguous bm it = bind_run (it_entry bm it) (\<lambda>r.
     Inr (it\<lparr>it_off := rng_end r - rng_start r\<rparr>))"

definition sb_first :: "bitmap \<Rightarrow> int run" where
  "sb_first bm = it_deref bm (sb_begin bm)"

definition sb_last :: "bitmap \<Rightarrow> int run" where
  "sb_last bm = bind_run (it_decr bm (sb_end bm)) (it_deref bm)"

section \<open>Abstraction and invariant\<close>

text \<open>
  A bitmap stands for the union of its ranges. The entries are well formed and sorted with a
  gap of more than \<open>g\<close> between neighbours: \<open>g = 0\<close> is what \<open>validate()\<close> asserts,
  \<open>g = 1\<close> says that no two entries touch, which is what \<open>is_set\<close> of a range relies on.
\<close>

definition rng_bits :: "rng \<Rightarrow> int set" where
  "rng_bits r = {rng_start r..rng_end r}"

definition sb_bits :: "bitmap \<Rightarrow> int set" where
  "sb_bits bm = (\<Union>r\<in>set bm. rng_bits r)"

definition sb_gap :: "int \<Rightarrow> bitmap \<Rightarrow> bool" where
  "sb_gap g bm \<longleftrightarrow> list_all (\<lambda>r. rng_start r \<le> rng_end r) bm \<and>
     sorted_wrt (\<lambda>i j. rng_end i + g < rng_start j) bm"

lemma sb_bits_simps [simp]:
  "sb_bits [] = {}"
  "sb_bits (r # bm) = rng_bits r \<union> sb_bits bm"
  "sb_bits (xs @ ys) = sb_bits xs \<union> sb_bits ys"
  "sb_bits (rev xs) = sb_bits xs"
  by (auto simp: sb_bits_def)

lemma sb_gap_Nil [simp]: "sb_gap g []"
  by (simp add: sb_gap_def)

lemma sb_gap_Cons [simp]:
  "sb_gap g (r # bm) \<longleftrightarrow> rng_start r \<le> rng_end r \<and> sb_gap g bm \<and>
     (\<forall>j\<in>set bm. rng_end r + g < rng_start j)"
  by (auto simp: sb_gap_def)

lemma sb_gap_append [simp]:
  "sb_gap g (xs @ ys) \<longleftrightarrow> sb_gap g xs \<and> sb_gap g ys \<and>
     (\<forall>i\<in>set xs. \<forall>j\<in>set ys. rng_end i + g < rng_start j)"
  by (auto simp: sb_gap_def sorted_wrt_append)

lemma sb_gap_wf: "sb_gap g bm \<Longrightarrow> r \<in> set bm \<Longrightarrow> rng_start r \<le> rng_end r"
  by (auto simp: sb_gap_def list_all_iff)

lemma sb_gap_mono: "sb_gap g bm \<Longrightarrow> h \<le> g \<Longrightarrow> sb_gap h bm"
  unfolding sb_gap_def by (auto elim!: sorted_wrt_mono_rel [rotated])

lemma sb_validate_from_gap: "sb_validate_from i suf \<longleftrightarrow> (rng_start i \<le> rng_end i \<longrightarrow> sb_gap 0 (i # suf))"
  if "rng_start i \<le> rng_end i"
  using that by (induction i suf rule: sb_validate_from.induct) fastforce+

lemma sb_validate_iff: "bm \<noteq> [] \<Longrightarrow> sb_validate bm = Inr () \<longleftrightarrow> sb_gap 0 bm"
  by (cases bm) (auto simp: sb_validate_def assert_run_def sb_validate_from_gap)

section \<open>Setting a range\<close>

lemma sb_compact_right_spec:
  assumes "sb_compact_right i suf = (i1, suf1)"
    and "rng_start i \<le> rng_end i" and "sb_gap g suf" and "0 \<le> g"
    and "\<forall>j\<in>set suf. rng_start i \<le> rng_start j"
  shows "rng_start i1 = rng_start i \<and> rng_end i \<le> rng_end i1 \<and> sb_gap g suf1 \<and>
    (\<forall>j\<in>set suf1. rng_end i1 + 1 < rng_start j) \<and>
    rng_bits i1 \<union> sb_bits suf1 = rng_bits i \<union> sb_bits suf"
  using assms
proof (induction i suf rule: sb_compact_right.induct)
  case (2 i j suf)
  show ?case
  proof (cases "rng_start j - 1 \<le> rng_end i")
    case True
    let ?i = "if rng_end i < rng_end j then i\<lparr>rng_end := rng_end j\<rparr> else i"
    have "rng_bits ?i = rng_bits i \<union> rng_bits j"
      using True "2.prems" by (auto simp: rng_bits_def)
    then show ?thesis
      using True "2.prems" "2.IH" [OF True] by (auto split: if_splits)
  next
    case False
    then show ?thesis using "2.prems" by fastforce
  qed
qed auto

lemma sb_compact_left_spec:
  assumes "sb_compact_left pre i = (pre1, i1)"
    and "rng_start i \<le> rng_end i" and "sb_gap g (rev pre)" and "0 \<le> g"
    and "\<forall>j\<in>set pre. rng_end j \<le> rng_end i"
  shows "rng_end i1 = rng_end i \<and> rng_start i1 \<le> rng_start i \<and> sb_gap g (rev pre1) \<and>
    (\<forall>j\<in>set pre1. rng_end j + 1 < rng_start i1) \<and>
    rng_bits i1 \<union> sb_bits pre1 = rng_bits i \<union> sb_bits pre"
  using assms
proof (induction pre i rule: sb_compact_left.induct)
  case (2 j pre i)
  show ?case
  proof (cases "rng_start i - 1 \<le> rng_end j")
    case True
    let ?i = "if rng_start j < rng_start i then i\<lparr>rng_start := rng_start j\<rparr> else i"
    have bits: "rng_bits ?i = rng_bits i \<union> rng_bits j"
      using True "2.prems" by (auto simp: rng_bits_def)
    have step: "(let i1 = ?i in if rng_end i1 < rng_end j then i1\<lparr>rng_end := rng_end j\<rparr> else i1) = ?i"
      using "2.prems" by (simp add: Let_def)
    show ?thesis
      using True "2.prems" "2.IH" [OF True] bits step by (auto simp: Let_def split: if_splits)
  next
    case False
    then show ?thesis using "2.prems" by fastforce
  qed
qed auto

lemma sb_scan_nothing:
  assumes "sb_scan s e pre suf = Nothing_to_do" and "s \<le> e"
  shows "{s..e} \<subseteq> sb_bits suf"
  using assms by (induction s e pre suf rule: sb_scan.induct)
    (auto simp: rng_bits_def split: if_splits)

lemma sb_scan_at:
  assumes "sb_scan s e pre suf = At pre1 i suf1" and "s \<le> e" and "0 \<le> g"
    and "sb_gap g (rev pre @ suf)" and "\<forall>j\<in>set pre. rng_end j < e"
  shows "rng_start i \<le> rng_end i \<and> sb_gap g (rev pre1) \<and> sb_gap g suf1 \<and>
    (\<forall>j\<in>set pre1. rng_end j \<le> rng_end i) \<and> (\<forall>j\<in>set suf1. rng_start i \<le> rng_start j) \<and>
    rng_bits i \<union> (sb_bits pre1 \<union> sb_bits suf1) = {s..e} \<union> (sb_bits pre \<union> sb_bits suf)"
  using assms
proof (induction s e pre suf rule: sb_scan.induct)
  case (1 s e pre)
  then show ?case by (auto simp: rng_bits_def)
next
  case (2 s e pre i suf)
  show ?case
  proof (cases "rng_start i \<le> s \<and> s \<le> rng_end i + 1")
    case True
    then show ?thesis using "2.prems" by (auto simp: rng_bits_def split: if_splits) (fastforce+)?
  next
    case case2: False
    show ?thesis
    proof (cases "rng_start i - 1 \<le> e \<and> e \<le> rng_end i")
      case True
      then show ?thesis using "2.prems" case2
        by (auto simp: rng_bits_def split: if_splits) (fastforce+)?
    next
      case case3: False
      show ?thesis
      proof (cases "e < rng_start i")
        case True
        then show ?thesis using "2.prems" case2 case3 by (auto simp: rng_bits_def) (fastforce+)?
      next
        case False
        then show ?thesis using "2.prems" "2.IH" case2 case3 by (auto)
      qed
    qed
  qed
qed

lemma sb_set_run:
  assumes "sb_gap g bm" and "0 \<le> g" and "g \<le> 1" and "0 < len"
  shows "\<exists>bm'. sb_set bm s len = Inr bm' \<and> sb_gap g bm' \<and>
    sb_bits bm' = sb_bits bm \<union> {s..s + len - 1}"
proof (cases "sb_scan s (s + len - 1) [] bm")
  case Nothing_to_do
  then show ?thesis
    using assms sb_scan_nothing [OF Nothing_to_do] by (auto simp: sb_set_def)
next
  case (At pre i suf)
  obtain i1 suf1 where r: "sb_compact_right i suf = (i1, suf1)" by fastforce
  obtain pre1 i2 where l: "sb_compact_left pre i1 = (pre1, i2)" by fastforce
  let ?bm = "rev pre1 @ i2 # suf1"
  from assms have "s \<le> s + len - 1" by simp
  with sb_scan_at [OF At this \<open>0 \<le> g\<close>] assms
  have a: "rng_start i \<le> rng_end i" "sb_gap g (rev pre)" "sb_gap g suf"
    "\<forall>j\<in>set pre. rng_end j \<le> rng_end i" "\<forall>j\<in>set suf. rng_start i \<le> rng_start j"
    "rng_bits i \<union> (sb_bits pre \<union> sb_bits suf) = {s..s + len - 1} \<union> sb_bits bm"
    by simp_all
  from sb_compact_right_spec [OF r a(1) a(3) \<open>0 \<le> g\<close> a(5)]
  have b: "rng_start i1 = rng_start i" "rng_end i \<le> rng_end i1" "sb_gap g suf1"
    "\<forall>j\<in>set suf1. rng_end i1 + 1 < rng_start j"
    "rng_bits i1 \<union> sb_bits suf1 = rng_bits i \<union> sb_bits suf"
    by simp_all
  from a(1) b(1,2) have i1: "rng_start i1 \<le> rng_end i1" by simp
  from a(4) b(2) have "\<forall>j\<in>set pre. rng_end j \<le> rng_end i1" by fastforce
  from sb_compact_left_spec [OF l i1 a(2) \<open>0 \<le> g\<close> this]
  have c: "rng_end i2 = rng_end i1" "rng_start i2 \<le> rng_start i1" "sb_gap g (rev pre1)"
    "\<forall>j\<in>set pre1. rng_end j + 1 < rng_start i2"
    "rng_bits i2 \<union> sb_bits pre1 = rng_bits i1 \<union> sb_bits pre"
    by simp_all
  from c(2) i1 c(1) have i2: "rng_start i2 \<le> rng_end i2" by simp
  have right: "\<forall>j\<in>set suf1. rng_end i2 + g < rng_start j"
    using b(4) c(1) \<open>g \<le> 1\<close> by fastforce
  have left: "\<forall>j\<in>set pre1. rng_end j + g < rng_start i2"
    using c(4) \<open>g \<le> 1\<close> by fastforce
  have "\<forall>j\<in>set pre1. \<forall>k\<in>set suf1. rng_end j + g < rng_start k"
    using left right i2 \<open>0 \<le> g\<close> by fastforce
  then have gap: "sb_gap g ?bm"
    using b(3) c(3) i2 left right by simp
  have bits: "sb_bits ?bm = sb_bits bm \<union> {s..s + len - 1}"
    using a(6) b(5) c(5) by auto
  have "sb_validate ?bm = Inr ()"
    using sb_gap_mono [OF gap \<open>0 \<le> g\<close>] by (subst sb_validate_iff) simp_all
  then show ?thesis
    using At r l gap bits assms by (simp add: sb_set_def)
qed

section \<open>Clearing a range\<close>

text \<open>
  What the loop of \<open>clear\<close> makes of one entry. An entry that reaches past the cleared range
  on both sides keeps its bit \<open>s\<close>: the left part ends at \<open>s\<close>, not before it.
\<close>

definition sb_cut :: "int \<Rightarrow> int \<Rightarrow> rng \<Rightarrow> rng list" where
  "sb_cut s e i =
     (if s \<le> rng_start i \<and> rng_end i \<le> e then []
      else if s \<le> rng_start i \<and> rng_start i \<le> e then [i\<lparr>rng_start := e + 1\<rparr>]
      else if rng_start i < s \<and> s \<le> rng_end i then
        (if rng_end i \<le> e then [i\<lparr>rng_end := s - 1\<rparr>]
         else [i\<lparr>rng_end := s\<rparr>, \<lparr>rng_start = e + 1, rng_end = rng_end i\<rparr>])
      else [i])"

text \<open>The range lies inside the entry, which has bits on both sides of it.\<close>

definition sb_inside :: "int \<Rightarrow> int \<Rightarrow> rng \<Rightarrow> bool" where
  "sb_inside s e r \<longleftrightarrow> rng_start r < s \<and> s \<le> rng_end r \<and> e < rng_end r"

lemma sb_clear_loop_same:
  assumes "s \<le> e" and "\<forall>r\<in>set suf. \<not> sb_inside s e r"
  shows "sb_clear_loop capacity s e pre suf = Some (Inr (rev pre @ concat (map (sb_cut s e) suf)))"
  using assms
  by (induction suf arbitrary: pre)
    (auto simp: sb_clear_loop.simps [of _ s e _ "[]"] sb_clear_loop.simps [of _ s e _ "_ # _"] sb_cut_def sb_inside_def)

lemma sb_gap_after:
  assumes "sb_gap g (i # bm)" "0 \<le> g" "rng_start i < s" "e < rng_end i" "s \<le> e" "r \<in> set bm"
  shows "\<not> sb_inside s e r"
  using assms by (auto simp: sb_inside_def)

lemma sb_clear_loop_cut:
  assumes "s \<le> e" and "sb_gap 0 suf"
  shows "sb_clear_loop capacity s e pre suf =
    (if capacity \<le> length pre + length suf \<and> (\<exists>r\<in>set suf. sb_inside s e r) then Some (Inl Undefined)
     else Some (Inr (rev pre @ concat (map (sb_cut s e) suf))))"
  using assms(2)
proof (induction suf arbitrary: pre)
  case Nil
  then show ?case by (simp add: sb_clear_loop.simps)
next
  case (Cons i suf)
  show ?case
  proof (cases "\<exists>r\<in>set (i # suf). sb_inside s e r")
    case False
    then show ?thesis using sb_clear_loop_same [OF assms(1), of "i # suf"] by auto
  next
    case any: True
    show ?thesis
    proof (cases "sb_inside s e i")
      case True
      then have rest: "\<forall>r\<in>set suf. \<not> sb_inside s e r"
        using sb_gap_after [OF Cons.prems, of s e] assms(1) by (auto simp: sb_inside_def)
      have "rng_start i < s" "s \<le> rng_end i" "e < rng_end i" using True by (simp_all add: sb_inside_def)
      then show ?thesis
        using any assms(1) sb_clear_loop_same [OF assms(1) rest]
        by (auto simp: sb_clear_loop.simps [of capacity s e _ "_ # _"] sb_cut_def)
    next
      case False
      with any obtain r where r: "r \<in> set suf" "sb_inside s e r" by auto
      then have "rng_end i < s" using Cons.prems by (auto simp: sb_inside_def)
      moreover have "rng_start i \<le> rng_end i" "sb_gap 0 suf" using Cons.prems by simp_all
      ultimately have "sb_clear_loop capacity s e pre (i # suf) = sb_clear_loop capacity s e (i # pre) suf" "sb_cut s e i = [i]"
        using assms(1) by (auto simp: sb_clear_loop.simps [of capacity s e _ "_ # _"] sb_cut_def)
      then show ?thesis using False r \<open>sb_gap 0 suf\<close> Cons.IH [of "i # pre"] by auto
    qed
  qed
qed

lemma sb_clear_cut:
  "0 < len \<Longrightarrow> sb_gap 0 bm \<Longrightarrow> sb_clear capacity bm s len =
    (if capacity \<le> length bm \<and> (\<exists>r\<in>set bm. sb_inside s (s + len - 1) r) then Some (Inl Undefined)
     else Some (Inr (concat (map (sb_cut s (s + len - 1)) bm))))"
  by (simp add: sb_clear_def sb_clear_loop_cut)

lemma sb_cut_within:
  "\<lbrakk>s \<le> e; rng_start i \<le> rng_end i; j \<in> set (sb_cut s e i)\<rbrakk> \<Longrightarrow>
    rng_start i \<le> rng_start j \<and> rng_end j \<le> rng_end i"
  by (auto simp: sb_cut_def split: if_splits)

lemma sb_cut_gap: "\<lbrakk>s \<le> e; rng_start i \<le> rng_end i\<rbrakk> \<Longrightarrow> sb_gap 0 (sb_cut s e i)"
  by (auto simp: sb_cut_def)

lemma sb_cut_bits:
  "s \<le> e \<Longrightarrow> sb_bits (sb_cut s e i) =
    rng_bits i - {s..e} \<union> (if rng_start i < s \<and> e < rng_end i then {s} else {})"
  by (auto simp: sb_cut_def rng_bits_def)

lemma sb_cuts_gap:
  assumes "s \<le> e" and "sb_gap 0 bm"
  shows "sb_gap 0 (concat (map (sb_cut s e) bm))"
  using assms(2)
proof (induction bm)
  case (Cons i bm)
  have "rng_end j < rng_start k" if "j \<in> set (sb_cut s e i)" "i' \<in> set bm" "k \<in> set (sb_cut s e i')" for j i' k
  proof -
    from Cons.prems that have "rng_start i \<le> rng_end i" "rng_end i < rng_start i'" "rng_start i' \<le> rng_end i'"
      using sb_gap_wf [of 0 bm i'] by auto
    then show ?thesis
      using sb_cut_within [OF assms(1) _ that(1)] sb_cut_within [OF assms(1) _ that(3)] by simp
  qed
  then show ?case
    using Cons sb_cut_gap [OF assms(1)] by auto
qed simp

lemma sb_cuts_bits:
  "s \<le> e \<Longrightarrow> sb_bits (concat (map (sb_cut s e) bm)) =
    sb_bits bm - {s..e} \<union> {x. x = s \<and> (\<exists>r\<in>set bm. rng_start r < s \<and> e < rng_end r)}"
  by (induction bm) (auto simp: sb_cut_bits split: if_splits)

text \<open>An empty range: the entry it lies in is split until the vector is full.\<close>

lemma sb_clear_loop_splits:
  assumes "e < s" and "rng_start i < s" and "s \<le> rng_end i"
  shows "sb_clear_loop capacity s e pre (i # suf) = Some (Inl Undefined)"
  using assms(2,3)
proof (induction "capacity - length pre" arbitrary: pre i)
  case 0
  then show ?case using assms(1) by (simp add: sb_clear_loop.simps [of capacity])
next
  case (Suc n)
  have "sb_clear_loop capacity s e (i\<lparr>rng_end := s\<rparr> # pre) (\<lparr>rng_start = e, rng_end = rng_end i\<rparr> # suf) = Some (Inl Undefined)"
    using Suc.hyps(2) Suc.prems assms(1) by (intro Suc.hyps(1)) simp_all
  then show ?case using Suc.prems assms(1) by (simp add: sb_clear_loop.simps [of capacity s e pre])
qed

lemma sb_clear_loop_empty:
  assumes "e < s" and "r \<in> set suf" and "rng_start r < s" and "s \<le> rng_end r"
  shows "sb_clear_loop capacity s e pre suf = Some (Inl Undefined)"
  using assms(2)
proof (induction suf arbitrary: pre)
  case (Cons i suf)
  show ?case
  proof (cases "rng_start i < s \<and> s \<le> rng_end i")
    case True
    then show ?thesis using sb_clear_loop_splits [OF assms(1)] by blast
  next
    case False
    then show ?thesis using Cons assms by (auto simp: sb_clear_loop.simps [of capacity s e pre "_ # _"])
  qed
qed simp

section \<open>Queries and iteration\<close>

definition sb_elems :: "bitmap \<Rightarrow> int list" where
  "sb_elems bm = concat (map (\<lambda>r. [rng_start r..rng_end r]) bm)"

lemma sb_elems_simps [simp]:
  "sb_elems [] = []"
  "sb_elems (r # bm) = [rng_start r..rng_end r] @ sb_elems bm"
  "sb_elems (xs @ ys) = sb_elems xs @ sb_elems ys"
  by (simp_all add: sb_elems_def)

lemma set_sb_elems: "set (sb_elems bm) = sb_bits bm"
  by (induction bm) (auto simp: rng_bits_def)

lemma sorted_sb_elems: "sb_gap 0 bm \<Longrightarrow> sorted (sb_elems bm) \<and> distinct (sb_elems bm)"
  by (induction bm) (fastforce simp: sorted_append set_sb_elems sb_bits_def rng_bits_def)+

lemma sb_elems_sorted_list: "sb_gap 0 bm \<Longrightarrow> sb_elems bm = sorted_list_of_set (sb_bits bm)"
  using sorted_sb_elems [of bm] by (simp add: set_sb_elems [symmetric] sorted_list_of_set.idem_if_sorted_distinct)

lemma sb_num_set_from: "list_all (\<lambda>r. rng_start r \<le> rng_end r) bm \<Longrightarrow>
    sb_num_set_from n bm = n + int (length (sb_elems bm))"
  by (induction n bm rule: sb_num_set_from.induct) auto

lemma sb_num_set_card: "sb_gap 0 bm \<Longrightarrow> sb_num_set bm = int (card (sb_bits bm))"
  using sorted_sb_elems [of bm]
  by (simp add: sb_num_set_def sb_num_set_from sb_gap_def set_sb_elems [symmetric] distinct_card)

lemma sb_is_set_iff:
  assumes "sb_gap 1 bm" and "0 < len"
  shows "sb_is_set bm s len \<longleftrightarrow> {s..s + len - 1} \<subseteq> sb_bits bm"
  using assms(1)
proof (induction bm)
  case Nil
  then show ?case using assms(2) by simp
next
  case (Cons i bm)
  have tail: "sb_is_set bm s len \<longleftrightarrow> {s..s + len - 1} \<subseteq> sb_bits bm"
    using Cons by simp
  show ?case
  proof (cases "rng_start i \<le> s \<and> s + len - 1 \<le> rng_end i")
    case True
    then show ?thesis by (auto simp: rng_bits_def)
  next
    case False
    have out: "x \<notin> sb_bits bm" if "x \<le> rng_end i + 1" for x
      using Cons.prems that by (fastforce simp: sb_bits_def rng_bits_def)
    have "{s..s + len - 1} \<subseteq> sb_bits bm" if sub: "{s..s + len - 1} \<subseteq> rng_bits i \<union> sb_bits bm"
    proof (rule ccontr)
      assume "\<not> {s..s + len - 1} \<subseteq> sb_bits bm"
      then obtain x where "x \<in> {s..s + len - 1}" "x \<notin> sb_bits bm" by blast
      then have x: "s \<le> x" "x \<le> s + len - 1" "x \<in> rng_bits i"
        using sub by auto
      have "s \<in> rng_bits i"
        using subsetD [OF sub, of s] out [of s] x assms(2) by (force simp: rng_bits_def)
      then have "rng_end i + 1 \<in> {s..s + len - 1}"
        using False x by (auto simp: rng_bits_def)
      then have "rng_end i + 1 \<in> rng_bits i \<union> sb_bits bm"
        using sub by blast
      then show False
        using out [of "rng_end i + 1"] by (auto simp: rng_bits_def)
    qed
    then show ?thesis using False tail by auto
  qed
qed

text \<open>
  A valid iterator is the end iterator or points into a range; its position is the number of
  set bits before it. Ranges shorter than \<open>2 ^ 64\<close> make the \<open>size_t\<close> conversion exact.
\<close>

definition it_ok :: "bitmap \<Rightarrow> sb_iter \<Rightarrow> bool" where
  "it_ok bm it \<longleftrightarrow> 0 \<le> it_off it \<and>
     (if it_idx it < length bm
      then it_off it \<le> rng_end (bm ! it_idx it) - rng_start (bm ! it_idx it)
      else it_idx it = length bm \<and> it_off it = 0)"

definition it_pos :: "bitmap \<Rightarrow> sb_iter \<Rightarrow> nat" where
  "it_pos bm it = length (sb_elems (take (it_idx it) bm)) + nat (it_off it)"

definition sb_fits :: "bitmap \<Rightarrow> bool" where
  "sb_fits bm \<longleftrightarrow> list_all (\<lambda>r. rng_start r \<le> rng_end r \<and> rng_end r - rng_start r < 2 ^ 64) bm"

lemma sb_fits_nth: "sb_fits bm \<Longrightarrow> k < length bm \<Longrightarrow>
    rng_start (bm ! k) \<le> rng_end (bm ! k) \<and> rng_end (bm ! k) - rng_start (bm ! k) < 2 ^ 64"
  by (simp add: sb_fits_def list_all_length)

lemma sb_elems_take_Suc: "k < length bm \<Longrightarrow>
    sb_elems (take (Suc k) bm) = sb_elems (take k bm) @ [rng_start (bm ! k)..rng_end (bm ! k)]"
  by (simp add: take_Suc_conv_app_nth)

lemma sb_elems_split: "k < length bm \<Longrightarrow> sb_elems bm =
    sb_elems (take k bm) @ [rng_start (bm ! k)..rng_end (bm ! k)] @ sb_elems (drop (Suc k) bm)"
  by (metis id_take_nth_drop sb_elems_simps(2) sb_elems_simps(3))

lemma it_plus_0 [simp]: "it_plus bm it 0 = Inr it"
  by (simp add: it_plus.simps)

lemma it_deref_nth:
  assumes "it_ok bm it" and "it_pos bm it < length (sb_elems bm)"
  shows "it_deref bm it = Inr (sb_elems bm ! it_pos bm it)"
proof -
  have k: "it_idx it < length bm"
    using assms by (auto simp: it_ok_def it_pos_def split: if_splits)
  then show ?thesis
    using assms(1) sb_elems_split [OF k]
    by (simp add: it_deref_def it_entry_def it_pos_def it_ok_def nth_append)
qed

lemma it_plus_pos:
  assumes "sb_fits bm" and "it_ok bm it" and "it_pos bm it + d \<le> length (sb_elems bm)"
  shows "\<exists>it'. it_plus bm it d = Inr it' \<and> it_ok bm it' \<and> it_pos bm it' = it_pos bm it + d"
  using assms
proof (induction bm it d rule: it_plus.induct)
  case (1 bm it d)
  show ?case
  proof (cases "d = 0")
    case True
    then show ?thesis using "1.prems" by (simp add: it_plus.simps)
  next
    case False
    have k: "it_idx it < length bm"
      using "1.prems" False by (auto simp: it_ok_def it_pos_def split: if_splits)
    let ?r = "bm ! it_idx it"
    let ?sp = "nat (rng_end ?r - (rng_start ?r + it_off it))"
    have off: "0 \<le> it_off it" "it_off it \<le> rng_end ?r - rng_start ?r"
      using "1.prems"(2) k by (auto simp: it_ok_def)
    have sp: "(rng_end ?r - (rng_start ?r + it_off it)) mod 2 ^ 64 = rng_end ?r - (rng_start ?r + it_off it)"
      using sb_fits_nth [OF "1.prems"(1) k] off by (intro mod_pos_pos_trivial) auto
    have entry: "it_entry bm it = Inr ?r"
      using k by (simp add: it_entry_def)
    show ?thesis
    proof (cases "d \<le> ?sp")
      case True
      then show ?thesis
        using False k off sp entry by (auto simp: it_plus.simps [of bm it d] it_ok_def it_pos_def)
    next
      case more: False
      let ?it = "\<lparr>it_idx = Suc (it_idx it), it_off = 0\<rparr>"
      have ok: "it_ok bm ?it"
        using k sb_fits_nth [OF "1.prems"(1), of "Suc (it_idx it)"] by (auto simp: it_ok_def)
      have pos: "it_pos bm ?it = it_pos bm it + (?sp + 1)"
        using k off by (simp add: it_pos_def sb_elems_take_Suc nat_add_distrib [symmetric])
      have "\<exists>it'. it_plus bm ?it (d - (?sp + 1)) = Inr it' \<and> it_ok bm it' \<and>
          it_pos bm it' = it_pos bm ?it + (d - (?sp + 1))"
        using "1.IH" [OF False entry, of ?sp] sp more "1.prems" ok pos by simp
      then show ?thesis
        using False more entry sp pos by (simp add: it_plus.simps [of bm it d])
    qed
  qed
qed

lemma it_prev_entry_pos:
  assumes "sb_fits bm" and "it_ok bm it" and "0 < it_idx it"
  shows "\<exists>it'. it_prev_entry bm it = Inr it' \<and> it_ok bm it' \<and>
    it_pos bm it' + nat (it_off it) + 1 = it_pos bm it"
proof -
  obtain k where k: "it_idx it = Suc k" and len: "k < length bm"
    using assms by (cases "it_idx it") (auto simp: it_ok_def split: if_splits)
  then show ?thesis
    using assms sb_fits_nth [OF assms(1) len]
    by (auto simp: it_prev_entry_def it_entry_def it_ok_def it_pos_def sb_elems_take_Suc)
qed

lemma it_minus_pos:
  assumes "sb_fits bm" and "it_ok bm it" and "d \<le> it_pos bm it"
  shows "\<exists>it'. it_minus bm it d = Inr it' \<and> it_ok bm it' \<and> it_pos bm it' + d = it_pos bm it"
  using assms
proof (induction bm it d rule: it_minus.induct)
  case (1 bm it d)
  show ?case
  proof (cases "d = 0 \<or> int d \<le> it_off it")
    case True
    then show ?thesis
      using "1.prems" by (auto simp: it_minus.simps [of bm it d] it_ok_def it_pos_def)
  next
    case False
    then have "0 < it_idx it"
      using "1.prems"(3) by (cases "it_idx it") (auto simp: it_pos_def)
    then obtain it' where it': "it_prev_entry bm it = Inr it'" "it_ok bm it'"
        "it_pos bm it' + nat (it_off it) + 1 = it_pos bm it"
      using it_prev_entry_pos "1.prems" by blast
    have "0 \<le> it_off it" using "1.prems"(2) by (simp add: it_ok_def)
    then have d: "nat (int d - (it_off it + 1)) + nat (it_off it) + 1 = d"
      using False by linarith
    with "1.IH" [of it'] False it' "1.prems"
    obtain it2 where "it_minus bm it' (nat (int d - (it_off it + 1))) = Inr it2" "it_ok bm it2"
        "it_pos bm it2 + nat (int d - (it_off it + 1)) = it_pos bm it'"
      by fastforce
    then show ?thesis
      using False it' d by (simp add: it_minus.simps [of bm it d])
  qed
qed

lemma it_incr_plus:
  assumes "sb_fits bm" and "it_ok bm it" and "it_idx it < length bm"
  shows "it_incr bm it = it_plus bm it 1"
proof -
  have "(rng_end (bm ! it_idx it) - (rng_start (bm ! it_idx it) + it_off it)) mod 2 ^ 64 =
      rng_end (bm ! it_idx it) - (rng_start (bm ! it_idx it) + it_off it)"
    using assms sb_fits_nth [OF assms(1,3)] by (intro mod_pos_pos_trivial) (auto simp: it_ok_def)
  then show ?thesis
    using assms by (subst it_plus.simps) (auto simp: it_incr_def it_entry_def it_ok_def Let_def)
qed

section \<open>Properties\<close>

text \<open>
  Property C22. On a bitmap that \<open>validate()\<close> accepts, \<open>set(start, len)\<close> with a positive
  length passes its assertions and returns a bitmap that stands for exactly the old bits and
  the new range; it keeps the order and the gaps between entries (both the asserted ones,
  \<open>g = 0\<close>, and those of a compacted vector, \<open>g = 1\<close>).
\<close>

theorem sb_set_correct:
  assumes "sb_gap g bm" and "g \<in> {0, 1}" and "0 < len"
  shows "\<exists>bm'. sb_set bm s len = Inr bm' \<and> sb_gap g bm' \<and> sb_bits bm' = sb_bits bm \<union> {s..s + len - 1}"
  using assms by (intro sb_set_run) auto

lemma sb_set_correct_witness:
  "\<exists>bm'. sb_set [\<lparr>rng_start = 0, rng_end = 2\<rparr>, \<lparr>rng_start = 10, rng_end = 12\<rparr>] 3 7 = Inr bm' \<and>
     sb_gap 1 bm' \<and> sb_bits bm' = sb_bits [\<lparr>rng_start = 0, rng_end = 2\<rparr>, \<lparr>rng_start = 10, rng_end = 12\<rparr>] \<union> {3..3 + 7 - 1}"
  by (rule sb_set_correct) simp_all

text \<open>
  Property C24. \<open>clear(start, len)\<close> with a positive length returns. When an entry reaches past the range on both sides
  and the vector has no room for another entry, it writes through an iterator that the insertion has invalidated, which is undefined.
  In all other cases it keeps the entries valid and removes the bits of the cleared range, except one: where an entry
  reaches past the range on both sides, its bit \<open>start\<close> survives, because the left part of the split entry is
  made to end at \<open>start\<close>.
\<close>

theorem sb_clear_correct:
  assumes "sb_gap 0 bm" and "0 < len"
  shows "if capacity \<le> length bm \<and> (\<exists>r\<in>set bm. rng_start r < s \<and> s + len - 1 < rng_end r)
    then sb_clear capacity bm s len = Some (Inl Undefined)
    else \<exists>bm'. sb_clear capacity bm s len = Some (Inr bm') \<and> sb_gap 0 bm' \<and>
      sb_bits bm' = sb_bits bm - {s..s + len - 1} \<union>
        {x. x = s \<and> (\<exists>r\<in>set bm. rng_start r < s \<and> s + len - 1 < rng_end r)}"
proof -
  have "(\<exists>r\<in>set bm. sb_inside s (s + len - 1) r) \<longleftrightarrow> (\<exists>r\<in>set bm. rng_start r < s \<and> s + len - 1 < rng_end r)"
    using assms(2) by (intro bex_cong) (auto simp: sb_inside_def)
  then show ?thesis
    using sb_clear_cut [OF assms(2,1), of capacity s] sb_cuts_gap [OF _ assms(1), of s "s + len - 1"] sb_cuts_bits [of s "s + len - 1" bm] assms(2)
    by auto
qed

lemma sb_clear_correct_witness:
  "(\<exists>bm'. sb_clear 2 [\<lparr>rng_start = 0, rng_end = 9\<rparr>] 3 4 = Some (Inr bm') \<and> sb_gap 0 bm' \<and>
     sb_bits bm' = {0..9} - {3..6} \<union> {3}) \<and>
   sb_clear 1 [\<lparr>rng_start = 0, rng_end = 9\<rparr>] 3 4 = Some (Inl Undefined)"
  using sb_clear_correct [of "[\<lparr>rng_start = 0, rng_end = 9\<rparr>]" 4 2 3] sb_clear_correct [of "[\<lparr>rng_start = 0, rng_end = 9\<rparr>]" 4 1 3]
  by (simp add: rng_bits_def)

text \<open>
  A divergence. \<open>clear(start, len)\<close> with an empty (or negative) length does not return normally when
  \<open>start\<close> lies inside an entry, past its first bit: every round splits the entry again, until the vector
  has to be moved and the iterator is invalid.
\<close>

theorem sb_clear_empty_diverges:
  assumes "len \<le> 0" and "r \<in> set bm" and "rng_start r < s" and "s \<le> rng_end r"
  shows "sb_clear capacity bm s len = Some (Inl Undefined)"
  using assms by (simp add: sb_clear_def sb_clear_loop_empty)

lemma sb_clear_empty_diverges_witness: "sb_clear 100 [\<lparr>rng_start = 0, rng_end = 9\<rparr>] 5 0 = Some (Inl Undefined)"
  by (rule sb_clear_empty_diverges [of _ "\<lparr>rng_start = 0, rng_end = 9\<rparr>"]) simp_all

text \<open>
  Property C23. On a compacted bitmap \<open>is_set(start, len)\<close> decides whether the whole range is
  set, \<open>num_set()\<close> is the number of set bits, and the iterators enumerate them in order:
  \<open>begin() + n\<close> dereferences to the \<open>n\<close>-th smallest set bit, and subtracting \<open>m\<close> from it
  gives the bit \<open>m\<close> places before.
\<close>

theorem sb_queries_correct:
  assumes "sb_gap 1 bm" and "sb_fits bm" and "0 < len" and "n < card (sb_bits bm)" and "m \<le> n"
  shows "(sb_is_set bm s len \<longleftrightarrow> {s..s + len - 1} \<subseteq> sb_bits bm) \<and>
    sb_num_set bm = int (card (sb_bits bm)) \<and>
    bind_run (it_plus bm (sb_begin bm) n) (\<lambda>it. bind_run (it_minus bm it m) (it_deref bm))
      = Inr (sorted_list_of_set (sb_bits bm) ! (n - m))"
proof (intro conjI)
  have gap: "sb_gap 0 bm" by (rule sb_gap_mono [OF assms(1)]) simp
  have len: "length (sb_elems bm) = card (sb_bits bm)"
    using sb_num_set_card [OF gap] gap by (simp add: sb_num_set_def sb_num_set_from sb_gap_def)
  have ok: "it_ok bm (sb_begin bm)"
    using sb_fits_nth [OF assms(2), of 0] by (auto simp: it_ok_def sb_begin_def)
  have "it_pos bm (sb_begin bm) = 0" by (simp add: it_pos_def sb_begin_def)
  with it_plus_pos [OF assms(2) ok, of n] assms(4) len
  obtain it where it: "it_plus bm (sb_begin bm) n = Inr it" "it_ok bm it" "it_pos bm it = n"
    by auto
  with it_minus_pos [OF assms(2), of it m] assms(5)
  obtain it2 where "it_minus bm it m = Inr it2" "it_ok bm it2" "it_pos bm it2 = n - m"
    by fastforce
  then show "bind_run (it_plus bm (sb_begin bm) n) (\<lambda>it. bind_run (it_minus bm it m) (it_deref bm))
      = Inr (sorted_list_of_set (sb_bits bm) ! (n - m))"
    using it it_deref_nth [of bm it2] assms(4) len sb_elems_sorted_list [OF gap] by simp
  show "sb_num_set bm = int (card (sb_bits bm))"
    using gap by (rule sb_num_set_card)
qed (rule sb_is_set_iff [OF assms(1,3)])

definition sb_example :: bitmap where
  "sb_example = [\<lparr>rng_start = 0, rng_end = 2\<rparr>, \<lparr>rng_start = 10, rng_end = 12\<rparr>]"

lemma sb_queries_correct_witness:
  "(sb_is_set sb_example 1 2 \<longleftrightarrow> {1..1 + 2 - 1} \<subseteq> sb_bits sb_example) \<and>
    sb_num_set sb_example = int (card (sb_bits sb_example)) \<and>
    bind_run (it_plus sb_example (sb_begin sb_example) 4)
      (\<lambda>it. bind_run (it_minus sb_example it 2) (it_deref sb_example))
      = Inr (sorted_list_of_set (sb_bits sb_example) ! (4 - 2))"
proof (rule sb_queries_correct)
  have "sb_bits sb_example = {0, 1, 2, 10, 11, 12}"
    by (auto simp: rng_bits_def sb_example_def)
  then show "4 < card (sb_bits sb_example)"
    by simp
qed (simp_all add: sb_fits_def sb_example_def)

end
