(* ===== verification/LruCache.thy ===== *)
theory LruCache
  imports Prelude "HOL-Library.Multiset"
begin

text \<open>
  util/Cache.h with util/LRUList.h and util/CacheCapacityHelper.h: a cache kept as a
  \<open>std::list\<close> in least-recently-used order and a \<open>std::map\<close> from keys to list iterators.

  List iterators stay valid while their element is in the list, so an element is a node with
  an identity, the map stores node identities, and a handle is one. Dereferencing an iterator
  whose node is gone is undefined. The helper is the template parameter \<open>_CacheHelper\<close>:
  three functions on a helper state, an argument of the operations that call it, with its
  contract in the locale \<open>cache_helper\<close>. Each operation runs under the cache's lock and is
  one atomic step; the locks and the logging are not modelled.
\<close>

section \<open>State\<close>

record ('k, 'v) lru_ent =
  ent_key :: 'k
  ent_val :: 'v
  ent_pin :: int

type_synonym ('k, 'v) lru_list = "(nat \<times> ('k, 'v) lru_ent) list"

record ('h, 'k, 'v) helper_ops =
  over_limit :: "'h \<Rightarrow> 'k \<Rightarrow> 'v \<Rightarrow> bool"
  helper_put :: "'h \<Rightarrow> 'k \<Rightarrow> 'v \<Rightarrow> 'h"
  helper_cleanup :: "'h \<Rightarrow> 'k \<Rightarrow> 'v \<Rightarrow> 'h"

record ('h, 'k, 'v) cache =
  cache_list :: "('k, 'v) lru_list"
  cache_map :: "'k \<rightharpoonup> nat"
  cache_helper_state :: 'h
  reorder_on_access :: bool
  fresh_node :: nat

definition cache_init :: "'h \<Rightarrow> bool \<Rightarrow> ('h, 'k, 'v) cache" where
  "cache_init h reorder = \<lparr>cache_list = [], cache_map = Map.empty, cache_helper_state = h,
     reorder_on_access = reorder, fresh_node = 0\<rparr>"

section \<open>The list and its iterators\<close>

definition node_get :: "('k, 'v) lru_list \<Rightarrow> nat \<Rightarrow> ('k, 'v) lru_ent run" where
  "node_get xs n = (case map_of xs n of None \<Rightarrow> Inl Undefined | Some e \<Rightarrow> Inr e)"

definition node_erase :: "nat \<Rightarrow> ('k, 'v) lru_list \<Rightarrow> ('k, 'v) lru_list" where
  "node_erase n xs = filter (\<lambda>x. fst x \<noteq> n) xs"

definition move_to_back :: "('k, 'v) lru_list \<Rightarrow> nat \<Rightarrow> ('k, 'v) lru_list" where
  "move_to_back xs n = node_erase n xs @ filter (\<lambda>x. fst x = n) xs"

definition node_set_pin :: "nat \<Rightarrow> int \<Rightarrow> ('k, 'v) lru_list \<Rightarrow> ('k, 'v) lru_list" where
  "node_set_pin n p xs = map (\<lambda>(m, e). (m, if m = n then e\<lparr>ent_pin := p\<rparr> else e)) xs"

section \<open>Operations\<close>

text \<open>
  \<open>get\<close>: the value and the handle of the entry, when the key is cached; the callers that
  pass null pointers ignore them.
\<close>

definition cache_get :: "('h, 'k, 'v) cache \<Rightarrow> 'k \<Rightarrow> bool \<Rightarrow>
    (('v \<times> nat) option \<times> ('h, 'k, 'v) cache) run" where
  "cache_get c k pin = (case cache_map c k of
      None \<Rightarrow> Inr (None, c)
    | Some n \<Rightarrow> bind_run (node_get (cache_list c) n) (\<lambda>e.
        let xs = (if reorder_on_access c then move_to_back (cache_list c) n else cache_list c);
            xs' = (if pin then node_set_pin n (ent_pin e + 1) xs else xs)
        in Inr (Some (ent_val e, n), c\<lparr>cache_list := xs'\<rparr>)))"

definition cache_get_and_pin :: "('h, 'k, 'v) cache \<Rightarrow> 'k \<Rightarrow>
    (('v \<times> nat) option \<times> ('h, 'k, 'v) cache) run" where
  "cache_get_and_pin c k = cache_get c k True"

definition cache_pin_handle :: "('h, 'k, 'v) cache \<Rightarrow> nat \<Rightarrow> (int \<times> ('h, 'k, 'v) cache) run" where
  "cache_pin_handle c n = bind_run (node_get (cache_list c) n) (\<lambda>e.
     Inr (ent_pin e + 1, c\<lparr>cache_list := node_set_pin n (ent_pin e + 1) (cache_list c)\<rparr>))"

definition cache_pin :: "('h, 'k, 'v) cache \<Rightarrow> 'k \<Rightarrow> (int \<times> ('h, 'k, 'v) cache) run" where
  "cache_pin c k = (case cache_map c k of
      None \<Rightarrow> Inl Assert_failed
    | Some n \<Rightarrow> bind_run (node_get (cache_list c) n) (\<lambda>e.
        Inr (ent_pin e + 1, c\<lparr>cache_list := node_set_pin n (ent_pin e + 1) (cache_list c)\<rparr>)))"

definition cache_unpin_handle :: "('h, 'k, 'v) cache \<Rightarrow> nat \<Rightarrow> (int \<times> ('h, 'k, 'v) cache) run" where
  "cache_unpin_handle c n = bind_run (node_get (cache_list c) n) (\<lambda>e.
     Inr (ent_pin e - 1, c\<lparr>cache_list := node_set_pin n (ent_pin e - 1) (cache_list c)\<rparr>))"

definition cache_unpin :: "('h, 'k, 'v) cache \<Rightarrow> 'k \<Rightarrow> (int \<times> ('h, 'k, 'v) cache) run" where
  "cache_unpin c k = (case cache_map c k of
      None \<Rightarrow> Inl Assert_failed
    | Some n \<Rightarrow> bind_run (node_get (cache_list c) n) (\<lambda>e.
        bind_run (assert_run (0 < ent_pin e)) (\<lambda>_.
        Inr (ent_pin e - 1, c\<lparr>cache_list := node_set_pin n (ent_pin e - 1) (cache_list c)\<rparr>))))"

definition cache_evict_last :: "('h, 'k, 'v) helper_ops \<Rightarrow> ('h, 'k, 'v) cache \<Rightarrow>
    ('h, 'k, 'v) cache option" where
  "cache_evict_last ops c = (case find (\<lambda>x. ent_pin (snd x) = 0) (cache_list c) of
      None \<Rightarrow> None
    | Some (n, e) \<Rightarrow> Some (c\<lparr>
        cache_helper_state := helper_cleanup ops (cache_helper_state c) (ent_key e) (ent_val e),
        cache_map := (cache_map c)(ent_key e := None),
        cache_list := node_erase n (cache_list c)\<rparr>))"

lemma cache_evict_last_shrinks:
  "cache_evict_last ops c = Some c' \<Longrightarrow> length (cache_list c') < length (cache_list c)"
  by (fastforce simp: cache_evict_last_def node_erase_def dest: find_Some_in
      intro!: length_filter_less split: option.splits)

function cache_make_room :: "('h, 'k, 'v) helper_ops \<Rightarrow> 'k \<Rightarrow> 'v \<Rightarrow> ('h, 'k, 'v) cache \<Rightarrow>
    ('h, 'k, 'v) cache" where
  "cache_make_room ops k v c =
     (if over_limit ops (cache_helper_state c) k v
      then (case cache_evict_last ops c of None \<Rightarrow> c | Some c' \<Rightarrow> cache_make_room ops k v c')
      else c)"
  by pat_completeness auto
termination
  by (relation "measure (\<lambda>(ops, k, v, c). length (cache_list c))") (auto intro: cache_evict_last_shrinks)

declare cache_make_room.simps [simp del]

definition cache_put_and_pin :: "('h, 'k, 'v) helper_ops \<Rightarrow> ('h, 'k, 'v) cache \<Rightarrow> 'k \<Rightarrow> 'v \<Rightarrow>
    nat option \<times> ('h, 'k, 'v) cache" where
  "cache_put_and_pin ops c k v = (case cache_map c k of
      Some _ \<Rightarrow> (None, c)
    | None \<Rightarrow>
        (let c1 = cache_make_room ops k v c;
             n = fresh_node c1
         in (Some n, c1\<lparr>
           cache_list := cache_list c1 @ [(n, \<lparr>ent_key = k, ent_val = v, ent_pin = 1\<rparr>)],
           cache_map := (cache_map c1)(k \<mapsto> n),
           cache_helper_state := helper_put ops (cache_helper_state c1) k v,
           fresh_node := Suc n\<rparr>)))"

definition cache_evict :: "('h, 'k, 'v) helper_ops \<Rightarrow> ('h, 'k, 'v) cache \<Rightarrow> 'k \<Rightarrow>
    ('h, 'k, 'v) cache run" where
  "cache_evict ops c k = (case cache_map c k of
      None \<Rightarrow> Inr c
    | Some n \<Rightarrow> bind_run (node_get (cache_list c) n) (\<lambda>e.
        bind_run (assert_run (k = ent_key e)) (\<lambda>_.
        Inr (c\<lparr>cache_helper_state := helper_cleanup ops (cache_helper_state c) k (ent_val e),
               cache_list := node_erase n (cache_list c),
               cache_map := (cache_map c)(k := None)\<rparr>))))"

definition cache_evict_all :: "('h, 'k, 'v) helper_ops \<Rightarrow> ('h, 'k, 'v) cache \<Rightarrow> ('h, 'k, 'v) cache" where
  "cache_evict_all ops c = c\<lparr>
     cache_helper_state :=
       fold (\<lambda>(n, e) h. helper_cleanup ops h (ent_key e) (ent_val e)) (cache_list c) (cache_helper_state c),
     cache_list := [], cache_map := Map.empty\<rparr>"

section \<open>Handles\<close>

text \<open>
  A \<open>Handle\<close> is \<open>None\<close> when it was default constructed or has become invalid (\<open>cache_ == 0\<close>); a call through
  such a handle dereferences a null pointer. An \<open>ExternalHandle\<close> pins its entry while it lives. These objects have
  addresses, which \<open>operator=\<close> compares: \<open>H\<close> gives the handle in the object at an address.
\<close>

definition handle_pin :: "('h, 'k, 'v) cache \<Rightarrow> nat option \<Rightarrow> (int \<times> ('h, 'k, 'v) cache) run" where
  "handle_pin c h = (case h of None \<Rightarrow> Inl Undefined | Some n \<Rightarrow> cache_pin_handle c n)"

definition handle_unpin :: "('h, 'k, 'v) cache \<Rightarrow> nat option \<Rightarrow> (int \<times> nat option \<times> ('h, 'k, 'v) cache) run" where
  "handle_unpin c h = (case h of
      None \<Rightarrow> Inl Undefined
    | Some n \<Rightarrow> bind_run (cache_unpin_handle c n) (\<lambda>(count, c1).
        Inr (count, (if count = 0 then None else h), c1)))"

type_synonym ('h, 'k, 'v) ext_state = "(nat \<Rightarrow> nat option) \<times> ('h, 'k, 'v) cache"

definition ext_pin :: "nat \<Rightarrow> nat option \<Rightarrow> ('h, 'k, 'v) ext_state \<Rightarrow> ('h, 'k, 'v) ext_state run" where
  "ext_pin this h st = (case st of (H, c) \<Rightarrow>
     bind_run (handle_pin c h) (\<lambda>(count, c1). Inr (H(this := h), c1)))"

definition ext_copy :: "nat \<Rightarrow> nat \<Rightarrow> ('h, 'k, 'v) ext_state \<Rightarrow> ('h, 'k, 'v) ext_state run" where
  "ext_copy this other st = ext_pin this (fst st other) st"

definition ext_assign :: "nat \<Rightarrow> nat \<Rightarrow> ('h, 'k, 'v) ext_state \<Rightarrow> ('h, 'k, 'v) ext_state run" where
  "ext_assign this other st =
     (if other = this then Inr st
      else let old_handle = fst st this in
        bind_run (ext_pin this (fst st other) st) (\<lambda>(H, c).
        if old_handle \<noteq> None then bind_run (handle_unpin c old_handle) (\<lambda>(count, h, c1). Inr (H, c1))
        else Inr (H, c)))"

definition ext_unpin :: "nat \<Rightarrow> ('h, 'k, 'v) ext_state \<Rightarrow> ('h, 'k, 'v) ext_state run" where
  "ext_unpin this st = (case st of (H, c) \<Rightarrow>
     if H this \<noteq> None then bind_run (handle_unpin c (H this)) (\<lambda>(count, h, c1). Inr (H(this := h), c1))
     else Inr (H, c))"

section \<open>CacheCapacityHelper\<close>

record capacity_helper =
  ch_capacity :: nat
  ch_count :: nat

definition ch_over_limit :: "capacity_helper \<Rightarrow> 'k \<Rightarrow> 'v \<Rightarrow> bool" where
  "ch_over_limit h k v \<longleftrightarrow> ch_capacity h < ch_count h + 1"

definition ch_put :: "capacity_helper \<Rightarrow> 'k \<Rightarrow> 'v \<Rightarrow> capacity_helper" where
  "ch_put h k v = h\<lparr>ch_count := ch_count h + 1\<rparr>"

definition ch_cleanup :: "capacity_helper \<Rightarrow> 'k \<Rightarrow> 'v \<Rightarrow> capacity_helper" where
  "ch_cleanup h k v = h\<lparr>ch_count := ch_count h - 1\<rparr>"

definition capacity_ops :: "(capacity_helper, 'k, 'v) helper_ops" where
  "capacity_ops = \<lparr>over_limit = ch_over_limit, helper_put = ch_put, helper_cleanup = ch_cleanup\<rparr>"

section \<open>Invariant\<close>

definition cache_contents :: "('h, 'k, 'v) cache \<Rightarrow> ('k \<times> 'v) multiset" where
  "cache_contents c = image_mset (\<lambda>(n, e). (ent_key e, ent_val e)) (mset (cache_list c))"

definition cache_inv :: "('h, 'k, 'v) cache \<Rightarrow> bool" where
  "cache_inv c \<longleftrightarrow> distinct (map fst (cache_list c)) \<and>
     distinct (map (ent_key \<circ> snd) (cache_list c)) \<and>
     (\<forall>x\<in>set (cache_list c). fst x < fresh_node c) \<and>
     (\<forall>k n. cache_map c k = Some n \<longleftrightarrow> (\<exists>e. (n, e) \<in> set (cache_list c) \<and> ent_key e = k))"

definition cache_good :: "('h \<Rightarrow> ('k \<times> 'v) multiset \<Rightarrow> bool) \<Rightarrow> ('h, 'k, 'v) cache \<Rightarrow> bool" where
  "cache_good hinv c \<longleftrightarrow> cache_inv c \<and> hinv (cache_helper_state c) (cache_contents c)"

lemma node_get_in: "distinct (map fst xs) \<Longrightarrow> (n, e) \<in> set xs \<Longrightarrow> node_get xs n = Inr e"
  by (simp add: node_get_def)

lemma node_get_Inr: "node_get xs n = Inr e \<Longrightarrow> (n, e) \<in> set xs"
  by (auto simp: node_get_def dest: map_of_SomeD split: option.splits)

lemma node_get_Inl: "node_get xs n = Inl f \<longleftrightarrow> f = Undefined \<and> n \<notin> fst ` set xs"
  by (auto simp: node_get_def map_of_eq_None_iff [symmetric] split: option.splits)

lemma map_fst_node_set_pin [simp]: "map fst (node_set_pin n p xs) = map fst xs"
  by (induction xs) (auto simp: node_set_pin_def)

lemma map_key_node_set_pin [simp]:
  "map (ent_key \<circ> snd) (node_set_pin n p xs) = map (ent_key \<circ> snd) xs"
  by (induction xs) (auto simp: node_set_pin_def)

lemma set_node_set_pin:
  "(m, e) \<in> set (node_set_pin n p xs) \<longleftrightarrow>
     (\<exists>e0. (m, e0) \<in> set xs \<and> e = (if m = n then e0\<lparr>ent_pin := p\<rparr> else e0))"
  by (induction xs) (auto simp: node_set_pin_def split: if_splits)

lemma node_set_pin_keys:
  "(\<exists>e. (m, e) \<in> set (node_set_pin n p xs) \<and> ent_key e = k) \<longleftrightarrow> (\<exists>e. (m, e) \<in> set xs \<and> ent_key e = k)"
  by (auto simp: set_node_set_pin) (metis lru_ent.select_convs(1) lru_ent.surjective lru_ent.update_convs(3))+

lemma fst_node_set_pin: "(\<forall>x\<in>set (node_set_pin n p xs). fst x < b) \<longleftrightarrow> (\<forall>x\<in>set xs. fst x < b)"
  by (induction xs) (auto simp: node_set_pin_def)

lemma contents_node_set_pin [simp]:
  "image_mset (\<lambda>(n, e). (ent_key e, ent_val e)) (mset (node_set_pin m p xs)) =
   image_mset (\<lambda>(n, e). (ent_key e, ent_val e)) (mset xs)"
  by (induction xs) (auto simp: node_set_pin_def)

lemma mset_move_to_back [simp]: "mset (move_to_back xs n) = mset xs"
  by (simp add: move_to_back_def node_erase_def)

lemma set_move_to_back [simp]: "set (move_to_back xs n) = set xs"
  by (metis mset_move_to_back set_mset_mset)

lemma distinct_move_to_back [simp]: "distinct (map f (move_to_back xs n)) \<longleftrightarrow> distinct (map f xs)"
  by (metis mset_eq_imp_distinct_iff mset_map mset_move_to_back)

lemma node_set_pin_good:
  "cache_good hinv c \<Longrightarrow> cache_good hinv (c\<lparr>cache_list := node_set_pin n p (cache_list c)\<rparr>)"
  by (simp add: cache_good_def cache_inv_def cache_contents_def node_set_pin_keys fst_node_set_pin)

lemma move_to_back_good:
  "cache_good hinv c \<Longrightarrow> cache_good hinv (c\<lparr>cache_list := move_to_back (cache_list c) n\<rparr>)"
  by (simp add: cache_good_def cache_inv_def cache_contents_def)

lemma cache_map_entry:
  assumes "cache_inv c" and "cache_map c k = Some n"
  obtains e where "(n, e) \<in> set (cache_list c)" and "ent_key e = k" and "node_get (cache_list c) n = Inr e"
  using assms by (auto simp: cache_inv_def intro: node_get_in)

lemma cache_map_None:
  assumes "cache_inv c"
  shows "cache_map c k = None \<longleftrightarrow> (\<forall>x\<in>set (cache_list c). ent_key (snd x) \<noteq> k)"
proof -
  have "cache_map c k = Some n \<longleftrightarrow> (\<exists>e. (n, e) \<in> set (cache_list c) \<and> ent_key e = k)" for n
    using assms by (simp add: cache_inv_def)
  then have "(\<exists>n. cache_map c k = Some n) \<longleftrightarrow> (\<exists>x\<in>set (cache_list c). ent_key (snd x) = k)"
    by (metis prod.collapse snd_conv)
  then show ?thesis by (metis not_None_eq)
qed

lemma node_erase_split:
  fixes xs :: "('k, 'v) lru_list"
  assumes "distinct (map fst (xs @ (n, e) # ys))"
  shows "node_erase n (xs @ (n, e) # ys) = xs @ ys"
proof -
  have "filter (\<lambda>x. fst x \<noteq> n) zs = zs" if "n \<notin> fst ` set zs" for zs :: "('k, 'v) lru_list"
    using that by (intro filter_True) force
  moreover have "n \<notin> fst ` set xs" "n \<notin> fst ` set ys"
    using assms by auto
  ultimately show ?thesis by (simp add: node_erase_def)
qed

lemma node_filter_split:
  fixes xs :: "('k, 'v) lru_list"
  assumes "distinct (map fst (xs @ (n, e) # ys))"
  shows "filter (\<lambda>x. fst x = n) (xs @ (n, e) # ys) = [(n, e)]"
proof -
  have "filter (\<lambda>x. fst x = n) zs = []" if "n \<notin> fst ` set zs" for zs :: "('k, 'v) lru_list"
    using that by (intro filter_False) force
  moreover have "n \<notin> fst ` set xs" "n \<notin> fst ` set ys"
    using assms by auto
  ultimately show ?thesis by simp
qed

lemma node_set_pin_append: "node_set_pin n p (xs @ ys) = node_set_pin n p xs @ node_set_pin n p ys"
  by (simp add: node_set_pin_def)

lemma node_set_pin_absent: "n \<notin> fst ` set xs \<Longrightarrow> node_set_pin n p xs = xs"
  by (induction xs) (auto simp: node_set_pin_def)

lemma cache_invI:
  assumes "distinct (map fst (cache_list c))" and "distinct (map (ent_key \<circ> snd) (cache_list c))"
    and "\<forall>x\<in>set (cache_list c). fst x < fresh_node c"
    and "\<And>k n. cache_map c k = Some n \<longleftrightarrow> (\<exists>e. (n, e) \<in> set (cache_list c) \<and> ent_key e = k)"
  shows "cache_inv c"
  using assms by (simp add: cache_inv_def)

lemma cache_erase_inv:
  assumes inv: "cache_inv c" and split: "cache_list c = xs @ (n, e) # ys"
  shows "cache_inv (c\<lparr>cache_helper_state := h, cache_map := (cache_map c)(ent_key e := None),
    cache_list := xs @ ys\<rparr>)"
proof -
  have keys: "ent_key e' \<noteq> ent_key e" if "(m, e') \<in> set (xs @ ys)" for m e'
  proof -
    have "ent_key e \<notin> (ent_key \<circ> snd) ` set (xs @ ys)"
      using inv by (simp add: cache_inv_def split image_Un)
    with that show ?thesis by (metis comp_apply image_eqI snd_conv)
  qed
  have map: "cache_map c k = Some m \<longleftrightarrow> (\<exists>e'. (m, e') \<in> set (xs @ (n, e) # ys) \<and> ent_key e' = k)" for k m
    using inv by (simp add: cache_inv_def split)
  have "((cache_map c)(ent_key e := None)) k = Some m \<longleftrightarrow> (\<exists>e'. (m, e') \<in> set (xs @ ys) \<and> ent_key e' = k)" for k m
    using keys map [of k m] by (cases "k = ent_key e") auto
  moreover have "distinct (map fst (xs @ ys)) \<and> distinct (map (ent_key \<circ> snd) (xs @ ys)) \<and>
      (\<forall>x\<in>set (xs @ ys). fst x < fresh_node c)"
    using inv by (simp add: cache_inv_def split)
  ultimately show ?thesis
    by (intro cache_invI) (simp_all del: fun_upd_apply)
qed

text \<open>The first \<open>m\<close> unpinned entries removed, in list order: what \<open>m\<close> calls of \<open>evict_last\<close> do.\<close>

fun drop_unpinned :: "nat \<Rightarrow> ('k, 'v) lru_list \<Rightarrow> ('k, 'v) lru_list" where
  "drop_unpinned 0 xs = xs"
| "drop_unpinned (Suc m) [] = []"
| "drop_unpinned (Suc m) (x # xs) =
     (if ent_pin (snd x) = 0 then drop_unpinned m xs else x # drop_unpinned (Suc m) xs)"

lemma drop_unpinned_one:
  "ent_pin (snd x) = 0 \<Longrightarrow> \<forall>y\<in>set xs. ent_pin (snd y) \<noteq> 0 \<Longrightarrow>
    drop_unpinned (Suc m) (xs @ x # ys) = drop_unpinned m (xs @ ys)"
proof (induction xs)
  case (Cons y ys)
  then show ?case by (cases m) simp_all
qed simp

lemma drop_unpinned_Suc: "drop_unpinned i (drop_unpinned 1 xs) = drop_unpinned (Suc i) xs"
proof (induction xs)
  case (Cons x xs)
  then show ?case by (cases i) simp_all
qed (cases i; simp)

lemma cache_insert_inv:
  assumes inv: "cache_inv c" and new: "cache_map c k = None" and n: "fresh_node c = n"
  shows "cache_inv (c\<lparr>cache_list := cache_list c @ [(n, \<lparr>ent_key = k, ent_val = v, ent_pin = p\<rparr>)],
    cache_map := (cache_map c)(k \<mapsto> n), cache_helper_state := h, fresh_node := Suc n\<rparr>)"
proof -
  have keys: "ent_key e \<noteq> k" if "(m, e) \<in> set (cache_list c)" for m e
  proof
    assume "ent_key e = k"
    then have "cache_map c k = Some m" using inv that by (auto simp: cache_inv_def)
    with new show False by simp
  qed
  have ids: "m < n" if "(m, e) \<in> set (cache_list c)" for m e
    using inv n that by (force simp: cache_inv_def)
  have map: "cache_map c k' = Some m \<longleftrightarrow> (\<exists>e. (m, e) \<in> set (cache_list c) \<and> ent_key e = k')" for k' m
    using inv by (simp add: cache_inv_def)
  have "((cache_map c)(k \<mapsto> n)) k' = Some m \<longleftrightarrow>
      (\<exists>e. (m, e) \<in> set (cache_list c @ [(n, \<lparr>ent_key = k, ent_val = v, ent_pin = p\<rparr>)]) \<and> ent_key e = k')" for k' m
    using keys map [of k' m] by (cases "k' = k") auto
  moreover have "n \<notin> fst ` set (cache_list c)" "k \<notin> (ent_key \<circ> snd) ` set (cache_list c)"
    using keys ids by fastforce+
  ultimately show ?thesis
    using inv n by (intro cache_invI) (simp_all add: cache_inv_def less_Suc_eq del: fun_upd_apply)
qed

section \<open>Runs\<close>

datatype ('k, 'v) cache_op =
    Get 'k bool | Pin 'k | Unpin 'k | Pin_handle nat | Unpin_handle nat
  | Put 'k 'v | Evict 'k | Evict_all

fun cache_exec :: "('h, 'k, 'v) helper_ops \<Rightarrow> ('h, 'k, 'v) cache \<Rightarrow> ('k, 'v) cache_op \<Rightarrow>
    ('h, 'k, 'v) cache run" where
  "cache_exec ops c (Get k p) = bind_run (cache_get c k p) (\<lambda>r. Inr (snd r))"
| "cache_exec ops c (Pin k) = bind_run (cache_pin c k) (\<lambda>r. Inr (snd r))"
| "cache_exec ops c (Unpin k) = bind_run (cache_unpin c k) (\<lambda>r. Inr (snd r))"
| "cache_exec ops c (Pin_handle n) = bind_run (cache_pin_handle c n) (\<lambda>r. Inr (snd r))"
| "cache_exec ops c (Unpin_handle n) = bind_run (cache_unpin_handle c n) (\<lambda>r. Inr (snd r))"
| "cache_exec ops c (Put k v) = Inr (snd (cache_put_and_pin ops c k v))"
| "cache_exec ops c (Evict k) = cache_evict ops c k"
| "cache_exec ops c Evict_all = Inr (cache_evict_all ops c)"

fun cache_run :: "('h, 'k, 'v) helper_ops \<Rightarrow> ('h, 'k, 'v) cache \<Rightarrow> ('k, 'v) cache_op list \<Rightarrow>
    ('h, 'k, 'v) cache run" where
  "cache_run ops c [] = Inr c"
| "cache_run ops c (op # opl) = bind_run (cache_exec ops c op) (\<lambda>c'. cache_run ops c' opl)"

text \<open>The calls that a caller must not make: the assertions and stale handles of the code.\<close>

fun cache_op_fault :: "('h, 'k, 'v) cache \<Rightarrow> ('k, 'v) cache_op \<Rightarrow> fault option" where
  "cache_op_fault c (Pin k) = (if cache_map c k = None then Some Assert_failed else None)"
| "cache_op_fault c (Unpin k) =
     (if \<forall>x\<in>set (cache_list c). ent_key (snd x) = k \<longrightarrow> ent_pin (snd x) \<le> 0
      then Some Assert_failed else None)"
| "cache_op_fault c (Pin_handle n) = (if n \<in> fst ` set (cache_list c) then None else Some Undefined)"
| "cache_op_fault c (Unpin_handle n) = (if n \<in> fst ` set (cache_list c) then None else Some Undefined)"
| "cache_op_fault c _ = None"

section \<open>The helper's contract and the cache on top of it\<close>

text \<open>
  What the cache needs of its helper: the helper's state agrees with the multiset of the
  cached key-value pairs, \<open>put\<close> and \<open>cleanup\<close> keep the agreement, and \<open>over_limit\<close> decides
  whether the pair to be added would leave the limits \<open>fits\<close>.
\<close>

locale cache_helper =
  fixes ops :: "('h, 'k, 'v) helper_ops"
    and hinv :: "'h \<Rightarrow> ('k \<times> 'v) multiset \<Rightarrow> bool"
    and fits :: "('k \<times> 'v) multiset \<Rightarrow> bool"
  assumes over_limit_iff: "hinv h M \<Longrightarrow> over_limit ops h k v \<longleftrightarrow> \<not> fits (add_mset (k, v) M)"
    and put_inv: "hinv h M \<Longrightarrow> hinv (helper_put ops h k v) (add_mset (k, v) M)"
    and cleanup_inv: "hinv h (add_mset (k, v) M) \<Longrightarrow> hinv (helper_cleanup ops h k v) M"
begin

lemma evict_last_Some:
  assumes good: "cache_good hinv c" and ev: "cache_evict_last ops c = Some c'"
  shows "cache_good hinv c' \<and> cache_list c' = drop_unpinned 1 (cache_list c) \<and>
    fresh_node c' = fresh_node c \<and> (cache_map c k = None \<longrightarrow> cache_map c' k = None)"
proof -
  obtain n e where f: "find (\<lambda>x. ent_pin (snd x) = 0) (cache_list c) = Some (n, e)"
    using ev by (auto simp: cache_evict_last_def split: option.splits)
  then obtain xs ys where split: "cache_list c = xs @ (n, e) # ys" "ent_pin e = 0"
      "\<forall>y\<in>set xs. ent_pin (snd y) \<noteq> 0"
    by (auto dest!: find_Some_split)
  have inv: "cache_inv c" using good by (simp add: cache_good_def)
  have "distinct (map fst (xs @ (n, e) # ys))"
    using inv by (simp add: cache_inv_def split)
  from node_erase_split [OF this]
  have list: "node_erase n (cache_list c) = xs @ ys" by (simp add: split)
  let ?h = "helper_cleanup ops (cache_helper_state c) (ent_key e) (ent_val e)"
  have c': "c' = c\<lparr>cache_helper_state := ?h, cache_map := (cache_map c)(ent_key e := None),
      cache_list := xs @ ys\<rparr>"
    using ev f list by (simp add: cache_evict_last_def)
  have "hinv (cache_helper_state c) (add_mset (ent_key e, ent_val e) (cache_contents c'))"
    using good by (simp add: cache_good_def cache_contents_def split c')
  then have "hinv ?h (cache_contents c')" by (rule cleanup_inv)
  then have "cache_good hinv c'"
    using cache_erase_inv [OF inv split(1), of ?h] by (simp add: cache_good_def c')
  then show ?thesis
    using split drop_unpinned_one [of "(n, e)" xs 0 ys] by (simp add: c')
qed

lemma evict_last_None:
  "cache_evict_last ops c = None \<longleftrightarrow> (\<forall>x\<in>set (cache_list c). ent_pin (snd x) \<noteq> 0)"
  by (force simp: cache_evict_last_def find_None_iff dest: find_Some_in split: option.splits)

lemma make_room:
  assumes "cache_good hinv c"
  shows "\<exists>m. cache_good hinv (cache_make_room ops k v c) \<and>
    cache_list (cache_make_room ops k v c) = drop_unpinned m (cache_list c) \<and>
    (\<forall>i<m. \<not> fits (add_mset (k, v) (image_mset (\<lambda>(n, e). (ent_key e, ent_val e))
        (mset (drop_unpinned i (cache_list c)))))) \<and>
    (fits (add_mset (k, v) (cache_contents (cache_make_room ops k v c))) \<or>
      (\<forall>x\<in>set (cache_list (cache_make_room ops k v c)). ent_pin (snd x) \<noteq> 0)) \<and>
    fresh_node (cache_make_room ops k v c) = fresh_node c \<and>
    (\<forall>k'. cache_map c k' = None \<longrightarrow> cache_map (cache_make_room ops k v c) k' = None)"
  using assms
proof (induction "length (cache_list c)" arbitrary: c rule: less_induct)
  case less
  have over: "over_limit ops (cache_helper_state c) k v \<longleftrightarrow> \<not> fits (add_mset (k, v) (cache_contents c))"
    using less.prems over_limit_iff by (simp add: cache_good_def)
  show ?case
  proof (cases "fits (add_mset (k, v) (cache_contents c)) \<or> cache_evict_last ops c = None")
    case True
    then have "cache_make_room ops k v c = c"
      using over by (auto simp: cache_make_room.simps [of ops k v c])
    then show ?thesis
      using less.prems True by (intro exI [of _ 0]) (simp add: evict_last_None)
  next
    case False
    then obtain c1 where c1: "cache_evict_last ops c = Some c1" by auto
    have room: "cache_make_room ops k v c = cache_make_room ops k v c1"
      using False over c1 by (simp add: cache_make_room.simps [of ops k v c])
    note step = evict_last_Some [OF less.prems c1]
    from less.hyps [OF cache_evict_last_shrinks [OF c1]] step
    obtain m where m: "cache_good hinv (cache_make_room ops k v c1)"
      "cache_list (cache_make_room ops k v c1) = drop_unpinned m (cache_list c1)"
      "\<forall>i<m. \<not> fits (add_mset (k, v) (image_mset (\<lambda>(n, e). (ent_key e, ent_val e))
         (mset (drop_unpinned i (cache_list c1)))))"
      "fits (add_mset (k, v) (cache_contents (cache_make_room ops k v c1))) \<or>
         (\<forall>x\<in>set (cache_list (cache_make_room ops k v c1)). ent_pin (snd x) \<noteq> 0)"
      "fresh_node (cache_make_room ops k v c1) = fresh_node c1"
      "\<forall>k'. cache_map c1 k' = None \<longrightarrow> cache_map (cache_make_room ops k v c1) k' = None"
      by blast
    have comp: "drop_unpinned i (cache_list c1) = drop_unpinned (Suc i) (cache_list c)" for i
      using step drop_unpinned_Suc by simp
    have "\<forall>i<Suc m. \<not> fits (add_mset (k, v) (image_mset (\<lambda>(n, e). (ent_key e, ent_val e))
         (mset (drop_unpinned i (cache_list c)))))"
      using m(3) False by (auto simp: less_Suc_eq_0_disj comp [symmetric] cache_contents_def)
    then show ?thesis
      using m step room comp evict_last_Some [OF less.prems c1]
      by (intro exI [of _ "Suc m"]) (auto simp: room)
  qed
qed

lemma put_new:
  assumes good: "cache_good hinv c" and "cache_map c k = None"
  shows "\<exists>m c'. cache_put_and_pin ops c k v = (Some (fresh_node c), c') \<and> cache_good hinv c' \<and>
    cache_list c' = drop_unpinned m (cache_list c) @
      [(fresh_node c, \<lparr>ent_key = k, ent_val = v, ent_pin = 1\<rparr>)] \<and>
    (\<forall>i<m. \<not> fits (add_mset (k, v) (image_mset (\<lambda>(n, e). (ent_key e, ent_val e))
        (mset (drop_unpinned i (cache_list c)))))) \<and>
    (fits (cache_contents c') \<or> (\<forall>x\<in>set (drop_unpinned m (cache_list c)). ent_pin (snd x) \<noteq> 0))"
proof -
  let ?c1 = "cache_make_room ops k v c"
  obtain m where m: "cache_good hinv ?c1" "cache_list ?c1 = drop_unpinned m (cache_list c)"
    "\<forall>i<m. \<not> fits (add_mset (k, v) (image_mset (\<lambda>(n, e). (ent_key e, ent_val e))
       (mset (drop_unpinned i (cache_list c)))))"
    "fits (add_mset (k, v) (cache_contents ?c1)) \<or>
       (\<forall>x\<in>set (cache_list ?c1). ent_pin (snd x) \<noteq> 0)"
    "fresh_node ?c1 = fresh_node c" "cache_map ?c1 k = None"
    using make_room [OF good, of k v] assms(2) by blast
  obtain c' where put: "cache_put_and_pin ops c k v = (Some (fresh_node c), c')"
    using assms(2) m(5) by (simp add: cache_put_and_pin_def Let_def)
  then have c': "c' = ?c1\<lparr>
       cache_list := cache_list ?c1 @ [(fresh_node c, \<lparr>ent_key = k, ent_val = v, ent_pin = 1\<rparr>)],
       cache_map := (cache_map ?c1)(k \<mapsto> fresh_node c),
       cache_helper_state := helper_put ops (cache_helper_state ?c1) k v,
       fresh_node := Suc (fresh_node c)\<rparr>"
    using assms(2) m(5) by (simp add: cache_put_and_pin_def Let_def)
  have contents: "cache_contents c' = add_mset (k, v) (cache_contents ?c1)"
    by (simp add: c' cache_contents_def)
  have "cache_inv c'"
    using cache_insert_inv [of ?c1 k "fresh_node c"] m(1,5,6) by (simp add: c' cache_good_def)
  moreover have "hinv (cache_helper_state c') (cache_contents c')"
    using m(1) put_inv by (simp add: contents c' cache_good_def cache_contents_def)
  ultimately show ?thesis
    using put m contents by (intro exI [of _ m] exI [of _ c']) (simp add: cache_good_def c')
qed

lemma evict_all_good: "cache_good hinv c \<Longrightarrow> cache_good hinv (cache_evict_all ops c)"
proof -
  have "hinv h (image_mset (\<lambda>(n, e). (ent_key e, ent_val e)) (mset xs)) \<Longrightarrow>
      hinv (fold (\<lambda>(n, e) h. helper_cleanup ops h (ent_key e) (ent_val e)) xs h) {#}" for h xs
    by (induction xs arbitrary: h) (auto intro: cleanup_inv)
  from this [of "cache_helper_state c" "cache_list c"]
  show "cache_good hinv c \<Longrightarrow> cache_good hinv (cache_evict_all ops c)"
    by (simp add: cache_good_def cache_inv_def cache_evict_all_def cache_contents_def)
qed

lemma evict_good:
  assumes "cache_good hinv c"
  shows "\<exists>c'. cache_evict ops c k = Inr c' \<and> cache_good hinv c'"
proof (cases "cache_map c k")
  case None
  then show ?thesis using assms by (simp add: cache_evict_def)
next
  case (Some n)
  have inv: "cache_inv c" using assms by (simp add: cache_good_def)
  obtain e where e: "(n, e) \<in> set (cache_list c)" "ent_key e = k" "node_get (cache_list c) n = Inr e"
    using cache_map_entry [OF inv Some] by blast
  then obtain xs ys where split: "cache_list c = xs @ (n, e) # ys"
    by (metis split_list)
  have "distinct (map fst (xs @ (n, e) # ys))"
    using inv by (simp add: cache_inv_def split)
  from node_erase_split [OF this]
  have list: "node_erase n (cache_list c) = xs @ ys" by (simp add: split)
  have "hinv (cache_helper_state c) (add_mset (k, ent_val e)
      (image_mset (\<lambda>(n, e). (ent_key e, ent_val e)) (mset (xs @ ys))))"
    using assms e(2) by (simp add: cache_good_def cache_contents_def split)
  from cleanup_inv [OF this] cache_erase_inv [OF inv split] show ?thesis
    using Some e list by (simp add: cache_evict_def cache_good_def cache_contents_def
        cache_inv_def)
qed

lemma get_good:
  assumes "cache_good hinv c"
  shows "\<exists>r c'. cache_get c k p = Inr (r, c') \<and> cache_good hinv c'"
proof (cases "cache_map c k")
  case None
  then show ?thesis using assms by (simp add: cache_get_def)
next
  case (Some n)
  have "cache_inv c" using assms by (simp add: cache_good_def)
  then obtain e where "node_get (cache_list c) n = Inr e"
    using cache_map_entry Some by metis
  moreover have "cache_good hinv (c\<lparr>cache_list := node_set_pin n q (move_to_back (cache_list c) n)\<rparr>)" for q
    using node_set_pin_good [OF move_to_back_good [OF assms]] by simp
  ultimately show ?thesis
    using Some assms by (simp add: cache_get_def Let_def node_set_pin_good move_to_back_good)
qed

lemma put_good: "cache_good hinv c \<Longrightarrow> cache_good hinv (snd (cache_put_and_pin ops c k v))"
  using put_new [of c k v] by (cases "cache_map c k") (auto simp: cache_put_and_pin_def)

lemma pinned_good:
  "cache_good hinv c \<Longrightarrow> cache_pin c k = Inr r \<Longrightarrow> cache_good hinv (snd r)"
  "cache_good hinv c \<Longrightarrow> cache_unpin c k = Inr r \<Longrightarrow> cache_good hinv (snd r)"
  "cache_good hinv c \<Longrightarrow> cache_pin_handle c n = Inr r \<Longrightarrow> cache_good hinv (snd r)"
  "cache_good hinv c \<Longrightarrow> cache_unpin_handle c n = Inr r \<Longrightarrow> cache_good hinv (snd r)"
  by (auto simp: cache_pin_def cache_unpin_def cache_pin_handle_def cache_unpin_handle_def
      bind_run_eq_Inr node_set_pin_good split: option.splits)

lemma exec_good:
  assumes good: "cache_good hinv c" and ex: "cache_exec ops c op = Inr c'"
  shows "cache_good hinv c'"
proof (cases op)
  case (Get k p)
  with ex obtain r where "cache_get c k p = Inr (r, c')" by (auto simp: bind_run_eq_Inr)
  with get_good [OF good, of k p] show ?thesis by auto
next
  case (Pin k)
  with ex obtain r where "cache_pin c k = Inr (r, c')" by (auto simp: bind_run_eq_Inr)
  with pinned_good(1) [OF good] show ?thesis by force
next
  case (Unpin k)
  with ex obtain r where "cache_unpin c k = Inr (r, c')" by (auto simp: bind_run_eq_Inr)
  with pinned_good(2) [OF good] show ?thesis by force
next
  case (Pin_handle n)
  with ex obtain r where "cache_pin_handle c n = Inr (r, c')" by (auto simp: bind_run_eq_Inr)
  with pinned_good(3) [OF good] show ?thesis by force
next
  case (Unpin_handle n)
  with ex obtain r where "cache_unpin_handle c n = Inr (r, c')" by (auto simp: bind_run_eq_Inr)
  with pinned_good(4) [OF good] show ?thesis by force
next
  case (Put k v)
  with ex put_good [OF good] show ?thesis by auto
next
  case (Evict k)
  with ex evict_good [OF good, of k] show ?thesis by auto
next
  case Evict_all
  with ex evict_all_good [OF good] show ?thesis by auto
qed

lemma run_good: "cache_good hinv c \<Longrightarrow> cache_run ops c opl = Inr c' \<Longrightarrow> cache_good hinv c'"
  by (induction opl arbitrary: c) (auto simp: bind_run_eq_Inr dest: exec_good)

lemma exec_fault:
  assumes good: "cache_good hinv c"
  shows "cache_exec ops c op = Inl f \<longleftrightarrow> cache_op_fault c op = Some f"
proof -
  have inv: "cache_inv c" using good by (simp add: cache_good_def)
  have entry: "\<exists>e. (n, e) \<in> set (cache_list c) \<and> ent_key e = k \<and> node_get (cache_list c) n = Inr e"
    if "cache_map c k = Some n" for k n
    using cache_map_entry [OF inv that] by metis
  have unique: "e' = e" if "(n, e) \<in> set (cache_list c)" "(m, e') \<in> set (cache_list c)" "ent_key e' = ent_key e" for n e m e'
    using inv that by (auto simp: cache_inv_def distinct_map inj_on_def) force+
  have handle: "(if n \<in> fst ` set (cache_list c) then \<exists>e. node_get (cache_list c) n = Inr e
      else node_get (cache_list c) n = Inl Undefined)" for n
    by (auto simp: node_get_def map_of_eq_None_iff split: option.splits)
      (metis map_of_SomeD fst_conv image_eqI)+
  show ?thesis
  proof (cases op)
    case (Get k p)
    then show ?thesis using get_good [OF good, of k p] by auto
  next
    case (Pin k)
    then show ?thesis
      using entry by (cases "cache_map c k") (force simp: cache_pin_def)+
  next
    case (Unpin k)
    show ?thesis
    proof (cases "cache_map c k")
      case None
      then have "\<forall>x\<in>set (cache_list c). ent_key (snd x) \<noteq> k"
        using cache_map_None [OF inv] by simp
      then show ?thesis using Unpin None by (auto simp: cache_unpin_def)
    next
      case (Some n)
      then obtain e where e: "(n, e) \<in> set (cache_list c)" "ent_key e = k" "node_get (cache_list c) n = Inr e"
        using entry by blast
      then have "(\<forall>x\<in>set (cache_list c). ent_key (snd x) = k \<longrightarrow> ent_pin (snd x) \<le> 0) \<longleftrightarrow> ent_pin e \<le> 0"
        using unique by force
      then show ?thesis using Unpin Some e by (auto simp: cache_unpin_def assert_run_def)
    qed
  next
    case (Pin_handle n)
    show ?thesis
    proof (cases "n \<in> fst ` set (cache_list c)")
      case True
      then obtain e where "node_get (cache_list c) n = Inr e" using handle [of n] by metis
      with True Pin_handle show ?thesis by (simp add: cache_pin_handle_def)
    next
      case False
      then have "node_get (cache_list c) n = Inl Undefined" using handle [of n] by metis
      with False Pin_handle show ?thesis by (auto simp: cache_pin_handle_def)
    qed
  next
    case (Unpin_handle n)
    show ?thesis
    proof (cases "n \<in> fst ` set (cache_list c)")
      case True
      then obtain e where "node_get (cache_list c) n = Inr e" using handle [of n] by metis
      with True Unpin_handle show ?thesis by (simp add: cache_unpin_handle_def)
    next
      case False
      then have "node_get (cache_list c) n = Inl Undefined" using handle [of n] by metis
      with False Unpin_handle show ?thesis by (auto simp: cache_unpin_handle_def)
    qed
  next
    case (Evict k)
    then show ?thesis using evict_good [OF good, of k] by auto
  qed simp_all
qed

end

section \<open>The contract of CacheCapacityHelper\<close>

definition ch_inv :: "nat \<Rightarrow> capacity_helper \<Rightarrow> ('k \<times> 'v) multiset \<Rightarrow> bool" where
  "ch_inv cap h M \<longleftrightarrow> ch_capacity h = cap \<and> ch_count h = size M"

interpretation capacity: cache_helper capacity_ops "ch_inv cap" "\<lambda>M. size M \<le> cap" for cap
  by unfold_locales (auto simp: capacity_ops_def ch_inv_def ch_over_limit_def ch_put_def ch_cleanup_def)

definition capacity_cache :: "nat \<Rightarrow> (capacity_helper, 'k, 'v) cache" where
  "capacity_cache cap = cache_init \<lparr>ch_capacity = cap, ch_count = 0\<rparr> True"

lemma capacity_cache_good: "cache_good (ch_inv cap) (capacity_cache cap)"
  by (simp add: capacity_cache_def cache_init_def cache_good_def cache_inv_def ch_inv_def cache_contents_def)

lemmas capacity_run_good = capacity.run_good [OF capacity_cache_good]

section \<open>External handles keep the balance of the pins\<close>

lemma node_get_set_pin:
  "node_get (node_set_pin m p xs) n = map_sum id (\<lambda>e. if n = m then e\<lparr>ent_pin := p\<rparr> else e) (node_get xs n)"
  by (induction xs) (auto simp: node_get_def node_set_pin_def)

text \<open>The pins of the entry \<open>n\<close> that do not come from the external handles at the addresses \<open>A\<close>.\<close>

definition ext_refs :: "nat set \<Rightarrow> (nat \<Rightarrow> nat option) \<Rightarrow> nat \<Rightarrow> int" where
  "ext_refs A H n = int (card {a\<in>A. H a = Some n})"

definition ext_balance :: "nat set \<Rightarrow> ('h, 'k, 'v) ext_state \<Rightarrow> nat \<Rightarrow> int run" where
  "ext_balance A st n = map_sum id (\<lambda>e. ent_pin e - ext_refs A (fst st) n) (node_get (cache_list (snd st)) n)"

lemma ext_refs_del:
  assumes "finite A" "a \<in> A"
  shows "ext_refs (A - {a}) H n = ext_refs A H n - (if H a = Some n then 1 else 0)"
proof -
  have "{b\<in>A. H b = Some n} =
      (if H a = Some n then insert a {b\<in>A - {a}. H b = Some n} else {b\<in>A - {a}. H b = Some n})" using assms by auto
  then show ?thesis using assms by (simp add: ext_refs_def)
qed

lemma ext_refs_fresh: "a \<notin> A \<Longrightarrow> ext_refs A (H(a := h)) n = ext_refs A H n"
  unfolding ext_refs_def by (rule arg_cong [where f = "\<lambda>s. int (card s)"]) auto

lemma ext_refs_upd:
  assumes "finite A" "a \<in> A"
  shows "ext_refs A (H(a := h)) n = ext_refs (A - {a}) H n + (if h = Some n then 1 else 0)"
  using ext_refs_del [OF assms, of "H(a := h)" n] by (simp add: ext_refs_fresh)

definition ext_cached :: "('h, 'k, 'v) ext_state \<Rightarrow> nat \<Rightarrow> bool" where
  "ext_cached st n \<longleftrightarrow> (\<exists>e. node_get (cache_list (snd st)) n = Inr e)"

text \<open>
  Also. Copying, destroying and assigning \<open>ExternalHandle\<close> objects whose entries are cached never fails, and every entry
  keeps the pins that do not come from these objects; assigning an object to itself changes nothing.
\<close>

lemma ext_copy_balance:
  assumes "finite A" "this \<notin> A" "h = Some n" "ext_cached (H, c) n"
  shows "\<exists>c'. ext_pin this h (H, c) = Inr (H(this := h), c') \<and> ext_balance (insert this A) (H(this := h), c') = ext_balance A (H, c)"
proof -
  obtain e where e: "node_get (cache_list c) n = Inr e" using assms(4) by (auto simp: ext_cached_def)
  let ?c = "c\<lparr>cache_list := node_set_pin n (ent_pin e + 1) (cache_list c)\<rparr>"
  have "ext_balance (insert this A) (H(this := h), ?c) m = ext_balance A (H, c) m" for m
    using ext_refs_upd [of "insert this A" this H h m] e assms(1-3)
    by (cases "node_get (cache_list c) m") (auto simp: ext_balance_def node_get_set_pin simp del: fun_upd_apply)
  moreover have "ext_pin this h (H, c) = Inr (H(this := h), ?c)"
    using e assms(3) by (simp add: ext_pin_def handle_pin_def cache_pin_handle_def)
  ultimately show ?thesis by blast
qed

lemma ext_unpin_balance:
  assumes "finite A" "this \<in> A" "H this = Some n" "ext_cached (H, c) n"
  shows "\<exists>h c'. ext_unpin this (H, c) = Inr (H(this := h), c') \<and> ext_balance (A - {this}) (H(this := h), c') = ext_balance A (H, c)"
proof -
  obtain e where e: "node_get (cache_list c) n = Inr e" using assms(4) by (auto simp: ext_cached_def)
  let ?c = "c\<lparr>cache_list := node_set_pin n (ent_pin e - 1) (cache_list c)\<rparr>" and ?h = "if ent_pin e - 1 = 0 then None else Some n"
  have "ext_balance (A - {this}) (H(this := ?h), ?c) m = ext_balance A (H, c) m" for m
    using ext_refs_del [OF assms(1,2), of H m] e assms(3)
    by (cases "node_get (cache_list c) m") (auto simp: ext_balance_def node_get_set_pin ext_refs_fresh simp del: fun_upd_apply)
  moreover have "ext_unpin this (H, c) = Inr (H(this := ?h), ?c)"
    using e assms(3) by (simp add: ext_unpin_def handle_unpin_def cache_unpin_handle_def)
  ultimately show ?thesis by blast
qed

lemma ext_assign_balance:
  assumes "finite A" "this \<in> A" "other \<in> A" "this \<noteq> other \<Longrightarrow> H other \<noteq> None" "\<And>a n. a \<in> A \<Longrightarrow> H a = Some n \<Longrightarrow> ext_cached (H, c) n"
  shows "\<exists>c'. ext_assign this other (H, c) = Inr (H(this := H other), c') \<and>
    ext_balance A (H(this := H other), c') = ext_balance A (H, c) \<and> (this = other \<longrightarrow> c' = c)"
proof (cases "this = other")
  case True
  then show ?thesis by (simp add: ext_assign_def)
next
  case False
  then obtain n where n: "H other = Some n" using assms(4) by blast
  then obtain e where e: "node_get (cache_list c) n = Inr e" using assms(3,5) by (fastforce simp: ext_cached_def)
  let ?c = "c\<lparr>cache_list := node_set_pin n (ent_pin e + 1) (cache_list c)\<rparr>" and ?H = "H(this := H other)"
  have p: "ext_pin this (H other) (H, c) = Inr (?H, ?c)" using n e by (simp add: ext_pin_def handle_pin_def cache_pin_handle_def)
  note refs = ext_refs_upd [OF assms(1,2), of H "H other"] ext_refs_del [OF assms(1,2), of H]
  show ?thesis
  proof (cases "H this")
    case None
    have "ext_balance A (?H, ?c) m = ext_balance A (H, c) m" for m
      using refs [of m] n e None
      by (cases "node_get (cache_list c) m") (auto simp: ext_balance_def node_get_set_pin simp del: fun_upd_apply)
    moreover have "ext_assign this other (H, c) = Inr (?H, ?c)" using False p None by (simp add: ext_assign_def)
    ultimately show ?thesis using False by blast
  next
    case (Some k)
    then obtain d where d: "node_get (cache_list c) k = Inr d" using assms(2,5) by (fastforce simp: ext_cached_def)
    define d' where "d' = (if k = n then d\<lparr>ent_pin := ent_pin e + 1\<rparr> else d)"
    let ?c' = "?c\<lparr>cache_list := node_set_pin k (ent_pin d' - 1) (cache_list ?c)\<rparr>"
    have u: "node_get (cache_list ?c) k = Inr d'" using d by (simp add: node_get_set_pin d'_def)
    have "ext_balance A (?H, ?c') m = ext_balance A (H, c) m" for m
      using refs [of m] n e d Some
      by (cases "node_get (cache_list c) m") (auto simp: ext_balance_def node_get_set_pin d'_def simp del: fun_upd_apply)
    moreover have "ext_assign this other (H, c) = Inr (?H, ?c')" using False p Some u
      by (simp add: ext_assign_def handle_unpin_def cache_unpin_handle_def)
    ultimately show ?thesis using False by blast
  qed
qed

section \<open>Properties\<close>

text \<open>
  Property C6. A cache limited by \<open>CacheCapacityHelper\<close> keeps its invariant through every run
  of calls that ends (the calls of the cache and of its handles; an \<open>ExternalHandle\<close> makes the calls of the latter): keys and nodes are distinct, the map and the list index each other and
  the helper's count is the number of entries. From such a cache a call faults exactly when
  the caller breaks its contract: pinning a key that is not cached, unpinning one that is not
  pinned, or using a handle whose entry is gone.
\<close>

theorem cache_run_invariant:
  assumes "cache_run capacity_ops (capacity_cache cap) opl = Inr c"
  shows "cache_good (ch_inv cap) c \<and>
    (cache_exec capacity_ops c op = Inl f \<longleftrightarrow> cache_op_fault c op = Some f)"
  using capacity_run_good [OF assms] capacity.exec_fault by blast

lemma cache_run_invariant_witness:
  "\<exists>c. cache_run capacity_ops (capacity_cache 1) [Put (1::nat) True, Unpin 1, Put 2 False] = Inr c \<and>
     cache_good (ch_inv 1) c \<and>
     (cache_exec capacity_ops c (Pin 1) = Inl Assert_failed \<longleftrightarrow> cache_op_fault c (Pin 1) = Some Assert_failed)"
proof -
  obtain c where "cache_run capacity_ops (capacity_cache 1) [Put (1::nat) True, Unpin 1, Put 2 False] = Inr c"
    by (simp add: cache_put_and_pin_def cache_unpin_def cache_make_room.simps cache_evict_last_def
        capacity_ops_def ch_over_limit_def ch_put_def ch_cleanup_def capacity_cache_def cache_init_def
        node_get_def node_set_pin_def node_erase_def Let_def)
  with cache_run_invariant [OF this] show ?thesis by blast
qed

text \<open>
  Property C25. \<open>put_and_pin\<close> of a new key evicts from the front of the list (the least recently
  used end) exactly as many unpinned entries as it takes, never a pinned one, and adds the
  entry at the back with pin count 1. Afterwards the cache is within its capacity, or every
  older entry is pinned.
\<close>

theorem cache_put_evicts_lru:
  assumes "cache_good (ch_inv cap) c" and "cache_map c k = None"
  shows "\<exists>m c'. cache_put_and_pin capacity_ops c k v = (Some (fresh_node c), c') \<and>
    cache_good (ch_inv cap) c' \<and>
    cache_list c' = drop_unpinned m (cache_list c) @
      [(fresh_node c, \<lparr>ent_key = k, ent_val = v, ent_pin = 1\<rparr>)] \<and>
    (\<forall>i<m. cap < length (drop_unpinned i (cache_list c)) + 1) \<and>
    (length (cache_list c') \<le> cap \<or> (\<forall>x\<in>set (drop_unpinned m (cache_list c)). ent_pin (snd x) \<noteq> 0))"
  using capacity.put_new [OF assms, of v] by (simp add: cache_contents_def not_le)

definition cache_example :: "(capacity_helper, nat, bool) cache" where
  "cache_example = \<lparr>cache_list = [(0, \<lparr>ent_key = 1, ent_val = True, ent_pin = 0\<rparr>)],
     cache_map = [1 \<mapsto> 0], cache_helper_state = \<lparr>ch_capacity = 1, ch_count = 1\<rparr>,
     reorder_on_access = True, fresh_node = 1\<rparr>"

lemma cache_example_good: "cache_good (ch_inv 1) cache_example"
  by (auto simp: cache_example_def cache_good_def cache_inv_def ch_inv_def cache_contents_def)

lemma cache_put_evicts_lru_witness:
  "\<exists>m c'. cache_put_and_pin capacity_ops cache_example 2 False = (Some (fresh_node cache_example), c') \<and>
    cache_good (ch_inv 1) c' \<and>
    cache_list c' = drop_unpinned m (cache_list cache_example) @
      [(fresh_node cache_example, \<lparr>ent_key = 2, ent_val = False, ent_pin = 1\<rparr>)] \<and>
    (\<forall>i<m. 1 < length (drop_unpinned i (cache_list cache_example)) + 1) \<and>
    (length (cache_list c') \<le> 1 \<or> (\<forall>x\<in>set (drop_unpinned m (cache_list cache_example)). ent_pin (snd x) \<noteq> 0))"
  by (rule cache_put_evicts_lru [OF cache_example_good]) (simp add: cache_example_def)

text \<open>
  Also. \<open>get\<close> finds exactly the keys of the list's entries, returns their value and a
  handle to them, adds one to the pin count when asked to and, when the cache reorders on
  access, moves the entry to the back; it changes nothing when the key is absent.
\<close>

theorem cache_get_correct:
  assumes "cache_inv c" and "reorder_on_access c"
  shows "(\<forall>x\<in>set (cache_list c). ent_key (snd x) \<noteq> k) \<and> cache_get c k p = Inr (None, c) \<or>
    (\<exists>xs n e ys. cache_list c = xs @ (n, e) # ys \<and> ent_key e = k \<and>
       cache_get c k p = Inr (Some (ent_val e, n), c\<lparr>cache_list :=
         xs @ ys @ [(n, if p then e\<lparr>ent_pin := ent_pin e + 1\<rparr> else e)]\<rparr>))"
proof (cases "cache_map c k")
  case None
  then have "cache_get c k p = Inr (None, c)" by (simp add: cache_get_def)
  with None cache_map_None [OF assms(1)] show ?thesis by blast
next
  case (Some n)
  then obtain e where e: "(n, e) \<in> set (cache_list c)" "ent_key e = k" "node_get (cache_list c) n = Inr e"
    using cache_map_entry [OF assms(1)] by metis
  then obtain xs ys where split: "cache_list c = xs @ (n, e) # ys"
    by (metis split_list)
  have dist: "distinct (map fst (xs @ (n, e) # ys))"
    using assms(1) by (simp add: cache_inv_def split)
  have moved: "move_to_back (cache_list c) n = xs @ ys @ [(n, e)]"
    using node_erase_split [OF dist] node_filter_split [OF dist] by (simp add: move_to_back_def split)
  have pin: "node_set_pin n q (xs @ ys @ [(n, e)]) = xs @ ys @ [(n, e\<lparr>ent_pin := q\<rparr>)]" for q
    using dist by (simp add: node_set_pin_append node_set_pin_absent) (simp add: node_set_pin_def)
  have "cache_get c k p = Inr (Some (ent_val e, n), c\<lparr>cache_list :=
      xs @ ys @ [(n, if p then e\<lparr>ent_pin := ent_pin e + 1\<rparr> else e)]\<rparr>)"
    using Some e(3) moved pin assms(2) by (simp add: cache_get_def Let_def)
  then show ?thesis using split e(2) by blast
qed

lemma cache_get_correct_witness:
  "(\<forall>x\<in>set (cache_list cache_example). ent_key (snd x) \<noteq> 1) \<and>
     cache_get cache_example 1 True = Inr (None, cache_example) \<or>
    (\<exists>xs n e ys. cache_list cache_example = xs @ (n, e) # ys \<and> ent_key e = 1 \<and>
       cache_get cache_example 1 True = Inr (Some (ent_val e, n), cache_example\<lparr>cache_list :=
         xs @ ys @ [(n, if True then e\<lparr>ent_pin := ent_pin e + 1\<rparr> else e)]\<rparr>))"
  by (rule cache_get_correct)
    (use cache_example_good in \<open>simp_all add: cache_good_def cache_example_def\<close>)

end
