(* ===== verification/TokenBucket.thy ===== *)
theory TokenBucket
  imports Prelude
begin

text \<open>
  util/Time.h, util/Time.cc and util/TokenBucket.cc: seconds and microseconds in two 32-bit
  unsigned fields with the arithmetic of the code (it wraps), and the token bucket that
  refills from the elapsed milliseconds. The bucket's \<open>tokens_\<close> is an \<open>int64_t\<close>: a 64-bit
  word read with \<open>sint\<close>; mixed with the unsigned fields it is converted to unsigned, so sums
  and comparisons with them are those of the words. \<open>gettimeofday\<close> is an argument \<open>now\<close> of
  the operations that read the clock. The constructor from \<open>double\<close> and \<open>in_seconds\<close> are
  not modelled.
\<close>

section \<open>Time\<close>

datatype time = Time (t_sec: u32) (t_usec: u32)

definition time_cleanup :: "time \<Rightarrow> time" where
  "time_cleanup t =
     (if 1000000 < t_usec t
      then Time (t_sec t + t_usec t div 1000000) (t_usec t div 1000000) else t)"

definition time_mk :: "u32 \<Rightarrow> u32 \<Rightarrow> time" where
  "time_mk sec usec = time_cleanup (Time sec usec)"

definition time_get :: "time \<Rightarrow> time" where
  "time_get tv = time_cleanup (Time (t_sec tv) (t_usec tv))"

definition time_in_us :: "time \<Rightarrow> u32" where
  "time_in_us t = t_sec t * 1000000 + t_usec t"

definition time_in_ms :: "time \<Rightarrow> u32" where
  "time_in_ms t = t_sec t * 1000 + t_usec t div 1000"

definition time_lt :: "time \<Rightarrow> time \<Rightarrow> bool" where
  "time_lt a b \<longleftrightarrow> t_sec a < t_sec b \<or> (t_sec a = t_sec b \<and> t_usec a < t_usec b)"

definition time_gt :: "time \<Rightarrow> time \<Rightarrow> bool" where
  "time_gt a b \<longleftrightarrow> t_sec b < t_sec a \<or> (t_sec a = t_sec b \<and> t_usec b < t_usec a)"

definition time_le :: "time \<Rightarrow> time \<Rightarrow> bool" where
  "time_le a b \<longleftrightarrow> a = b \<or> time_lt a b"

definition time_ge :: "time \<Rightarrow> time \<Rightarrow> bool" where
  "time_ge a b \<longleftrightarrow> a = b \<or> time_gt a b"

definition time_add :: "time \<Rightarrow> time \<Rightarrow> time run" where
  "time_add this t = (let ret = time_mk (t_sec t + t_sec this) (t_usec t + t_usec this) in
     bind_run (assert_run (time_ge ret t)) (\<lambda>_. Inr ret))"

definition time_add_assign :: "time \<Rightarrow> time \<Rightarrow> time run" where
  "time_add_assign this t =
     (let this' = time_cleanup (Time (t_sec this + t_sec t) (t_usec this + t_usec t)) in
      bind_run (assert_run (time_ge this' t)) (\<lambda>_. Inr this'))"

definition time_sub_assign :: "time \<Rightarrow> time \<Rightarrow> time run" where
  "time_sub_assign this t = bind_run (assert_run (time_ge this t)) (\<lambda>_.
     let this1 = (if t_usec this < t_usec t
                  then Time (t_sec this - 1) (t_usec this + 1000000) else this)
     in Inr (Time (t_sec this1 - t_sec t) (t_usec this1 - t_usec t)))"

definition time_sub :: "time \<Rightarrow> time \<Rightarrow> time run" where
  "time_sub this t = bind_run (assert_run (time_ge this t)) (\<lambda>_. time_sub_assign this t)"

definition time_elapsed_ms :: "time \<Rightarrow> time \<Rightarrow> u32 run" where
  "time_elapsed_ms this now = (let t = time_get now in
     if time_lt t this then Inr 0
     else bind_run (time_sub_assign t this) (\<lambda>d. Inr (time_in_ms d)))"

definition time_add_seconds :: "time \<Rightarrow> u32 \<Rightarrow> time run" where
  "time_add_seconds this secs = bind_run (assert_run (secs \<le> t_sec this + secs)) (\<lambda>_.
     Inr (Time (t_sec this + secs) (t_usec this)))"

definition time_add_milliseconds :: "time \<Rightarrow> u32 \<Rightarrow> time run" where
  "time_add_milliseconds this msecs =
     (let this' = time_cleanup (Time (t_sec this + msecs div 1000) (t_usec this + (msecs mod 1000) * 1000))
      in bind_run (assert_run (msecs \<le> time_in_ms this')) (\<lambda>_. Inr this'))"

definition time_add_microseconds :: "time \<Rightarrow> u32 \<Rightarrow> time run" where
  "time_add_microseconds this usecs =
     (let this' = time_cleanup (Time (t_sec this + usecs div 1000000) (t_usec this + usecs mod 1000000))
      in bind_run (assert_run (usecs \<le> time_in_us this')) (\<lambda>_. Inr this'))"

text \<open>The code's comparison operators make the times a linear order of the library.\<close>

instantiation time :: linorder
begin

definition less_time :: "time \<Rightarrow> time \<Rightarrow> bool" where
  "less_time a b \<longleftrightarrow> time_lt a b"

definition less_eq_time :: "time \<Rightarrow> time \<Rightarrow> bool" where
  "less_eq_time a b \<longleftrightarrow> time_le a b"

instance
proof
  fix x y z :: time
  show "x < y \<longleftrightarrow> x \<le> y \<and> \<not> y \<le> x"
    by (cases x; cases y) (auto simp: less_time_def less_eq_time_def time_le_def time_lt_def)
  show "x \<le> x" by (simp add: less_eq_time_def time_le_def)
  show "x \<le> y \<Longrightarrow> y \<le> z \<Longrightarrow> x \<le> z"
    by (cases x; cases y; cases z) (auto simp: less_eq_time_def time_le_def time_lt_def)
  show "x \<le> y \<Longrightarrow> y \<le> x \<Longrightarrow> x = y"
    by (cases x; cases y) (auto simp: less_eq_time_def time_le_def time_lt_def)
  show "x \<le> y \<or> y \<le> x"
    by (cases x; cases y) (auto simp: less_eq_time_def time_le_def time_lt_def)
qed

end

lemma time_ge_iff: "time_ge a b \<longleftrightarrow> b \<le> a"
  by (cases a; cases b) (auto simp: less_eq_time_def time_ge_def time_le_def time_gt_def time_lt_def)

lemma time_lt_iff: "time_lt a b \<longleftrightarrow> a < b"
  by (simp add: less_time_def)

section \<open>The token bucket\<close>

record bucket =
  depth :: u64
  rate :: u64
  tokens :: u64
  last_update :: time

definition tb_init :: "u64 \<Rightarrow> u64 \<Rightarrow> time \<Rightarrow> bucket" where
  "tb_init d r now = \<lparr>depth = d, rate = r, tokens = d, last_update = time_get now\<rparr>"

definition tb_update :: "time \<Rightarrow> bucket \<Rightarrow> bucket run" where
  "tb_update tv tb = (let now = time_get tv in
     if tokens tb = depth tb then Inr (tb\<lparr>last_update := now\<rparr>)
     else bind_run (time_sub now (last_update tb)) (\<lambda>d.
       let elapsed = time_in_ms d;
           new_tokens = (rate tb * ucast elapsed) div 1000
       in if new_tokens \<noteq> 0 then
            (let fill = (if depth tb < tokens tb + new_tokens then depth tb - tokens tb else new_tokens)
             in Inr (tb\<lparr>tokens := tokens tb + fill, last_update := now\<rparr>))
          else Inr tb))"

definition tb_drain :: "time \<Rightarrow> bucket \<Rightarrow> u64 \<Rightarrow> bool \<Rightarrow> (bool \<times> bucket) run" where
  "tb_drain now tb n only_if_enough = bind_run (tb_update now tb) (\<lambda>tb1.
     let enough = (if sint (tokens tb1) < 0 then False else n \<le> tokens tb1);
         tb2 = (if enough \<or> \<not> only_if_enough then tb1\<lparr>tokens := tokens tb1 - n\<rparr> else tb1)
     in bind_run (assert_run (only_if_enough \<longrightarrow> 0 \<le> sint (tokens tb2))) (\<lambda>_. Inr (enough, tb2)))"

definition tb_try_to_drain :: "time \<Rightarrow> bucket \<Rightarrow> u64 \<Rightarrow> (bool \<times> bucket) run" where
  "tb_try_to_drain now tb n = tb_drain now tb n True"

text \<open>
  \<open>need * 1000000\<close> is a product of \<open>int64_t\<close>, as is \<open>n - tokens_\<close>: out of range they are
  undefined, and so is dividing by a zero rate. The quotients are unsigned and are cut to the
  32-bit arguments of \<open>Time\<close>.
\<close>

definition int64_ok :: "int \<Rightarrow> bool" where
  "int64_ok i \<longleftrightarrow> - (2 ^ 63) \<le> i \<and> i < 2 ^ 63"

definition tb_time_to_level :: "time \<Rightarrow> bucket \<Rightarrow> u64 \<Rightarrow> (time \<times> bucket) run" where
  "tb_time_to_level now tb n = bind_run (tb_update now tb) (\<lambda>tb1.
     let need = (if sint (tokens tb1) < sint n then sint n - sint (tokens tb1) else 0) in
     if int64_ok need \<and> int64_ok (need * 1000000) \<and> rate tb1 \<noteq> 0 then
       Inr (time_mk (ucast ((word_of_int need :: u64) div rate tb1))
                    (ucast ((word_of_int (need * 1000000) :: u64) div rate tb1 mod 1000000)), tb1)
     else Inl Undefined)"

definition tb_time_to_fill :: "time \<Rightarrow> bucket \<Rightarrow> (time \<times> bucket) run" where
  "tb_time_to_fill now tb = tb_time_to_level now tb (depth tb)"

definition tb_set_depth :: "time \<Rightarrow> bucket \<Rightarrow> u64 \<Rightarrow> bucket run" where
  "tb_set_depth now tb d = tb_update now (tb\<lparr>depth := d\<rparr>)"

definition tb_set_rate :: "time \<Rightarrow> bucket \<Rightarrow> u64 \<Rightarrow> bucket run" where
  "tb_set_rate now tb r = tb_update now (tb\<lparr>rate := r\<rparr>)"

definition tb_empty :: "time \<Rightarrow> bucket \<Rightarrow> bucket" where
  "tb_empty now tb = tb\<lparr>tokens := 0, last_update := time_get now\<rparr>"

section \<open>Time as a number of microseconds\<close>

definition tus :: "time \<Rightarrow> nat" where
  "tus t = unat (t_sec t) * 1000000 + unat (t_usec t)"

definition t_ok :: "time \<Rightarrow> bool" where
  "t_ok t \<longleftrightarrow> t_usec t < 1000000"

lemma t_ok_unat: "t_ok t \<longleftrightarrow> unat (t_usec t) < 1000000"
  by (simp add: t_ok_def word_less_nat_alt)

lemma time_cleanup_ok: "t_ok t \<Longrightarrow> time_cleanup t = t"
  by (auto simp: t_ok_unat time_cleanup_def word_less_nat_alt)

lemma time_get_ok: "t_ok t \<Longrightarrow> time_get t = t"
  by (simp add: time_get_def time_cleanup_ok)

lemma tus_less: "t_ok a \<Longrightarrow> t_ok b \<Longrightarrow> a < b \<longleftrightarrow> tus a < tus b"
  by (auto simp: less_time_def time_lt_def tus_def t_ok_unat word_less_nat_alt word_unat_eq_iff)

lemma tus_le: "t_ok a \<Longrightarrow> t_ok b \<Longrightarrow> a \<le> b \<longleftrightarrow> tus a \<le> tus b"
  using tus_less [of b a] by (simp add: linorder_not_less [symmetric])

lemma time_sub_ok:
  assumes "t_ok a" and "t_ok b" and "b \<le> a"
  shows "\<exists>d. time_sub a b = Inr d \<and> t_ok d \<and> tus a = tus b + tus d"
proof -
  have ge: "time_ge a b" using assms(3) by (simp add: time_ge_iff)
  have le: "tus b \<le> tus a" using assms by (simp add: tus_le)
  show ?thesis
  proof (cases "t_usec a < t_usec b")
    case True
    then have u: "unat (t_usec a) < unat (t_usec b)" by (simp add: word_less_nat_alt)
    have s: "unat (t_sec b) < unat (t_sec a)"
      using u le assms(1,2) by (auto simp: tus_def t_ok_unat)
    have s1: "unat (t_sec a - 1) = unat (t_sec a) - 1"
      using s by (intro unat_minus_one) auto
    have s2: "unat (t_sec a - 1 - t_sec b) = unat (t_sec a) - 1 - unat (t_sec b)"
      using s s1 by (subst unat_sub) (auto simp: word_le_nat_alt)
    have u1: "unat (t_usec a + 1000000) = unat (t_usec a) + 1000000"
      using assms(1) by (subst unat_add_lem [THEN iffD1]) (auto simp: t_ok_unat)
    have u2: "unat (t_usec a + 1000000 - t_usec b) = unat (t_usec a) + 1000000 - unat (t_usec b)"
      using u1 assms(2) by (subst unat_sub) (auto simp: word_le_nat_alt t_ok_unat)
    show ?thesis
      using True ge s2 u2 u s assms
      by (auto simp: time_sub_def time_sub_assign_def tus_def t_ok_unat Let_def)
  next
    case False
    then have u: "unat (t_usec b) \<le> unat (t_usec a)" by (simp add: word_less_nat_alt)
    have s: "unat (t_sec b) \<le> unat (t_sec a)"
      using u le assms(1,2) by (auto simp: tus_def t_ok_unat)
    have s2: "unat (t_sec a - t_sec b) = unat (t_sec a) - unat (t_sec b)"
      using s by (subst unat_sub) (auto simp: word_le_nat_alt)
    have u2: "unat (t_usec a - t_usec b) = unat (t_usec a) - unat (t_usec b)"
      using u by (subst unat_sub) (auto simp: word_le_nat_alt)
    show ?thesis
      using False ge s2 u2 u s assms
      by (auto simp: time_sub_def time_sub_assign_def tus_def t_ok_unat Let_def diff_mult_distrib)
  qed
qed

lemma time_in_ms_le: "1000 * unat (time_in_ms d) \<le> tus d"
proof -
  have "unat (time_in_ms d) \<le> unat (t_sec d * 1000) + unat (t_usec d div 1000)"
    unfolding time_in_ms_def by (rule unat_add_le)
  also have "\<dots> \<le> unat (t_sec d) * 1000 + unat (t_usec d) div 1000"
    using unat_mult_le [of "t_sec d" 1000] by (simp add: unat_div)
  finally show ?thesis by (simp add: tus_def)
qed

lemma time_in_ms_exact:
  assumes "t_ok d" and "tus d < 4294967296000"
  shows "unat (time_in_ms d) = tus d div 1000"
proof -
  have b: "unat (t_sec d) * 1000 + unat (t_usec d) div 1000 = tus d div 1000"
    by (simp add: tus_def)
  have lt: "unat (t_sec d) * 1000 + unat (t_usec d) div 1000 < 4294967296"
    using assms(2) b by linarith
  have "unat (t_sec d * 1000) = unat (t_sec d) * 1000"
    using lt by (subst unat_mult_lem [THEN iffD1]) auto
  then have "unat (time_in_ms d) = unat (t_sec d) * 1000 + unat (t_usec d) div 1000"
    unfolding time_in_ms_def using lt by (subst unat_add_lem [THEN iffD1]) (auto simp: unat_div)
  with b show ?thesis by simp
qed

section \<open>Refilling and draining\<close>

text \<open>The bucket holds between zero and its depth, and the depth is an \<open>int64_t\<close> value.\<close>

definition tb_ok :: "bucket \<Rightarrow> bool" where
  "tb_ok tb \<longleftrightarrow> unat (depth tb) < 2 ^ 63 \<and> unat (tokens tb) \<le> unat (depth tb) \<and> t_ok (last_update tb)"

definition tb_earned :: "bucket \<Rightarrow> time \<Rightarrow> u64" where
  "tb_earned tb d = (rate tb * ucast (time_in_ms d)) div 1000"

lemma tb_earned_le: "1000000 * unat (tb_earned tb d) \<le> unat (rate tb) * tus d"
proof -
  have "1000 * unat (tb_earned tb d) \<le> unat (rate tb * ucast (time_in_ms d))"
    by (simp add: tb_earned_def unat_div)
  also have "\<dots> \<le> unat (rate tb) * unat (time_in_ms d)"
    using unat_mult_le [of "rate tb" "ucast (time_in_ms d)"] by (simp add: unat_ucast_32_64)
  finally have "1000 * (1000 * unat (tb_earned tb d)) \<le> unat (rate tb) * (1000 * unat (time_in_ms d))"
    by simp
  also have "\<dots> \<le> unat (rate tb) * tus d"
    using time_in_ms_le by (rule mult_le_mono2)
  finally show ?thesis by simp
qed

lemma tb_earned_small: "unat (tb_earned tb d) < 2 ^ 63"
proof -
  have "unat (tb_earned tb d) \<le> 2 ^ 64 div 1000"
    using unat_lt [of "rate tb * ucast (time_in_ms d)"] by (simp add: tb_earned_def unat_div)
  then show ?thesis by simp
qed

lemma tb_update_eq:
  assumes ok: "tb_ok tb" and now: "t_ok now" and le: "last_update tb \<le> now"
  shows "\<exists>d tb'. time_sub now (last_update tb) = Inr d \<and> tus now = tus (last_update tb) + tus d \<and>
    tb_update now tb = Inr tb' \<and> tb_ok tb' \<and> depth tb' = depth tb \<and> rate tb' = rate tb \<and>
    unat (tokens tb') = min (unat (depth tb)) (unat (tokens tb) + unat (tb_earned tb d)) \<and>
    last_update tb' = (if tokens tb = depth tb \<or> tb_earned tb d \<noteq> 0 then now else last_update tb)"
proof -
  have last: "t_ok (last_update tb)" using ok by (simp add: tb_ok_def)
  obtain d where d: "time_sub now (last_update tb) = Inr d" "tus now = tus (last_update tb) + tus d"
    using time_sub_ok [OF now last le] by blast
  let ?e = "tb_earned tb d"
  have sum: "unat (tokens tb + ?e) = unat (tokens tb) + unat ?e"
    using ok tb_earned_small [of tb d] by (subst unat_add_lem [THEN iffD1]) (auto simp: tb_ok_def)
  have full: "depth tb < tokens tb + ?e \<longleftrightarrow> unat (depth tb) < unat (tokens tb) + unat ?e"
    by (simp add: word_less_nat_alt sum)
  show ?thesis
  proof (cases "tokens tb = depth tb")
    case True
    then show ?thesis
      using ok now d by (simp add: tb_update_def time_get_ok tb_ok_def)
  next
    case False
    let ?tb = "if ?e \<noteq> 0 then tb\<lparr>tokens := tokens tb + (if depth tb < tokens tb + ?e
        then depth tb - tokens tb else ?e), last_update := now\<rparr> else tb"
    have "tb_update now tb = Inr ?tb"
      using False d(1) now by (simp add: tb_update_def time_get_ok tb_earned_def Let_def)
    moreover have "unat (tokens ?tb) = min (unat (depth tb)) (unat (tokens tb) + unat ?e)"
      using full sum ok by (auto simp: tb_ok_def min_def)
    ultimately show ?thesis
      using d ok now False by (auto simp: tb_ok_def)
  qed
qed

lemma tb_try_to_drain_eq:
  assumes ok: "tb_ok tb" and now: "t_ok now" and le: "last_update tb \<le> now"
    and up: "tb_update now tb = Inr tb1"
  shows "tb_try_to_drain now tb n = (if n \<le> tokens tb1
    then Inr (True, tb1\<lparr>tokens := tokens tb1 - n\<rparr>) else Inr (False, tb1))"
proof -
  have ok1: "tb_ok tb1" using tb_update_eq [OF ok now le] up by auto
  have pos: "0 \<le> sint (tokens tb1)" using ok1 by (simp add: tb_ok_def sint64)
  have "0 \<le> sint (tokens tb1 - n)" if "n \<le> tokens tb1"
    using that ok1 by (auto simp: tb_ok_def sint64 unat_sub)
  then show ?thesis
    using pos up by (simp add: tb_try_to_drain_def tb_drain_def Let_def)
qed

fun tb_run :: "bucket \<Rightarrow> (time \<times> u64) list \<Rightarrow> (nat \<times> bucket) run" where
  "tb_run tb [] = Inr (0, tb)"
| "tb_run tb ((now, n) # reqs) = bind_run (tb_try_to_drain now tb n) (\<lambda>(enough, tb').
     bind_run (tb_run tb' reqs) (\<lambda>(granted, tb''). Inr ((if enough then unat n else 0) + granted, tb'')))"

fun clock_ok :: "time \<Rightarrow> (time \<times> u64) list \<Rightarrow> bool" where
  "clock_ok t [] = True"
| "clock_ok t ((now, n) # reqs) = (t_ok now \<and> t \<le> now \<and> clock_ok now reqs)"

lemma clock_ok_earlier: "clock_ok t reqs \<Longrightarrow> t' \<le> t \<Longrightarrow> clock_ok t' reqs"
  by (cases reqs) auto

lemma tb_drain_step:
  assumes ok: "tb_ok tb" and now: "t_ok now" and le: "last_update tb \<le> now"
  shows "\<exists>enough tb'. tb_try_to_drain now tb n = Inr (enough, tb') \<and> tb_ok tb' \<and> rate tb' = rate tb \<and>
    last_update tb' \<le> now \<and> tus (last_update tb) \<le> tus (last_update tb') \<and>
    1000000 * ((if enough then unat n else 0) + unat (tokens tb')) \<le>
      1000000 * unat (tokens tb) + unat (rate tb) * (tus (last_update tb') - tus (last_update tb))"
proof -
  obtain d tb1 where up: "tus now = tus (last_update tb) + tus d" "tb_update now tb = Inr tb1"
    "tb_ok tb1" "rate tb1 = rate tb"
    "unat (tokens tb1) = min (unat (depth tb)) (unat (tokens tb) + unat (tb_earned tb d))"
    "last_update tb1 = (if tokens tb = depth tb \<or> tb_earned tb d \<noteq> 0 then now else last_update tb)"
    using tb_update_eq [OF assms] by blast
  have pot: "1000000 * unat (tokens tb1) \<le> 1000000 * unat (tokens tb) +
      unat (rate tb) * (tus (last_update tb1) - tus (last_update tb))"
  proof (cases "tokens tb = depth tb \<or> tb_earned tb d \<noteq> 0")
    case True
    then have "tus (last_update tb1) - tus (last_update tb) = tus d" using up by simp
    moreover have "unat (tokens tb1) \<le> unat (tokens tb) + unat (tb_earned tb d)"
      using up(5) by simp
    ultimately show ?thesis using tb_earned_le [of tb d] by simp
  next
    case False
    then show ?thesis using up(5) by simp
  qed
  have last: "last_update tb1 \<le> now" "tus (last_update tb) \<le> tus (last_update tb1)"
    using up(1,6) le by auto
  show ?thesis
  proof (cases "n \<le> tokens tb1")
    case True
    then have "unat (tokens tb1 - n) = unat (tokens tb1) - unat n" "unat n \<le> unat (tokens tb1)"
      by (simp_all add: unat_sub word_le_nat_alt)
    with True show ?thesis
      using tb_try_to_drain_eq [OF ok now le up(2), of n] up(3,4) last pot
      by (intro exI [of _ True] exI [of _ "tb1\<lparr>tokens := tokens tb1 - n\<rparr>"]) (auto simp: tb_ok_def)
  next
    case False
    then show ?thesis
      using tb_try_to_drain_eq [OF ok now le up(2), of n] up(3,4) last pot
      by (intro exI [of _ False] exI [of _ tb1]) simp
  qed
qed

lemma tb_run_bound:
  assumes "tb_ok tb" and "clock_ok (last_update tb) reqs"
  shows "\<exists>granted tb'. tb_run tb reqs = Inr (granted, tb') \<and> tb_ok tb' \<and> rate tb' = rate tb \<and>
    tus (last_update tb) \<le> tus (last_update tb') \<and>
    1000000 * (granted + unat (tokens tb')) \<le>
      1000000 * unat (tokens tb) + unat (rate tb) * (tus (last_update tb') - tus (last_update tb))"
  using assms
proof (induction reqs arbitrary: tb)
  case Nil
  then show ?case by simp
next
  case (Cons q reqs)
  obtain now n where q: "q = (now, n)" by (cases q)
  obtain e tb1 where d: "tb_try_to_drain now tb n = Inr (e, tb1)" "tb_ok tb1" "rate tb1 = rate tb"
    "last_update tb1 \<le> now" "tus (last_update tb) \<le> tus (last_update tb1)"
    "1000000 * ((if e then unat n else 0) + unat (tokens tb1)) \<le>
      1000000 * unat (tokens tb) + unat (rate tb) * (tus (last_update tb1) - tus (last_update tb))"
    using tb_drain_step [of tb now n] Cons.prems q by auto
  have "clock_ok (last_update tb1) reqs"
    using Cons.prems(2) d(4) clock_ok_earlier q by auto
  with Cons.IH [OF d(2)] obtain g tb2 where r: "tb_run tb1 reqs = Inr (g, tb2)" "tb_ok tb2" "rate tb2 = rate tb1"
    "tus (last_update tb1) \<le> tus (last_update tb2)"
    "1000000 * (g + unat (tokens tb2)) \<le>
      1000000 * unat (tokens tb1) + unat (rate tb) * (tus (last_update tb2) - tus (last_update tb1))"
    using d(3) by auto
  have "tus (last_update tb2) - tus (last_update tb) =
      (tus (last_update tb1) - tus (last_update tb)) + (tus (last_update tb2) - tus (last_update tb1))"
    using d(5) r(4) by simp
  then have "unat (rate tb) * (tus (last_update tb2) - tus (last_update tb)) =
      unat (rate tb) * (tus (last_update tb1) - tus (last_update tb)) +
      unat (rate tb) * (tus (last_update tb2) - tus (last_update tb1))"
    by (simp add: distrib_left)
  with d r q show ?case by auto
qed

section \<open>Properties\<close>

text \<open>
  Also. Subtraction of times with a proper microseconds field: it asserts that the
  result is not negative, and otherwise returns exactly the difference, again with a proper
  microseconds field.
\<close>

theorem time_sub_correct:
  assumes "t_ok a" and "t_ok b"
  shows "if a < b then time_sub a b = Inl Assert_failed
    else \<exists>d. time_sub a b = Inr d \<and> t_ok d \<and> tus a = tus b + tus d"
proof (cases "a < b")
  case True
  then have "\<not> b \<le> a" by simp
  with True show ?thesis by (simp add: time_sub_def time_ge_iff)
next
  case False
  with time_sub_ok [OF assms] show ?thesis by (metis not_less)
qed

lemma time_sub_correct_witness:
  "if Time 5 100 < Time 3 900000 then time_sub (Time 5 100) (Time 3 900000) = Inl Assert_failed
    else \<exists>d. time_sub (Time 5 100) (Time 3 900000) = Inr d \<and> t_ok d \<and> tus (Time 5 100) = tus (Time 3 900000) + tus d"
  by (rule time_sub_correct) (simp_all add: t_ok_def)

text \<open>
  A divergence. Addition of times is exact while the microseconds add up to at most a second.
  Beyond that \<open>cleanup()\<close> divides the microseconds by 1000000 where it should keep the
  remainder: the result always has one microsecond.
\<close>

theorem time_add_carry:
  assumes "t_ok a" and "t_ok b" and "unat (t_sec a) + unat (t_sec b) + 1 < 2 ^ 32"
  shows "if unat (t_usec a) + unat (t_usec b) \<le> 1000000
    then \<exists>c. time_add a b = Inr c \<and> tus c = tus a + tus b
    else time_add a b = Inr (Time (t_sec a + t_sec b + 1) 1)"
proof -
  have s: "unat (t_sec b + t_sec a) = unat (t_sec a) + unat (t_sec b)"
    using assms(3) by (subst unat_add_lem [THEN iffD1]) auto
  have u: "unat (t_usec b + t_usec a) = unat (t_usec a) + unat (t_usec b)"
    using assms(1,2) by (subst unat_add_lem [THEN iffD1]) (auto simp: t_ok_unat)
  have s1: "unat (t_sec b + t_sec a + 1) = unat (t_sec a) + unat (t_sec b) + 1"
    using assms(3) s by (subst unat_add_lem [THEN iffD1]) auto
  show ?thesis
  proof (cases "unat (t_usec a) + unat (t_usec b) \<le> 1000000")
    case True
    then have mk: "time_mk (t_sec b + t_sec a) (t_usec b + t_usec a) =
        Time (t_sec b + t_sec a) (t_usec b + t_usec a)"
      using u by (simp add: time_mk_def time_cleanup_def word_less_nat_alt)
    have "time_ge (Time (t_sec b + t_sec a) (t_usec b + t_usec a)) b"
      using s u by (cases b) (auto simp: time_ge_def time_gt_def word_less_nat_alt word_unat_eq_iff)
    then show ?thesis
      using True mk s u by (simp add: time_add_def tus_def)
  next
    case False
    have "unat ((t_usec b + t_usec a) div 1000000) = 1"
      using False assms(1,2) u by (simp add: unat_div t_ok_unat div_nat_eqI)
    then have q: "(t_usec b + t_usec a) div 1000000 = 1"
      by (simp add: word_unat_eq_iff)
    have mk: "time_mk (t_sec b + t_sec a) (t_usec b + t_usec a) = Time (t_sec b + t_sec a + 1) 1"
      using False u q by (simp add: time_mk_def time_cleanup_def word_less_nat_alt)
    have "time_ge (Time (t_sec b + t_sec a + 1) 1) b"
      using s1 by (auto simp: time_ge_def time_gt_def word_less_nat_alt)
    then show ?thesis
      using False mk by (simp add: time_add_def add.commute)
  qed
qed

lemma time_add_carry_witness:
  "if unat (t_usec (Time 1 700000)) + unat (t_usec (Time 2 800000)) \<le> 1000000
    then \<exists>c. time_add (Time 1 700000) (Time 2 800000) = Inr c \<and> tus c = tus (Time 1 700000) + tus (Time 2 800000)
    else time_add (Time 1 700000) (Time 2 800000) = Inr (Time (t_sec (Time 1 700000) + t_sec (Time 2 800000) + 1) 1)"
  by (rule time_add_carry) (simp_all add: t_ok_def)

text \<open>
  Property C26. The rate limit, with a clock whose readings are normalised and never go back
  (\<open>clock_ok\<close>; when it goes back the bucket dies, \<open>tb_clock_back\<close>). A bucket that only ever serves
  \<open>try_to_drain\<close> never fails an assertion, stays between empty and full, and what it grants over a
  run of requests is at most what it held plus the rate times the elapsed time, wrap-around of
  the 32-bit milliseconds and of the 64-bit product included.
\<close>

theorem tb_rate_bound:
  assumes "tb_ok tb" and "clock_ok (last_update tb) reqs"
  shows "\<exists>granted tb'. tb_run tb reqs = Inr (granted, tb') \<and> tb_ok tb' \<and>
    1000000 * (granted + unat (tokens tb')) \<le> 1000000 * unat (tokens tb) +
      unat (rate tb) * (tus (last_update tb') - tus (last_update tb))"
  using tb_run_bound [OF assms] by blast

lemma tb_rate_bound_witness:
  "\<exists>granted tb'. tb_run \<lparr>depth = 100, rate = 50, tokens = 20, last_update = Time 1 0\<rparr>
       [(Time 1 500000, 30), (Time 2 0, 60)] = Inr (granted, tb') \<and> tb_ok tb' \<and>
    1000000 * (granted + unat (tokens tb')) \<le>
      1000000 * unat (tokens \<lparr>depth = 100, rate = 50, tokens = 20, last_update = Time 1 0\<rparr>) +
      unat (rate \<lparr>depth = 100, rate = 50, tokens = 20, last_update = Time 1 0\<rparr>) * (tus (last_update tb') -
        tus (last_update \<lparr>depth = 100, rate = 50, tokens = 20, last_update = Time 1 0\<rparr>))"
  by (rule tb_rate_bound) (simp_all add: tb_ok_def t_ok_def less_eq_time_def time_le_def time_lt_def)

text \<open>
  A divergence. \<open>elapsed_ms\<close> tests for a clock that has gone back, which its comment says was
  seen; \<open>update\<close> subtracts without that test, so that a bucket which is not full fails the assertion of
  \<open>operator-\<close>, while a full one survives.
\<close>

lemma tb_clock_back:
  assumes "t_ok now" and "now < last_update tb"
  shows "time_elapsed_ms (last_update tb) now = Inr 0"
    and "tb_update now tb = (if tokens tb = depth tb then Inr (tb\<lparr>last_update := now\<rparr>) else Inl Assert_failed)"
    and "tokens tb \<noteq> depth tb \<Longrightarrow> tb_drain now tb n b = Inl Assert_failed"
proof -
  show e: "tb_update now tb = (if tokens tb = depth tb then Inr (tb\<lparr>last_update := now\<rparr>) else Inl Assert_failed)"
    using assms(1) assms(2) [folded not_le] by (simp add: tb_update_def time_get_ok time_sub_def time_ge_iff assert_run_def)
  show "time_elapsed_ms (last_update tb) now = Inr 0"
    using assms by (simp add: time_elapsed_ms_def time_get_ok time_lt_iff)
  show "tokens tb \<noteq> depth tb \<Longrightarrow> tb_drain now tb n b = Inl Assert_failed" by (simp add: tb_drain_def e)
qed

text \<open>
  A divergence. A bucket in debt. \<open>drain\<close> may leave a negative number of tokens; the next
  refill that is smaller than the debt then fills the bucket to its depth, because the sum is
  compared as unsigned, and when the elapsed time earns nothing \<open>try_to_drain\<close> dies in its
  own assertion instead of returning false.
\<close>

theorem tb_debt:
  assumes "unat (depth tb) < 2 ^ 63" and "sint (tokens tb) < 0" and "t_ok now"
    and "time_sub now (last_update tb) = Inr d" and "int (unat (tb_earned tb d)) < - sint (tokens tb)"
  shows "if tb_earned tb d = 0 then tb_try_to_drain now tb n = Inl Assert_failed
    else tb_update now tb = Inr (tb\<lparr>tokens := depth tb, last_update := now\<rparr>)"
proof -
  have big: "2 ^ 63 \<le> unat (tokens tb)" and k: "- sint (tokens tb) = 2 ^ 64 - int (unat (tokens tb))"
    using assms(2) by (auto simp: sint64 split: if_splits)
  have "int (unat (tokens tb) + unat (tb_earned tb d)) < int (2 ^ 64)"
    using assms(5) k by simp
  then have "unat (tokens tb) + unat (tb_earned tb d) < 2 ^ 64"
    by (simp only: of_nat_less_iff)
  then have sum: "unat (tokens tb + tb_earned tb d) = unat (tokens tb) + unat (tb_earned tb d)"
    by (subst unat_add_lem [THEN iffD1]) auto
  have ne: "tokens tb \<noteq> depth tb" using big assms(1) by auto
  have over: "depth tb < tokens tb + tb_earned tb d"
    using big sum assms(1) by (simp add: word_less_nat_alt)
  show ?thesis
  proof (cases "tb_earned tb d = 0")
    case True
    then have "tb_update now tb = Inr tb"
      using ne assms(3,4) by (simp add: tb_update_def time_get_ok tb_earned_def Let_def)
    then show ?thesis
      using True assms(2) by (simp add: tb_try_to_drain_def tb_drain_def Let_def)
  next
    case False
    then show ?thesis
      using ne over assms(3,4) by (simp add: tb_update_def time_get_ok tb_earned_def Let_def)
  qed
qed

lemma tb_debt_witness:
  "if tb_earned \<lparr>depth = 100, rate = 10, tokens = - 50, last_update = Time 1 0\<rparr> (Time 1 0) = 0
    then tb_try_to_drain (Time 2 0) \<lparr>depth = 100, rate = 10, tokens = - 50, last_update = Time 1 0\<rparr> 5 = Inl Assert_failed
    else tb_update (Time 2 0) \<lparr>depth = 100, rate = 10, tokens = - 50, last_update = Time 1 0\<rparr> =
      Inr (\<lparr>depth = 100, rate = 10, tokens = - 50, last_update = Time 1 0\<rparr>\<lparr>tokens :=
        depth \<lparr>depth = 100, rate = 10, tokens = - 50, last_update = Time 1 0\<rparr>, last_update := Time 2 0\<rparr>)"
  by (rule tb_debt) (simp_all add: t_ok_def time_sub_def time_sub_assign_def time_ge_def time_gt_def
      tb_earned_def time_in_ms_def)

end
