(* ===== verification/Crc32.thy ===== *)
theory Crc32
  imports Prelude
begin

unbundle bit_operations_syntax

text \<open>
  util/CRC32.h and util/CRC32.cc: the table-driven CRC-32. The table is the source's, entry
  by entry. The specification below processes a byte bit by bit with the reversed
  polynomial; \<open>crc_update_bitwise\<close> shows that the table computes it.
\<close>

section \<open>The code\<close>

definition CRCINIT :: u32 where
  "CRCINIT = 0xFFFFFFFF"

definition CRCXOROT :: u32 where
  "CRCXOROT = 0xFFFFFFFF"

definition CRCTABLE :: "u32 list" where
  "CRCTABLE = [
   0x00000000, 0x77073096, 0xEE0E612C, 0x990951BA, 0x076DC419, 0x706AF48F, 0xE963A535, 0x9E6495A3,
   0x0EDB8832, 0x79DCB8A4, 0xE0D5E91E, 0x97D2D988, 0x09B64C2B, 0x7EB17CBD, 0xE7B82D07, 0x90BF1D91,
   0x1DB71064, 0x6AB020F2, 0xF3B97148, 0x84BE41DE, 0x1ADAD47D, 0x6DDDE4EB, 0xF4D4B551, 0x83D385C7,
   0x136C9856, 0x646BA8C0, 0xFD62F97A, 0x8A65C9EC, 0x14015C4F, 0x63066CD9, 0xFA0F3D63, 0x8D080DF5,
   0x3B6E20C8, 0x4C69105E, 0xD56041E4, 0xA2677172, 0x3C03E4D1, 0x4B04D447, 0xD20D85FD, 0xA50AB56B,
   0x35B5A8FA, 0x42B2986C, 0xDBBBC9D6, 0xACBCF940, 0x32D86CE3, 0x45DF5C75, 0xDCD60DCF, 0xABD13D59,
   0x26D930AC, 0x51DE003A, 0xC8D75180, 0xBFD06116, 0x21B4F4B5, 0x56B3C423, 0xCFBA9599, 0xB8BDA50F,
   0x2802B89E, 0x5F058808, 0xC60CD9B2, 0xB10BE924, 0x2F6F7C87, 0x58684C11, 0xC1611DAB, 0xB6662D3D,
   0x76DC4190, 0x01DB7106, 0x98D220BC, 0xEFD5102A, 0x71B18589, 0x06B6B51F, 0x9FBFE4A5, 0xE8B8D433,
   0x7807C9A2, 0x0F00F934, 0x9609A88E, 0xE10E9818, 0x7F6A0DBB, 0x086D3D2D, 0x91646C97, 0xE6635C01,
   0x6B6B51F4, 0x1C6C6162, 0x856530D8, 0xF262004E, 0x6C0695ED, 0x1B01A57B, 0x8208F4C1, 0xF50FC457,
   0x65B0D9C6, 0x12B7E950, 0x8BBEB8EA, 0xFCB9887C, 0x62DD1DDF, 0x15DA2D49, 0x8CD37CF3, 0xFBD44C65,
   0x4DB26158, 0x3AB551CE, 0xA3BC0074, 0xD4BB30E2, 0x4ADFA541, 0x3DD895D7, 0xA4D1C46D, 0xD3D6F4FB,
   0x4369E96A, 0x346ED9FC, 0xAD678846, 0xDA60B8D0, 0x44042D73, 0x33031DE5, 0xAA0A4C5F, 0xDD0D7CC9,
   0x5005713C, 0x270241AA, 0xBE0B1010, 0xC90C2086, 0x5768B525, 0x206F85B3, 0xB966D409, 0xCE61E49F,
   0x5EDEF90E, 0x29D9C998, 0xB0D09822, 0xC7D7A8B4, 0x59B33D17, 0x2EB40D81, 0xB7BD5C3B, 0xC0BA6CAD,
   0xEDB88320, 0x9ABFB3B6, 0x03B6E20C, 0x74B1D29A, 0xEAD54739, 0x9DD277AF, 0x04DB2615, 0x73DC1683,
   0xE3630B12, 0x94643B84, 0x0D6D6A3E, 0x7A6A5AA8, 0xE40ECF0B, 0x9309FF9D, 0x0A00AE27, 0x7D079EB1,
   0xF00F9344, 0x8708A3D2, 0x1E01F268, 0x6906C2FE, 0xF762575D, 0x806567CB, 0x196C3671, 0x6E6B06E7,
   0xFED41B76, 0x89D32BE0, 0x10DA7A5A, 0x67DD4ACC, 0xF9B9DF6F, 0x8EBEEFF9, 0x17B7BE43, 0x60B08ED5,
   0xD6D6A3E8, 0xA1D1937E, 0x38D8C2C4, 0x4FDFF252, 0xD1BB67F1, 0xA6BC5767, 0x3FB506DD, 0x48B2364B,
   0xD80D2BDA, 0xAF0A1B4C, 0x36034AF6, 0x41047A60, 0xDF60EFC3, 0xA867DF55, 0x316E8EEF, 0x4669BE79,
   0xCB61B38C, 0xBC66831A, 0x256FD2A0, 0x5268E236, 0xCC0C7795, 0xBB0B4703, 0x220216B9, 0x5505262F,
   0xC5BA3BBE, 0xB2BD0B28, 0x2BB45A92, 0x5CB36A04, 0xC2D7FFA7, 0xB5D0CF31, 0x2CD99E8B, 0x5BDEAE1D,
   0x9B64C2B0, 0xEC63F226, 0x756AA39C, 0x026D930A, 0x9C0906A9, 0xEB0E363F, 0x72076785, 0x05005713,
   0x95BF4A82, 0xE2B87A14, 0x7BB12BAE, 0x0CB61B38, 0x92D28E9B, 0xE5D5BE0D, 0x7CDCEFB7, 0x0BDBDF21,
   0x86D3D2D4, 0xF1D4E242, 0x68DDB3F8, 0x1FDA836E, 0x81BE16CD, 0xF6B9265B, 0x6FB077E1, 0x18B74777,
   0x88085AE6, 0xFF0F6A70, 0x66063BCA, 0x11010B5C, 0x8F659EFF, 0xF862AE69, 0x616BFFD3, 0x166CCF45,
   0xA00AE278, 0xD70DD2EE, 0x4E048354, 0x3903B3C2, 0xA7672661, 0xD06016F7, 0x4969474D, 0x3E6E77DB,
   0xAED16A4A, 0xD9D65ADC, 0x40DF0B66, 0x37D83BF0, 0xA9BCAE53, 0xDEBB9EC5, 0x47B2CF7F, 0x30B5FFE9,
   0xBDBDF21C, 0xCABAC28A, 0x53B39330, 0x24B4A3A6, 0xBAD03605, 0xCDD70693, 0x54DE5729, 0x23D967BF,
   0xB3667A2E, 0xC4614AB8, 0x5D681B02, 0x2A6F2B94, 0xB40BBE37, 0xC30C8EA1, 0x5A05DF1B, 0x2D02EF8D]"

record crc32 =
  crc_val :: u32
  crc_finished :: u32

definition crc_reset :: "crc32 \<Rightarrow> crc32" where
  "crc_reset c = c\<lparr>crc_val := CRCINIT\<rparr>"

fun crc_update_loop :: "u32 \<Rightarrow> bytes \<Rightarrow> u32" where
  "crc_update_loop c [] = c"
| "crc_update_loop c (b # buf) =
     crc_update_loop (CRCTABLE ! unat ((c XOR ucast b) AND 0xFF) XOR drop_bit 8 c) buf"

definition crc_update :: "crc32 \<Rightarrow> bytes \<Rightarrow> crc32" where
  "crc_update c buf = c\<lparr>crc_val := crc_update_loop (crc_val c) buf\<rparr>"

definition crc_value :: "crc32 \<Rightarrow> u32 \<times> crc32" where
  "crc_value c = (let f = crc_val c XOR CRCXOROT in (f, c\<lparr>crc_finished := f\<rparr>))"

text \<open>\<open>from_bytes\<close> reads four bytes, which the caller provides.\<close>

definition crc_from_bytes :: "bytes \<Rightarrow> u32 run" where
  "crc_from_bytes buf =
     (if length buf < 4 then Inl Undefined
      else Inr (push_bit 24 (ucast (buf ! 0)) OR push_bit 16 (ucast (buf ! 1)) OR
                push_bit 8 (ucast (buf ! 2)) OR ucast (buf ! 3)))"

text \<open>A whole message through a new object: the constructor resets, then \<open>update\<close> and \<open>value\<close>.\<close>

definition crc_of :: "bytes \<Rightarrow> u32" where
  "crc_of buf = fst (crc_value (crc_update (crc_reset \<lparr>crc_val = 0, crc_finished = 0\<rparr>) buf))"

section \<open>Bitwise specification\<close>

definition crc_bit :: "u32 \<Rightarrow> u32" where
  "crc_bit c = (if bit c 0 then drop_bit 1 c XOR 0xEDB88320 else drop_bit 1 c)"

definition crc_byte :: "u32 \<Rightarrow> byte \<Rightarrow> u32" where
  "crc_byte c b = (crc_bit ^^ 8) (c XOR ucast b)"

fun crc_spec :: "u32 \<Rightarrow> bytes \<Rightarrow> u32" where
  "crc_spec c [] = c"
| "crc_spec c (b # bs) = crc_spec (crc_byte c b) bs"


text \<open>
  The table by nibbles: an entry is the combination of the entry of its high nibble and
  that of its low one, because a bit step is linear; 32 entries remain to be computed.
\<close>

definition crc_lo :: "u32 list" where
  "crc_lo = [0x00000000, 0x77073096, 0xEE0E612C, 0x990951BA, 0x076DC419, 0x706AF48F, 0xE963A535, 0x9E6495A3, 0x0EDB8832, 0x79DCB8A4, 0xE0D5E91E, 0x97D2D988, 0x09B64C2B, 0x7EB17CBD, 0xE7B82D07, 0x90BF1D91]"

definition crc_hi :: "u32 list" where
  "crc_hi = [0x00000000, 0x1DB71064, 0x3B6E20C8, 0x26D930AC, 0x76DC4190, 0x6B6B51F4, 0x4DB26158, 0x5005713C, 0xEDB88320, 0xF00F9344, 0xD6D6A3E8, 0xCB61B38C, 0x9B64C2B0, 0x86D3D2D4, 0xA00AE278, 0xBDBDF21C]"

lemma funpow8: "(f ^^ 8) x = f (f (f (f (f (f (f (f x)))))))"
  by (simp add: eval_nat_numeral)

lemma crc_lo_steps:
  "crc_lo = map (crc_bit ^^ 8) [0, 1, 2, 3, 4, 5, 6, 7, 8, 9, 10, 11, 12, 13, 14, 15]"
  by (simp add: crc_lo_def crc_bit_def funpow8)

lemma crc_hi_steps:
  "crc_hi = map (crc_bit ^^ 8)
     [0, 16, 32, 48, 64, 80, 96, 112, 128, 144, 160, 176, 192, 208, 224, 240]"
  by (simp add: crc_hi_def crc_bit_def funpow8)

lemma CRCTABLE_nibbles: "CRCTABLE = concat (map (\<lambda>h. map (\<lambda>l. h XOR l) crc_lo) crc_hi)"
  by (simp add: CRCTABLE_def crc_lo_def crc_hi_def)

lemma crc_bit_xor: "crc_bit (x XOR y) = crc_bit x XOR crc_bit y"
  by (simp add: crc_bit_def) (auto simp: bit_eq_iff bit_simps)

lemma crc_steps_xor: "(crc_bit ^^ n) (x XOR y) = (crc_bit ^^ n) x XOR (crc_bit ^^ n) y"
  by (induction n) (simp_all add: crc_bit_xor)

lemma CRCTABLE_steps:
  "CRCTABLE = map (crc_bit ^^ 8) (concat (map (\<lambda>h. map (\<lambda>l. h XOR l)
     [0, 1, 2, 3, 4, 5, 6, 7, 8, 9, 10, 11, 12, 13, 14, 15])
     [0, 16, 32, 48, 64, 80, 96, 112, 128, 144, 160, 176, 192, 208, 224, 240]))"
  unfolding CRCTABLE_nibbles crc_lo_steps crc_hi_steps
  by (simp only: map_concat map_map comp_def crc_steps_xor)

lemma CRCTABLE_index:
  "concat (map (\<lambda>h. map (\<lambda>l. h XOR l)
     [0, 1, 2, 3, 4, 5, 6, 7, 8, 9, 10, 11, 12, 13, 14, 15])
     [0, 16, 32, 48, 64, 80, 96, 112, 128, 144, 160, 176, 192, 208, 224, 240]) =
   map (of_nat :: nat \<Rightarrow> u32) [0..<256]"
  by (simp add: upt_conv_Cons)

lemma CRCTABLE_nth: "i < 256 \<Longrightarrow> CRCTABLE ! i = (crc_bit ^^ 8) (of_nat i)"
  by (simp only: CRCTABLE_steps CRCTABLE_index) simp

text \<open>Eight steps split: the low byte goes through the table, the rest is shifted.\<close>

lemma crc_bit_even: "\<not> bit x 0 \<Longrightarrow> crc_bit x = drop_bit 1 x"
  by (simp add: crc_bit_def)

lemma crc_steps_shift:
  "(\<forall>k<n. \<not> bit x k) \<Longrightarrow> (crc_bit ^^ n) x = drop_bit n x"
proof (induction n)
  case (Suc n)
  then have "(crc_bit ^^ n) x = drop_bit n x" by simp
  with Suc.prems show ?case by (simp add: crc_bit_even bit_simps drop_bit_drop_bit)
qed simp

lemma mask_split:
  fixes x :: "'a::len word"
  shows "x = (x AND mask n) XOR (x AND NOT (mask n))"
  by (rule bit_eqI) (auto simp: bit_simps)

lemma not_inj: "NOT (x :: 'a::len word) = NOT y \<longleftrightarrow> x = y"
  by (metis bit.double_compl)

lemma word_of_nat_unat_u32: "of_nat (unat (x :: u32)) = x"
  by simp

lemma crc_table_step: "CRCTABLE ! unat (x AND 0xFF) XOR drop_bit 8 x = (crc_bit ^^ 8) x"
proof -
  have m: "(0xFF :: u32) = mask 8" by (simp add: mask_eq_exp_minus_1)
  have lt: "unat (x AND mask 8) < 256"
    using word_and_le1 [of x "mask 8"] by (simp add: word_le_nat_alt flip: m)
  have low: "\<forall>k<8. \<not> bit (x AND NOT (mask 8)) k"
    by (simp add: bit_simps)
  have high: "drop_bit 8 (x AND NOT (mask 8)) = drop_bit 8 x"
    by (rule bit_eqI) (auto simp: bit_simps dest: bit_imp_le_length)
  have "(crc_bit ^^ 8) x = (crc_bit ^^ 8) (x AND mask 8) XOR (crc_bit ^^ 8) (x AND NOT (mask 8))"
    by (subst mask_split [of x 8]) (rule crc_steps_xor)
  also have "\<dots> = CRCTABLE ! unat (x AND mask 8) XOR drop_bit 8 x"
    by (simp only: CRCTABLE_nth [OF lt] crc_steps_shift [OF low] high of_nat_unat ucast_id word_of_nat_unat_u32)
  finally show ?thesis by (simp only: m)
qed

lemma xor_cancel_left: "(x :: 'a::len word) XOR y = x XOR z \<longleftrightarrow> y = z"
proof
  assume "x XOR y = x XOR z"
  then have "x XOR (x XOR y) = x XOR (x XOR z)" by simp
  then show "y = z" by (simp flip: xor.assoc)
qed simp

lemma xor_cancel_right: "(y :: 'a::len word) XOR x = z XOR x \<longleftrightarrow> y = z"
  by (simp add: xor_cancel_left xor.commute [of _ x])

lemma drop_bit_xor_byte: "drop_bit 8 (c XOR ucast (b :: byte)) = drop_bit 8 (c :: u32)"
  by (rule bit_eqI) (auto simp: bit_simps dest: bit_imp_le_length)

lemma crc_update_spec: "crc_update_loop c buf = crc_spec c buf"
  by (induction buf arbitrary: c)
    (simp_all only: crc_update_loop.simps crc_spec.simps crc_byte_def crc_table_step
      drop_bit_xor_byte flip: crc_table_step)

lemma crc_spec_append: "crc_spec c (a @ b) = crc_spec (crc_spec c a) b"
  by (induction a arbitrary: c) simp_all

lemma not_as_xor: "x XOR 0xFFFFFFFF = NOT (x :: u32)" "(0xFFFFFFFF :: u32) = - 1"
proof -
  show m: "(0xFFFFFFFF :: u32) = - 1" by simp
  show "x XOR 0xFFFFFFFF = NOT x" unfolding m by simp
qed

lemma crc_of_spec: "crc_of buf = NOT (crc_spec (NOT 0) buf)"
  by (simp add: crc_of_def crc_value_def crc_update_def crc_reset_def crc_update_spec
      CRCINIT_def CRCXOROT_def not_as_xor Let_def)

section \<open>Error detection\<close>

lemma crc_bit_top: "bit (crc_bit x) 31 \<longleftrightarrow> bit x 0"
proof -
  have d: "\<not> bit (drop_bit 1 x) 31" by (auto simp: bit_simps dest: bit_imp_le_length)
  have p: "bit (0xEDB88320 :: u32) 31" by simp
  show ?thesis using d p by (simp only: crc_bit_def bit_xor_iff split: if_splits) simp
qed

lemma crc_bit_inj: "crc_bit x = crc_bit y \<longleftrightarrow> x = y"
proof
  assume eq: "crc_bit x = crc_bit y"
  then have b0: "bit x 0 \<longleftrightarrow> bit y 0" by (metis crc_bit_top)
  with eq have d: "drop_bit 1 x = drop_bit 1 y"
    by (simp add: crc_bit_def xor_cancel_right split: if_splits)
  show "x = y"
  proof (rule bit_eqI)
    fix n
    show "bit x n \<longleftrightarrow> bit y n"
    proof (cases n)
      case (Suc m)
      then show ?thesis using arg_cong [OF d, of "\<lambda>w. bit w m"] by (simp add: bit_simps)
    qed (simp add: b0)
  qed
qed simp

lemma crc_steps_inj: "(crc_bit ^^ n) x = (crc_bit ^^ n) y \<longleftrightarrow> x = y"
  by (induction n) (simp_all add: crc_bit_inj)

lemma crc_spec_inj: "crc_spec c bs = crc_spec c' bs \<longleftrightarrow> c = c'"
proof (induction bs arbitrary: c c')
  case (Cons b bs)
  show ?case by (simp add: Cons.IH crc_byte_def crc_steps_inj xor_cancel_right)
qed simp

text \<open>Up to four bytes enter the register as one little-endian word.\<close>

fun crc_pack :: "bytes \<Rightarrow> u32" where
  "crc_pack [] = 0"
| "crc_pack (b # bs) = ucast b XOR push_bit 8 (crc_pack bs)"

lemma crc_pack_bits: "bit (crc_pack bs) n \<Longrightarrow> n < 8 * length bs"
  by (induction bs arbitrary: n) (fastforce simp: bit_simps dest: bit_imp_le_length)+

lemma crc_pack_shift:
  assumes "length bs \<le> 3"
  shows "drop_bit 8 (push_bit 8 (crc_pack bs)) = crc_pack bs"
proof (rule bit_word_eqI)
  fix n assume "n < LENGTH(32)"
  show "bit (drop_bit 8 (push_bit 8 (crc_pack bs))) n \<longleftrightarrow> bit (crc_pack bs) n"
    using assms crc_pack_bits [of bs n] by (auto simp: bit_simps)
qed

lemma crc_spec_pack:
  "length bs \<le> 4 \<Longrightarrow> crc_spec c bs = (crc_bit ^^ (8 * length bs)) (c XOR crc_pack bs)"
proof (induction bs arbitrary: c)
  case (Cons b bs)
  then have le: "length bs \<le> 3" by simp
  have "(crc_bit ^^ 8) (push_bit 8 (crc_pack bs)) = crc_pack bs"
    by (subst crc_steps_shift) (simp_all add: bit_simps crc_pack_shift [OF le])
  then have "(crc_bit ^^ 8) (c XOR ucast b) XOR crc_pack bs =
      (crc_bit ^^ 8) (c XOR crc_pack (b # bs))"
    by (simp only: crc_pack.simps crc_steps_xor xor.assoc)
  then show ?case
    using Cons le by (simp add: crc_byte_def funpow_add add.commute [of 8])
qed simp

lemma crc_pack_inj:
  "length xs = length ys \<Longrightarrow> length xs \<le> 4 \<Longrightarrow> crc_pack xs = crc_pack ys \<Longrightarrow> xs = ys"
proof (induction xs ys rule: list_induct2)
  case (Cons x xs y ys)
  have b: "bit (crc_pack (x # xs)) n \<longleftrightarrow> bit (crc_pack (y # ys)) n" for n
    using Cons.prems by simp
  have "x = y"
  proof (rule bit_word_eqI)
    fix n assume "n < LENGTH(8)"
    then show "bit x n \<longleftrightarrow> bit y n" using b [of n] by (simp add: bit_simps)
  qed
  moreover have "push_bit 8 (crc_pack xs) = push_bit 8 (crc_pack ys)"
    using Cons.prems \<open>x = y\<close> by (simp add: xor_cancel_left)
  then have "drop_bit 8 (push_bit 8 (crc_pack xs)) = drop_bit 8 (push_bit 8 (crc_pack ys))"
    by (rule arg_cong)
  then have "crc_pack xs = crc_pack ys"
    using Cons.prems Cons.hyps by (simp only: crc_pack_shift list.size)
  moreover have "length xs \<le> 4" using Cons.prems by simp
  ultimately show ?case using Cons.IH by blast
qed simp

lemma crc_detects_burst_lemma:
  assumes "length e = length e'" "length e \<le> 4" "e \<noteq> e'"
  shows "crc_of (p @ e @ s) \<noteq> crc_of (p @ e' @ s)"
proof
  assume "crc_of (p @ e @ s) = crc_of (p @ e' @ s)"
  then have "crc_spec (crc_spec (NOT 0) p) e = crc_spec (crc_spec (NOT 0) p) e'"
    by (simp add: crc_of_spec crc_spec_append crc_spec_inj not_inj)
  with assms have "crc_pack e = crc_pack e'"
    by (simp add: crc_spec_pack crc_steps_inj xor_cancel_left)
  with assms show False using crc_pack_inj by blast
qed

section \<open>Properties\<close>

text \<open>
  Property C27. The table-driven update computes the bitwise CRC-32 (reversed polynomial
  EDB88320, initial value and final complement all ones), and feeding a message in two
  pieces gives the same register as feeding it at once.
\<close>

theorem crc_update_bitwise:
  "crc_of buf = NOT (crc_spec (NOT 0) buf) \<and>
   crc_update (crc_update c a) b = crc_update c (a @ b)"
  by (simp add: crc_of_spec crc_update_def crc_update_spec crc_spec_append)

text \<open>
  Property C28. Two messages of one length that differ only within four consecutive bytes
  have different checksums: a burst error of up to 32 aligned bits is always detected.
\<close>

theorem crc_detects_burst:
  assumes "length e = length e'" "length e \<le> 4" "e \<noteq> e'"
  shows "crc_of (p @ e @ s) \<noteq> crc_of (p @ e' @ s)"
  using assms by (rule crc_detects_burst_lemma)

theorem crc_detects_burst_witness:
  "crc_of ([1] @ [2, 3] @ [4]) \<noteq> crc_of ([1] @ [2, 7] @ [4])"
  by (rule crc_detects_burst) simp_all

end
