(* ===== verification/TextCodec.thy ===== *)
theory TextCodec
  imports Prelude
begin

unbundle bit_operations_syntax

text \<open>
  util/Base16.cc and util/TextCode.cc: two encodings of bytes as text. Base16 writes each
  byte as two digits, the low nibble first, into a caller's array. TextCode keeps printable
  bytes, escapes the others in hexadecimal, breaks lines after a number of columns and ends
  with a control-L line; TextUncode reads it back. An array is a list of its elements and an
  access outside of it is undefined. The text that TextCode appends to is a byte list here;
  its growth is the subject of the theory of the buffers.
\<close>

section \<open>Base16\<close>

definition b16_encoding :: bytes where
  "b16_encoding = [48, 49, 50, 51, 52, 53, 54, 55, 56, 57, 65, 66, 67, 68, 69, 70]"

function b16_encode_loop :: "bytes \<Rightarrow> nat \<Rightarrow> nat \<Rightarrow> bytes \<Rightarrow> (nat \<times> bytes) run" where
  "b16_encode_loop inp in_len i out =
     (if i < in_len then
        (if length inp \<le> i \<or> length out \<le> 2 * i + 1 then Inl Undefined
         else b16_encode_loop inp in_len (Suc i)
           (out[2 * i := b16_encoding ! unat (inp ! i AND 0xF),
                2 * i + 1 := b16_encoding ! unat (drop_bit 4 (inp ! i) AND 0xF)]))
      else Inr (i, out))"
  by pat_completeness auto
termination
  by (relation "measure (\<lambda>(inp, in_len, i, out). in_len - i)") simp_all

declare b16_encode_loop.simps [simp del]

definition b16_encode :: "bytes \<Rightarrow> nat \<Rightarrow> bytes \<Rightarrow> nat \<Rightarrow> (nat \<times> bytes) run" where
  "b16_encode inp in_len out16 out16_len =
     b16_encode_loop inp (if out16_len < in_len * 2 then out16_len div 2 else in_len) 0 out16"

definition b16_nibble :: "byte \<Rightarrow> byte" where
  "b16_nibble c = (if c \<le> 57 then c - 48 else c - 65 + 10)"

function b16_decode_loop :: "bytes \<Rightarrow> nat \<Rightarrow> nat \<Rightarrow> bytes \<Rightarrow> (nat \<times> bytes) run" where
  "b16_decode_loop in16 in16_len i out =
     (if i < in16_len then
        (if length in16 \<le> i + 1 \<or> length out \<le> i div 2 then Inl Undefined
         else b16_decode_loop in16 in16_len (i + 2)
           (out[i div 2 := b16_nibble (in16 ! i) OR push_bit 4 (b16_nibble (in16 ! (i + 1)))]))
      else Inr (i div 2, out))"
  by pat_completeness auto
termination
  by (relation "measure (\<lambda>(in16, in16_len, i, out). in16_len - i)") simp_all

declare b16_decode_loop.simps [simp del]

definition b16_decode :: "bytes \<Rightarrow> nat \<Rightarrow> bytes \<Rightarrow> nat \<Rightarrow> (nat \<times> bytes) run" where
  "b16_decode in16 in16_len out out_len =
     b16_decode_loop in16 (if out_len < in16_len div 2 then out_len * 2 else in16_len) 0 out"

section \<open>TextCode\<close>

text \<open>
  \<open>i % cols_\<close> converts the signed column count to \<open>size_t\<close>; a count of zero divides by
  zero. A negative \<open>pad_\<close> pads nothing.
\<close>

definition is_not_escaped :: "byte \<Rightarrow> bool" where
  "is_not_escaped c \<longleftrightarrow> 32 \<le> c \<and> c \<le> 126 \<and> c \<noteq> 92"

definition hex_digit :: "byte \<Rightarrow> byte" where
  "hex_digit d = (if d < 10 then 48 + d else 87 + d)"

definition tc_append :: "bytes \<Rightarrow> byte \<Rightarrow> bytes" where
  "tc_append buf c =
     (if is_not_escaped c then buf @ [c]
      else if c = 92 then buf @ [92, 92]
      else buf @ [92, hex_digit (drop_bit 4 c), hex_digit (c AND 0xF)])"

definition tc_cols :: "int \<Rightarrow> nat" where
  "tc_cols cols = nat (cols mod 2 ^ 64)"

definition tc_pad :: "int \<Rightarrow> bytes" where
  "tc_pad pad = replicate (nat pad) 9"

fun tc_loop :: "int \<Rightarrow> int \<Rightarrow> nat \<Rightarrow> bytes \<Rightarrow> bytes \<Rightarrow> bytes" where
  "tc_loop cols pad i [] buf = buf"
| "tc_loop cols pad i (c # inp) buf =
     tc_loop cols pad (Suc i) inp
       (tc_append
         (if i mod tc_cols cols = 0
          then (if i \<noteq> 0 then buf @ [10] else buf) @ tc_pad pad else buf) c)"

definition textcodify :: "bytes \<Rightarrow> int \<Rightarrow> int \<Rightarrow> bytes run" where
  "textcodify inp cols pad =
     (if inp \<noteq> [] \<and> tc_cols cols = 0 then Inl Undefined
      else Inr (tc_loop cols pad 0 inp [] @ [10] @ tc_pad pad @ [12, 10]))"

section \<open>TextUncode\<close>

text \<open>
  \<open>strtol(cur_, 0, 16)\<close> as the C library defines it: white space, a sign, \<open>0x\<close>, then all
  the hexadecimal digits that follow, with the value clamped to a \<open>long\<close>. It stops at the
  first other byte; \<open>None\<close> stands for running past the end of the input.
\<close>

definition hex_value :: "byte \<Rightarrow> int option" where
  "hex_value c =
     (if 48 \<le> c \<and> c \<le> 57 then Some (uint c - 48)
      else if 65 \<le> c \<and> c \<le> 70 then Some (uint c - 55)
      else if 97 \<le> c \<and> c \<le> 102 then Some (uint c - 87) else None)"

fun hex_run :: "bytes \<Rightarrow> int \<Rightarrow> int option" where
  "hex_run [] v = None"
| "hex_run (c # cs) v = (case hex_value c of None \<Rightarrow> Some v | Some d \<Rightarrow> hex_run cs (16 * v + d))"

definition strtol_sign :: "bytes \<Rightarrow> bool \<times> bytes" where
  "strtol_sign cs = (case cs of
      [] \<Rightarrow> (False, [])
    | c # r \<Rightarrow> if c = 45 then (True, r) else if c = 43 then (False, r) else (False, cs))"

definition strtol_prefix :: "bytes \<Rightarrow> bytes" where
  "strtol_prefix cs = (case cs of
      a # b # r \<Rightarrow> if a = 48 \<and> (b = 120 \<or> b = 88) then
          (case r of [] \<Rightarrow> [] | c # r' \<Rightarrow> if hex_value c = None then cs else r)
        else cs
    | _ \<Rightarrow> cs)"

definition c_isspace :: "byte \<Rightarrow> bool" where
  "c_isspace c \<longleftrightarrow> c = 32 \<or> 9 \<le> c \<and> c \<le> 13"

definition strtol16 :: "bytes \<Rightarrow> int option" where
  "strtol16 cs =
     (case strtol_sign (dropWhile c_isspace cs) of (neg, digits) \<Rightarrow>
        map_option (\<lambda>v. if neg then max (- v) (- (2 ^ 63)) else min v (2 ^ 63 - 1))
          (hex_run (strtol_prefix digits) 0))"

fun textuncodify :: "bytes \<Rightarrow> bytes \<Rightarrow> (bool \<times> bytes) run" where
  "textuncodify [] buf = Inr (True, buf)"
| "textuncodify (c # cur) buf =
     (if c = 12 then Inr (False, buf)
      else if c = 9 \<or> c = 10 then textuncodify cur buf
      else if c = 92 then
        (case cur of
           [] \<Rightarrow> Inr (True, buf)
         | d # cur' \<Rightarrow>
             if d = 92 then textuncodify cur' (buf @ [92])
             else if length (c # cur) \<le> 3 then Inr (True, buf)
             else (case strtol16 cur of
                 None \<Rightarrow> Inl Undefined
               | Some v \<Rightarrow> textuncodify cur (buf @ [of_int v])))
      else textuncodify cur (buf @ [c]))"

section \<open>Base16: lemmas\<close>

abbreviation b16_pair :: "byte \<Rightarrow> bytes" where
  "b16_pair b \<equiv> [b16_encoding ! unat (b AND 0xF), b16_encoding ! unat (drop_bit 4 b AND 0xF)]"

lemma b16_nibble_digit: "d < 16 \<Longrightarrow> b16_nibble (b16_encoding ! d) = of_nat d"
  by (simp add: b16_encoding_def b16_nibble_def less_Suc_eq numeral_eq_Suc) (elim disjE; simp)

lemma b16_nibble_and: "b16_nibble (b16_encoding ! unat (b AND 0xF)) = b AND 0xF"
proof -
  have "unat (b AND 0xF) < 16"
    using word_and_le1 [of b "0xF"] by (simp add: word_le_nat_alt)
  then show ?thesis by (simp add: b16_nibble_digit)
qed

lemma b16_join: "(b AND 0xF) OR push_bit 4 (drop_bit 4 b AND 0xF) = (b :: byte)"
proof -
  have m: "(0xF :: byte) = mask 4" by (simp add: mask_eq_exp_minus_1)
  show ?thesis unfolding m
    by (rule bit_word_eqI) (auto simp: bit_simps)
qed

lemma b16_pair_decode: "b16_nibble (b16_pair b ! 0) OR push_bit 4 (b16_nibble (b16_pair b ! 1)) = b"
  by (simp only: b16_nibble_and b16_join nth_Cons_0 nth_Cons_Suc One_nat_def)

lemma list_update_pair:
  "length xs = j \<Longrightarrow> (xs @ y # z # ys)[j := a, Suc j := b] = xs @ a # b # ys"
  by (simp add: list_update_append)

lemma take_two:
  assumes "j + 1 < length xs"
  shows "xs = take j xs @ xs ! j # xs ! (j + 1) # drop (j + 2) xs"
  using assms id_take_nth_drop [of j xs] Cons_nth_drop_Suc [of "Suc j" xs] by simp

lemma b16_encode_loop_result:
  assumes "i \<le> m" "m \<le> length inp" "2 * m \<le> length out"
  shows "b16_encode_loop inp m i out =
    Inr (m, take (2 * i) out @ concat (map b16_pair (drop i (take m inp))) @ drop (2 * m) out)"
  using assms
proof (induction "m - i" arbitrary: i out)
  case 0
  then show ?case by (simp add: b16_encode_loop.simps)
next
  case (Suc n)
  let ?p = "b16_pair (inp ! i)"
  let ?out = "out[2 * i := ?p ! 0, 2 * i + 1 := ?p ! 1]"
  have lt: "i < m" "2 * i + 1 < length out" using Suc by simp_all
  have out: "?out = take (2 * i) out @ ?p @ drop (2 * i + 2) out"
    by (subst take_two [OF lt(2)]) (use lt in \<open>simp add: list_update_pair\<close>)
  have "b16_encode_loop inp m i out = b16_encode_loop inp m (Suc i) ?out"
    by (subst b16_encode_loop.simps) (use Suc.prems lt in simp)
  also have "\<dots> = Inr (m, take (2 * Suc i) ?out @
      concat (map b16_pair (drop (Suc i) (take m inp))) @ drop (2 * m) ?out)"
    using Suc lt by (intro Suc.hyps(1)) simp_all
  also have "take (2 * Suc i) ?out = take (2 * i) out @ ?p"
    unfolding out using lt by simp
  also have "drop (2 * m) ?out = drop (2 * m) out"
    using lt by simp
  also have "drop i (take m inp) = inp ! i # drop (Suc i) (take m inp)"
    using lt Suc.prems by (simp add: Cons_nth_drop_Suc [symmetric])
  ultimately show ?case by simp
qed

lemma b16_decode_loop_result:
  assumes "i \<le> m" "m \<le> length out" "take (2 * m) in16 = concat (map b16_pair xs)" "length xs = m"
  shows "b16_decode_loop in16 (2 * m) (2 * i) out =
    Inr (m, take i out @ drop i xs @ drop m out)"
  using assms
proof (induction "m - i" arbitrary: i out)
  case 0
  then show ?case by (simp add: b16_decode_loop.simps)
next
  case (Suc n)
  have lt: "i < m" using Suc by simp
  have len: "length (concat (map b16_pair ys)) = 2 * length ys" for ys
    by (induction ys) simp_all
  have m2: "2 * m \<le> length in16"
  proof -
    have "min (length in16) (2 * m) = 2 * m"
      using arg_cong [OF Suc.prems(3), of length] by (simp only: length_take len Suc.prems(4))
    then show ?thesis by (metis min.cobounded1)
  qed
  have "concat (map b16_pair xs) = concat (map b16_pair (take i xs)) @ b16_pair (xs ! i) @
      concat (map b16_pair (drop (Suc i) xs))"
  proof -
    have "concat (map b16_pair (take i xs @ xs ! i # drop (Suc i) xs)) =
        concat (map b16_pair (take i xs)) @ b16_pair (xs ! i) @
        concat (map b16_pair (drop (Suc i) xs))"
      by simp
    then show ?thesis using lt Suc.prems(4) by (simp only: id_take_nth_drop [symmetric])
  qed
  then have nth: "take (2 * m) in16 ! (2 * i) = b16_pair (xs ! i) ! 0"
      "take (2 * m) in16 ! (2 * i + 1) = b16_pair (xs ! i) ! 1"
    using lt Suc.prems(3,4) by (simp_all add: nth_append len)
  have byte: "b16_nibble (in16 ! (2 * i)) OR push_bit 4 (b16_nibble (in16 ! (2 * i + 1))) = xs ! i"
    using nth lt b16_pair_decode [of "xs ! i"] by simp
  have "b16_decode_loop in16 (2 * m) (2 * i) out = b16_decode_loop in16 (2 * m) (2 * Suc i) (out[i := xs ! i])"
    by (subst b16_decode_loop.simps) (use lt m2 Suc.prems byte in simp)
  also have "\<dots> = Inr (m, take (Suc i) (out[i := xs ! i]) @ drop (Suc i) xs @ drop m (out[i := xs ! i]))"
    using Suc lt by (intro Suc.hyps(1)) simp_all
  finally show ?case
    using lt Suc.prems by (simp add: take_Suc_conv_app_nth Cons_nth_drop_Suc)
qed

section \<open>TextCode: lemmas\<close>

definition tc_code :: "byte \<Rightarrow> bytes" where
  "tc_code c = tc_append [] c"

definition tc_break :: "int \<Rightarrow> int \<Rightarrow> nat \<Rightarrow> bytes" where
  "tc_break cols pad i = (if i mod tc_cols cols = 0
     then (if i \<noteq> 0 then [10] else []) @ tc_pad pad else [])"

fun tc_text :: "int \<Rightarrow> int \<Rightarrow> nat \<Rightarrow> bytes \<Rightarrow> bytes" where
  "tc_text cols pad i [] = [10] @ tc_pad pad @ [12, 10]"
| "tc_text cols pad i (c # inp) = tc_break cols pad i @ tc_code c @ tc_text cols pad (Suc i) inp"

lemma tc_append_code: "tc_append buf c = buf @ tc_code c"
  by (simp add: tc_append_def tc_code_def)

lemma tc_loop_text:
  "tc_loop cols pad i inp buf @ [10] @ tc_pad pad @ [12, 10] = buf @ tc_text cols pad i inp"
  by (induction inp arbitrary: i buf) (simp_all add: tc_append_code tc_break_def)

lemma textcodify_text:
  "inp = [] \<or> tc_cols cols \<noteq> 0 \<Longrightarrow> textcodify inp cols pad = Inr (tc_text cols pad 0 inp)"
  using tc_loop_text [of cols pad 0 inp "[]"] by (auto simp: textcodify_def)

lemma tu_blank: "set ws \<subseteq> {9, 10} \<Longrightarrow> textuncodify (ws @ r) buf = textuncodify r buf"
  by (induction ws) auto

lemma tc_break_blank: "set (tc_break cols pad i) \<subseteq> {9, 10}"
  by (auto simp: tc_break_def tc_pad_def)

text \<open>
  What reading a coded byte back appends: an escaped byte is followed by its two digits,
  because only the backslash is skipped after the value has been read.
\<close>

definition tu_echo :: "byte \<Rightarrow> bytes" where
  "tu_echo c =
     (if is_not_escaped c \<or> c = 92 then [c]
      else [c, hex_digit (drop_bit 4 c), hex_digit (c AND 0xF)])"

fun tc_clean :: "bytes \<Rightarrow> bool" where
  "tc_clean (c # d # cs) \<longleftrightarrow>
     (is_not_escaped c \<or> c = 92 \<or> hex_value d = None) \<and> tc_clean (d # cs)"
| "tc_clean _ \<longleftrightarrow> True"

lemma nibble_cases:
  assumes "\<And>k. k < 16 \<Longrightarrow> P (of_nat k)"
  shows "P ((d :: byte) AND 0xF)" and "P (drop_bit 4 d)"
proof -
  have "P x" if "x < 16" for x :: byte
  proof -
    have "unat x < 16" using that by (simp add: word_less_nat_alt)
    then have "P (of_nat (unat x))" by (rule assms)
    then show ?thesis by simp
  qed
  moreover have "d AND 0xF < 16"
    using word_and_le1 [of d "0xF"] by (simp add: word_le_nat_alt word_less_nat_alt)
  moreover have "unat (drop_bit 4 d) < 16"
    using unat_lt [of d] by (simp only: unat_drop_bit_eq) (simp add: drop_bit_eq_div)
  then have "drop_bit 4 d < 16" by (simp add: word_less_nat_alt)
  ultimately show "P (d AND 0xF)" "P (drop_bit 4 d)" by blast+
qed

definition hex_ok :: "byte \<Rightarrow> bool" where
  "hex_ok d \<longleftrightarrow> hex_value (hex_digit d) = Some (uint d) \<and> hex_digit d \<notin> {9, 10, 12, 43, 45, 88, 92, 120} \<and>
     \<not> c_isspace (hex_digit d)"

lemma hex_ok_nibble: "k < 16 \<Longrightarrow> hex_ok (of_nat k)"
  by (simp add: less_Suc_eq numeral_eq_Suc)
    (elim disjE; simp add: hex_ok_def hex_value_def hex_digit_def c_isspace_def)

lemma hex_ok: "hex_ok (drop_bit 4 c)" "hex_ok (c AND 0xF)"
  by (rule nibble_cases, erule hex_ok_nibble)+

lemma byte_nibbles: "of_int (16 * uint (drop_bit 4 c) + uint (c AND 0xF)) = (c :: byte)"
proof -
  have "c AND 0xF = take_bit 4 c" by (simp add: take_bit_eq_mask mask_eq_exp_minus_1)
  moreover have "push_bit 4 (drop_bit 4 c) + take_bit 4 c = c" by (rule bits_ident)
  moreover have "push_bit 4 (drop_bit 4 c) = 16 * drop_bit 4 c" by (simp add: push_bit_eq_mult)
  ultimately show ?thesis by (simp only: of_int_add of_int_mult of_int_numeral word_of_int_uint)
qed

lemma strtol16_digits:
  assumes "hex_value h = Some x" "hex_value l = Some y" "hex_value d = None"
    "h \<notin> {43, 45}" "\<not> c_isspace h" "l \<notin> {88, 120}" "x < 256" "y < 256"
  shows "strtol16 (h # l # d # r) = Some (16 * x + y)"
  using assms by (simp add: strtol16_def strtol_sign_def strtol_prefix_def)

lemma strtol16_pair:
  assumes "hex_value d = None"
  shows "strtol16 (hex_digit (drop_bit 4 c) # hex_digit (c AND 0xF) # d # r) =
    Some (16 * uint (drop_bit 4 c) + uint (c AND 0xF))"
  using hex_ok [of c] assms uint_bounded [of "drop_bit 4 c"] uint_bounded [of "c AND 0xF"]
  by (intro strtol16_digits) (simp_all add: hex_ok_def)

lemma tu_escape:
  assumes "h \<notin> {9, 10, 12, 92}" "l \<notin> {9, 10, 12, 92}" "strtol16 (h # l # d # r) = Some v"
  shows "textuncodify (92 # h # l # d # r) buf = textuncodify (d # r) (buf @ [of_int v, h, l])"
  using assms by (simp del: textuncodify.simps(2) add: textuncodify.simps(2) [of 92]
      textuncodify.simps(2) [of h] textuncodify.simps(2) [of l])

lemma tc_text_head:
  assumes "tc_cols cols \<noteq> 0" "inp \<noteq> [] \<Longrightarrow> hex_value (hd inp) = None"
  shows "\<exists>d r. tc_text cols pad (Suc i) inp = d # r \<and> hex_value d = None"
proof (cases inp)
  case Nil
  then show ?thesis by (simp add: hex_value_def)
next
  case (Cons c cs)
  have "\<exists>d r. tc_code c = d # r \<and> hex_value d = None"
    using assms(2) Cons by (auto simp: tc_code_def tc_append_def hex_value_def)
  then obtain d r where "tc_code c = d # r" "hex_value d = None" by blast
  moreover have "hex_value 10 = None" by (simp add: hex_value_def)
  ultimately show ?thesis using Cons by (simp add: tc_break_def)
qed

lemma tu_code:
  assumes "is_not_escaped c \<or> c = 92 \<or> (\<exists>d t. r = d # t \<and> hex_value d = None)"
  shows "textuncodify (tc_code c @ r) buf = textuncodify r (buf @ tu_echo c)"
proof (cases "is_not_escaped c \<or> c = 92")
  case True
  then have "c = 92 \<or> c \<notin> {9, 10, 12, 92} \<and> is_not_escaped c"
    by (auto simp: is_not_escaped_def)
  then show ?thesis
    by (elim disjE conjE) (simp_all add: tc_code_def tc_append_def tu_echo_def is_not_escaped_def)
next
  case False
  with assms obtain d t where r: "r = d # t" "hex_value d = None" by auto
  from False show ?thesis
    using hex_ok [of c] tu_escape [OF _ _ strtol16_pair [OF r(2), of c t]]
    by (simp only: byte_nibbles tc_code_def tc_append_def tu_echo_def hex_ok_def r(1)) simp
qed

lemma tu_text:
  assumes "tc_cols cols \<noteq> 0" "tc_clean inp"
  shows "textuncodify (tc_text cols pad i inp) buf = Inr (False, buf @ concat (map tu_echo inp))"
  using assms(2)
proof (induction inp arbitrary: i buf)
  case Nil
  have "textuncodify (([10] @ tc_pad pad) @ [12, 10]) buf = textuncodify [12, 10] buf"
    by (rule tu_blank) (auto simp: tc_pad_def)
  then show ?case by simp
next
  case (Cons c inp)
  have clean: "tc_clean inp" using Cons.prems by (cases inp) auto
  have "textuncodify (tc_text cols pad i (c # inp)) buf =
      textuncodify (tc_code c @ tc_text cols pad (Suc i) inp) buf"
    by (simp add: tu_blank [OF tc_break_blank])
  also have "\<dots> = textuncodify (tc_text cols pad (Suc i) inp) (buf @ tu_echo c)"
  proof (rule tu_code)
    show "is_not_escaped c \<or> c = 92 \<or>
        (\<exists>d t. tc_text cols pad (Suc i) inp = d # t \<and> hex_value d = None)"
      using Cons.prems tc_text_head [OF assms(1), of inp pad i] by (cases inp) auto
  qed
  also have "\<dots> = Inr (False, buf @ concat (map tu_echo (c # inp)))"
    by (simp add: Cons.IH [OF clean])
  finally show ?case .
qed

text \<open>
  Also. Base16 round trip. Encoding fills the output with two digits a byte, as many
  bytes as fit; decoding that text gives the bytes back, as many as fit, and leaves the rest
  of the target alone. Neither accesses its arrays out of bounds.
\<close>

theorem base16_roundtrip:
  "\<exists>m text out'. b16_encode inp (length inp) out16 (length out16) = Inr (m, text) \<and>
    m = min (length inp) (length out16 div 2) \<and> length text = length out16 \<and>
    b16_decode text (2 * m) out (length out) = Inr (min m (length out), out') \<and>
    out' = take (min m (length out)) inp @ drop m out"
proof -
  let ?m = "min (length inp) (length out16 div 2)"
  let ?k = "min ?m (length out)"
  let ?text = "concat (map b16_pair (take ?m inp)) @ drop (2 * ?m) out16"
  have len: "length (concat (map b16_pair ys)) = 2 * length ys" for ys
    by (induction ys) simp_all
  have "(if length out16 < length inp * 2 then length out16 div 2 else length inp) = ?m"
    by auto
  then have enc: "b16_encode inp (length inp) out16 (length out16) = Inr (?m, ?text)"
    using b16_encode_loop_result [of 0 ?m inp out16] by (simp add: b16_encode_def)
  have "take (2 * ?k) ?text = concat (map b16_pair (take ?k inp))"
  proof -
    define ys where "ys = take ?m inp"
    have "take ?k inp = take ?k ys" by (simp add: ys_def min.commute min.left_commute)
    moreover have "concat (map b16_pair ys) =
        concat (map b16_pair (take ?k ys)) @ concat (map b16_pair (drop ?k ys))"
      by (simp flip: map_append concat_append)
    moreover have "length (take ?k ys) = ?k" by (simp add: ys_def)
    ultimately show ?thesis
      unfolding ys_def [symmetric] by (simp only: append.assoc take_append len) (simp add: len)
  qed
  then have "b16_decode_loop ?text (2 * ?k) (2 * 0) out = Inr (?k, take ?k inp @ drop ?k out)"
    using b16_decode_loop_result [of 0 ?k out ?text "take ?k inp"] by simp
  moreover have "(if length out < 2 * ?m div 2 then length out * 2 else 2 * ?m) = 2 * ?k"
    by auto
  moreover have "drop ?k out = drop ?m out" by (simp add: min_def)
  ultimately have "b16_decode ?text (2 * ?m) out (length out) = Inr (?k, take ?k inp @ drop ?m out)"
    by (simp add: b16_decode_def)
  with enc len show ?thesis by (intro exI conjI) auto
qed

text \<open>
  Also. Reading back what TextCode wrote, for any line length and padding: TextUncode
  reports no error, but every escaped byte comes back followed by its two hexadecimal digits,
  so the text is the original exactly when that consists of printable bytes. (No byte that
  needs an escape may be followed by a hexadecimal digit, which strtol would read as well.)
\<close>

theorem textcode_roundtrip:
  assumes "tc_cols cols \<noteq> 0" and "tc_clean inp"
  shows "\<exists>t out. textcodify inp cols pad = Inr t \<and> textuncodify t [] = Inr (False, out) \<and>
    out = concat (map tu_echo inp) \<and> (out = inp \<longleftrightarrow> (\<forall>c\<in>set inp. is_not_escaped c \<or> c = 92))"
proof -
  have len: "length inp \<le> length (concat (map tu_echo inp))" for inp
    by (induction inp) (simp_all add: tu_echo_def)
  have "concat (map tu_echo inp) = inp \<longleftrightarrow> (\<forall>c\<in>set inp. is_not_escaped c \<or> c = 92)"
  proof (induction inp)
    case (Cons c inp)
    have "concat (map tu_echo (c # inp)) \<noteq> c # inp" if "\<not> (is_not_escaped c \<or> c = 92)"
    proof
      assume "concat (map tu_echo (c # inp)) = c # inp"
      then have "length (tu_echo c) + length (concat (map tu_echo inp)) = Suc (length inp)"
        by (metis concat.simps(2) length_Cons length_append list.simps(9))
      moreover have "length (tu_echo c) = 3" using that by (simp add: tu_echo_def)
      ultimately show False using len [of inp] by simp
    qed
    moreover have "tu_echo c = [c]" if "is_not_escaped c \<or> c = 92"
      using that by (simp add: tu_echo_def)
    ultimately show ?case using Cons.IH by (cases "is_not_escaped c \<or> c = 92") simp_all
  qed simp
  with tu_text [OF assms, of pad 0 "[]"] assms(1) show ?thesis
    by (simp add: textcodify_text)
qed

theorem textcode_roundtrip_witness:
  "\<exists>t out. textcodify [104, 92, 7, 32] 2 1 = Inr t \<and> textuncodify t [] = Inr (False, out) \<and>
    out = concat (map tu_echo [104, 92, 7, 32]) \<and>
    (out = [104, 92, 7, 32] \<longleftrightarrow> (\<forall>c\<in>set [104, 92, 7, 32]. is_not_escaped c \<or> c = 92))"
  by (rule textcode_roundtrip) (simp_all add: tc_cols_def is_not_escaped_def hex_value_def)

end
