(* ===== verification/GlobMatch.thy ===== *)
theory GlobMatch
  imports Prelude
begin

text \<open>
  util/Glob.cc: matching a pattern with \<open>*\<close> by running a fixed stack of states through the
  string. A C string is the list of its bytes before the terminator (none of them zero), and
  a pointer into it is the rest of the list; the pointer one past the terminator is
  \<open>None\<close>, and reading through it is undefined.
\<close>

section \<open>The code\<close>

record glob_state =
  gs_pat :: "bytes option"
  gs_match :: "bytes option"

text \<open>Reading the byte under a pointer (the terminator reads as 0), and stepping it.\<close>

definition cstr_at :: "bytes \<Rightarrow> byte" where
  "cstr_at s = (case s of [] \<Rightarrow> 0 | c # _ \<Rightarrow> c)"

definition cstr_next :: "bytes \<Rightarrow> bytes option" where
  "cstr_next s = (case s of [] \<Rightarrow> None | _ # r \<Rightarrow> Some r)"

definition glob_stack_size :: nat where
  "glob_stack_size = 32"

text \<open>The literal that the code puts in place of the string of a failed state.\<close>

definition no_match_str :: bytes where
  "no_match_str = [78, 79, 95, 77, 65, 84, 67, 72]"

text \<open>One state of the matching loop: its successor and the state it pushes, if any.\<close>

definition glob_step :: "glob_state \<Rightarrow> (glob_state \<times> glob_state option) run" where
  "glob_step st = (case (gs_pat st, gs_match st) of
      (Some p, Some m) \<Rightarrow>
        if cstr_at p = 42 then
          Inr (st\<lparr>gs_match := cstr_next m\<rparr>,
            if cstr_at (tl p) = cstr_at m
            then Some \<lparr>gs_pat = Some (tl p), gs_match = Some m\<rparr> else None)
        else if cstr_at p = cstr_at m then
          Inr (st\<lparr>gs_pat := cstr_next p, gs_match := cstr_next m\<rparr>, None)
        else Inr (\<lparr>gs_pat = Some [], gs_match = Some no_match_str\<rparr>, None)
    | _ \<Rightarrow> Inl Undefined)"

text \<open>
  The first loop of a round goes over the states that were on the stack when it began and
  pushes at the end: \<open>sz\<close> counts the pushed ones in. \<open>Inr None\<close> is the stack overflow.
\<close>

fun glob_advance :: "nat \<Rightarrow> glob_state list \<Rightarrow> (glob_state list \<times> glob_state list) option run" where
  "glob_advance sz [] = Inr (Some ([], []))"
| "glob_advance sz (st # stk) = bind_run (glob_step st) (\<lambda>(st', push).
     case push of
       None \<Rightarrow> bind_run (glob_advance sz stk) (\<lambda>r.
         Inr (map_option (\<lambda>(ss, ps). (st' # ss, ps)) r))
     | Some p \<Rightarrow>
         if sz = glob_stack_size then Inr None
         else bind_run (glob_advance (Suc sz) stk) (\<lambda>r.
           Inr (map_option (\<lambda>(ss, ps). (st' # ss, p # ps)) r)))"

text \<open>
  The second loop returns when a state has matched (\<open>Inr None\<close>) and drops the states with
  nothing left of their pattern or their string.
\<close>

fun glob_clean :: "glob_state list \<Rightarrow> glob_state list option run" where
  "glob_clean [] = Inr (Some [])"
| "glob_clean (st # stk) = (case (gs_pat st, gs_match st) of
      (Some p, Some m) \<Rightarrow>
        if cstr_at p = 0 \<and> cstr_at m = 0 \<or> cstr_at p = 42 \<and> cstr_at (tl p) = 0 \<and> cstr_at m = 0
        then Inr None
        else bind_run (glob_clean stk) (\<lambda>r. Inr (map_option
          (\<lambda>ss. if cstr_at p = 0 \<or> cstr_at m = 0 then ss else st # ss) r))
    | _ \<Rightarrow> Inl Undefined)"

text \<open>
  The code returns false both when the stack overflows and when no state is left; the loop
  here tells the two apart. Every round shortens what the states have left, weighed so that
  a star state outweighs its successor and the state it pushes together.
\<close>

datatype glob_result = Matched | Unmatched | Stack_full

definition gs_live :: "glob_state \<Rightarrow> bool" where
  "gs_live st = (case (gs_pat st, gs_match st) of
      (Some p, Some m) \<Rightarrow> cstr_at p \<noteq> 0 \<and> cstr_at m \<noteq> 0 | _ \<Rightarrow> False)"

definition gs_weight :: "glob_state \<Rightarrow> nat" where
  "gs_weight st = 3 ^ (length (case_option [] id (gs_pat st)) + length (case_option [] id (gs_match st)))"

abbreviation gs_live_weight :: "glob_state \<Rightarrow> nat" where
  "gs_live_weight st \<equiv> (if gs_live st then gs_weight st else 0)"

lemma cstr_at_Cons [simp]: "cstr_at (c # r) = c" and cstr_at_Nil [simp]: "cstr_at [] = 0"
  by (simp_all add: cstr_at_def)

lemma cstr_next_Cons [simp]: "cstr_next (c # r) = Some r" and cstr_next_Nil [simp]: "cstr_next [] = None"
  by (simp_all add: cstr_next_def)

lemma glob_step_weight:
  assumes "glob_step st = Inr (st', push)"
  shows "gs_live_weight st' + (case push of None \<Rightarrow> 0 | Some q \<Rightarrow> gs_live_weight q) < gs_weight st"
proof -
  obtain p m where pm: "gs_pat st = Some p" "gs_match st = Some m"
    using assms by (auto simp: glob_step_def split: option.splits)
  show ?thesis
    using assms pm by (cases p; cases m) (auto simp: glob_step_def gs_live_def gs_weight_def split: if_splits)
qed

lemma glob_advance_Cons:
  assumes "glob_advance sz (st # stk) = Inr (Some (ss, ps))"
  obtains st' push ss' ps' where "glob_step st = Inr (st', push)" "ss = st' # ss'"
    "(case push of None \<Rightarrow> ps = ps' \<and> glob_advance sz stk = Inr (Some (ss', ps'))
      | Some q \<Rightarrow> ps = q # ps' \<and> glob_advance (Suc sz) stk = Inr (Some (ss', ps')))"
proof -
  obtain st' push where step: "glob_step st = Inr (st', push)"
    using assms by (auto simp: run_simps)
  show ?thesis
  proof (cases push)
    case None
    with assms step obtain ss' ps' where "glob_advance sz stk = Inr (Some (ss', ps'))"
        "ss = st' # ss'" "ps = ps'"
      by (auto simp: bind_run_eq_Inr)
    with step None show ?thesis by (intro that) auto
  next
    case (Some q)
    with assms step obtain ss' ps' where "glob_advance (Suc sz) stk = Inr (Some (ss', ps'))"
        "ss = st' # ss'" "ps = q # ps'"
      by (auto simp: bind_run_eq_Inr split: if_splits)
    with step Some show ?thesis by (intro that) auto
  qed
qed

lemma glob_advance_weight:
  "glob_advance sz stk = Inr (Some (ss, ps)) \<Longrightarrow>
    sum_list (map gs_live_weight (ss @ ps)) + length stk \<le> sum_list (map gs_weight stk)"
proof (induction stk arbitrary: sz ss ps)
  case (Cons st stk)
  from Cons.prems show ?case
  proof (rule glob_advance_Cons)
    fix st' push ss' ps'
    assume step: "glob_step st = Inr (st', push)" and ss: "ss = st' # ss'"
      and rest: "case push of None \<Rightarrow> ps = ps' \<and> glob_advance sz stk = Inr (Some (ss', ps'))
        | Some q \<Rightarrow> ps = q # ps' \<and> glob_advance (Suc sz) stk = Inr (Some (ss', ps'))"
    have "sum_list (map gs_live_weight (ss' @ ps')) + length stk \<le> sum_list (map gs_weight stk)"
      using rest Cons.IH by (cases push) auto
    with rest ss glob_step_weight [OF step] show ?thesis by (cases push) simp_all
  qed
qed simp

lemma glob_clean_Cons:
  "glob_clean (st # stk) = Inr (Some stk') \<longleftrightarrow>
    (\<exists>ss p m. glob_clean stk = Inr (Some ss) \<and> stk' = (if gs_live st then st # ss else ss) \<and>
       gs_pat st = Some p \<and> gs_match st = Some m \<and>
       \<not> (cstr_at p = 0 \<and> cstr_at m = 0 \<or> cstr_at p = 42 \<and> cstr_at (tl p) = 0 \<and> cstr_at m = 0))"
proof (cases "gs_pat st")
  case p: (Some p)
  then show ?thesis
    by (cases "gs_match st") (auto simp: bind_run_eq_Inr gs_live_def)
qed simp

lemma glob_clean_live: "glob_clean stk = Inr (Some stk') \<Longrightarrow> stk' = filter gs_live stk"
  by (induction stk arbitrary: stk') (auto simp: glob_clean_Cons simp del: glob_clean.simps(2))

lemma sum_filter_live: "sum_list (map gs_weight (filter gs_live stk)) = sum_list (map gs_live_weight stk)"
  by (induction stk) simp_all

lemma glob_round_weight:
  assumes "stk \<noteq> []" "glob_advance sz stk = Inr (Some (ss, ps))" "glob_clean (ss @ ps) = Inr (Some stk')"
  shows "sum_list (map gs_weight stk') < sum_list (map gs_weight stk)"
proof -
  have "sum_list (map gs_weight stk') = sum_list (map gs_live_weight (ss @ ps))"
    using glob_clean_live [OF assms(3)] by (simp only: sum_filter_live)
  moreover have "0 < length stk" using assms(1) by simp
  ultimately show ?thesis using glob_advance_weight [OF assms(2)] by linarith
qed

function glob_loop :: "glob_state list \<Rightarrow> glob_result run" where
  "glob_loop stk =
     (if stk = [] then Inr Unmatched
      else case glob_advance (length stk) stk of
        Inl e \<Rightarrow> Inl e
      | Inr None \<Rightarrow> Inr Stack_full
      | Inr (Some (ss, ps)) \<Rightarrow>
          (case glob_clean (ss @ ps) of
             Inl e \<Rightarrow> Inl e
           | Inr None \<Rightarrow> Inr Matched
           | Inr (Some stk') \<Rightarrow> glob_loop stk'))"
  by pat_completeness auto
termination
  by (relation "measure (\<lambda>stk. sum_list (map gs_weight stk))") (auto dest: glob_round_weight)

declare glob_loop.simps [simp del]

definition glob_run :: "bytes \<Rightarrow> bytes \<Rightarrow> glob_result run" where
  "glob_run pat str =
     (if cstr_at pat = 0 \<and> cstr_at str = 0 then Inr Matched
      else glob_loop [\<lparr>gs_pat = Some pat, gs_match = Some str\<rparr>])"

definition fixed_glob :: "bytes \<Rightarrow> bytes \<Rightarrow> bool run" where
  "fixed_glob pat str = bind_run (glob_run pat str) (\<lambda>r. Inr (r = Matched))"

section \<open>Specification\<close>

text \<open>The usual meaning: a star stands for any number of characters.\<close>

fun glob_match :: "bytes \<Rightarrow> bytes \<Rightarrow> bool" where
  "glob_match [] s \<longleftrightarrow> s = []"
| "glob_match (c # p) [] \<longleftrightarrow> c = 42 \<and> glob_match p []"
| "glob_match (c # p) (d # s) \<longleftrightarrow>
     (if c = 42 then glob_match p (d # s) \<or> glob_match (c # p) s else c = d \<and> glob_match p s)"

definition gs_ok :: "glob_state \<Rightarrow> bool" where
  "gs_ok st = (case (gs_pat st, gs_match st) of
      (Some p, Some m) \<Rightarrow> 0 \<notin> set p \<and> 0 \<notin> set m | _ \<Rightarrow> False)"

text \<open>Whether the string under a state matches its pattern.\<close>

definition gs_accepts :: "glob_state \<Rightarrow> bool" where
  "gs_accepts st \<longleftrightarrow> glob_match (the (gs_pat st)) (the (gs_match st))"

fun no_double_star :: "bytes \<Rightarrow> bool" where
  "no_double_star (c # d # p) \<longleftrightarrow> \<not> (c = 42 \<and> d = 42) \<and> no_double_star (d # p)"
| "no_double_star _ \<longleftrightarrow> True"

definition gs_plain :: "glob_state \<Rightarrow> bool" where
  "gs_plain st \<longleftrightarrow> no_double_star (the (gs_pat st))"

lemma no_double_star_tl: "no_double_star (c # p) \<Longrightarrow> no_double_star p"
  by (cases p) auto

lemma glob_match_Nil: "no_double_star p \<Longrightarrow> glob_match p [] \<longleftrightarrow> p = [] \<or> p = [42]"
  by (induction p rule: no_double_star.induct) auto

lemma glob_match_head: "glob_match (c # p) (d # s) \<Longrightarrow> c \<noteq> 42 \<Longrightarrow> c = d"
  by simp

text \<open>A state with characters left is matched by its successor or by the state it pushes.\<close>

lemma glob_step_accepts:
  assumes "gs_ok st" "gs_live st" "gs_plain st"
  shows "\<exists>st' push. glob_step st = Inr (st', push) \<and> gs_ok st' \<and> gs_plain st' \<and>
    (case push of None \<Rightarrow> gs_accepts st = gs_accepts st'
     | Some q \<Rightarrow> gs_ok q \<and> gs_live q \<and> gs_plain q \<and> gs_accepts st = (gs_accepts st' \<or> gs_accepts q))"
proof -
  obtain p0 m0 where pm: "gs_pat st = Some p0" "gs_match st = Some m0" "0 \<notin> set p0" "0 \<notin> set m0"
      "cstr_at p0 \<noteq> 0" "cstr_at m0 \<noteq> 0"
    using assms(1,2) by (auto simp: gs_ok_def gs_live_def split: option.splits)
  obtain c p d m where "p0 = c # p" "m0 = d # m"
    using pm(5,6) by (cases p0; cases m0) auto
  note st = pm [unfolded this]
  show ?thesis
  proof (cases "c = 42")
    case star: True
    show ?thesis
    proof (cases "cstr_at p = d")
      case True
      with star st obtain p' where p: "p = d # p'" by (cases p) auto
      from True star st assms(3) show ?thesis
        by (simp add: glob_step_def gs_ok_def gs_plain_def gs_accepts_def gs_live_def p disj_commute)
    next
      case False
      then have "\<not> glob_match p (d # m)"
        using assms(3) st star by (cases p) (auto simp: gs_plain_def)
      with False star st assms(3) show ?thesis
        by (simp add: glob_step_def gs_ok_def gs_plain_def gs_accepts_def)
    qed
  next
    case False
    with st assms(3) no_double_star_tl [of c p] show ?thesis
      by (auto simp: glob_step_def gs_ok_def gs_plain_def gs_accepts_def no_match_str_def)
  qed
qed

lemma glob_advance_accepts:
  assumes "\<forall>st\<in>set stk. gs_ok st \<and> gs_live st \<and> gs_plain st"
  shows "glob_advance sz stk = Inr None \<or>
    (\<exists>ss ps. glob_advance sz stk = Inr (Some (ss, ps)) \<and>
       (\<forall>st\<in>set (ss @ ps). gs_ok st \<and> gs_plain st) \<and>
       ((\<exists>st\<in>set (ss @ ps). gs_accepts st) \<longleftrightarrow> (\<exists>st\<in>set stk. gs_accepts st)))"
  using assms
proof (induction stk arbitrary: sz)
  case (Cons st stk)
  then obtain st' push where step: "glob_step st = Inr (st', push)" "gs_ok st'" "gs_plain st'"
    and acc: "case push of None \<Rightarrow> gs_accepts st = gs_accepts st'
     | Some q \<Rightarrow> gs_ok q \<and> gs_live q \<and> gs_plain q \<and> gs_accepts st = (gs_accepts st' \<or> gs_accepts q)"
    using glob_step_accepts [of st] by auto
  have rest: "\<forall>st\<in>set stk. gs_ok st \<and> gs_live st \<and> gs_plain st" using Cons.prems by simp
  show ?case
  proof (cases push)
    case None
    with Cons.IH [OF rest, of sz] step acc show ?thesis by auto
  next
    case (Some q)
    with Cons.IH [OF rest, of "Suc sz"] step acc show ?thesis by auto
  qed
qed simp

lemma glob_clean_accepts:
  assumes "\<forall>st\<in>set stk. gs_ok st \<and> gs_plain st"
  shows "glob_clean stk = Inr None \<and> (\<exists>st\<in>set stk. gs_accepts st) \<or>
    (\<exists>stk'. glob_clean stk = Inr (Some stk') \<and>
       ((\<exists>st\<in>set stk'. gs_accepts st) \<longleftrightarrow> (\<exists>st\<in>set stk. gs_accepts st)))"
  using assms
proof (induction stk)
  case (Cons st stk)
  then obtain p m where st: "gs_pat st = Some p" "gs_match st = Some m" "0 \<notin> set p" "0 \<notin> set m"
      "no_double_star p"
    by (auto simp: gs_ok_def gs_plain_def split: option.splits)
  have nul: "cstr_at p = 0 \<longleftrightarrow> p = []" "cstr_at m = 0 \<longleftrightarrow> m = []"
      "p \<noteq> [] \<Longrightarrow> cstr_at p = 42 \<and> cstr_at (tl p) = 0 \<longleftrightarrow> p = [42]"
    using st(3,4) by (cases p; cases m; cases "tl p"; auto)+
  have fin: "gs_accepts st \<longleftrightarrow> p = [] \<or> p = [42]" if "m = []"
    using that st glob_match_Nil [OF st(5)] by (simp add: gs_accepts_def)
  have dead: "gs_accepts st \<longleftrightarrow> m = []" if "p = []"
    using that st by (simp add: gs_accepts_def)
  from Cons.IH Cons.prems st nul fin dead show ?case
    by (cases "p = []"; cases "m = []"; cases "p = [42]") auto
qed simp

lemma glob_loop_accepts:
  assumes "\<forall>st\<in>set stk. gs_ok st \<and> gs_live st \<and> gs_plain st"
  shows "\<exists>r. glob_loop stk = Inr r \<and> (r = Matched \<longrightarrow> (\<exists>st\<in>set stk. gs_accepts st)) \<and>
    (r = Unmatched \<longrightarrow> \<not> (\<exists>st\<in>set stk. gs_accepts st))"
  using assms
proof (induction stk rule: glob_loop.induct)
  case (1 stk)
  show ?case
  proof (cases "stk = [] \<or> glob_advance (length stk) stk = Inr None")
    case True
    then show ?thesis by (subst glob_loop.simps) auto
  next
    case False
    with glob_advance_accepts [OF 1(2), of "length stk"] obtain ss ps where
      adv: "glob_advance (length stk) stk = Inr (Some (ss, ps))"
        "\<forall>st\<in>set (ss @ ps). gs_ok st \<and> gs_plain st"
        "(\<exists>st\<in>set (ss @ ps). gs_accepts st) \<longleftrightarrow> (\<exists>st\<in>set stk. gs_accepts st)"
      by blast
    from glob_clean_accepts [OF adv(2)] show ?thesis
    proof (elim disjE exE conjE)
      assume c: "glob_clean (ss @ ps) = Inr None" "\<exists>st\<in>set (ss @ ps). gs_accepts st"
      then have "glob_loop stk = Inr Matched"
        using False adv(1) by (subst glob_loop.simps) simp
      with c(2) adv(3) show ?thesis by blast
    next
      fix stk'
      assume c: "glob_clean (ss @ ps) = Inr (Some stk')"
        "(\<exists>st\<in>set stk'. gs_accepts st) \<longleftrightarrow> (\<exists>st\<in>set (ss @ ps). gs_accepts st)"
      have loop: "glob_loop stk = glob_loop stk'"
        using False adv(1) c(1) by (subst glob_loop.simps) simp
      have "\<forall>st\<in>set stk'. gs_ok st \<and> gs_live st \<and> gs_plain st"
        using glob_clean_live [OF c(1)] adv(2) by auto
      moreover have "stk \<noteq> []" using False by simp
      ultimately have "\<exists>r. glob_loop stk' = Inr r \<and> (r = Matched \<longrightarrow> (\<exists>st\<in>set stk'. gs_accepts st)) \<and>
          (r = Unmatched \<longrightarrow> \<not> (\<exists>st\<in>set stk'. gs_accepts st))"
        using 1(1) [OF _ adv(1) refl refl c(1) refl] by blast
      with c(2) adv(3) loop show ?thesis by auto
    qed
  qed
qed

lemma glob_loop_Nil [simp]: "glob_loop [] = Inr Unmatched"
  by (simp add: glob_loop.simps)

lemma glob_star_empty:
  assumes "0 \<notin> set p"
  shows "glob_run (42 # p) [] = Inl Undefined"
  by (simp add: glob_run_def glob_loop.simps glob_step_def glob_stack_size_def)

lemma glob_mismatch_empty:
  assumes "0 \<notin> set pat" "0 \<notin> set str" "(pat = []) \<noteq> (str = [])" "str = [] \<Longrightarrow> hd pat \<noteq> 42"
  shows "glob_run pat str = Inr Unmatched"
proof -
  have "cstr_at pat \<noteq> cstr_at str" "cstr_at pat \<noteq> 42"
    using assms by (cases pat; cases str; auto)+
  then show ?thesis
    by (auto simp: glob_run_def glob_loop.simps [of "[_]"] glob_step_def no_match_str_def)
qed

section \<open>Properties\<close>

text \<open>
  Property C29. The fixed-stack matcher against the meaning of the pattern, for patterns
  without two adjacent stars: unless the stack of 32 states overflows, its answer is exact,
  and it never claims a match that is not one. On the empty string a pattern that begins
  with a star steps over the terminator and reads past the end.
\<close>

theorem glob_correct:
  assumes "0 \<notin> set pat" and "0 \<notin> set str" and "no_double_star pat"
  shows "if str = [] \<and> pat \<noteq> [] \<and> hd pat = 42 then fixed_glob pat str = Inl Undefined
    else \<exists>r. glob_run pat str = Inr r \<and> fixed_glob pat str = Inr (r = Matched) \<and>
      (if r = Stack_full then True else (r = Matched) = glob_match pat str)"
proof (cases "pat = [] \<or> str = []")
  case True
  show ?thesis
  proof (cases "pat = [] \<and> str = []")
    case True
    then show ?thesis by (simp add: fixed_glob_def glob_run_def)
  next
    case False
    with True have ne: "(pat = []) \<noteq> (str = [])" by blast
    have "glob_match pat str \<longleftrightarrow> False" if "str = [] \<Longrightarrow> hd pat \<noteq> 42"
      using that ne assms(3) by (cases pat; cases str) auto
    with True ne glob_star_empty [of "tl pat"] glob_mismatch_empty [OF assms(1,2) ne] assms(1)
    show ?thesis by (cases pat) (auto simp: fixed_glob_def)
  qed
next
  case False
  let ?st = "\<lparr>gs_pat = Some pat, gs_match = Some str\<rparr>"
  have "cstr_at pat \<noteq> 0" "cstr_at str \<noteq> 0"
    using False assms by (cases pat; cases str; auto)+
  then have "\<forall>st\<in>set [?st]. gs_ok st \<and> gs_live st \<and> gs_plain st" "glob_run pat str = glob_loop [?st]"
    using assms by (simp_all add: gs_ok_def gs_live_def gs_plain_def glob_run_def)
  with glob_loop_accepts [of "[?st]"] False show ?thesis
    by (fastforce simp: fixed_glob_def gs_accepts_def intro: glob_result.exhaust)
qed

theorem glob_correct_witness:
  "\<exists>r. glob_run [97, 42] [97, 98] = Inr r \<and> fixed_glob [97, 42] [97, 98] = Inr (r = Matched) \<and>
    (if r = Stack_full then True else (r = Matched) = glob_match [97, 42] [97, 98])"
  using glob_correct [of "[97, 42]" "[97, 98]"] by simp

end
