(* ===== verification/Buffers.thy ===== *)
theory Buffers
  imports Prelude
begin

text \<open>
  util/StreamBuffer.cc, util/ExpandableBuffer.h, util/ScratchBuffer.h and
  util/StringBuffer.cc: the buffers of the library. Allocated memory is the list of its
  bytes; \<open>junk\<close> gives the bytes that an allocation leaves unspecified. Pointers into a
  buffer are offsets. Allocations succeed. The sizes that \<open>StreamBuffer::reserve\<close> computes wrap as \<open>size_t\<close> does
  (\<open>st_reserve\<close>); the clients of the buffer in other theories use \<open>st_reserve_nat\<close>, the same on natural numbers, which is
  equal as long as no size comes near \<open>2^63\<close> (\<open>st_reserve_exact\<close>). The sizes of the other buffers are natural numbers.
\<close>

text \<open>Copying bytes into memory at an offset.\<close>

definition mem_write :: "nat \<Rightarrow> bytes \<Rightarrow> bytes \<Rightarrow> bytes run" where
  "mem_write off data mem =
     (if off + length data \<le> length mem then Inr (take off mem @ data @ drop (off + length data) mem)
      else Inl Undefined)"

lemma mem_write_ok:
  "off + length data \<le> length mem \<Longrightarrow>
    mem_write off data mem = Inr (take off mem @ data @ drop (off + length data) mem)"
  by (simp add: mem_write_def)

section \<open>StreamBuffer\<close>

record stream =
  st_mem :: bytes
  st_start :: nat
  st_end :: nat

definition st_init :: "(nat \<Rightarrow> byte) \<Rightarrow> nat \<Rightarrow> stream" where
  "st_init junk sz = \<lparr>st_mem = map junk [0..<if sz = 0 then 4 else sz], st_start = 0, st_end = 0\<rparr>"

definition st_fullbytes :: "stream \<Rightarrow> nat" where
  "st_fullbytes b = st_end b - st_start b"

definition st_tailbytes :: "stream \<Rightarrow> nat" where
  "st_tailbytes b = length (st_mem b) - st_end b"

definition st_moveup :: "stream \<Rightarrow> stream" where
  "st_moveup b =
     (if st_start b = 0 then b
      else b\<lparr>st_mem := take (st_end b - st_start b) (drop (st_start b) (st_mem b)) @
                 drop (st_end b - st_start b) (st_mem b),
             st_end := st_end b - st_start b, st_start := 0\<rparr>)"

text \<open>\<open>realloc\<close> to no bytes frees the block and returns null, which the code asserts against.\<close>

definition st_realloc :: "(nat \<Rightarrow> byte) \<Rightarrow> nat \<Rightarrow> stream \<Rightarrow> stream run" where
  "st_realloc junk sz b =
     (if sz = 0 then Inl Assert_failed
      else Inr (b\<lparr>st_mem := take sz (st_mem b) @ map junk [length (st_mem b)..<sz]\<rparr>))"

definition st_set_size :: "(nat \<Rightarrow> byte) \<Rightarrow> nat \<Rightarrow> stream \<Rightarrow> stream run" where
  "st_set_size junk sz b =
     (if st_fullbytes b \<le> sz then st_realloc junk sz (st_moveup b) else Inl Assert_failed)"

definition size_t :: "nat \<Rightarrow> nat" where
  "size_t n = n mod 2 ^ 64"

definition st_reserve :: "(nat \<Rightarrow> byte) \<Rightarrow> nat \<Rightarrow> stream \<Rightarrow> stream run" where
  "st_reserve junk amount b =
     bind_run
       (if amount \<le> st_tailbytes b then Inr b
        else if amount \<le> size_t (st_start b + st_tailbytes b) then Inr (st_moveup b)
        else (let b1 = st_moveup b
              in st_realloc junk (if size_t (length (st_mem b1) * 2) < size_t (amount + st_fullbytes b1)
                   then size_t (amount + st_fullbytes b1) else size_t (length (st_mem b1) * 2)) b1))
       (\<lambda>b2. bind_run (assert_run (amount \<le> st_tailbytes b2)) (\<lambda>_. Inr b2))"

text \<open>The same with sums that do not wrap, as the clients in other theories use it.\<close>

definition st_reserve_nat :: "(nat \<Rightarrow> byte) \<Rightarrow> nat \<Rightarrow> stream \<Rightarrow> stream run" where
  "st_reserve_nat junk amount b =
     bind_run
       (if amount \<le> st_tailbytes b then Inr b
        else if amount \<le> st_start b + st_tailbytes b then Inr (st_moveup b)
        else (let b1 = st_moveup b
              in st_realloc junk (if length (st_mem b1) * 2 < amount + st_fullbytes b1
                   then amount + st_fullbytes b1 else length (st_mem b1) * 2) b1))
       (\<lambda>b2. bind_run (assert_run (amount \<le> st_tailbytes b2)) (\<lambda>_. Inr b2))"

definition st_fill :: "nat \<Rightarrow> stream \<Rightarrow> stream run" where
  "st_fill amount b =
     bind_run (assert_run (amount \<le> st_tailbytes b)) (\<lambda>_. Inr (b\<lparr>st_end := st_end b + amount\<rparr>))"

definition st_consume :: "nat \<Rightarrow> stream \<Rightarrow> stream run" where
  "st_consume amount b =
     bind_run (assert_run (amount \<le> st_fullbytes b)) (\<lambda>_.
       Inr (if st_start b + amount = st_end b then b\<lparr>st_start := 0, st_end := 0\<rparr>
            else b\<lparr>st_start := st_start b + amount\<rparr>))"

definition st_clear :: "stream \<Rightarrow> stream" where
  "st_clear b = b\<lparr>st_start := 0, st_end := 0\<rparr>"

text \<open>What a client does: reserve, copy to \<open>end()\<close>, fill.\<close>

definition st_put :: "(nat \<Rightarrow> byte) \<Rightarrow> bytes \<Rightarrow> stream \<Rightarrow> stream run" where
  "st_put junk data b =
     bind_run (st_reserve junk (length data) b) (\<lambda>b1.
     bind_run (mem_write (st_end b1) data (st_mem b1)) (\<lambda>m.
     st_fill (length data) (b1\<lparr>st_mem := m\<rparr>)))"

definition st_put_nat :: "(nat \<Rightarrow> byte) \<Rightarrow> bytes \<Rightarrow> stream \<Rightarrow> stream run" where
  "st_put_nat junk data b =
     bind_run (st_reserve_nat junk (length data) b) (\<lambda>b1.
     bind_run (mem_write (st_end b1) data (st_mem b1)) (\<lambda>m.
     st_fill (length data) (b1\<lparr>st_mem := m\<rparr>)))"

text \<open>What the client reads: the full bytes from \<open>start()\<close>.\<close>

definition st_data :: "stream \<Rightarrow> bytes" where
  "st_data b = take (st_fullbytes b) (drop (st_start b) (st_mem b))"

definition st_ok :: "stream \<Rightarrow> bool" where
  "st_ok b \<longleftrightarrow> st_start b \<le> st_end b \<and> st_end b \<le> length (st_mem b) \<and> st_mem b \<noteq> []"

lemma st_moveup_ok:
  assumes "st_ok b"
  shows "st_ok (st_moveup b)" "st_data (st_moveup b) = st_data b" "st_start (st_moveup b) = 0"
    "length (st_mem (st_moveup b)) = length (st_mem b)" "st_fullbytes (st_moveup b) = st_fullbytes b"
    "st_end (st_moveup b) = st_fullbytes b"
  using assms by (auto simp: st_ok_def st_moveup_def st_data_def st_fullbytes_def min_def)

lemma st_realloc_ok:
  assumes "st_ok b" "st_end b \<le> sz" "0 < sz"
  shows "\<exists>b'. st_realloc junk sz b = Inr b' \<and> st_ok b' \<and> st_data b' = st_data b \<and>
    length (st_mem b') = sz \<and> st_end b' = st_end b"
proof -
  have "take sz (st_mem b) @ map junk [length (st_mem b)..<sz] \<noteq> []"
    using assms(3) by (cases "st_mem b") auto
  with assms show ?thesis
    by (auto simp: st_realloc_def st_ok_def st_data_def st_fullbytes_def drop_take min_def)
qed

lemma st_reserve_ok:
  assumes "st_ok b"
  shows "\<exists>b'. st_reserve_nat junk n b = Inr b' \<and> st_ok b' \<and> st_data b' = st_data b \<and> n \<le> st_tailbytes b'"
proof -
  consider "n \<le> st_tailbytes b" | "\<not> n \<le> st_tailbytes b" "n \<le> st_start b + st_tailbytes b"
    | "\<not> n \<le> st_tailbytes b" "\<not> n \<le> st_start b + st_tailbytes b" by blast
  then show ?thesis
  proof cases
    case 1
    with assms show ?thesis by (simp add: st_reserve_nat_def)
  next
    case 2
    with assms have "n \<le> st_tailbytes (st_moveup b)"
      by (auto simp: st_tailbytes_def st_moveup_ok [OF assms] st_fullbytes_def st_ok_def)
    with 2 assms show ?thesis by (simp add: st_reserve_nat_def st_moveup_ok)
  next
    case 3
    let ?b = "st_moveup b"
    let ?sz = "if length (st_mem ?b) * 2 < n + st_fullbytes ?b then n + st_fullbytes ?b
      else length (st_mem ?b) * 2"
    have "st_end ?b \<le> ?sz" "0 < ?sz" "n + st_end ?b \<le> ?sz"
      using assms by (auto simp: st_moveup_ok [OF assms] st_ok_def)
    with st_realloc_ok [of ?b ?sz junk] st_moveup_ok [OF assms] obtain b' where
      "st_realloc junk ?sz ?b = Inr b'" "st_ok b'" "st_data b' = st_data b" "n \<le> st_tailbytes b'"
      by (auto simp: st_tailbytes_def)
    with 3 show ?thesis by (simp add: st_reserve_nat_def Let_def)
  qed
qed

lemma take_drop_insert:
  assumes "s \<le> e" "e + length d \<le> length m"
  shows "take (e + length d - s) (drop s (take e m @ d @ r)) = take (e - s) (drop s m) @ d"
proof -
  have "drop s (take e m @ d @ r) = (take (e - s) (drop s m) @ d) @ r"
    using assms by (simp add: drop_take)
  moreover have "e + length d - s = length (take (e - s) (drop s m) @ d)"
    using assms by simp
  ultimately show ?thesis by (metis append_eq_conv_conj)
qed

lemma st_append_ok:
  assumes "st_ok b" "length d \<le> st_tailbytes b"
  defines "m \<equiv> take (st_end b) (st_mem b) @ d @ drop (st_end b + length d) (st_mem b)"
  shows "st_ok (b\<lparr>st_mem := m, st_end := st_end b + length d\<rparr>)"
    and "st_data (b\<lparr>st_mem := m, st_end := st_end b + length d\<rparr>) = st_data b @ d"
proof -
  obtain mem s e where b: "b = \<lparr>st_mem = mem, st_start = s, st_end = e\<rparr>" by (cases b)
  have ok: "s \<le> e" "e + length d \<le> length mem" "mem \<noteq> []"
    using assms(1,2) by (auto simp: b st_ok_def st_tailbytes_def)
  have "take e mem @ d @ drop (e + length d) mem \<noteq> []" using ok(2,3) by (cases e) auto
  then show "st_ok (b\<lparr>st_mem := m, st_end := st_end b + length d\<rparr>)"
    using ok(1,2) by (simp add: st_ok_def b m_def)
  have data: "st_data \<lparr>st_mem = x, st_start = y, st_end = z\<rparr> = take (z - y) (drop y x)" for x y z
    by (simp add: st_data_def st_fullbytes_def)
  have "b\<lparr>st_mem := m, st_end := st_end b + length d\<rparr> =
      \<lparr>st_mem = take e mem @ d @ drop (e + length d) mem, st_start = s, st_end = e + length d\<rparr>"
    by (simp add: b m_def)
  then show "st_data (b\<lparr>st_mem := m, st_end := st_end b + length d\<rparr>) = st_data b @ d"
    by (simp only: data b take_drop_insert [OF ok(1,2)])
qed

lemma st_put_ok:
  assumes "st_ok b"
  shows "\<exists>b'. st_put_nat junk data b = Inr b' \<and> st_ok b' \<and> st_data b' = st_data b @ data"
proof -
  obtain b1 where b1: "st_reserve_nat junk (length data) b = Inr b1" "st_ok b1" "st_data b1 = st_data b"
      "length data \<le> st_tailbytes b1"
    using st_reserve_ok [OF assms] by blast
  have "st_put_nat junk data b = Inr (b1\<lparr>st_mem := take (st_end b1) (st_mem b1) @ data @
      drop (st_end b1 + length data) (st_mem b1), st_end := st_end b1 + length data\<rparr>)"
  proof -
    have le: "st_end b1 + length data \<le> length (st_mem b1)"
      using b1(2,4) by (auto simp: st_ok_def st_tailbytes_def)
    then have "length data \<le> length (st_mem b1) - st_end b1" by simp
    with b1(1) le show ?thesis
      by (simp add: st_put_nat_def mem_write_ok st_fill_def st_tailbytes_def)
  qed
  with st_append_ok [OF b1(2,4)] b1(3) show ?thesis by metis
qed

lemma st_consume_ok:
  assumes "st_ok b"
  shows "if n \<le> length (st_data b)
    then \<exists>b'. st_consume n b = Inr b' \<and> st_ok b' \<and> st_data b' = drop n (st_data b)
    else st_consume n b = Inl Assert_failed"
proof -
  have len: "length (st_data b) = st_fullbytes b"
    using assms by (auto simp: st_data_def st_ok_def st_fullbytes_def)
  show ?thesis
  proof (cases "n \<le> st_fullbytes b")
    case True
    have "drop n (take k (drop s xs)) = take (k - n) (drop (s + n) xs)" for k s and xs :: bytes
      by (simp add: drop_take add.commute)
    with True len assms show ?thesis
      by (auto simp: st_consume_def st_ok_def st_data_def st_fullbytes_def)
  qed (simp add: len st_consume_def)
qed

lemma st_set_size_ok:
  assumes "st_ok b"
  shows "if length (st_data b) \<le> sz \<and> 0 < sz
    then \<exists>b'. st_set_size junk sz b = Inr b' \<and> st_ok b' \<and> st_data b' = st_data b \<and> length (st_mem b') = sz
    else st_set_size junk sz b = Inl Assert_failed"
proof -
  have len: "length (st_data b) = st_fullbytes b"
    using assms by (auto simp: st_data_def st_ok_def st_fullbytes_def)
  show ?thesis
    using st_realloc_ok [of "st_moveup b" sz junk] st_moveup_ok [OF assms] len
    by (auto simp: st_set_size_def st_realloc_def)
qed

text \<open>The sums of \<open>reserve\<close> do not wrap when the sizes stay small, and then the memory is not more than twice what is needed.\<close>

lemma st_reserve_exact:
  assumes "st_ok b" "amount + length (st_mem b) * 2 < 2 ^ 64"
  shows "st_reserve junk amount b = st_reserve_nat junk amount b"
proof -
  have "st_start b + st_tailbytes b < 2 ^ 64" "st_fullbytes b \<le> length (st_mem b)"
    using assms by (auto simp: st_ok_def st_tailbytes_def st_fullbytes_def)
  then show ?thesis
    using assms st_moveup_ok [OF assms(1)]
    by (simp add: st_reserve_def st_reserve_nat_def size_t_def Let_def)
qed

lemma st_put_exact:
  assumes "st_ok b" "length data + length (st_mem b) * 2 < 2 ^ 64"
  shows "st_put junk data b = st_put_nat junk data b"
  using st_reserve_exact [OF assms] by (simp add: st_put_def st_put_nat_def)

lemma st_fullbytes_data: "st_ok b \<Longrightarrow> length (st_data b) = st_fullbytes b"
  by (auto simp: st_data_def st_ok_def st_fullbytes_def)

lemma st_reserve_length:
  assumes "st_ok b" "st_reserve_nat junk n b = Inr b'"
  shows "length (st_mem b') \<le> max (length (st_mem b)) (2 * (n + length (st_data b)))"
  using assms st_moveup_ok [OF assms(1)] st_fullbytes_data [OF assms(1)]
  by (auto simp: st_reserve_nat_def st_realloc_def Let_def bind_run_eq_Inr st_tailbytes_def st_ok_def st_fullbytes_def min_def max_def
      split: if_splits)

lemma st_put_length:
  assumes "st_ok b" "st_put_nat junk d b = Inr b'"
  shows "length (st_mem b') \<le> max (length (st_mem b)) (2 * (length d + length (st_data b)))"
proof -
  obtain b1 where b1: "st_reserve_nat junk (length d) b = Inr b1" "length (st_mem b') = length (st_mem b1)"
    using assms(2) by (auto simp: st_put_nat_def bind_run_eq_Inr st_fill_def mem_write_def split: if_splits)
  then show ?thesis using st_reserve_length [OF assms(1) b1(1)] by simp
qed

text \<open>A run of client calls, and the byte queue it stands for.\<close>

datatype stream_op = Put bytes | Consume nat | Reserve nat | Set_size nat | Clear

fun st_exec :: "(nat \<Rightarrow> byte) \<Rightarrow> stream \<Rightarrow> stream_op \<Rightarrow> stream run" where
  "st_exec junk b (Put data) = st_put_nat junk data b"
| "st_exec junk b (Consume n) = st_consume n b"
| "st_exec junk b (Reserve n) = st_reserve_nat junk n b"
| "st_exec junk b (Set_size n) = st_set_size junk n b"
| "st_exec junk b Clear = Inr (st_clear b)"

text \<open>The size that a call names.\<close>

fun op_bytes :: "stream_op \<Rightarrow> nat" where
  "op_bytes (Put data) = length data"
| "op_bytes (Reserve n) = n"
| "op_bytes (Set_size n) = n"
| "op_bytes _ = 0"

fun queue_exec :: "bytes \<Rightarrow> stream_op \<Rightarrow> bytes run" where
  "queue_exec q (Put data) = Inr (q @ data)"
| "queue_exec q (Consume n) = (if n \<le> length q then Inr (drop n q) else Inl Assert_failed)"
| "queue_exec q (Reserve n) = Inr q"
| "queue_exec q (Set_size n) = (if length q \<le> n \<and> 0 < n then Inr q else Inl Assert_failed)"
| "queue_exec q Clear = Inr []"

fun run_all :: "('s \<Rightarrow> 'o \<Rightarrow> 's run) \<Rightarrow> 's \<Rightarrow> 'o list \<Rightarrow> 's run" where
  "run_all step s [] = Inr s"
| "run_all step s (x # xs) = bind_run (step s x) (\<lambda>s'. run_all step s' xs)"

lemma run_all_refines:
  assumes "I s" "\<forall>x\<in>set xs. P x"
    and step: "\<And>s x. I s \<Longrightarrow> P x \<Longrightarrow> map_sum id \<alpha> (step s x) = spec (\<alpha> s) x \<and> (\<forall>s'. step s x = Inr s' \<longrightarrow> I s')"
  shows "map_sum id \<alpha> (run_all step s xs) = run_all spec (\<alpha> s) xs"
  using assms(1,2)
proof (induction xs arbitrary: s)
  case (Cons x xs)
  then have P: "P x" by simp
  show ?case
  proof (cases "step s x")
    case (Inl e)
    with step [OF Cons.prems(1) P] have "spec (\<alpha> s) x = Inl e" by simp
    with Inl show ?thesis by simp
  next
    case (Inr s')
    with step [OF Cons.prems(1) P] have "spec (\<alpha> s) x = Inr (\<alpha> s')" "I s'" by auto
    with Inr Cons.IH Cons.prems(2) show ?thesis by simp
  qed
qed simp

lemma st_exec_refines:
  assumes "st_ok b"
    and "op_bytes x + length (st_mem b) * 2 < 2 ^ 64"
  shows "map_sum id st_data (st_exec junk b x) = queue_exec (st_data b) x \<and>
    (\<forall>b'. st_exec junk b x = Inr b' \<longrightarrow> st_ok b' \<and> length (st_data b') \<le> length (st_data b) + op_bytes x \<and>
      length (st_mem b') \<le> max (length (st_mem b)) (2 * (op_bytes x + length (st_data b))))"
proof (cases x)
  case (Put d)
  with st_put_ok [OF assms(1), of junk d] st_put_exact [OF assms(1)] st_put_length [OF assms(1)] assms(2) show ?thesis by auto
next
  case (Consume n)
  have "length (st_mem b') = length (st_mem b)" if "st_consume n b = Inr b'" for b'
    using that by (auto simp: st_consume_def bind_run_eq_Inr split: if_splits)
  with Consume st_consume_ok [OF assms(1), of n] show ?thesis by (fastforce split: if_splits)
next
  case (Reserve n)
  with st_reserve_ok [OF assms(1), of junk n] st_reserve_exact [OF assms(1)] st_reserve_length [OF assms(1)] assms(2)
  show ?thesis by auto
next
  case (Set_size n)
  with st_set_size_ok [OF assms(1), of n junk] show ?thesis by (auto split: if_splits)
next
  case Clear
  with assms show ?thesis by (auto simp: st_clear_def st_ok_def st_data_def st_fullbytes_def)
qed

lemma st_run_refines:
  assumes "st_ok b" "length (st_data b) \<le> k" "length (st_mem b) \<le> 2 * k" "k + sum_list (map op_bytes ops) < 2 ^ 61"
  shows "map_sum id st_data (run_all (st_exec junk) b ops) = run_all queue_exec (st_data b) ops"
  using assms
proof (induction ops arbitrary: b k)
  case (Cons x ops)
  have "op_bytes x + length (st_mem b) * 2 < 2 ^ 64" using Cons.prems by simp
  note step = st_exec_refines [OF Cons.prems(1) this, of junk]
  show ?case
  proof (cases "st_exec junk b x")
    case (Inl e)
    then have "queue_exec (st_data b) x = Inl e" using step by (simp add: eq_commute [of "Inl e"])
    then show ?thesis using Inl by simp
  next
    case (Inr b')
    then have "map_sum id st_data (run_all (st_exec junk) b' ops) = run_all queue_exec (st_data b') ops"
      using step Cons.prems by (intro Cons.IH [of _ "k + op_bytes x"]) (auto simp: max_def split: if_splits)
    moreover have "queue_exec (st_data b) x = Inr (st_data b')" using step Inr by (simp add: eq_commute [of "Inr (st_data b')"])
    ultimately show ?thesis using Inr by (simp add: id_def)
  qed
qed simp

lemma st_init_ok: "st_ok (st_init junk n)" "st_data (st_init junk n) = []"
  by (auto simp: st_ok_def st_init_def st_data_def st_fullbytes_def)

section \<open>ExpandableBuffer\<close>

text \<open>The buffer pointer is null exactly when there is no memory yet.\<close>

record ebuf =
  eb_mem :: bytes
  eb_len :: nat

definition eb_reserve :: "(nat \<Rightarrow> byte) \<Rightarrow> nat \<Rightarrow> 'a ebuf_scheme \<Rightarrow> 'a ebuf_scheme run" where
  "eb_reserve junk n b =
     Inr (if length (eb_mem b) < n then b\<lparr>eb_mem := eb_mem b @ map junk [length (eb_mem b)..<n]\<rparr> else b)"

definition eb_init :: "(nat \<Rightarrow> byte) \<Rightarrow> nat \<Rightarrow> ebuf run" where
  "eb_init junk n =
     (if n \<noteq> 0 then eb_reserve junk n \<lparr>eb_mem = [], eb_len = 0\<rparr> else Inr \<lparr>eb_mem = [], eb_len = 0\<rparr>)"

definition eb_copy :: "(nat \<Rightarrow> byte) \<Rightarrow> ebuf \<Rightarrow> ebuf run" where
  "eb_copy junk other =
     (if eb_mem other = [] then Inr \<lparr>eb_mem = [], eb_len = 0\<rparr>
      else bind_run (eb_reserve junk (length (eb_mem other)) \<lparr>eb_mem = [], eb_len = 0\<rparr>) (\<lambda>b.
           bind_run (mem_write 0 (eb_mem other) (eb_mem b)) (\<lambda>m.
           Inr (b\<lparr>eb_mem := m, eb_len := eb_len other\<rparr>))))"

definition eb_nfree :: "'a ebuf_scheme \<Rightarrow> nat run" where
  "eb_nfree b = bind_run (assert_run (eb_len b \<le> length (eb_mem b))) (\<lambda>_. Inr (length (eb_mem b) - eb_len b))"

definition eb_tail_buf :: "(nat \<Rightarrow> 'a ebuf_scheme \<Rightarrow> 'a ebuf_scheme run) \<Rightarrow> nat \<Rightarrow> 'a ebuf_scheme \<Rightarrow>
    (nat \<times> 'a ebuf_scheme) run" where
  "eb_tail_buf reserve n b =
     (if n < length (eb_mem b) - eb_len b then Inr (eb_len b, b)
      else bind_run (reserve (eb_len b + n) b) (\<lambda>b1.
           bind_run (assert_run (n \<le> length (eb_mem b1) - eb_len b1)) (\<lambda>_. Inr (eb_len b1, b1))))"

definition eb_at :: "nat \<Rightarrow> 'a ebuf_scheme \<Rightarrow> nat option run" where
  "eb_at off b = bind_run (assert_run (eb_mem b \<noteq> [])) (\<lambda>_.
     Inr (if length (eb_mem b) \<le> off then None else Some off))"

definition eb_end :: "'a ebuf_scheme \<Rightarrow> nat option run" where
  "eb_end b = bind_run (assert_run (eb_mem b \<noteq> [])) (\<lambda>_.
     bind_run (assert_run (eb_len b < length (eb_mem b))) (\<lambda>_. eb_at (eb_len b) b))"

definition eb_raw_buf :: "'a ebuf_scheme \<Rightarrow> bytes run" where
  "eb_raw_buf b = bind_run (assert_run (eb_mem b \<noteq> [])) (\<lambda>_. Inr (eb_mem b))"

definition eb_set_len :: "nat \<Rightarrow> 'a ebuf_scheme \<Rightarrow> 'a ebuf_scheme run" where
  "eb_set_len n b = bind_run (assert_run (n \<le> length (eb_mem b))) (\<lambda>_. Inr (b\<lparr>eb_len := n\<rparr>))"

definition eb_incr_len :: "nat \<Rightarrow> 'a ebuf_scheme \<Rightarrow> 'a ebuf_scheme run" where
  "eb_incr_len n b = eb_set_len (eb_len b + n) b"

definition eb_clear :: "'a ebuf_scheme \<Rightarrow> 'a ebuf_scheme run" where
  "eb_clear b = eb_set_len 0 b"

text \<open>Writing at the pointer that \<open>end()\<close> returns.\<close>

definition eb_write_end :: "bytes \<Rightarrow> 'a ebuf_scheme \<Rightarrow> 'a ebuf_scheme run" where
  "eb_write_end data b = bind_run (eb_end b) (\<lambda>p. case p of
       None \<Rightarrow> Inl Undefined
     | Some off \<Rightarrow> bind_run (mem_write off data (eb_mem b)) (\<lambda>m. Inr (b\<lparr>eb_mem := m\<rparr>)))"

section \<open>ScratchBuffer\<close>

text \<open>
  A buffer that starts on a static array of \<open>static\<close> bytes and moves to allocated memory;
  its \<open>reserve\<close> overrides the virtual one.
\<close>

record scratch = ebuf +
  sc_malloc :: bool

definition sc_reserve :: "(nat \<Rightarrow> byte) \<Rightarrow> nat \<Rightarrow> nat \<Rightarrow> scratch \<Rightarrow> scratch run" where
  "sc_reserve junk static n b =
     (let n1 = (if n = 0 then (if eb_mem b = [] then 1 else length (eb_mem b) * 2) else n)
      in if n1 \<le> length (eb_mem b) then Inr b
         else if \<not> sc_malloc b then
           bind_run (assert_run (static < n1)) (\<lambda>_.
           bind_run (eb_reserve junk n1 (b\<lparr>sc_malloc := True\<rparr>)) (\<lambda>b1.
           bind_run (mem_write 0 (take (length (eb_mem b)) (eb_mem b)) (eb_mem b1)) (\<lambda>m.
           Inr (b1\<lparr>eb_mem := m\<rparr>))))
         else eb_reserve junk n1 b)"

definition sc_new :: "(nat \<Rightarrow> byte) \<Rightarrow> nat \<Rightarrow> scratch" where
  "sc_new junk static = \<lparr>eb_mem = map junk [0..<static], eb_len = 0, sc_malloc = False\<rparr>"

definition sc_init :: "(nat \<Rightarrow> byte) \<Rightarrow> nat \<Rightarrow> nat \<Rightarrow> scratch run" where
  "sc_init junk static n =
     (let b = sc_new junk static
      in if length (eb_mem b) < n then sc_reserve junk static n b else Inr b)"

definition sc_take_over :: "(nat \<Rightarrow> byte) \<Rightarrow> nat \<Rightarrow> scratch \<Rightarrow> scratch \<Rightarrow> scratch run" where
  "sc_take_over junk static other b =
     bind_run (sc_reserve junk static (length (eb_mem other)) b) (\<lambda>b1.
     bind_run (mem_write 0 (eb_mem other) (eb_mem b1)) (\<lambda>m.
     Inr (b1\<lparr>eb_mem := m, eb_len := eb_len other\<rparr>)))"

definition sc_copy :: "(nat \<Rightarrow> byte) \<Rightarrow> nat \<Rightarrow> scratch \<Rightarrow> scratch run" where
  "sc_copy junk static other =
     bind_run (sc_take_over junk static other (sc_new junk static)) (\<lambda>b.
     bind_run (assert_run (sc_malloc b = sc_malloc other)) (\<lambda>_. Inr b))"

definition sc_buf :: "(nat \<Rightarrow> byte) \<Rightarrow> nat \<Rightarrow> nat \<Rightarrow> scratch \<Rightarrow> scratch run" where
  "sc_buf junk static n b = (if n \<noteq> 0 then sc_reserve junk static n b else Inr b)"

section \<open>StringBuffer\<close>

text \<open>
  A string buffer appends to an expandable buffer through its virtual \<open>reserve\<close>, which is an
  argument here. Formatted text (what \<open>vsnprintf\<close> would write in full) is an argument too.
\<close>

definition str_init :: "(nat \<Rightarrow> 'a ebuf_scheme \<Rightarrow> 'a ebuf_scheme run) \<Rightarrow> 'a ebuf_scheme \<Rightarrow> 'a ebuf_scheme run" where
  "str_init reserve b = reserve 256 b"

definition str_c_str :: "(nat \<Rightarrow> 'a ebuf_scheme \<Rightarrow> 'a ebuf_scheme run) \<Rightarrow> 'a ebuf_scheme \<Rightarrow>
    (bytes \<times> 'a ebuf_scheme) run" where
  "str_c_str reserve b =
     bind_run
       (if eb_len b = 0 then Inr True
        else bind_run (eb_at (eb_len b - 1) b) (\<lambda>p. case p of
          None \<Rightarrow> Inl Undefined | Some off \<Rightarrow> Inr (eb_mem b ! off \<noteq> 0)))
       (\<lambda>add. bind_run
         (if add then
            bind_run (eb_nfree b) (\<lambda>free.
            bind_run (if free = 0 then reserve (eb_len b + 1) b else Inr b) (\<lambda>b1. eb_write_end [0] b1))
          else Inr b)
         (\<lambda>b2. bind_run (eb_raw_buf b2) (\<lambda>m. Inr (m, b2))))"

text \<open>Appending \<open>n\<close> bytes of the C string \<open>s\<close>, all of it when \<open>n\<close> is 0.\<close>

definition str_append :: "(nat \<Rightarrow> 'a ebuf_scheme \<Rightarrow> 'a ebuf_scheme run) \<Rightarrow> bytes \<Rightarrow> nat \<Rightarrow> 'a ebuf_scheme \<Rightarrow>
    (nat \<times> 'a ebuf_scheme) run" where
  "str_append reserve s n b =
     (let strlen = length (takeWhile (\<lambda>c. c \<noteq> 0) s); len = (if n = 0 then strlen else n)
      in if len = 0 then Inr (0, b)
         else bind_run (assert_run (len \<le> strlen)) (\<lambda>_.
              bind_run (reserve (eb_len b + len) b) (\<lambda>b1.
              bind_run (eb_write_end (take len s) b1) (\<lambda>b2.
              bind_run (eb_set_len (eb_len b2 + len) b2) (\<lambda>b3. Inr (len, b3))))))"

definition str_append_char :: "(nat \<Rightarrow> 'a ebuf_scheme \<Rightarrow> 'a ebuf_scheme run) \<Rightarrow> byte \<Rightarrow> 'a ebuf_scheme \<Rightarrow>
    (nat \<times> 'a ebuf_scheme) run" where
  "str_append_char reserve c b =
     bind_run (reserve (eb_len b + 1) b) (\<lambda>b1.
     bind_run (eb_write_end [c] b1) (\<lambda>b2.
     bind_run (eb_set_len (eb_len b2 + 1) b2) (\<lambda>b3. Inr (1, b3))))"

definition str_trim :: "nat \<Rightarrow> 'a ebuf_scheme \<Rightarrow> 'a ebuf_scheme run" where
  "str_trim n b = bind_run (assert_run (n \<le> eb_len b)) (\<lambda>_. eb_set_len (eb_len b - n) b)"

definition str_set_length :: "nat \<Rightarrow> 'a ebuf_scheme \<Rightarrow> 'a ebuf_scheme run" where
  "str_set_length n b = bind_run (assert_run (n \<le> length (eb_mem b))) (\<lambda>_. eb_set_len n b)"

text \<open>\<open>vappendf\<close>: the length it is given, and the pair of its result and the length it sets.\<close>

definition str_vappendf :: "(nat \<Rightarrow> 'a ebuf_scheme \<Rightarrow> 'a ebuf_scheme run) \<Rightarrow> bytes \<Rightarrow> nat \<Rightarrow> 'a ebuf_scheme \<Rightarrow>
    (nat \<times> nat \<times> 'a ebuf_scheme) run" where
  "str_vappendf reserve t lenp b =
     bind_run (eb_nfree b) (\<lambda>free.
     bind_run
       (if free < lenp + 1 then
          bind_run (assert_run (eb_mem b \<noteq> [])) (\<lambda>_.
          bind_run (reserve (max (eb_len b + lenp + 1) (length (eb_mem b) * 2)) b) (\<lambda>b1.
          bind_run (eb_nfree b1) (\<lambda>free1.
          bind_run (assert_run (lenp + 1 \<le> free1)) (\<lambda>_. Inr b1))))
        else Inr b) (\<lambda>b2.
     bind_run (eb_nfree b2) (\<lambda>free2.
     bind_run (eb_write_end (take (free2 - 1) t @ [0]) b2) (\<lambda>b3.
     bind_run (eb_nfree b3) (\<lambda>free3.
     bind_run (eb_set_len (eb_len b3 + min (length t) free3) b3) (\<lambda>b4.
     Inr (length t, min (length t) free3, b4)))))))"

text \<open>The macro \<open>STRINGBUFFER_VAPPENDF\<close>, around which \<open>appendf\<close> measures what was added.\<close>

definition str_macro_vappendf :: "(nat \<Rightarrow> 'a ebuf_scheme \<Rightarrow> 'a ebuf_scheme run) \<Rightarrow> bytes \<Rightarrow> 'a ebuf_scheme \<Rightarrow>
    'a ebuf_scheme run" where
  "str_macro_vappendf reserve t b =
     bind_run (str_vappendf reserve t 0 b) (\<lambda>(ret, len, b1).
     bind_run
       (if len \<le> ret then
          bind_run (str_trim len b1) (\<lambda>b2. str_vappendf reserve t ret b2)
        else Inr (ret, len, b1))
       (\<lambda>(ret', len', b3). bind_run (assert_run (ret' = len')) (\<lambda>_. Inr b3)))"

definition str_appendf :: "(nat \<Rightarrow> 'a ebuf_scheme \<Rightarrow> 'a ebuf_scheme run) \<Rightarrow> bytes \<Rightarrow> 'a ebuf_scheme \<Rightarrow>
    (nat \<times> 'a ebuf_scheme) run" where
  "str_appendf reserve t b =
     bind_run (str_macro_vappendf reserve t b) (\<lambda>b1. Inr (eb_len b1 - eb_len b, b1))"

text \<open>
  \<open>fast_ultoa\<close> (util/StringUtils.h) writes digits downwards from the end of the caller's
  array; the text that is there afterwards is returned, so its length is the count.
\<close>

function ultoa_loop :: "nat \<Rightarrow> nat \<Rightarrow> bytes \<Rightarrow> bytes" where
  "ultoa_loop base v acc =
     (let d = v mod base; acc1 = (if d < 10 then of_nat (48 + d) else of_nat (87 + d)) # acc
      in if 1 < base \<and> v div base \<noteq> 0 then ultoa_loop base (v div base) acc1 else acc1)"
  by pat_completeness auto
termination
  by (relation "measure (\<lambda>(base, v, acc). v)") (auto simp: div_greater_zero_iff intro!: div_less_dividend)

declare ultoa_loop.simps [simp del]

definition fast_ultoa :: "u64 \<Rightarrow> int \<Rightarrow> bytes" where
  "fast_ultoa val base =
     (if base = 10 then
        (if val < 10 then [of_nat (48 + unat val)]
         else if 2 ^ 63 - 1 < val
           then ultoa_loop 10 (unat (val div 10)) [of_nat (48 + unat (val mod 10))]
         else ultoa_loop 10 (unat val) [])
      else if base = 16 then ultoa_loop 16 (unat val) []
      else [])"

definition str_append_int :: "(nat \<Rightarrow> 'a ebuf_scheme \<Rightarrow> 'a ebuf_scheme run) \<Rightarrow> u64 \<Rightarrow> int \<Rightarrow>
    'a ebuf_scheme \<Rightarrow> (nat \<times> 'a ebuf_scheme) run" where
  "str_append_int reserve val base b =
     (let t = fast_ultoa val base; len = length t
      in if 16 < len then Inl Undefined
         else bind_run (assert_run (len < 16)) (\<lambda>_.
              bind_run (reserve (eb_len b + len) b) (\<lambda>b1.
              bind_run (eb_write_end t b1) (\<lambda>b2.
              bind_run (eb_set_len (eb_len b2 + len) b2) (\<lambda>b3. Inr (len, b3))))))"

definition str_append_int32 :: "(nat \<Rightarrow> 'a ebuf_scheme \<Rightarrow> 'a ebuf_scheme run) \<Rightarrow> u32 \<Rightarrow> int \<Rightarrow>
    'a ebuf_scheme \<Rightarrow> (nat \<times> 'a ebuf_scheme) run" where
  "str_append_int32 reserve val base b = str_append_int reserve (ucast val) base b"

section \<open>What a string buffer relies on\<close>

definition eb_contents :: "'a ebuf_scheme \<Rightarrow> bytes" where
  "eb_contents b = take (eb_len b) (eb_mem b)"

locale expandable =
  fixes reserve :: "nat \<Rightarrow> 'a ebuf_scheme \<Rightarrow> 'a ebuf_scheme run"
    and inv :: "'a ebuf_scheme \<Rightarrow> bool"
  assumes inv_len: "inv b \<Longrightarrow> eb_len b \<le> length (eb_mem b)"
    and reserve: "inv b \<Longrightarrow> \<exists>b' ext. reserve n b = Inr b' \<and> inv b' \<and> eb_len b' = eb_len b \<and>
        eb_mem b' = eb_mem b @ ext \<and> n \<le> length (eb_mem b')"
    and update: "inv b \<Longrightarrow> length m = length (eb_mem b) \<Longrightarrow> n \<le> length m \<Longrightarrow>
        inv (b\<lparr>eb_mem := m, eb_len := n\<rparr>)"
begin

lemma reserve_contents:
  assumes "inv b"
  obtains b' where "reserve n b = Inr b'" "inv b'" "eb_len b' = eb_len b" "eb_contents b' = eb_contents b"
    "n \<le> length (eb_mem b')"
proof -
  obtain b' ext where b: "reserve n b = Inr b'" "inv b'" "eb_len b' = eb_len b"
      "eb_mem b' = eb_mem b @ ext" "n \<le> length (eb_mem b')"
    using reserve [OF assms] by blast
  with inv_len [OF assms] show ?thesis by (intro that [OF b(1-3)]) (auto simp: eb_contents_def)
qed

text \<open>Writing at the end and then raising the length appends.\<close>

lemma write_end:
  assumes "inv b" "eb_len b < length (eb_mem b)" "eb_len b + length d \<le> length (eb_mem b)"
  obtains b' where "eb_write_end d b = Inr b'" "inv b'" "eb_len b' = eb_len b"
    "eb_contents b' = eb_contents b" "length (eb_mem b') = length (eb_mem b)"
    "take (eb_len b + length d) (eb_mem b') = eb_contents b @ d"
proof -
  let ?m = "take (eb_len b) (eb_mem b) @ d @ drop (eb_len b + length d) (eb_mem b)"
  have ne: "eb_mem b \<noteq> []" using assms(2) by auto
  have len: "length ?m = length (eb_mem b)" using assms(3) by simp
  show ?thesis
  proof (rule that)
    show "eb_write_end d b = Inr (b\<lparr>eb_mem := ?m\<rparr>)"
      using assms ne by (simp add: eb_write_end_def eb_end_def eb_at_def mem_write_ok)
    have "b\<lparr>eb_mem := ?m\<rparr> = b\<lparr>eb_mem := ?m, eb_len := eb_len b\<rparr>" by simp
    then show "inv (b\<lparr>eb_mem := ?m\<rparr>)"
      using update [OF assms(1) len, of "eb_len b"] assms(2) len by simp
  qed (use assms in \<open>simp_all add: eb_contents_def min_def\<close>)
qed

lemma set_len:
  assumes "inv b" "n \<le> length (eb_mem b)"
  shows "eb_set_len n b = Inr (b\<lparr>eb_len := n\<rparr>)" "inv (b\<lparr>eb_len := n\<rparr>)"
    "eb_contents (b\<lparr>eb_len := n\<rparr>) = take n (eb_mem b)"
  using assms update [OF assms(1), of "eb_mem b" n] by (simp_all add: eb_set_len_def eb_contents_def)

lemma append_bytes:
  assumes "inv b" "d \<noteq> []"
  obtains b1 b2 where "reserve (eb_len b + length d) b = Inr b1" "eb_write_end d b1 = Inr b2"
    "eb_set_len (eb_len b2 + length d) b2 = Inr (b2\<lparr>eb_len := eb_len b2 + length d\<rparr>)"
    "inv (b2\<lparr>eb_len := eb_len b2 + length d\<rparr>)"
    "eb_contents (b2\<lparr>eb_len := eb_len b2 + length d\<rparr>) = eb_contents b @ d"
proof -
  obtain b1 where b1: "reserve (eb_len b + length d) b = Inr b1" "inv b1" "eb_len b1 = eb_len b"
      "eb_contents b1 = eb_contents b" "eb_len b + length d \<le> length (eb_mem b1)"
    using reserve_contents [OF assms(1)] by blast
  have "eb_len b1 < length (eb_mem b1)" using b1(3,5) assms(2) by (cases d) auto
  from write_end [OF b1(2) this] b1(3,5) obtain b2 where b2: "eb_write_end d b1 = Inr b2" "inv b2"
      "eb_len b2 = eb_len b1" "length (eb_mem b2) = length (eb_mem b1)"
      "take (eb_len b1 + length d) (eb_mem b2) = eb_contents b1 @ d"
    by metis
  show ?thesis
    using set_len [OF b2(2), of "eb_len b2 + length d"] b1 b2 by (intro that [OF b1(1) b2(1)]) simp_all
qed

lemma append_char:
  assumes "inv b"
  shows "\<exists>b'. str_append_char reserve c b = Inr (1, b') \<and> inv b' \<and> eb_contents b' = eb_contents b @ [c]"
  using append_bytes [OF assms, of "[c]"] by (fastforce simp: str_append_char_def)

lemma append_string:
  fixes s :: bytes and n :: nat
  assumes "inv b"
  defines "len \<equiv> length (takeWhile (\<lambda>c. c \<noteq> 0) s)"
  defines "k \<equiv> if n = 0 then len else n"
  shows "if k \<le> len
    then \<exists>b'. str_append reserve s n b = Inr (k, b') \<and> inv b' \<and> eb_contents b' = eb_contents b @ take k s \<and>
      (k = 0 \<longrightarrow> b' = b)
    else str_append reserve s n b = Inl Assert_failed"
proof (cases "k = 0 \<or> len < k")
  case True
  with assms(1) show ?thesis by (auto simp: str_append_def k_def len_def Let_def)
next
  case False
  have "len \<le> length s" by (simp add: len_def length_takeWhile_le)
  with False have len: "length (take k s) = k" by simp
  with False have "take k s \<noteq> []" by auto
  from append_bytes [OF assms(1) this, unfolded len] obtain b1 b2 where
    "reserve (eb_len b + k) b = Inr b1" "eb_write_end (take k s) b1 = Inr b2"
    "eb_set_len (eb_len b2 + k) b2 = Inr (b2\<lparr>eb_len := eb_len b2 + k\<rparr>)"
    "inv (b2\<lparr>eb_len := eb_len b2 + k\<rparr>)"
    "eb_contents (b2\<lparr>eb_len := eb_len b2 + k\<rparr>) = eb_contents b @ take k s" by metis
  moreover have "str_append reserve s n b =
      bind_run (reserve (eb_len b + k) b) (\<lambda>b1. bind_run (eb_write_end (take k s) b1) (\<lambda>b2.
      bind_run (eb_set_len (eb_len b2 + k) b2) (\<lambda>b3. Inr (k, b3))))"
    using False by (cases "n = 0") (simp_all add: str_append_def Let_def k_def flip: len_def)
  ultimately show ?thesis using False by simp
qed

lemma append_int:
  assumes "inv b" "fast_ultoa val base \<noteq> []" "length (fast_ultoa val base) < 16"
  shows "\<exists>b'. str_append_int reserve val base b = Inr (length (fast_ultoa val base), b') \<and> inv b' \<and>
    eb_contents b' = eb_contents b @ fast_ultoa val base"
  using append_bytes [OF assms(1,2)] assms(3) by (fastforce simp: str_append_int_def Let_def)

lemma contents_mem: "inv b \<Longrightarrow> eb_contents b \<noteq> [] \<Longrightarrow> eb_mem b \<noteq> []"
  by (auto simp: eb_contents_def)

lemma vappendf_room:
  assumes "inv b" "eb_mem b \<noteq> []"
  obtains b2 where "inv b2" "eb_len b2 = eb_len b" "eb_contents b2 = eb_contents b"
    "eb_len b + lenp + 1 \<le> length (eb_mem b2)"
    "\<And>f :: 'a ebuf_scheme \<Rightarrow> (nat \<times> nat \<times> 'a ebuf_scheme) run. bind_run (eb_nfree b) (\<lambda>free. bind_run
       (if free < lenp + 1 then
          bind_run (assert_run (eb_mem b \<noteq> [])) (\<lambda>_.
          bind_run (reserve (max (eb_len b + lenp + 1) (length (eb_mem b) * 2)) b) (\<lambda>b1.
          bind_run (eb_nfree b1) (\<lambda>free1.
          bind_run (assert_run (lenp + 1 \<le> free1)) (\<lambda>_. Inr b1))))
        else Inr b) f) = f b2"
proof (cases "length (eb_mem b) - eb_len b < lenp + 1")
  case True
  obtain b1 where b1: "reserve (max (eb_len b + lenp + 1) (length (eb_mem b) * 2)) b = Inr b1" "inv b1"
      "eb_len b1 = eb_len b" "eb_contents b1 = eb_contents b"
      "max (eb_len b + lenp + 1) (length (eb_mem b) * 2) \<le> length (eb_mem b1)"
    using reserve_contents [OF assms(1)] by blast
  from b1(3,5) have "lenp + 1 \<le> length (eb_mem b1) - eb_len b1" by arith
  with b1 True assms inv_len [OF assms(1)] inv_len [OF b1(2)] show ?thesis
    by (intro that [OF b1(2-4)]) (simp_all add: eb_nfree_def)
next
  case False
  with assms inv_len [OF assms(1)] show ?thesis
    by (intro that [of b]) (simp_all add: eb_nfree_def)
qed

lemma vappendf:
  assumes "inv b" "eb_mem b \<noteq> []"
  shows "\<exists>n b'. str_vappendf reserve t lenp b = Inr (length t, n, b') \<and> inv b' \<and> eb_mem b' \<noteq> [] \<and>
    n \<le> length t \<and> eb_len b' = eb_len b + n \<and> take (eb_len b) (eb_mem b') = eb_contents b \<and>
    (length t \<le> lenp \<longrightarrow> n = length t \<and> eb_contents b' = eb_contents b @ t)"
proof -
  obtain b2 where b2: "inv b2" "eb_len b2 = eb_len b" "eb_contents b2 = eb_contents b"
      "eb_len b + lenp + 1 \<le> length (eb_mem b2)"
    and run: "str_vappendf reserve t lenp b =
      bind_run (eb_nfree b2) (\<lambda>free2.
      bind_run (eb_write_end (take (free2 - 1) t @ [0]) b2) (\<lambda>b3.
      bind_run (eb_nfree b3) (\<lambda>free3.
      bind_run (eb_set_len (eb_len b3 + min (length t) free3) b3) (\<lambda>b4.
      Inr (length t, min (length t) free3, b4)))))"
    unfolding str_vappendf_def by (rule vappendf_room [OF assms, where lenp = lenp]) blast
  let ?free = "length (eb_mem b2) - eb_len b2"
  let ?d = "take (?free - 1) t @ [0]"
  have lt: "eb_len b2 < length (eb_mem b2)" "eb_len b2 + length ?d \<le> length (eb_mem b2)"
    using b2(2,4) by auto
  from write_end [OF b2(1) lt] obtain b3 where b3: "eb_write_end ?d b2 = Inr b3" "inv b3"
      "eb_len b3 = eb_len b2" "length (eb_mem b3) = length (eb_mem b2)"
      "take (eb_len b2 + length ?d) (eb_mem b3) = eb_contents b2 @ ?d" "eb_contents b3 = eb_contents b2"
    by metis
  let ?n = "min (length t) ?free"
  have n: "eb_len b3 + ?n \<le> length (eb_mem b3)" using b3(3,4) lt(1) by simp
  have "str_vappendf reserve t lenp b = Inr (length t, ?n, b3\<lparr>eb_len := eb_len b3 + ?n\<rparr>)"
    using lt b3 set_len(1) [OF b3(2) n] by (simp add: run eb_nfree_def)
  moreover have "eb_mem b3 \<noteq> []" using b3(4) lt(1) by auto
  moreover have "take (eb_len b) (eb_mem b3) = eb_contents b"
    using b3(3,6) b2(2,3) by (simp add: eb_contents_def)
  moreover have "?n = length t \<and> take (eb_len b3 + length t) (eb_mem b3) = eb_contents b @ t"
    if "length t \<le> lenp"
  proof -
    have t: "take (?free - 1) t = t" "?n = length t" using that b2(2,4) by simp_all
    have "length (eb_contents b) = eb_len b2"
      using inv_len [OF assms(1)] b2(2) by (simp add: eb_contents_def)
    moreover have "take (eb_len b2 + length t) (take (eb_len b2 + length (t @ [0 :: byte])) (eb_mem b3)) =
        take (eb_len b2 + length t) (eb_contents b @ t @ [0])"
      using b3(5) unfolding t b2(3) by (rule arg_cong)
    ultimately show ?thesis using t(2) b3(3) by (simp add: min_def)
  qed
  ultimately show ?thesis
    using set_len(2) [OF b3(2) n] b3(3) b2(2)
    by (intro exI [of _ ?n] exI [of _ "b3\<lparr>eb_len := eb_len b3 + ?n\<rparr>"]) (simp add: eb_contents_def)
qed

lemma takeWhile_zero: "takeWhile (\<lambda>c. c \<noteq> 0) (xs @ 0 # ys) = takeWhile (\<lambda>c. c \<noteq> 0) (xs :: bytes)"
  by (induction xs) auto

lemma trim_after:
  assumes "inv b" "eb_len b = k + n" "eb_mem b \<noteq> []"
  shows "\<exists>b'. str_trim n b = Inr b' \<and> inv b' \<and> eb_mem b' = eb_mem b \<and> eb_len b' = k"
  using assms set_len [OF assms(1), of k] inv_len [OF assms(1)] by (simp add: str_trim_def)

lemma appendf:
  assumes "inv b" "eb_mem b \<noteq> []"
  shows "\<exists>b'. str_appendf reserve t b = Inr (length t, b') \<and> inv b' \<and> eb_mem b' \<noteq> [] \<and>
    eb_contents b' = eb_contents b @ t"
proof -
  obtain n b1 where b1: "str_vappendf reserve t 0 b = Inr (length t, n, b1)" "inv b1" "eb_mem b1 \<noteq> []"
      "n \<le> length t" "eb_len b1 = eb_len b + n" "take (eb_len b) (eb_mem b1) = eb_contents b"
    using vappendf [OF assms, of t 0] by blast
  obtain b2 where b2: "str_trim n b1 = Inr b2" "inv b2" "eb_mem b2 = eb_mem b1" "eb_len b2 = eb_len b"
    using trim_after [OF b1(2,5,3)] by blast
  obtain b3 where b3: "str_vappendf reserve t (length t) b2 = Inr (length t, length t, b3)" "inv b3"
      "eb_mem b3 \<noteq> []" "eb_len b3 = eb_len b2 + length t" "eb_contents b3 = eb_contents b2 @ t"
    using vappendf [OF b2(2), of t "length t"] b1(3) b2(3) by fastforce
  have "eb_contents b2 = eb_contents b" using b1(6) b2(3,4) by (simp add: eb_contents_def)
  with b1 b2 b3 show ?thesis by (simp add: str_appendf_def str_macro_vappendf_def)
qed

lemma c_str:
  assumes "inv b"
  shows "\<exists>m b'. str_c_str reserve b = Inr (m, b') \<and> inv b' \<and> eb_contents b' = eb_contents b \<and>
    m = eb_mem b' \<and> 0 \<in> set m \<and> takeWhile (\<lambda>c. c \<noteq> 0) m = takeWhile (\<lambda>c. c \<noteq> 0) (eb_contents b)"
proof (cases "eb_len b = 0 \<or> eb_mem b ! (eb_len b - 1) \<noteq> 0")
  case True
  have le: "eb_len b \<le> length (eb_mem b)" by (rule inv_len [OF assms])
  let ?free = "length (eb_mem b) - eb_len b"
  obtain b1 where b1: "(if ?free = 0 then reserve (eb_len b + 1) b else Inr b) = Inr b1" "inv b1"
      "eb_len b1 = eb_len b" "eb_contents b1 = eb_contents b" "eb_len b1 < length (eb_mem b1)"
  proof (cases "?free = 0")
    case True
    with reserve_contents [OF assms, of "eb_len b + 1"] that show ?thesis
      by (metis Suc_eq_plus1 Suc_le_eq)
  next
    case False
    with assms that show ?thesis by simp
  qed
  obtain b2 where b2: "eb_write_end [0] b1 = Inr b2" "inv b2" "eb_contents b2 = eb_contents b1"
      "take (eb_len b1 + 1) (eb_mem b2) = eb_contents b1 @ [0]" "length (eb_mem b2) = length (eb_mem b1)"
    using write_end [OF b1(2,5), of "[0]"] b1(5) by (metis One_nat_def Suc_eq_plus1 Suc_leI length_Cons list.size(3))
  have m: "eb_mem b2 = (eb_contents b @ [0]) @ drop (eb_len b1 + 1) (eb_mem b2)"
    using b2(4) b1(4) by (metis append_take_drop_id)
  have "str_c_str reserve b = Inr (eb_mem b2, b2)"
  proof -
    have raw: "eb_raw_buf b2 = Inr (eb_mem b2)" using b2(5) b1(5) by (cases "eb_mem b2") (simp_all add: eb_raw_buf_def)
    have "(if eb_len b = 0 then Inr True
        else bind_run (eb_at (eb_len b - 1) b) (\<lambda>p. case p of
          None \<Rightarrow> Inl Undefined | Some off \<Rightarrow> Inr (eb_mem b ! off \<noteq> 0))) = (Inr True :: bool run)"
      by (cases "eb_mem b") (use True le in \<open>auto simp: eb_at_def\<close>)
    then show ?thesis
      using b1(1) b2(1) raw le by (simp add: str_c_str_def eb_nfree_def)
  qed
  moreover have "0 \<in> set (eb_mem b2)" using m by (metis UnCI in_set_conv_decomp set_append)
  moreover have "takeWhile (\<lambda>c. c \<noteq> 0) (eb_mem b2) = takeWhile (\<lambda>c. c \<noteq> 0) (eb_contents b)"
    by (subst m) (simp add: takeWhile_zero)
  ultimately show ?thesis using b1(4) b2(2,3) by auto
next
  case False
  have le: "eb_len b \<le> length (eb_mem b)" by (rule inv_len [OF assms])
  have ne: "eb_mem b \<noteq> []" using False le by auto
  have "str_c_str reserve b = Inr (eb_mem b, b)"
  proof -
    have "\<not> length (eb_mem b) \<le> eb_len b - 1" using False le by linarith
    with False ne show ?thesis by (simp add: str_c_str_def eb_at_def eb_raw_buf_def)
  qed
  moreover have z: "0 \<in> set (eb_contents b)"
    using False le by (force simp: eb_contents_def in_set_conv_nth)
  then have "0 \<in> set (eb_mem b)" by (metis eb_contents_def in_set_takeD)
  moreover have "takeWhile (\<lambda>c. c \<noteq> 0) (eb_mem b) = takeWhile (\<lambda>c. c \<noteq> 0) (eb_contents b)"
    using z takeWhile_append1 [of 0 "eb_contents b" "\<lambda>c. c \<noteq> 0" "drop (eb_len b) (eb_mem b)"]
    by (simp add: eb_contents_def)
  ultimately show ?thesis using assms by auto
qed

end

section \<open>Digits\<close>

definition txt_digit :: "byte \<Rightarrow> nat" where
  "txt_digit c = (if c < 58 then unat c - 48 else unat c - 87)"

definition txt_value :: "nat \<Rightarrow> bytes \<Rightarrow> nat" where
  "txt_value base t = foldl (\<lambda>a c. base * a + txt_digit c) 0 t"

lemma txt_digit_of: "d < 16 \<Longrightarrow> txt_digit (if d < 10 then of_nat (48 + d) else of_nat (87 + d)) = d"
proof -
  assume "d < 16"
  then have "d = 0 \<or> d = 1 \<or> d = 2 \<or> d = 3 \<or> d = 4 \<or> d = 5 \<or> d = 6 \<or> d = 7 \<or>
      d = 8 \<or> d = 9 \<or> d = 10 \<or> d = 11 \<or> d = 12 \<or> d = 13 \<or> d = 14 \<or> d = 15" by presburger
  then show ?thesis by (elim disjE) (simp_all add: txt_digit_def)
qed

lemma ultoa_loop_step:
  assumes "1 < base"
  shows "ultoa_loop base v acc =
    (if v < base then [] else ultoa_loop base (v div base) []) @
      (if v mod base < 10 then of_nat (48 + v mod base) else of_nat (87 + v mod base)) # acc"
proof (induction v arbitrary: acc rule: less_induct)
  case (less v)
  show ?case
  proof (cases "v < base")
    case True
    then show ?thesis by (simp add: ultoa_loop.simps [of base v])
  next
    case False
    with assms have div: "v div base \<noteq> 0" "v div base < v" by (simp_all add: div_eq_0_iff)
    with assms show ?thesis
      by (subst ultoa_loop.simps) (simp add: False Let_def less [OF div(2), of "_ # acc"] less [OF div(2), of "[]"])
  qed
qed

lemma txt_value_snoc: "txt_value base (t @ [c]) = base * txt_value base t + txt_digit c"
  by (simp add: txt_value_def)

lemma ultoa_loop_value:
  assumes "1 < base" "base \<le> 16"
  shows "txt_value base (ultoa_loop base v []) = v"
proof (induction v rule: less_induct)
  case (less v)
  have d: "txt_digit (if v mod base < 10 then of_nat (48 + v mod base) else of_nat (87 + v mod base)) = v mod base"
    using assms by (intro txt_digit_of) (rule less_le_trans [of _ base], simp_all)
  show ?case
  proof (cases "v < base")
    case True
    then show ?thesis
      using d by (subst ultoa_loop_step [OF assms(1)]) (simp add: txt_value_def del: of_nat_add)
  next
    case False
    with assms have "txt_value base (ultoa_loop base (v div base) []) = v div base"
      by (intro less) simp
    with False d show ?thesis
      by (subst ultoa_loop_step [OF assms(1)]) (simp add: txt_value_snoc del: of_nat_add)
  qed
qed

lemma ultoa_loop_length:
  assumes "1 < base" "0 < n"
  shows "length (ultoa_loop base v []) \<le> n \<longleftrightarrow> v < base ^ n"
  using assms(2)
proof (induction n arbitrary: v)
  case (Suc n)
  show ?case
  proof (cases "v < base")
    case True
    have "base ^ 1 \<le> base ^ Suc n" using assms(1) by (intro power_increasing) simp_all
    with True have "v < base ^ Suc n" by (simp only: power_one_right)
    with True show ?thesis by (subst ultoa_loop_step [OF assms(1)]) simp
  next
    case False
    have len: "length (ultoa_loop base v []) = Suc (length (ultoa_loop base (v div base) []))"
      using False by (subst ultoa_loop_step [OF assms(1)]) simp
    show ?thesis
    proof (cases n)
      case 0
      have "length (ultoa_loop base (v div base) []) \<noteq> 0"
        by (subst ultoa_loop_step [OF assms(1)]) simp
      with 0 False len show ?thesis by simp
    next
      case (Suc m)
      then have "length (ultoa_loop base v []) \<le> Suc n \<longleftrightarrow> v div base < base ^ n"
        using Suc.IH [of "v div base"] len by simp
      also have "\<dots> \<longleftrightarrow> v < base ^ Suc n"
        using assms(1) by (simp add: less_mult_imp_div_less div_less_iff_less_mult mult.commute)
      finally show ?thesis .
    qed
  qed
qed simp

lemma fast_ultoa_loop:
  assumes "base = 10 \<or> base = 16"
  shows "fast_ultoa val base = ultoa_loop (nat base) (unat val) []"
  using assms
proof (elim disjE)
  assume b: "base = 10"
  have div: "unat (val div 10) = unat val div 10" "unat (val mod 10) = unat val mod 10"
    by (simp_all add: unat_div unat_mod)
  show ?thesis
  proof (cases "val < 10")
    case True
    then have "unat val < 10" by (simp add: word_less_nat_alt)
    with True b show ?thesis by (simp add: fast_ultoa_def ultoa_loop.simps [of 10 "unat val"])
  next
    case False
    then have ge: "\<not> unat val < 10" by (simp add: word_less_nat_alt)
    show ?thesis
      using b False ge
      by (simp add: fast_ultoa_def div ultoa_loop_step [of 10 "unat val"]
          ultoa_loop_step [of 10 "unat val div 10" "_ # _"] ultoa_loop_step [of 10 "unat val div 10"])
  qed
qed (simp add: fast_ultoa_def)

section \<open>The providers\<close>

interpretation heap_buf: expandable "eb_reserve junk" "\<lambda>b :: ebuf. eb_len b \<le> length (eb_mem b)" for junk
  by unfold_locales (auto simp: eb_reserve_def)

definition sc_ok :: "nat \<Rightarrow> scratch \<Rightarrow> bool" where
  "sc_ok static b \<longleftrightarrow> eb_len b \<le> length (eb_mem b) \<and>
     (if sc_malloc b then static < length (eb_mem b) else length (eb_mem b) = static)"

lemma sc_reserve_ok:
  assumes "sc_ok static b"
  shows "\<exists>b' ext. sc_reserve junk static n b = Inr b' \<and> sc_ok static b' \<and> eb_len b' = eb_len b \<and>
    eb_mem b' = eb_mem b @ ext \<and> n \<le> length (eb_mem b')"
proof -
  let ?n = "if n = 0 then (if eb_mem b = [] then 1 else length (eb_mem b) * 2) else n"
  let ?m = "eb_mem b @ map junk [length (eb_mem b)..<?n]"
  have n: "n \<le> ?n" by simp
  consider "?n \<le> length (eb_mem b)" | "length (eb_mem b) < ?n" "sc_malloc b"
    | "length (eb_mem b) < ?n" "\<not> sc_malloc b" by linarith
  then show ?thesis
  proof cases
    case 1
    with assms n show ?thesis
      by (intro exI [of _ b] exI [of _ "[]"]) (simp add: sc_reserve_def Let_def)
  next
    case 2
    then have "sc_reserve junk static n b = Inr (b\<lparr>eb_mem := ?m\<rparr>)"
      unfolding sc_reserve_def Let_def eb_reserve_def by simp
    with 2 assms n show ?thesis
      by (intro exI [of _ "b\<lparr>eb_mem := ?m\<rparr>"]) (simp add: sc_ok_def)
  next
    case 3
    with assms have "static < ?n" by (simp add: sc_ok_def)
    with 3 have "sc_reserve junk static n b = Inr (b\<lparr>sc_malloc := True, eb_mem := ?m\<rparr>)"
      unfolding sc_reserve_def Let_def eb_reserve_def by (simp add: mem_write_ok)
    with 3 assms n show ?thesis
      by (intro exI [of _ "b\<lparr>sc_malloc := True, eb_mem := ?m\<rparr>"]) (simp add: sc_ok_def)
  qed
qed

interpretation scratch_buf: expandable "sc_reserve junk static" "sc_ok static" for junk static
proof unfold_locales
  show "eb_len b \<le> length (eb_mem b)" if "sc_ok static b" for b :: scratch
    using that by (simp add: sc_ok_def)
  show "\<exists>b' ext. sc_reserve junk static n b = Inr b' \<and> sc_ok static b' \<and> eb_len b' = eb_len b \<and>
      eb_mem b' = eb_mem b @ ext \<and> n \<le> length (eb_mem b')" if "sc_ok static b" for b n
    using that by (rule sc_reserve_ok)
  show "sc_ok static (b\<lparr>eb_mem := m, eb_len := n\<rparr>)"
    if "sc_ok static b" "length m = length (eb_mem b)" "n \<le> length m" for b m n
    using that by (simp add: sc_ok_def)
qed

section \<open>A string buffer on a scratch buffer\<close>

datatype str_op = Add_char byte | Add_str bytes | Add_fmt bytes | Add_u32 u32 int | Add_u64 u64 int
  | Trim nat | Terminate

fun str_exec :: "(nat \<Rightarrow> byte) \<Rightarrow> nat \<Rightarrow> scratch \<Rightarrow> str_op \<Rightarrow> scratch run" where
  "str_exec junk static b (Add_char c) = map_sum id snd (str_append_char (sc_reserve junk static) c b)"
| "str_exec junk static b (Add_str s) = map_sum id snd (str_append (sc_reserve junk static) s 0 b)"
| "str_exec junk static b (Add_fmt t) = map_sum id snd (str_appendf (sc_reserve junk static) t b)"
| "str_exec junk static b (Add_u32 v base) = map_sum id snd (str_append_int32 (sc_reserve junk static) v base b)"
| "str_exec junk static b (Add_u64 v base) = map_sum id snd (str_append_int (sc_reserve junk static) v base b)"
| "str_exec junk static b (Trim n) = str_trim n b"
| "str_exec junk static b Terminate = map_sum id snd (str_c_str (sc_reserve junk static) b)"

text \<open>
  The text that the calls build. A 64-bit value of sixteen digits fails the assertion on the
  size of the temporary array, a longer one is written in front of it.
\<close>

definition text_append_int :: "bytes \<Rightarrow> u64 \<Rightarrow> int \<Rightarrow> bytes run" where
  "text_append_int t v base =
     (if length (fast_ultoa v base) < 16 then Inr (t @ fast_ultoa v base)
      else if length (fast_ultoa v base) = 16 then Inl Assert_failed else Inl Undefined)"

fun text_exec :: "bytes \<Rightarrow> str_op \<Rightarrow> bytes run" where
  "text_exec t (Add_char c) = Inr (t @ [c])"
| "text_exec t (Add_str s) = Inr (t @ takeWhile (\<lambda>c. c \<noteq> 0) s)"
| "text_exec t (Add_fmt f) = Inr (t @ f)"
| "text_exec t (Add_u32 v base) = text_append_int t (ucast v) base"
| "text_exec t (Add_u64 v base) = text_append_int t v base"
| "text_exec t (Trim n) = (if n \<le> length t then Inr (take (length t - n) t) else Inl Assert_failed)"
| "text_exec t Terminate = Inr t"

fun base_ok :: "str_op \<Rightarrow> bool" where
  "base_ok (Add_u32 v base) \<longleftrightarrow> base \<in> {10, 16}"
| "base_ok (Add_u64 v base) \<longleftrightarrow> base \<in> {10, 16}"
| "base_ok _ \<longleftrightarrow> True"

definition str_ok :: "nat \<Rightarrow> scratch \<Rightarrow> bool" where
  "str_ok static b \<longleftrightarrow> sc_ok static b \<and> eb_mem b \<noteq> []"

lemma fast_ultoa_ne: "base \<in> {10, 16} \<Longrightarrow> fast_ultoa v base \<noteq> []"
  using fast_ultoa_loop [of base v] ultoa_loop_step [of "nat base" "unat v" "[]"] by auto

lemma str_append_int_refines:
  assumes "str_ok static b" "base \<in> {10, 16}"
  shows "map_sum id eb_contents (map_sum id snd (str_append_int (sc_reserve junk static) v base b)) =
      text_append_int (eb_contents b) v base \<and>
    (\<forall>b'. map_sum id snd (str_append_int (sc_reserve junk static) v base b) = Inr b' \<longrightarrow> str_ok static b')"
proof (cases "length (fast_ultoa v base) < 16")
  case True
  with scratch_buf.append_int [of static b v base junk] assms fast_ultoa_ne [OF assms(2)]
  obtain b' where "str_append_int (sc_reserve junk static) v base b = Inr (length (fast_ultoa v base), b')"
      "sc_ok static b'" "eb_contents b' = eb_contents b @ fast_ultoa v base"
    by (auto simp: str_ok_def)
  with True fast_ultoa_ne [OF assms(2)] scratch_buf.contents_mem [of static b'] show ?thesis
    by (simp add: text_append_int_def str_ok_def)
next
  case False
  then show ?thesis by (auto simp: str_append_int_def text_append_int_def Let_def)
qed

lemma str_exec_refines:
  assumes "str_ok static b" "base_ok x"
  shows "map_sum id eb_contents (str_exec junk static b x) = text_exec (eb_contents b) x \<and>
    (\<forall>b'. str_exec junk static b x = Inr b' \<longrightarrow> str_ok static b')"
proof -
  have ok: "sc_ok static b" "eb_mem b \<noteq> []" using assms(1) by (simp_all add: str_ok_def)
  note nonempty = scratch_buf.contents_mem [of static]
  show ?thesis
  proof (cases x)
    case (Add_char c)
    with scratch_buf.append_char [OF ok(1), of junk c] nonempty show ?thesis by (auto simp: str_ok_def)
  next
    case (Add_str s)
    have "take (length (takeWhile (\<lambda>c. c \<noteq> 0) s)) s = takeWhile (\<lambda>c. c \<noteq> 0) s"
      by (rule takeWhile_eq_take [symmetric])
    with Add_str scratch_buf.append_string [OF ok(1), of 0 s junk] nonempty ok show ?thesis
      by (cases "takeWhile (\<lambda>c. c \<noteq> 0) s = []") (auto simp: str_ok_def)
  next
    case (Add_fmt t)
    with scratch_buf.appendf [OF ok, of junk t] show ?thesis by (auto simp: str_ok_def)
  next
    case (Add_u32 v base)
    with str_append_int_refines [OF assms(1), of base junk "ucast v"] assms(2) show ?thesis
      by (simp add: str_append_int32_def)
  next
    case (Add_u64 v base)
    with str_append_int_refines [OF assms(1), of base junk v] assms(2) show ?thesis by simp
  next
    case (Trim n)
    have "length (eb_contents b) = eb_len b" using ok(1) by (simp add: eb_contents_def sc_ok_def)
    with Trim ok scratch_buf.set_len [OF ok(1), of "eb_len b - n"] show ?thesis
      by (auto simp: str_trim_def str_ok_def eb_contents_def sc_ok_def min_def)
  next
    case Terminate
    with scratch_buf.c_str [OF ok(1), of junk] show ?thesis
      by (auto simp: str_ok_def)
  qed
qed

lemma str_start:
  "\<exists>b. str_init (sc_reserve junk static) (sc_new junk static) = Inr b \<and> str_ok static b \<and> eb_contents b = []"
proof -
  have "sc_ok static (sc_new junk static)" by (simp add: sc_ok_def sc_new_def)
  from sc_reserve_ok [OF this, of junk 256] show ?thesis
    by (auto simp: str_init_def str_ok_def eb_contents_def sc_new_def)
qed

section \<open>Properties\<close>



text \<open>
  A divergence. When \<open>amount + fullbytes()\<close> wraps, \<open>reserve\<close> takes it for a small number, doubles the buffer and fails its
  last assertion.
\<close>

lemma reserve_wraps:
  assumes "st_ok b" "0 < st_fullbytes b" "length (st_mem b) < 2 ^ 61" "amount < 2 ^ 64" "2 ^ 64 \<le> amount + st_fullbytes b"
  shows "st_reserve junk amount b = Inl Assert_failed"
proof -
  let ?b = "st_moveup b"
  have f: "st_fullbytes b \<le> length (st_mem b)" using assms(1) by (auto simp: st_ok_def st_fullbytes_def)
  then have a: "2 ^ 63 < amount" using assms(3,5) by simp
  have t: "st_start b + st_tailbytes b < 2 ^ 64" "st_start b + st_tailbytes b < amount" "st_tailbytes b < amount"
    using assms(1,3) a by (auto simp: st_ok_def st_tailbytes_def)
  have "amount + st_fullbytes b < 2 * 2 ^ 64" using assms(4,3) f by simp
  then have w: "size_t (amount + st_fullbytes b) = amount + st_fullbytes b - 2 ^ 64"
    using assms(5) by (simp add: size_t_def mod_if)
  then have "size_t (amount + st_fullbytes b) \<le> st_fullbytes b" using assms(4) by simp
  then have small: "\<not> size_t (length (st_mem b) * 2) < size_t (amount + st_fullbytes b)"
    using f assms(3) by (simp add: size_t_def)
  have "length (st_mem b) * 2 - st_fullbytes b < amount" using a assms(3) by simp
  then show ?thesis
    using t small st_moveup_ok [OF assms(1)] assms(1,3)
    by (auto simp: st_reserve_def Let_def st_realloc_def st_tailbytes_def assert_run_def size_t_def st_ok_def)
qed

text \<open>
  Also. A string buffer on a scratch buffer of any static size holds exactly the text of
  the calls on it (characters, C strings, formatted text, integers, trimming, termination):
  moving to allocated memory and growing lose nothing, and no assertion fails but those on
  trimming too much and on an integer of sixteen digits.
\<close>

theorem string_buffer_text:
  assumes "\<forall>op\<in>set ops. base_ok op"
  shows "map_sum id eb_contents (bind_run (str_init (sc_reserve junk static) (sc_new junk static))
      (\<lambda>b. run_all (str_exec junk static) b ops)) = run_all text_exec [] ops"
proof -
  obtain b where "str_init (sc_reserve junk static) (sc_new junk static) = Inr b" "str_ok static b"
      "eb_contents b = []" using str_start by blast
  with run_all_refines [of "str_ok static" b ops base_ok eb_contents "str_exec junk static" text_exec]
    assms str_exec_refines show ?thesis by simp
qed

theorem string_buffer_text_witness:
  "map_sum id eb_contents (bind_run (str_init (sc_reserve (\<lambda>_. 7) 2) (sc_new (\<lambda>_. 7) 2))
      (\<lambda>b. run_all (str_exec (\<lambda>_. 7) 2) b [Add_char 65, Add_u32 9 10, Add_fmt [66, 67], Trim 1])) =
    run_all text_exec [] [Add_char 65, Add_u32 9 10, Add_fmt [66, 67], Trim 1]"
  by (rule string_buffer_text) simp

text \<open>
  A divergence. \<open>append_int\<close> in base 10 or 16: a value of at most fifteen digits is appended,
  and its digits have that value; one of exactly sixteen digits fails the assertion although
  it fits the temporary array; a longer one is written before the start of the array. No
  32-bit value has so many digits.
\<close>

theorem append_int_correct:
  assumes "sc_ok static b" and "base = 10 \<or> base = 16"
  shows "if unat v < nat base ^ 15 then
      \<exists>t b'. str_append_int (sc_reserve junk static) v base b = Inr (length t, b') \<and>
        eb_contents b' = eb_contents b @ t \<and> txt_value (nat base) t = unat v
    else str_append_int (sc_reserve junk static) v base b =
      Inl (if unat v < nat base ^ 16 then Assert_failed else Undefined)"
proof -
  let ?t = "fast_ultoa v base"
  have b: "1 < nat base" "nat base \<le> 16" using assms(2) by auto
  have t: "?t = ultoa_loop (nat base) (unat v) []" by (rule fast_ultoa_loop [OF assms(2)])
  have len: "length ?t \<le> 15 \<longleftrightarrow> unat v < nat base ^ 15" "length ?t \<le> 16 \<longleftrightarrow> unat v < nat base ^ 16"
    unfolding t by (rule ultoa_loop_length [OF b(1)], simp)+
  have ne: "?t \<noteq> []" using fast_ultoa_ne assms(2) by simp
  show ?thesis
  proof (cases "length ?t \<le> 15")
    case True
    moreover have "txt_value (nat base) ?t = unat v" unfolding t by (rule ultoa_loop_value [OF b])
    ultimately show ?thesis
      using scratch_buf.append_int [OF assms(1) ne, of junk] len(1) by auto
  next
    case False
    then have "16 < length ?t \<or> length ?t = 16" by linarith
    with False len show ?thesis by (auto simp: str_append_int_def Let_def)
  qed
qed

theorem append_int_correct_witness:
  "str_append_int (sc_reserve (\<lambda>_. 0) 4) (2 ^ 63) 16 (sc_new (\<lambda>_. 0) 4) = Inl Assert_failed"
  using append_int_correct [of 4 "sc_new (\<lambda>_. 0) 4" 16 "2 ^ 63" "\<lambda>_. 0"]
  by (simp add: sc_ok_def sc_new_def)

text \<open>
  Also. Copying and assigning scratch buffers keep the text, whichever of the two live
  in static or allocated memory, and the assertion of the copy constructor holds.
\<close>

theorem scratch_copy_correct:
  assumes "sc_ok static other" and "sc_ok static b" and "0 < static"
  shows "\<exists>c d. sc_copy junk static other = Inr c \<and> sc_ok static c \<and> eb_contents c = eb_contents other \<and>
    sc_malloc c = sc_malloc other \<and>
    sc_take_over junk static other b = Inr d \<and> sc_ok static d \<and> eb_contents d = eb_contents other"
proof -
  have over: "\<exists>d. sc_take_over junk static other x = Inr d \<and> sc_ok static d \<and> eb_contents d = eb_contents other \<and>
      (\<not> sc_malloc x \<longrightarrow> sc_malloc d = sc_malloc other)"
    if x: "sc_ok static x" for x
  proof -
    obtain x' ext where x': "sc_reserve junk static (length (eb_mem other)) x = Inr x'" "sc_ok static x'"
        "eb_mem x' = eb_mem x @ ext" "length (eb_mem other) \<le> length (eb_mem x')"
      using sc_reserve_ok [OF x, of junk "length (eb_mem other)"] by blast
    let ?m = "eb_mem other @ drop (length (eb_mem other)) (eb_mem x')"
    have len: "eb_len other \<le> length (eb_mem other)" "length ?m = length (eb_mem x')"
      using assms(1) x'(4) by (simp_all add: sc_ok_def)
    have take: "sc_take_over junk static other x = Inr (x'\<lparr>eb_mem := ?m, eb_len := eb_len other\<rparr>)"
      using x'(1,4) by (simp add: sc_take_over_def mem_write_ok)
    have ok: "sc_ok static (x'\<lparr>eb_mem := ?m, eb_len := eb_len other\<rparr>)"
      using scratch_buf.update [OF x'(2) len(2)] len by simp
    have "sc_malloc x' = sc_malloc other" if "\<not> sc_malloc x"
      using that x x' assms(1,3)
      by (auto simp: sc_ok_def sc_reserve_def eb_reserve_def mem_write_ok Let_def split: if_splits)
    with take ok len show ?thesis by (auto simp: eb_contents_def)
  qed
  have "sc_ok static (sc_new junk static)" "\<not> sc_malloc (sc_new junk static)"
    by (simp_all add: sc_ok_def sc_new_def)
  with over [of "sc_new junk static"] over [OF assms(2)] show ?thesis
    by (auto simp: sc_copy_def)
qed

theorem scratch_copy_correct_witness:
  "\<exists>c d. sc_copy (\<lambda>_. 0) 4 (sc_new (\<lambda>_. 1) 4) = Inr c \<and> sc_ok 4 c \<and>
    eb_contents c = eb_contents (sc_new (\<lambda>_. 1) 4) \<and> sc_malloc c = sc_malloc (sc_new (\<lambda>_. 1) 4) \<and>
    sc_take_over (\<lambda>_. 0) 4 (sc_new (\<lambda>_. 1) 4) (sc_new (\<lambda>_. 2) 4) = Inr d \<and> sc_ok 4 d \<and>
    eb_contents d = eb_contents (sc_new (\<lambda>_. 1) 4)"
  by (rule scratch_copy_correct) (simp_all add: sc_ok_def sc_new_def)

end
