(* ===== verification/Serialize.thy ===== *)
theory Serialize
  imports Prelude
begin

text \<open>
  serialize/Serialize.h, serialize/Serialize.cc, serialize/SerializableVector.tcc and
  util/BufferCarrier.h: what objects and serialize actions share. An object's
  \<open>serialize(SerializeAction*)\<close> calls \<open>process\<close> on its fields one after the other and may go on
  in a way that depends on the values the fields then have; it is a tree of such calls, and an
  action is what runs the tree with its own \<open>process\<close>. A carrier's buffer pointer is the
  memory from there to the end of its object.
\<close>

section \<open>BufferCarrier\<close>

record carrier =
  car_buf :: "bytes option"
  car_len :: nat
  car_own :: bool

definition car_init :: carrier where
  "car_init = \<lparr>car_buf = None, car_len = 0, car_own = False\<rparr>"

definition car_reset :: "carrier \<Rightarrow> carrier" where
  "car_reset c = \<lparr>car_buf = None, car_len = 0, car_own = False\<rparr>"

definition car_set_buf :: "bytes option \<Rightarrow> nat \<Rightarrow> bool \<Rightarrow> carrier \<Rightarrow> carrier" where
  "car_set_buf b n own c = \<lparr>car_buf = b, car_len = n, car_own = own\<rparr>"

definition car_set_len :: "nat \<Rightarrow> carrier \<Rightarrow> carrier" where
  "car_set_len n c = c\<lparr>car_len := n\<rparr>"

definition car_is_empty :: "carrier \<Rightarrow> bool" where
  "car_is_empty c \<longleftrightarrow> car_buf c = None"

text \<open>The memory that \<open>take_buf\<close> returns, the length, and the carrier afterwards.\<close>

definition car_take_buf :: "carrier \<Rightarrow> (bytes option \<times> nat \<times> carrier) run" where
  "car_take_buf c =
     (if car_own c then Inr (car_buf c, car_len c, car_reset c)
      else case car_buf c of
        None \<Rightarrow> Inr (None, car_len c, car_reset c)
      | Some m \<Rightarrow>
          if car_len c \<le> length m then Inr (Some (take (car_len c) m), car_len c, car_reset c)
          else Inl Undefined)"

definition car_mem :: "carrier \<Rightarrow> bytes" where
  "car_mem c = (case car_buf c of None \<Rightarrow> [] | Some m \<Rightarrow> m)"

definition car_ok :: "carrier \<Rightarrow> bool" where
  "car_ok c \<longleftrightarrow> car_len c \<le> length (car_mem c)"

definition car_bytes :: "carrier \<Rightarrow> bytes" where
  "car_bytes c = take (car_len c) (car_mem c)"

text \<open>The loop \<open>while (carrier->buf()[len] != terminator) ++len\<close>.\<close>

definition car_scan :: "carrier \<Rightarrow> byte \<Rightarrow> nat run" where
  "car_scan c t = (if t \<in> set (car_mem c) then Inr (length (takeWhile (\<lambda>b. b \<noteq> t) (car_mem c))) else Inl Undefined)"

section \<open>Fields, objects and actions\<close>

text \<open>The values that the \<open>process\<close> methods take; \<open>Bytes\<close> is the array of constant length.\<close>

datatype field = U64 u64 | U32 u32 | U16 u16 | U8 byte | Bool bool | Bytes bytes
  | Carrier carrier | Term carrier byte | Str bytes

datatype 'o visit = Done 'o | Process string field "field \<Rightarrow> 'o visit"

text \<open>Running a tree of calls with the \<open>process\<close> of an action on the state of the action.\<close>

primrec visit_run :: "('s \<Rightarrow> string \<Rightarrow> field \<Rightarrow> ('s \<times> field) run) \<Rightarrow> 'o visit \<Rightarrow> 's \<Rightarrow> ('s \<times> 'o) run" where
  "visit_run process (Done x) s = Inr (s, x)"
| "visit_run process (Process name f k) s =
     bind_run (process s name f) (\<lambda>(s', f'). visit_run process (k f') s')"

text \<open>One tree after another, as when an object's field is an object itself.\<close>

primrec visit_then :: "'o visit \<Rightarrow> ('o \<Rightarrow> 'p visit) \<Rightarrow> 'p visit" where
  "visit_then (Done x) g = g x"
| "visit_then (Process name f k) g = Process name f (\<lambda>f'. visit_then (k f') g)"

text \<open>
  \<open>SerializeAction::action\<close>, for an action with error flag \<open>err\<close> and its overrides of
  \<open>begin_action\<close> and \<open>end_action\<close>.
\<close>

definition run_action :: "((bool \<Rightarrow> bool) \<Rightarrow> 's \<Rightarrow> 's) \<Rightarrow> ('s \<Rightarrow> bool) \<Rightarrow> ('s \<Rightarrow> 's run) \<Rightarrow>
    ('s \<Rightarrow> string \<Rightarrow> field \<Rightarrow> ('s \<times> field) run) \<Rightarrow> ('s \<Rightarrow> 's run) \<Rightarrow> 'o visit \<Rightarrow> 's \<Rightarrow> (int \<times> 's \<times> 'o) run" where
  "run_action upd_error get_error begin_action process end_action obj s =
     bind_run (begin_action (upd_error (\<lambda>_. False) s)) (\<lambda>s1.
     bind_run (visit_run process obj s1) (\<lambda>(s2, res).
     bind_run (end_action s2) (\<lambda>s3.
     Inr (if get_error s3 then - 1 else 0, s3, res))))"

text \<open>
  \<open>SerializableVector::serialize\<close>: the size, then the elements, which unmarshalling appends
  as new objects. \<open>elem\<close> is the serialize of an element and \<open>builder\<close> the new object. The loop
  runs to the size that was read, so its bound is that of the 32-bit size; the assertion behind it fails for a vector that
  was not empty, which is the left side of the result.
\<close>

fun vector_elems :: "('e \<Rightarrow> 'e visit) \<Rightarrow> 'e list \<Rightarrow> 'e list visit" where
  "vector_elems elem [] = Done []"
| "vector_elems elem (x # xs) =
     visit_then (elem x) (\<lambda>x'. visit_then (vector_elems elem xs) (\<lambda>xs'. Done (x' # xs')))"

fun vector_fill :: "('e \<Rightarrow> 'e visit) \<Rightarrow> 'e \<Rightarrow> nat \<Rightarrow> 'e list \<Rightarrow> 'e list visit" where
  "vector_fill elem builder 0 done_elems = Done done_elems"
| "vector_fill elem builder (Suc n) done_elems =
     visit_then (elem builder) (\<lambda>x. vector_fill elem builder n (done_elems @ [x]))"

definition the_u32 :: "field \<Rightarrow> u32" where
  "the_u32 f = (case f of U32 n \<Rightarrow> n | _ \<Rightarrow> 0)"

definition vector_serialize :: "bool \<Rightarrow> ('e \<Rightarrow> 'e visit) \<Rightarrow> 'e \<Rightarrow> 'e list \<Rightarrow> 'e list run visit" where
  "vector_serialize unmarshal elem builder xs =
     Process ''size'' (U32 (of_nat (length xs))) (\<lambda>f.
       if unmarshal
       then visit_then (vector_fill elem builder (unat (the_u32 f)) xs)
              (\<lambda>ys. Done (bind_run (assert_run (length ys = unat (the_u32 f))) (\<lambda>_. Inr ys)))
       else visit_then (vector_elems elem xs) (\<lambda>ys. Done (Inr ys)))"

section \<open>What a tree of calls writes\<close>

definition be16 :: "u16 \<Rightarrow> bytes" where
  "be16 i = [ucast (drop_bit 8 i), ucast i]"

definition be32 :: "u32 \<Rightarrow> bytes" where
  "be32 i = [ucast (drop_bit 24 i), ucast (drop_bit 16 i), ucast (drop_bit 8 i), ucast i]"

definition be64 :: "u64 \<Rightarrow> bytes" where
  "be64 i = [ucast (drop_bit 56 i), ucast (drop_bit 48 i), ucast (drop_bit 40 i), ucast (drop_bit 32 i),
     ucast (drop_bit 24 i), ucast (drop_bit 16 i), ucast (drop_bit 8 i), ucast i]"

text \<open>The wire format of a field; a terminated buffer is written without a length.\<close>

fun wire :: "field \<Rightarrow> bytes" where
  "wire (U64 i) = be64 i"
| "wire (U32 i) = be32 i"
| "wire (U16 i) = be16 i"
| "wire (U8 i) = [i]"
| "wire (Bool b) = [if b then 1 else 0]"
| "wire (Bytes bs) = bs"
| "wire (Carrier c) = be32 (of_nat (car_len c)) @ car_bytes c"
| "wire (Term c t) = takeWhile (\<lambda>b. b \<noteq> t) (car_mem c) @ [t]"
| "wire (Str s) = be32 (of_nat (length s)) @ s"

text \<open>
  Fields whose lengths fit the 32 bits they are stored and counted in. Terminated buffers have a theorem
  of their own.
\<close>

fun field_ok :: "field \<Rightarrow> bool" where
  "field_ok (Bytes bs) \<longleftrightarrow> length bs < 2 ^ 32"
| "field_ok (Carrier c) \<longleftrightarrow> car_len c < 2 ^ 32 \<and> car_ok c"
| "field_ok (Str s) \<longleftrightarrow> length s + 4 < 2 ^ 32"
| "field_ok (Term c t) \<longleftrightarrow> False"
| "field_ok _ \<longleftrightarrow> True"

primrec visit_ok :: "'o visit \<Rightarrow> bool" where
  "visit_ok (Done x) \<longleftrightarrow> True"
| "visit_ok (Process name f k) \<longleftrightarrow> field_ok f \<and> visit_ok (k f)"

primrec visit_wire :: "'o visit \<Rightarrow> bytes" where
  "visit_wire (Done x) = []"
| "visit_wire (Process name f k) = wire f @ visit_wire (k f)"

primrec visit_result :: "'o visit \<Rightarrow> 'o" where
  "visit_result (Done x) = x"
| "visit_result (Process name f k) = visit_result (k f)"

lemma be_lengths [simp]: "length (be16 a) = 2" "length (be32 b) = 4" "length (be64 c) = 8"
  by (simp_all add: be16_def be32_def be64_def)

lemma visit_then_wire: "visit_wire (visit_then v g) = visit_wire v @ visit_wire (g (visit_result v))"
  by (induction v) simp_all

lemma visit_then_ok: "visit_ok (visit_then v g) \<longleftrightarrow> visit_ok v \<and> visit_ok (g (visit_result v))"
  by (induction v) simp_all

lemma visit_then_result: "visit_result (visit_then v g) = visit_result (g (visit_result v))"
  by (induction v) simp_all

lemma vector_elems_ok: "\<forall>x\<in>set xs. visit_ok (elem x) \<Longrightarrow> visit_ok (vector_elems elem xs)"
  by (induction xs) (simp_all add: visit_then_ok)

lemma vector_elems_wire: "visit_wire (vector_elems elem xs) = concat (map (\<lambda>x. visit_wire (elem x)) xs)"
  by (induction xs) (simp_all add: visit_then_wire)

lemma vector_elems_result: "visit_result (vector_elems elem xs) = map (\<lambda>x. visit_result (elem x)) xs"
  by (induction xs) (simp_all add: visit_then_result)

section \<open>Actions that write\<close>

text \<open>
  The contract of an action that goes over an object and adds up its wire format: it appends
  a field when there is room, and otherwise sets its error flag and does nothing more.
\<close>

locale byte_sink =
  fixes process :: "'s \<Rightarrow> string \<Rightarrow> field \<Rightarrow> ('s \<times> field) run"
    and inv :: "'s \<Rightarrow> bool"
    and failed :: "'s \<Rightarrow> bool"
    and fits :: "'s \<Rightarrow> nat \<Rightarrow> bool"
    and adds :: "'s \<Rightarrow> bytes \<Rightarrow> 's \<Rightarrow> bool"
  assumes room: "inv s \<Longrightarrow> field_ok f \<Longrightarrow> fits s (length (wire f)) \<Longrightarrow>
        \<exists>s'. process s name f = Inr (s', f) \<and> inv s' \<and> adds s (wire f) s' \<and>
          (\<forall>n. fits s' n \<longleftrightarrow> fits s (length (wire f) + n))"
    and full: "inv s \<Longrightarrow> field_ok f \<Longrightarrow> \<not> fits s (length (wire f)) \<Longrightarrow>
        \<exists>s'. process s name f = Inr (s', f) \<and> failed s'"
    and stuck: "failed s \<Longrightarrow> field_ok f \<Longrightarrow> \<exists>s'. process s name f = Inr (s', f) \<and> failed s'"
    and fits_less: "fits s n \<Longrightarrow> m \<le> n \<Longrightarrow> fits s m"
    and fits_none: "inv s \<Longrightarrow> fits s 0"
    and adds_none: "inv s \<Longrightarrow> adds s [] s"
    and adds_trans: "adds s a s' \<Longrightarrow> adds s' b s'' \<Longrightarrow> adds s (a @ b) s''"
begin

lemma run_stuck:
  "failed s \<Longrightarrow> visit_ok v \<Longrightarrow> \<exists>s'. visit_run process v s = Inr (s', visit_result v) \<and> failed s'"
proof (induction v arbitrary: s)
  case (Process name f k)
  then obtain s1 where "process s name f = Inr (s1, f)" "failed s1" using stuck by force
  with Process show ?case by simp
qed simp

lemma run_room:
  "inv s \<Longrightarrow> visit_ok v \<Longrightarrow> fits s (length (visit_wire v)) \<Longrightarrow>
    \<exists>s'. visit_run process v s = Inr (s', visit_result v) \<and> inv s' \<and> adds s (visit_wire v) s' \<and>
      (\<forall>n. fits s' n \<longleftrightarrow> fits s (length (visit_wire v) + n))"
proof (induction v arbitrary: s)
  case (Process name f k)
  have fit: "fits s (length (wire f))" by (rule fits_less [OF Process.prems(3)]) simp
  then obtain s1 where s1: "process s name f = Inr (s1, f)" "inv s1" "adds s (wire f) s1"
      "\<And>n. fits s1 n \<longleftrightarrow> fits s (length (wire f) + n)"
    using room [OF Process.prems(1) _ fit] Process.prems(2) by force
  have "visit_ok (k f)" "fits s1 (length (visit_wire (k f)))"
    using Process.prems s1(4) by simp_all
  with Process.IH [OF rangeI s1(2)] obtain s2 where
    s2: "visit_run process (k f) s1 = Inr (s2, visit_result (k f))" "inv s2" "adds s1 (visit_wire (k f)) s2"
      "\<And>n. fits s2 n \<longleftrightarrow> fits s1 (length (visit_wire (k f)) + n)"
    by blast
  with s1 adds_trans [OF s1(3) s2(3)] show ?case by (simp add: add.assoc)
qed (simp add: adds_none)

lemma run_full:
  "inv s \<Longrightarrow> visit_ok v \<Longrightarrow> \<not> fits s (length (visit_wire v)) \<Longrightarrow>
    \<exists>s'. visit_run process v s = Inr (s', visit_result v) \<and> failed s'"
proof (induction v arbitrary: s)
  case (Process name f k)
  show ?case
  proof (cases "fits s (length (wire f))")
    case True
    then obtain s1 where s1: "process s name f = Inr (s1, f)" "inv s1"
        "\<And>n. fits s1 n \<longleftrightarrow> fits s (length (wire f) + n)"
      using room [OF Process.prems(1) _ True] Process.prems(2) by force
    have "visit_ok (k f)" "\<not> fits s1 (length (visit_wire (k f)))"
      using Process.prems s1(3) by simp_all
    with Process.IH [OF rangeI s1(2)] s1(1) show ?thesis by simp
  next
    case False
    then obtain s1 where "process s name f = Inr (s1, f)" "failed s1"
      using full [OF Process.prems(1) _ False] Process.prems(2) by force
    with run_stuck [of s1 "k f"] Process.prems(2) show ?thesis by simp
  qed
qed (simp add: fits_none)

end

end
