(* ===== verification/Marshal.thy ===== *)
theory Marshal
  imports Serialize Buffers Crc32
begin

text \<open>
  serialize/BufferedSerializeAction.cc and serialize/MarshalSerialize.cc: flattening objects
  into a fixed-size or an expandable buffer, measuring the size beforehand, and reading them
  back, with an optional CRC-32 at the end. A log path only matters where the code does more
  than log with it (\<open>bs_log\<close>).
\<close>

section \<open>BufferedSerializeAction\<close>

record 'b bsa =
  bs_exp :: "'b option"
  bs_buf :: bytes
  bs_length :: nat
  bs_offset :: nat
  bs_error :: bool
  bs_crc :: bool
  bs_log :: bool

definition bs_fixed :: "bytes \<Rightarrow> nat \<Rightarrow> bool \<Rightarrow> bool \<Rightarrow> 'b bsa" where
  "bs_fixed buf n crc logging = \<lparr>bs_exp = None, bs_buf = buf, bs_length = n, bs_offset = 0,
     bs_error = False, bs_crc = crc, bs_log = logging\<rparr>"

definition bs_expandable :: "'a ebuf_scheme \<Rightarrow> bool \<Rightarrow> bool \<Rightarrow> ('a ebuf_scheme) bsa run" where
  "bs_expandable b crc logging = bind_run (eb_set_len 0 b) (\<lambda>b1.
     Inr \<lparr>bs_exp = Some b1, bs_buf = [], bs_length = 0, bs_offset = 0,
       bs_error = False, bs_crc = crc, bs_log = logging\<rparr>)"

definition bs_mem :: "('a ebuf_scheme) bsa \<Rightarrow> bytes run" where
  "bs_mem s = (case bs_exp s of Some b \<Rightarrow> eb_raw_buf b | None \<Rightarrow> Inr (bs_buf s))"

definition bs_pos :: "('a ebuf_scheme) bsa \<Rightarrow> nat" where
  "bs_pos s = (case bs_exp s of Some b \<Rightarrow> eb_len b | None \<Rightarrow> bs_offset s)"

text \<open>\<open>next_slice\<close>: the offset of the slice, or no slice on an error.\<close>

definition next_slice :: "(nat \<Rightarrow> 'a ebuf_scheme \<Rightarrow> 'a ebuf_scheme run) \<Rightarrow> nat \<Rightarrow> ('a ebuf_scheme) bsa \<Rightarrow>
    (nat option \<times> ('a ebuf_scheme) bsa) run" where
  "next_slice reserve n s =
     (if bs_error s then Inr (None, s)
      else case bs_exp s of
        Some b \<Rightarrow>
          bind_run (eb_tail_buf reserve n b) (\<lambda>(off, b1).
          bind_run (eb_incr_len n b1) (\<lambda>b2. Inr (Some off, s\<lparr>bs_exp := Some b2\<rparr>)))
      | None \<Rightarrow>
          if bs_length s < bs_offset s + n then Inr (None, s\<lparr>bs_error := True\<rparr>)
          else Inr (Some (bs_offset s), s\<lparr>bs_offset := bs_offset s + n\<rparr>))"

text \<open>Copying into the memory of a slice.\<close>

definition bs_write :: "nat \<Rightarrow> bytes \<Rightarrow> ('a ebuf_scheme) bsa \<Rightarrow> ('a ebuf_scheme) bsa run" where
  "bs_write off data s = (case bs_exp s of
      Some b \<Rightarrow> bind_run (mem_write off data (eb_mem b)) (\<lambda>m. Inr (s\<lparr>bs_exp := Some (b\<lparr>eb_mem := m\<rparr>)\<rparr>))
    | None \<Rightarrow> bind_run (mem_write off data (bs_buf s)) (\<lambda>m. Inr (s\<lparr>bs_buf := m\<rparr>)))"

section \<open>Marshal\<close>

text \<open>A slice of the length of the data, and the data written into it if there is one.\<close>

definition m_put :: "(nat \<Rightarrow> 'a ebuf_scheme \<Rightarrow> 'a ebuf_scheme run) \<Rightarrow> bytes \<Rightarrow> ('a ebuf_scheme) bsa \<Rightarrow>
    ('a ebuf_scheme) bsa run" where
  "m_put reserve data s = bind_run (next_slice reserve (length data) s) (\<lambda>(r, s1).
     case r of None \<Rightarrow> Inr s1 | Some off \<Rightarrow> bs_write off data s1)"

text \<open>The same for \<open>n\<close> bytes that \<open>memcpy\<close> takes from memory.\<close>

definition m_put_mem :: "(nat \<Rightarrow> 'a ebuf_scheme \<Rightarrow> 'a ebuf_scheme run) \<Rightarrow> bytes \<Rightarrow> nat \<Rightarrow> ('a ebuf_scheme) bsa \<Rightarrow>
    ('a ebuf_scheme) bsa run" where
  "m_put_mem reserve src n s = bind_run (next_slice reserve n s) (\<lambda>(r, s1).
     case r of None \<Rightarrow> Inr s1
     | Some off \<Rightarrow> if n \<le> length src then bs_write off (take n src) s1 else Inl Undefined)"

fun m_process :: "(nat \<Rightarrow> 'a ebuf_scheme \<Rightarrow> 'a ebuf_scheme run) \<Rightarrow> ('a ebuf_scheme) bsa \<Rightarrow> string \<Rightarrow> field \<Rightarrow>
    (('a ebuf_scheme) bsa \<times> field) run" where
  "m_process reserve s name (U64 i) = bind_run (m_put reserve (be64 i) s) (\<lambda>s1. Inr (s1, U64 i))"
| "m_process reserve s name (U32 i) = bind_run (m_put reserve (be32 i) s) (\<lambda>s1. Inr (s1, U32 i))"
| "m_process reserve s name (U16 i) = bind_run (m_put reserve (be16 i) s) (\<lambda>s1. Inr (s1, U16 i))"
| "m_process reserve s name (U8 i) = bind_run (m_put reserve [i] s) (\<lambda>s1. Inr (s1, U8 i))"
| "m_process reserve s name (Bool b) =
     bind_run (m_put reserve [if b then 1 else 0] s) (\<lambda>s1. Inr (s1, Bool b))"
| "m_process reserve s name (Bytes bs) =
     bind_run (m_put_mem reserve bs (length bs) s) (\<lambda>s1. Inr (s1, Bytes bs))"
| "m_process reserve s name (Carrier c) =
     (let len = (of_nat (car_len c) :: u32)
      in bind_run (m_put reserve (be32 len) s) (\<lambda>s1.
         bind_run (m_put_mem reserve (car_mem c) (unat len) s1) (\<lambda>s2. Inr (s2, Carrier c))))"
| "m_process reserve s name (Term c t) = bind_run (car_scan c t) (\<lambda>len.
     let c1 = car_set_len (len + 1) c; n = unat (of_nat (car_len c1) :: u32)
     in bind_run (m_put_mem reserve (car_mem c1) n s) (\<lambda>s1. Inr (s1, Term c1 t)))"
| "m_process reserve s name (Str str) =
     (let len = (of_nat (length str) :: u32)
      in bind_run (m_put reserve (be32 len) s) (\<lambda>s1.
         bind_run (m_put_mem reserve str (unat len) s1) (\<lambda>s2. Inr (s2, Str str))))"

text \<open>\<open>end_action\<close> appends the checksum of what has been written, even after an error.\<close>

definition m_end_action :: "(nat \<Rightarrow> 'a ebuf_scheme \<Rightarrow> 'a ebuf_scheme run) \<Rightarrow> ('a ebuf_scheme) bsa \<Rightarrow>
    ('a ebuf_scheme) bsa run" where
  "m_end_action reserve s =
     (if bs_crc s then
        bind_run (bs_mem s) (\<lambda>m.
        if length m < bs_pos s then Inl Undefined
        else bind_run (m_process reserve s ''crc'' (U32 (crc_of (take (bs_pos s) m)))) (\<lambda>(s1, f). Inr s1))
      else Inr s)"

definition m_action :: "(nat \<Rightarrow> 'a ebuf_scheme \<Rightarrow> 'a ebuf_scheme run) \<Rightarrow> 'o visit \<Rightarrow> ('a ebuf_scheme) bsa \<Rightarrow>
    (int \<times> ('a ebuf_scheme) bsa \<times> 'o) run" where
  "m_action reserve = run_action bs_error_update bs_error Inr (m_process reserve) (m_end_action reserve)"

section \<open>MarshalSize\<close>

fun ms_process :: "nat \<Rightarrow> string \<Rightarrow> field \<Rightarrow> (nat \<times> field) run" where
  "ms_process sz name (U64 i) = Inr (sz + 8, U64 i)"
| "ms_process sz name (U32 i) = Inr (sz + 4, U32 i)"
| "ms_process sz name (U16 i) = Inr (sz + 2, U16 i)"
| "ms_process sz name (U8 i) = Inr (sz + 1, U8 i)"
| "ms_process sz name (Bool b) = Inr (sz + 1, Bool b)"
| "ms_process sz name (Bytes bs) = Inr (sz + length bs, Bytes bs)"
| "ms_process sz name (Carrier c) = Inr (sz + 4 + car_len c, Carrier c)"
| "ms_process sz name (Term c t) =
     bind_run (car_scan c t) (\<lambda>n. Inr (sz + (n + 1), Term c t))"
| "ms_process sz name (Str s) = Inr (sz + unat (of_nat (length s + 4) :: u32), Str s)"

definition ms_action :: "bool \<Rightarrow> 'o visit \<Rightarrow> nat \<Rightarrow> (int \<times> nat \<times> 'o) run" where
  "ms_action crc = run_action (\<lambda>_ sz. sz) (\<lambda>_. False)
     (\<lambda>sz. Inr (if crc then sz + 4 else sz)) ms_process Inr"

section \<open>Unmarshal\<close>

text \<open>An action over a fixed buffer only; \<open>junk\<close> is what an uninitialised length holds.\<close>

definition no_reserve :: "nat \<Rightarrow> ebuf \<Rightarrow> ebuf run" where
  "no_reserve n b = Inl Undefined"

definition u_get :: "nat \<Rightarrow> ebuf bsa \<Rightarrow> (bytes option \<times> ebuf bsa) run" where
  "u_get n s = bind_run (next_slice no_reserve n s) (\<lambda>(r, s1). case r of
       None \<Rightarrow> Inr (None, s1)
     | Some off \<Rightarrow>
         if off + n \<le> length (bs_buf s1) then Inr (Some (take n (drop off (bs_buf s1))), s1) else Inl Undefined)"

definition of_be16 :: "bytes \<Rightarrow> u16" where
  "of_be16 b = push_bit 8 (ucast (b ! 0)) OR ucast (b ! 1)"

definition of_be32 :: "bytes \<Rightarrow> u32" where
  "of_be32 b = push_bit 24 (ucast (b ! 0)) OR push_bit 16 (ucast (b ! 1)) OR push_bit 8 (ucast (b ! 2)) OR
     ucast (b ! 3)"

definition of_be64 :: "bytes \<Rightarrow> u64" where
  "of_be64 b = push_bit 56 (ucast (b ! 0)) OR push_bit 48 (ucast (b ! 1)) OR push_bit 40 (ucast (b ! 2)) OR
     push_bit 32 (ucast (b ! 3)) OR push_bit 24 (ucast (b ! 4)) OR push_bit 16 (ucast (b ! 5)) OR
     push_bit 8 (ucast (b ! 6)) OR ucast (b ! 7)"

definition u_get_u32 :: "u32 \<Rightarrow> ebuf bsa \<Rightarrow> (u32 \<times> ebuf bsa) run" where
  "u_get_u32 old s = bind_run (u_get 4 s) (\<lambda>(r, s1). Inr (case r of None \<Rightarrow> old | Some b \<Rightarrow> of_be32 b, s1))"

text \<open>
  The search for the terminator: the number of bytes up to it and the offset of the first,
  or nothing when the slices run out. Each round takes a byte of what is left of the buffer.
\<close>

function u_scan :: "byte \<Rightarrow> nat option \<Rightarrow> nat \<Rightarrow> ebuf bsa \<Rightarrow> ((nat \<times> nat) option \<times> ebuf bsa) run" where
  "u_scan t cbuf len s =
     (if bs_error s \<or> bs_exp s \<noteq> None \<or> bs_length s < bs_offset s + 1 then Inr (None, s\<lparr>bs_error := True\<rparr>)
      else if length (bs_buf s) \<le> bs_offset s then Inl Undefined
      else (let off = bs_offset s; s1 = s\<lparr>bs_offset := off + 1\<rparr>;
                cbuf1 = (case cbuf of None \<Rightarrow> off | Some o1 \<Rightarrow> o1)
            in if bs_buf s ! off = t then Inr (Some (cbuf1, len + 1), s1)
               else u_scan t (Some cbuf1) (len + 1) s1))"
  by pat_completeness auto
termination
  by (relation "measure (\<lambda>(t, cbuf, len, s). bs_length s - bs_offset s)") auto

declare u_scan.simps [simp del]

fun u_process :: "u32 \<Rightarrow> ebuf bsa \<Rightarrow> string \<Rightarrow> field \<Rightarrow> (ebuf bsa \<times> field) run" where
  "u_process junk s name (U64 i) = bind_run (u_get 8 s) (\<lambda>(r, s1).
     Inr (s1, U64 (case r of None \<Rightarrow> i | Some b \<Rightarrow> of_be64 b)))"
| "u_process junk s name (U32 i) = bind_run (u_get_u32 i s) (\<lambda>(v, s1). Inr (s1, U32 v))"
| "u_process junk s name (U16 i) = bind_run (u_get 2 s) (\<lambda>(r, s1).
     Inr (s1, U16 (case r of None \<Rightarrow> i | Some b \<Rightarrow> of_be16 b)))"
| "u_process junk s name (U8 i) = bind_run (u_get 1 s) (\<lambda>(r, s1).
     Inr (s1, U8 (case r of None \<Rightarrow> i | Some b \<Rightarrow> b ! 0)))"
| "u_process junk s name (Bool v) = bind_run (u_get 1 s) (\<lambda>(r, s1).
     Inr (s1, Bool (case r of None \<Rightarrow> v | Some b \<Rightarrow> b ! 0 \<noteq> 0)))"
| "u_process junk s name (Bytes bs) = bind_run (u_get (length bs) s) (\<lambda>(r, s1).
     Inr (s1, Bytes (case r of None \<Rightarrow> bs | Some b \<Rightarrow> b)))"
| "u_process junk s name (Carrier c) = bind_run (u_get_u32 junk s) (\<lambda>(len, s1).
     if len = 0 then Inr (s1, Carrier (car_set_buf None 0 False c))
     else bind_run (next_slice no_reserve (unat len) s1) (\<lambda>(r, s2).
       if bs_log s2 \<and> r = None then Inl Undefined
       else Inr (s2, Carrier (car_set_buf (map_option (\<lambda>off. drop off (bs_buf s2)) r) (unat len) False c))))"
| "u_process junk s name (Term c t) = bind_run (u_scan t None 0 s) (\<lambda>(r, s1). case r of
       None \<Rightarrow> Inr (s1, Term c t)
     | Some (off, len) \<Rightarrow> Inr (s1, Term (car_set_buf (Some (drop off (bs_buf s1))) (len + 1) False c) t))"
| "u_process junk s name (Str str) = bind_run (u_get_u32 junk s) (\<lambda>(len, s1).
     bind_run (u_get (unat len) s1) (\<lambda>(r, s2).
     Inr (s2, Str (case r of None \<Rightarrow> str | Some b \<Rightarrow> b))))"

text \<open>
  \<open>begin_action\<close> checks the last four bytes against the checksum of the rest. A mismatch is
  signalled inside the test of the log path.
\<close>

definition u_begin_action :: "ebuf bsa \<Rightarrow> ebuf bsa run" where
  "u_begin_action s =
     (if bs_crc s then
        (if bs_length s < 4 \<or> length (bs_buf s) < bs_length s then Inl Undefined
         else bind_run (crc_from_bytes (take 4 (drop (bs_length s - 4) (bs_buf s)))) (\<lambda>crc_val.
           Inr (if crc_of (take (bs_length s - 4) (bs_buf s)) \<noteq> crc_val
                then (if bs_log s then s\<lparr>bs_error := True\<rparr> else s) else s)))
      else Inr s)"

definition u_action :: "u32 \<Rightarrow> 'o visit \<Rightarrow> ebuf bsa \<Rightarrow> (int \<times> ebuf bsa \<times> 'o) run" where
  "u_action junk = run_action bs_error_update bs_error u_begin_action (u_process junk) Inr"

section \<open>MarshalCopy\<close>

text \<open>Copying \<open>src\<close> to \<open>dst\<close> by way of an expandable buffer; the size of the flat form and the copy.\<close>

definition marshal_copy :: "(nat \<Rightarrow> byte) \<Rightarrow> u32 \<Rightarrow> ebuf \<Rightarrow> 'o visit \<Rightarrow> 'p visit \<Rightarrow> (nat \<times> 'p) run" where
  "marshal_copy junk junk32 b src dst =
     bind_run (bs_expandable b False False) (\<lambda>s.
     bind_run (m_action (eb_reserve junk) src s) (\<lambda>(ret, s1, _).
     if ret \<noteq> 0 then Inl Panicked
     else (case bs_exp s1 of
         None \<Rightarrow> Inl Undefined
       | Some b1 \<Rightarrow>
           bind_run (eb_raw_buf b1) (\<lambda>m.
           bind_run (u_action junk32 dst (bs_fixed m (eb_len b1) False False)) (\<lambda>(ret2, s2, res).
           if ret2 \<noteq> 0 then Inl Panicked else Inr (eb_len b1, res))))))"

section \<open>Marshalling appends the wire format\<close>

lemma m_put_mem_eq: "m_put reserve data s = m_put_mem reserve data (length data) s"
  by (simp add: m_put_def m_put_mem_def cong: option.case_cong)

text \<open>
  What marshalling needs of its target: copying into a slice appends when there is room, and
  otherwise sets the error flag, after which nothing is copied any more.
\<close>

locale marshal_target =
  fixes reserve :: "nat \<Rightarrow> 'a ebuf_scheme \<Rightarrow> 'a ebuf_scheme run"
    and inv :: "('a ebuf_scheme) bsa \<Rightarrow> bool"
    and failed :: "('a ebuf_scheme) bsa \<Rightarrow> bool"
    and fits :: "('a ebuf_scheme) bsa \<Rightarrow> nat \<Rightarrow> bool"
    and adds :: "('a ebuf_scheme) bsa \<Rightarrow> bytes \<Rightarrow> ('a ebuf_scheme) bsa \<Rightarrow> bool"
  assumes put_room: "inv s \<Longrightarrow> n \<le> length src \<Longrightarrow> fits s n \<Longrightarrow>
        \<exists>s'. m_put_mem reserve src n s = Inr s' \<and> inv s' \<and> adds s (take n src) s' \<and>
          (\<forall>m. fits s' m \<longleftrightarrow> fits s (n + m))"
    and put_full: "inv s \<Longrightarrow> \<not> fits s n \<Longrightarrow> \<exists>s'. m_put_mem reserve src n s = Inr s' \<and> failed s'"
    and put_stuck: "failed s \<Longrightarrow> m_put_mem reserve src n s = Inr s"
    and less_fits: "fits s n \<Longrightarrow> m \<le> n \<Longrightarrow> fits s m"
    and none_fits: "inv s \<Longrightarrow> fits s 0"
    and none_adds: "inv s \<Longrightarrow> adds s [] s"
    and trans_adds: "adds s a s' \<Longrightarrow> adds s' b s'' \<Longrightarrow> adds s (a @ b) s''"
begin

text \<open>A length and then the bytes.\<close>

lemma put_two_room:
  assumes "inv s" "n \<le> length src" "fits s (length d + n)"
  shows "\<exists>s'. bind_run (m_put reserve d s) (m_put_mem reserve src n) = Inr s' \<and> inv s' \<and>
    adds s (d @ take n src) s' \<and> (\<forall>m. fits s' m \<longleftrightarrow> fits s (length d + n + m))"
proof -
  have "fits s (length d)" by (rule less_fits [OF assms(3)]) simp
  with put_room [OF assms(1) le_refl, of d] obtain s1 where
    s1: "m_put reserve d s = Inr s1" "inv s1" "adds s d s1" "\<And>m. fits s1 m \<longleftrightarrow> fits s (length d + m)"
    by (auto simp: m_put_mem_eq)
  with put_room [OF s1(2) assms(2)] assms(3) trans_adds [OF s1(3)] show ?thesis
    by (fastforce simp: add.assoc)
qed

lemma put_two_full:
  assumes "inv s" "n \<le> length src" "\<not> fits s (length d + n)"
  shows "\<exists>s'. bind_run (m_put reserve d s) (m_put_mem reserve src n) = Inr s' \<and> failed s'"
proof (cases "fits s (length d)")
  case True
  with put_room [OF assms(1) le_refl, of d] obtain s1 where
    "m_put reserve d s = Inr s1" "inv s1" "\<And>m. fits s1 m \<longleftrightarrow> fits s (length d + m)"
    by (auto simp: m_put_mem_eq)
  with put_full [of s1 n src] assms(3) show ?thesis by simp
next
  case False
  with put_full [OF assms(1) False, of d] put_stuck show ?thesis by (fastforce simp: m_put_mem_eq)
qed

lemma unat_len: "n < 2 ^ 32 \<Longrightarrow> unat (of_nat n :: u32) = n"
  by (simp add: unat_of_nat take_bit_nat_eq_self_iff)

text \<open>\<open>process\<close> puts one or two pieces, which make up the wire format.\<close>

lemma process_shape:
  assumes "field_ok f"
  shows "(\<exists>src. wire f = src \<and>
      (\<forall>s. m_process reserve s name f = bind_run (m_put_mem reserve src (length src) s) (\<lambda>s1. Inr (s1, f)))) \<or>
    (\<exists>d src n. n \<le> length src \<and> wire f = d @ take n src \<and>
      (\<forall>s. m_process reserve s name f =
        bind_run (bind_run (m_put reserve d s) (m_put_mem reserve src n)) (\<lambda>s1. Inr (s1, f))))"
proof (cases f)
  case (Carrier c)
  with assms show ?thesis
    by (intro disjI2 exI [of _ "be32 (of_nat (car_len c))"] exI [of _ "car_mem c"] exI [of _ "car_len c"])
      (simp add: unat_len bind_run_assoc car_ok_def car_bytes_def)
next
  case (Str str)
  with assms show ?thesis
    by (intro disjI2 exI [of _ "be32 (of_nat (length str))"] exI [of _ str] exI [of _ "length str"])
      (simp add: unat_len bind_run_assoc)
qed (use assms in \<open>simp_all add: m_put_mem_eq\<close>)

sublocale byte_sink "m_process reserve" inv failed fits adds
proof unfold_locales
  fix s f name
  assume inv: "inv s" and ok: "field_ok f"
  show "\<exists>s'. m_process reserve s name f = Inr (s', f) \<and> inv s' \<and> adds s (wire f) s' \<and>
      (\<forall>n. fits s' n \<longleftrightarrow> fits s (length (wire f) + n))" if fit: "fits s (length (wire f))"
    using process_shape [OF ok, of name]
  proof (elim disjE exE conjE)
    fix src
    assume "wire f = src" "\<forall>s. m_process reserve s name f =
        bind_run (m_put_mem reserve src (length src) s) (\<lambda>s1. Inr (s1, f))"
    with put_room [OF inv le_refl, of src] fit show ?thesis by auto
  next
    fix d src n
    assume "n \<le> length src" "wire f = d @ take n src" "\<forall>s. m_process reserve s name f =
        bind_run (bind_run (m_put reserve d s) (m_put_mem reserve src n)) (\<lambda>s1. Inr (s1, f))"
    with put_two_room [OF inv, of n src d] fit show ?thesis by auto
  qed
  show "\<exists>s'. m_process reserve s name f = Inr (s', f) \<and> failed s'" if nofit: "\<not> fits s (length (wire f))"
    using process_shape [OF ok, of name]
  proof (elim disjE exE conjE)
    fix src
    assume "wire f = src" "\<forall>s. m_process reserve s name f =
        bind_run (m_put_mem reserve src (length src) s) (\<lambda>s1. Inr (s1, f))"
    with put_full [OF inv, of "length src" src] nofit show ?thesis by auto
  next
    fix d src n
    assume "n \<le> length src" "wire f = d @ take n src" "\<forall>s. m_process reserve s name f =
        bind_run (bind_run (m_put reserve d s) (m_put_mem reserve src n)) (\<lambda>s1. Inr (s1, f))"
    with put_two_full [OF inv, of n src d] nofit show ?thesis by auto
  qed
next
  fix s f name
  assume "failed s" and ok: "field_ok f"
  then show "\<exists>s'. m_process reserve s name f = Inr (s', f) \<and> failed s'"
    using process_shape [OF ok, of name] put_stuck by (auto simp: m_put_mem_eq)
qed (auto intro: less_fits none_fits none_adds trans_adds)

end

section \<open>The targets\<close>

text \<open>
  The fixed buffer: \<open>L\<close> bytes of it belong to the action, \<open>rest\<close> is the memory behind them,
  which is never touched.
\<close>

definition mf_frame :: "nat \<Rightarrow> bytes \<Rightarrow> bool \<Rightarrow> ('a ebuf_scheme) bsa \<Rightarrow> bool" where
  "mf_frame L rest crc s \<longleftrightarrow> bs_exp s = None \<and> bs_length s = L \<and> L \<le> length (bs_buf s) \<and>
     drop L (bs_buf s) = rest \<and> bs_offset s \<le> L \<and> bs_crc s = crc"

definition mf_ok :: "nat \<Rightarrow> bytes \<Rightarrow> bool \<Rightarrow> ('a ebuf_scheme) bsa \<Rightarrow> bool" where
  "mf_ok L rest crc s \<longleftrightarrow> mf_frame L rest crc s \<and> \<not> bs_error s"

definition mf_bad :: "nat \<Rightarrow> bytes \<Rightarrow> bool \<Rightarrow> ('a ebuf_scheme) bsa \<Rightarrow> bool" where
  "mf_bad L rest crc s \<longleftrightarrow> mf_frame L rest crc s \<and> bs_error s"

definition mf_fits :: "('a ebuf_scheme) bsa \<Rightarrow> nat \<Rightarrow> bool" where
  "mf_fits s n \<longleftrightarrow> bs_offset s + n \<le> bs_length s"

definition mf_adds :: "('a ebuf_scheme) bsa \<Rightarrow> bytes \<Rightarrow> ('a ebuf_scheme) bsa \<Rightarrow> bool" where
  "mf_adds s d s' \<longleftrightarrow> bs_offset s' = bs_offset s + length d \<and>
     take (bs_offset s') (bs_buf s') = take (bs_offset s) (bs_buf s) @ d"

lemma mf_put_room:
  assumes "mf_ok L rest crc s" "n \<le> length src" "mf_fits s n"
  shows "\<exists>s'. m_put_mem reserve src n s = Inr s' \<and> mf_ok L rest crc s' \<and> mf_adds s (take n src) s' \<and>
    (\<forall>m. mf_fits s' m \<longleftrightarrow> mf_fits s (n + m))"
proof -
  let ?o = "bs_offset s"
  let ?m = "take ?o (bs_buf s) @ take n src @ drop (?o + n) (bs_buf s)"
  let ?s = "s\<lparr>bs_offset := ?o + n, bs_buf := ?m\<rparr>"
  have f: "bs_exp s = None" "bs_length s = L" "L \<le> length (bs_buf s)" "drop L (bs_buf s) = rest"
      "\<not> bs_error s" "?o + n \<le> L" "bs_crc s = crc"
    using assms by (auto simp: mf_ok_def mf_frame_def mf_fits_def)
  have len: "length (take n src) = n" using assms(2) by simp
  have "m_put_mem reserve src n s = Inr ?s"
    using f assms(2) by (simp add: m_put_mem_def next_slice_def bs_write_def mem_write_ok)
  moreover have "drop L ?m = rest" "L \<le> length ?m"
    using f(3,4,6) len by (simp_all add: drop_append)
  ultimately show ?thesis
    using f len by (intro exI [of _ ?s]) (simp add: mf_ok_def mf_frame_def mf_adds_def mf_fits_def add.assoc)
qed

interpretation fixed_target: marshal_target reserve "mf_ok L rest crc" "mf_bad L rest crc" mf_fits mf_adds
  for reserve L rest crc
proof unfold_locales
  show "\<exists>s'. m_put_mem reserve src n s = Inr s' \<and> mf_ok L rest crc s' \<and> mf_adds s (take n src) s' \<and>
      (\<forall>m. mf_fits s' m \<longleftrightarrow> mf_fits s (n + m))"
    if "mf_ok L rest crc s" "n \<le> length src" "mf_fits s n" for s n src
    using that by (rule mf_put_room)
  show "\<exists>s'. m_put_mem reserve src n s = Inr s' \<and> mf_bad L rest crc s'"
    if "mf_ok L rest crc s" "\<not> mf_fits s n" for s n src
    using that by (simp add: m_put_mem_def next_slice_def mf_ok_def mf_bad_def mf_frame_def mf_fits_def not_le)
  show "m_put_mem reserve src n s = Inr s" if "mf_bad L rest crc s" for s n src
    using that by (simp add: m_put_mem_def next_slice_def mf_bad_def)
qed (auto simp: mf_fits_def mf_adds_def mf_ok_def mf_frame_def)

text \<open>An expandable buffer, behind any provider of \<open>reserve\<close>.\<close>

definition me_buf :: "('a ebuf_scheme) bsa \<Rightarrow> 'a ebuf_scheme" where
  "me_buf s = the (bs_exp s)"

definition me_ok :: "('a ebuf_scheme \<Rightarrow> bool) \<Rightarrow> bool \<Rightarrow> ('a ebuf_scheme) bsa \<Rightarrow> bool" where
  "me_ok I crc s \<longleftrightarrow> bs_exp s \<noteq> None \<and> I (me_buf s) \<and> \<not> bs_error s \<and> bs_crc s = crc"

definition me_adds :: "('a ebuf_scheme) bsa \<Rightarrow> bytes \<Rightarrow> ('a ebuf_scheme) bsa \<Rightarrow> bool" where
  "me_adds s d s' \<longleftrightarrow> eb_contents (me_buf s') = eb_contents (me_buf s) @ d"

context expandable
begin

lemma tail_buf:
  assumes "inv b"
  obtains b1 where "eb_tail_buf reserve n b = Inr (eb_len b, b1)" "inv b1" "eb_len b1 = eb_len b"
    "eb_contents b1 = eb_contents b" "eb_len b + n \<le> length (eb_mem b1)"
proof (cases "n < length (eb_mem b) - eb_len b")
  case True
  with assms show ?thesis by (intro that [of b]) (simp_all add: eb_tail_buf_def)
next
  case False
  obtain b1 where b1: "reserve (eb_len b + n) b = Inr b1" "inv b1" "eb_len b1 = eb_len b"
      "eb_contents b1 = eb_contents b" "eb_len b + n \<le> length (eb_mem b1)"
    using reserve_contents [OF assms] by blast
  moreover have "n \<le> length (eb_mem b1) - eb_len b1" using b1(3,5) by arith
  ultimately show ?thesis using False by (intro that [of b1]) (simp_all add: eb_tail_buf_def)
qed

lemma m_put_mem_append:
  assumes "me_ok inv crc s" "n \<le> length src"
  shows "\<exists>s'. m_put_mem reserve src n s = Inr s' \<and> me_ok inv crc s' \<and> me_adds s (take n src) s'"
proof -
  obtain b where b: "bs_exp s = Some b" "inv b" "\<not> bs_error s" "bs_crc s = crc"
    using assms(1) by (auto simp: me_ok_def me_buf_def)
  obtain b1 where b1: "eb_tail_buf reserve n b = Inr (eb_len b, b1)" "inv b1" "eb_len b1 = eb_len b"
      "eb_contents b1 = eb_contents b" "eb_len b + n \<le> length (eb_mem b1)"
    using tail_buf [OF b(2)] by blast
  let ?m = "take (eb_len b) (eb_mem b1) @ take n src @ drop (eb_len b + n) (eb_mem b1)"
  let ?b = "b1\<lparr>eb_mem := ?m, eb_len := eb_len b + n\<rparr>"
  have len: "length ?m = length (eb_mem b1)" "length (take n src) = n" using assms(2) b1(5) by simp_all
  have "m_put_mem reserve src n s = Inr (s\<lparr>bs_exp := Some ?b\<rparr>)"
    using b b1(1,3,5) assms(2)
    by (simp add: m_put_mem_def next_slice_def eb_incr_len_def eb_set_len_def bs_write_def mem_write_ok)
  moreover have "inv ?b" using update [OF b1(2) len(1), of "eb_len b + n"] b1(5) len by simp
  moreover have "eb_contents ?b = eb_contents b @ take n src"
    using b1(3-5) len(2) inv_len [OF b(2)] by (simp add: eb_contents_def)
  ultimately show ?thesis
    using b by (intro exI [of _ "s\<lparr>bs_exp := Some ?b\<rparr>"]) (simp add: me_ok_def me_buf_def me_adds_def)
qed

lemma expandable_target: "marshal_target reserve (me_ok inv crc) (\<lambda>_. False) (\<lambda>_ _. True) me_adds"
proof unfold_locales
  show "\<exists>s'. m_put_mem reserve src n s = Inr s' \<and> me_ok inv crc s' \<and> me_adds s (take n src) s' \<and>
      (\<forall>m. True \<longleftrightarrow> True)" if "me_ok inv crc s" "n \<le> length src" for s n src
    using m_put_mem_append [OF that] by simp
qed (auto simp: me_adds_def)

end

interpretation heap_target: marshal_target "eb_reserve junk" "me_ok (\<lambda>b :: ebuf. eb_len b \<le> length (eb_mem b)) crc"
    "\<lambda>_. False" "\<lambda>_ _. True" me_adds for junk crc
  by (rule heap_buf.expandable_target)

interpretation scratch_target: marshal_target "sc_reserve junk static" "me_ok (sc_ok static) crc"
    "\<lambda>_. False" "\<lambda>_ _. True" me_adds for junk static crc
  by (rule scratch_buf.expandable_target)

text \<open>Measuring the size.\<close>

interpretation size_sink: byte_sink ms_process "\<lambda>_. True" "\<lambda>_. False" "\<lambda>_ _. True"
    "\<lambda>n d n'. n' = n + length d"
proof unfold_locales
  have u32: "unat (of_nat n :: u32) = n" if "n < 2 ^ 32" for n
    using that by (simp add: unat_of_nat take_bit_nat_eq_self_iff)
  show "\<exists>n'. ms_process n name f = Inr (n', f) \<and> True \<and> n' = n + length (wire f) \<and> (\<forall>m. True \<longleftrightarrow> True)"
    if "field_ok f" for n name f
    using that u32 [of "length str + 4" for str :: bytes]
    by (cases f) (simp_all add: u32 car_bytes_def car_ok_def del: of_nat_add)
qed auto

section \<open>Marshal and MarshalSize\<close>

definition message :: "bool \<Rightarrow> 'o visit \<Rightarrow> bytes" where
  "message crc v = visit_wire v @ (if crc then be32 (crc_of (visit_wire v)) else [])"

lemma message_length: "length (message crc v) = length (visit_wire v) + (if crc then 4 else 0)"
  by (simp add: message_def)

lemma ms_action_size:
  assumes "visit_ok v"
  shows "ms_action crc v 0 = Inr (0, length (message crc v), visit_result v)"
  using size_sink.run_room [OF TrueI assms, of "if crc then 4 else 0"]
  by (auto simp: ms_action_def run_action_def message_length)

lemma mf_start: "L \<le> length buf \<Longrightarrow> mf_ok L (drop L buf) crc (bs_fixed buf L crc logging)"
  by (simp add: mf_ok_def mf_frame_def bs_fixed_def)

lemma m_end_full:
  assumes "mf_bad L rest crc s"
  shows "m_end_action reserve s = Inr s"
proof -
  have "m_process reserve s name (U32 x) = Inr (s, U32 x)" for name x
    using fixed_target.put_stuck [OF assms, where src = "be32 x" and n = 4]
    by (simp add: m_put_mem_eq)
  with assms show ?thesis
    by (simp add: m_end_action_def bs_mem_def bs_pos_def mf_bad_def mf_frame_def)
qed

lemma m_end_room:
  assumes s: "mf_ok L rest crc s" and w: "take (bs_offset s) (bs_buf s) = w" "bs_offset s = length w"
  shows "if length w + (if crc then 4 else 0) \<le> L
    then \<exists>s'. m_end_action reserve s = Inr s' \<and> mf_ok L rest crc s' \<and>
      bs_offset s' = length w + (if crc then 4 else 0) \<and>
      take (bs_offset s') (bs_buf s') = w @ (if crc then be32 (crc_of w) else [])
    else \<exists>s'. m_end_action reserve s = Inr s' \<and> mf_bad L rest crc s'"
proof (cases crc)
  case True
  let ?f = "U32 (crc_of w)"
  have end_def: "m_end_action reserve s = bind_run (m_process reserve s ''crc'' ?f) (\<lambda>(s1, f). Inr s1)"
    using s w True by (simp add: m_end_action_def bs_mem_def bs_pos_def mf_ok_def mf_frame_def)
  show ?thesis
  proof (cases "length w + 4 \<le> L")
    case fit: True
    then have "mf_fits s (length (wire ?f))"
      using s w by (simp add: mf_fits_def mf_ok_def mf_frame_def)
    from fixed_target.room [OF s _ this] obtain s' where
      "m_process reserve s ''crc'' ?f = Inr (s', ?f)" "mf_ok L rest crc s'" "mf_adds s (wire ?f) s'"
      by force
    with fit True w end_def show ?thesis by (auto simp: mf_adds_def)
  next
    case False
    then have "\<not> mf_fits s (length (wire ?f))"
      using s w by (simp add: mf_fits_def mf_ok_def mf_frame_def)
    from fixed_target.full [OF s _ this] obtain s' where
      "m_process reserve s ''crc'' ?f = Inr (s', ?f)" "mf_bad L rest crc s'" by force
    with False True end_def show ?thesis by simp
  qed
next
  case False
  with s w show ?thesis by (auto simp: m_end_action_def mf_ok_def mf_frame_def)
qed

lemma m_action_fixed:
  fixes reserve :: "nat \<Rightarrow> 'a ebuf_scheme \<Rightarrow> 'a ebuf_scheme run" and v :: "'o visit"
  assumes "visit_ok v" "L \<le> length buf"
  shows "if length (message crc v) \<le> L
    then \<exists>s'. m_action reserve v (bs_fixed buf L crc logging) = Inr (0, s', visit_result v) \<and>
      mf_ok L (drop L buf) crc s' \<and> bs_offset s' = length (message crc v) \<and>
      take (bs_offset s') (bs_buf s') = message crc v
    else \<exists>s'. m_action reserve v (bs_fixed buf L crc logging) = Inr (- 1, s', visit_result v) \<and>
      mf_bad L (drop L buf) crc s'"
proof -
  let ?s = "bs_fixed buf L crc logging :: 'a ebuf_scheme bsa"
  have s: "mf_ok L (drop L buf) crc ?s" by (rule mf_start [OF assms(2)])
  have act: "m_action reserve v ?s = bind_run (visit_run (m_process reserve) v ?s) (\<lambda>(s2, res).
      bind_run (m_end_action reserve s2) (\<lambda>s3. Inr (if bs_error s3 then - 1 else 0, s3, res)))"
    by (simp add: m_action_def run_action_def bs_fixed_def)
  have fits: "mf_fits ?s n \<longleftrightarrow> n \<le> L" for n by (simp add: mf_fits_def bs_fixed_def)
  show ?thesis
  proof (cases "length (visit_wire v) \<le> L")
    case True
    from fixed_target.run_room [OF s assms(1)] True fits obtain s1 where
      s1: "visit_run (m_process reserve) v ?s = Inr (s1, visit_result v)" "mf_ok L (drop L buf) crc s1"
        "mf_adds ?s (visit_wire v) s1" by blast
    then have "take (bs_offset s1) (bs_buf s1) = visit_wire v" "bs_offset s1 = length (visit_wire v)"
      by (auto simp: mf_adds_def bs_fixed_def)
    from m_end_room [OF s1(2) this, of reserve] s1(1) show ?thesis
      by (auto simp: act message_def mf_ok_def mf_bad_def split: if_splits)
  next
    case False
    with fixed_target.run_full [OF s assms(1)] fits obtain s1 where
      s1: "visit_run (m_process reserve) v ?s = Inr (s1, visit_result v)" "mf_bad L (drop L buf) crc s1"
      by blast
    with False m_end_full [OF s1(2), of reserve] show ?thesis
      by (simp add: act message_length mf_bad_def)
  qed
qed

section \<open>Unmarshal\<close>

lemma octets16: "n < 16 \<Longrightarrow> (n < 8 \<Longrightarrow> P) \<Longrightarrow> (8 \<le> n \<Longrightarrow> n < 16 \<Longrightarrow> P) \<Longrightarrow> P" for n :: nat
  by linarith

lemma octets32:
  "n < 32 \<Longrightarrow> (n < 16 \<Longrightarrow> P) \<Longrightarrow> (16 \<le> n \<Longrightarrow> n < 24 \<Longrightarrow> P) \<Longrightarrow> (24 \<le> n \<Longrightarrow> n < 32 \<Longrightarrow> P) \<Longrightarrow> P" for n :: nat
  by linarith

lemma octets64:
  "n < 64 \<Longrightarrow> (n < 32 \<Longrightarrow> P) \<Longrightarrow> (32 \<le> n \<Longrightarrow> n < 40 \<Longrightarrow> P) \<Longrightarrow> (40 \<le> n \<Longrightarrow> n < 48 \<Longrightarrow> P) \<Longrightarrow>
    (48 \<le> n \<Longrightarrow> n < 56 \<Longrightarrow> P) \<Longrightarrow> (56 \<le> n \<Longrightarrow> n < 64 \<Longrightarrow> P) \<Longrightarrow> P" for n :: nat
  by linarith

lemma of_be16_be16: "of_be16 (be16 i) = i"
proof (rule bit_word_eqI)
  fix n assume "n < LENGTH(16)"
  then have "n < 16" by simp
  then show "bit (of_be16 (be16 i)) n \<longleftrightarrow> bit i n"
    by (rule octets16) (auto simp: of_be16_def be16_def bit_simps)
qed

lemma of_be32_be32: "of_be32 (be32 i) = i"
proof (rule bit_word_eqI)
  fix n assume "n < LENGTH(32)"
  then have "n < 32" by simp
  then show "bit (of_be32 (be32 i)) n \<longleftrightarrow> bit i n"
  proof (rule octets32)
    assume "n < 16"
    then show ?thesis by (rule octets16) (auto simp: of_be32_def be32_def bit_simps)
  qed (auto simp: of_be32_def be32_def bit_simps)
qed

lemma of_be64_be64: "of_be64 (be64 i) = i"
proof (rule bit_word_eqI)
  fix n assume "n < LENGTH(64)"
  then have "n < 64" by simp
  then show "bit (of_be64 (be64 i)) n \<longleftrightarrow> bit i n"
  proof (rule octets64)
    assume "n < 32"
    then show ?thesis
    proof (rule octets32)
      assume "n < 16"
      then show ?thesis by (rule octets16) (auto simp: of_be64_def be64_def bit_simps)
    qed (auto simp: of_be64_def be64_def bit_simps)
  qed (auto simp: of_be64_def be64_def bit_simps)
qed

lemma of_be32_crc: "length b = 4 \<Longrightarrow> crc_from_bytes b = Inr (of_be32 b)"
  by (simp add: crc_from_bytes_def of_be32_def or.assoc)

definition u_left :: "ebuf bsa \<Rightarrow> bytes" where
  "u_left s = take (bs_length s - bs_offset s) (drop (bs_offset s) (bs_buf s))"

definition u_ok :: "ebuf bsa \<Rightarrow> bool" where
  "u_ok s \<longleftrightarrow> bs_exp s = None \<and> \<not> bs_error s \<and> bs_offset s \<le> bs_length s \<and> bs_length s \<le> length (bs_buf s)"

definition u_skip :: "nat \<Rightarrow> ebuf bsa \<Rightarrow> ebuf bsa" where
  "u_skip n s = s\<lparr>bs_offset := bs_offset s + n\<rparr>"

lemma u_skip_skip [simp]: "u_skip m (u_skip n s) = u_skip (n + m) s"
  by (simp add: u_skip_def add.assoc)

lemma u_slice:
  assumes "u_ok s" "u_left s = d @ r"
  shows "next_slice no_reserve (length d) s = Inr (Some (bs_offset s), u_skip (length d) s)"
    and "take (length d) (drop (bs_offset s) (bs_buf s)) = d"
    and "bs_offset s + length d \<le> length (bs_buf s)"
    and "u_ok (u_skip (length d) s)" and "u_left (u_skip (length d) s) = r"
proof -
  have len: "bs_length s - bs_offset s = length d + length r"
    using arg_cong [OF assms(2), of length] assms(1) by (auto simp: u_left_def u_ok_def min_def split: if_splits)
  then have fit: "bs_offset s + length d \<le> bs_length s" using assms(1) unfolding u_ok_def by linarith
  show "next_slice no_reserve (length d) s = Inr (Some (bs_offset s), u_skip (length d) s)"
    using assms(1) fit by (simp add: next_slice_def u_ok_def u_skip_def)
  have "take (length d) (take (length d + length r) (drop (bs_offset s) (bs_buf s))) = d"
    using assms(2) by (simp add: u_left_def len)
  then show "take (length d) (drop (bs_offset s) (bs_buf s)) = d" by simp
  show "bs_offset s + length d \<le> length (bs_buf s)" "u_ok (u_skip (length d) s)"
    using fit assms(1) by (simp_all add: u_ok_def u_skip_def)
  have "u_left (u_skip (length d) s) = drop (length d) (u_left s)"
    by (simp add: u_left_def u_skip_def drop_take add.commute)
  then show "u_left (u_skip (length d) s) = r" using assms(2) by simp
qed

lemma u_get_ok: "u_ok s \<Longrightarrow> u_left s = d @ r \<Longrightarrow> u_get (length d) s = Inr (Some d, u_skip (length d) s)"
  using u_slice [of s d r] by (simp add: u_get_def) (simp add: u_skip_def)

text \<open>
  The object that is read has a tree of calls of its own: the same kinds of fields, with the
  values they had before, and then whatever follows from the values that were read. A carrier
  then points into the buffer.
\<close>

fun field_fits :: "field \<Rightarrow> field \<Rightarrow> bool" where
  "field_fits (U64 _) (U64 _) \<longleftrightarrow> True"
| "field_fits (U32 _) (U32 _) \<longleftrightarrow> True"
| "field_fits (U16 _) (U16 _) \<longleftrightarrow> True"
| "field_fits (U8 _) (U8 _) \<longleftrightarrow> True"
| "field_fits (Bool _) (Bool _) \<longleftrightarrow> True"
| "field_fits (Bytes a) (Bytes b) \<longleftrightarrow> length a = length b"
| "field_fits (Carrier _) (Carrier _) \<longleftrightarrow> True"
| "field_fits (Str _) (Str _) \<longleftrightarrow> True"
| "field_fits _ _ \<longleftrightarrow> False"

fun field_same :: "field \<Rightarrow> field \<Rightarrow> bool" where
  "field_same (Carrier a) (Carrier b) \<longleftrightarrow> car_len a = car_len b \<and> car_bytes a = car_bytes b \<and> car_ok b"
| "field_same f g \<longleftrightarrow> f = g"

inductive mirrors :: "('o \<Rightarrow> 'p \<Rightarrow> bool) \<Rightarrow> 'o visit \<Rightarrow> 'p visit \<Rightarrow> bool" for R where
  mirrors_Done: "R x y \<Longrightarrow> mirrors R (Done x) (Done y)"
| mirrors_Process: "field_ok f \<Longrightarrow> field_fits f g \<Longrightarrow>
    (\<And>f'. field_same f f' \<Longrightarrow> mirrors R (k f) (l f')) \<Longrightarrow>
    mirrors R (Process name f k) (Process name' g l)"

lemma field_same_refl: "field_ok f \<Longrightarrow> field_same f f"
  by (cases f) simp_all

lemma mirrors_ok: "mirrors R v w \<Longrightarrow> visit_ok v"
  by (induction rule: mirrors.induct) (auto intro: field_same_refl)

lemma u_get_u32_ok:
  assumes "u_ok s" "u_left s = be32 n @ r"
  shows "u_get_u32 old s = Inr (n, u_skip 4 s)" "u_ok (u_skip 4 s)" "u_left (u_skip 4 s) = r"
  using u_get_ok [OF assms] u_slice [OF assms] by (simp_all add: u_get_u32_def of_be32_be32)

lemma u_field:
  assumes "field_ok f" "field_fits f g" "u_ok s" "u_left s = wire f @ r"
  shows "\<exists>f'. u_process junk s name g = Inr (u_skip (length (wire f)) s, f') \<and> field_same f f' \<and>
    u_ok (u_skip (length (wire f)) s) \<and> u_left (u_skip (length (wire f)) s) = r"
proof -
  note get = u_get_ok [OF assms(3,4)] and slice = u_slice [OF assms(3,4)]
  have u32: "unat (of_nat n :: u32) = n" if "n < 2 ^ 32" for n
    using that by (simp add: unat_of_nat take_bit_nat_eq_self_iff)
  show ?thesis
  proof (cases f)
    case (Carrier c)
    with assms(2) obtain c' where g: "g = Carrier c'" by (cases g) auto
    have c: "car_len c < 2 ^ 32" "car_ok c" using assms(1) Carrier by auto
    have len: "length (car_bytes c) = car_len c" using c(2) by (simp add: car_bytes_def car_ok_def)
    have left: "u_left s = be32 (of_nat (car_len c)) @ car_bytes c @ r" using assms(4) Carrier by simp
    note head = u_get_u32_ok [OF assms(3) left]
    note body = u_slice [OF head(2,3)]
    show ?thesis
    proof (cases "car_len c = 0")
      case True
      then show ?thesis
        using head slice(4,5) Carrier g len
        by (simp add: car_set_buf_def car_bytes_def car_ok_def car_mem_def)
    next
      case False
      then have ne: "(of_nat (car_len c) :: u32) \<noteq> 0" using u32 [OF c(1)] by (metis unat_0)
      have buf: "bs_buf (u_skip n s) = bs_buf s" "bs_offset (u_skip n s) = bs_offset s + n" for n
        by (simp_all add: u_skip_def)
      have "car_bytes (car_set_buf (Some (drop (bs_offset s + 4) (bs_buf s))) (car_len c) False c') = car_bytes c"
        "car_ok (car_set_buf (Some (drop (bs_offset s + 4) (bs_buf s))) (car_len c) False c')"
        using body(2,3) len by (simp_all add: car_set_buf_def car_bytes_def car_ok_def car_mem_def buf)
      then show ?thesis
        using head body(1) slice(4,5) Carrier g len ne u32 [OF c(1)]
        by (simp add: buf) (simp add: car_set_buf_def)
    qed
  next
    case (Str str)
    with assms(2) obtain str' where g: "g = Str str'" by (cases g) auto
    have left: "u_left s = be32 (of_nat (length str)) @ str @ r" using assms(4) Str by simp
    note head = u_get_u32_ok [OF assms(3) left]
    show ?thesis
      using head u_get_ok [OF head(2,3)] slice(4,5) Str g assms(1) u32 by simp
  next
    case (U64 i)
    with assms(2) show ?thesis using get slice(4,5) by (cases g) (simp_all add: of_be64_be64)
  next
    case (U32 i)
    with assms(2) show ?thesis using get slice(4,5) by (cases g) (simp_all add: u_get_u32_def of_be32_be32)
  next
    case (U16 i)
    with assms(2) show ?thesis using get slice(4,5) by (cases g) (simp_all add: of_be16_be16)
  next
    case (U8 i)
    with assms(2) show ?thesis using get slice(4,5) by (cases g) simp_all
  next
    case (Bool b)
    with assms(2) show ?thesis using get slice(4,5) by (cases g) auto
  next
    case (Bytes bs)
    with assms(2) show ?thesis using get slice(4,5) by (cases g) simp_all
  qed (use assms(1) in simp)
qed

lemma u_run:
  assumes "mirrors R v w" "u_ok s" "u_left s = visit_wire v @ r"
  shows "\<exists>res. visit_run (u_process junk) w s = Inr (u_skip (length (visit_wire v)) s, res) \<and>
    R (visit_result v) res"
  using assms
proof (induction arbitrary: s rule: mirrors.induct)
  case (mirrors_Done x y)
  then show ?case by (simp add: u_skip_def)
next
  case (mirrors_Process f g k l name name')
  then have "u_left s = wire f @ visit_wire (k f) @ r" by simp
  from u_field [OF mirrors_Process.hyps(1,2) mirrors_Process.prems(1) this, of junk name'] obtain f' where
    f': "u_process junk s name' g = Inr (u_skip (length (wire f)) s, f')" "field_same f f'"
      "u_ok (u_skip (length (wire f)) s)" "u_left (u_skip (length (wire f)) s) = visit_wire (k f) @ r"
    by blast
  from mirrors_Process.IH [OF f'(2-4)] f'(1) show ?case by auto
qed

lemma u_action_message:
  assumes "mirrors R v w"
  shows "\<exists>s res. u_action junk w (bs_fixed (message crc v @ rest) (length (message crc v)) crc logging) =
    Inr (0, s, res) \<and> R (visit_result v) res \<and> bs_offset s = length (visit_wire v)"
proof -
  let ?m = "message crc v"
  let ?s = "bs_fixed (?m @ rest) (length ?m) crc logging :: ebuf bsa"
  have start: "u_begin_action ?s = Inr ?s"
  proof (cases crc)
    case True
    then have "take 4 (drop (length ?m - 4) (?m @ rest)) = be32 (crc_of (visit_wire v))"
      "take (length ?m - 4) (?m @ rest) = visit_wire v"
      by (simp_all add: message_def)
    with True show ?thesis
      by (simp add: u_begin_action_def bs_fixed_def message_length of_be32_crc of_be32_be32)
  qed (simp add: u_begin_action_def bs_fixed_def)
  have ok: "u_ok ?s" "u_left ?s = visit_wire v @ (if crc then be32 (crc_of (visit_wire v)) else [])"
    by (auto simp: u_ok_def u_left_def bs_fixed_def message_def)
  from u_run [OF assms ok, of junk] obtain res where
    "visit_run (u_process junk) w ?s = Inr (u_skip (length (visit_wire v)) ?s, res)" "R (visit_result v) res"
    by blast
  moreover have "bs_error_update (\<lambda>_. False) ?s = ?s" by (simp add: bs_fixed_def)
  ultimately show ?thesis
    using start by (simp add: u_action_def run_action_def) (simp add: u_skip_def bs_fixed_def)
qed

text \<open>Reading up to a terminator: \<open>d\<close> bytes that are not it, and then it.\<close>

lemma u_scan_found:
  assumes "u_ok s" "u_left s = d @ t # r" "t \<notin> set d"
  shows "u_scan t cbuf n s = Inr (Some (case cbuf of None \<Rightarrow> bs_offset s | Some o1 \<Rightarrow> o1, n + length d + 1),
    u_skip (length d + 1) s)"
  using assms
proof (induction d arbitrary: s cbuf n)
  case Nil
  have "u_left s = [t] @ r" using Nil by simp
  note slice = u_slice [OF Nil(1) this]
  have fit: "bs_offset s + 1 \<le> bs_length s" "bs_exp s = None" "\<not> bs_error s" "bs_length s \<le> length (bs_buf s)"
    using slice(4) Nil(1) by (auto simp: u_ok_def u_skip_def)
  have "bs_buf s ! bs_offset s = t"
    using slice(2) fit by (metis Suc_eq_plus1 Suc_le_lessD hd_drop_conv_nth length_Cons less_le_trans
        list.sel(1) list.size(3) take_eq_Nil take_hd_drop nth_Cons_0 hd_take zero_less_one One_nat_def)
  with fit show ?case by (subst u_scan.simps) (simp add: u_skip_def Let_def)
next
  case (Cons x d)
  have left: "u_left s = [x] @ (d @ t # r)" using Cons.prems by simp
  note slice = u_slice [OF Cons.prems(1) left]
  have fit: "bs_offset s + 1 \<le> bs_length s" "bs_exp s = None" "\<not> bs_error s" "bs_length s \<le> length (bs_buf s)"
    using slice(4) Cons.prems(1) by (auto simp: u_ok_def u_skip_def)
  have x: "bs_buf s ! bs_offset s = x"
    using slice(2) fit by (metis Suc_eq_plus1 Suc_le_lessD hd_drop_conv_nth length_Cons less_le_trans
        list.sel(1) list.size(3) take_eq_Nil take_hd_drop nth_Cons_0 hd_take zero_less_one One_nat_def)
  have "u_scan t (Some c) (n + 1) (u_skip 1 s) = Inr (Some (c, n + 1 + length d + 1), u_skip (length d + 2) s)" for c
    using Cons.IH [of "u_skip 1 s" "Some c" "n + 1"] slice(4,5) Cons.prems(3) by simp
  moreover have "x \<noteq> t" using Cons.prems(3) by auto
  ultimately show ?case
    using x fit by (subst u_scan.simps) (simp add: Let_def u_skip_def)
qed

section \<open>Vectors\<close>

lemma mirrors_then:
  assumes "mirrors R v w" "\<And>x y. R x y \<Longrightarrow> mirrors S (g x) (h y)"
  shows "mirrors S (visit_then v g) (visit_then w h)"
  using assms(1) by (induction rule: mirrors.induct) (auto intro: mirrors.intros assms(2))

lemma visit_then_Done: "visit_then w Done = w"
  by (induction w) simp_all

lemma vector_mirrors_elems:
  assumes "\<forall>x\<in>set xs. mirrors R (elem x) (elem' builder)" "list_all2 R pre pre'"
  shows "mirrors (\<lambda>zs ys. length zs = length xs \<and> list_all2 R (pre @ zs) ys) (vector_elems elem xs)
    (vector_fill elem' builder (length xs) pre')"
  using assms
proof (induction xs arbitrary: pre pre')
  case Nil
  then show ?case by (simp add: mirrors_Done)
next
  case (Cons x xs)
  have "mirrors (\<lambda>zs ys. length zs = length (x # xs) \<and> list_all2 R (pre @ zs) ys)
      (visit_then (vector_elems elem xs) (\<lambda>xs'. Done (x' # xs'))) (vector_fill elem' builder (length xs) (pre' @ [y]))"
    if "R x' y" for x' y
  proof -
    have "list_all2 R (pre @ [x']) (pre' @ [y])"
      using Cons.prems(2) that by (simp add: list_all2_appendI)
    then have "mirrors (\<lambda>zs ys. length zs = length xs \<and> list_all2 R ((pre @ [x']) @ zs) ys) (vector_elems elem xs)
        (vector_fill elem' builder (length xs) (pre' @ [y]))"
      using Cons.IH [of "pre @ [x']" "pre' @ [y]"] Cons.prems(1) by simp
    then have "mirrors (\<lambda>zs ys. length zs = length (x # xs) \<and> list_all2 R (pre @ zs) ys)
        (visit_then (vector_elems elem xs) (\<lambda>xs'. Done (x' # xs')))
        (visit_then (vector_fill elem' builder (length xs) (pre' @ [y])) Done)"
      by (rule mirrors_then) (simp add: mirrors_Done)
    then show ?thesis by (simp add: visit_then_Done)
  qed
  then show ?case using Cons.prems(1) by (auto intro: mirrors_then)
qed

lemma vector_mirrors:
  assumes "\<forall>x\<in>set xs. mirrors R (elem x) (elem' builder)" "length xs < 2 ^ 32"
  shows "mirrors (rel_sum (=) (list_all2 R)) (vector_serialize False elem b xs) (vector_serialize True elem' builder [])"
proof -
  have n: "unat (of_nat (length xs) :: u32) = length xs"
    using assms(2) by (simp add: unat_of_nat take_bit_nat_eq_self_iff)
  have "mirrors (rel_sum (=) (list_all2 R)) (visit_then (vector_elems elem xs) (\<lambda>ys. Done (Inr ys)))
      (visit_then (vector_fill elem' builder (length xs) []) (\<lambda>ys. Done (bind_run (assert_run (length ys = length xs)) (\<lambda>_. Inr ys))))"
    by (rule mirrors_then [OF vector_mirrors_elems [of xs R elem elem' builder "[]" "[]"]])
      (use assms(1) in \<open>auto simp: assert_run_def intro!: mirrors_Done dest: list_all2_lengthD\<close>)
  then show ?thesis by (auto simp: vector_serialize_def the_u32_def n intro!: mirrors_Process)
qed

section \<open>Properties\<close>

text \<open>
  Also. \<open>MarshalSize\<close> is exact: it returns the length of the flat form, checksum
  included. Marshalling into a fixed buffer returns 0 and leaves that form at its start when
  it has at least that size; otherwise it returns -1. Either way nothing behind the buffer's
  length is written, and the object is unchanged.
\<close>

theorem marshal_size_exact:
  assumes "visit_ok v" and "L \<le> length buf"
  shows "ms_action crc v 0 = Inr (0, length (message crc v), visit_result v) \<and>
    (\<exists>s. m_action reserve v (bs_fixed buf L crc logging) =
        Inr (if length (message crc v) \<le> L then 0 else - 1, s, visit_result v) \<and>
      drop L (bs_buf s) = drop L buf \<and>
      (if length (message crc v) \<le> L then take (length (message crc v)) (bs_buf s) = message crc v else True))"
proof (intro conjI)
  show "ms_action crc v 0 = Inr (0, length (message crc v), visit_result v)"
    by (rule ms_action_size [OF assms(1)])
  show "\<exists>s. m_action reserve v (bs_fixed buf L crc logging) =
        Inr (if length (message crc v) \<le> L then 0 else - 1, s, visit_result v) \<and>
      drop L (bs_buf s) = drop L buf \<and>
      (if length (message crc v) \<le> L then take (length (message crc v)) (bs_buf s) = message crc v else True)"
    using m_action_fixed [OF assms, of crc reserve logging]
    by (cases "length (message crc v) \<le> L") (auto simp: mf_ok_def mf_bad_def mf_frame_def)
qed

definition sample_visit :: "field \<Rightarrow> unit visit" where
  "sample_visit f = Process ''a'' f (\<lambda>_. Process ''b'' (U16 513) (\<lambda>_. Done ()))"

theorem marshal_size_exact_witness:
  "ms_action True (sample_visit (Str [7])) 0 = Inr (0, length (message True (sample_visit (Str [7]))),
      visit_result (sample_visit (Str [7]))) \<and>
    (\<exists>s. m_action (eb_reserve (\<lambda>_. 0)) (sample_visit (Str [7])) (bs_fixed [1, 2, 3, 4] 3 True False :: ebuf bsa) =
        Inr (if length (message True (sample_visit (Str [7]))) \<le> 3 then 0 else - 1, s,
          visit_result (sample_visit (Str [7]))) \<and>
      drop 3 (bs_buf s) = drop 3 [1, 2, 3, 4] \<and>
      (if length (message True (sample_visit (Str [7]))) \<le> 3
       then take (length (message True (sample_visit (Str [7])))) (bs_buf s) =
         message True (sample_visit (Str [7])) else True))"
  by (rule marshal_size_exact) (simp_all add: sample_visit_def)

text \<open>
  Property C2. The round trip, for objects without terminated buffers (those come back one byte
  too long, \<open>terminated_off_by_one\<close>) whose carriers are not longer than their memory and whose
  carriers, arrays and strings have lengths that fit 32 bits with their prefix. An object that
  mirrors such a marshalled one (the same kinds of fields, arrays of the same length, in an order that may depend on the
  values read) is read back from the flat form without an error, with equal values, whatever it
  held before, with and without a checksum, when the message fits the buffer.
\<close>

theorem marshal_roundtrip:
  assumes "mirrors R v w" and "L \<le> length buf" and "length (message crc v) \<le> L"
  shows "\<exists>s s' res. m_action reserve v (bs_fixed buf L crc logging) = Inr (0, s, visit_result v) \<and>
    bs_offset s = length (message crc v) \<and>
    u_action junk w (bs_fixed (bs_buf s) (bs_offset s) crc logging') = Inr (0, s', res) \<and> R (visit_result v) res"
proof -
  obtain s where s: "m_action reserve v (bs_fixed buf L crc logging) = Inr (0, s, visit_result v)"
      "bs_offset s = length (message crc v)" "take (bs_offset s) (bs_buf s) = message crc v"
    using m_action_fixed [OF mirrors_ok [OF assms(1)] assms(2), of crc reserve logging] assms(3) by auto
  then have "bs_buf s = message crc v @ drop (bs_offset s) (bs_buf s)"
    by (metis append_take_drop_id)
  with u_action_message [OF assms(1), of junk crc "drop (bs_offset s) (bs_buf s)" logging'] s
  show ?thesis by metis
qed

definition sample_object :: "field \<Rightarrow> field visit" where
  "sample_object f = Process ''a'' f (\<lambda>g. Done g)"

lemma sample_mirrors: "mirrors (=) (sample_object (Str [7, 8])) (sample_object (Str []))"
  unfolding sample_object_def by (rule mirrors_Process) (auto intro: mirrors_Done)

theorem marshal_roundtrip_witness:
  "\<exists>s s' res. m_action (eb_reserve (\<lambda>_. 0)) (sample_object (Str [7, 8]))
      (bs_fixed (replicate 12 0) 10 True False :: ebuf bsa) = Inr (0, s, visit_result (sample_object (Str [7, 8]))) \<and>
    bs_offset s = length (message True (sample_object (Str [7, 8]))) \<and>
    u_action 0 (sample_object (Str [])) (bs_fixed (bs_buf s) (bs_offset s) True False) = Inr (0, s', res) \<and>
    visit_result (sample_object (Str [7, 8])) = res"
  by (rule marshal_roundtrip [OF sample_mirrors]) (simp_all add: message_def sample_object_def)

text \<open>
  Also. A vector of objects that mirror each other mirrors the empty vector that is
  read into: SerializableVector comes back with as many elements, each with equal values.
\<close>

theorem vector_roundtrip:
  assumes "\<forall>x\<in>set xs. mirrors R (elem x) (elem' builder)" and "length xs < 2 ^ 32"
  shows "\<exists>s ys. u_action junk (vector_serialize True elem' builder [])
      (bs_fixed (message crc (vector_serialize False elem b xs) @ rest)
        (length (message crc (vector_serialize False elem b xs))) crc logging) = Inr (0, s, Inr ys) \<and>
    list_all2 R (map (\<lambda>x. visit_result (elem x)) xs) ys"
proof -
  have "visit_result (vector_serialize False elem b xs) = Inr (map (\<lambda>x. visit_result (elem x)) xs)"
    by (simp add: vector_serialize_def visit_then_result vector_elems_result)
  with u_action_message [OF vector_mirrors [of xs R elem elem' builder b, OF assms], of junk crc rest logging]
  show ?thesis by (auto simp: rel_sum.simps)
qed

theorem vector_roundtrip_witness:
  "\<exists>s ys. u_action 0 (vector_serialize True sample_object (Str []) [])
      (bs_fixed (message False (vector_serialize False sample_object (Str []) [Str [7, 8]]) @ [])
        (length (message False (vector_serialize False sample_object (Str []) [Str [7, 8]]))) False False) =
      Inr (0, s, Inr ys) \<and>
    list_all2 (=) (map (\<lambda>x. visit_result (sample_object x)) [Str [7, 8]]) ys"
  by (rule vector_roundtrip) (simp_all add: sample_mirrors)

text \<open>
  A divergence. The checksum. On a flat form in which up to four consecutive bytes of the
  payload have changed, the check finds the mismatch, but the error is only signalled when a
  log path is set: without one the corrupted bytes are read as if they were good.
\<close>

theorem crc_mismatch_needs_log:
  assumes "length e' = length e" and "length e \<le> 4" and "e' \<noteq> e"
    and "buf = p @ e' @ q @ be32 (crc_of (p @ e @ q))"
  shows "u_begin_action (bs_fixed buf (length buf) True logging) =
    Inr (if logging then (bs_fixed buf (length buf) True logging)\<lparr>bs_error := True\<rparr>
         else bs_fixed buf (length buf) True logging)"
proof -
  have "take (length buf - 4) buf = p @ e' @ q" "take 4 (drop (length buf - 4) buf) = be32 (crc_of (p @ e @ q))"
    by (simp_all add: assms(4))
  moreover have "crc_of (p @ e' @ q) \<noteq> crc_of (p @ e @ q)"
    using assms(1-3) by (intro crc_detects_burst_lemma) auto
  moreover have "4 \<le> length buf" by (simp add: assms(4))
  ultimately show ?thesis
    by (simp add: u_begin_action_def bs_fixed_def of_be32_crc of_be32_be32)
qed

theorem crc_mismatch_needs_log_witness:
  "u_begin_action (bs_fixed ([1] @ [2] @ [3] @ be32 (crc_of ([1] @ [9] @ [3])))
      (length ([1] @ [2] @ [3] @ be32 (crc_of ([1] @ [9] @ [3])))) True False) =
    Inr (if False then (bs_fixed ([1] @ [2] @ [3] @ be32 (crc_of ([1] @ [9] @ [3])))
        (length ([1] @ [2] @ [3] @ be32 (crc_of ([1] @ [9] @ [3])))) True False)\<lparr>bs_error := True\<rparr>
      else bs_fixed ([1] @ [2] @ [3] @ be32 (crc_of ([1] @ [9] @ [3])))
        (length ([1] @ [2] @ [3] @ be32 (crc_of ([1] @ [9] @ [3])))) True False)"
  by (rule crc_mismatch_needs_log [where e = "[9]" and e' = "[2]" and p = "[1]" and q = "[3]"]) simp_all

text \<open>
  A divergence. Terminated buffers. Marshalling writes the bytes up to the terminator and the
  terminator; reading them back stops right behind it, but the carrier gets a length that is
  one more than what was read and one more than the marshalled carrier's.
\<close>

theorem terminated_off_by_one:
  assumes "t \<in> set (car_mem c)" and "u_ok s" and "u_left s = wire (Term c t) @ r"
    and "mf_ok L rest crc ms" and "mf_fits ms (length (wire (Term c t)))" and "length (car_mem c) < 2 ^ 32"
  shows "\<exists>ms' c' s' d. m_process reserve ms name (Term c t) = Inr (ms', Term c' t) \<and>
    mf_adds ms (wire (Term c t)) ms' \<and> car_len c' = length (wire (Term c t)) \<and>
    u_process junk s name (Term c0 t) = Inr (s', Term d t) \<and> u_left s' = r \<and> car_len d = car_len c' + 1"
proof -
  let ?d = "takeWhile (\<lambda>b. b \<noteq> t) (car_mem c)"
  have split: "car_mem c = ?d @ t # tl (dropWhile (\<lambda>b. b \<noteq> t) (car_mem c))"
  proof -
    have "dropWhile (\<lambda>b. b \<noteq> t) (car_mem c) \<noteq> []" using assms(1) by (simp add: dropWhile_eq_Nil_conv)
    then have "dropWhile (\<lambda>b. b \<noteq> t) (car_mem c) = t # tl (dropWhile (\<lambda>b. b \<noteq> t) (car_mem c))"
      using hd_dropWhile [of "\<lambda>b. b \<noteq> t" "car_mem c"] by (cases "dropWhile (\<lambda>b. b \<noteq> t) (car_mem c)") auto
    then show ?thesis by (metis takeWhile_dropWhile_id)
  qed
  let ?n = "length ?d + 1"
  have n: "?n \<le> length (car_mem c)" by (subst (2) split) simp
  have take: "take ?n (car_mem c) = wire (Term c t)"
    by (subst split) simp
  have u32: "unat (of_nat ?n :: u32) = ?n"
    using n assms(6) by (simp add: unat_of_nat take_bit_nat_eq_self_iff del: of_nat_add of_nat_Suc)
  have mem: "car_mem (car_set_len k c) = car_mem c" "car_len (car_set_len k c) = k" for k
    by (simp_all add: car_set_len_def car_mem_def)
  have fit: "mf_fits ms ?n" using assms(5) by simp
  obtain ms' where ms': "m_put_mem reserve (car_mem c) ?n ms = Inr ms'" "mf_adds ms (take ?n (car_mem c)) ms'"
    using mf_put_room [OF assms(4) n fit, of reserve] by blast
  have "m_process reserve ms name (Term c t) = Inr (ms', Term (car_set_len ?n c) t)"
    using ms'(1) assms(1) u32 by (simp add: car_scan_def mem Let_def del: of_nat_add of_nat_Suc)
  moreover have left: "u_left s = ?d @ t # r" using assms(3) by simp
  have "t \<notin> set ?d" by (auto dest: set_takeWhileD)
  from u_scan_found [OF assms(2) left this, of None 0]
  have "u_scan t None 0 s = Inr (Some (bs_offset s, ?n), u_skip ?n s)" by simp
  then have "u_process junk s name (Term c0 t) =
      Inr (u_skip ?n s, Term (car_set_buf (Some (drop (bs_offset s) (bs_buf s))) (?n + 1) False c0) t)"
    by (simp add: u_skip_def)
  moreover have "u_left (u_skip ?n s) = r"
    using u_slice(5) [OF assms(2,3)] by simp
  ultimately show ?thesis
    using ms'(2) take by (simp add: mem(2) car_set_buf_def)
qed

theorem terminated_off_by_one_witness:
  "\<exists>ms' c' s' d. m_process (eb_reserve (\<lambda>_. 0)) (bs_fixed [9, 9, 9] 3 False False :: ebuf bsa) ''x''
      (Term (car_set_buf (Some [1, 0, 5]) 0 False car_init) 0) = Inr (ms', Term c' 0) \<and>
    mf_adds (bs_fixed [9, 9, 9] 3 False False :: ebuf bsa)
      (wire (Term (car_set_buf (Some [1, 0, 5]) 0 False car_init) 0)) ms' \<and>
    car_len c' = length (wire (Term (car_set_buf (Some [1, 0, 5]) 0 False car_init) 0)) \<and>
    u_process 0 (bs_fixed [1, 0, 8] 3 False False) ''x'' (Term car_init 0) = Inr (s', Term d 0) \<and>
    u_left s' = [8] \<and> car_len d = car_len c' + 1"
  by (rule terminated_off_by_one [where L = 3 and rest = "[]" and crc = False])
    (simp_all add: car_set_buf_def car_mem_def u_ok_def u_left_def bs_fixed_def mf_ok_def mf_frame_def mf_fits_def)

text \<open>
  Also. \<open>MarshalCopy\<close> copies: for an object that writes at least a byte it never
  panics, returns the flat size and leaves the mirroring object with equal values. For an
  object without fields, on a buffer that has no memory yet, it dies in the assertion of
  \<open>raw_buf()\<close>.
\<close>

theorem marshal_copy_correct:
  assumes "mirrors R v w" and "eb_len b \<le> length (eb_mem b)" and "visit_wire v \<noteq> []"
  shows "(\<exists>res. marshal_copy junk junk32 b v w = Inr (length (visit_wire v), res) \<and> R (visit_result v) res) \<and>
    marshal_copy junk junk32 \<lparr>eb_mem = [], eb_len = 0\<rparr> (Done x) w = Inl Assert_failed"
proof
  let ?s = "\<lparr>bs_exp = Some (b\<lparr>eb_len := 0\<rparr>), bs_buf = [], bs_length = 0, bs_offset = 0,
       bs_error = False, bs_crc = False, bs_log = False\<rparr>"
  have s: "me_ok (\<lambda>b :: ebuf. eb_len b \<le> length (eb_mem b)) False ?s"
    by (simp add: me_ok_def me_buf_def)
  from heap_target.run_room [OF s mirrors_ok [OF assms(1)] TrueI, of junk] obtain s1 where
    s1: "visit_run (m_process (eb_reserve junk)) v ?s = Inr (s1, visit_result v)"
      "me_ok (\<lambda>b :: ebuf. eb_len b \<le> length (eb_mem b)) False s1" "me_adds ?s (visit_wire v) s1"
    by blast
  then obtain b1 where b1: "bs_exp s1 = Some b1" "eb_len b1 \<le> length (eb_mem b1)" "\<not> bs_error s1"
      "eb_contents b1 = visit_wire v"
    by (auto simp: me_ok_def me_buf_def me_adds_def eb_contents_def)
  have len: "eb_len b1 = length (visit_wire v)"
    using b1(2,4) by (metis eb_contents_def length_take min.absorb2)
  have m: "eb_mem b1 = message False v @ drop (eb_len b1) (eb_mem b1)"
    using b1(4) by (simp add: message_def eb_contents_def flip: b1(4))
  from u_action_message [OF assms(1), of junk32 False "drop (eb_len b1) (eb_mem b1)" False] obtain s2 res where
    "u_action junk32 w (bs_fixed (eb_mem b1) (eb_len b1) False False) = Inr (0, s2, res)"
    "R (visit_result v) res"
    unfolding m [symmetric] by (auto simp: message_length len)
  moreover have "eb_mem b1 \<noteq> []" using assms(3) b1(4) by (auto simp: eb_contents_def)
  moreover have "bs_crc s1 = False" using s1(2) by (simp add: me_ok_def)
  ultimately show "\<exists>res. marshal_copy junk junk32 b v w = Inr (length (visit_wire v), res) \<and> R (visit_result v) res"
    using s1(1) b1(1,3) len
    by (simp add: marshal_copy_def bs_expandable_def eb_set_len_def m_action_def run_action_def
        m_end_action_def eb_raw_buf_def)
  show "marshal_copy junk junk32 \<lparr>eb_mem = [], eb_len = 0\<rparr> (Done x) w = Inl Assert_failed"
    by (simp add: marshal_copy_def bs_expandable_def eb_set_len_def m_action_def run_action_def
        m_end_action_def eb_raw_buf_def)
qed

theorem marshal_copy_correct_witness:
  "(\<exists>res. marshal_copy (\<lambda>_. 0) 0 \<lparr>eb_mem = [], eb_len = 0\<rparr> (sample_object (Str [7, 8])) (sample_object (Str [])) =
      Inr (length (visit_wire (sample_object (Str [7, 8]))), res) \<and>
      visit_result (sample_object (Str [7, 8])) = res) \<and>
    marshal_copy (\<lambda>_. 0) 0 \<lparr>eb_mem = [], eb_len = 0\<rparr> (Done 0) (sample_object (Str [])) = Inl Assert_failed"
  by (rule marshal_copy_correct [OF sample_mirrors]) (simp_all add: sample_object_def be32_def)

end
