(* ===== verification/Timers.thy ===== *)
theory Timers
  imports Prelude
begin

text \<open>
  thread/Timer.h and thread/Timer.cc: the timer system. Timers are objects with an identity,
  kept in a store; the priority queue is the list of the pending ones in the order of
  \<open>TimerCompare\<close>. The clock is a sequence of readings, and \<open>ts_clock\<close> counts the readings
  taken. What a timer's virtual \<open>timeout\<close> does to the timer system is a function of the
  firings so far: the calls it makes, in order. The system lock is recursive and held
  throughout, so each call is one step. Signal handlers are only recorded as called; the
  notifier that wakes the timer thread has no state here.
\<close>

section \<open>Times\<close>

type_synonym timeval = "int \<times> int"

definition tv_lt :: "timeval \<Rightarrow> timeval \<Rightarrow> bool" where
  "tv_lt a b \<longleftrightarrow> fst a < fst b \<or> fst a = fst b \<and> snd a < snd b"

definition tv_gt :: "timeval \<Rightarrow> timeval \<Rightarrow> bool" where
  "tv_gt a b \<longleftrightarrow> fst a > fst b \<or> fst a = fst b \<and> snd a > snd b"

text \<open>C division and remainder of signed integers, which truncate, for a positive divisor.\<close>

definition c_div :: "int \<Rightarrow> int \<Rightarrow> int" where
  "c_div a b = (if 0 \<le> a then a div b else - ((- a) div b))"

definition c_mod :: "int \<Rightarrow> int \<Rightarrow> int" where
  "c_mod a b = a - c_div a b * b"

text \<open>Conversion to a 32-bit \<open>int\<close>.\<close>

definition to_int32 :: "int \<Rightarrow> int" where
  "to_int32 x = (x + 2 ^ 31) mod 2 ^ 32 - 2 ^ 31"

definition tv_diff_msec :: "timeval \<Rightarrow> timeval \<Rightarrow> int" where
  "tv_diff_msec a b = ((fst a - fst b) * 1000 + c_div (snd a - snd b) 1000) mod 2 ^ 64"

section \<open>State\<close>

record timer =
  tm_when :: timeval
  tm_pending :: bool
  tm_cancelled :: bool
  tm_delete :: bool
  tm_seqno :: u32
  tm_alive :: bool

record timer_system =
  ts_timers :: "nat \<Rightarrow> timer"
  ts_queue :: "nat list"
  ts_seqno :: u32
  ts_ncancelled :: nat
  ts_clock :: nat
  ts_handlers :: "nat \<Rightarrow> bool"
  ts_signals :: "nat \<Rightarrow> bool"
  ts_sigfired :: bool
  ts_fired :: "(nat \<times> timeval) list"
  ts_handled :: "nat list"

definition timer_none :: timer where
  "timer_none = \<lparr>tm_when = (0, 0), tm_pending = False, tm_cancelled = False, tm_delete = False,
     tm_seqno = 0, tm_alive = False\<rparr>"

definition ts_init :: timer_system where
  "ts_init = \<lparr>ts_timers = \<lambda>_. timer_none, ts_queue = [], ts_seqno = 0, ts_ncancelled = 0, ts_clock = 0,
     ts_handlers = \<lambda>_. False, ts_signals = \<lambda>_. False, ts_sigfired = False, ts_fired = [], ts_handled = []\<rparr>"

definition tm_after :: "timer \<Rightarrow> timer \<Rightarrow> bool" where
  "tm_after a b =
     (if tv_gt (tm_when a) (tm_when b) then True
      else if tv_lt (tm_when a) (tm_when b) then False
      else tm_seqno b < tm_seqno a)"

fun tq_push :: "(nat \<Rightarrow> timer) \<Rightarrow> nat \<Rightarrow> nat list \<Rightarrow> nat list" where
  "tq_push T x [] = [x]"
| "tq_push T x (y # ys) = (if tm_after (T y) (T x) then x # y # ys else y # tq_push T x ys)"

definition upd_timer :: "nat \<Rightarrow> (timer \<Rightarrow> timer) \<Rightarrow> timer_system \<Rightarrow> timer_system" where
  "upd_timer i f s = s\<lparr>ts_timers := (ts_timers s)(i := f (ts_timers s i))\<rparr>"

section \<open>Calls\<close>

text \<open>Using a timer that is not there (any more) is undefined.\<close>

definition timer_at :: "timer_system \<Rightarrow> nat \<Rightarrow> timer run" where
  "timer_at s i = (if tm_alive (ts_timers s i) then Inr (ts_timers s i) else Inl Undefined)"

definition timer_create :: "nat \<Rightarrow> bool \<Rightarrow> timer_system \<Rightarrow> timer_system run" where
  "timer_create i del s =
     (if tm_alive (ts_timers s i) then Inl Undefined
      else Inr (upd_timer i (\<lambda>_. \<lparr>tm_when = (0, 0), tm_pending = False, tm_cancelled = False, tm_delete = del,
        tm_seqno = 0, tm_alive = True\<rparr>) s))"

definition timer_delete :: "nat \<Rightarrow> timer_system \<Rightarrow> timer_system run" where
  "timer_delete i s = bind_run (timer_at s i) (\<lambda>t.
     bind_run (assert_run (\<not> tm_pending t)) (\<lambda>_. Inr (upd_timer i (\<lambda>t. t\<lparr>tm_alive := False\<rparr>) s)))"

definition schedule_at :: "(nat \<Rightarrow> timeval) \<Rightarrow> timeval option \<Rightarrow> nat \<Rightarrow> timer_system \<Rightarrow> timer_system run" where
  "schedule_at gettimeofday when i s = bind_run (timer_at s i) (\<lambda>t.
     let w = (case when of None \<Rightarrow> gettimeofday (ts_clock s) | Some w \<Rightarrow> w)
     in if tm_pending t then Inl Panicked
        else (let T = (ts_timers s)(i := t\<lparr>tm_when := w, tm_pending := True, tm_cancelled := False,
                tm_seqno := ts_seqno s\<rparr>)
              in Inr (s\<lparr>ts_clock := Suc (ts_clock s), ts_timers := T, ts_seqno := ts_seqno s + 1,
                   ts_queue := tq_push T i (ts_queue s)\<rparr>)))"

function carry_usec :: "timeval \<Rightarrow> timeval" where
  "carry_usec (sec, usec) = (if 1000000 < usec then carry_usec (sec + 1, usec - 1000000) else (sec, usec))"
  by pat_completeness auto
termination
  by (relation "measure (\<lambda>(sec, usec). nat usec)") auto

declare carry_usec.simps [simp del]

definition schedule_in :: "(nat \<Rightarrow> timeval) \<Rightarrow> int \<Rightarrow> nat \<Rightarrow> timer_system \<Rightarrow> timer_system run" where
  "schedule_in gettimeofday milliseconds i s =
     (let now = gettimeofday (ts_clock s);
          when = carry_usec (fst now + c_div milliseconds 1000, snd now + c_mod milliseconds 1000 * 1000)
      in schedule_at gettimeofday (Some when) i (s\<lparr>ts_clock := Suc (ts_clock s)\<rparr>))"

definition schedule_immediate :: "(nat \<Rightarrow> timeval) \<Rightarrow> nat \<Rightarrow> timer_system \<Rightarrow> timer_system run" where
  "schedule_immediate gettimeofday i s = schedule_at gettimeofday None i s"

definition timer_cancel :: "nat \<Rightarrow> timer_system \<Rightarrow> (bool \<times> timer_system) run" where
  "timer_cancel i s = bind_run (timer_at s i) (\<lambda>t.
     Inr (if tm_pending t
          then (True, upd_timer i (\<lambda>t. t\<lparr>tm_cancelled := True\<rparr>) (s\<lparr>ts_ncancelled := ts_ncancelled s + 1\<rparr>))
          else (False, s)))"

definition num_pending_timers :: "timer_system \<Rightarrow> u64" where
  "num_pending_timers s = of_nat (length (ts_queue s)) - of_nat (ts_ncancelled s)"

definition nsig :: nat where
  "nsig = 65"

definition post_signal :: "nat \<Rightarrow> timer_system \<Rightarrow> timer_system run" where
  "post_signal sig s =
     (if sig < nsig then Inr (s\<lparr>ts_sigfired := True, ts_signals := (ts_signals s)(sig := True)\<rparr>)
      else Inl Undefined)"

definition add_sighandler :: "nat \<Rightarrow> bool \<Rightarrow> timer_system \<Rightarrow> timer_system run" where
  "add_sighandler sig handler s =
     (if sig < nsig then Inr (s\<lparr>ts_handlers := (ts_handlers s)(sig := handler)\<rparr>) else Inl Undefined)"

text \<open>The loop over the signals from \<open>i\<close> on; calling a null handler is undefined.\<close>

fun signal_loop :: "nat list \<Rightarrow> timer_system \<Rightarrow> timer_system run" where
  "signal_loop [] s = Inr s"
| "signal_loop (i # is) s =
     (if ts_signals s i then
        (if ts_handlers s i
         then signal_loop is (s\<lparr>ts_handled := i # ts_handled s, ts_signals := (ts_signals s)(i := False)\<rparr>)
         else Inl Undefined)
      else signal_loop is s)"

definition handle_signals :: "timer_system \<Rightarrow> timer_system run" where
  "handle_signals s =
     (if ts_sigfired s then signal_loop [0..<nsig] (s\<lparr>ts_sigfired := False\<rparr>) else Inr s)"

datatype timer_call = Create nat bool | Delete nat | Schedule_at "timeval option" nat | Schedule_in int nat
  | Cancel nat

fun timer_exec :: "(nat \<Rightarrow> timeval) \<Rightarrow> timer_system \<Rightarrow> timer_call \<Rightarrow> timer_system run" where
  "timer_exec gettimeofday s (Create i del) = timer_create i del s"
| "timer_exec gettimeofday s (Delete i) = timer_delete i s"
| "timer_exec gettimeofday s (Schedule_at when i) = schedule_at gettimeofday when i s"
| "timer_exec gettimeofday s (Schedule_in ms i) = schedule_in gettimeofday ms i s"
| "timer_exec gettimeofday s (Cancel i) = map_sum id snd (timer_cancel i s)"

fun timer_calls :: "(nat \<Rightarrow> timeval) \<Rightarrow> timer_call list \<Rightarrow> timer_system \<Rightarrow> timer_system run" where
  "timer_calls gettimeofday [] s = Inr s"
| "timer_calls gettimeofday (c # cs) s =
     bind_run (timer_exec gettimeofday s c) (\<lambda>s1. timer_calls gettimeofday cs s1)"

section \<open>Running timers\<close>

type_synonym callback = "(nat \<times> timeval) list \<Rightarrow> timer_call list"

definition pop_timer :: "(nat \<Rightarrow> timeval) \<Rightarrow> callback \<Rightarrow> timeval \<Rightarrow> timer_system \<Rightarrow> timer_system run" where
  "pop_timer gettimeofday timeout now s = (case ts_queue s of
      [] \<Rightarrow> Inl Undefined
    | i # q \<Rightarrow> bind_run (timer_at s i) (\<lambda>t.
        bind_run (assert_run (tm_pending t)) (\<lambda>_.
        let s1 = upd_timer i (\<lambda>t. t\<lparr>tm_pending := False\<rparr>) (s\<lparr>ts_queue := q\<rparr>)
        in if \<not> tm_cancelled t then
             (let s2 = s1\<lparr>ts_fired := (i, now) # ts_fired s1\<rparr>
              in timer_calls gettimeofday (timeout (ts_fired s2)) s2)
           else
             (let s2 = upd_timer i (\<lambda>t. t\<lparr>tm_cancelled := False\<rparr>) s1
              in bind_run (assert_run (0 < ts_ncancelled s2)) (\<lambda>_.
                 let s3 = s2\<lparr>ts_ncancelled := ts_ncancelled s2 - 1\<rparr>
                 in if tm_delete t then timer_delete i s3 else Inr s3)))))"

text \<open>One round of the loop of \<open>run_expired_timers\<close>: it returns a value, or goes on.\<close>

datatype round = Return int timer_system | Again timer_system

definition timer_round :: "(nat \<Rightarrow> timeval) \<Rightarrow> callback \<Rightarrow> timer_system \<Rightarrow> round run" where
  "timer_round gettimeofday timeout s = (case ts_queue s of
      [] \<Rightarrow> Inr (Return (- 1) s)
    | i # q \<Rightarrow>
        (let now = gettimeofday (ts_clock s); s1 = s\<lparr>ts_clock := Suc (ts_clock s)\<rparr>
         in bind_run (timer_at s1 i) (\<lambda>t.
            if tm_cancelled t then
              bind_run (pop_timer gettimeofday timeout now s1) (\<lambda>s2. Inr (Again s2))
            else if tv_lt now (tm_when t) then
              (let diff_ms = (if fst (tm_when t) - fst now < c_div (2 ^ 31 - 1) 1000
                     then to_int32 (tv_diff_msec (tm_when t) now) else 2 ^ 31 - 1)
               in bind_run (assert_run (0 \<le> diff_ms)) (\<lambda>_.
                  if diff_ms = 0
                  then bind_run (pop_timer gettimeofday timeout (tm_when t) s1) (\<lambda>s2. Inr (Again s2))
                  else Inr (Return diff_ms s1)))
            else bind_run (pop_timer gettimeofday timeout now s1) (\<lambda>s2. Inr (Again s2)))))"

text \<open>A timer that reschedules itself at once may keep the loop going for ever.\<close>

partial_function (option) timer_loop ::
    "(nat \<Rightarrow> timeval) \<Rightarrow> callback \<Rightarrow> timer_system \<Rightarrow> (int \<times> timer_system) run option" where
  "timer_loop gettimeofday timeout s = (case timer_round gettimeofday timeout s of
      Inl e \<Rightarrow> Some (Inl e)
    | Inr r \<Rightarrow> (case r of
          Return ms s1 \<Rightarrow> Some (Inr (ms, s1))
        | Again s1 \<Rightarrow> timer_loop gettimeofday timeout s1))"

definition run_expired_timers :: "(nat \<Rightarrow> timeval) \<Rightarrow> callback \<Rightarrow> timer_system \<Rightarrow>
    (int \<times> timer_system) run option" where
  "run_expired_timers gettimeofday timeout s = (case handle_signals s of
      Inl e \<Rightarrow> Some (Inl e)
    | Inr s1 \<Rightarrow> timer_loop gettimeofday timeout s1)"


section \<open>The invariant\<close>

definition usec_ok :: "timeval \<Rightarrow> bool" where
  "usec_ok w \<longleftrightarrow> 0 \<le> snd w \<and> snd w \<le> 1000000"

definition clock_ok :: "(nat \<Rightarrow> timeval) \<Rightarrow> bool" where
  "clock_ok gettimeofday \<longleftrightarrow> (\<forall>k. 0 \<le> snd (gettimeofday k) \<and> snd (gettimeofday k) < 1000000)"

definition timers_ok :: "(nat \<Rightarrow> timer) \<Rightarrow> nat list \<Rightarrow> nat \<Rightarrow> bool" where
  "timers_ok T q n \<longleftrightarrow> distinct q \<and> (\<forall>i. i \<in> set q \<longleftrightarrow> tm_pending (T i)) \<and>
     (\<forall>i. tm_pending (T i) \<longrightarrow> tm_alive (T i) \<and> usec_ok (tm_when (T i))) \<and>
     (\<forall>i. tm_cancelled (T i) \<longrightarrow> tm_pending (T i)) \<and>
     sorted_wrt (\<lambda>i j. \<not> tm_after (T i) (T j)) q \<and>
     length (filter (\<lambda>i. tm_cancelled (T i)) q) \<le> n"

definition tm_inv :: "timer_system \<Rightarrow> bool" where
  "tm_inv s \<longleftrightarrow> timers_ok (ts_timers s) (ts_queue s) (ts_ncancelled s)"

named_theorems timer_simps \<open>unfolding of the timer operations\<close>

lemmas [timer_simps] = tm_inv_def upd_timer_def timer_at_def

lemma not_after_trans: "\<not> tm_after a b \<Longrightarrow> \<not> tm_after b c \<Longrightarrow> \<not> tm_after a c"
  unfolding tm_after_def tv_gt_def tv_lt_def by (auto split: if_splits)

lemma not_after_total: "tm_after a b \<Longrightarrow> \<not> tm_after b a"
  unfolding tm_after_def tv_gt_def tv_lt_def by (auto split: if_splits)

lemma set_tq_push [simp]: "set (tq_push T x q) = insert x (set q)"
  by (induction q) auto

lemma distinct_tq_push [simp]: "distinct (tq_push T x q) \<longleftrightarrow> x \<notin> set q \<and> distinct q"
  by (induction q) auto

lemma length_tq_push [simp]: "length (tq_push T x q) = Suc (length q)"
  by (induction q) auto

lemma filter_tq_push: "\<not> P x \<Longrightarrow> filter P (tq_push T x q) = filter P q"
  by (induction q) auto

lemma sorted_tq_push:
  "sorted_wrt (\<lambda>i j. \<not> tm_after (T i) (T j)) q \<Longrightarrow>
    sorted_wrt (\<lambda>i j. \<not> tm_after (T i) (T j)) (tq_push T x q)"
proof (induction q)
  case (Cons y q)
  show ?case
  proof (cases "tm_after (T y) (T x)")
    case True
    then have "\<not> tm_after (T x) (T y)" by (rule not_after_total)
    with True Cons.prems show ?thesis using not_after_trans [of "T x" "T y"] by auto
  next
    case False
    with Cons show ?thesis by auto
  qed
qed simp

lemma sorted_upd:
  "\<lbrakk>sorted_wrt (\<lambda>i j. \<not> tm_after (T i) (T j)) q; \<And>i. i \<in> set q \<Longrightarrow> tm_when (T' i) = tm_when (T i) \<and> tm_seqno (T' i) = tm_seqno (T i)\<rbrakk> \<Longrightarrow>
    sorted_wrt (\<lambda>i j. \<not> tm_after (T' i) (T' j)) q"
  by (induction q) (auto simp: tm_after_def)

lemma timers_okI:
  assumes "distinct q" "\<And>i. i \<in> set q \<longleftrightarrow> tm_pending (T i)"
    "\<And>i. tm_pending (T i) \<Longrightarrow> tm_alive (T i) \<and> usec_ok (tm_when (T i))"
    "\<And>i. tm_cancelled (T i) \<Longrightarrow> tm_pending (T i)"
    "sorted_wrt (\<lambda>i j. \<not> tm_after (T i) (T j)) q"
    "length (filter (\<lambda>i. tm_cancelled (T i)) q) \<le> n"
  shows "timers_ok T q n"
  unfolding timers_ok_def using assms by blast

lemma timers_okD:
  assumes "timers_ok T q n"
  shows "distinct q" "i \<in> set q \<Longrightarrow> tm_pending (T i)" "tm_pending (T i) \<Longrightarrow> i \<in> set q"
    "tm_pending (T i) \<Longrightarrow> tm_alive (T i)" "tm_pending (T i) \<Longrightarrow> usec_ok (tm_when (T i))"
    "tm_cancelled (T i) \<Longrightarrow> tm_pending (T i)"
    "sorted_wrt (\<lambda>i j. \<not> tm_after (T i) (T j)) q"
    "length (filter (\<lambda>i. tm_cancelled (T i)) q) \<le> n"
  using assms unfolding timers_ok_def by blast+

text \<open>Changing a timer that is not pending, so that it still is not.\<close>

lemma timers_ok_idle:
  assumes ok: "timers_ok T q n" and i: "\<not> tm_pending (T i)" and t: "\<not> tm_pending t" "\<not> tm_cancelled t"
  shows "timers_ok (T(i := t)) q n"
proof (rule timers_okI)
  note D = timers_okD [OF ok]
  have q: "i \<notin> set q" using D(2) i by blast
  show "distinct q" by (rule D(1))
  show "j \<in> set q \<longleftrightarrow> tm_pending ((T(i := t)) j)" for j using D(2,3) q t(1) by (cases "j = i") auto
  show "tm_alive ((T(i := t)) j) \<and> usec_ok (tm_when ((T(i := t)) j))" if "tm_pending ((T(i := t)) j)" for j
    using that D(4,5) [of j] t(1) by (cases "j = i") auto
  show "tm_pending ((T(i := t)) j)" if "tm_cancelled ((T(i := t)) j)" for j
    using that D(6) [of j] t by (cases "j = i") auto
  show "sorted_wrt (\<lambda>j k. \<not> tm_after ((T(i := t)) j) ((T(i := t)) k)) q"
    using q by (intro sorted_upd [OF D(7)]) auto
  have "filter (\<lambda>j. tm_cancelled ((T(i := t)) j)) q = filter (\<lambda>j. tm_cancelled (T j)) q"
    using q by (intro filter_cong) auto
  then show "length (filter (\<lambda>j. tm_cancelled ((T(i := t)) j)) q) \<le> n" using D(8) by simp
qed

lemma timers_ok_push:
  assumes ok: "timers_ok T q n" and i: "\<not> tm_pending (T i)"
    and t: "tm_alive t" "tm_pending t" "\<not> tm_cancelled t" "usec_ok (tm_when t)"
  shows "timers_ok (T(i := t)) (tq_push (T(i := t)) i q) n"
proof (rule timers_okI)
  note D = timers_okD [OF ok]
  have q: "i \<notin> set q" using D(2) i by blast
  show "distinct (tq_push (T(i := t)) i q)" using D(1) q by simp
  show "j \<in> set (tq_push (T(i := t)) i q) \<longleftrightarrow> tm_pending ((T(i := t)) j)" for j
    using D(2,3) t(2) by (cases "j = i") auto
  show "tm_alive ((T(i := t)) j) \<and> usec_ok (tm_when ((T(i := t)) j))" if "tm_pending ((T(i := t)) j)" for j
    using that D(4,5) [of j] t by (cases "j = i") auto
  show "tm_pending ((T(i := t)) j)" if "tm_cancelled ((T(i := t)) j)" for j
    using that D(6) [of j] t by (cases "j = i") auto
  show "sorted_wrt (\<lambda>j k. \<not> tm_after ((T(i := t)) j) ((T(i := t)) k)) (tq_push (T(i := t)) i q)"
    using q by (intro sorted_tq_push sorted_upd [OF D(7)]) auto
  have "filter (\<lambda>j. tm_cancelled ((T(i := t)) j)) q = filter (\<lambda>j. tm_cancelled (T j)) q"
    using q by (intro filter_cong) auto
  then show "length (filter (\<lambda>j. tm_cancelled ((T(i := t)) j)) (tq_push (T(i := t)) i q)) \<le> n"
    using D(8) t(3) by (simp add: filter_tq_push)
qed

lemma filter_upd_le:
  "distinct q \<Longrightarrow> length (filter (\<lambda>j. P ((T(i := t)) j)) q) \<le> Suc (length (filter (\<lambda>j. P (T j)) q))"
proof (induction q)
  case (Cons x q)
  show ?case
  proof (cases "x = i")
    case True
    with Cons.prems have "filter (\<lambda>j. P ((T(i := t)) j)) q = filter (\<lambda>j. P (T j)) q"
      by (intro filter_cong) auto
    with True show ?thesis by simp
  next
    case False
    with Cons show ?thesis by simp
  qed
qed simp

lemma timers_ok_cancel:
  assumes ok: "timers_ok T q n" and i: "tm_pending (T i)"
  shows "timers_ok (T(i := (T i)\<lparr>tm_cancelled := True\<rparr>)) q (n + 1)"
proof (rule timers_okI)
  note D = timers_okD [OF ok]
  let ?T = "T(i := (T i)\<lparr>tm_cancelled := True\<rparr>)"
  have p: "tm_pending (?T j) = tm_pending (T j)" for j by simp
  show "distinct q" by (rule D(1))
  show "j \<in> set q \<longleftrightarrow> tm_pending (?T j)" for j unfolding p using D(2,3) by blast
  show "tm_alive (?T j) \<and> usec_ok (tm_when (?T j))" if "tm_pending (?T j)" for j
    using that D(4,5) [of j] by (cases "j = i") auto
  show "tm_pending (?T j)" if "tm_cancelled (?T j)" for j
    using that D(6) [of j] i by (cases "j = i") auto
  show "sorted_wrt (\<lambda>j k. \<not> tm_after (?T j) (?T k)) q"
    by (intro sorted_upd [OF D(7)]) auto
  show "length (filter (\<lambda>j. tm_cancelled (?T j)) q) \<le> n + 1"
    using D(8) filter_upd_le [OF D(1), of tm_cancelled T i "(T i)\<lparr>tm_cancelled := True\<rparr>"] by linarith
qed

text \<open>Taking the first timer off the queue.\<close>

lemma timers_ok_pop:
  assumes ok: "timers_ok T (i # q) n" and t: "\<not> tm_pending t" "\<not> tm_cancelled t"
  shows "timers_ok (T(i := t)) q (if tm_cancelled (T i) then n - 1 else n)"
proof (rule timers_okI)
  note D = timers_okD [OF ok]
  have q: "i \<notin> set q" using D(1) by simp
  show "distinct q" using D(1) by simp
  show "j \<in> set q \<longleftrightarrow> tm_pending ((T(i := t)) j)" for j
    using D(2,3) [of j] q t(1) by (cases "j = i") auto
  show "tm_alive ((T(i := t)) j) \<and> usec_ok (tm_when ((T(i := t)) j))" if "tm_pending ((T(i := t)) j)" for j
    using that D(4,5) [of j] t by (cases "j = i") auto
  show "tm_pending ((T(i := t)) j)" if "tm_cancelled ((T(i := t)) j)" for j
    using that D(6) [of j] t by (cases "j = i") auto
  have "sorted_wrt (\<lambda>j k. \<not> tm_after (T j) (T k)) q" using D(7) by simp
  then show "sorted_wrt (\<lambda>j k. \<not> tm_after ((T(i := t)) j) ((T(i := t)) k)) q"
    using q by (elim sorted_upd) auto
  have "filter (\<lambda>j. tm_cancelled ((T(i := t)) j)) q = filter (\<lambda>j. tm_cancelled (T j)) q"
    using q by (intro filter_cong) auto
  then show "length (filter (\<lambda>j. tm_cancelled ((T(i := t)) j)) q) \<le> (if tm_cancelled (T i) then n - 1 else n)"
    using D(8) by (auto split: if_splits)
qed

lemma timers_ok_head:
  assumes ok: "timers_ok T (i # q) n"
  shows "tm_alive (T i)" "tm_pending (T i)" "usec_ok (tm_when (T i))" "tm_cancelled (T i) \<Longrightarrow> 0 < n"
proof -
  note D = timers_okD [OF ok]
  show p: "tm_pending (T i)" using D(2) [of i] by simp
  show "tm_alive (T i)" "usec_ok (tm_when (T i))" using D(4,5) p by blast+
  show "0 < n" if "tm_cancelled (T i)" using D(8) that by simp
qed

section \<open>Calls keep the invariant\<close>

definition call_ok :: "timer_call \<Rightarrow> bool" where
  "call_ok c = (case c of
      Schedule_at (Some w) i \<Rightarrow> usec_ok w
    | Schedule_in ms i \<Rightarrow> 0 \<le> ms
    | _ \<Rightarrow> True)"

definition call_allowed :: "timer_system \<Rightarrow> timer_call \<Rightarrow> bool" where
  "call_allowed s c = (case c of
      Create i del \<Rightarrow> \<not> tm_alive (ts_timers s i)
    | Delete i \<Rightarrow> tm_alive (ts_timers s i) \<and> \<not> tm_pending (ts_timers s i)
    | Schedule_at w i \<Rightarrow> tm_alive (ts_timers s i) \<and> \<not> tm_pending (ts_timers s i)
    | Schedule_in ms i \<Rightarrow> tm_alive (ts_timers s i) \<and> \<not> tm_pending (ts_timers s i)
    | Cancel i \<Rightarrow> tm_alive (ts_timers s i))"

lemma carry_usec_ok: "0 \<le> snd w \<Longrightarrow> usec_ok (carry_usec w)"
proof (induction w rule: carry_usec.induct)
  case (1 sec usec)
  show ?case
  proof (cases "1000000 < usec")
    case True
    then show ?thesis using 1 by (subst carry_usec.simps) simp
  next
    case False
    then show ?thesis using 1(2) by (subst carry_usec.simps) (simp add: usec_ok_def)
  qed
qed

lemma carry_usec_total: "fst (carry_usec w) * 1000000 + snd (carry_usec w) = fst w * 1000000 + snd w"
proof (induction w rule: carry_usec.induct)
  case (1 sec usec)
  then show ?case by (cases "1000000 < usec") (simp_all add: carry_usec.simps [of sec usec] algebra_simps)
qed

lemma c_mod_nonneg: "0 \<le> a \<Longrightarrow> 0 < b \<Longrightarrow> 0 \<le> c_mod a b"
  by (simp add: c_mod_def c_div_def minus_div_mult_eq_mod)

lemma schedule_at_ok:
  assumes "tm_inv s" "clock_ok gettimeofday" "\<And>w. when = Some w \<Longrightarrow> usec_ok w"
    and "schedule_at gettimeofday when i s = Inr s'"
  shows "tm_inv s'"
proof -
  let ?w = "case when of None \<Rightarrow> gettimeofday (ts_clock s) | Some w \<Rightarrow> w"
  have w: "usec_ok ?w" using assms(2,3) by (auto simp: clock_ok_def usec_ok_def less_imp_le split: option.split)
  show ?thesis using assms(1,4) w
    by (auto simp: schedule_at_def timer_simps Let_def run_simps split: if_splits intro!: timers_ok_push)
qed

lemma timer_exec_inv:
  assumes "tm_inv s" "clock_ok gettimeofday" "call_ok c" "timer_exec gettimeofday s c = Inr s'"
  shows "tm_inv s'"
proof (cases c)
  case (Create i del)
  with assms show ?thesis
    by (auto simp: timer_create_def timer_simps split: if_splits intro!: timers_ok_idle dest: timers_okD(4))
next
  case (Delete i)
  have "\<not> tm_pending (ts_timers s i) \<Longrightarrow> \<not> tm_cancelled (ts_timers s i)"
    using timers_okD(6) assms(1) unfolding tm_inv_def by blast
  with assms Delete show ?thesis
    by (auto simp: timer_delete_def timer_simps run_simps split: if_splits intro!: timers_ok_idle)
next
  case (Schedule_at at i)
  with assms have "at = Some w \<Longrightarrow> usec_ok w" for w by (simp add: call_ok_def)
  with assms Schedule_at show ?thesis using schedule_at_ok [of s gettimeofday at i s'] by simp
next
  case (Schedule_in ms i)
  let ?now = "gettimeofday (ts_clock s)"
  have "0 \<le> snd ?now" "0 \<le> c_mod ms 1000" using assms(2,3) Schedule_in
    by (auto simp: clock_ok_def call_ok_def intro!: c_mod_nonneg)
  then have w: "usec_ok (carry_usec (fst ?now + c_div ms 1000, snd ?now + c_mod ms 1000 * 1000))" (is "usec_ok ?w")
    by (intro carry_usec_ok) simp
  have "tm_inv (s\<lparr>ts_clock := Suc (ts_clock s)\<rparr>)" using assms(1) by (simp add: tm_inv_def)
  from schedule_at_ok [OF this assms(2), of "Some ?w" i s'] show ?thesis using w assms(4) Schedule_in
    by (simp add: schedule_in_def Let_def)
next
  case (Cancel i)
  with assms show ?thesis
    using timers_ok_cancel [of "ts_timers s" "ts_queue s" "ts_ncancelled s" i]
    by (auto simp: timer_cancel_def timer_simps run_simps split: if_splits)
qed

lemma timer_exec_allowed: "(\<exists>s'. timer_exec gettimeofday s c = Inr s') \<longleftrightarrow> call_allowed s c"
  by (cases c) (auto simp: timer_create_def timer_delete_def schedule_at_def schedule_in_def timer_cancel_def
      call_allowed_def timer_at_def Let_def)

lemma timer_exec_frame:
  "timer_exec gettimeofday s c = Inr s' \<Longrightarrow> ts_fired s' = ts_fired s"
  by (cases c) (auto simp: timer_create_def timer_delete_def schedule_at_def schedule_in_def timer_cancel_def
      timer_at_def upd_timer_def Let_def run_simps split: if_splits)

lemma timer_calls_frame:
  "timer_calls gettimeofday cs s = Inr s' \<Longrightarrow> ts_fired s' = ts_fired s"
  by (induction cs arbitrary: s) (auto simp: run_simps dest: timer_exec_frame)

lemma timer_calls_inv:
  "\<lbrakk>tm_inv s; clock_ok gettimeofday; list_all call_ok cs; timer_calls gettimeofday cs s = Inr s'\<rbrakk> \<Longrightarrow> tm_inv s'"
  by (induction cs arbitrary: s) (auto simp: run_simps intro: timer_exec_inv)

lemma timer_calls_fault:
  "\<lbrakk>tm_inv s; clock_ok gettimeofday; list_all call_ok cs; timer_calls gettimeofday cs s = Inl e\<rbrakk> \<Longrightarrow>
    \<exists>pre c post s1. cs = pre @ c # post \<and> timer_calls gettimeofday pre s = Inr s1 \<and> tm_inv s1 \<and>
      \<not> call_allowed s1 c \<and> timer_exec gettimeofday s1 c = Inl e"
proof (induction cs arbitrary: s)
  case (Cons c cs)
  show ?case
  proof (cases "timer_exec gettimeofday s c")
    case (Inl d)
    have "\<not> call_allowed s c" using Inl timer_exec_allowed [of gettimeofday s c] by auto
    then show ?thesis using Inl Cons.prems
      by (intro exI [of _ "[]"] exI [of _ c] exI [of _ cs] exI [of _ s]) simp
  next
    case (Inr s2)
    have "tm_inv s2" using timer_exec_inv [OF Cons.prems(1,2) _ Inr] Cons.prems(3) by simp
    from Cons.IH [OF this Cons.prems(2)] Cons.prems(3,4) Inr obtain pre c' post s1 where
      "cs = pre @ c' # post" "timer_calls gettimeofday pre s2 = Inr s1" "tm_inv s1"
      "\<not> call_allowed s1 c'" "timer_exec gettimeofday s1 c' = Inl e" by auto
    then show ?thesis using Inr
      by (intro exI [of _ "c # pre"] exI [of _ c'] exI [of _ post] exI [of _ s1]) simp
  qed
qed simp

section \<open>Rounds\<close>

text \<open>The state in which the callback of the first timer runs, and the one that a cancelled
  timer leaves.\<close>

definition fire_head :: "nat \<Rightarrow> timeval \<Rightarrow> timer_system \<Rightarrow> timer_system" where
  "fire_head i now s = s\<lparr>ts_queue := tl (ts_queue s),
     ts_timers := (ts_timers s)(i := (ts_timers s i)\<lparr>tm_pending := False\<rparr>), ts_fired := (i, now) # ts_fired s\<rparr>"

definition drop_head :: "nat \<Rightarrow> timer_system \<Rightarrow> timer_system" where
  "drop_head i s = s\<lparr>ts_queue := tl (ts_queue s), ts_ncancelled := ts_ncancelled s - 1,
     ts_timers := (ts_timers s)(i := (let t = (ts_timers s i)\<lparr>tm_pending := False, tm_cancelled := False\<rparr>
       in if tm_delete t then t\<lparr>tm_alive := False\<rparr> else t))\<rparr>"

lemma pop_timer_cases:
  assumes "tm_inv s" "ts_queue s = i # q"
  shows "pop_timer gettimeofday timeout now s =
    (if tm_cancelled (ts_timers s i) then Inr (drop_head i s)
     else timer_calls gettimeofday (timeout ((i, now) # ts_fired s)) (fire_head i now s))"
proof -
  have "timers_ok (ts_timers s) (i # q) (ts_ncancelled s)" using assms by (simp add: tm_inv_def)
  note H = timers_ok_head [OF this]
  show ?thesis using H assms(2)
    by (auto simp: pop_timer_def timer_at_def upd_timer_def timer_delete_def Let_def drop_head_def fire_head_def)
qed

lemma drop_head_inv:
  assumes "tm_inv s" "ts_queue s = i # q" "tm_cancelled (ts_timers s i)"
  shows "tm_inv (drop_head i s)"
proof -
  have ok: "timers_ok (ts_timers s) (i # q) (ts_ncancelled s)" using assms by (simp add: tm_inv_def)
  show ?thesis using timers_ok_pop [OF ok, of "let t = (ts_timers s i)\<lparr>tm_pending := False, tm_cancelled := False\<rparr>
       in if tm_delete t then t\<lparr>tm_alive := False\<rparr> else t"] assms(2,3)
    by (simp add: tm_inv_def drop_head_def Let_def)
qed

lemma fire_head_inv:
  assumes "tm_inv s" "ts_queue s = i # q" "\<not> tm_cancelled (ts_timers s i)"
  shows "tm_inv (fire_head i now s)"
proof -
  have ok: "timers_ok (ts_timers s) (i # q) (ts_ncancelled s)" using assms by (simp add: tm_inv_def)
  show ?thesis using timers_ok_pop [OF ok, of "(ts_timers s i)\<lparr>tm_pending := False\<rparr>"] assms(2,3)
    by (simp add: tm_inv_def fire_head_def)
qed

lemma to_int32_id: "- (2 ^ 31) \<le> x \<Longrightarrow> x < 2 ^ 31 \<Longrightarrow> to_int32 (x mod 2 ^ 64) = x"
proof -
  assume x: "- (2 ^ 31) \<le> x" "x < 2 ^ 31"
  have "(x mod 2 ^ 64 + 2 ^ 31) mod 2 ^ 32 = (x mod 2 ^ 64 mod 2 ^ 32 + 2 ^ 31) mod 2 ^ 32"
    by (simp add: mod_add_left_eq)
  also have "x mod 2 ^ 64 mod 2 ^ 32 = x mod 2 ^ 32"
    by (rule mod_mod_cancel) simp
  also have "(x mod 2 ^ 32 + 2 ^ 31) mod 2 ^ 32 = (x + 2 ^ 31) mod (2 ^ 32 :: int)"
    by (simp add: mod_add_left_eq)
  also have "\<dots> = x + 2 ^ 31" using x by (intro mod_pos_pos_trivial) auto
  finally show ?thesis by (simp add: to_int32_def)
qed

text \<open>The milliseconds that are left until a timer is due.\<close>

definition ms_left :: "timeval \<Rightarrow> timeval \<Rightarrow> int" where
  "ms_left w now = (fst w - fst now) * 1000 + c_div (snd w - snd now) 1000"

lemma c_div_bounds:
  "0 \<le> x \<Longrightarrow> x \<le> 1000000 \<Longrightarrow> 0 \<le> c_div x 1000 \<and> c_div x 1000 \<le> 1000"
  "x < 0 \<Longrightarrow> - 1000000 < x \<Longrightarrow> - 1000 < c_div x 1000 \<and> c_div x 1000 \<le> 0"
  by (auto simp: c_div_def)

lemma ms_left_ok:
  assumes "tv_lt now w" "usec_ok w" "0 \<le> snd now" "snd now < 1000000" "fst w - fst now < 2147483"
  shows "0 \<le> ms_left w now" "to_int32 (tv_diff_msec w now) = ms_left w now"
proof -
  have d: "- 1000 < c_div (snd w - snd now) 1000 \<and> c_div (snd w - snd now) 1000 \<le> 1000"
    using assms(2-4) c_div_bounds [of "snd w - snd now"]
    by (cases "snd now \<le> snd w") (auto simp: usec_ok_def)
  show n: "0 \<le> ms_left w now"
  proof (cases "fst now = fst w")
    case True
    then show ?thesis using assms(1) by (auto simp: ms_left_def tv_lt_def c_div_def)
  next
    case False
    then have "1 \<le> fst w - fst now" using assms(1) by (auto simp: tv_lt_def)
    then have "1 * 1000 \<le> (fst w - fst now) * 1000" by (rule mult_right_mono) simp
    with d show ?thesis unfolding ms_left_def by linarith
  qed
  have "(fst w - fst now) * 1000 \<le> 2147482 * 1000" using assms(5) by (intro mult_right_mono) simp_all
  then have "ms_left w now < 2 ^ 31" using d unfolding ms_left_def by simp
  then show "to_int32 (tv_diff_msec w now) = ms_left w now"
    unfolding tv_diff_msec_def using n by (fold ms_left_def) (rule to_int32_id, simp_all)
qed

definition next_timeout :: "timeval \<Rightarrow> timeval \<Rightarrow> int" where
  "next_timeout w now = (if fst w - fst now < 2147483 then ms_left w now else 2 ^ 31 - 1)"

text \<open>What a round does, without its assertions: they hold.\<close>

lemma timer_round_cases:
  assumes inv: "tm_inv s" and clk: "clock_ok gettimeofday" and q: "ts_queue s = i # q"
  defines "now \<equiv> gettimeofday (ts_clock s)" and "s1 \<equiv> s\<lparr>ts_clock := Suc (ts_clock s)\<rparr>"
    and "w \<equiv> tm_when (ts_timers s i)"
  shows "timer_round gettimeofday timeout s =
    (if tm_cancelled (ts_timers s i) then Inr (Again (drop_head i s1))
     else if tv_lt now w \<and> next_timeout w now \<noteq> 0 then Inr (Return (next_timeout w now) s1)
     else (let at = if tv_lt now w then w else now
           in bind_run (timer_calls gettimeofday (timeout ((i, at) # ts_fired s)) (fire_head i at s1))
             (\<lambda>s2. Inr (Again s2))))"
proof -
  have ok: "timers_ok (ts_timers s) (i # q) (ts_ncancelled s)" using inv q by (simp add: tm_inv_def)
  have inv1: "tm_inv s1" and q1: "ts_queue s1 = i # q" using inv q by (simp_all add: s1_def tm_inv_def)
  have tm: "ts_timers s1 = ts_timers s" "ts_fired s1 = ts_fired s" by (simp_all add: s1_def)
  note pop = pop_timer_cases [OF inv1 q1, unfolded tm]
  have at: "timer_at s1 i = Inr (ts_timers s i)" using timers_ok_head(1) [OF ok] by (simp add: timer_at_def tm)
  have cd: "c_div (2 ^ 31 - 1) 1000 = 2147483" by (simp add: c_div_def)
  have now: "0 \<le> snd now" "snd now < 1000000" using clk by (auto simp: clock_ok_def now_def)
  have w: "usec_ok w" using timers_ok_head(3) [OF ok] by (simp add: w_def)
  note rd = timer_round_def q cd list.case at bind_run_Inr Let_def now_def [symmetric] s1_def [symmetric]
    w_def [symmetric]
  have d: "diff = next_timeout w now \<and> 0 \<le> diff"
    if "tv_lt now w" "diff = (if fst w - fst now < 2147483 then to_int32 (tv_diff_msec w now) else 2 ^ 31 - 1)" for diff
    using ms_left_ok [OF that(1) w now] that(2) by (auto simp: next_timeout_def)
  show ?thesis
  proof (cases "tm_cancelled (ts_timers s i)")
    case True
    then show ?thesis by (simp add: rd pop)
  next
    case False
    show ?thesis
    proof (cases "tv_lt now w")
      case True
      show ?thesis using False True d [OF True refl] by (simp only: rd if_False if_True pop assert_run_True)
          (simp add: rd pop)
    next
      case late: False
      then show ?thesis using False by (simp add: rd pop)
    qed
  qed
qed

section \<open>Runs with callbacks that make no calls\<close>

definition signals_ok :: "timer_system \<Rightarrow> bool" where
  "signals_ok s \<longleftrightarrow> (\<forall>i. ts_signals s i \<longrightarrow> ts_handlers s i)"

lemma signal_loop_ok:
  "signals_ok s \<Longrightarrow> \<exists>H G. signal_loop is s = Inr (s\<lparr>ts_signals := G, ts_handled := H\<rparr>)"
proof (induction "is" arbitrary: s)
  case Nil
  show ?case by (intro exI [of _ "ts_handled s"] exI [of _ "ts_signals s"]) simp
next
  case (Cons i "is")
  show ?case
  proof (cases "ts_signals s i")
    case True
    let ?s = "s\<lparr>ts_handled := i # ts_handled s, ts_signals := (ts_signals s)(i := False)\<rparr>"
    have h: "ts_handlers s i" using True Cons.prems by (simp add: signals_ok_def)
    have "signals_ok ?s" using Cons.prems by (simp add: signals_ok_def)
    from Cons.IH [OF this] obtain H G where "signal_loop is ?s = Inr (?s\<lparr>ts_signals := G, ts_handled := H\<rparr>)" by blast
    with True h show ?thesis by auto
  next
    case False
    with Cons show ?thesis by simp
  qed
qed

lemma handle_signals_ok:
  "signals_ok s \<Longrightarrow> \<exists>H G F. handle_signals s = Inr (s\<lparr>ts_signals := G, ts_handled := H, ts_sigfired := F\<rparr>)"
proof (cases "ts_sigfired s")
  case True
  assume "signals_ok s"
  then have "signals_ok (s\<lparr>ts_sigfired := False\<rparr>)" by (simp add: signals_ok_def)
  from signal_loop_ok [OF this, of "[0..<nsig]"] obtain H G where
    "signal_loop [0..<nsig] (s\<lparr>ts_sigfired := False\<rparr>) = Inr (s\<lparr>ts_sigfired := False, ts_signals := G, ts_handled := H\<rparr>)"
    by blast
  with True have "handle_signals s = Inr (s\<lparr>ts_signals := G, ts_handled := H, ts_sigfired := False\<rparr>)"
    by (simp add: handle_signals_def)
  then show ?thesis by blast
next
  case False
  then show ?thesis
    by (intro exI [of _ "ts_handled s"] exI [of _ "ts_signals s"] exI [of _ False]) (simp add: handle_signals_def)
qed

text \<open>What a run did: it took \<open>pre\<close> off the queue and fired the ones that were not cancelled.\<close>

definition quiet_run :: "nat list \<Rightarrow> timer_system \<Rightarrow> timer_system \<Rightarrow> bool" where
  "quiet_run pre s s' \<longleftrightarrow> ts_queue s = pre @ ts_queue s' \<and>
     map fst (ts_fired s') = rev (filter (\<lambda>i. \<not> tm_cancelled (ts_timers s i)) pre) @ map fst (ts_fired s) \<and>
     (\<forall>i\<in>set (ts_queue s'). ts_timers s' i = ts_timers s i)"

definition quiet_result :: "(nat \<Rightarrow> timeval) \<Rightarrow> int \<Rightarrow> timer_system \<Rightarrow> bool" where
  "quiet_result gettimeofday ms s' = (case ts_queue s' of
      [] \<Rightarrow> ms = - 1
    | i # q \<Rightarrow> \<not> tm_cancelled (ts_timers s' i) \<and>
        (let now = gettimeofday (ts_clock s' - 1)
         in tv_lt now (tm_when (ts_timers s' i)) \<and> ms = next_timeout (tm_when (ts_timers s' i)) now \<and> 0 < ms))"

lemma quiet_run_refl: "quiet_run [] s (s\<lparr>ts_clock := k\<rparr>)"
  by (simp add: quiet_run_def)

lemma quiet_step:
  assumes "tm_inv s" "ts_queue s = i # q" "quiet_run pre s2 s'"
    and "s2 = (if tm_cancelled (ts_timers s i) then drop_head i (s\<lparr>ts_clock := k\<rparr>)
                else fire_head i at (s\<lparr>ts_clock := k\<rparr>))"
  shows "quiet_run (i # pre) s s'"
proof -
  have iq: "i \<notin> set q" using assms(1,2) by (auto simp: tm_inv_def dest!: timers_okD(1))
  have q2: "ts_queue s2 = q" "\<And>j. j \<in> set q \<Longrightarrow> ts_timers s2 j = ts_timers s j"
    "map fst (ts_fired s2) = (if tm_cancelled (ts_timers s i) then [] else [i]) @ map fst (ts_fired s)"
    using assms(2,4) iq by (auto simp: drop_head_def fire_head_def)
  have pre: "q = pre @ ts_queue s'" using assms(3) q2 by (simp add: quiet_run_def)
  have "filter (\<lambda>j. \<not> tm_cancelled (ts_timers s2 j)) pre = filter (\<lambda>j. \<not> tm_cancelled (ts_timers s j)) pre"
    using q2(2) pre by (intro filter_cong) auto
  then show ?thesis using assms(2,3) q2 pre by (simp add: quiet_run_def)
qed

lemma quiet_loop:
  assumes "tm_inv s" "clock_ok gettimeofday"
  shows "\<exists>ms s' pre. timer_loop gettimeofday (\<lambda>_. []) s = Some (Inr (ms, s')) \<and> tm_inv s' \<and>
    quiet_run pre s s' \<and> quiet_result gettimeofday ms s'"
  using assms(1)
proof (induction "ts_queue s" arbitrary: s)
  case Nil
  then have "timer_loop gettimeofday (\<lambda>_. []) s = Some (Inr (- 1, s))"
    by (subst timer_loop.simps) (simp add: timer_round_def flip: Nil.hyps)
  then show ?case using Nil quiet_run_refl [of s "ts_clock s"] by (auto simp: quiet_result_def)
next
  case (Cons i q)
  let ?now = "gettimeofday (ts_clock s)" and ?w = "tm_when (ts_timers s i)"
  note q = Cons.hyps(2) [symmetric]
  note rd = timer_round_cases [OF Cons.prems assms(2) q, of "\<lambda>_. []"]
  have inv1: "tm_inv (s\<lparr>ts_clock := k\<rparr>)" for k using Cons.prems by (simp add: tm_inv_def)
  have go: ?case if r: "timer_round gettimeofday (\<lambda>_. []) s = Inr (Again s2)" and i2: "tm_inv s2"
    and s2: "s2 = (if tm_cancelled (ts_timers s i) then drop_head i (s\<lparr>ts_clock := Suc (ts_clock s)\<rparr>)
                else fire_head i at (s\<lparr>ts_clock := Suc (ts_clock s)\<rparr>))" for s2 at
  proof -
    have "q = ts_queue s2" using s2 q by (simp add: drop_head_def fire_head_def)
    from Cons.hyps(1) [OF this i2] obtain ms s' pre where
      *: "timer_loop gettimeofday (\<lambda>_. []) s2 = Some (Inr (ms, s'))" "tm_inv s'" "quiet_run pre s2 s'"
         "quiet_result gettimeofday ms s'" by blast
    have "timer_loop gettimeofday (\<lambda>_. []) s = Some (Inr (ms, s'))"
      using * r by (subst timer_loop.simps) simp
    then show ?case using * quiet_step [OF Cons.prems q *(3) s2] by blast
  qed
  show ?case
  proof (cases "tm_cancelled (ts_timers s i)")
    case True
    show ?thesis using True rd drop_head_inv [OF inv1, of _ i q] q by (intro go) simp_all
  next
    case False
    show ?thesis
    proof (cases "tv_lt ?now ?w \<and> next_timeout ?w ?now \<noteq> 0")
      case True
      let ?s = "s\<lparr>ts_clock := Suc (ts_clock s)\<rparr>"
      have "timers_ok (ts_timers s) (i # q) (ts_ncancelled s)" using Cons.prems q by (simp add: tm_inv_def)
      then have "0 \<le> next_timeout ?w ?now"
        using ms_left_ok(1) [of ?now ?w] timers_ok_head(3) [of "ts_timers s" i q] True assms(2)
        by (auto simp: next_timeout_def clock_ok_def)
      then have "quiet_result gettimeofday (next_timeout ?w ?now) ?s"
        using True False q by (simp add: quiet_result_def)
      moreover have "timer_loop gettimeofday (\<lambda>_. []) s = Some (Inr (next_timeout ?w ?now, ?s))"
        using True False rd by (subst timer_loop.simps) simp
      ultimately show ?thesis using inv1 quiet_run_refl by blast
    next
      case due: False
      let ?at = "if tv_lt ?now ?w then ?w else ?now"
      show ?thesis
      proof (rule go)
        show "timer_round gettimeofday (\<lambda>_. []) s = Inr (Again (fire_head i ?at (s\<lparr>ts_clock := Suc (ts_clock s)\<rparr>)))"
          using rd False due by (auto simp: Let_def)
        show "tm_inv (fire_head i ?at (s\<lparr>ts_clock := Suc (ts_clock s)\<rparr>))"
          using False q by (intro fire_head_inv [OF inv1, of _ i q]) simp_all
      qed (use False in simp)
    qed
  qed
qed

text \<open>Callbacks that schedule nothing: each round shortens the queue.\<close>

definition no_schedule :: "timer_call \<Rightarrow> bool" where
  "no_schedule c = (case c of Schedule_at w i \<Rightarrow> False | Schedule_in ms i \<Rightarrow> False | _ \<Rightarrow> True)"

lemma no_schedule_calls:
  "list_all no_schedule cs \<Longrightarrow> timer_calls gettimeofday cs s = Inr s' \<Longrightarrow> ts_queue s' = ts_queue s"
proof (induction cs arbitrary: s)
  case (Cons c cs)
  have "no_schedule c \<Longrightarrow> timer_exec gettimeofday s c = Inr s1 \<Longrightarrow> ts_queue s1 = ts_queue s" for s1
    by (cases c) (auto simp: no_schedule_def timer_create_def timer_delete_def timer_cancel_def timer_at_def
        upd_timer_def run_simps split: if_splits)
  with Cons show ?case by (auto simp: run_simps)
qed simp

lemma timer_round_inv:
  assumes "tm_inv s" "clock_ok gettimeofday" "\<And>f. list_all call_ok (timeout f)"
    and "timer_round gettimeofday timeout s = Inr (Again s')"
  shows "tm_inv s'"
proof (cases "ts_queue s")
  case Nil
  with assms(4) show ?thesis by (simp add: timer_round_def)
next
  case (Cons i q)
  let ?s = "s\<lparr>ts_clock := Suc (ts_clock s)\<rparr>"
  have i1: "tm_inv ?s" using assms(1) by (simp add: tm_inv_def)
  have q1: "ts_queue ?s = i # q" using Cons by simp
  note rd = timer_round_cases [OF assms(1,2) Cons, of timeout]
  show ?thesis
  proof (cases "tm_cancelled (ts_timers s i)")
    case True
    then show ?thesis using rd assms(4) drop_head_inv [OF i1 q1] by simp
  next
    case False
    then obtain at where "timer_calls gettimeofday (timeout ((i, at) # ts_fired s)) (fire_head i at ?s) = Inr s'"
      using assms(4) [unfolded rd Let_def] by (auto simp: bind_run_eq_Inr split: if_split_asm)
    moreover have "tm_inv (fire_head i at ?s)" using False by (intro fire_head_inv [OF i1 q1]) simp
    ultimately show ?thesis using timer_calls_inv assms(2,3) by blast
  qed
qed

lemma timer_round_return:
  assumes "tm_inv s" "clock_ok gettimeofday" "timer_round gettimeofday timeout s = Inr (Return ms s')"
  shows "tm_inv s' \<and> quiet_result gettimeofday ms s'"
proof (cases "ts_queue s")
  case Nil
  with assms(1,3) show ?thesis by (auto simp: timer_round_def quiet_result_def)
next
  case (Cons i q)
  let ?now = "gettimeofday (ts_clock s)" and ?w = "tm_when (ts_timers s i)"
  note rd = timer_round_cases [OF assms(1,2) Cons, of timeout]
  have r: "\<not> tm_cancelled (ts_timers s i)" "tv_lt ?now ?w" "next_timeout ?w ?now \<noteq> 0"
    "ms = next_timeout ?w ?now" "s' = s\<lparr>ts_clock := Suc (ts_clock s)\<rparr>"
    using assms(3) [unfolded rd Let_def] by (auto simp: bind_run_eq_Inr split: if_split_asm)
  have "timers_ok (ts_timers s) (i # q) (ts_ncancelled s)" using assms(1) Cons by (simp add: tm_inv_def)
  then have "0 \<le> next_timeout ?w ?now"
    using ms_left_ok(1) [of ?now ?w] timers_ok_head(3) [of "ts_timers s" i q] r(2) assms(2)
    by (auto simp: next_timeout_def clock_ok_def)
  then show ?thesis using r Cons assms(1) by (simp add: quiet_result_def tm_inv_def)
qed

lemma timer_round_shrinks:
  assumes "tm_inv s" "clock_ok gettimeofday" "\<And>f. list_all no_schedule (timeout f)"
    and "timer_round gettimeofday timeout s = Inr (Again s')"
  shows "length (ts_queue s) = Suc (length (ts_queue s'))"
proof (cases "ts_queue s")
  case Nil
  with assms(4) show ?thesis by (simp add: timer_round_def)
next
  case (Cons i q)
  note rd = timer_round_cases [OF assms(1,2) Cons, of timeout]
  show ?thesis using assms(4) [unfolded rd Let_def] Cons
    by (auto simp: bind_run_eq_Inr drop_head_def fire_head_def dest!: no_schedule_calls [OF assms(3)]
        split: if_split_asm)
qed

text \<open>
  The timer \<open>i\<close> fires at \<open>at\<close>: not before its time, which is the time of the clock or less than a millisecond after it. A callback that
  fails made a first call that its contract forbids, in the state that the calls before it left.
\<close>

definition fires_at :: "(nat \<Rightarrow> timeval) \<Rightarrow> timer_system \<Rightarrow> nat \<Rightarrow> timeval \<Rightarrow> bool" where
  "fires_at gettimeofday s i at \<longleftrightarrow> \<not> tm_cancelled (ts_timers s i) \<and> \<not> tv_lt at (tm_when (ts_timers s i)) \<and>
     (at = gettimeofday (ts_clock s) \<or> at = tm_when (ts_timers s i) \<and> ms_left at (gettimeofday (ts_clock s)) = 0)"

definition after_pop :: "nat \<Rightarrow> timeval \<Rightarrow> timer_system \<Rightarrow> timer_system" where
  "after_pop i at s = fire_head i at (s\<lparr>ts_clock := Suc (ts_clock s)\<rparr>)"

definition callback_fails :: "(nat \<Rightarrow> timeval) \<Rightarrow> callback \<Rightarrow> timer_system \<Rightarrow> fault \<Rightarrow> bool" where
  "callback_fails gettimeofday timeout s e \<longleftrightarrow> (\<exists>i q at pre c post s1. ts_queue s = i # q \<and> fires_at gettimeofday s i at \<and>
     timeout ((i, at) # ts_fired s) = pre @ c # post \<and> timer_calls gettimeofday pre (after_pop i at s) = Inr s1 \<and>
     \<not> call_allowed s1 c \<and> timer_exec gettimeofday s1 c = Inl e)"

lemma bind_run_eq_Inl: "bind_run m f = Inl e \<longleftrightarrow> m = Inl e \<or> (\<exists>x. m = Inr x \<and> f x = Inl e)"
  by (cases m) auto

lemma timer_round_exact:
  assumes "tm_inv s" "clock_ok gettimeofday" "\<And>f. list_all call_ok (timeout f)" "ts_queue s = i # q"
  shows "tm_cancelled (ts_timers s i) \<Longrightarrow> timer_round gettimeofday timeout s = Inr (Again (drop_head i (s\<lparr>ts_clock := Suc (ts_clock s)\<rparr>)))"
    and "\<not> tm_cancelled (ts_timers s i) \<Longrightarrow> (\<exists>ms. timer_round gettimeofday timeout s = Inr (Return ms (s\<lparr>ts_clock := Suc (ts_clock s)\<rparr>))) \<or>
      (\<exists>at. fires_at gettimeofday s i at \<and> tm_inv (after_pop i at s) \<and>
        timer_round gettimeofday timeout s =
          bind_run (timer_calls gettimeofday (timeout ((i, at) # ts_fired s)) (after_pop i at s)) (\<lambda>s2. Inr (Again s2)))"
proof -
  let ?s = "s\<lparr>ts_clock := Suc (ts_clock s)\<rparr>" and ?now = "gettimeofday (ts_clock s)" and ?w = "tm_when (ts_timers s i)"
  let ?at = "if tv_lt ?now ?w then ?w else ?now"
  note rd = timer_round_cases [OF assms(1,2,4), of timeout]
  show "timer_round gettimeofday timeout s = Inr (Again (drop_head i ?s))" if "tm_cancelled (ts_timers s i)" using rd that by simp
  show "(\<exists>ms. timer_round gettimeofday timeout s = Inr (Return ms ?s)) \<or> (\<exists>at. fires_at gettimeofday s i at \<and> tm_inv (after_pop i at s) \<and>
        timer_round gettimeofday timeout s = bind_run (timer_calls gettimeofday (timeout ((i, at) # ts_fired s)) (after_pop i at s)) (\<lambda>s2. Inr (Again s2)))"
    if nc: "\<not> tm_cancelled (ts_timers s i)"
  proof (cases "tv_lt ?now ?w \<and> next_timeout ?w ?now \<noteq> 0")
    case True
    then show ?thesis using rd nc by simp
  next
    case False
    have "tm_inv ?s" using assms(1) by (simp add: tm_inv_def)
    from fire_head_inv [OF this, of i q ?at] have "tm_inv (after_pop i ?at s)" using nc assms(4) by (simp add: after_pop_def)
    moreover have "fires_at gettimeofday s i ?at"
      using False nc by (auto simp: fires_at_def tv_lt_def next_timeout_def split: if_splits)
    moreover have "timer_round gettimeofday timeout s =
        bind_run (timer_calls gettimeofday (timeout ((i, ?at) # ts_fired s)) (after_pop i ?at s)) (\<lambda>s2. Inr (Again s2))"
      using rd False nc by (auto simp: Let_def after_pop_def)
    ultimately show ?thesis by blast
  qed
qed

lemma timer_round_fails:
  assumes "tm_inv s" "clock_ok gettimeofday" "\<And>f. list_all call_ok (timeout f)" "timer_round gettimeofday timeout s = Inl e"
  shows "callback_fails gettimeofday timeout s e"
proof (cases "ts_queue s")
  case Nil
  then show ?thesis using assms(4) by (simp add: timer_round_def)
next
  case (Cons i q)
  note ex = timer_round_exact [where timeout = timeout, OF assms(1-3) Cons]
  have "\<not> tm_cancelled (ts_timers s i)" using ex(1) assms(4) by auto
  then obtain at where at: "fires_at gettimeofday s i at" "tm_inv (after_pop i at s)"
      "timer_calls gettimeofday (timeout ((i, at) # ts_fired s)) (after_pop i at s) = Inl e"
    using ex(2) assms(4) by (auto simp: bind_run_eq_Inl eq_commute [of "Inl e"])
  from timer_calls_fault [OF at(2) assms(2,3) at(3)] show ?thesis using Cons at(1) unfolding callback_fails_def by blast
qed

text \<open>The states that the rounds of a run go through.\<close>

inductive rounds :: "(nat \<Rightarrow> timeval) \<Rightarrow> callback \<Rightarrow> timer_system \<Rightarrow> timer_system \<Rightarrow> bool" for gettimeofday timeout where
  rounds_refl: "rounds gettimeofday timeout s s"
| rounds_step: "timer_round gettimeofday timeout s = Inr (Again s1) \<Longrightarrow> rounds gettimeofday timeout s1 s2 \<Longrightarrow> rounds gettimeofday timeout s s2"

lemma timer_loop_returns:
  assumes "tm_inv s" "clock_ok gettimeofday" "\<And>f. list_all call_ok (timeout f)" "\<And>f. list_all no_schedule (timeout f)"
  shows "\<exists>r. timer_loop gettimeofday timeout s = Some r \<and>
    (case r of Inr (ms, s') \<Rightarrow> tm_inv s' \<and> quiet_result gettimeofday ms s'
     | Inl e \<Rightarrow> \<exists>s1. rounds gettimeofday timeout s s1 \<and> tm_inv s1 \<and> callback_fails gettimeofday timeout s1 e)"
  using assms(1)
proof (induction "length (ts_queue s)" arbitrary: s rule: less_induct)
  case less
  show ?case
  proof (cases "timer_round gettimeofday timeout s")
    case (Inl e)
    then show ?thesis using less.prems rounds_refl timer_round_fails [where timeout = timeout, OF less.prems assms(2,3) Inl]
      by (subst timer_loop.simps) auto
  next
    case (Inr r)
    show ?thesis
    proof (cases r)
      case (Return ms s1)
      then show ?thesis using Inr timer_round_return [OF less.prems assms(2)]
        by (subst timer_loop.simps) simp
    next
      case (Again s1)
      have "tm_inv s1" "length (ts_queue s1) < length (ts_queue s)"
        using timer_round_inv [where timeout = timeout, OF less.prems assms(2,3)] timer_round_shrinks [where timeout = timeout, OF less.prems assms(2,4)] Inr Again
        by simp_all
      with less.hyps obtain r' where "timer_loop gettimeofday timeout s1 = Some r'"
          "case r' of Inr (ms, s') \<Rightarrow> tm_inv s' \<and> quiet_result gettimeofday ms s'
           | Inl e \<Rightarrow> \<exists>s2. rounds gettimeofday timeout s1 s2 \<and> tm_inv s2 \<and> callback_fails gettimeofday timeout s2 e" by blast
      then show ?thesis using Inr Again rounds_step [of gettimeofday timeout s s1]
        by (subst timer_loop.simps) (auto split: sum.splits)
    qed
  qed
qed

section \<open>Properties\<close>

text \<open>
  Property C11. Timer.cc, with a normalised clock, normalised times and delays that are not negative: the calls of the clients keep the state of the timer system
  well-formed: the queue holds exactly the pending timers, which are alive, once each, in the
  order of their times and sequence numbers, only pending timers are cancelled, and
  num_cancelled_ is at least the number of cancelled timers in the queue. A sequence of calls
  fails only at a call that its contract forbids: scheduling or deleting a timer that is
  pending, or using one that was deleted.
\<close>

theorem timer_calls_safe:
  assumes "tm_inv s" "clock_ok gettimeofday" "list_all call_ok cs"
  shows "case timer_calls gettimeofday cs s of
      Inr s' \<Rightarrow> tm_inv s'
    | Inl e \<Rightarrow> \<exists>pre c post s1. cs = pre @ c # post \<and> timer_calls gettimeofday pre s = Inr s1 \<and> tm_inv s1 \<and>
        \<not> call_allowed s1 c \<and> timer_exec gettimeofday s1 c = Inl e"
  using timer_calls_inv [OF assms] timer_calls_fault [OF assms] by (cases "timer_calls gettimeofday cs s") auto

lemma tm_inv_init: "tm_inv ts_init"
  by (simp add: tm_inv_def ts_init_def timers_ok_def timer_none_def)

lemma timer_calls_safe_witness:
  "case timer_calls (\<lambda>k. (int k, 0)) [Create 1 True, Schedule_in 1500 1, Cancel 1, Delete 1] ts_init of
      Inr s' \<Rightarrow> False
    | Inl e \<Rightarrow> e = Assert_failed"
proof -
  have "timer_calls (\<lambda>k. (int k, 0)) [Create 1 True, Schedule_in 1500 1, Cancel 1, Delete 1] ts_init = Inl Assert_failed"
    by (simp add: timer_create_def timer_delete_def schedule_at_def schedule_in_def timer_cancel_def timer_at_def
        upd_timer_def ts_init_def timer_none_def Let_def)
  moreover have "list_all call_ok [Create 1 True, Schedule_in 1500 1, Cancel 1, Delete 1]"
    by (simp add: call_ok_def)
  moreover have "clock_ok (\<lambda>k. (int k, 0))" by (simp add: clock_ok_def)
  ultimately show ?thesis using timer_calls_safe [OF tm_inv_init, of "\<lambda>k. (int k, 0)"
      "[Create 1 True, Schedule_in 1500 1, Cancel 1, Delete 1]"] by simp
qed

text \<open>
  Property C10. Timer.cc:174-303: one round of run_expired_timers, from a well-formed state, with a normalised clock and callbacks whose
  times are normalised (microseconds from 0 to a million) and whose delays are not negative. Its assertions (the popped timer is
  pending, num_cancelled_ is positive, the timeout is not negative, a deleted timer is not pending) never fail, and it touches no deleted timer: a round
  fails only at a call that the callback of the earliest timer makes against its contract, in the state right after the timer was popped and
  the calls before. A round that goes on took off the earliest timer of the queue: a cancelled one does not fire and is
  deleted if it was to be; one that fires is given a time that is not before its own, which is the time of the clock or
  less than a millisecond after it, and the state afterwards is the one its callback leaves. Every round keeps the state well-formed.
\<close>

theorem timer_round_safe:
  assumes "tm_inv s" "clock_ok gettimeofday" "\<And>f. list_all call_ok (timeout f)"
  shows "case timer_round gettimeofday timeout s of
      Inl e \<Rightarrow> callback_fails gettimeofday timeout s e
    | Inr (Return ms s') \<Rightarrow> tm_inv s' \<and> quiet_result gettimeofday ms s' \<and> ts_queue s' = ts_queue s \<and>
        ts_fired s' = ts_fired s
    | Inr (Again s') \<Rightarrow> tm_inv s' \<and> (\<exists>i q. ts_queue s = i # q \<and>
        (\<forall>j\<in>set q. \<not> tm_after (ts_timers s i) (ts_timers s j)) \<and>
        (if tm_cancelled (ts_timers s i) then s' = drop_head i (s\<lparr>ts_clock := Suc (ts_clock s)\<rparr>) \<and> ts_fired s' = ts_fired s
         else \<exists>at. fires_at gettimeofday s i at \<and> ts_fired s' = (i, at) # ts_fired s \<and>
           timer_calls gettimeofday (timeout ((i, at) # ts_fired s)) (after_pop i at s) = Inr s'))"
proof (cases "timer_round gettimeofday timeout s")
  case (Inl e)
  then show ?thesis using timer_round_fails [where timeout = timeout, OF assms] by simp
next
  case (Inr r)
  show ?thesis
  proof (cases r)
    case (Return ms s')
    moreover have "ts_queue s' = ts_queue s \<and> ts_fired s' = ts_fired s"
    proof (cases "ts_queue s")
      case Nil
      then show ?thesis using Inr Return by (simp add: timer_round_def)
    next
      case (Cons i q)
      note ex = timer_round_exact [where timeout = timeout, OF assms Cons]
      have "\<not> tm_cancelled (ts_timers s i)" using ex(1) Inr Return by auto
      then show ?thesis using ex(2) Inr Return Cons by (auto simp: bind_run_eq_Inr eq_commute [of "Inr (Return ms s')"])
    qed
    ultimately show ?thesis using Inr timer_round_return [OF assms(1,2)] by simp
  next
    case (Again s')
    obtain i q where q: "ts_queue s = i # q" using Inr Again by (cases "ts_queue s") (simp_all add: timer_round_def)
    have ok: "timers_ok (ts_timers s) (i # q) (ts_ncancelled s)" using assms(1) q by (simp add: tm_inv_def)
    have first: "\<forall>j\<in>set q. \<not> tm_after (ts_timers s i) (ts_timers s j)" using timers_okD(7) [OF ok] by simp
    have inv: "tm_inv s'" using timer_round_inv [where timeout = timeout, OF assms] Inr Again by simp
    note ex = timer_round_exact [where timeout = timeout, OF assms q]
    show ?thesis
    proof (cases "tm_cancelled (ts_timers s i)")
      case True
      then show ?thesis using ex(1) Inr Again inv first q by (auto simp: drop_head_def)
    next
      case False
      then obtain at where at: "fires_at gettimeofday s i at" "timer_calls gettimeofday (timeout ((i, at) # ts_fired s)) (after_pop i at s) = Inr s'"
        using ex(2) Inr Again by (auto simp: bind_run_eq_Inr eq_commute [of "Inr (Again s')"])
      have "ts_fired s' = (i, at) # ts_fired s"
        using timer_calls_frame [OF at(2)] by (simp add: after_pop_def fire_head_def)
      with at have "\<exists>at. fires_at gettimeofday s i at \<and> ts_fired s' = (i, at) # ts_fired s \<and>
          timer_calls gettimeofday (timeout ((i, at) # ts_fired s)) (after_pop i at s) = Inr s'" by blast
      then show ?thesis using False Inr Again inv first q by simp
    qed
  qed
qed

definition demo_clock :: "nat \<Rightarrow> timeval" where
  "demo_clock k = (10 + int k, 0)"

definition demo_timers :: timer_system where
  "demo_timers = ts_init\<lparr>ts_timers := (\<lambda>_. timer_none)
     (1 := \<lparr>tm_when = (5, 0), tm_pending = True, tm_cancelled = True, tm_delete = True, tm_seqno = 0, tm_alive = True\<rparr>,
      2 := \<lparr>tm_when = (11, 500), tm_pending = True, tm_cancelled = False, tm_delete = False, tm_seqno = 1, tm_alive = True\<rparr>,
      3 := \<lparr>tm_when = (14, 500000), tm_pending = True, tm_cancelled = False, tm_delete = False, tm_seqno = 2, tm_alive = True\<rparr>),
     ts_queue := [1, 2, 3], ts_seqno := 3, ts_ncancelled := 1\<rparr>"

lemma demo_clock_ok: "clock_ok demo_clock"
  by (simp add: clock_ok_def demo_clock_def)

lemma demo_timers_inv: "tm_inv demo_timers"
  by (auto simp: tm_inv_def demo_timers_def timers_ok_def ts_init_def timer_none_def tm_after_def tv_gt_def tv_lt_def
      usec_ok_def)

lemma demo_timers_queue: "ts_queue demo_timers = 1 # [2, 3]"
  by (simp add: demo_timers_def)

lemma timer_round_safe_witness:
  "case timer_round demo_clock (\<lambda>f. [Create (length f) False]) demo_timers of
      Inr (Again s') \<Rightarrow> tm_inv s' \<and> ts_fired s' = []
    | _ \<Rightarrow> False"
proof -
  have "\<exists>s'. timer_round demo_clock (\<lambda>f. [Create (length f) False]) demo_timers = Inr (Again s')"
    using timer_round_cases [OF demo_timers_inv demo_clock_ok demo_timers_queue, of "\<lambda>f. [Create (length f) False]"]
    by (simp add: demo_timers_def)
  then obtain s' where "timer_round demo_clock (\<lambda>f. [Create (length f) False]) demo_timers = Inr (Again s')" ..
  then show ?thesis
    using timer_round_safe [OF demo_timers_inv demo_clock_ok, of "\<lambda>f. [Create (length f) False]"]
    by (auto simp: call_ok_def demo_timers_def ts_init_def)
qed

text \<open>
  Also. Timer.cc:231-303: with callbacks that make no calls, run_expired_timers
  returns. The timers it fires are those of an initial part of the queue that are not
  cancelled, once each, in the order of the queue; the rest of the queue is left as it was.
  It returns -1 if the queue is empty; otherwise the first timer left is not cancelled and not
  due at the last reading of the clock, and the result is the number of milliseconds until it
  is, at least 1 and at most INT_MAX.
\<close>

theorem run_expired_quiet:
  assumes "tm_inv s" "clock_ok gettimeofday" "signals_ok s"
  shows "\<exists>ms s' pre. run_expired_timers gettimeofday (\<lambda>_. []) s = Some (Inr (ms, s')) \<and> tm_inv s' \<and>
    quiet_run pre s s' \<and> quiet_result gettimeofday ms s'"
proof -
  obtain H G F where h: "handle_signals s = Inr (s\<lparr>ts_signals := G, ts_handled := H, ts_sigfired := F\<rparr>)"
    (is "_ = Inr ?s") using handle_signals_ok [OF assms(3)] by blast
  have "tm_inv ?s" using assms(1) by (simp add: tm_inv_def)
  from quiet_loop [OF this assms(2)] show ?thesis
    by (simp add: run_expired_timers_def h quiet_run_def)
qed

lemma run_expired_quiet_witness:
  "\<exists>s'. run_expired_timers demo_clock (\<lambda>_. []) demo_timers = Some (Inr (2500, s')) \<and>
    map fst (ts_fired s') = [2] \<and> ts_queue s' = [3]"
proof -
  have "signals_ok demo_timers" by (simp add: signals_ok_def demo_timers_def ts_init_def)
  from run_expired_quiet [OF demo_timers_inv demo_clock_ok this] obtain ms s' pre where
    r: "run_expired_timers demo_clock (\<lambda>_. []) demo_timers = Some (Inr (ms, s'))" "quiet_run pre demo_timers s'" by blast
  have h: "handle_signals demo_timers = Inr demo_timers" by (simp add: handle_signals_def demo_timers_def ts_init_def)
  have "\<exists>s'. run_expired_timers demo_clock (\<lambda>_. []) demo_timers = Some (Inr (2500, s')) \<and> ts_queue s' = [3]"
    unfolding run_expired_timers_def h
    by (simp add: timer_loop.simps demo_timers_def timer_round_def timer_at_def demo_clock_def ts_init_def
        pop_timer_def upd_timer_def timer_delete_def Let_def tv_lt_def tv_diff_msec_def c_div_def to_int32_def)
  with r show ?thesis by (auto simp: quiet_run_def demo_timers_def ts_init_def append_eq_Cons_conv Cons_eq_append_conv)
qed

text \<open>
  Property C17. Timer.cc:231-303: with a normalised clock, handlers for the signals that are posted, and callbacks that may create, delete and
  cancel timers but schedule none, run_expired_timers ends. Either the state is well-formed and the result is as it is for idle callbacks, or
  it fails, and then at a call of a callback that its contract forbids, in a state that the rounds before it led to.
\<close>

theorem run_expired_ends:
  assumes "tm_inv s" "clock_ok gettimeofday" "signals_ok s"
    and "\<And>f. list_all call_ok (timeout f)" "\<And>f. list_all no_schedule (timeout f)"
  shows "\<exists>r. run_expired_timers gettimeofday timeout s = Some r \<and>
    (case r of Inr (ms, s') \<Rightarrow> tm_inv s' \<and> quiet_result gettimeofday ms s'
     | Inl e \<Rightarrow> \<exists>s0 s1. handle_signals s = Inr s0 \<and> rounds gettimeofday timeout s0 s1 \<and> tm_inv s1 \<and> callback_fails gettimeofday timeout s1 e)"
proof -
  obtain H G F where h: "handle_signals s = Inr (s\<lparr>ts_signals := G, ts_handled := H, ts_sigfired := F\<rparr>)"
    (is "_ = Inr ?s") using handle_signals_ok [OF assms(3)] by blast
  have "tm_inv ?s" using assms(1) by (simp add: tm_inv_def)
  from timer_loop_returns [where timeout = timeout, OF this assms(2,4,5)] obtain r where
    "timer_loop gettimeofday timeout ?s = Some r"
    "case r of Inr (ms, s') \<Rightarrow> tm_inv s' \<and> quiet_result gettimeofday ms s'
     | Inl e \<Rightarrow> \<exists>s1. rounds gettimeofday timeout ?s s1 \<and> tm_inv s1 \<and> callback_fails gettimeofday timeout s1 e" by blast
  then show ?thesis by (simp add: run_expired_timers_def h split: sum.splits prod.splits)
qed

lemma run_expired_ends_witness:
  "\<exists>r. run_expired_timers demo_clock (\<lambda>f. if length f = 1 then [Cancel 3] else []) demo_timers = Some r"
proof -
  have "signals_ok demo_timers" by (simp add: signals_ok_def demo_timers_def ts_init_def)
  moreover have "list_all call_ok (if length f = 1 then [Cancel 3] else [])"
    "list_all no_schedule (if length f = 1 then [Cancel 3] else [])" for f :: "(nat \<times> timeval) list"
    by (simp_all add: call_ok_def no_schedule_def)
  ultimately show ?thesis
    using run_expired_ends [OF demo_timers_inv demo_clock_ok, of "\<lambda>f. if length f = 1 then [Cancel 3] else []"]
    by blast
qed

text \<open>The timers that are pending and not cancelled.\<close>

definition active_timers :: "timer_system \<Rightarrow> nat list" where
  "active_timers s = filter (\<lambda>i. \<not> tm_cancelled (ts_timers s i)) (ts_queue s)"

definition cancelled_timer :: "nat \<Rightarrow> timer_system \<Rightarrow> timer_system" where
  "cancelled_timer i s = upd_timer i (\<lambda>t. t\<lparr>tm_cancelled := True\<rparr>) (s\<lparr>ts_ncancelled := ts_ncancelled s + 1\<rparr>)"

lemma timer_cancel_pending:
  assumes "tm_inv s" "tm_pending (ts_timers s i)"
  shows "timer_cancel i s = Inr (True, cancelled_timer i s)"
proof -
  have "tm_alive (ts_timers s i)" using assms timers_okD(4) by (auto simp: tm_inv_def)
  then show ?thesis using assms(2) by (simp add: timer_cancel_def timer_at_def cancelled_timer_def)
qed

lemma filter_remove_length:
  "distinct q \<Longrightarrow> i \<in> set q \<Longrightarrow> P i \<Longrightarrow> Suc (length (filter (\<lambda>j. P j \<and> j \<noteq> i) q)) = length (filter P q)"
proof (induction q)
  case (Cons x q)
  show ?case
  proof (cases "x = i")
    case True
    with Cons.prems have "filter (\<lambda>j. P j \<and> j \<noteq> i) q = filter P q" by (intro filter_cong) auto
    with True Cons.prems show ?thesis by simp
  next
    case False
    with Cons show ?thesis by simp
  qed
qed simp

lemma active_cancelled:
  "active_timers (cancelled_timer i s) = filter (\<lambda>j. \<not> tm_cancelled (ts_timers s j) \<and> j \<noteq> i) (ts_queue s)"
  unfolding active_timers_def cancelled_timer_def upd_timer_def by (auto intro: filter_cong)

lemma num_pending_of:
  "length (active_timers s) + ts_ncancelled s = length (ts_queue s) + k \<Longrightarrow>
    num_pending_timers s = of_nat (length (active_timers s)) - of_nat k"
proof -
  assume "length (active_timers s) + ts_ncancelled s = length (ts_queue s) + k"
  then have "(of_nat (length (active_timers s)) + of_nat (ts_ncancelled s) :: u64) =
      of_nat (length (ts_queue s)) + of_nat k" by (metis of_nat_add)
  then show ?thesis unfolding num_pending_timers_def by (simp add: diff_eq_eq eq_diff_eq algebra_simps)
qed

text \<open>
  A divergence. Timer.cc:127-150: num_pending_timers is the number of pending timers that are
  not cancelled as long as num_cancelled_ counts the cancelled timers in the queue; cancelling
  a pending timer keeps it so the first time, but cancelling it again, before it is popped,
  counts it twice, and the result is one less than the number of timers that will fire.
\<close>

lemma cancel_twice_counts_twice:
  assumes "tm_inv s" "length (active_timers s) + ts_ncancelled s = length (ts_queue s)"
    and "tm_pending (ts_timers s i)" "\<not> tm_cancelled (ts_timers s i)"
  shows "num_pending_timers s = of_nat (length (active_timers s)) \<and>
    (\<exists>s1 s2. timer_cancel i s = Inr (True, s1) \<and> timer_cancel i s1 = Inr (True, s2) \<and>
      Suc (length (active_timers s1)) = length (active_timers s) \<and> active_timers s2 = active_timers s1 \<and>
      num_pending_timers s1 = of_nat (length (active_timers s1)) \<and>
      num_pending_timers s2 = of_nat (length (active_timers s2)) - 1)"
proof -
  let ?s1 = "cancelled_timer i s"
  have ok: "timers_ok (ts_timers s) (ts_queue s) (ts_ncancelled s)" using assms(1) by (simp add: tm_inv_def)
  have i1: "tm_inv ?s1" using timers_ok_cancel [OF ok assms(3)] by (simp add: tm_inv_def cancelled_timer_def upd_timer_def)
  have p1: "tm_pending (ts_timers ?s1 i)" using assms(3) by (simp add: cancelled_timer_def upd_timer_def)
  have one: "Suc (length (active_timers ?s1)) = length (active_timers s)"
    using filter_remove_length [OF timers_okD(1) [OF ok] timers_okD(3) [OF ok assms(3)]] assms(4)
    unfolding active_cancelled by (simp add: active_timers_def)
  have two: "active_timers (cancelled_timer i ?s1) = active_timers ?s1"
    unfolding active_cancelled by (auto simp: cancelled_timer_def upd_timer_def intro!: filter_cong)
  have nc: "ts_ncancelled ?s1 = ts_ncancelled s + 1" "ts_queue ?s1 = ts_queue s"
    "ts_ncancelled (cancelled_timer i ?s1) = ts_ncancelled s + 2" "ts_queue (cancelled_timer i ?s1) = ts_queue s"
    by (simp_all add: cancelled_timer_def upd_timer_def)
  show ?thesis
    using num_pending_of [of s 0] num_pending_of [of ?s1 0] num_pending_of [of "cancelled_timer i ?s1" 1]
      timer_cancel_pending [OF assms(1,3)] timer_cancel_pending [OF i1 p1] one two nc assms(2) by auto
qed

lemma cancel_twice_counts_twice_witness:
  "\<exists>s1 s2. timer_cancel 2 demo_timers = Inr (True, s1) \<and> timer_cancel 2 s1 = Inr (True, s2) \<and>
    active_timers s2 = [3] \<and> num_pending_timers s2 = 0"
proof -
  have a: "active_timers demo_timers = [2, 3]" by (simp add: active_timers_def demo_timers_def)
  have c: "length (active_timers demo_timers) + ts_ncancelled demo_timers = length (ts_queue demo_timers)"
    unfolding a by (simp add: demo_timers_def)
  have p: "tm_pending (ts_timers demo_timers 2)" "\<not> tm_cancelled (ts_timers demo_timers 2)" by (simp_all add: demo_timers_def)
  from cancel_twice_counts_twice [OF demo_timers_inv c p] obtain s1 s2 where
    s: "timer_cancel 2 demo_timers = Inr (True, s1)" "timer_cancel 2 s1 = Inr (True, s2)"
      "active_timers s2 = active_timers s1" "num_pending_timers s2 = of_nat (length (active_timers s2)) - 1" by blast
  have "active_timers s1 = [3]"
    using s(1) timer_cancel_pending [OF demo_timers_inv p(1)] active_cancelled [of 2 demo_timers]
    by (simp add: demo_timers_def)
  with s show ?thesis by auto
qed

end
