(* ===== verification/Uri.thy ===== *)
theory Uri
  imports Prelude
begin

text \<open>
  util/URI.h and util/URI.cc, the state and its structure: the URI as one string with the
  offset and length of each component, the parser of the generic syntax, and the setters of the
  components. Strings are shorter than \<open>2 ^ 31\<close>, so the \<open>int\<close> differences of lengths are exact.
\<close>

section \<open>Characters and strings\<close>

text \<open>The classes of ctype.h in the C locale; a negative \<open>char\<close> is in none of them.\<close>

definition is_upper :: "char \<Rightarrow> bool" where
  "is_upper c \<longleftrightarrow> 65 \<le> (of_char c :: nat) \<and> (of_char c :: nat) \<le> 90"

definition is_lower :: "char \<Rightarrow> bool" where
  "is_lower c \<longleftrightarrow> 97 \<le> (of_char c :: nat) \<and> (of_char c :: nat) \<le> 122"

definition is_alpha :: "char \<Rightarrow> bool" where
  "is_alpha c \<longleftrightarrow> is_upper c \<or> is_lower c"

definition is_digit :: "char \<Rightarrow> bool" where
  "is_digit c \<longleftrightarrow> 48 \<le> (of_char c :: nat) \<and> (of_char c :: nat) \<le> 57"

definition is_alnum :: "char \<Rightarrow> bool" where
  "is_alnum c \<longleftrightarrow> is_alpha c \<or> is_digit c"

definition is_space :: "char \<Rightarrow> bool" where
  "is_space c \<longleftrightarrow> (of_char c :: nat) = 32 \<or> 9 \<le> (of_char c :: nat) \<and> (of_char c :: nat) \<le> 13"

definition to_lower :: "char \<Rightarrow> char" where
  "to_lower c = (if is_upper c then char_of (of_char c + 32 :: nat) else c)"

definition to_upper :: "char \<Rightarrow> char" where
  "to_upper c = (if is_lower c then char_of (of_char c - 32 :: nat) else c)"

definition is_unreserved :: "char \<Rightarrow> bool" where
  "is_unreserved c \<longleftrightarrow> is_alnum c \<or> c = CHR ''-'' \<or> c = CHR ''.'' \<or> c = CHR ''_'' \<or> c = CHR ''~''"

definition is_sub_delim :: "char \<Rightarrow> bool" where
  "is_sub_delim c \<longleftrightarrow> c = CHR ''!'' \<or> c = CHR ''$'' \<or> c = CHR ''&'' \<or> c = CHR 0x27 \<or> c = CHR ''('' \<or>
     c = CHR '')'' \<or> c = CHR ''*'' \<or> c = CHR ''+'' \<or> c = CHR '','' \<or> c = CHR '';'' \<or> c = CHR ''=''"

definition is_hexdig :: "char \<Rightarrow> bool" where
  "is_hexdig c \<longleftrightarrow> is_digit c \<or> c = CHR ''a'' \<or> c = CHR ''A'' \<or> c = CHR ''b'' \<or> c = CHR ''B'' \<or>
     c = CHR ''c'' \<or> c = CHR ''C'' \<or> c = CHR ''d'' \<or> c = CHR ''D'' \<or> c = CHR ''e'' \<or> c = CHR ''E'' \<or>
     c = CHR ''f'' \<or> c = CHR ''F''"

text \<open>\<open>at\<close>, \<open>substr\<close>, \<open>replace\<close> and the searches of \<open>std::string\<close>.\<close>

definition str_at :: "string \<Rightarrow> nat \<Rightarrow> char run" where
  "str_at s i = (if i < length s then Inr (s ! i) else Inl Thrown)"

definition str_sub :: "string \<Rightarrow> nat \<Rightarrow> nat \<Rightarrow> string run" where
  "str_sub s off len = (if off \<le> length s then Inr (take len (drop off s)) else Inl Thrown)"

definition str_replace :: "string \<Rightarrow> nat \<Rightarrow> nat \<Rightarrow> string \<Rightarrow> string run" where
  "str_replace s off len t = (if off \<le> length s then Inr (take off s @ t @ drop (off + len) s) else Inl Thrown)"

definition find_from :: "(char \<Rightarrow> bool) \<Rightarrow> string \<Rightarrow> nat \<Rightarrow> nat option" where
  "find_from P s p = (let k = p + length (takeWhile (\<lambda>c. \<not> P c) (drop p s))
     in if k < length s then Some k else None)"

definition find_end :: "(char \<Rightarrow> bool) \<Rightarrow> string \<Rightarrow> nat \<Rightarrow> nat" where
  "find_end P s p = (case find_from P s p of None \<Rightarrow> length s | Some k \<Rightarrow> k)"

text \<open>\<open>atoi\<close>: white space, a sign, digits; undefined if the number is not an \<open>int\<close>.\<close>

definition digits_val :: "string \<Rightarrow> int" where
  "digits_val ds = foldl (\<lambda>n d. 10 * n + (of_char d - 48)) 0 ds"

definition atoi :: "string \<Rightarrow> int run" where
  "atoi s = (let s1 = dropWhile is_space s;
       neg = (s1 \<noteq> [] \<and> hd s1 = CHR ''-'');
       s2 = (if s1 \<noteq> [] \<and> (hd s1 = CHR ''-'' \<or> hd s1 = CHR ''+'') then tl s1 else s1);
       v = digits_val (takeWhile is_digit s2); n = (if neg then - v else v)
     in if - (2 ^ 31) \<le> n \<and> n < 2 ^ 31 then Inr n else Inl Undefined)"

section \<open>State\<close>

datatype uri_parse_err = URI_PARSE_OK | URI_PARSE_NO_URI | URI_PARSE_NO_SEP | URI_PARSE_BAD_PERCENT
  | URI_PARSE_BAD_IP_LITERAL | URI_PARSE_BAD_IPV6 | URI_PARSE_BAD_SCHEME | URI_PARSE_BAD_USERINFO
  | URI_PARSE_BAD_HOST | URI_PARSE_BAD_PORT | URI_PARSE_BAD_PATH | URI_PARSE_BAD_QUERY
  | URI_PARSE_BAD_FRAGMENT | URI_PARSE_NO_PARAM_VAL

record component =
  c_off :: nat
  c_len :: nat

record uri =
  u_str :: string
  u_scheme :: component
  u_ssp :: component
  u_authority :: component
  u_path :: component
  u_query :: component
  u_fragment :: component
  u_userinfo :: component
  u_host :: component
  u_port :: component
  u_port_num :: u32
  u_err :: uri_parse_err
  u_validate :: bool
  u_normalize :: bool

definition comp_none :: component where
  "comp_none = \<lparr>c_off = 0, c_len = 0\<rparr>"

definition uri_clear :: "bool \<Rightarrow> uri \<Rightarrow> uri" where
  "uri_clear clear_uri u = u\<lparr>u_str := if clear_uri then [] else u_str u, u_err := URI_PARSE_NO_URI,
     u_scheme := comp_none, u_ssp := comp_none, u_authority := comp_none, u_path := comp_none,
     u_query := comp_none, u_fragment := comp_none, u_userinfo := comp_none, u_host := comp_none,
     u_port := comp_none, u_port_num := 0\<rparr>"

definition uri_none :: uri where
  "uri_none = \<lparr>u_str = [], u_scheme = comp_none, u_ssp = comp_none, u_authority = comp_none,
     u_path = comp_none, u_query = comp_none, u_fragment = comp_none, u_userinfo = comp_none,
     u_host = comp_none, u_port = comp_none, u_port_num = 0, u_err = URI_PARSE_NO_URI,
     u_validate = True, u_normalize = True\<rparr>"

text \<open>The accessors \<open>scheme()\<close>, \<open>path()\<close>, ...: a copy of a component.\<close>

definition comp_str :: "(uri \<Rightarrow> component) \<Rightarrow> uri \<Rightarrow> string run" where
  "comp_str get u = str_sub (u_str u) (c_off (get u)) (c_len (get u))"

section \<open>Parsing the generic syntax\<close>

text \<open>Each step of \<open>parse_generic_ssp\<close> gives its component and the new position.\<close>

definition comp_upto :: "nat \<Rightarrow> nat \<Rightarrow> component \<times> nat" where
  "comp_upto pos e = (\<lparr>c_off = pos, c_len = e - pos\<rparr>, e)"

definition comp_upto_checked :: "nat \<Rightarrow> nat \<Rightarrow> (component \<times> nat) run" where
  "comp_upto_checked pos e = bind_run (assert_run (0 < e - pos)) (\<lambda>_. Inr (comp_upto pos e))"

definition ssp_authority :: "string \<Rightarrow> nat \<Rightarrow> nat \<Rightarrow> (component \<times> nat) run" where
  "ssp_authority s ssp_len pos =
     bind_run (if 2 \<le> ssp_len
               then bind_run (str_at s pos) (\<lambda>a. if a \<noteq> CHR ''/'' then Inr False
                 else bind_run (str_at s (pos + 1)) (\<lambda>b. Inr (b = CHR ''/'')))
               else Inr False) (\<lambda>present.
     if present
     then comp_upto_checked pos (find_end (\<lambda>c. c = CHR ''/'' \<or> c = CHR ''?'' \<or> c = CHR ''#'') s (pos + 2))
     else Inr (comp_upto pos pos))"

definition ssp_path :: "string \<Rightarrow> nat \<Rightarrow> component \<times> nat" where
  "ssp_path s pos =
     (if pos \<noteq> length s then comp_upto pos (find_end (\<lambda>c. c = CHR ''?'' \<or> c = CHR ''#'') s pos)
      else comp_upto pos pos)"

definition ssp_query :: "string \<Rightarrow> nat \<Rightarrow> (component \<times> nat) run" where
  "ssp_query s pos =
     bind_run (if pos \<noteq> length s then bind_run (str_at s pos) (\<lambda>c. Inr (c = CHR ''?'')) else Inr False) (\<lambda>present.
     if present then comp_upto_checked pos (find_end (\<lambda>c. c = CHR ''#'') s pos) else Inr (comp_upto pos pos))"

definition ssp_fragment :: "string \<Rightarrow> nat \<Rightarrow> (component \<times> nat) run" where
  "ssp_fragment s pos =
     bind_run (if pos \<noteq> length s then bind_run (str_at s pos) (\<lambda>c. Inr (c = CHR ''#'')) else Inr False) (\<lambda>present.
     if present then comp_upto_checked pos (length s) else Inr (comp_upto pos pos))"

definition parse_generic_ssp :: "uri \<Rightarrow> (uri_parse_err \<times> uri) run" where
  "parse_generic_ssp u =
     (if c_len (u_ssp u) = 0
      then Inr (URI_PARSE_OK, u\<lparr>u_authority := u_ssp u, u_path := u_ssp u, u_query := u_ssp u, u_fragment := u_ssp u,
        u_userinfo := u_ssp u, u_host := u_ssp u, u_port := u_ssp u\<rparr>)
      else bind_run (ssp_authority (u_str u) (c_len (u_ssp u)) (c_off (u_ssp u))) (\<lambda>(authority, pos1).
        let (path, pos2) = ssp_path (u_str u) pos1
        in bind_run (ssp_query (u_str u) pos2) (\<lambda>(query, pos3).
           bind_run (ssp_fragment (u_str u) pos3) (\<lambda>(fragment, pos4).
           bind_run (assert_run (pos4 = length (u_str u))) (\<lambda>_.
           Inr (URI_PARSE_OK, u\<lparr>u_authority := authority, u_path := path, u_query := query, u_fragment := fragment\<rparr>))))))"

text \<open>The end of the host in the authority, from its start.\<close>

definition host_end :: "string \<Rightarrow> string \<Rightarrow> nat \<Rightarrow> (uri_parse_err + nat) run" where
  "host_end scheme authority pos = bind_run (str_at authority pos) (\<lambda>c.
     Inr (if c = CHR ''['' then
            (case find_from (\<lambda>c. c = CHR '']'') authority pos of
               None \<Rightarrow> Inl URI_PARSE_BAD_IP_LITERAL | Some e \<Rightarrow> Inr (e + 1))
          else if scheme = ''eth'' then Inr (length authority)
          else Inr (find_end (\<lambda>c. c = CHR '':'') authority pos)))"

text \<open>The port, from the end of the host.\<close>

definition authority_port :: "string \<Rightarrow> nat \<Rightarrow> uri \<Rightarrow> (uri_parse_err \<times> uri) run" where
  "authority_port authority pos u =
     (if pos \<noteq> length authority then
        bind_run (str_at authority pos) (\<lambda>c.
        if c \<noteq> CHR '':'' then Inr (URI_PARSE_BAD_PORT, u)
        else (let u1 = u\<lparr>u_port := \<lparr>c_off = c_off (u_authority u) + (pos + 1), c_len = length authority - (pos + 1)\<rparr>\<rparr>
              in if 0 < c_len (u_port u1)
                 then bind_run (comp_str u_port u1) (\<lambda>p. bind_run (atoi p) (\<lambda>n.
                   Inr (URI_PARSE_OK, u1\<lparr>u_port_num := of_int n\<rparr>)))
                 else Inr (URI_PARSE_OK, u1)))
      else Inr (URI_PARSE_OK, u\<lparr>u_port := \<lparr>c_off = c_off (u_authority u) + pos, c_len = 0\<rparr>\<rparr>))"

definition parse_authority :: "uri \<Rightarrow> (uri_parse_err \<times> uri) run" where
  "parse_authority u =
     (if c_len (u_authority u) = 0
      then Inr (URI_PARSE_OK, u\<lparr>u_userinfo := u_authority u, u_host := u_authority u, u_port := u_authority u\<rparr>)
      else bind_run (comp_str u_authority u) (\<lambda>authority.
        bind_run (assert_run (2 \<le> length authority)) (\<lambda>_.
        bind_run (assert_run (take 2 authority = ''//'')) (\<lambda>_.
        let off = c_off (u_authority u);
            pos1 = (case find_from (\<lambda>c. c = CHR ''@'') authority 2 of None \<Rightarrow> 2 | Some e \<Rightarrow> e + 1);
            u1 = u\<lparr>u_userinfo := \<lparr>c_off = off + 2, c_len = pos1 - 2\<rparr>\<rparr>
        in if pos1 \<noteq> length authority then
             bind_run (comp_str u_scheme u) (\<lambda>scheme.
             bind_run (host_end scheme authority pos1) (\<lambda>e.
             case e of
               Inl err \<Rightarrow> Inr (err, u1)
             | Inr pos2 \<Rightarrow> authority_port authority pos2
                 (u1\<lparr>u_host := \<lparr>c_off = off + pos1, c_len = pos2 - pos1\<rparr>\<rparr>)))
           else authority_port authority pos1 (u1\<lparr>u_host := \<lparr>c_off = off + pos1, c_len = 0\<rparr>\<rparr>)))))"

definition parse_components :: "uri \<Rightarrow> (uri_parse_err \<times> uri) run" where
  "parse_components u = bind_run (parse_generic_ssp u) (\<lambda>(err, u1).
     if err \<noteq> URI_PARSE_OK then Inr (err, u1) else parse_authority u1)"

section \<open>Setters\<close>

definition adjust_offset :: "int \<Rightarrow> component \<Rightarrow> component run" where
  "adjust_offset diff c =
     (if c_off c = 0 then Inr c
      else if 0 < diff then Inr (c\<lparr>c_off := c_off c + nat diff\<rparr>)
      else bind_run (assert_run (nat (- diff) \<le> c_off c)) (\<lambda>_. Inr (c\<lparr>c_off := c_off c - nat (- diff)\<rparr>)))"

definition adjust_length :: "int \<Rightarrow> component \<Rightarrow> component run" where
  "adjust_length diff c =
     (if 0 < diff then Inr (c\<lparr>c_len := c_len c + nat diff\<rparr>)
      else bind_run (assert_run (nat (- diff) \<le> c_len c)) (\<lambda>_. Inr (c\<lparr>c_len := c_len c - nat (- diff)\<rparr>)))"

text \<open>Applying an adjustment to a component of the URI, and to several in turn.\<close>

datatype part = Scheme | Ssp | Authority | Userinfo | Host | Port | Path | Query | Fragment

fun part_get :: "part \<Rightarrow> uri \<Rightarrow> component" where
  "part_get Scheme = u_scheme"
| "part_get Ssp = u_ssp"
| "part_get Authority = u_authority"
| "part_get Userinfo = u_userinfo"
| "part_get Host = u_host"
| "part_get Port = u_port"
| "part_get Path = u_path"
| "part_get Query = u_query"
| "part_get Fragment = u_fragment"

fun part_set :: "part \<Rightarrow> component \<Rightarrow> uri \<Rightarrow> uri" where
  "part_set Scheme c u = u\<lparr>u_scheme := c\<rparr>"
| "part_set Ssp c u = u\<lparr>u_ssp := c\<rparr>"
| "part_set Authority c u = u\<lparr>u_authority := c\<rparr>"
| "part_set Userinfo c u = u\<lparr>u_userinfo := c\<rparr>"
| "part_set Host c u = u\<lparr>u_host := c\<rparr>"
| "part_set Port c u = u\<lparr>u_port := c\<rparr>"
| "part_set Path c u = u\<lparr>u_path := c\<rparr>"
| "part_set Query c u = u\<lparr>u_query := c\<rparr>"
| "part_set Fragment c u = u\<lparr>u_fragment := c\<rparr>"

fun adjust_parts :: "(component \<Rightarrow> component run) \<Rightarrow> part list \<Rightarrow> uri \<Rightarrow> uri run" where
  "adjust_parts f [] u = Inr u"
| "adjust_parts f (p # ps) u = bind_run (f (part_get p u)) (\<lambda>c. adjust_parts f ps (part_set p c u))"

text \<open>
  The common course of the setters: the text is replaced; if its length changes, the components
  that contain it change their length and the ones behind it their offset.
\<close>

definition set_part :: "part \<Rightarrow> part list \<Rightarrow> part list \<Rightarrow> string \<Rightarrow> uri \<Rightarrow> uri run" where
  "set_part p longer later t u =
     bind_run (assert_run (u_err u = URI_PARSE_OK)) (\<lambda>_.
     bind_run (str_replace (u_str u) (c_off (part_get p u)) (c_len (part_get p u)) t) (\<lambda>s.
     let diff = int (length t) - int (c_len (part_get p u)); u1 = u\<lparr>u_str := s\<rparr>
     in if diff \<noteq> 0
        then bind_run (adjust_parts (adjust_length diff) longer u1) (adjust_parts (adjust_offset diff) later)
        else Inr u1))"

definition set_scheme :: "string \<Rightarrow> uri \<Rightarrow> uri run" where
  "set_scheme = set_part Scheme [Scheme] [Ssp, Authority, Userinfo, Host, Port, Path, Query, Fragment]"

definition set_authority :: "string \<Rightarrow> uri \<Rightarrow> uri run" where
  "set_authority t u = bind_run (set_part Authority [Ssp, Authority] [Path, Query, Fragment] t u) (\<lambda>u1.
     bind_run (parse_authority u1) (\<lambda>(err, u2). Inr u2))"

definition set_userinfo :: "string \<Rightarrow> uri \<Rightarrow> uri run" where
  "set_userinfo = set_part Userinfo [Ssp, Authority, Userinfo] [Host, Port, Path, Query, Fragment]"

definition set_host :: "string \<Rightarrow> uri \<Rightarrow> uri run" where
  "set_host = set_part Host [Ssp, Authority, Host] [Port, Path, Query, Fragment]"

definition set_port :: "string \<Rightarrow> uri \<Rightarrow> uri run" where
  "set_port t u = bind_run (set_part Port [Ssp, Authority, Port] [Path, Query, Fragment] t u) (\<lambda>u1.
     bind_run (atoi t) (\<lambda>n. Inr (u1\<lparr>u_port_num := of_int n\<rparr>)))"

definition set_path :: "string \<Rightarrow> uri \<Rightarrow> uri run" where
  "set_path = set_part Path [Ssp, Path] [Query, Fragment]"

definition set_query :: "string \<Rightarrow> uri \<Rightarrow> uri run" where
  "set_query = set_part Query [Ssp, Query] [Fragment]"

definition set_fragment :: "string \<Rightarrow> uri \<Rightarrow> uri run" where
  "set_fragment = set_part Fragment [Ssp, Fragment] []"

section \<open>Searching and cutting strings\<close>

named_theorems uri_simps \<open>strings at positions given by the lengths of their parts\<close>

lemma str_at_append [uri_simps]: "str_at (a @ c # b) (length a) = Inr c"
  by (simp add: str_at_def)

lemma str_sub_append [uri_simps]: "str_sub (a @ b @ c) (length a) (length b) = Inr b"
  by (simp add: str_sub_def)

lemma str_replace_append [uri_simps]: "str_replace (a @ b @ c) (length a) (length b) t = Inr (a @ t @ c)"
  by (simp add: str_replace_def)

lemma takeWhile_length_less: "length (takeWhile (\<lambda>c. \<not> P c) s) < length s \<longleftrightarrow> (\<exists>c\<in>set s. P c)"
  by (induction s) auto

lemma find_from_append:
  "find_from P (a @ b) (length a) =
    (if \<exists>c\<in>set b. P c then Some (length a + length (takeWhile (\<lambda>c. \<not> P c) b)) else None)"
  using takeWhile_length_less [of P b] by (auto simp: find_from_def Let_def)

lemma find_end_append: "find_end P (a @ b) (length a) = length a + length (takeWhile (\<lambda>c. \<not> P c) b)"
proof (cases "\<exists>c\<in>set b. P c")
  case True
  then show ?thesis by (simp add: find_end_def find_from_append)
next
  case False
  then have "length (takeWhile (\<lambda>c. \<not> P c) b) = length b"
    by (metis (mono_tags, lifting) takeWhile_eq_all_conv)
  then show ?thesis using False by (simp add: find_end_def find_from_append)
qed

section \<open>The components as strings\<close>

text \<open>
  What a URI is about: the text of its components. \<open>v_slashes\<close> and \<open>v_colon\<close> are the
  delimiters, which are there or empty. The userinfo has its \<open>@\<close>, the query its question mark
  and the fragment its number sign, as in the code.
\<close>

record view =
  v_scheme :: string
  v_slashes :: string
  v_userinfo :: string
  v_host :: string
  v_colon :: string
  v_port :: string
  v_path :: string
  v_query :: string
  v_fragment :: string

definition v_authority :: "view \<Rightarrow> string" where
  "v_authority v = v_slashes v @ v_userinfo v @ v_host v @ v_colon v @ v_port v"

definition v_ssp :: "view \<Rightarrow> string" where
  "v_ssp v = v_authority v @ v_path v @ v_query v @ v_fragment v"

definition unparse :: "view \<Rightarrow> string" where
  "unparse v = v_scheme v @ '':'' @ v_ssp v"

text \<open>The string at this place: its component.\<close>

definition located :: "nat \<Rightarrow> string \<Rightarrow> component" where
  "located off s = \<lparr>c_off = off, c_len = length s\<rparr>"

definition view_wf :: "view \<Rightarrow> bool" where
  "view_wf v \<longleftrightarrow> (if v_slashes v = [] then v_userinfo v = [] \<and> v_host v = [] \<and> v_colon v = [] else v_slashes v = ''//'') \<and>
     (if v_colon v = [] then v_port v = [] else v_colon v = '':'')"

fun part_text :: "part \<Rightarrow> view \<Rightarrow> string" where
  "part_text Scheme v = v_scheme v"
| "part_text Ssp v = v_ssp v"
| "part_text Authority v = v_authority v"
| "part_text Userinfo v = v_userinfo v"
| "part_text Host v = v_host v"
| "part_text Port v = v_port v"
| "part_text Path v = v_path v"
| "part_text Query v = v_query v"
| "part_text Fragment v = v_fragment v"

text \<open>What stands before a component.\<close>

fun part_before :: "part \<Rightarrow> view \<Rightarrow> string" where
  "part_before Scheme v = []"
| "part_before Ssp v = v_scheme v @ '':''"
| "part_before Authority v = v_scheme v @ '':''"
| "part_before Userinfo v = v_scheme v @ '':'' @ v_slashes v"
| "part_before Host v = v_scheme v @ '':'' @ v_slashes v @ v_userinfo v"
| "part_before Port v = v_scheme v @ '':'' @ v_slashes v @ v_userinfo v @ v_host v @ v_colon v"
| "part_before Path v = v_scheme v @ '':'' @ v_authority v"
| "part_before Query v = v_scheme v @ '':'' @ v_authority v @ v_path v"
| "part_before Fragment v = v_scheme v @ '':'' @ v_authority v @ v_path v @ v_query v"

definition located_in :: "view \<Rightarrow> part \<Rightarrow> component" where
  "located_in v p = located (length (part_before p v)) (part_text p v)"

definition represents :: "uri \<Rightarrow> view \<Rightarrow> bool" where
  "represents u v \<longleftrightarrow> view_wf v \<and> u_str u = unparse v \<and> (\<forall>p. part_get p u = located_in v p)"

lemmas view_defs = unparse_def v_ssp_def v_authority_def

text \<open>The fields that are not components.\<close>

definition same_rest :: "uri \<Rightarrow> uri \<Rightarrow> bool" where
  "same_rest u u' \<longleftrightarrow> u_err u' = u_err u \<and> u_port_num u' = u_port_num u \<and> u_validate u' = u_validate u \<and>
     u_normalize u' = u_normalize u"

lemma same_rest_trans: "same_rest u u1 \<Longrightarrow> same_rest u1 u2 \<Longrightarrow> same_rest u u2"
  by (simp add: same_rest_def)

lemma part_get_set [simp]: "part_get q (part_set p c u) = (if q = p then c else part_get q u)"
  by (cases q; cases p) simp_all

lemma part_set_rest [simp]: "u_str (part_set p c u) = u_str u" "same_rest u (part_set p c u)"
  by (cases p; simp add: same_rest_def)+

lemma part_set_get [simp]: "part_set p (part_get p u) u = u"
  by (cases p) simp_all

lemma located_sel [simp]: "c_off (located off s) = off" "c_len (located off s) = length s"
  by (simp_all add: located_def)

lemma adjust_offset_eq:
  assumes "0 < c_off c" "int (c_off c) + diff = int k"
  shows "adjust_offset diff c = Inr (c\<lparr>c_off := k\<rparr>)"
proof (cases "0 < diff")
  case True
  with assms have "c_off c + nat diff = k" by linarith
  with True assms show ?thesis by (simp add: adjust_offset_def)
next
  case False
  with assms have "nat (- diff) \<le> c_off c" "c_off c - nat (- diff) = k" by linarith+
  with False assms show ?thesis by (simp add: adjust_offset_def)
qed

lemma adjust_length_eq:
  assumes "int (c_len c) + diff = int k"
  shows "adjust_length diff c = Inr (c\<lparr>c_len := k\<rparr>)"
proof (cases "0 < diff")
  case True
  with assms have "c_len c + nat diff = k" by linarith
  with True show ?thesis by (simp add: adjust_length_def)
next
  case False
  with assms have "nat (- diff) \<le> c_len c" "c_len c - nat (- diff) = k" by linarith+
  with False show ?thesis by (simp add: adjust_length_def)
qed

lemma adjust_none: "adjust_length 0 = Inr" "adjust_offset 0 = Inr"
  by (simp_all add: fun_eq_iff adjust_length_def adjust_offset_def)

lemma adjust_parts_none: "adjust_parts Inr ps u = Inr u"
  by (induction ps) simp_all

lemma adjust_parts_eq:
  "distinct ps \<Longrightarrow> (\<And>p. p \<in> set ps \<Longrightarrow> f (part_get p u) = Inr (g p)) \<Longrightarrow>
    \<exists>u'. adjust_parts f ps u = Inr u' \<and> u_str u' = u_str u \<and> same_rest u u' \<and>
      (\<forall>q. part_get q u' = (if q \<in> set ps then g q else part_get q u))"
proof (induction ps arbitrary: u)
  case Nil
  show ?case by (simp add: same_rest_def)
next
  case (Cons p ps)
  let ?u = "part_set p (g p) u"
  have "f (part_get q ?u) = Inr (g q)" if "q \<in> set ps" for q
    using Cons.prems that by (cases "q = p") auto
  then obtain u' where u': "adjust_parts f ps ?u = Inr u'" "u_str u' = u_str ?u" "same_rest ?u u'"
    "\<forall>q. part_get q u' = (if q \<in> set ps then g q else part_get q ?u)"
    using Cons.IH [of ?u] Cons.prems(1) by auto
  have "f (part_get p u) = Inr (g p)" using Cons.prems(2) by simp
  then show ?case using u' same_rest_trans [OF part_set_rest(2) u'(3)] Cons.prems(1) by auto
qed

text \<open>
  A setter on a view: the text of the component is \<open>t\<close> afterwards, and the lists of the
  components that the code adjusts are complete.
\<close>

definition part_update :: "part \<Rightarrow> part list \<Rightarrow> part list \<Rightarrow> string \<Rightarrow> view \<Rightarrow> view \<Rightarrow> bool" where
  "part_update p longer later t v v' \<longleftrightarrow> view_wf v' \<and> distinct longer \<and> distinct later \<and>
     set longer \<inter> set later = {} \<and>
     (\<exists>c. unparse v = part_before p v @ part_text p v @ c \<and> unparse v' = part_before p v @ t @ c) \<and>
     (\<forall>q. if q \<in> set longer
        then part_before q v' = part_before q v \<and>
          length (part_text q v') + length (part_text p v) = length (part_text q v) + length t
        else if q \<in> set later
        then part_text q v' = part_text q v \<and> part_before q v \<noteq> [] \<and>
          length (part_before q v') + length (part_text p v) = length (part_before q v) + length t
        else located_in v' q = located_in v q)"

lemma set_part_general:
  fixes f g :: "part \<Rightarrow> nat" and x y :: "part \<Rightarrow> string"
  assumes e: "u_err u = URI_PARSE_OK" and s: "u_str u = b @ w @ c" and p: "part_get p u = located (length b) w"
    and d: "distinct longer" "distinct later" "set longer \<inter> set later = {}"
    and long: "\<And>q. q \<in> set longer \<Longrightarrow> part_get q u = located (f q) (x q) \<and> length (y q) + length w = length (x q) + length t"
    and late: "\<And>q. q \<in> set later \<Longrightarrow> part_get q u = located (f q) (x q) \<and> 0 < f q \<and> g q + length w = f q + length t"
  shows "\<exists>u'. set_part p longer later t u = Inr u' \<and> u_str u' = b @ t @ c \<and> same_rest u u' \<and>
    (\<forall>q. part_get q u' = (if q \<in> set longer then located (f q) (y q)
       else if q \<in> set later then located (g q) (x q) else part_get q u))"
proof -
  define diff where "diff = int (length t) - int (length w)"
  let ?u = "u\<lparr>u_str := b @ t @ c\<rparr>"
  have get0: "part_get q ?u = part_get q u" for q by (cases q) simp_all
  have "set_part p longer later t u = (if diff \<noteq> 0
      then bind_run (adjust_parts (adjust_length diff) longer ?u) (adjust_parts (adjust_offset diff) later) else Inr ?u)"
    using e by (simp add: set_part_def p s Let_def str_replace_append diff_def)
  also have "\<dots> = bind_run (adjust_parts (adjust_length diff) longer ?u) (adjust_parts (adjust_offset diff) later)"
    by (simp add: adjust_none adjust_parts_none)
  finally have eq: "set_part p longer later t u = \<dots>" .
  have "adjust_length diff (part_get q ?u) = Inr (located (f q) (y q))" if "q \<in> set longer" for q
    using long [OF that] get0 by (subst adjust_length_eq [where k = "length (y q)"]) (auto simp: located_def diff_def)
  then obtain u1 where u1: "adjust_parts (adjust_length diff) longer ?u = Inr u1" "u_str u1 = b @ t @ c" "same_rest ?u u1"
    "\<And>q. part_get q u1 = (if q \<in> set longer then located (f q) (y q) else part_get q u)"
    using adjust_parts_eq [of longer "adjust_length diff" ?u "\<lambda>q. located (f q) (y q)"] d get0 by auto
  have "adjust_offset diff (part_get q u1) = Inr (located (g q) (x q))" if "q \<in> set later" for q
  proof -
    have "q \<notin> set longer" using d that by auto
    then show ?thesis using late [OF that] u1(4)
      by (subst adjust_offset_eq [where k = "g q"]) (auto simp: located_def diff_def)
  qed
  then obtain u2 where u2: "adjust_parts (adjust_offset diff) later u1 = Inr u2" "u_str u2 = b @ t @ c" "same_rest u1 u2"
    "\<And>q. part_get q u2 = (if q \<in> set later then located (g q) (x q) else part_get q u1)"
    using adjust_parts_eq [of later "adjust_offset diff" u1 "\<lambda>q. located (g q) (x q)"] d u1(2) by auto
  have "part_get q u2 = (if q \<in> set longer then located (f q) (y q)
       else if q \<in> set later then located (g q) (x q) else part_get q u)" for q
    using u2(4) u1(4) d(3) by auto
  moreover have "same_rest u u2" using u1(3) u2(3) by (simp add: same_rest_def)
  ultimately show ?thesis using eq u1(1) u2(1,2) by auto
qed

lemma set_part_view:
  assumes r: "represents u v" and e: "u_err u = URI_PARSE_OK" and v: "part_update p longer later t v v'"
  shows "\<exists>u'. set_part p longer later t u = Inr u' \<and> represents u' v' \<and> same_rest u u'"
proof -
  have get: "part_get q u = located (length (part_before q v)) (part_text q v)" for q
    using r by (simp add: represents_def located_in_def)
  obtain c where c: "u_str u = part_before p v @ part_text p v @ c" "unparse v' = part_before p v @ t @ c"
    using v r by (auto simp: part_update_def represents_def)
  have d: "distinct longer" "distinct later" "set longer \<inter> set later = {}" using v by (simp_all add: part_update_def)
  have l: "part_before q v' = part_before q v"
    "length (part_text q v') + length (part_text p v) = length (part_text q v) + length t" if "q \<in> set longer" for q
    using v that unfolding part_update_def by (auto dest!: spec [of _ q])
  have a: "part_text q v' = part_text q v" "0 < length (part_before q v)"
    "length (part_before q v') + length (part_text p v) = length (part_before q v) + length t" if "q \<in> set later" for q
  proof -
    have "q \<notin> set longer" using that d(3) by blast
    then show "part_text q v' = part_text q v" "0 < length (part_before q v)"
      "length (part_before q v') + length (part_text p v) = length (part_before q v) + length t"
      using v that unfolding part_update_def by (auto dest!: spec [of _ q])
  qed
  have o: "located_in v' q = located_in v q" if "q \<notin> set longer" "q \<notin> set later" for q
    using v that unfolding part_update_def by (auto dest!: spec [of _ q])
  have "\<exists>u'. set_part p longer later t u = Inr u' \<and> u_str u' = part_before p v @ t @ c \<and> same_rest u u' \<and>
    (\<forall>q. part_get q u' = (if q \<in> set longer then located (length (part_before q v)) (part_text q v')
       else if q \<in> set later then located (length (part_before q v')) (part_text q v) else part_get q u))"
    by (rule set_part_general [OF e c(1) get d]) (use get l a in auto)
  then obtain u' where u': "set_part p longer later t u = Inr u'" "u_str u' = unparse v'" "same_rest u u'"
    "\<And>q. part_get q u' = (if q \<in> set longer then located (length (part_before q v)) (part_text q v')
       else if q \<in> set later then located (length (part_before q v')) (part_text q v) else part_get q u)"
    using c(2) by auto
  have "part_get q u' = located_in v' q" for q
    using u'(4) l a o get by (auto simp: located_in_def)
  then show ?thesis using u' v by (auto simp: represents_def part_update_def)
qed

lemma all_parts: "(\<forall>p. P p) \<longleftrightarrow> P Scheme \<and> P Ssp \<and> P Authority \<and> P Userinfo \<and> P Host \<and> P Port \<and> P Path \<and> P Query \<and> P Fragment"
  by (metis part.exhaust)

lemmas part_update_simps = part_update_def all_parts view_defs located_in_def

lemma set_path_view:
  assumes "represents u v" "u_err u = URI_PARSE_OK"
  shows "\<exists>u'. set_path t u = Inr u' \<and> represents u' (v\<lparr>v_path := t\<rparr>) \<and> same_rest u u'"
  unfolding set_path_def using assms
  by (intro set_part_view [OF assms]) (auto simp: part_update_simps represents_def view_wf_def)

lemma set_query_view:
  assumes "represents u v" "u_err u = URI_PARSE_OK"
  shows "\<exists>u'. set_query t u = Inr u' \<and> represents u' (v\<lparr>v_query := t\<rparr>) \<and> same_rest u u'"
  unfolding set_query_def using assms
  by (intro set_part_view [OF assms]) (auto simp: part_update_simps represents_def view_wf_def)

lemma set_fragment_view:
  assumes "represents u v" "u_err u = URI_PARSE_OK"
  shows "\<exists>u'. set_fragment t u = Inr u' \<and> represents u' (v\<lparr>v_fragment := t\<rparr>) \<and> same_rest u u'"
  unfolding set_fragment_def using assms
  by (intro set_part_view [OF assms]) (auto simp: part_update_simps represents_def view_wf_def)

lemma set_scheme_view:
  assumes "represents u v" "u_err u = URI_PARSE_OK"
  shows "\<exists>u'. set_scheme t u = Inr u' \<and> represents u' (v\<lparr>v_scheme := t\<rparr>) \<and> same_rest u u'"
  unfolding set_scheme_def using assms
  by (intro set_part_view [OF assms]) (auto simp: part_update_simps represents_def view_wf_def)

lemma set_userinfo_view:
  assumes "represents u v" "u_err u = URI_PARSE_OK" "v_slashes v \<noteq> []"
  shows "\<exists>u'. set_userinfo t u = Inr u' \<and> represents u' (v\<lparr>v_userinfo := t\<rparr>) \<and> same_rest u u'"
  unfolding set_userinfo_def using assms
  by (intro set_part_view [OF assms(1,2)]) (auto simp: part_update_simps represents_def view_wf_def)

lemma set_host_view:
  assumes "represents u v" "u_err u = URI_PARSE_OK" "v_slashes v \<noteq> []"
  shows "\<exists>u'. set_host t u = Inr u' \<and> represents u' (v\<lparr>v_host := t\<rparr>) \<and> same_rest u u'"
  unfolding set_host_def using assms
  by (intro set_part_view [OF assms(1,2)]) (auto simp: part_update_simps represents_def view_wf_def)

lemma set_port_part_view:
  assumes "represents u v" "u_err u = URI_PARSE_OK" "v_colon v \<noteq> []"
  shows "\<exists>u'. set_part Port [Ssp, Authority, Port] [Path, Query, Fragment] t u = Inr u' \<and>
    represents u' (v\<lparr>v_port := t\<rparr>) \<and> same_rest u u'"
  using assms
  by (intro set_part_view [OF assms(1,2)]) (auto simp: part_update_simps represents_def view_wf_def)

section \<open>The components of a string\<close>

definition split_authority :: "string \<Rightarrow> string" where
  "split_authority s =
     (if take 2 s = ''//'' then ''//'' @ takeWhile (\<lambda>c. \<not> (c = CHR ''/'' \<or> c = CHR ''?'' \<or> c = CHR ''#'')) (drop 2 s)
      else [])"

definition split_path :: "string \<Rightarrow> string" where
  "split_path s = takeWhile (\<lambda>c. \<not> (c = CHR ''?'' \<or> c = CHR ''#'')) s"

definition split_query :: "string \<Rightarrow> string" where
  "split_query s = (if s \<noteq> [] \<and> hd s = CHR ''?'' then takeWhile (\<lambda>c. c \<noteq> CHR ''#'') s else [])"

definition split_userinfo :: "string \<Rightarrow> string" where
  "split_userinfo s = (if CHR ''@'' \<in> set s then takeWhile (\<lambda>c. c \<noteq> CHR ''@'') s @ ''@'' else [])"

definition split_host :: "string \<Rightarrow> string \<Rightarrow> string option" where
  "split_host scheme s =
     (if s = [] then Some []
      else if hd s = CHR ''['' then
        (if CHR '']'' \<in> set s then Some (takeWhile (\<lambda>c. c \<noteq> CHR '']'') s @ '']'') else None)
      else if scheme = ''eth'' then Some s
      else Some (takeWhile (\<lambda>c. c \<noteq> CHR '':'') s))"

definition split_uri :: "string \<Rightarrow> string \<Rightarrow> uri_parse_err + view" where
  "split_uri scheme s =
     (let authority = split_authority s; s1 = drop (length authority) s; path = split_path s1;
          s2 = drop (length path) s1; query = split_query s2; fragment = drop (length query) s2;
          a1 = drop 2 authority; userinfo = split_userinfo a1; a2 = drop (length userinfo) a1
      in case split_host scheme a2 of
           None \<Rightarrow> Inl URI_PARSE_BAD_IP_LITERAL
         | Some host \<Rightarrow>
             (let a3 = drop (length host) a2
              in if a3 \<noteq> [] \<and> hd a3 \<noteq> CHR '':'' then Inl URI_PARSE_BAD_PORT
                 else Inr \<lparr>v_scheme = scheme, v_slashes = take 2 authority, v_userinfo = userinfo, v_host = host,
                   v_colon = take 1 a3, v_port = drop 1 a3, v_path = path, v_query = query, v_fragment = fragment\<rparr>))"

lemma takeWhile_prefix: "\<exists>b. s = takeWhile P s @ b" "drop (length (takeWhile P s)) s = dropWhile P s"
  by (metis takeWhile_dropWhile_id, metis append_eq_conv_conj takeWhile_dropWhile_id)

lemma split_pieces:
  "split_authority s @ drop (length (split_authority s)) s = s"
  "split_path s @ drop (length (split_path s)) s = s"
  "split_query s @ drop (length (split_query s)) s = s"
proof -
  show "split_authority s @ drop (length (split_authority s)) s = s"
  proof (cases "take 2 s = ''//''")
    case True
    then obtain b where "s = ''//'' @ b" by (metis append_take_drop_id)
    then show ?thesis by (simp add: split_authority_def takeWhile_prefix(2))
  qed (simp add: split_authority_def)
qed (simp_all add: split_path_def split_query_def takeWhile_prefix(2))

lemma str_at_here: "b \<noteq> [] \<Longrightarrow> str_at (a @ b) (length a) = Inr (hd b)"
  by (cases b) (simp_all add: str_at_append)

lemma find_end_le: "p \<le> length s \<Longrightarrow> p \<le> find_end P s p \<and> find_end P s p \<le> length s"
  using find_end_append [of P "take p s" "drop p s"]
  by (simp add: min_absorb2) (metis length_drop length_takeWhile_le le_add_diff_inverse nat_add_left_cancel_le)

lemma ssp_authority_eq:
  "ssp_authority (a @ s) (length s) (length a) =
    Inr (located (length a) (split_authority s), length a + length (split_authority s))"
proof (cases "take 2 s = ''//''")
  case True
  then obtain b where s: "s = CHR ''/'' # CHR ''/'' # b" by (metis append_Cons append_Nil append_take_drop_id)
  have at: "str_at (a @ s) (length a) = Inr CHR ''/''" "str_at (a @ s) (Suc (length a)) = Inr CHR ''/''"
    by (simp_all add: str_at_def s nth_append)
  have "find_end P (a @ s) (length a + 2) = length a + 2 + length (takeWhile (\<lambda>c. \<not> P c) b)" for P
    using find_end_append [of P "a @ ''//''" b] by (simp add: s)
  then show ?thesis using at by (simp add: ssp_authority_def split_authority_def comp_upto_checked_def comp_upto_def
        located_def s)
next
  case False
  have "s = [] \<or> (\<exists>c. s = [c]) \<or> (\<exists>c d b. s = c # d # b)" by (metis list.exhaust)
  then show ?thesis using False
    by (auto simp: ssp_authority_def split_authority_def comp_upto_def located_def str_at_def nth_append)
qed

lemma ssp_path_eq:
  "ssp_path (a @ s) (length a) = (located (length a) (split_path s), length a + length (split_path s))"
  by (simp add: ssp_path_def split_path_def find_end_append comp_upto_def located_def)

lemma ssp_query_eq:
  "ssp_query (a @ s) (length a) =
    Inr (located (length a) (split_query s), length a + length (split_query s))"
  by (cases s) (simp_all add: ssp_query_def split_query_def find_end_append comp_upto_def comp_upto_checked_def
      located_def str_at_append)

lemma ssp_fragment_eq:
  "s = [] \<or> hd s = CHR ''#'' \<Longrightarrow> ssp_fragment (a @ s) (length a) = Inr (located (length a) s, length a + length s)"
  by (cases s) (simp_all add: ssp_fragment_def comp_upto_def comp_upto_checked_def located_def str_at_append)

lemma split_query_rest:
  "drop (length (split_query (drop (length (split_path s)) s))) (drop (length (split_path s)) s) = [] \<or>
    hd (drop (length (split_query (drop (length (split_path s)) s))) (drop (length (split_path s)) s)) = CHR ''#''"
proof -
  let ?r = "drop (length (split_path s)) s"
  have r: "?r = dropWhile (\<lambda>c. \<not> (c = CHR ''?'' \<or> c = CHR ''#'')) s" by (simp add: split_path_def takeWhile_prefix(2))
  show ?thesis
  proof (cases "?r \<noteq> [] \<and> hd ?r = CHR ''?''")
    case True
    then have "drop (length (split_query ?r)) ?r = dropWhile (\<lambda>c. c \<noteq> CHR ''#'') ?r"
      by (simp add: split_query_def takeWhile_prefix(2) del: drop_drop)
    then show ?thesis using hd_dropWhile [of "\<lambda>c. c \<noteq> CHR ''#''" ?r] by auto
  next
    case False
    then have "drop (length (split_query ?r)) ?r = ?r" by (auto simp: split_query_def simp del: drop_drop)
    then show ?thesis using False hd_dropWhile [of "\<lambda>c. \<not> (c = CHR ''?'' \<or> c = CHR ''#'')" s] r by auto
  qed
qed

lemma parse_generic_ssp_eq:
  assumes "u_str u = a @ s" "u_ssp u = located (length a) s"
  defines "authority \<equiv> split_authority s" and "s1 \<equiv> drop (length (split_authority s)) s"
  defines "s2 \<equiv> drop (length (split_path s1)) s1"
  shows "\<exists>u'. parse_generic_ssp u = Inr (URI_PARSE_OK, u') \<and> u_str u' = u_str u \<and> same_rest u u' \<and>
    u_scheme u' = u_scheme u \<and> u_ssp u' = u_ssp u \<and>
    u_authority u' = located (length a) authority \<and>
    u_path u' = located (length a + length authority) (split_path s1) \<and>
    u_query u' = located (length a + length authority + length (split_path s1)) (split_query s2) \<and>
    u_fragment u' = located (length a + length authority + length (split_path s1) + length (split_query s2))
      (drop (length (split_query s2)) s2)"
proof (cases "s = []")
  case True
  then show ?thesis using assms by (simp add: parse_generic_ssp_def same_rest_def located_def split_authority_def
        split_path_def split_query_def)
next
  case False
  have c: "s = authority @ s1" "s1 = split_path s1 @ s2" "s2 = split_query s2 @ drop (length (split_query s2)) s2"
    using split_pieces [of s] split_pieces [of s1] split_pieces [of s2] by (simp_all add: authority_def s1_def s2_def)
  have p1: "ssp_path (a @ s) (length a + length authority) =
      (located (length a + length authority) (split_path s1), length a + length authority + length (split_path s1))"
    using ssp_path_eq [of "a @ authority" s1] c(1) by simp
  have p2: "ssp_query (a @ s) (length a + length authority + length (split_path s1)) =
      Inr (located (length a + length authority + length (split_path s1)) (split_query s2),
           length a + length authority + length (split_path s1) + length (split_query s2))"
    using ssp_query_eq [of "a @ authority @ split_path s1" s2] c by (metis append.assoc length_append)
  have p3: "ssp_fragment (a @ s) (length a + length authority + length (split_path s1) + length (split_query s2)) =
      Inr (located (length a + length authority + length (split_path s1) + length (split_query s2))
             (drop (length (split_query s2)) s2), length (a @ s))"
  proof -
    have "a @ s = (a @ authority @ split_path s1 @ split_query s2) @ drop (length (split_query s2)) s2"
      using c by (metis append.assoc)
    with ssp_fragment_eq [OF split_query_rest, of "a @ authority @ split_path s1 @ split_query s2" s1]
    show ?thesis unfolding s2_def [symmetric] by (metis add.assoc length_append)
  qed
  show ?thesis using False assms(1,2) p1 p2 p3 ssp_authority_eq [of a s]
    by (simp add: parse_generic_ssp_def same_rest_def flip: authority_def)
qed

text \<open>The authority: its parts, or the error.\<close>

definition split_parts :: "string \<Rightarrow> string \<Rightarrow> uri_parse_err + (string \<times> string \<times> string \<times> string)" where
  "split_parts scheme authority =
     (let a1 = drop 2 authority; userinfo = split_userinfo a1; a2 = drop (length userinfo) a1
      in case split_host scheme a2 of
           None \<Rightarrow> Inl URI_PARSE_BAD_IP_LITERAL
         | Some host \<Rightarrow>
             (let a3 = drop (length host) a2
              in if a3 \<noteq> [] \<and> hd a3 \<noteq> CHR '':'' then Inl URI_PARSE_BAD_PORT
                 else Inr (userinfo, host, take 1 a3, drop 1 a3)))"

text \<open>What \<open>port_num_\<close> is set to: it stays as it is without a port.\<close>

definition port_number :: "string \<Rightarrow> u32 \<Rightarrow> u32 run" where
  "port_number port old = (if port = [] then Inr old else bind_run (atoi port) (\<lambda>n. Inr (of_int n)))"

lemma split_userinfo_rest: "split_userinfo s @ drop (length (split_userinfo s)) s = s"
proof (cases "CHR ''@'' \<in> set s")
  case True
  then obtain b c where "s = b @ CHR ''@'' # c" "CHR ''@'' \<notin> set b" by (metis split_list_first)
  then show ?thesis by (simp add: split_userinfo_def takeWhile_append)
qed (simp add: split_userinfo_def)

lemma split_host_rest: "split_host scheme s = Some h \<Longrightarrow> h @ drop (length h) s = s"
proof (cases "s \<noteq> [] \<and> hd s = CHR ''['' \<and> CHR '']'' \<in> set s")
  case True
  then obtain b c where s: "s = b @ CHR '']'' # c" "CHR '']'' \<notin> set b" by (metis split_list_first)
  then have "takeWhile (\<lambda>c. c \<noteq> CHR '']'') s = b" by (auto simp: takeWhile_append)
  moreover assume "split_host scheme s = Some h"
  ultimately show ?thesis using True s by (auto simp: split_host_def)
next
  case False
  assume "split_host scheme s = Some h"
  with False show ?thesis by (auto simp: split_host_def takeWhile_prefix(2) split: if_splits)
qed

lemma userinfo_end:
  "(case find_from (\<lambda>c. c = CHR ''@'') (a @ s) (length a) of None \<Rightarrow> length a | Some e \<Rightarrow> e + 1) =
    length a + length (split_userinfo s)"
  by (simp add: find_from_append split_userinfo_def)

lemma host_end_eq:
  "s \<noteq> [] \<Longrightarrow> host_end scheme (a @ s) (length a) =
    Inr (case split_host scheme s of None \<Rightarrow> Inl URI_PARSE_BAD_IP_LITERAL | Some h \<Rightarrow> Inr (length a + length h))"
  by (simp add: host_end_def str_at_here find_from_append find_end_append split_host_def)

lemma authority_port_eq:
  assumes "u_str u = b @ a @ s @ c" "c_off (u_authority u) = length b"
  shows "authority_port (a @ s) (length a) u =
    (if s = [] then Inr (URI_PARSE_OK, u\<lparr>u_port := located (length b + length a) []\<rparr>)
     else if hd s \<noteq> CHR '':'' then Inr (URI_PARSE_BAD_PORT, u)
     else bind_run (port_number (tl s) (u_port_num u)) (\<lambda>n. Inr (URI_PARSE_OK,
       u\<lparr>u_port := located (length b + length a + 1) (tl s), u_port_num := n\<rparr>)))"
proof (cases s)
  case (Cons x r)
  have "str_sub (b @ a @ x # r @ c) (Suc (length b + length a)) (length r) = Inr r"
    using str_sub_append [of "b @ a @ [x]" r c] by simp
  then show ?thesis using assms Cons
    by (auto simp: authority_port_def str_at_append comp_str_def located_def port_number_def bind_run_assoc)
qed (use assms in \<open>simp add: authority_port_def located_def\<close>)

lemma parse_authority_eq:
  assumes s: "u_str u = b @ authority @ c" and a: "u_authority u = located (length b) authority"
    and d: "authority = [] \<or> take 2 authority = ''//''" and n: "comp_str u_scheme u = Inr scheme"
  shows "case split_parts scheme authority of
      Inl e \<Rightarrow> \<exists>u'. parse_authority u = Inr (e, u') \<and> same_rest u u'
    | Inr (userinfo, host, colon, port) \<Rightarrow> parse_authority u = bind_run (port_number port (u_port_num u)) (\<lambda>n.
        Inr (URI_PARSE_OK, u\<lparr>u_userinfo := located (length b + length (take 2 authority)) userinfo,
          u_host := located (length b + length (take 2 authority) + length userinfo) host,
          u_port := located (length b + length (take 2 authority) + length userinfo + length host + length colon) port,
          u_port_num := n\<rparr>))"
proof (cases "authority = []")
  case True
  then show ?thesis using a
    by (simp add: split_parts_def split_userinfo_def split_host_def parse_authority_def located_def port_number_def)
next
  case False
  with d obtain r where r: "authority = ''//'' @ r" by (metis append_take_drop_id)
  let ?ui = "split_userinfo r" and ?r2 = "drop (length (split_userinfo r)) r"
  let ?u1 = "u\<lparr>u_userinfo := \<lparr>c_off = length b + 2, c_len = length ?ui\<rparr>\<rparr>"
  have r2: "r = ?ui @ ?r2" by (rule split_userinfo_rest [symmetric])
  have str: "comp_str u_authority u = Inr authority" by (simp add: comp_str_def s a str_sub_append)
  have ue: "(case find_from (\<lambda>c. c = CHR ''@'') authority 2 of None \<Rightarrow> 2 | Some e \<Rightarrow> e + 1) = 2 + length ?ui"
    using userinfo_end [of "''//''" r] by (simp add: r numeral_2_eq_2 cong: option.case_cong)
  have pre: "authority = (''//'' @ ?ui) @ ?r2" "2 + length ?ui = length (''//'' @ ?ui)" using r r2 by simp_all
  have main: "parse_authority u = (if ?r2 \<noteq> [] then
      (case split_host scheme ?r2 of
         None \<Rightarrow> Inr (URI_PARSE_BAD_IP_LITERAL, ?u1)
       | Some h \<Rightarrow> authority_port authority (2 + length ?ui + length h)
           (?u1\<lparr>u_host := \<lparr>c_off = length b + (2 + length ?ui), c_len = length h\<rparr>\<rparr>))
      else authority_port authority (2 + length ?ui) (?u1\<lparr>u_host := \<lparr>c_off = length b + (2 + length ?ui), c_len = 0\<rparr>\<rparr>))"
  proof -
    have l: "length authority = 2 + length ?ui + length ?r2" using arg_cong [OF pre(1), of length] by simp
    have h: "?r2 \<noteq> [] \<Longrightarrow> host_end scheme authority (2 + length ?ui) = Inr (case split_host scheme ?r2 of
        None \<Rightarrow> Inl URI_PARSE_BAD_IP_LITERAL | Some h \<Rightarrow> Inr (2 + length ?ui + length h))"
      unfolding pre(2) by (subst pre(1)) (rule host_end_eq)
    have e: "2 + length ?ui \<noteq> length authority \<longleftrightarrow> ?r2 \<noteq> []" using l by simp
    have t: "2 \<le> length authority" "take 2 authority = ''//''" "c_len (u_authority u) \<noteq> 0" "c_off (u_authority u) = length b"
      using r a by simp_all
    show ?thesis
    proof (cases "?r2 = []")
      case True
      then show ?thesis using t by (simp only: parse_authority_def str Let_def ue e n h bind_run_Inr assert_run_True
            if_False if_True add_diff_cancel_left' simp_thms)
    next
      case False
      then show ?thesis using t by (simp only: parse_authority_def str Let_def ue e n h bind_run_Inr assert_run_True
            if_False if_True add_diff_cancel_left' simp_thms) (simp add: add.assoc split: option.split)
    qed
  qed
  show ?thesis
  proof (cases "split_host scheme ?r2")
    case None
    moreover have "?r2 \<noteq> []" using None by (auto simp: split_host_def)
    ultimately show ?thesis using main by (simp add: split_parts_def r same_rest_def)
  next
    case (Some h)
    let ?r3 = "drop (length h) ?r2"
    let ?u2 = "?u1\<lparr>u_host := \<lparr>c_off = length b + (2 + length ?ui), c_len = length h\<rparr>\<rparr>"
    have r3: "?r2 = h @ ?r3" by (rule split_host_rest [OF Some, symmetric])
    have h0: "?r2 = [] \<Longrightarrow> h = []" using Some by (simp add: split_host_def)
    have pa: "parse_authority u = authority_port authority (2 + length ?ui + length h) ?u2"
      using main Some h0 by (cases "?r2 = []") auto
    have e: "authority = (''//'' @ ?ui @ h) @ ?r3" using pre(1) r3 by simp
    have l: "2 + length ?ui + length h = length (''//'' @ ?ui @ h)" by simp
    have "authority_port authority (2 + length ?ui + length h) ?u2 = authority_port ((''//'' @ ?ui @ h) @ ?r3) (length (''//'' @ ?ui @ h)) ?u2"
      unfolding l using e by metis
    also have "\<dots> = (if ?r3 = [] then Inr (URI_PARSE_OK, ?u2\<lparr>u_port := located (length b + length (''//'' @ ?ui @ h)) []\<rparr>)
     else if hd ?r3 \<noteq> CHR '':'' then Inr (URI_PARSE_BAD_PORT, ?u2)
     else bind_run (port_number (tl ?r3) (u_port_num ?u2)) (\<lambda>n. Inr (URI_PARSE_OK,
       ?u2\<lparr>u_port := located (length b + length (''//'' @ ?ui @ h) + 1) (tl ?r3), u_port_num := n\<rparr>)))"
      using s a e by (intro authority_port_eq [where c = c]) auto
    finally have pa2: "parse_authority u = \<dots>" using pa by simp
    have sp: "split_parts scheme authority = (if ?r3 \<noteq> [] \<and> hd ?r3 \<noteq> CHR '':'' then Inl URI_PARSE_BAD_PORT
       else Inr (?ui, h, take 1 ?r3, drop 1 ?r3))" using Some by (simp add: split_parts_def r Let_def)
    have t2: "take 2 authority = ''//''" by (simp add: r)
    show ?thesis
    proof (cases "?r3 = []")
      case True
      then show ?thesis using pa2 by (simp add: sp t2 port_number_def located_def)
    next
      case r3: False
      show ?thesis
      proof (cases "hd ?r3 = CHR '':''")
        case True
        obtain x y where xy: "?r3 = x # y" using r3 by (cases ?r3) auto
        show ?thesis using pa2 True unfolding sp t2 xy by (simp add: located_def add.assoc)
      next
        case False
        then show ?thesis using pa2 r3 by (simp add: sp same_rest_def)
      qed
    qed
  qed
qed

lemma split_uri_parts:
  "split_uri scheme s = (case split_parts scheme (split_authority s) of
      Inl e \<Rightarrow> Inl e
    | Inr (userinfo, host, colon, port) \<Rightarrow>
        (let s1 = drop (length (split_authority s)) s; s2 = drop (length (split_path s1)) s1
         in Inr \<lparr>v_scheme = scheme, v_slashes = take 2 (split_authority s), v_userinfo = userinfo, v_host = host,
              v_colon = colon, v_port = port, v_path = split_path s1, v_query = split_query s2,
              v_fragment = drop (length (split_query s2)) s2\<rparr>))"
  by (simp add: split_uri_def split_parts_def Let_def del: drop_drop split: option.split)

lemma split_parts_join:
  assumes "split_parts scheme authority = Inr (userinfo, host, colon, port)"
  shows "take 2 authority @ userinfo @ host @ colon @ port = authority"
    and "colon = [] \<and> port = [] \<or> colon = '':''"
    and "take 2 authority = [] \<Longrightarrow> userinfo = [] \<and> host = [] \<and> colon = []"
proof -
  let ?a1 = "drop 2 authority"
  let ?a2 = "drop (length (split_userinfo ?a1)) ?a1"
  obtain h where h: "split_host scheme ?a2 = Some h" "userinfo = split_userinfo ?a1" "host = h"
    "colon = take 1 (drop (length h) ?a2)" "port = drop 1 (drop (length h) ?a2)"
    "drop (length h) ?a2 = [] \<or> hd (drop (length h) ?a2) = CHR '':''"
    using assms by (auto simp: split_parts_def Let_def simp del: drop_drop split: option.splits if_splits)
  have "userinfo @ host @ colon @ port = ?a1"
    using split_userinfo_rest [of ?a1] split_host_rest [OF h(1)] h(2-5) by (metis append_take_drop_id)
  then show "take 2 authority @ userinfo @ host @ colon @ port = authority" by simp
  show "colon = [] \<and> port = [] \<or> colon = '':''"
    using h(4-6) by (cases "drop (length h) ?a2") (auto simp del: drop_drop)
  show "userinfo = [] \<and> host = [] \<and> colon = []" if "take 2 authority = []"
    using that h(1-4) by (simp add: split_userinfo_def split_host_def)
qed

lemma split_authority_slashes: "split_authority s = [] \<or> take 2 (split_authority s) = ''//''"
  by (simp add: split_authority_def numeral_2_eq_2)

lemma parse_components_eq:
  assumes s: "u_str u = scheme @ '':'' @ s" and n: "u_scheme u = located 0 scheme"
    and p: "u_ssp u = located (length scheme + 1) s"
  shows "case split_uri scheme s of
      Inl e \<Rightarrow> \<exists>u'. parse_components u = Inr (e, u') \<and> same_rest u u'
    | Inr v \<Rightarrow> \<exists>u'. parse_components u = bind_run (port_number (v_port v) (u_port_num u)) (\<lambda>n.
        Inr (URI_PARSE_OK, u'\<lparr>u_port_num := n\<rparr>)) \<and> represents u' v \<and> same_rest u u'"
proof -
  let ?a = "scheme @ '':''"
  let ?auth = "split_authority s" and ?s1 = "drop (length (split_authority s)) s"
  let ?s2 = "drop (length (split_path ?s1)) ?s1"
  have s': "u_str u = ?a @ s" and p': "u_ssp u = located (length ?a) s" using s p by simp_all
  obtain u1 where u1: "parse_generic_ssp u = Inr (URI_PARSE_OK, u1)" "u_str u1 = u_str u" "same_rest u u1"
    "u_scheme u1 = u_scheme u" "u_ssp u1 = u_ssp u" "u_authority u1 = located (length ?a) ?auth"
    "u_path u1 = located (length ?a + length ?auth) (split_path ?s1)"
    "u_query u1 = located (length ?a + length ?auth + length (split_path ?s1)) (split_query ?s2)"
    "u_fragment u1 = located (length ?a + length ?auth + length (split_path ?s1) + length (split_query ?s2))
      (drop (length (split_query ?s2)) ?s2)"
    using parse_generic_ssp_eq [OF s' p'] by blast
  have str1: "u_str u1 = ?a @ ?auth @ ?s1" using u1(2) s split_pieces(1) [of s] by simp
  have sch: "comp_str u_scheme u1 = Inr scheme"
    using u1(2,4) s n str_sub_append [of "[]" scheme] by (simp add: comp_str_def)
  note pa = parse_authority_eq [OF str1 u1(6) split_authority_slashes sch]
  have pc: "parse_components u = parse_authority u1" by (simp add: parse_components_def u1(1))
  have pn: "u_port_num u1 = u_port_num u" using u1(3) by (simp add: same_rest_def)
  show ?thesis
  proof (cases "split_parts scheme ?auth")
    case (Inl e)
    with pa pc u1(3) show ?thesis by (auto simp: split_uri_parts intro: same_rest_trans)
  next
    case (Inr r)
    obtain ui h co po where r: "r = (ui, h, co, po)" by (cases r) auto
    note j = split_parts_join [OF Inr [unfolded r]]
    let ?v = "\<lparr>v_scheme = scheme, v_slashes = take 2 ?auth, v_userinfo = ui, v_host = h,
              v_colon = co, v_port = po, v_path = split_path ?s1, v_query = split_query ?s2,
              v_fragment = drop (length (split_query ?s2)) ?s2\<rparr>"
    have v: "split_uri scheme s = Inr ?v" using Inr r by (simp add: split_uri_parts Let_def del: drop_drop)
    let ?u = "u1\<lparr>u_userinfo := located (length ?a + length (take 2 ?auth)) ui,
          u_host := located (length ?a + length (take 2 ?auth) + length ui) h,
          u_port := located (length ?a + length (take 2 ?auth) + length ui + length h + length co) po\<rparr>"
    have eq: "parse_components u = bind_run (port_number po (u_port_num u)) (\<lambda>n. Inr (URI_PARSE_OK, ?u\<lparr>u_port_num := n\<rparr>))"
      using pa Inr r pc pn by simp
    have wf: "view_wf ?v" using j(2,3) split_authority_slashes [of s] by (auto simp: view_wf_def)
    have auth: "v_authority ?v = ?auth" using j(1) by (simp add: v_authority_def)
    have ssp: "v_ssp ?v = s" unfolding v_ssp_def auth
      using split_pieces(1) [of s] split_pieces(2) [of ?s1] split_pieces(3) [of ?s2] by simp
    have "part_get q ?u = located_in ?v q" for q
      using u1 n p ssp auth by (cases q) (simp_all add: located_in_def)
    then have "represents ?u ?v" using wf s u1(2) ssp by (simp add: represents_def unparse_def)
    moreover have "same_rest u ?u" using u1(3) by (simp add: same_rest_def)
    ultimately show ?thesis using eq v by auto
  qed
qed

section \<open>The generic grammar\<close>

definition authority_generic :: "string \<Rightarrow> string \<Rightarrow> string \<Rightarrow> string \<Rightarrow> string \<Rightarrow> bool" where
  "authority_generic scheme userinfo host colon port \<longleftrightarrow>
     (if userinfo = [] then CHR ''@'' \<notin> set (host @ colon @ port)
      else last userinfo = CHR ''@'' \<and> CHR ''@'' \<notin> set (butlast userinfo)) \<and>
     (if host \<noteq> [] \<and> hd host = CHR ''[''
      then last host = CHR '']'' \<and> CHR '']'' \<notin> set (butlast host)
      else if scheme = ''eth'' then colon = [] else CHR '':'' \<notin> set host)"

definition view_generic :: "view \<Rightarrow> bool" where
  "view_generic v \<longleftrightarrow> view_wf v \<and>
     authority_generic (v_scheme v) (v_userinfo v) (v_host v) (v_colon v) (v_port v) \<and>
     (\<forall>c \<in> set (drop 2 (v_authority v)). c \<noteq> CHR ''/'' \<and> c \<noteq> CHR ''?'' \<and> c \<noteq> CHR ''#'') \<and>
     (\<forall>c \<in> set (v_path v). c \<noteq> CHR ''?'' \<and> c \<noteq> CHR ''#'') \<and>
     (if v_slashes v = [] then take 2 (v_path v) \<noteq> ''//'' else v_path v = [] \<or> hd (v_path v) = CHR ''/'') \<and>
     (v_query v = [] \<or> hd (v_query v) = CHR ''?'' \<and> CHR ''#'' \<notin> set (v_query v)) \<and>
     (v_fragment v = [] \<or> hd (v_fragment v) = CHR ''#'')"

lemma takeWhile_upto: "(\<forall>c\<in>set a. P c) \<Longrightarrow> b = [] \<or> \<not> P (hd b) \<Longrightarrow> takeWhile P (a @ b) = a"
  by (cases b) (auto simp: takeWhile_append)

lemma snoc_split: "u \<noteq> [] \<Longrightarrow> u = butlast u @ [last u]"
  by simp

lemma split_userinfo_iff:
  "split_userinfo s = u \<and> drop (length u) s = r \<longleftrightarrow>
    s = u @ r \<and> (if u = [] then CHR ''@'' \<notin> set r else last u = CHR ''@'' \<and> CHR ''@'' \<notin> set (butlast u))"
proof
  assume u: "split_userinfo s = u \<and> drop (length u) s = r"
  then have "s = u @ r" using split_userinfo_rest [of s] by metis
  moreover have "if u = [] then CHR ''@'' \<notin> set s else last u = CHR ''@'' \<and> CHR ''@'' \<notin> set (butlast u)"
  proof (cases "CHR ''@'' \<in> set s")
    case True
    moreover define w where "w = takeWhile (\<lambda>c. c \<noteq> CHR ''@'') s"
    moreover have "CHR ''@'' \<notin> set w" by (auto simp: w_def dest: set_takeWhileD)
    ultimately show ?thesis using u by (auto simp: split_userinfo_def)
  next
    case False
    then show ?thesis using u by (auto simp: split_userinfo_def)
  qed
  ultimately show "s = u @ r \<and> (if u = [] then CHR ''@'' \<notin> set r else last u = CHR ''@'' \<and> CHR ''@'' \<notin> set (butlast u))"
    by (auto split: if_splits)
next
  assume u: "s = u @ r \<and> (if u = [] then CHR ''@'' \<notin> set r else last u = CHR ''@'' \<and> CHR ''@'' \<notin> set (butlast u))"
  show "split_userinfo s = u \<and> drop (length u) s = r"
  proof (cases "u = []")
    case True
    with u show ?thesis by (simp add: split_userinfo_def)
  next
    case False
    then obtain w where w: "u = w @ ''@''" "CHR ''@'' \<notin> set w" using u snoc_split [of u] by metis
    then have "takeWhile (\<lambda>c. c \<noteq> CHR ''@'') (w @ CHR ''@'' # r) = w" by (intro takeWhile_upto) auto
    with u w show ?thesis by (simp add: split_userinfo_def)
  qed
qed

lemma split_host_iff:
  "split_host scheme s = Some h \<and> drop (length h) s = r \<and> (r = [] \<or> hd r = CHR '':'') \<longleftrightarrow>
    s = h @ r \<and> (r = [] \<or> hd r = CHR '':'') \<and>
    (if h \<noteq> [] \<and> hd h = CHR ''['' then last h = CHR '']'' \<and> CHR '']'' \<notin> set (butlast h)
     else if scheme = ''eth'' then r = [] else CHR '':'' \<notin> set h)" (is "?l \<longleftrightarrow> ?r")
proof
  assume l: ?l
  then have s: "s = h @ r" using split_host_rest [of scheme s h] by metis
  show ?r
  proof (cases "s = []")
    case True
    with l s show ?thesis by (simp add: split_host_def)
  next
    case False
    show ?thesis
    proof (cases "hd s = CHR ''[''")
      case True
      define w where "w = takeWhile (\<lambda>c. c \<noteq> CHR '']'') s"
      have w: "CHR '']'' \<notin> set w" by (auto simp: w_def dest: set_takeWhileD)
      have h: "h = w @ '']''" using l False True by (auto simp: split_host_def w_def split: if_splits)
      have "hd h = CHR ''[''" using s True h by (cases w) auto
      then show ?thesis using l s h w by auto
    next
      case n: False
      have "CHR '':'' \<notin> set (takeWhile (\<lambda>c. c \<noteq> CHR '':'') s)" by (auto dest: set_takeWhileD)
      moreover have "h = (if scheme = ''eth'' then s else takeWhile (\<lambda>c. c \<noteq> CHR '':'') s)"
        using l False n by (auto simp: split_host_def split: if_splits)
      moreover have "h \<noteq> [] \<Longrightarrow> hd h \<noteq> CHR ''[''" using n s False by simp
      moreover have "scheme = ''eth'' \<Longrightarrow> h = s \<Longrightarrow> r = []" using s by simp
      ultimately show ?thesis using l s by metis
    qed
  qed
next
  assume r: ?r
  show ?l
  proof (cases "h \<noteq> [] \<and> hd h = CHR ''[''")
    case True
    then obtain w where w: "h = w @ '']''" "CHR '']'' \<notin> set w" using r snoc_split [of h] by metis
    then have "takeWhile (\<lambda>c. c \<noteq> CHR '']'') (w @ CHR '']'' # r) = w" by (intro takeWhile_upto) auto
    with r w True show ?thesis by (cases w) (simp_all add: split_host_def)
  next
    case False
    then have hd: "h @ r = [] \<or> hd (h @ r) \<noteq> CHR ''[''" using r by (cases h) auto
    show ?thesis
    proof (cases "scheme = ''eth''")
      case True
      then show ?thesis using r False hd by (auto simp: split_host_def split: if_splits)
    next
      case n: False
      then have "takeWhile (\<lambda>c. c \<noteq> CHR '':'') (h @ r) = h" using r False by (intro takeWhile_upto) (auto split: if_splits)
      then show ?thesis using r n hd by (auto simp: split_host_def)
    qed
  qed
qed

lemma split_parts_iff:
  assumes "authority = [] \<or> take 2 authority = ''//''"
  shows "split_parts scheme authority = Inr (userinfo, host, colon, port) \<longleftrightarrow>
    drop 2 authority = userinfo @ host @ colon @ port \<and> (if colon = [] then port = [] else colon = '':'') \<and>
    authority_generic scheme userinfo host colon port" (is "?l \<longleftrightarrow> ?r")
proof -
  let ?a = "drop 2 authority"
  have "?l \<longleftrightarrow> (\<exists>a2 a3. split_userinfo ?a = userinfo \<and> drop (length userinfo) ?a = a2 \<and>
      split_host scheme a2 = Some host \<and> drop (length host) a2 = a3 \<and> (a3 = [] \<or> hd a3 = CHR '':'') \<and>
      colon = take 1 a3 \<and> port = drop 1 a3)"
    by (auto simp: split_parts_def Let_def simp del: drop_drop split: option.splits)
  also have "\<dots> \<longleftrightarrow> (\<exists>a2 a3. (?a = userinfo @ a2 \<and> (if userinfo = [] then CHR ''@'' \<notin> set a2
        else last userinfo = CHR ''@'' \<and> CHR ''@'' \<notin> set (butlast userinfo))) \<and>
      (a2 = host @ a3 \<and> (a3 = [] \<or> hd a3 = CHR '':'') \<and>
       (if host \<noteq> [] \<and> hd host = CHR ''['' then last host = CHR '']'' \<and> CHR '']'' \<notin> set (butlast host)
        else if scheme = ''eth'' then a3 = [] else CHR '':'' \<notin> set host)) \<and>
      colon = take 1 a3 \<and> port = drop 1 a3)"
    unfolding split_userinfo_iff [symmetric] split_host_iff [symmetric] by blast
  also have "\<dots> \<longleftrightarrow> ?r"
  proof -
    have c: "((a3 = [] \<or> hd a3 = CHR '':'') \<and> colon = take 1 a3 \<and> port = drop 1 a3) \<longleftrightarrow>
        a3 = colon @ port \<and> (if colon = [] then port = [] else colon = '':'')" for a3
      by (cases a3) auto
    show ?thesis (is "?x \<longleftrightarrow> _")
    proof
      assume ?x
      then obtain a2 a3 where a: "?a = userinfo @ a2" "a2 = host @ a3" "a3 = [] \<or> hd a3 = CHR '':''"
        "colon = take 1 a3" "port = drop 1 a3"
        "if userinfo = [] then CHR ''@'' \<notin> set a2 else last userinfo = CHR ''@'' \<and> CHR ''@'' \<notin> set (butlast userinfo)"
        "if host \<noteq> [] \<and> hd host = CHR ''['' then last host = CHR '']'' \<and> CHR '']'' \<notin> set (butlast host)
         else if scheme = ''eth'' then a3 = [] else CHR '':'' \<notin> set host" by blast
      have "a3 = colon @ port" "if colon = [] then port = [] else colon = '':''" using c [of a3] a(3-5) by blast+
      moreover have "a3 = [] \<Longrightarrow> colon = []" using a(4) by simp
      ultimately have a3: "a3 = colon @ port" "if colon = [] then port = [] else colon = '':''" "a3 = [] \<Longrightarrow> colon = []"
        by blast+
      have "authority_generic scheme userinfo host colon port"
        unfolding authority_generic_def using a(6,7) a3(3) unfolding a(2) a3(1) by (intro conjI) (simp_all split: if_splits)
      moreover have "?a = userinfo @ host @ colon @ port" unfolding a(1) a(2) a3(1) ..
      ultimately show ?r using a3(2) by blast
    next
      assume r: ?r
      then have r1: "?a = userinfo @ host @ colon @ port" "if colon = [] then port = [] else colon = '':''"
        "authority_generic scheme userinfo host colon port" by blast+
      have c1: "(colon @ port = [] \<or> hd (colon @ port) = CHR '':'')" "colon = take 1 (colon @ port)" "port = drop 1 (colon @ port)"
        using c [of "colon @ port"] r1(2) by blast+
      have n: "colon = [] \<Longrightarrow> colon @ port = []" using r1(2) by simp
      note g = r1(3) [unfolded authority_generic_def]
      have g1: "if userinfo = [] then CHR ''@'' \<notin> set (host @ colon @ port)
          else last userinfo = CHR ''@'' \<and> CHR ''@'' \<notin> set (butlast userinfo)" using g by blast
      have g2: "if host \<noteq> [] \<and> hd host = CHR ''['' then last host = CHR '']'' \<and> CHR '']'' \<notin> set (butlast host)
          else if scheme = ''eth'' then colon @ port = [] else CHR '':'' \<notin> set host" using g n by (auto split: if_splits)
      show ?x using r1(1) c1 g1 g2 by blast
    qed
  qed
  finally show ?thesis .
qed

lemma split_authority_iff:
  "split_authority s = a \<and> drop (length a) s = r \<longleftrightarrow> s = a @ r \<and>
    (if a = [] then take 2 s \<noteq> ''//''
     else take 2 a = ''//'' \<and> (\<forall>c\<in>set (drop 2 a). c \<noteq> CHR ''/'' \<and> c \<noteq> CHR ''?'' \<and> c \<noteq> CHR ''#'') \<and>
       (r = [] \<or> hd r = CHR ''/'' \<or> hd r = CHR ''?'' \<or> hd r = CHR ''#''))" (is "?l \<longleftrightarrow> ?r")
proof
  let ?P = "\<lambda>c. \<not> (c = CHR ''/'' \<or> c = CHR ''?'' \<or> c = CHR ''#'')"
  assume l: ?l
  then have s: "s = a @ r" using split_pieces(1) [of s] by metis
  show ?r
  proof (cases "take 2 s = ''//''")
    case True
    then obtain b where b: "s = ''//'' @ b" by (metis append_take_drop_id)
    define w where "w = takeWhile ?P b"
    have a: "a = ''//'' @ w" using l b by (simp add: split_authority_def w_def)
    have "r = dropWhile ?P b" using l a b takeWhile_prefix(2) [of ?P b] by (auto simp: w_def)
    then have "r = [] \<or> \<not> ?P (hd r)" using hd_dropWhile [of ?P b] by auto
    moreover have "\<forall>c\<in>set w. ?P c" by (auto simp: w_def dest: set_takeWhileD)
    moreover have "drop 2 a = w" "take 2 a = ''//''" "a \<noteq> []" using a by simp_all
    ultimately show ?thesis using s by simp
  next
    case False
    with l s show ?thesis by (simp add: split_authority_def)
  qed
next
  let ?P = "\<lambda>c. \<not> (c = CHR ''/'' \<or> c = CHR ''?'' \<or> c = CHR ''#'')"
  assume r: ?r
  show ?l
  proof (cases "a = []")
    case False
    with r obtain b where b: "a = ''//'' @ b" by (metis append_take_drop_id)
    have "takeWhile ?P (b @ r) = b" using r b by (intro takeWhile_upto) auto
    with r b show ?thesis by (simp add: split_authority_def)
  qed (use r in \<open>auto simp: split_authority_def\<close>)
qed

lemma split_path_iff:
  "split_path s = p \<and> drop (length p) s = r \<longleftrightarrow> s = p @ r \<and>
    (\<forall>c\<in>set p. c \<noteq> CHR ''?'' \<and> c \<noteq> CHR ''#'') \<and> (r = [] \<or> hd r = CHR ''?'' \<or> hd r = CHR ''#'')" (is "?l \<longleftrightarrow> ?r")
proof
  let ?P = "\<lambda>c. \<not> (c = CHR ''?'' \<or> c = CHR ''#'')"
  assume l: ?l
  then have "s = p @ r" using split_pieces(2) [of s] by metis
  moreover have "r = dropWhile ?P s" using l takeWhile_prefix(2) [of ?P s] by (auto simp: split_path_def)
  moreover have "r = [] \<or> \<not> ?P (hd r)" using calculation(2) hd_dropWhile [of ?P s] by auto
  moreover have "c \<in> set p \<Longrightarrow> ?P c" for c using l by (auto simp: split_path_def dest: set_takeWhileD)
  ultimately show ?r by auto
next
  assume r: ?r
  then have "takeWhile (\<lambda>c. \<not> (c = CHR ''?'' \<or> c = CHR ''#'')) (p @ r) = p" by (intro takeWhile_upto) auto
  with r show ?l by (simp add: split_path_def)
qed

lemma split_query_iff:
  assumes "s = [] \<or> hd s = CHR ''?'' \<or> hd s = CHR ''#''"
  shows "split_query s = q \<and> drop (length q) s = r \<longleftrightarrow> s = q @ r \<and>
    (q = [] \<or> hd q = CHR ''?'' \<and> CHR ''#'' \<notin> set q) \<and> (r = [] \<or> hd r = CHR ''#'')" (is "?l \<longleftrightarrow> ?r")
proof
  assume l: ?l
  then have s: "s = q @ r" using split_pieces(3) [of s] by metis
  show ?r
  proof (cases "s \<noteq> [] \<and> hd s = CHR ''?''")
    case True
    then have q: "q = takeWhile (\<lambda>c. c \<noteq> CHR ''#'') s" using l by (auto simp: split_query_def)
    then have "r = dropWhile (\<lambda>c. c \<noteq> CHR ''#'') s" using l takeWhile_prefix(2) [of _ s] by auto
    then have "r = [] \<or> hd r = CHR ''#''" using hd_dropWhile [of "\<lambda>c. c \<noteq> CHR ''#''" s] by auto
    moreover have "CHR ''#'' \<notin> set q" using q by (auto dest: set_takeWhileD)
    ultimately show ?thesis using s True by (cases q) auto
  next
    case False
    then show ?thesis using l s assms by (auto simp: split_query_def)
  qed
next
  assume r: ?r
  show ?l
  proof (cases "q = []")
    case True
    with r show ?thesis by (auto simp: split_query_def)
  next
    case False
    have "takeWhile (\<lambda>c. c \<noteq> CHR ''#'') (q @ r) = q" using r False by (intro takeWhile_upto) auto
    with r False show ?thesis by (simp add: split_query_def)
  qed
qed

text \<open>Splitting finds exactly the decompositions of the grammar, so there is at most one.\<close>

lemma split_uri_generic:
  assumes "split_uri scheme s = Inr v"
  shows "v_scheme v = scheme \<and> v_ssp v = s \<and> view_generic v"
proof -
  define a s1 where "a = split_authority s" and "s1 = drop (length a) s"
  define p s2 where "p = split_path s1" and "s2 = drop (length p) s1"
  define q f where "q = split_query s2" and "f = drop (length q) s2"
  obtain ui h co po where parts: "split_parts scheme a = Inr (ui, h, co, po)"
    and v: "v = \<lparr>v_scheme = scheme, v_slashes = take 2 a, v_userinfo = ui, v_host = h, v_colon = co, v_port = po,
      v_path = p, v_query = q, v_fragment = f\<rparr>"
    using assms unfolding split_uri_parts Let_def
    by (auto simp: a_def s1_def p_def s2_def q_def f_def simp del: drop_drop split: sum.splits prod.splits)
  have A: "s = a @ s1 \<and> (if a = [] then take 2 s \<noteq> ''//''
     else take 2 a = ''//'' \<and> (\<forall>c\<in>set (drop 2 a). c \<noteq> CHR ''/'' \<and> c \<noteq> CHR ''?'' \<and> c \<noteq> CHR ''#'') \<and>
       (s1 = [] \<or> hd s1 = CHR ''/'' \<or> hd s1 = CHR ''?'' \<or> hd s1 = CHR ''#''))"
    using split_authority_iff [of s a s1] a_def s1_def by blast
  have P: "s1 = p @ s2 \<and> (\<forall>c\<in>set p. c \<noteq> CHR ''?'' \<and> c \<noteq> CHR ''#'') \<and> (s2 = [] \<or> hd s2 = CHR ''?'' \<or> hd s2 = CHR ''#'')"
    using split_path_iff [of s1 p s2] p_def s2_def by blast
  have Q: "s2 = q @ f \<and> (q = [] \<or> hd q = CHR ''?'' \<and> CHR ''#'' \<notin> set q) \<and> (f = [] \<or> hd f = CHR ''#'')"
    using split_query_iff [of s2 q f] P q_def f_def by blast
  have d: "a = [] \<or> take 2 a = ''//''" unfolding a_def by (rule split_authority_slashes)
  note W = parts [unfolded split_parts_iff [OF d]]
  note j = split_parts_join [OF parts]
  have auth: "v_authority v = a" using j(1) by (simp add: v v_authority_def)
  have ssp: "v_ssp v = s" using A P Q auth by (simp add: v_ssp_def v)
  have wf: "view_wf v" using W j(3) d by (auto simp: view_wf_def v split: if_splits)
  have path: "if a = [] then take 2 p \<noteq> ''//'' else p = [] \<or> hd p = CHR ''/''"
  proof (cases "a = []")
    case True
    then have "take 2 s \<noteq> ''//''" using A by auto
    moreover have "s = p @ s2" using A P True by simp
    ultimately have "take 2 (p @ s2) \<noteq> ''//''" by metis
    moreover have "take 2 (p @ s2) = ''//''" if "take 2 p = ''//''"
    proof -
      have "min (length p) 2 = 2" using arg_cong [OF that, of length] by simp
      with that show ?thesis by simp
    qed
    ultimately show ?thesis using True by auto
  next
    case False
    show ?thesis
    proof (cases p)
      case (Cons x y)
      then have "x \<noteq> CHR ''?''" "x \<noteq> CHR ''#''" "s1 \<noteq> []" "hd s1 = x" using P by auto
      then show ?thesis using A False Cons by auto
    qed simp
  qed
  have D: "\<forall>c\<in>set (drop 2 a). c \<noteq> CHR ''/'' \<and> c \<noteq> CHR ''?'' \<and> c \<noteq> CHR ''#''" using A by (cases "a = []") auto
  have "v_slashes v = [] \<longleftrightarrow> a = []" using d by (auto simp: v)
  then have "if v_slashes v = [] then take 2 (v_path v) \<noteq> ''//'' else v_path v = [] \<or> hd (v_path v) = CHR ''/''"
    using path by (simp add: v)
  moreover have "authority_generic (v_scheme v) (v_userinfo v) (v_host v) (v_colon v) (v_port v)"
    "\<forall>c\<in>set (v_path v). c \<noteq> CHR ''?'' \<and> c \<noteq> CHR ''#''"
    "v_query v = [] \<or> hd (v_query v) = CHR ''?'' \<and> CHR ''#'' \<notin> set (v_query v)"
    "v_fragment v = [] \<or> hd (v_fragment v) = CHR ''#''" "v_scheme v = scheme"
    using P Q W by (simp_all add: v)
  ultimately show ?thesis using auth ssp wf D unfolding view_generic_def by blast
qed

lemma generic_split_uri:
  assumes "view_generic v"
  shows "split_uri (v_scheme v) (v_ssp v) = Inr v"
proof -
  note G = assms [unfolded view_generic_def]
  let ?a = "v_authority v" and ?r = "v_path v @ v_query v @ v_fragment v"
  have wf: "view_wf v" using G by blast
  have sl: "v_slashes v = [] \<Longrightarrow> ?a = []" "v_slashes v \<noteq> [] \<Longrightarrow> v_slashes v = ''//''"
    using wf by (auto simp: view_wf_def v_authority_def split: if_splits)
  have d: "?a = [] \<or> take 2 ?a = ''//''" using sl by (cases "v_slashes v = []") (auto simp: v_authority_def)
  have f: "v_fragment v = [] \<or> hd (v_fragment v) = CHR ''#''" and q: "v_query v = [] \<or> hd (v_query v) = CHR ''?'' \<and> CHR ''#'' \<notin> set (v_query v)"
    using G by blast+
  have q0: "v_query v @ v_fragment v = [] \<or> hd (v_query v @ v_fragment v) = CHR ''?'' \<or> hd (v_query v @ v_fragment v) = CHR ''#''"
    using f q by (cases "v_query v") auto
  have A: "split_authority (v_ssp v) = ?a \<and> drop (length ?a) (v_ssp v) = ?r"
  proof (unfold split_authority_iff, intro conjI)
    show "v_ssp v = ?a @ ?r" by (simp add: v_ssp_def)
    show "if ?a = [] then take 2 (v_ssp v) \<noteq> ''//''
     else take 2 ?a = ''//'' \<and> (\<forall>c\<in>set (drop 2 ?a). c \<noteq> CHR ''/'' \<and> c \<noteq> CHR ''?'' \<and> c \<noteq> CHR ''#'') \<and>
       (?r = [] \<or> hd ?r = CHR ''/'' \<or> hd ?r = CHR ''?'' \<or> hd ?r = CHR ''#'')"
    proof (cases "?a = []")
      case True
      then have s: "v_slashes v = []" using sl(2) by (auto simp: v_authority_def)
      then have p: "take 2 (v_path v) \<noteq> ''//''" using G by simp
      have "take 2 ?r \<noteq> ''//''"
      proof
        assume t: "take 2 ?r = ''//''"
        then obtain x where x: "?r = CHR ''/'' # CHR ''/'' # x" by (metis append_Cons append_Nil append_take_drop_id)
        then show False using p q0 by (cases "v_path v"; cases "tl (v_path v)") auto
      qed
      then show ?thesis using True by (simp add: v_ssp_def)
    next
      case False
      then have s: "v_slashes v \<noteq> []" using sl(1) by blast
      then have "v_path v = [] \<or> hd (v_path v) = CHR ''/''" using G by simp
      then have "?r = [] \<or> hd ?r = CHR ''/'' \<or> hd ?r = CHR ''?'' \<or> hd ?r = CHR ''#''"
        using q0 by (cases "v_path v") auto
      then show ?thesis using False d G by auto
    qed
  qed
  have P: "split_path ?r = v_path v \<and> drop (length (v_path v)) ?r = v_query v @ v_fragment v"
    unfolding split_path_iff using G q0 by auto
  have Q: "split_query (v_query v @ v_fragment v) = v_query v \<and>
      drop (length (v_query v)) (v_query v @ v_fragment v) = v_fragment v"
    unfolding split_query_iff [OF q0] using f q by blast
  have S: "split_parts (v_scheme v) ?a = Inr (v_userinfo v, v_host v, v_colon v, v_port v)"
  proof (unfold split_parts_iff [OF d], intro conjI)
    show "drop 2 ?a = v_userinfo v @ v_host v @ v_colon v @ v_port v"
    proof (cases "v_slashes v = []")
      case True
      with wf show ?thesis by (auto simp: view_wf_def v_authority_def)
    next
      case False
      then show ?thesis using sl(2) by (simp add: v_authority_def)
    qed
    show "if v_colon v = [] then v_port v = [] else v_colon v = '':''" using wf by (simp add: view_wf_def)
  qed (use G in blast)
  have "take 2 ?a = v_slashes v" using sl by (cases "v_slashes v = []") (auto simp: v_authority_def)
  then show ?thesis unfolding split_uri_parts using A P Q S
    by (cases v) (simp add: Let_def)
qed

section \<open>Replacing the authority\<close>

text \<open>The view with another authority.\<close>

definition with_authority :: "string \<Rightarrow> string \<times> string \<times> string \<times> string \<Rightarrow> view \<Rightarrow> view" where
  "with_authority t r v = (case r of (userinfo, host, colon, port) \<Rightarrow>
     v\<lparr>v_slashes := take 2 t, v_userinfo := userinfo, v_host := host, v_colon := colon, v_port := port\<rparr>)"

lemma with_authority_text:
  assumes "split_parts scheme t = Inr r"
  shows "v_authority (with_authority t r v) = t"
  using split_parts_join(1) [of scheme t] assms by (cases r) (simp add: with_authority_def v_authority_def)

lemma set_authority_general:
  assumes r: "represents u v" and e: "u_err u = URI_PARSE_OK" and t: "t = [] \<or> take 2 t = ''//''"
  shows "case split_parts (v_scheme v) t of
      Inl err \<Rightarrow> \<exists>u'. set_authority t u = Inr u' \<and> u_err u' = URI_PARSE_OK
    | Inr p \<Rightarrow> (\<exists>u'. set_authority t u = bind_run (port_number (v_port (with_authority t p v)) (u_port_num u)) (\<lambda>n.
          Inr (u'\<lparr>u_port_num := n\<rparr>)) \<and> represents u' (with_authority t p v) \<and> same_rest u u')"
proof -
  let ?b = "v_scheme v @ '':''" and ?w = "v_authority v" and ?c = "v_path v @ v_query v @ v_fragment v"
  let ?y = "\<lambda>q. if q = Ssp then t @ ?c else t"
  let ?g = "\<lambda>q. length ?b + length t + (if q = Path then 0 else length (v_path v) + (if q = Query then 0 else length (v_query v)))"
  have get: "part_get q u = located (length (part_before q v)) (part_text q v)" for q
    using r by (simp add: represents_def located_in_def)
  have s: "u_str u = ?b @ ?w @ ?c" using r by (simp add: represents_def unparse_def v_ssp_def)
  have "\<exists>u'. set_part Authority [Ssp, Authority] [Path, Query, Fragment] t u = Inr u' \<and> u_str u' = ?b @ t @ ?c \<and> same_rest u u' \<and>
    (\<forall>q. part_get q u' = (if q \<in> set [Ssp, Authority] then located (length (part_before q v)) (?y q)
       else if q \<in> set [Path, Query, Fragment] then located (?g q) (part_text q v) else part_get q u))"
    by (rule set_part_general [OF e s])
      (use get [of Ssp] get [of Authority] get [of Path] get [of Query] get [of Fragment] in \<open>auto simp: v_ssp_def\<close>)
  then obtain u1 where u1: "set_part Authority [Ssp, Authority] [Path, Query, Fragment] t u = Inr u1"
    "u_str u1 = ?b @ t @ ?c" "same_rest u u1"
    "\<And>q. part_get q u1 = (if q \<in> set [Ssp, Authority] then located (length (part_before q v)) (?y q)
       else if q \<in> set [Path, Query, Fragment] then located (?g q) (part_text q v) else part_get q u)" by blast
  have a1: "u_authority u1 = located (length ?b) t" using u1(4) [of Authority] by simp
  have n: "comp_str u_scheme u1 = Inr (v_scheme v)"
    using u1(2) u1(4) [of Scheme] get [of Scheme] str_sub_append [of "[]" "v_scheme v"] by (simp add: comp_str_def)
  have sa: "set_authority t u = bind_run (parse_authority u1) (\<lambda>(err, u2). Inr u2)"
    by (simp add: set_authority_def u1(1))
  have rest: "u_port_num u1 = u_port_num u" "u_err u1 = URI_PARSE_OK" using u1(3) e by (simp_all add: same_rest_def)
  note pa = parse_authority_eq [OF u1(2) a1 t n]
  show ?thesis
  proof (cases "split_parts (v_scheme v) t")
    case (Inl err)
    with pa obtain u' where "parse_authority u1 = Inr (err, u')" "same_rest u1 u'" by auto
    then show ?thesis using sa rest Inl by (auto simp: same_rest_def)
  next
    case (Inr p)
    obtain ui h co po where p: "p = (ui, h, co, po)" by (cases p) auto
    note j = split_parts_join [OF Inr [unfolded p]]
    let ?v = "with_authority t p v"
    let ?u = "u1\<lparr>u_userinfo := located (length ?b + length (take 2 t)) ui,
          u_host := located (length ?b + length (take 2 t) + length ui) h,
          u_port := located (length ?b + length (take 2 t) + length ui + length h + length co) po\<rparr>"
    have auth: "v_authority ?v = t" by (rule with_authority_text [OF Inr])
    have v: "v_scheme ?v = v_scheme v" "v_path ?v = v_path v" "v_query ?v = v_query v" "v_fragment ?v = v_fragment v"
      "v_slashes ?v = take 2 t" "v_userinfo ?v = ui" "v_host ?v = h" "v_colon ?v = co" "v_port ?v = po"
      by (simp_all add: with_authority_def p)
    have eq: "set_authority t u = bind_run (port_number po (u_port_num u)) (\<lambda>n. Inr (?u\<lparr>u_port_num := n\<rparr>))"
      using pa Inr p sa rest by (simp add: bind_run_assoc)
    have wf: "view_wf ?v" unfolding view_wf_def v using j(2,3) t by auto
    have ssp: "v_ssp ?v = t @ ?c" by (simp add: v_ssp_def auth v)
    have gets: "u_scheme u1 = located 0 (v_scheme v)" "u_ssp u1 = located (length ?b) (t @ ?c)"
      "u_path u1 = located (length ?b + length t) (v_path v)"
      "u_query u1 = located (length ?b + length t + length (v_path v)) (v_query v)"
      "u_fragment u1 = located (length ?b + length t + length (v_path v) + length (v_query v)) (v_fragment v)"
      using u1(4) [of Scheme] u1(4) [of Ssp] u1(4) [of Path] u1(4) [of Query] u1(4) [of Fragment] get [of Scheme]
      by (simp_all add: add.assoc)
    have "part_get q ?u = located_in ?v q" for q
      using gets a1 by (cases q) (simp_all add: located_in_def v auth ssp)
    then have "represents ?u ?v" using wf u1(2) ssp by (simp add: represents_def unparse_def v)
    moreover have "same_rest u ?u" using u1(3) by (simp add: same_rest_def)
    ultimately show ?thesis using eq Inr v by auto
  qed
qed

section \<open>The contract of a setter\<close>

locale uri_setter =
  fixes set_it :: "string \<Rightarrow> uri \<Rightarrow> uri run"
    and put :: "string \<Rightarrow> view \<Rightarrow> view"
    and text_of :: "view \<Rightarrow> string"
    and ready :: "view \<Rightarrow> bool"
  assumes set_view: "\<lbrakk>represents u v; u_err u = URI_PARSE_OK; ready v\<rbrakk> \<Longrightarrow>
      \<exists>u'. set_it t u = Inr u' \<and> represents u' (put t v) \<and> same_rest u u'"
    and text_put: "text_of (put t v) = t"
    and put_put: "put t (put s v) = put t v"
    and put_text: "put (text_of v) v = v"
    and ready_put: "ready (put t v) = ready v"
begin

lemma set_set:
  assumes "represents u v" "u_err u = URI_PARSE_OK" "ready v"
  shows "\<exists>u1 u2. set_it s u = Inr u1 \<and> set_it t u1 = Inr u2 \<and> represents u2 (put t v) \<and> same_rest u u2"
proof -
  obtain u1 where 1: "set_it s u = Inr u1" "represents u1 (put s v)" "same_rest u u1"
    using set_view [OF assms] by blast
  then have "u_err u1 = URI_PARSE_OK" using assms(2) by (simp add: same_rest_def)
  from set_view [OF 1(2) this, of t] assms(3) 1(3) show ?thesis
    using 1(1) by (auto simp: ready_put put_put intro: same_rest_trans)
qed

lemma set_back:
  assumes "represents u v" "u_err u = URI_PARSE_OK" "ready v"
  shows "\<exists>u1 u2. set_it t u = Inr u1 \<and> set_it (text_of v) u1 = Inr u2 \<and> represents u2 v \<and> u_str u2 = u_str u"
proof -
  obtain u1 u2 where "set_it t u = Inr u1" "set_it (text_of v) u1 = Inr u2" "represents u2 v"
    using set_set [OF assms, of t "text_of v"] by (auto simp: put_text)
  then show ?thesis using assms(1) by (auto simp: represents_def)
qed

end

interpretation scheme_setter: uri_setter set_scheme "\<lambda>t v. v\<lparr>v_scheme := t\<rparr>" v_scheme "\<lambda>v. True"
  by (unfold_locales, rule set_scheme_view, assumption+, simp_all)

interpretation path_setter: uri_setter set_path "\<lambda>t v. v\<lparr>v_path := t\<rparr>" v_path "\<lambda>v. True"
  by (unfold_locales, rule set_path_view, assumption+, simp_all)

interpretation query_setter: uri_setter set_query "\<lambda>t v. v\<lparr>v_query := t\<rparr>" v_query "\<lambda>v. True"
  by (unfold_locales, rule set_query_view, assumption+, simp_all)

interpretation fragment_setter: uri_setter set_fragment "\<lambda>t v. v\<lparr>v_fragment := t\<rparr>" v_fragment "\<lambda>v. True"
  by (unfold_locales, rule set_fragment_view, assumption+, simp_all)

interpretation userinfo_setter: uri_setter set_userinfo "\<lambda>t v. v\<lparr>v_userinfo := t\<rparr>" v_userinfo "\<lambda>v. v_slashes v \<noteq> []"
  by (unfold_locales, rule set_userinfo_view, assumption+, simp_all)

interpretation host_setter: uri_setter set_host "\<lambda>t v. v\<lparr>v_host := t\<rparr>" v_host "\<lambda>v. v_slashes v \<noteq> []"
  by (unfold_locales, rule set_host_view, assumption+, simp_all)

section \<open>An example, and a port without a colon\<close>

text \<open>The URI \<open>http://example.org/a?b\<close> without a port, taken apart.\<close>

definition demo_view :: view where
  "demo_view = \<lparr>v_scheme = ''http'', v_slashes = ''//'', v_userinfo = [], v_host = ''example.org'',
     v_colon = [], v_port = [], v_path = ''/a'', v_query = ''?b'', v_fragment = []\<rparr>"

definition demo_uri :: uri where
  "demo_uri = \<lparr>u_str = ''http://example.org/a?b'', u_scheme = \<lparr>c_off = 0, c_len = 4\<rparr>, u_ssp = \<lparr>c_off = 5, c_len = 17\<rparr>,
     u_authority = \<lparr>c_off = 5, c_len = 13\<rparr>, u_path = \<lparr>c_off = 18, c_len = 2\<rparr>, u_query = \<lparr>c_off = 20, c_len = 2\<rparr>,
     u_fragment = \<lparr>c_off = 22, c_len = 0\<rparr>, u_userinfo = \<lparr>c_off = 7, c_len = 0\<rparr>, u_host = \<lparr>c_off = 7, c_len = 11\<rparr>,
     u_port = \<lparr>c_off = 18, c_len = 0\<rparr>, u_port_num = 0, u_err = URI_PARSE_OK, u_validate = True, u_normalize = True\<rparr>"

lemma demo_represents: "represents demo_uri demo_view"
  by (simp add: represents_def demo_uri_def demo_view_def view_wf_def view_defs all_parts located_in_def located_def)

text \<open>
  A divergence. URI.cc:1495-1517: set_port on a URI without a port
  writes the digits right behind the host, without a colon: the string is then that of the URI
  whose host ends in the digits.
\<close>

lemma set_port_without_colon:
  assumes "represents u v" "u_err u = URI_PARSE_OK" "v_colon v = []" "atoi t = Inr n"
  shows "\<exists>u'. set_port t u = Inr u' \<and> u_str u' = unparse (v\<lparr>v_host := v_host v @ t\<rparr>) \<and> u_port_num u' = of_int n"
proof -
  have get: "part_get q u = located (length (part_before q v)) (part_text q v)" for q
    using assms(1) by (simp add: represents_def located_in_def)
  let ?b = "part_before Port v" and ?c = "v_path v @ v_query v @ v_fragment v"
  let ?t = "\<lambda>q. if q = Ssp then v_authority v @ t @ ?c else if q = Authority then v_authority v @ t else t"
  let ?g = "\<lambda>q. length (part_before q v) + length t"
  have p0: "v_port v = []" using assms(1,3) by (simp add: represents_def view_wf_def)
  have s: "u_str u = ?b @ [] @ ?c" using assms(1) p0 by (simp add: represents_def view_defs)
  have "\<exists>u'. set_part Port [Ssp, Authority, Port] [Path, Query, Fragment] t u = Inr u' \<and> u_str u' = ?b @ t @ ?c \<and>
    same_rest u u' \<and> (\<forall>q. part_get q u' = (if q \<in> set [Ssp, Authority, Port] then located (length (part_before q v)) (?t q)
       else if q \<in> set [Path, Query, Fragment] then located (?g q) (part_text q v) else part_get q u))"
    by (rule set_part_general [OF assms(2) s])
      (use get [of Ssp] get [of Authority] get [of Port] get [of Path] get [of Query] get [of Fragment] p0
        in \<open>auto simp: v_ssp_def\<close>)
  then show ?thesis using assms(3,4) p0 by (auto simp: set_port_def view_defs)
qed

lemma set_port_without_colon_witness:
  "\<exists>u'. set_port ''80'' demo_uri = Inr u' \<and> u_str u' = ''http://example.org80/a?b''"
proof -
  have "atoi ''80'' = Inr 80" by (simp add: atoi_def Let_def is_space_def is_digit_def digits_val_def)
  from set_port_without_colon [OF demo_represents _ _ this] show ?thesis
    by (auto simp: demo_uri_def demo_view_def view_defs)
qed

end
