(* ===== verification/UriValidate.thy ===== *)
theory UriValidate
  imports Uri
begin

text \<open>
  util/URI.cc, the validation of the components: the characters each may contain, percent
  encodings, IP literals and Ethernet addresses. The loops over \<open>at(i)\<close> with \<open>i < length()\<close> are
  recursions over the rest of the string, and the positions of \<open>validate_ip_literal\<close> are the rest
  of the literal.
\<close>

section \<open>Characters and percent encodings\<close>

text \<open>
  The loop that the validators share: allowed characters, and percent signs with two hexadecimal
  digits behind them. \<open>bad\<close> is the error for another character.
\<close>

fun validate_chars :: "(char \<Rightarrow> bool) \<Rightarrow> uri_parse_err \<Rightarrow> string \<Rightarrow> uri_parse_err" where
  "validate_chars allowed bad [] = URI_PARSE_OK"
| "validate_chars allowed bad (c # cs) =
     (if allowed c then validate_chars allowed bad cs
      else if c = CHR ''%'' then
        (case cs of
           h # l # rest \<Rightarrow>
             if \<not> is_hexdig h \<or> \<not> is_hexdig l then URI_PARSE_BAD_PERCENT else validate_chars allowed bad rest
         | _ \<Rightarrow> URI_PARSE_BAD_PERCENT)
      else bad)"

definition userinfo_char :: "char \<Rightarrow> bool" where
  "userinfo_char c \<longleftrightarrow> is_unreserved c \<or> is_sub_delim c \<or> c = CHR '':''"

definition host_char :: "char \<Rightarrow> bool" where
  "host_char c \<longleftrightarrow> is_unreserved c \<or> is_sub_delim c"

definition path_char :: "char \<Rightarrow> bool" where
  "path_char c \<longleftrightarrow> is_unreserved c \<or> is_sub_delim c \<or> c = CHR ''/'' \<or> c = CHR '':'' \<or> c = CHR ''@''"

definition query_char :: "char \<Rightarrow> bool" where
  "query_char c \<longleftrightarrow> is_unreserved c \<or> is_sub_delim c \<or> c = CHR '':'' \<or> c = CHR ''@'' \<or> c = CHR ''/'' \<or> c = CHR ''?''"

text \<open>\<open>*scheme.begin()\<close> of an empty scheme is the end, which must not be read.\<close>

definition validate_scheme_name :: "uri \<Rightarrow> uri_parse_err run" where
  "validate_scheme_name u = bind_run (comp_str u_scheme u) (\<lambda>scheme. case scheme of
      [] \<Rightarrow> Inl Undefined
    | c # cs \<Rightarrow> Inr (if \<not> is_alpha c then URI_PARSE_BAD_SCHEME
        else if list_all (\<lambda>c. is_alnum c \<or> c = CHR ''+'' \<or> c = CHR ''-'' \<or> c = CHR ''.'') cs then URI_PARSE_OK
        else URI_PARSE_BAD_SCHEME))"

definition validate_userinfo :: "uri \<Rightarrow> uri_parse_err run" where
  "validate_userinfo u =
     (if c_len (u_userinfo u) = 0 then Inr URI_PARSE_OK
      else bind_run (comp_str u_userinfo u) (\<lambda>userinfo.
        if userinfo = [] then Inl Thrown
        else bind_run (assert_run (last userinfo = CHR ''@'')) (\<lambda>_.
          Inr (validate_chars userinfo_char URI_PARSE_BAD_USERINFO (butlast userinfo)))))"

definition validate_port :: "uri \<Rightarrow> uri_parse_err run" where
  "validate_port u =
     (if c_len (u_port u) = 0 then Inr URI_PARSE_OK
      else bind_run (comp_str u_port u) (\<lambda>port.
        Inr (if list_all is_digit port then URI_PARSE_OK else URI_PARSE_BAD_PORT)))"

definition validate_path :: "uri \<Rightarrow> uri_parse_err run" where
  "validate_path u =
     (if c_len (u_path u) = 0 then Inr URI_PARSE_OK
      else bind_run (comp_str u_path u) (\<lambda>path.
        bind_run (if c_len (u_authority u) \<noteq> 0
                  then bind_run (str_at path 0) (\<lambda>c. assert_run (c = CHR ''/'')) else Inr ()) (\<lambda>_.
        bind_run (if c_len (u_authority u) = 0 \<and> 2 \<le> length path
                  then assert_run (take 2 path \<noteq> ''//'') else Inr ()) (\<lambda>_.
        Inr (validate_chars path_char URI_PARSE_BAD_PATH path)))))"

definition validate_query :: "uri \<Rightarrow> uri_parse_err run" where
  "validate_query u =
     (if c_len (u_query u) = 0 then Inr URI_PARSE_OK
      else bind_run (comp_str u_query u) (\<lambda>query.
        bind_run (str_at query 0) (\<lambda>c. bind_run (assert_run (c = CHR ''?'')) (\<lambda>_.
        Inr (validate_chars query_char URI_PARSE_BAD_QUERY (tl query))))))"

definition validate_fragment :: "uri \<Rightarrow> uri_parse_err run" where
  "validate_fragment u =
     (if c_len (u_fragment u) = 0 then Inr URI_PARSE_OK
      else bind_run (comp_str u_fragment u) (\<lambda>fragment.
        bind_run (str_at fragment 0) (\<lambda>c. bind_run (assert_run (c = CHR ''#'')) (\<lambda>_.
        Inr (validate_chars query_char URI_PARSE_BAD_FRAGMENT (tl fragment))))))"

section \<open>Host literals\<close>

fun eth_chars :: "nat \<Rightarrow> string \<Rightarrow> bool" where
  "eth_chars i [] \<longleftrightarrow> True"
| "eth_chars i (c # cs) \<longleftrightarrow> (if (i + 1) mod 3 \<noteq> 0 then is_hexdig c else c = CHR '':'') \<and> eth_chars (i + 1) cs"

definition validate_eth_literal :: "string \<Rightarrow> uri_parse_err" where
  "validate_eth_literal host =
     (if length host \<noteq> 17 then URI_PARSE_BAD_HOST
      else if eth_chars 0 host then URI_PARSE_OK else URI_PARSE_BAD_HOST)"

text \<open>A future version of the IP literal, behind its \<open>v\<close>.\<close>

definition validate_ip_future :: "string \<Rightarrow> uri_parse_err" where
  "validate_ip_future s =
     (if s = [] \<or> \<not> is_hexdig (hd s) then URI_PARSE_BAD_IP_LITERAL
      else (let r = dropWhile is_hexdig (tl s)
            in if r = [] \<or> hd r \<noteq> CHR ''.'' then URI_PARSE_BAD_IP_LITERAL
               else if tl r = [] then URI_PARSE_BAD_IP_LITERAL
               else if list_all (\<lambda>c. is_unreserved c \<or> is_sub_delim c \<or> c = CHR '':'') (tl r) then URI_PARSE_OK
               else URI_PARSE_BAD_IP_LITERAL))"

text \<open>
  The loop over the pieces of an IPv6 address: \<open>s\<close> is the rest of the literal, \<open>pieces\<close> the number of
  pieces so far. It ends with an error, or with the number of pieces, whether there was a
  double colon, and the rest from the start of a decimal number if there is one.
\<close>

definition upto4_hex :: "string \<Rightarrow> string" where
  "upto4_hex s = takeWhile is_hexdig (take 4 s)"

lemma upto4_hex_le: "length (upto4_hex s) \<le> length s"
  unfolding upto4_hex_def by (metis length_take length_takeWhile_le min.cobounded1 order_trans)

function ip_pieces :: "nat \<Rightarrow> bool \<Rightarrow> bool \<Rightarrow> string \<Rightarrow> uri_parse_err + (nat \<times> bool \<times> string option)" where
  "ip_pieces pieces double prev s =
     (let hex = upto4_hex s; r = drop (length hex) s; n = pieces + 1
      in if r = [] then
           (if hex = [] then (if \<not> prev then Inl URI_PARSE_BAD_IPV6 else Inr (n - 1, double, None))
            else Inr (n, double, None))
         else if hd r = CHR '':'' then
           (if hex = [] then
              (if n = 1 \<and> (tl r = [] \<or> hd (tl r) \<noteq> CHR '':'') then Inl URI_PARSE_BAD_IPV6
               else if double then Inl URI_PARSE_BAD_IPV6
               else ip_pieces n True True (if n = 1 then tl (tl r) else tl r))
            else ip_pieces n double False (tl r))
         else if hd r = CHR ''.'' then
           (if hex = [] then Inl URI_PARSE_BAD_IPV6 else Inr (n - 1, double, Some s))
         else Inl URI_PARSE_BAD_IPV6)"
  by pat_completeness auto
termination
proof (relation "measure (\<lambda>(pieces, double, prev, s). length s)", goal_cases)
  case (2 pieces double prev s hex r n)
  then have "r \<noteq> []" "length r \<le> length s" by auto
  then show ?case by (cases r; cases "tl r") auto
next
  case (3 pieces double prev s hex r n)
  then have "r \<noteq> []" "length r \<le> length s" by auto
  then show ?case by (cases r) auto
qed simp

declare ip_pieces.simps [simp del]

text \<open>The IPv4 address, \<open>k\<close> more numbers; \<open>atoi\<close> of at most three digits is in range.\<close>

fun ip_decimal :: "nat \<Rightarrow> string \<Rightarrow> bool" where
  "ip_decimal 0 s \<longleftrightarrow> False"
| "ip_decimal (Suc k) s \<longleftrightarrow>
     (let digits = takeWhile is_digit (take 3 s); r = drop (length digits) s
      in if digits = [] then False
         else if 1 < length digits \<and> hd digits = CHR ''0'' then False
         else if 255 < digits_val digits then False
         else if k = 0 then r = []
         else if r = [] \<or> hd r \<noteq> CHR ''.'' then False
         else ip_decimal k (tl r))"

definition validate_ipv6 :: "string \<Rightarrow> uri_parse_err" where
  "validate_ipv6 s = (case ip_pieces 0 False False s of
      Inl e \<Rightarrow> e
    | Inr (pieces, double, decimal) \<Rightarrow>
        (case decimal of
           None \<Rightarrow>
             if pieces = 0 \<or> (double \<and> 8 < pieces) \<or> (\<not> double \<and> pieces \<noteq> 8) then URI_PARSE_BAD_IPV6
             else URI_PARSE_OK
         | Some d \<Rightarrow>
             if pieces = 0 \<or> (double \<and> 6 < pieces) \<or> (\<not> double \<and> pieces \<noteq> 6) then URI_PARSE_BAD_IPV6
             else if \<not> ip_decimal 4 d then URI_PARSE_BAD_IPV6
             else if (double \<and> 8 < pieces + 2) \<or> (\<not> double \<and> pieces + 2 \<noteq> 8) then URI_PARSE_BAD_IPV6
             else URI_PARSE_OK))"

definition validate_ip_literal :: "string \<Rightarrow> uri_parse_err" where
  "validate_ip_literal host =
     (if host = [] then URI_PARSE_BAD_IP_LITERAL
      else if hd host = CHR ''v'' \<or> hd host = CHR ''V'' then validate_ip_future (tl host)
      else validate_ipv6 host)"

definition validate_host :: "uri \<Rightarrow> uri_parse_err run" where
  "validate_host u = bind_run (comp_str u_host u) (\<lambda>host.
     if host = [] then Inr URI_PARSE_OK
     else if hd host = CHR ''['' then
       bind_run (assert_run (last host = CHR '']'')) (\<lambda>_.
       bind_run (str_sub host 1 (length host - 2)) (\<lambda>lit. Inr (validate_ip_literal lit)))
     else bind_run (comp_str u_scheme u) (\<lambda>scheme.
       if scheme = ''eth'' then Inr (validate_eth_literal host)
       else Inr (validate_chars host_char URI_PARSE_BAD_HOST host)))"

text \<open>The validators in order; the first error is the result.\<close>

fun validate_all :: "(uri \<Rightarrow> uri_parse_err run) list \<Rightarrow> uri \<Rightarrow> uri_parse_err run" where
  "validate_all [] u = Inr URI_PARSE_OK"
| "validate_all (v # vs) u =
     bind_run (v u) (\<lambda>e. if e \<noteq> URI_PARSE_OK then Inr e else validate_all vs u)"

definition validate :: "uri \<Rightarrow> uri_parse_err run" where
  "validate u = bind_run (assert_run (u_validate u)) (\<lambda>_.
     validate_all [validate_scheme_name, validate_userinfo, validate_host, validate_port, validate_path,
       validate_query, validate_fragment] u)"

section \<open>The grammar\<close>

inductive pct_string :: "(char \<Rightarrow> bool) \<Rightarrow> string \<Rightarrow> bool" for allowed where
  empty: "pct_string allowed []"
| char: "allowed c \<Longrightarrow> pct_string allowed s \<Longrightarrow> pct_string allowed (c # s)"
| percent: "is_hexdig h \<Longrightarrow> is_hexdig l \<Longrightarrow> pct_string allowed s \<Longrightarrow> pct_string allowed (CHR ''%'' # h # l # s)"

inductive_simps pct_string_Nil [simp]: "pct_string allowed []"
inductive_simps pct_string_Cons: "pct_string allowed (c # s)"

lemma validate_chars_iff:
  "\<not> allowed CHR ''%'' \<Longrightarrow> bad \<noteq> URI_PARSE_OK \<Longrightarrow>
    validate_chars allowed bad s = URI_PARSE_OK \<longleftrightarrow> pct_string allowed s"
  by (induction allowed bad s rule: validate_chars.induct)
    (auto simp: pct_string_Cons split: list.splits)

lemma validate_chars_result: "validate_chars allowed bad s \<in> {URI_PARSE_OK, URI_PARSE_BAD_PERCENT, bad}"
  by (induction allowed bad s rule: validate_chars.induct) (auto split: list.splits)

definition h16 :: "string \<Rightarrow> bool" where
  "h16 p \<longleftrightarrow> p \<noteq> [] \<and> length p \<le> 4 \<and> list_all is_hexdig p"

definition dec_octet :: "string \<Rightarrow> bool" where
  "dec_octet p \<longleftrightarrow> p \<noteq> [] \<and> length p \<le> 3 \<and> list_all is_digit p \<and> (1 < length p \<longrightarrow> hd p \<noteq> CHR ''0'') \<and> digits_val p \<le> 255"

definition ipv4_address :: "string \<Rightarrow> bool" where
  "ipv4_address s \<longleftrightarrow> (\<exists>a b c d. s = a @ ''.'' @ b @ ''.'' @ c @ ''.'' @ d \<and>
     dec_octet a \<and> dec_octet b \<and> dec_octet c \<and> dec_octet d)"

text \<open>Pieces, each with a colon behind it.\<close>

definition colons :: "string list \<Rightarrow> string" where
  "colons ps = concat (map (\<lambda>p. p @ '':'') ps)"

definition ipv6_address :: "string \<Rightarrow> bool" where
  "ipv6_address s \<longleftrightarrow>
     (\<exists>ps x. s = colons ps @ x \<and> list_all h16 ps \<and> (length ps = 7 \<and> h16 x \<or> length ps = 6 \<and> ipv4_address x)) \<or>
     (\<exists>ls rs x. s = (if ls = [] then ''::'' else colons ls @ '':'') @ colons rs @ x \<and> list_all h16 ls \<and> list_all h16 rs \<and>
       (rs = [] \<and> x = [] \<and> length ls \<le> 7 \<or> h16 x \<and> length ls + length rs + 1 \<le> 7 \<or>
        ipv4_address x \<and> length ls + length rs + 2 \<le> 7))"

lemma hex_not: "\<not> is_hexdig CHR '':''" "\<not> is_hexdig CHR ''.''" "\<not> is_hexdig CHR ''%''" "\<not> is_hexdig CHR ''v''"
  "\<not> is_hexdig CHR ''V''"
  by (simp_all add: is_hexdig_def is_digit_def)

lemma digit_hex: "is_digit c \<Longrightarrow> is_hexdig c"
  by (simp add: is_hexdig_def)

lemma digit_not: "\<not> is_digit CHR ''.''"
  by (simp add: is_digit_def)

lemma takeWhile_take_stop:
  "list_all P p \<Longrightarrow> length p \<le> n \<Longrightarrow> r = [] \<or> \<not> P (hd r) \<Longrightarrow> takeWhile P (take n (p @ r)) = p"
  by (cases r; cases "n - length p") (auto simp: takeWhile_append list_all_iff)

lemma upto4_h16: "h16 p \<Longrightarrow> r = [] \<or> \<not> is_hexdig (hd r) \<Longrightarrow> upto4_hex (p @ r) = p"
  unfolding upto4_hex_def h16_def by (intro takeWhile_take_stop) auto

lemma upto4_split: "\<exists>r. s = upto4_hex s @ r" and upto4_hex_ok: "upto4_hex s = [] \<or> h16 (upto4_hex s)"
proof -
  obtain r where r: "take 4 s = upto4_hex s @ r" by (metis takeWhile_dropWhile_id upto4_hex_def)
  then have "s = upto4_hex s @ r @ drop 4 s" by (metis append.assoc append_take_drop_id)
  then show "\<exists>r. s = upto4_hex s @ r" by blast
  have "length (upto4_hex s) \<le> length (take 4 s)" unfolding upto4_hex_def by (rule length_takeWhile_le)
  then show "upto4_hex s = [] \<or> h16 (upto4_hex s)"
    by (auto simp: h16_def upto4_hex_def list_all_iff dest: set_takeWhileD)
qed

lemma drop_prefix: "s = a @ r \<Longrightarrow> drop (length a) s = r"
  by simp

section \<open>The loop over the pieces\<close>

lemma pieces_colon:
  "h16 p \<Longrightarrow> ip_pieces n double prev (p @ CHR '':'' # s) = ip_pieces (n + 1) double False s"
  using upto4_h16 [of p "CHR '':'' # s"]
  by (subst ip_pieces.simps) (auto simp: Let_def hex_not h16_def)

lemma pieces_colons:
  "list_all h16 ps \<Longrightarrow> ip_pieces n double prev (colons ps @ s) = ip_pieces (n + length ps) double (prev \<and> ps = []) s"
  by (induction ps arbitrary: n prev) (simp_all add: colons_def pieces_colon)

lemma upto4_none: "\<not> is_hexdig c \<Longrightarrow> upto4_hex (c # s) = []" "upto4_hex [] = []"
  by (simp_all add: upto4_hex_def)

lemma pieces_double:
  "0 < n \<Longrightarrow> ip_pieces n False prev (CHR '':'' # s) = ip_pieces (n + 1) True True s"
  "ip_pieces 0 False prev (CHR '':'' # CHR '':'' # s) = ip_pieces 1 True True s"
  by (subst ip_pieces.simps; simp add: upto4_none hex_not Let_def)+

lemma pieces_end:
  "h16 x \<Longrightarrow> ip_pieces n double prev x = Inr (n + 1, double, None)"
  "ip_pieces n double True [] = Inr (n, double, None)"
  "h16 p \<Longrightarrow> ip_pieces n double prev (p @ CHR ''.'' # s) = Inr (n, double, Some (p @ CHR ''.'' # s))"
proof -
  show "ip_pieces n double prev x = Inr (n + 1, double, None)" if "h16 x"
    using that upto4_h16 [of x "[]"] by (subst ip_pieces.simps) (auto simp: Let_def h16_def)
  show "ip_pieces n double True [] = Inr (n, double, None)" by (subst ip_pieces.simps) (simp add: Let_def upto4_none)
  show "ip_pieces n double prev (p @ CHR ''.'' # s) = Inr (n, double, Some (p @ CHR ''.'' # s))" if "h16 p"
    using that upto4_h16 [of p "CHR ''.'' # s"] by (subst ip_pieces.simps) (auto simp: Let_def h16_def hex_not)
qed

text \<open>How the loop may end: at a last piece, right after a double colon, or at a decimal number.\<close>

definition pieces_stop :: "bool \<Rightarrow> string \<Rightarrow> string option \<Rightarrow> nat \<Rightarrow> bool" where
  "pieces_stop prev x decimal k \<longleftrightarrow> h16 x \<and> decimal = None \<and> k = 1 \<or> x = [] \<and> prev \<and> decimal = None \<and> k = 0 \<or>
     (\<exists>p r. x = p @ CHR ''.'' # r \<and> h16 p \<and> decimal = Some x \<and> k = 0)"

lemma pieces_inv:
  "ip_pieces n double prev s = Inr (m, double', decimal) \<Longrightarrow>
    (\<exists>ps x k. s = colons ps @ x \<and> list_all h16 ps \<and> double' = double \<and> pieces_stop (prev \<and> ps = []) x decimal k \<and>
       m = n + length ps + k) \<or>
    (\<not> double \<and> double' \<and> (\<exists>ls rs x k. s = (if n = 0 \<and> ls = [] then ''::'' else colons ls @ '':'') @ colons rs @ x \<and>
       list_all h16 ls \<and> list_all h16 rs \<and> pieces_stop (rs = []) x decimal k \<and>
       m = n + length ls + 1 + length rs + k))"
proof (induction n double prev s rule: ip_pieces.induct)
  case (1 n double prev s)
  define hex where "hex = upto4_hex s"
  define r where "r = drop (length hex) s"
  obtain r0 where "s = hex @ r0" using upto4_split [of s] by (auto simp: hex_def)
  then have s: "s = hex @ r" unfolding r_def by (metis append_eq_conv_conj)
  have hex: "hex = [] \<or> h16 hex" unfolding hex_def by (rule upto4_hex_ok)
  note eq = "1.prems" [unfolded ip_pieces.simps [of n double prev s] Let_def hex_def [symmetric] r_def [symmetric]]
  show ?case
  proof (cases r)
    case Nil
    then show ?thesis using eq s hex
      by (intro disjI1 exI [of _ "[]"] exI [of _ s]) (auto simp: colons_def pieces_stop_def split: if_splits)
  next
    case (Cons c r')
    show ?thesis
    proof (cases "c = CHR '':''")
      case True
      show ?thesis
      proof (cases "hex = []")
        case hex0: True
        then have d: "\<not> double" and e: "ip_pieces (n + 1) True True (if n = 0 then tl r' else r') = Inr (m, double', decimal)"
          and c2: "n = 0 \<longrightarrow> r' \<noteq> [] \<and> hd r' = CHR '':''"
          using eq Cons True by (auto split: if_splits)
        have tls: "(if n + 1 = 1 then tl (tl r) else tl r) = (if n = 0 then tl r' else r')" using Cons by simp
        have "(\<exists>ps x k. (if n = 0 then tl r' else r') = colons ps @ x \<and> list_all h16 ps \<and> double' = True \<and>
             pieces_stop (True \<and> ps = []) x decimal k \<and> m = n + 1 + length ps + k)"
          using "1.IH"(1) [OF hex_def r_def refl, unfolded tls, OF _ _ hex0 _ d e] Cons True c2 by auto
        then obtain rs x k where *: "(if n = 0 then tl r' else r') = colons rs @ x" "list_all h16 rs" "double'"
            "pieces_stop (rs = []) x decimal k" "m = n + 1 + length rs + k" by auto
        have "s = (if n = 0 then ''::'' else '':'') @ colons rs @ x"
          using s hex0 Cons True c2 *(1) by (cases r') (auto split: if_splits)
        then show ?thesis using d * 
          by (intro disjI2 conjI exI [of _ "[]"] exI [of _ rs] exI [of _ x] exI [of _ k]) (auto simp: colons_def)
      next
        case hexn: False
        then have h: "h16 hex" using hex by blast
        have e: "ip_pieces (n + 1) double False r' = Inr (m, double', decimal)" using eq Cons True hexn by simp
        have IH: "(\<exists>ps x k. r' = colons ps @ x \<and> list_all h16 ps \<and> double' = double \<and> pieces_stop False x decimal k \<and>
             m = n + 1 + length ps + k) \<or>
          (\<not> double \<and> double' \<and> (\<exists>ls rs x k. r' = (colons ls @ '':'') @ colons rs @ x \<and>
             list_all h16 ls \<and> list_all h16 rs \<and> pieces_stop (rs = []) x decimal k \<and>
             m = n + 1 + length ls + 1 + length rs + k))"
          using "1.IH"(2) [OF hex_def r_def refl] e Cons True hexn by auto
        have s': "s = colons [hex] @ r'" using s Cons True by (simp add: colons_def)
        from IH show ?thesis
        proof
          assume "\<exists>ps x k. r' = colons ps @ x \<and> list_all h16 ps \<and> double' = double \<and> pieces_stop False x decimal k \<and>
             m = n + 1 + length ps + k"
          then obtain ps x k where "r' = colons ps @ x" "list_all h16 ps" "double' = double" "pieces_stop False x decimal k"
             "m = n + 1 + length ps + k" by blast
          then show ?thesis using s' h by (intro disjI1 exI [of _ "hex # ps"] exI [of _ x] exI [of _ k]) (auto simp: colons_def)
        next
          assume "\<not> double \<and> double' \<and> (\<exists>ls rs x k. r' = (colons ls @ '':'') @ colons rs @ x \<and>
             list_all h16 ls \<and> list_all h16 rs \<and> pieces_stop (rs = []) x decimal k \<and>
             m = n + 1 + length ls + 1 + length rs + k)"
          then obtain ls rs x k where "\<not> double" "double'" "r' = (colons ls @ '':'') @ colons rs @ x"
             "list_all h16 ls" "list_all h16 rs" "pieces_stop (rs = []) x decimal k" "m = n + 1 + length ls + 1 + length rs + k"
            by blast
          then show ?thesis using s' h
            by (intro disjI2 conjI exI [of _ "hex # ls"] exI [of _ rs] exI [of _ x] exI [of _ k]) (auto simp: colons_def)
        qed
      qed
    next
      case False
      then have "c = CHR ''.''" "hex \<noteq> []" "m = n" "double' = double" "decimal = Some s" using eq Cons by (auto split: if_splits)
      then show ?thesis using s hex Cons
        by (intro disjI1 exI [of _ "[]"] exI [of _ s] exI [of _ 0]) (auto simp: colons_def pieces_stop_def)
    qed
  qed
qed

section \<open>IPv4 and IPv6 addresses\<close>

lemma ip_decimal_step:
  "ip_decimal (Suc k) s \<longleftrightarrow>
    (\<exists>a r. dec_octet a \<and> (if k = 0 then s = a else s = a @ CHR ''.'' # r \<and> ip_decimal k r))" (is "?l \<longleftrightarrow> ?r")
proof
  assume l: ?l
  define a where "a = takeWhile is_digit (take 3 s)"
  define r where "r = drop (length a) s"
  have "length a \<le> length (take 3 s)" unfolding a_def by (rule length_takeWhile_le)
  moreover have "list_all is_digit a" by (auto simp: a_def list_all_iff dest: set_takeWhileD)
  ultimately have "dec_octet a" using l by (auto simp: dec_octet_def Let_def a_def [symmetric] split: if_splits)
  moreover have "s = a @ r"
  proof -
    have "take 3 s = a @ dropWhile is_digit (take 3 s)" by (simp add: a_def)
    then have "s = a @ dropWhile is_digit (take 3 s) @ drop 3 s" by (metis append.assoc append_take_drop_id)
    then show ?thesis unfolding r_def by (metis append_eq_conv_conj)
  qed
  moreover have "if k = 0 then r = [] else r \<noteq> [] \<and> hd r = CHR ''.'' \<and> ip_decimal k (tl r)"
    using l by (auto simp: Let_def a_def [symmetric] r_def [symmetric] split: if_splits)
  ultimately show ?r by (intro exI [of _ a] exI [of _ "tl r"]) (cases r; auto split: if_splits)
next
  assume ?r
  then obtain a r where a: "dec_octet a" "if k = 0 then s = a else s = a @ CHR ''.'' # r \<and> ip_decimal k r" by blast
  have "takeWhile is_digit (take 3 (a @ t)) = a" if "t = [] \<or> \<not> is_digit (hd t)" for t
    using a(1) that by (intro takeWhile_take_stop) (auto simp: dec_octet_def)
  from this [of "[]"] this [of "CHR ''.'' # r"]
  have tw: "takeWhile is_digit (take 3 s) = a" "drop (length a) s = (if k = 0 then [] else CHR ''.'' # r)"
    using a(2) by (auto simp: digit_not split: if_splits)
  show ?l unfolding ip_decimal.simps tw(1) Let_def tw(2) using a by (auto simp: dec_octet_def split: if_splits)
qed

lemma ip_decimal_iff: "ip_decimal 4 s \<longleftrightarrow> ipv4_address s"
proof -
  have 4: "(4::nat) = Suc (Suc (Suc (Suc 0)))" by simp
  have "ip_decimal 4 s \<longleftrightarrow> (\<exists>a r. dec_octet a \<and> s = a @ CHR ''.'' # r \<and> (\<exists>b q. dec_octet b \<and> r = b @ CHR ''.'' # q \<and>
      (\<exists>c d. dec_octet c \<and> q = c @ CHR ''.'' # d \<and> dec_octet d)))"
    unfolding 4 by (simp add: ip_decimal_step del: ip_decimal.simps)
  then show ?thesis unfolding ipv4_address_def append_Cons append_Nil by blast
qed

lemma ipv4_starts: "ipv4_address x \<Longrightarrow> \<exists>p r. x = p @ CHR ''.'' # r \<and> h16 p"
  unfolding ipv4_address_def dec_octet_def h16_def
  by (fastforce simp: list_all_iff digit_hex)

lemma ip_pieces_error: "ip_pieces n double prev s = Inl e \<Longrightarrow> e = URI_PARSE_BAD_IPV6"
proof (induction n double prev s rule: ip_pieces.induct)
  case (1 n double prev s)
  show ?case using "1.prems" "1.IH" by (subst (asm) ip_pieces.simps) (auto simp: Let_def split: if_splits)
qed

lemma validate_ipv6_iff: "validate_ipv6 s = URI_PARSE_OK \<longleftrightarrow> ipv6_address s"
proof
  assume ok: "validate_ipv6 s = URI_PARSE_OK"
  show "ipv6_address s"
  proof (cases "ip_pieces 0 False False s")
    case (Inl e)
    with ok ip_pieces_error [OF Inl] show ?thesis by (simp add: validate_ipv6_def)
  next
    case (Inr res)
    obtain m double decimal where res: "ip_pieces 0 False False s = Inr (m, double, decimal)" using Inr by (cases res) auto
    have cond: "(case decimal of None \<Rightarrow> if double then m \<le> 8 else m = 8
       | Some d \<Rightarrow> (if double then m \<le> 6 else m = 6) \<and> ipv4_address d)"
      using ok res by (auto simp: validate_ipv6_def ip_decimal_iff split: option.splits if_splits)
    from pieces_inv [OF res] show ?thesis
    proof (elim disjE exE conjE)
      fix ps x k
      assume *: "s = colons ps @ x" "list_all h16 ps" "double = False" "pieces_stop (False \<and> ps = []) x decimal k"
        "m = 0 + length ps + k"
      then have "length ps = 7 \<and> h16 x \<or> length ps = 6 \<and> ipv4_address x"
        using cond by (auto simp: pieces_stop_def)
      with * show ?thesis unfolding ipv6_address_def by blast
    next
      fix ls rs x k
      assume *: "double" "s = (if 0 = 0 \<and> ls = [] then ''::'' else colons ls @ '':'') @ colons rs @ x"
        "list_all h16 ls" "list_all h16 rs" "pieces_stop (rs = []) x decimal k" "m = 0 + length ls + 1 + length rs + k"
      then have "rs = [] \<and> x = [] \<and> length ls \<le> 7 \<or> h16 x \<and> length ls + length rs + 1 \<le> 7 \<or>
          ipv4_address x \<and> length ls + length rs + 2 \<le> 7"
        using cond by (auto simp: pieces_stop_def)
      with * show ?thesis unfolding ipv6_address_def by (intro disjI2 exI [of _ ls] exI [of _ rs] exI [of _ x]) simp
    qed
  qed
next
  assume "ipv6_address s"
  then consider (plain) ps x where "s = colons ps @ x" "list_all h16 ps"
      "length ps = 7 \<and> h16 x \<or> length ps = 6 \<and> ipv4_address x"
    | (elided) ls rs x where "s = (if ls = [] then ''::'' else colons ls @ '':'') @ colons rs @ x"
      "list_all h16 ls" "list_all h16 rs"
      "rs = [] \<and> x = [] \<and> length ls \<le> 7 \<or> h16 x \<and> length ls + length rs + 1 \<le> 7 \<or>
        ipv4_address x \<and> length ls + length rs + 2 \<le> 7"
    unfolding ipv6_address_def by blast
  then show "validate_ipv6 s = URI_PARSE_OK"
  proof cases
    case plain
    have e: "ip_pieces 0 False False s = ip_pieces (length ps) False False x"
      using plain(1,2) by (simp add: pieces_colons)
    show ?thesis using plain(3)
    proof (elim disjE conjE)
      assume "length ps = 6" "ipv4_address x"
      moreover obtain p r where "x = p @ CHR ''.'' # r" "h16 p" using ipv4_starts \<open>ipv4_address x\<close> by blast
      ultimately show ?thesis using e by (simp add: validate_ipv6_def pieces_end ip_decimal_iff)
    qed (simp add: validate_ipv6_def e pieces_end)
  next
    case elided
    have "ip_pieces 0 False False s = ip_pieces (length ls + 1) True True (colons rs @ x)"
    proof (cases "ls = []")
      case True
      then show ?thesis using elided(1) by (simp add: pieces_double)
    next
      case False
      then show ?thesis using elided(1,2) by (simp add: pieces_colons pieces_double)
    qed
    then have e: "ip_pieces 0 False False s = ip_pieces (length ls + 1 + length rs) True (rs = []) x"
      using elided(3) by (simp add: pieces_colons)
    show ?thesis using elided(4)
    proof (elim disjE conjE)
      assume "length ls + length rs + 2 \<le> 7" "ipv4_address x"
      moreover obtain p r where "x = p @ CHR ''.'' # r" "h16 p" using ipv4_starts \<open>ipv4_address x\<close> by blast
      ultimately show ?thesis using e by (simp add: validate_ipv6_def pieces_end ip_decimal_iff)
    qed (simp_all add: validate_ipv6_def e pieces_end)
  qed
qed

section \<open>Valid components\<close>

definition scheme_char :: "char \<Rightarrow> bool" where
  "scheme_char c \<longleftrightarrow> is_alnum c \<or> c = CHR ''+'' \<or> c = CHR ''-'' \<or> c = CHR ''.''"

definition scheme_valid :: "string \<Rightarrow> bool" where
  "scheme_valid s \<longleftrightarrow> s \<noteq> [] \<and> is_alpha (hd s) \<and> list_all scheme_char (tl s)"

definition ip_future :: "string \<Rightarrow> bool" where
  "ip_future s \<longleftrightarrow> (\<exists>v ver rest. s = v # ver @ ''.'' @ rest \<and> (v = CHR ''v'' \<or> v = CHR ''V'') \<and>
     ver \<noteq> [] \<and> list_all is_hexdig ver \<and> rest \<noteq> [] \<and> list_all userinfo_char rest)"

definition octet_pair :: "string \<Rightarrow> bool" where
  "octet_pair p \<longleftrightarrow> length p = 2 \<and> list_all is_hexdig p"

definition mac_address :: "string \<Rightarrow> bool" where
  "mac_address s \<longleftrightarrow> (\<exists>ps x. s = colons ps @ x \<and> length ps = 5 \<and> list_all octet_pair ps \<and> octet_pair x)"

definition host_valid :: "string \<Rightarrow> string \<Rightarrow> bool" where
  "host_valid scheme host \<longleftrightarrow> host = [] \<or>
     (\<exists>x. host = CHR ''['' # x @ '']'' \<and> (ip_future x \<or> ipv6_address x)) \<or>
     (hd host \<noteq> CHR ''['' \<and> (if scheme = ''eth'' then mac_address host else pct_string host_char host))"

definition view_valid :: "view \<Rightarrow> bool" where
  "view_valid v \<longleftrightarrow> scheme_valid (v_scheme v) \<and>
     (v_userinfo v = [] \<or> pct_string userinfo_char (butlast (v_userinfo v))) \<and>
     host_valid (v_scheme v) (v_host v) \<and> list_all is_digit (v_port v) \<and>
     pct_string path_char (v_path v) \<and>
     (v_query v = [] \<or> pct_string query_char (tl (v_query v))) \<and>
     (v_fragment v = [] \<or> pct_string query_char (tl (v_fragment v)))"

lemma not_allowed: "\<not> userinfo_char CHR ''%''" "\<not> host_char CHR ''%''" "\<not> path_char CHR ''%''" "\<not> query_char CHR ''%''"
  by (simp_all add: userinfo_char_def host_char_def path_char_def query_char_def is_unreserved_def is_sub_delim_def
      is_alnum_def is_alpha_def is_upper_def is_lower_def is_digit_def)

lemma validate_ip_future_iff:
  "(c = CHR ''v'' \<or> c = CHR ''V'') \<Longrightarrow> validate_ip_future s = URI_PARSE_OK \<longleftrightarrow> ip_future (c # s)"
proof
  assume c: "c = CHR ''v'' \<or> c = CHR ''V''" and ok: "validate_ip_future s = URI_PARSE_OK"
  define r where "r = dropWhile is_hexdig (tl s)"
  have s: "s \<noteq> []" "is_hexdig (hd s)" "r \<noteq> []" "hd r = CHR ''.''" "tl r \<noteq> []" "list_all userinfo_char (tl r)"
    using ok by (auto simp: validate_ip_future_def userinfo_char_def Let_def r_def list_all_iff split: if_splits)
  let ?ver = "hd s # takeWhile is_hexdig (tl s)"
  have "tl s = takeWhile is_hexdig (tl s) @ r" by (simp add: r_def)
  then have "s = ?ver @ ''.'' @ tl r" using s(1,3,4) by (cases s; cases r) auto
  moreover have "list_all is_hexdig ?ver" using s(2) by (auto simp: list_all_iff dest: set_takeWhileD)
  ultimately show "ip_future (c # s)" unfolding ip_future_def using c s(5,6)
    by (intro exI [of _ c] exI [of _ ?ver] exI [of _ "tl r"]) auto
next
  assume "ip_future (c # s)"
  then obtain ver rest where v: "s = ver @ ''.'' @ rest" "ver \<noteq> []" "list_all is_hexdig ver" "rest \<noteq> []" "list_all userinfo_char rest"
    by (auto simp: ip_future_def)
  then obtain a b where ab: "ver = a # b" by (cases ver) auto
  have "dropWhile is_hexdig (tl s) = CHR ''.'' # rest"
    using v ab by (auto simp: list_all_iff hex_not dropWhile_append)
  then show "validate_ip_future s = URI_PARSE_OK" using v ab
    by (simp add: validate_ip_future_def userinfo_char_def list_all_iff)
qed

lemma validate_ip_literal_iff: "validate_ip_literal s = URI_PARSE_OK \<longleftrightarrow> ip_future s \<or> ipv6_address s"
proof (cases s)
  case Nil
  have "ip_pieces 0 False False [] = Inl URI_PARSE_BAD_IPV6" by (subst ip_pieces.simps) (simp add: upto4_none)
  then have "\<not> ipv6_address []" unfolding validate_ipv6_iff [symmetric] by (simp add: validate_ipv6_def)
  then show ?thesis using Nil by (simp add: validate_ip_literal_def ip_future_def)
next
  case (Cons c r)
  show ?thesis
  proof (cases "c = CHR ''v'' \<or> c = CHR ''V''")
    case True
    then have "ip_pieces 0 False False s = Inl URI_PARSE_BAD_IPV6"
      using Cons by (subst ip_pieces.simps) (auto simp: upto4_none hex_not Let_def)
    then have "\<not> ipv6_address s" unfolding validate_ipv6_iff [symmetric] by (simp add: validate_ipv6_def)
    then show ?thesis using True Cons validate_ip_future_iff [OF True, of r] by (auto simp: validate_ip_literal_def)
  next
    case False
    then have "\<not> ip_future s" using Cons by (auto simp: ip_future_def)
    then show ?thesis using False Cons validate_ipv6_iff [of s] by (simp add: validate_ip_literal_def)
  qed
qed

lemma eth_pair: "eth_chars (3 * k) (a # b # s) \<longleftrightarrow> is_hexdig a \<and> is_hexdig b \<and>
    (case s of [] \<Rightarrow> True | c # r \<Rightarrow> c = CHR '':'' \<and> eth_chars (3 * (k + 1)) r)"
proof -
  have m: "(3 * k + 1) mod 3 \<noteq> 0" "(3 * k + 1 + 1) mod 3 \<noteq> 0" "(3 * k + 1 + 1 + 1) mod 3 = 0" by presburger+
  have e: "3 * k + 1 + 1 + 1 = 3 * (k + 1)" "3 * (k + 1) mod 3 = 0" by simp_all
  have "eth_chars (3 * k + 1 + 1) s \<longleftrightarrow> (case s of [] \<Rightarrow> True | c # r \<Rightarrow> c = CHR '':'' \<and> eth_chars (3 * (k + 1)) r)"
    by (cases s) (simp_all only: eth_chars.simps list.case m e if_False simp_thms)
  then show ?thesis by (simp only: eth_chars.simps m if_True simp_thms)
qed

lemma eth_pairs:
  "length s = 3 * n + 2 \<Longrightarrow> eth_chars (3 * k) s \<longleftrightarrow>
    (\<exists>ps x. s = colons ps @ x \<and> length ps = n \<and> list_all octet_pair ps \<and> octet_pair x)"
proof (induction n arbitrary: k s)
  case 0
  then obtain a b where "s = [a, b]" by (auto simp: length_Suc_conv numeral_2_eq_2)
  then show ?case using eth_pair [of k a b "[]"] by (simp add: colons_def octet_pair_def)
next
  case (Suc n)
  then obtain a b c r where s: "s = a # b # c # r" "length r = 3 * n + 2"
    by (auto simp: length_Suc_conv numeral_2_eq_2 numeral_3_eq_3)
  have "eth_chars (3 * k) s \<longleftrightarrow> octet_pair [a, b] \<and> c = CHR '':'' \<and> eth_chars (3 * (k + 1)) r"
    unfolding s(1) eth_pair by (simp add: octet_pair_def)
  also have "\<dots> \<longleftrightarrow> octet_pair [a, b] \<and> c = CHR '':'' \<and>
      (\<exists>ps x. r = colons ps @ x \<and> length ps = n \<and> list_all octet_pair ps \<and> octet_pair x)"
    unfolding Suc.IH [OF s(2)] ..
  also have "\<dots> \<longleftrightarrow> (\<exists>ps x. s = colons ps @ x \<and> length ps = Suc n \<and> list_all octet_pair ps \<and> octet_pair x)"
  proof
    assume "octet_pair [a, b] \<and> c = CHR '':'' \<and>
      (\<exists>ps x. r = colons ps @ x \<and> length ps = n \<and> list_all octet_pair ps \<and> octet_pair x)"
    then obtain ps x where "octet_pair [a, b]" "c = CHR '':''" "r = colons ps @ x" "length ps = n" "list_all octet_pair ps"
      "octet_pair x" by blast
    then show "\<exists>ps x. s = colons ps @ x \<and> length ps = Suc n \<and> list_all octet_pair ps \<and> octet_pair x"
      using s(1) by (intro exI [of _ "[a, b] # ps"] exI [of _ x]) (simp add: colons_def)
  next
    assume "\<exists>ps x. s = colons ps @ x \<and> length ps = Suc n \<and> list_all octet_pair ps \<and> octet_pair x"
    then obtain p ps x where *: "s = colons (p # ps) @ x" "length ps = n" "list_all octet_pair (p # ps)" "octet_pair x"
      by (metis length_Suc_conv)
    then obtain d e where p: "p = [d, e]" by (auto simp: octet_pair_def length_Suc_conv numeral_2_eq_2)
    then have "[a, b] = p" "c = CHR '':''" "r = colons ps @ x" "octet_pair p" "list_all octet_pair ps"
      using *(1,3) s(1) by (simp_all add: colons_def)
    with *(2,4) show "octet_pair [a, b] \<and> c = CHR '':'' \<and>
      (\<exists>ps x. r = colons ps @ x \<and> length ps = n \<and> list_all octet_pair ps \<and> octet_pair x)"
      by blast
  qed
  finally show ?case .
qed

lemma colons_length: "list_all octet_pair ps \<Longrightarrow> length (colons ps) = 3 * length ps"
  by (induction ps) (auto simp: colons_def octet_pair_def)

lemma validate_eth_iff: "validate_eth_literal s = URI_PARSE_OK \<longleftrightarrow> mac_address s"
proof (cases "length s = 17")
  case True
  then show ?thesis using eth_pairs [of s 5 0] by (simp add: validate_eth_literal_def mac_address_def)
next
  case False
  then have "\<not> mac_address s" by (auto simp: mac_address_def colons_length octet_pair_def)
  then show ?thesis using False by (simp add: validate_eth_literal_def)
qed

text \<open>The validators on a URI whose components are those of a view of the grammar.\<close>

lemma comp_str_view:
  assumes "represents u v"
  shows "comp_str (part_get p) u = Inr (part_text p v)"
proof -
  have g: "part_get p u = located (length (part_before p v)) (part_text p v)" and s: "u_str u = unparse v"
    using assms by (simp_all add: represents_def located_in_def)
  have "\<exists>c. unparse v = part_before p v @ part_text p v @ c"
    by (cases p) (simp_all add: view_defs)
  then obtain c where "unparse v = part_before p v @ part_text p v @ c" ..
  then show ?thesis by (simp add: comp_str_def g s str_sub_append)
qed

lemmas comp_str_views = comp_str_view [where p = Scheme, simplified] comp_str_view [where p = Userinfo, simplified]
  comp_str_view [where p = Host, simplified] comp_str_view [where p = Port, simplified]
  comp_str_view [where p = Path, simplified] comp_str_view [where p = Query, simplified]
  comp_str_view [where p = Fragment, simplified]

lemma part_len: "represents u v \<Longrightarrow> c_len (part_get p u) = length (part_text p v)"
  by (simp add: represents_def located_in_def)

lemmas part_lens = part_len [where p = Authority, simplified] part_len [where p = Userinfo, simplified]
  part_len [where p = Port, simplified] part_len [where p = Path, simplified] part_len [where p = Query, simplified]
  part_len [where p = Fragment, simplified]

definition accepts :: "(uri \<Rightarrow> uri_parse_err run) \<Rightarrow> uri \<Rightarrow> bool \<Rightarrow> bool" where
  "accepts f u b \<longleftrightarrow> (\<exists>e. f u = Inr e \<and> (e = URI_PARSE_OK \<longleftrightarrow> b))"

lemma acceptsI: "f u = Inr e \<Longrightarrow> (e = URI_PARSE_OK \<longleftrightarrow> b) \<Longrightarrow> accepts f u b"
  by (simp add: accepts_def)

lemma accepts_validators:
  assumes r: "represents u v" and g: "view_generic v" and s: "v_scheme v \<noteq> []"
  shows "accepts validate_scheme_name u (scheme_valid (v_scheme v))"
    and "accepts validate_userinfo u (v_userinfo v = [] \<or> pct_string userinfo_char (butlast (v_userinfo v)))"
    and "accepts validate_host u (host_valid (v_scheme v) (v_host v))"
    and "accepts validate_port u (list_all is_digit (v_port v))"
    and "accepts validate_path u (pct_string path_char (v_path v))"
    and "accepts validate_query u (v_query v = [] \<or> pct_string query_char (tl (v_query v)))"
    and "accepts validate_fragment u (v_fragment v = [] \<or> pct_string query_char (tl (v_fragment v)))"
proof -
  note C = comp_str_views [OF r] and L = part_lens [OF r] and G = g [unfolded view_generic_def authority_generic_def]
  obtain c cs where "v_scheme v = c # cs" using s by (cases "v_scheme v") auto
  then show "accepts validate_scheme_name u (scheme_valid (v_scheme v))"
    by (intro acceptsI [where e = "if scheme_valid (v_scheme v) then URI_PARSE_OK else URI_PARSE_BAD_SCHEME"])
      (auto simp: validate_scheme_name_def C scheme_valid_def scheme_char_def [abs_def])
  have "v_userinfo v \<noteq> [] \<Longrightarrow> last (v_userinfo v) = CHR ''@''" using G by (auto split: if_splits)
  then show "accepts validate_userinfo u (v_userinfo v = [] \<or> pct_string userinfo_char (butlast (v_userinfo v)))"
    using validate_chars_iff [of userinfo_char URI_PARSE_BAD_USERINFO "butlast (v_userinfo v)"]
    by (cases "v_userinfo v = []") (simp_all add: accepts_def validate_userinfo_def C L not_allowed)
  show "accepts validate_port u (list_all is_digit (v_port v))"
    by (cases "v_port v = []") (simp_all add: accepts_def validate_port_def C L)
  have "v_query v \<noteq> [] \<Longrightarrow> str_at (v_query v) 0 = Inr CHR ''?''" using G by (cases "v_query v") (auto simp: str_at_def)
  then show "accepts validate_query u (v_query v = [] \<or> pct_string query_char (tl (v_query v)))"
    using validate_chars_iff [of query_char URI_PARSE_BAD_QUERY "tl (v_query v)"]
    by (cases "v_query v = []") (simp_all add: accepts_def validate_query_def C L not_allowed)
  have "v_fragment v \<noteq> [] \<Longrightarrow> str_at (v_fragment v) 0 = Inr CHR ''#''" using G by (cases "v_fragment v") (auto simp: str_at_def)
  then show "accepts validate_fragment u (v_fragment v = [] \<or> pct_string query_char (tl (v_fragment v)))"
    using validate_chars_iff [of query_char URI_PARSE_BAD_FRAGMENT "tl (v_fragment v)"]
    by (cases "v_fragment v = []") (simp_all add: accepts_def validate_fragment_def C L not_allowed)
  have sl: "v_authority v \<noteq> [] \<longleftrightarrow> v_slashes v \<noteq> []"
    using G by (auto simp: view_wf_def v_authority_def split: if_splits)
  have "v_path v \<noteq> [] \<Longrightarrow> v_authority v \<noteq> [] \<Longrightarrow> str_at (v_path v) 0 = Inr CHR ''/''"
    using G sl by (cases "v_path v") (auto simp: str_at_def)
  moreover have "v_authority v = [] \<Longrightarrow> take 2 (v_path v) \<noteq> ''//''" using G sl by auto
  ultimately show "accepts validate_path u (pct_string path_char (v_path v))"
    using validate_chars_iff [of path_char URI_PARSE_BAD_PATH "v_path v"]
    by (cases "v_path v = []") (auto simp: accepts_def validate_path_def C L not_allowed)
  show "accepts validate_host u (host_valid (v_scheme v) (v_host v))"
  proof (cases "v_host v = []")
    case True
    then show ?thesis by (simp add: accepts_def validate_host_def C host_valid_def)
  next
    case n: False
    show ?thesis
    proof (cases "hd (v_host v) = CHR ''[''")
      case True
      then have l: "last (v_host v) = CHR '']''" using G n by auto
      obtain w where w: "v_host v = CHR ''['' # w" using n True by (cases "v_host v") auto
      with l have "w \<noteq> []" "last w = CHR '']''" by (auto split: if_splits)
      then obtain x where x: "v_host v = CHR ''['' # x @ '']''" using w by (metis append_butlast_last_id)
      have "str_sub (v_host v) 1 (length (v_host v) - 2) = Inr x" using x by (simp add: str_sub_def)
      then show ?thesis using n True l x validate_ip_literal_iff [of x]
        by (simp add: accepts_def validate_host_def C host_valid_def)
    next
      case False
      then show ?thesis using n validate_chars_iff [of host_char URI_PARSE_BAD_HOST "v_host v"] validate_eth_iff [of "v_host v"]
        by (auto simp: accepts_def validate_host_def C host_valid_def not_allowed)
    qed
  qed
qed

lemma validate_all_accepts:
  "list_all2 (\<lambda>f b. accepts f u b) fs bs \<Longrightarrow> accepts (validate_all fs) u (list_all id bs)"
  by (induction fs bs rule: list_all2_induct) (auto simp: accepts_def)

lemma validate_view:
  assumes "represents u v" "view_generic v" "v_scheme v \<noteq> []" "u_validate u"
  shows "accepts validate u (view_valid v)"
proof -
  note A = accepts_validators [OF assms(1-3)]
  have "accepts (validate_all [validate_scheme_name, validate_userinfo, validate_host, validate_port, validate_path,
       validate_query, validate_fragment]) u (list_all id [scheme_valid (v_scheme v),
     v_userinfo v = [] \<or> pct_string userinfo_char (butlast (v_userinfo v)), host_valid (v_scheme v) (v_host v),
     list_all is_digit (v_port v), pct_string path_char (v_path v),
     v_query v = [] \<or> pct_string query_char (tl (v_query v)), v_fragment v = [] \<or> pct_string query_char (tl (v_fragment v))])"
    by (intro validate_all_accepts) (simp add: A)
  then show ?thesis using assms(4) by (simp add: accepts_def validate_def view_valid_def)
qed

section \<open>Properties\<close>

text \<open>
  Property C32. URI.cc:622-826: validate_ip_literal accepts exactly the IP literals of
  RFC 3986: IPv6 addresses of eight pieces of one to four hexadecimal digits, the last two of
  which may be an IPv4 address of four decimal octets, with at most one double colon for one
  or more pieces, and the literals of future versions.
\<close>

theorem ip_literal_grammar:
  "validate_ip_literal s = URI_PARSE_OK \<longleftrightarrow> ip_future s \<or> ipv6_address s"
  by (rule validate_ip_literal_iff)

text \<open>
  Property C19. URI.cc:288-303 and the validators: for a URI whose components are those the
  generic grammar gives, no assertion of the validators fails and none of them reads outside a
  component, and validate finds no error if and only if every component is one of RFC 3986:
  its characters are allowed or percent encoded, the host is a registered name, an IP literal
  or, for the scheme eth, a MAC address.
\<close>

theorem validate_grammar:
  assumes "represents u v" "view_generic v" "v_scheme v \<noteq> []" "u_validate u"
  shows "\<exists>e. validate u = Inr e \<and> (e = URI_PARSE_OK \<longleftrightarrow> view_valid v)"
  using validate_view [OF assms] by (simp add: accepts_def)

lemma demo_generic: "view_generic demo_view"
  by (simp add: view_generic_def demo_view_def view_wf_def authority_generic_def v_authority_def)

lemma validate_grammar_witness:
  "validate demo_uri = Inr URI_PARSE_OK \<and> view_valid demo_view"
proof -
  have "validate demo_uri = Inr URI_PARSE_OK"
    by (simp add: validate_def demo_uri_def validate_scheme_name_def validate_userinfo_def validate_host_def
      validate_port_def validate_path_def validate_query_def validate_fragment_def comp_str_def str_sub_def str_at_def
      is_alpha_def is_upper_def is_lower_def is_alnum_def path_char_def host_char_def query_char_def is_unreserved_def)
  moreover have "v_scheme demo_view \<noteq> []" "u_validate demo_uri" by (simp_all add: demo_view_def demo_uri_def)
  ultimately show ?thesis using validate_grammar [OF demo_represents demo_generic] by simp
qed

end
