(* ===== verification/UriNormalize.thy ===== *)
theory UriNormalize
  imports UriValidate Serialize
begin

text \<open>
  util/URI.cc, the rest: percent decoding, the removal of dot segments, normalization, the whole
  of \<open>parse\<close>, and what is asked of a parsed URI. The positions \<open>p\<close> and \<open>curr_pos\<close> of the decoding
  loops are the rest of the text; the assertions of \<open>normalize_path\<close> that repeat the condition
  of an enclosing \<open>if\<close> are left out.
\<close>

section \<open>Percent decoding\<close>

definition hex_val :: "char \<Rightarrow> int" where
  "hex_val c = (let n = int (of_char c) in if is_digit c then n - 48 else if is_lower c then n - 87 else n - 55)"

definition hex_number :: "string \<Rightarrow> int" where
  "hex_number ds = foldl (\<lambda>n d. 16 * n + hex_val d) 0 ds"

text \<open>\<open>sscanf(..., "%x", ...)\<close>: \<open>None\<close> if nothing matches, and then the variable stays uninitialised.\<close>

definition sscanf_x :: "string \<Rightarrow> int option" where
  "sscanf_x s = (let s1 = dropWhile is_space s;
       neg = (s1 \<noteq> [] \<and> hd s1 = CHR ''-'');
       s2 = (if s1 \<noteq> [] \<and> (hd s1 = CHR ''-'' \<or> hd s1 = CHR ''+'') then tl s1 else s1);
       s3 = (if take 2 s2 = ''0x'' \<or> take 2 s2 = ''0X'' then drop 2 s2 else s2);
       ds = takeWhile is_hexdig s3
     in if ds = [] then None else Some (if neg then - hex_number ds else hex_number ds))"

definition byte_char :: "int \<Rightarrow> char" where
  "byte_char n = char_of n"

function decode_loop :: "(char \<Rightarrow> bool) \<Rightarrow> string \<Rightarrow> string \<Rightarrow> (string \<times> string) run" where
  "decode_loop allowed decoded s =
     (let r = dropWhile (\<lambda>c. c \<noteq> CHR ''%'') s
      in if r = [] then Inr (decoded, s)
         else bind_run (assert_run (2 < length r)) (\<lambda>_.
           case sscanf_x (take 2 (tl r)) of
             None \<Rightarrow> Inl Undefined
           | Some n \<Rightarrow> decode_loop allowed (decoded @ takeWhile (\<lambda>c. c \<noteq> CHR ''%'') s @
               (if allowed (byte_char n) then [byte_char n] else CHR ''%'' # map to_upper (take 2 (tl r))))
               (drop 3 r)))"
  by pat_completeness auto
termination
proof (relation "measure (\<lambda>(allowed, decoded, s). length s)", goal_cases)
  case (2 allowed decoded s r u n)
  have "length r \<le> length s" unfolding 2(1) by (rule length_dropWhile_le)
  with 2(2) show ?case by (cases r) auto
qed simp

declare decode_loop.simps [simp del]

text \<open>The component is only set again if something was decoded.\<close>

definition decode_comp :: "(char \<Rightarrow> bool) \<Rightarrow> (uri \<Rightarrow> component) \<Rightarrow> (string \<Rightarrow> uri \<Rightarrow> uri run) \<Rightarrow> uri \<Rightarrow> uri run" where
  "decode_comp allowed get set_it u = bind_run (comp_str get u) (\<lambda>text.
     bind_run (decode_loop allowed [] text) (\<lambda>(decoded, rest).
     if decoded \<noteq> [] then set_it (decoded @ rest) u else Inr u))"

definition decode_authority :: "uri \<Rightarrow> uri run" where
  "decode_authority u = bind_run (decode_comp userinfo_char u_userinfo set_userinfo u)
     (decode_comp host_char u_host set_host)"

definition decode_path :: "uri \<Rightarrow> uri run" where
  "decode_path = decode_comp (\<lambda>c. is_unreserved c \<or> is_sub_delim c \<or> c = CHR '':'' \<or> c = CHR ''@'') u_path set_path"

definition decode_query :: "uri \<Rightarrow> uri run" where
  "decode_query = decode_comp query_char u_query set_query"

definition decode_fragment :: "uri \<Rightarrow> uri run" where
  "decode_fragment = decode_comp query_char u_fragment set_fragment"

section \<open>Normalization\<close>

text \<open>A loop that rewrites the characters of a component in place.\<close>

definition map_comp :: "(string \<Rightarrow> string) \<Rightarrow> component \<Rightarrow> uri \<Rightarrow> uri run" where
  "map_comp f c u =
     (if c_len c = 0 then Inr u
      else if c_off c + c_len c \<le> length (u_str u)
      then Inr (u\<lparr>u_str := take (c_off c) (u_str u) @ f (take (c_len c) (drop (c_off c) (u_str u))) @
        drop (c_off c + c_len c) (u_str u)\<rparr>)
      else Inl Thrown)"

definition normalize_scheme :: "uri \<Rightarrow> uri run" where
  "normalize_scheme u = map_comp (map to_lower) (u_scheme u) u"

text \<open>Lower case for the host, except in percent encodings.\<close>

fun lower_host :: "string \<Rightarrow> string" where
  "lower_host [] = []"
| "lower_host (c # cs) =
     (if c = CHR ''%'' then (case cs of h # l # r \<Rightarrow> c # h # l # lower_host r | _ \<Rightarrow> c # cs)
      else to_lower c # lower_host cs)"

definition normalize_authority :: "uri \<Rightarrow> uri run" where
  "normalize_authority u = bind_run (decode_authority u) (\<lambda>u1. map_comp lower_host (u_host u1) u1)"

text \<open>\<open>path.find("./", p)\<close>, \<open>path.find_last_of('/', p)\<close> and \<open>path.erase(p, n)\<close>.\<close>

definition find_dot_slash :: "string \<Rightarrow> nat \<Rightarrow> nat option" where
  "find_dot_slash s p = find (\<lambda>k. s ! k = CHR ''.'' \<and> s ! (k + 1) = CHR ''/'') [p..<length s - 1]"

definition find_last_slash :: "string \<Rightarrow> nat \<Rightarrow> nat option" where
  "find_last_slash s p = find (\<lambda>k. s ! k = CHR ''/'') (rev [0..<min (p + 1) (length s)])"

definition slash_or_start :: "string \<Rightarrow> nat \<Rightarrow> nat" where
  "slash_or_start s p = (case find_last_slash s p of None \<Rightarrow> 0 | Some k \<Rightarrow> k)"

definition str_erase :: "nat \<Rightarrow> nat \<Rightarrow> string \<Rightarrow> string" where
  "str_erase p n s = take p s @ drop (p + n) s"

lemma find_dot_slash_Some:
  "find_dot_slash s p = Some d \<Longrightarrow> p \<le> d \<and> d + 1 < length s \<and> s ! d = CHR ''.'' \<and> s ! (d + 1) = CHR ''/'' \<and>
    (\<forall>k. p \<le> k \<and> k < d \<longrightarrow> \<not> (s ! k = CHR ''.'' \<and> s ! (k + 1) = CHR ''/''))"
proof -
  assume f: "find_dot_slash s p = Some d"
  from find_Some_split [OF f [unfolded find_dot_slash_def]] obtain ys zs where
    l: "[p..<length s - 1] = ys @ d # zs" and d: "s ! d = CHR ''.'' \<and> s ! (d + 1) = CHR ''/''"
    and ys: "\<forall>y\<in>set ys. \<not> (s ! y = CHR ''.'' \<and> s ! (y + 1) = CHR ''/'')" by blast
  have i: "d \<in> set [p..<length s - 1]" unfolding l by simp
  have "k \<in> set ys" if "p \<le> k" "k < d" for k
  proof -
    have "k \<in> set (ys @ d # zs)" unfolding l [symmetric] using that i by simp
    moreover have "sorted (ys @ d # zs)" unfolding l [symmetric] by (rule sorted_upt)
    ultimately show ?thesis using that(2) by (auto simp: sorted_append)
  qed
  with d ys i show ?thesis by auto
qed

lemma slash_or_start_le: "slash_or_start s p \<le> p"
proof (cases "find_last_slash s p")
  case (Some k)
  then have "k \<in> set (rev [0..<min (p + 1) (length s)])"
    using find_Some_in unfolding find_last_slash_def by fastforce
  with Some show ?thesis by (simp add: slash_or_start_def)
qed (simp add: slash_or_start_def)

function dot_loop :: "string \<Rightarrow> nat \<Rightarrow> bool \<Rightarrow> string \<times> bool" where
  "dot_loop path checkpoint modified = (case find_dot_slash path checkpoint of
      None \<Rightarrow> (path, modified)
    | Some d \<Rightarrow>
        if d = 0 \<or> path ! (d - 1) = CHR ''/'' then dot_loop (str_erase d 2 path) checkpoint True
        else if path ! (d - 1) = CHR ''.'' \<and> d = 1 then dot_loop (str_erase (d - 1) 3 path) checkpoint True
        else if path ! (d - 1) = CHR ''.'' \<and> path ! (d - 2) = CHR ''/'' then
          (if d = 2 then dot_loop (str_erase (d - 1) 3 path) checkpoint True
           else (let prev_seg = slash_or_start path (d - 3)
                 in dot_loop (str_erase prev_seg (d + 1 - prev_seg) path) prev_seg True))
        else dot_loop path (d + 2) True)"
  by pat_completeness auto
termination
proof (relation "measures [\<lambda>(path, checkpoint, modified). length path, \<lambda>(path, checkpoint, modified). length path - checkpoint]",
    goal_cases)
  case (5 path checkpoint modified d x)
  then show ?case using find_dot_slash_Some [OF 5(1)] slash_or_start_le [of path "d - 3"]
    by (auto simp: str_erase_def)
qed (auto simp: str_erase_def dest!: find_dot_slash_Some)

declare dot_loop.simps [simp del]

text \<open>The last segment.\<close>

definition dot_end :: "string \<Rightarrow> bool \<Rightarrow> string \<times> bool" where
  "dot_end path modified =
     (if path = ''.'' then ([], True)
      else if path = ''..'' then ([], True)
      else if 2 \<le> length path \<and> drop (length path - 2) path = ''/.'' then (take (length path - 1) path, True)
      else if 3 \<le> length path \<and> drop (length path - 3) path = ''/..'' then
        (if length path = 3 then (take 1 path, True)
         else (take (slash_or_start path (length path - 4)) path @ ''/'', True))
      else (path, modified))"

definition normalize_path :: "uri \<Rightarrow> uri run" where
  "normalize_path u = bind_run (decode_path u) (\<lambda>u1. bind_run (comp_str u_path u1) (\<lambda>path.
     let (path1, modified1) = dot_loop path 0 False; (path2, modified2) = dot_end path1 modified1
     in if modified2 then set_path path2 u1 else Inr u1))"

definition normalize_query :: "uri \<Rightarrow> uri run" where
  "normalize_query = decode_query"

definition normalize_fragment :: "uri \<Rightarrow> uri run" where
  "normalize_fragment = decode_fragment"

definition uri_normalize :: "uri \<Rightarrow> uri run" where
  "uri_normalize u = bind_run (assert_run (u_normalize u)) (\<lambda>_.
     bind_run (normalize_scheme u) (\<lambda>u1.
     bind_run (normalize_authority u1) (\<lambda>u2.
     bind_run (normalize_path u2) (\<lambda>u3.
     bind_run (normalize_query u3) normalize_fragment))))"

section \<open>The whole parser\<close>

text \<open>After the components: validation and normalization.\<close>

definition parse_rest :: "uri \<Rightarrow> uri run" where
  "parse_rest u2 = bind_run (if u_validate u2 then validate u2 else Inr URI_PARSE_OK) (\<lambda>err.
     if err \<noteq> URI_PARSE_OK then Inr (u2\<lparr>u_err := err\<rparr>)
     else bind_run (if u_normalize u2 then uri_normalize u2 else Inr u2) (\<lambda>u3. Inr (u3\<lparr>u_err := URI_PARSE_OK\<rparr>)))"

definition uri_parse :: "uri \<Rightarrow> uri run" where
  "uri_parse u0 = (let u = uri_clear False u0
     in if u_str u = [] then Inr (u\<lparr>u_err := URI_PARSE_NO_URI\<rparr>)
        else case find_from (\<lambda>c. c = CHR '':'') (u_str u) 0 of
          None \<Rightarrow> Inr (u\<lparr>u_err := URI_PARSE_NO_SEP\<rparr>)
        | Some scheme_len \<Rightarrow>
            if scheme_len = 0 then Inr (u\<lparr>u_err := URI_PARSE_BAD_SCHEME\<rparr>)
            else bind_run (parse_components (u\<lparr>u_scheme := \<lparr>c_off = 0, c_len = scheme_len\<rparr>,
                u_ssp := \<lparr>c_off = scheme_len + 1, c_len = length (u_str u) - (scheme_len + 1)\<rparr>\<rparr>)) (\<lambda>(err, u1).
              if err \<noteq> URI_PARSE_OK then Inr (u1\<lparr>u_err := err\<rparr>)
              else parse_rest (u1\<lparr>u_err := URI_PARSE_OK\<rparr>)))"

definition uri_new :: "string \<Rightarrow> bool \<Rightarrow> bool \<Rightarrow> uri run" where
  "uri_new s do_validate do_normalize =
     uri_parse (uri_none\<lparr>u_str := s, u_validate := do_validate, u_normalize := do_normalize\<rparr>)"

definition uri_assign :: "string \<Rightarrow> uri \<Rightarrow> uri run" where
  "uri_assign s u = uri_parse ((uri_clear True u)\<lparr>u_str := s\<rparr>)"

definition set_ssp :: "string \<Rightarrow> uri \<Rightarrow> uri run" where
  "set_ssp t u = bind_run (assert_run (u_err u = URI_PARSE_OK)) (\<lambda>_.
     bind_run (str_replace (u_str u) (c_off (u_ssp u)) (c_len (u_ssp u)) t) (\<lambda>s. uri_parse (u\<lparr>u_str := s\<rparr>)))"

section \<open>Questions\<close>

definition uri_valid :: "uri \<Rightarrow> bool" where
  "uri_valid u \<longleftrightarrow> u_err u = URI_PARSE_OK"

definition is_boundary :: "char \<Rightarrow> bool" where
  "is_boundary c \<longleftrightarrow> c = CHR ''/'' \<or> c = CHR ''?'' \<or> c = CHR ''#''"

text \<open>\<open>at\<close> of an empty string throws, but a valid URI is not empty.\<close>

definition subsume :: "uri \<Rightarrow> uri \<Rightarrow> bool run" where
  "subsume u other =
     (if \<not> uri_valid u \<or> \<not> uri_valid other then Inr False
      else if take (length (u_str other)) (u_str u) \<noteq> u_str other then Inr False
      else bind_run (assert_run (length (u_str other) \<le> length (u_str u))) (\<lambda>_.
        if length (u_str other) < length (u_str u) then
          bind_run (str_at (u_str u) (length (u_str other))) (\<lambda>c.
            if is_boundary c then Inr True
            else if u_str other = [] then Inl Thrown
            else bind_run (str_at (u_str u) (length (u_str other) - 1)) (\<lambda>c. Inr (is_boundary c)))
        else Inr True))"

text \<open>The loop of \<open>query_value\<close>, at a question mark or a semicolon.\<close>

function query_loop :: "string \<Rightarrow> nat \<Rightarrow> string \<Rightarrow> nat \<Rightarrow> string run" where
  "query_loop s query_end param curr_pos =
     (if query_end \<le> curr_pos then Inr []
      else (case find_from (\<lambda>c. c = CHR ''='') s (curr_pos + 1) of
          None \<Rightarrow> Inr []
        | Some param_end \<Rightarrow>
            if query_end < param_end then Inr []
            else bind_run (str_sub s (curr_pos + 1) (param_end - (curr_pos + 1))) (\<lambda>name.
              if name \<noteq> param then
                (case find_from (\<lambda>c. c = CHR '';'') s (curr_pos + 1) of
                   None \<Rightarrow> Inr []
                 | Some next_pos \<Rightarrow> query_loop s query_end param next_pos)
              else bind_run (str_at s param_end) (\<lambda>c.
                if c \<noteq> CHR ''='' then Inr []
                else str_sub s (param_end + 1)
                  (find_end (\<lambda>c. c = CHR '';'' \<or> c = CHR ''#'') s (param_end + 1) - (param_end + 1))))))"
  by pat_completeness auto
termination
  by (relation "measure (\<lambda>(s, query_end, param, curr_pos). query_end - curr_pos)")
    (auto simp: find_from_def Let_def split: if_splits)

declare query_loop.simps [simp del]

definition query_value :: "string \<Rightarrow> uri \<Rightarrow> string run" where
  "query_value param u = bind_run (assert_run (u_err u = URI_PARSE_OK)) (\<lambda>_.
     if c_len (u_query u) = 0 then Inr []
     else bind_run (str_at (u_str u) (c_off (u_query u))) (\<lambda>c.
       bind_run (assert_run (c = CHR ''?'')) (\<lambda>_.
       query_loop (u_str u) (c_off (u_query u) + c_len (u_query u)) param (c_off (u_query u)))))"

definition char_byte :: "char \<Rightarrow> byte" where
  "char_byte c = of_nat (of_char c)"

definition byte_to_char :: "byte \<Rightarrow> char" where
  "byte_to_char b = char_of (unat b)"

text \<open>\<open>URI::serialize\<close>: the string, which unmarshalling parses again.\<close>

definition uri_serialize :: "bool \<Rightarrow> uri \<Rightarrow> uri run visit" where
  "uri_serialize unmarshal u = Process ''uri'' (Str (map char_byte (u_str u))) (\<lambda>f.
     let s = (case f of Str b \<Rightarrow> map byte_to_char b | _ \<Rightarrow> []); u1 = u\<lparr>u_str := s\<rparr>
     in Done (if unmarshal then uri_parse u1 else Inr u1))"

section \<open>What decoding does\<close>

fun pct_decode :: "(char \<Rightarrow> bool) \<Rightarrow> string \<Rightarrow> string" where
  "pct_decode allowed [] = []"
| "pct_decode allowed (c # cs) =
     (if c = CHR ''%'' then
        (case cs of
           h # l # r \<Rightarrow>
             (let x = byte_char (16 * hex_val h + hex_val l)
              in (if allowed x then [x] else [CHR ''%'', to_upper h, to_upper l]) @ pct_decode allowed r)
         | _ \<Rightarrow> c # cs)
      else c # pct_decode allowed cs)"

definition pct_wf :: "string \<Rightarrow> bool" where
  "pct_wf s \<longleftrightarrow> pct_string (\<lambda>c. c \<noteq> CHR ''%'') s"

lemma pct_string_mono: "pct_string P s \<Longrightarrow> (\<And>c. P c \<Longrightarrow> Q c) \<Longrightarrow> pct_string Q s"
  by (induction rule: pct_string.induct) (auto intro: pct_string.intros)

lemma pct_string_wf: "pct_string P s \<Longrightarrow> \<not> P CHR ''%'' \<Longrightarrow> pct_wf s"
  unfolding pct_wf_def by (erule pct_string_mono) auto

lemma pct_string_append: "pct_string P s \<Longrightarrow> pct_string P t \<Longrightarrow> pct_string P (s @ t)"
  by (induction rule: pct_string.induct) (auto intro: pct_string.intros)

lemma pct_wf_cases:
  assumes "pct_wf s"
  obtains "CHR ''%'' \<notin> set s"
    | a h l r where "s = a @ CHR ''%'' # h # l # r" "CHR ''%'' \<notin> set a" "is_hexdig h" "is_hexdig l" "pct_wf r"
proof -
  have "CHR ''%'' \<notin> set s \<or> (\<exists>a h l r. s = a @ CHR ''%'' # h # l # r \<and> CHR ''%'' \<notin> set a \<and> is_hexdig h \<and> is_hexdig l \<and> pct_wf r)"
    using assms unfolding pct_wf_def
  proof (induction rule: pct_string.induct)
    case (char c s)
    then show ?case
    proof (elim disjE exE conjE)
      fix a h l r
      assume "s = a @ CHR ''%'' # h # l # r" "CHR ''%'' \<notin> set a" "is_hexdig h" "is_hexdig l"
        "pct_string (\<lambda>c. c \<noteq> CHR ''%'') r"
      with char(1) show ?thesis
        by (intro disjI2 exI [of _ "c # a"] exI [of _ h] exI [of _ l] exI [of _ r]) simp
    qed auto
  next
    case (percent h l s)
    then show ?case by (intro disjI2 exI [of _ "[]"] exI [of _ h] exI [of _ l] exI [of _ s]) simp
  qed simp
  then show ?thesis using that by blast
qed

lemma pct_decode_append: "CHR ''%'' \<notin> set a \<Longrightarrow> pct_decode allowed (a @ s) = a @ pct_decode allowed s"
  by (induction a) auto

lemma pct_decode_none: "CHR ''%'' \<notin> set s \<Longrightarrow> pct_decode allowed s = s"
  using pct_decode_append [of s allowed "[]"] by simp

lemma hex_no_space: "is_hexdig c \<Longrightarrow> \<not> is_space c \<and> c \<noteq> CHR ''-'' \<and> c \<noteq> CHR ''+'' \<and> c \<noteq> CHR ''x'' \<and> c \<noteq> CHR ''X''"
  by (auto simp: is_hexdig_def is_digit_def is_space_def)

lemma sscanf_two: "is_hexdig h \<Longrightarrow> is_hexdig l \<Longrightarrow> sscanf_x [h, l] = Some (16 * hex_val h + hex_val l)"
  using hex_no_space [of h] hex_no_space [of l] by (simp add: sscanf_x_def hex_number_def Let_def)

lemma decode_loop_none: "CHR ''%'' \<notin> set s \<Longrightarrow> decode_loop allowed d s = Inr (d, s)"
proof -
  assume "CHR ''%'' \<notin> set s"
  then have "dropWhile (\<lambda>c. c \<noteq> CHR ''%'') s = []" by (auto simp: dropWhile_eq_Nil_conv)
  then show ?thesis by (subst decode_loop.simps) simp
qed

lemma decode_loop_step:
  assumes "CHR ''%'' \<notin> set a" "is_hexdig h" "is_hexdig l"
  shows "decode_loop allowed d (a @ CHR ''%'' # h # l # r) = decode_loop allowed (d @ a @
    (let x = byte_char (16 * hex_val h + hex_val l) in if allowed x then [x] else [CHR ''%'', to_upper h, to_upper l])) r"
proof -
  have "dropWhile (\<lambda>c. c \<noteq> CHR ''%'') (a @ CHR ''%'' # h # l # r) = CHR ''%'' # h # l # r"
    "takeWhile (\<lambda>c. c \<noteq> CHR ''%'') (a @ CHR ''%'' # h # l # r) = a"
    using assms(1) by (auto simp: dropWhile_append takeWhile_append)
  then show ?thesis
    by (subst decode_loop.simps) (simp add: sscanf_two [OF assms(2,3)] Let_def numeral_2_eq_2 numeral_3_eq_3)
qed

lemma decode_loop_eq:
  "pct_wf s \<Longrightarrow> \<exists>d' r. decode_loop allowed d s = Inr (d', r) \<and> d' @ r = d @ pct_decode allowed s \<and>
    (d' = [] \<longleftrightarrow> d = [] \<and> CHR ''%'' \<notin> set s)"
proof (induction "length s" arbitrary: s d rule: less_induct)
  case less
  from less.prems show ?case
  proof (cases rule: pct_wf_cases)
    case 1
    then show ?thesis by (simp add: decode_loop_none pct_decode_none)
  next
    case (2 a h l r)
    let ?x = "let x = byte_char (16 * hex_val h + hex_val l) in if allowed x then [x] else [CHR ''%'', to_upper h, to_upper l]"
    have "pct_decode allowed s = a @ ?x @ pct_decode allowed r"
      using 2 by (simp add: pct_decode_append Let_def)
    moreover have "?x \<noteq> []" by (simp add: Let_def)
    moreover obtain d' r' where "decode_loop allowed (d @ a @ ?x) r = Inr (d', r')"
      "d' @ r' = (d @ a @ ?x) @ pct_decode allowed r" "d' = [] \<longleftrightarrow> d @ a @ ?x = [] \<and> CHR ''%'' \<notin> set r"
      using less.hyps [of r "d @ a @ ?x"] 2 by auto
    moreover have "decode_loop allowed d s = decode_loop allowed (d @ a @ ?x) r"
      unfolding 2(1) by (rule decode_loop_step [OF 2(2-4)])
    ultimately show ?thesis using 2(1) by auto
  qed
qed

context uri_setter
begin

lemma decode_view:
  assumes r: "represents u v" and e: "u_err u = URI_PARSE_OK" and get: "comp_str get u = Inr (text_of v)"
    and wf: "pct_wf (text_of v)" and ready: "text_of v \<noteq> [] \<Longrightarrow> ready v"
  shows "\<exists>u'. decode_comp allowed get set_it u = Inr u' \<and> represents u' (put (pct_decode allowed (text_of v)) v) \<and> same_rest u u'"
proof -
  obtain d t where d: "decode_loop allowed [] (text_of v) = Inr (d, t)" "d @ t = pct_decode allowed (text_of v)"
    "d = [] \<longleftrightarrow> CHR ''%'' \<notin> set (text_of v)" using decode_loop_eq [OF wf, of allowed "[]"] by auto
  show ?thesis
  proof (cases "d = []")
    case True
    then have "pct_decode allowed (text_of v) = text_of v" using d(3) by (simp add: pct_decode_none)
    then show ?thesis using True d(1) r get by (simp add: decode_comp_def put_text same_rest_def)
  next
    case False
    then have "text_of v \<noteq> []" using d(3) by auto
    from set_view [OF r e ready [OF this], of "d @ t"] show ?thesis using False d(1,2) get by (simp add: decode_comp_def)
  qed
qed

end

text \<open>The octets that a text stands for.\<close>

fun octets :: "string \<Rightarrow> int list" where
  "octets [] = []"
| "octets (c # cs) =
     (if c = CHR ''%'' then (case cs of h # l # r \<Rightarrow> (16 * hex_val h + hex_val l) # octets r | _ \<Rightarrow> [])
      else of_char c # octets cs)"

lemma hexdig_cases:
  assumes "is_hexdig c"
  obtains "is_digit c" | "c \<in> set ''abcdef''" | "c \<in> set ''ABCDEF''"
  using assms unfolding is_hexdig_def by auto

lemma upper_codes:
  "char_of (65 :: nat) = CHR ''A''" "char_of (66 :: nat) = CHR ''B''" "char_of (67 :: nat) = CHR ''C''"
  "char_of (68 :: nat) = CHR ''D''" "char_of (69 :: nat) = CHR ''E''" "char_of (70 :: nat) = CHR ''F''"
  by (simp_all add: char_of_eq_iff)

lemma hex_upper:
  assumes "is_hexdig c"
  shows "hex_val (to_upper c) = hex_val c \<and> is_hexdig (to_upper c) \<and> to_upper (to_upper c) = to_upper c"
  using assms
proof (cases rule: hexdig_cases)
  case 1
  then have "to_upper c = c" by (auto simp: to_upper_def is_lower_def is_digit_def)
  with assms show ?thesis by simp
qed (auto simp: hex_val_def to_upper_def is_lower_def is_digit_def is_hexdig_def upper_codes)

lemma hex_val_range:
  assumes "is_hexdig c"
  shows "0 \<le> hex_val c \<and> hex_val c < 16"
  using assms by (cases rule: hexdig_cases) (auto simp: hex_val_def is_lower_def is_digit_def Let_def)

lemma byte_char_val: "0 \<le> n \<Longrightarrow> n < 256 \<Longrightarrow> (of_char (byte_char n) :: int) = n"
  by (simp add: byte_char_def)

lemma octets_plain: "CHR ''%'' \<notin> set a \<Longrightarrow> octets (a @ s) = map of_char a @ octets s"
  by (induction a) auto

lemma pair_range: "is_hexdig h \<Longrightarrow> is_hexdig l \<Longrightarrow> 0 \<le> 16 * hex_val h + hex_val l \<and> 16 * hex_val h + hex_val l < 256"
  using hex_val_range [of h] hex_val_range [of l] by linarith

text \<open>Induction over a text with percent encodings.\<close>

lemma pct_wf_induct [consumes 1, case_names plain percent]:
  assumes "pct_wf s"
    and "\<And>s. CHR ''%'' \<notin> set s \<Longrightarrow> P s"
    and "\<And>a h l r. CHR ''%'' \<notin> set a \<Longrightarrow> is_hexdig h \<Longrightarrow> is_hexdig l \<Longrightarrow> pct_wf r \<Longrightarrow> P r \<Longrightarrow> P (a @ CHR ''%'' # h # l # r)"
  shows "P s"
  using assms(1)
proof (induction "length s" arbitrary: s rule: less_induct)
  case less
  from less.prems show ?case
  proof (cases rule: pct_wf_cases)
    case (2 a h l r)
    then show ?thesis using less.hyps [of r] assms(3) by simp
  qed (rule assms(2))
qed

lemma pct_wf_plain: "CHR ''%'' \<notin> set s \<Longrightarrow> pct_wf s"
  unfolding pct_wf_def by (induction s) (auto intro: pct_string.intros)

lemma pct_wf_append: "pct_wf a \<Longrightarrow> pct_wf b \<Longrightarrow> pct_wf (a @ b)"
  unfolding pct_wf_def by (rule pct_string_append)

lemma pct_wf_percent: "is_hexdig h \<Longrightarrow> is_hexdig l \<Longrightarrow> pct_wf s \<Longrightarrow> pct_wf (CHR ''%'' # h # l # s)"
  unfolding pct_wf_def by (rule pct_string.percent)

lemma pct_decode_step:
  assumes "CHR ''%'' \<notin> set a"
  shows "pct_decode allowed (a @ CHR ''%'' # h # l # r) = a @
    (let x = byte_char (16 * hex_val h + hex_val l) in if allowed x then [x] else [CHR ''%'', to_upper h, to_upper l]) @ pct_decode allowed r"
  using assms by (simp add: pct_decode_append Let_def)

lemma octets_decode:
  assumes "pct_wf s" "\<not> allowed CHR ''%''"
  shows "octets (pct_decode allowed s) = octets s"
  using assms(1)
proof (induction rule: pct_wf_induct)
  case (plain s)
  then show ?case by (simp add: pct_decode_none)
next
  case (percent a h l r)
  let ?x = "byte_char (16 * hex_val h + hex_val l)"
  have "allowed ?x \<Longrightarrow> ?x \<noteq> CHR ''%''" using assms(2) by auto
  then show ?case using percent hex_upper [of h] hex_upper [of l] byte_char_val [of "16 * hex_val h + hex_val l"] pair_range [of h l]
    by (simp add: pct_decode_step octets_plain Let_def)
qed

lemma decode_idem:
  assumes "pct_wf s" "\<not> allowed CHR ''%''"
  shows "pct_decode allowed (pct_decode allowed s) = pct_decode allowed s"
  using assms(1)
proof (induction rule: pct_wf_induct)
  case (plain s)
  then show ?case by (simp add: pct_decode_none)
next
  case (percent a h l r)
  let ?x = "byte_char (16 * hex_val h + hex_val l)"
  have x: "allowed ?x \<Longrightarrow> ?x \<noteq> CHR ''%''" using assms(2) by auto
  show ?case
  proof (cases "allowed ?x")
    case True
    then have "CHR ''%'' \<notin> set (a @ [?x])" using percent(1) x by auto
    from pct_decode_append [OF this, of allowed "pct_decode allowed r"] show ?thesis
      using True percent by (simp add: pct_decode_step Let_def)
  next
    case False
    then show ?thesis using percent hex_upper [of h] hex_upper [of l]
      by (simp add: pct_decode_step Let_def)
  qed
qed

lemma pct_decode_wf:
  assumes "pct_wf s" "\<not> allowed CHR ''%''"
  shows "pct_wf (pct_decode allowed s)"
  using assms(1)
proof (induction rule: pct_wf_induct)
  case (plain s)
  then show ?case by (simp add: pct_decode_none pct_wf_plain)
next
  case (percent a h l r)
  let ?x = "byte_char (16 * hex_val h + hex_val l)"
  have "allowed ?x \<Longrightarrow> pct_wf (a @ [?x])" using assms(2) percent(1) by (intro pct_wf_plain) auto
  then show ?case using percent hex_upper [of h] hex_upper [of l]
    by (auto simp: pct_decode_step Let_def intro: pct_wf_append [of "a @ [?x]", simplified] pct_wf_append pct_wf_percent pct_wf_plain)
qed

lemma pct_decode_string:
  assumes "pct_string P s" "\<not> P CHR ''%''" "\<And>c. allowed c \<Longrightarrow> P c"
  shows "pct_string P (pct_decode allowed s)"
  using assms(1)
proof (induction rule: pct_string.induct)
  case (char c s)
  then have "c \<noteq> CHR ''%''" using assms(2) by auto
  with char show ?case by (simp add: pct_string.char)
next
  case (percent h l s)
  then show ?case using hex_upper [of h] hex_upper [of l] assms(3)
    by (auto simp: Let_def intro: pct_string.intros)
qed (simp add: pct_string.empty)

section \<open>The removal of dot segments of RFC 3986, 5.2.4\<close>

text \<open>The last segment of the output buffer and its slash, if any, are removed.\<close>

definition drop_last_segment :: "string \<Rightarrow> string" where
  "drop_last_segment out = (if CHR ''/'' \<in> set out then rev (tl (dropWhile (\<lambda>c. c \<noteq> CHR ''/'') (rev out))) else [])"

function remove_dots :: "string \<Rightarrow> string \<Rightarrow> string" where
  "remove_dots s out =
     (if s = [] then out
      else if take 3 s = ''../'' then remove_dots (drop 3 s) out
      else if take 2 s = ''./'' then remove_dots (drop 2 s) out
      else if take 3 s = ''/./'' then remove_dots (drop 2 s) out
      else if s = ''/.'' then remove_dots ''/'' out
      else if take 4 s = ''/../'' then remove_dots (drop 3 s) (drop_last_segment out)
      else if s = ''/..'' then remove_dots ''/'' (drop_last_segment out)
      else if s = ''.'' \<or> s = ''..'' then remove_dots [] out
      else (let segment = hd s # takeWhile (\<lambda>c. c \<noteq> CHR ''/'') (tl s)
            in remove_dots (drop (length segment) s) (out @ segment)))"
  by pat_completeness auto
termination
  by (relation "measure (\<lambda>(s, out). length s)") auto

declare remove_dots.simps [simp del]

subsection \<open>Settled prefixes\<close>

text \<open>Whole segments that are no dot segments, as the output buffer holds them.\<close>

inductive settled :: "string \<Rightarrow> bool" where
  first: "CHR ''/'' \<notin> set w \<Longrightarrow> w \<noteq> ''.'' \<Longrightarrow> w \<noteq> ''..'' \<Longrightarrow> settled w"
| more: "settled s \<Longrightarrow> CHR ''/'' \<notin> set w \<Longrightarrow> w \<noteq> ''.'' \<Longrightarrow> w \<noteq> ''..'' \<Longrightarrow> settled (s @ CHR ''/'' # w)"

lemma takeWhile_noslash: "CHR ''/'' \<notin> set w \<Longrightarrow> r = [] \<or> hd r = CHR ''/'' \<Longrightarrow> takeWhile (\<lambda>c. c \<noteq> CHR ''/'') (w @ r) = w"
  by (intro takeWhile_upto) auto

lemma dots_prefix:
  assumes "CHR ''/'' \<notin> set w" "r = [] \<or> hd r = CHR ''/''"
  shows "take 2 (w @ r) = ''./'' \<Longrightarrow> w = ''.''" "take 3 (w @ r) = ''../'' \<Longrightarrow> w = ''..''"
    "w @ r = ''.'' \<Longrightarrow> w = ''.''" "w @ r = ''..'' \<Longrightarrow> w = ''..''"
proof -
  have tw: "takeWhile (\<lambda>c. c \<noteq> CHR ''/'') (w @ r) = w" by (rule takeWhile_noslash [OF assms])
  show "w = ''.''" if tk: "take 2 (w @ r) = ''./''"
  proof -
    obtain x where "w @ r = ''./'' @ x" using append_take_drop_id [of 2 "w @ r", unfolded tk] by metis
    with tw show ?thesis by simp
  qed
  show "w = ''..''" if tk: "take 3 (w @ r) = ''../''"
  proof -
    obtain x where "w @ r = ''../'' @ x" using append_take_drop_id [of 3 "w @ r", unfolded tk] by metis
    with tw show ?thesis by simp
  qed
  show "w = ''.''" if "w @ r = ''.''" using tw unfolding that by simp
  show "w = ''..''" if "w @ r = ''..''" using tw unfolding that by simp
qed

lemma remove_dots_first:
  assumes "CHR ''/'' \<notin> set w" "w \<noteq> ''.''" "w \<noteq> ''..''" "r = [] \<or> hd r = CHR ''/''"
  shows "remove_dots (w @ r) [] = remove_dots r w"
proof (cases w)
  case (Cons c x)
  note D = dots_prefix [OF assms(1,4)]
  have "takeWhile (\<lambda>c. c \<noteq> CHR ''/'') (x @ r) = x" using assms(1,4) Cons by (intro takeWhile_noslash) auto
  moreover have "c \<noteq> CHR ''/''" using assms(1) Cons by auto
  ultimately show ?thesis using D assms(2,3) Cons
    by (subst remove_dots.simps) (auto simp: numeral_2_eq_2 numeral_3_eq_3 numeral_eq_Suc)
qed simp

lemma remove_dots_segment:
  assumes "CHR ''/'' \<notin> set w" "w \<noteq> ''.''" "w \<noteq> ''..''" "r = [] \<or> hd r = CHR ''/''"
  shows "remove_dots (CHR ''/'' # w @ r) out = remove_dots r (out @ CHR ''/'' # w)"
proof -
  note D = dots_prefix [OF assms(1,4)]
  have "takeWhile (\<lambda>c. c \<noteq> CHR ''/'') (w @ r) = w" by (rule takeWhile_noslash [OF assms(1,4)])
  moreover have "take 3 (CHR ''/'' # w @ r) \<noteq> ''/./''" using D(1) assms(2) by (auto simp: numeral_3_eq_3 numeral_2_eq_2)
  moreover have "take 4 (CHR ''/'' # w @ r) \<noteq> ''/../''" using D(2) assms(3) by (auto simp: numeral_eq_Suc)
  moreover have "CHR ''/'' # w @ r \<noteq> ''/.''" "CHR ''/'' # w @ r \<noteq> ''/..''" using D(3,4) assms(2,3) by auto
  ultimately show ?thesis by (subst remove_dots.simps) (simp add: Let_def)
qed

lemma remove_dots_settled:
  "settled l \<Longrightarrow> r = [] \<or> hd r = CHR ''/'' \<Longrightarrow> remove_dots (l @ r) [] = remove_dots r l"
proof (induction arbitrary: r rule: settled.induct)
  case (first w)
  then show ?case by (intro remove_dots_first) auto
next
  case (more s w)
  have "remove_dots ((s @ CHR ''/'' # w) @ r) [] = remove_dots (CHR ''/'' # w @ r) s"
    using more.IH [of "CHR ''/'' # w @ r"] by simp
  also have "\<dots> = remove_dots r (s @ CHR ''/'' # w)" using more by (intro remove_dots_segment) auto
  finally show ?case .
qed

text \<open>Positions at which a dot segment ends, and texts without any up to a position.\<close>

definition dot_at :: "string \<Rightarrow> nat \<Rightarrow> bool" where
  "dot_at s k \<longleftrightarrow> k = 0 \<or> s ! (k - 1) = CHR ''/'' \<or>
     s ! (k - 1) = CHR ''.'' \<and> (k = 1 \<or> s ! (k - 2) = CHR ''/'')"

definition clean_upto :: "string \<Rightarrow> nat \<Rightarrow> bool" where
  "clean_upto s j \<longleftrightarrow> (\<forall>k<j. k + 1 < length s \<and> s ! k = CHR ''.'' \<and> s ! (k + 1) = CHR ''/'' \<longrightarrow> \<not> dot_at s k)"

lemma last_slash:
  assumes "CHR ''/'' \<in> set s"
  obtains a w where "s = a @ CHR ''/'' # w" "CHR ''/'' \<notin> set w"
  using split_list_last [OF assms] that by blast

lemma no_dot_segment:
  assumes "clean_upto s j" "j < length s" "s ! j = CHR ''/''" "take j s = a @ w" "a = [] \<or> last a = CHR ''/''"
  shows "w \<noteq> ''.'' \<and> w \<noteq> ''..''"
proof -
  have l: "length a + length w = j" using arg_cong [OF assms(4), of length] assms(2) by simp
  have at: "s ! k = (a @ w) ! k" if "k < j" for k using assms(4) that by (metis nth_take)
  have at_a: "a \<noteq> [] \<Longrightarrow> s ! (length a - 1) = CHR ''/''"
    using at [of "length a - 1"] assms(5) l by (cases a rule: rev_cases) (auto simp: nth_append)
  have j1: "\<not> (0 < j \<and> s ! (j - 1) = CHR ''.'' \<and> dot_at s (j - 1))"
    using assms(1-3) by (auto simp: clean_upto_def dest!: spec [of _ "j - 1"])
  have "w \<noteq> ''.''"
  proof
    assume w: "w = ''.''"
    then have "s ! (j - 1) = CHR ''.''" "0 < j" "j - 1 = length a" using at [of "j - 1"] l by auto
    moreover have "dot_at s (j - 1)" using at_a calculation(3) by (cases "a = []") (auto simp: dot_at_def)
    ultimately show False using j1 by blast
  qed
  moreover have "w \<noteq> ''..''"
  proof
    assume w: "w = ''..''"
    then have "s ! (j - 1) = CHR ''.''" "0 < j" "j - 1 = length a + 1" "s ! length a = CHR ''.''"
      using at [of "j - 1"] at [of "length a"] l by (auto simp: nth_append)
    moreover have "dot_at s (j - 1)" using at_a calculation(3,4) by (cases "a = []") (auto simp: dot_at_def)
    ultimately show False using j1 by blast
  qed
  ultimately show ?thesis by blast
qed

lemma clean_settled: "clean_upto s j \<Longrightarrow> j < length s \<Longrightarrow> s ! j = CHR ''/'' \<Longrightarrow> settled (take j s)"
proof (induction j rule: less_induct)
  case (less j)
  show ?case
  proof (cases "CHR ''/'' \<in> set (take j s)")
    case False
    have "take j s \<noteq> ''.'' \<and> take j s \<noteq> ''..''" using no_dot_segment [OF less.prems, of "[]"] by simp
    then show ?thesis using False by (intro settled.first) auto
  next
    case True
    then obtain a w where aw: "take j s = a @ CHR ''/'' # w" "CHR ''/'' \<notin> set w" by (rule last_slash)
    have l: "length a < j" using arg_cong [OF aw(1), of length] less.prems(2) by simp
    have "take (length a) (take j s) = a" using aw(1) by simp
    then have a: "take (length a) s = a" using l by simp
    have "s ! length a = take j s ! length a" using l by simp
    then have "s ! length a = CHR ''/''" using aw(1) by simp
    moreover have "clean_upto s (length a)" using less.prems(1) l by (auto simp: clean_upto_def)
    ultimately have "settled a" using less.IH [of "length a"] l less.prems(2) a by simp
    moreover have "w \<noteq> ''.'' \<and> w \<noteq> ''..''" using no_dot_segment [OF less.prems, of "a @ ''/''" w] aw(1) by simp
    ultimately show ?thesis using aw by (auto intro: settled.more)
  qed
qed

lemma drop_last_snoc: "drop_last_segment (x @ [c]) = (if c = CHR ''/'' then x else drop_last_segment x)"
  by (simp add: drop_last_segment_def)

lemma drop_last_eq:
  "n \<le> length s \<Longrightarrow> take (case find (\<lambda>k. s ! k = CHR ''/'') (rev [0..<n]) of None \<Rightarrow> 0 | Some k \<Rightarrow> k) s =
    drop_last_segment (take n s)"
proof (induction n)
  case 0
  then show ?case by (simp add: drop_last_segment_def)
next
  case (Suc n)
  have "take (Suc n) s = take n s @ [s ! n]" using Suc.prems by (simp add: take_Suc_conv_app_nth)
  with Suc show ?case by (simp add: drop_last_snoc)
qed

lemma slash_or_start_eq: "0 < n \<Longrightarrow> n \<le> length s \<Longrightarrow> take (slash_or_start s (n - 1)) s = drop_last_segment (take n s)"
  using drop_last_eq [of n s] by (simp add: slash_or_start_def find_last_slash_def min_absorb1)

lemma slash_or_start_slash: "0 < slash_or_start s p \<Longrightarrow> slash_or_start s p < length s \<and> s ! slash_or_start s p = CHR ''/''"
  by (auto simp: slash_or_start_def find_last_slash_def dest!: find_Some_in split: option.splits)

lemma find_dot_slash_None:
  "find_dot_slash s p = None \<Longrightarrow> clean_upto s p \<Longrightarrow> clean_upto s (length s)"
  by (fastforce simp: find_dot_slash_def find_None_iff clean_upto_def)

lemma find_dot_slash_clean:
  "find_dot_slash s p = Some d \<Longrightarrow> clean_upto s p \<Longrightarrow> clean_upto s d"
  using find_dot_slash_Some [of s p d] unfolding clean_upto_def by (metis not_le_imp_less)

lemma clean_upto_prefix:
  assumes "clean_upto s j" "j \<le> length s" "take j t = take j s" "j < length t" "t ! j = CHR ''/'' \<or> (0 < j \<and> s ! (j - 1) \<noteq> CHR ''.'')"
    and "j < length s \<and> s ! j = CHR ''/'' \<or> (0 < j \<and> s ! (j - 1) \<noteq> CHR ''.'') \<or> j = 0"
  shows "clean_upto t j"
  unfolding clean_upto_def
proof (intro allI impI)
  fix k assume k: "k < j" "k + 1 < length t \<and> t ! k = CHR ''.'' \<and> t ! (k + 1) = CHR ''/''"
  have eq: "t ! i = s ! i" if "i < j" for i using that assms(3) by (metis nth_take)
  have d: "dot_at t k = dot_at s k" using k(1) eq [of "k - 1"] eq [of "k - 2"] by (auto simp: dot_at_def)
  have "s ! k = CHR ''.''" using k eq [of k] by simp
  moreover have "k + 1 < length s \<and> s ! (k + 1) = CHR ''/''"
  proof (cases "k + 1 < j")
    case True
    then show ?thesis using k eq [of "k + 1"] assms(2) by simp
  next
    case False
    then have "k = j - 1" "0 < j" using k(1) by auto
    then show ?thesis using assms(6) calculation by auto
  qed
  ultimately show "\<not> dot_at t k" using assms(1) k(1) d by (auto simp: clean_upto_def)
qed

definition checkpoint_ok :: "string \<Rightarrow> nat \<Rightarrow> bool" where
  "checkpoint_ok s j \<longleftrightarrow> clean_upto s j \<and> (j = 0 \<or> j < length s \<and> s ! j = CHR ''/'' \<or> j \<le> length s \<and> s ! (j - 1) = CHR ''/'')"

lemma split_at: "s = take d s @ drop d s"
  by simp

lemma drop_two: "d + 1 < length s \<Longrightarrow> s ! d = a \<Longrightarrow> s ! (d + 1) = b \<Longrightarrow> drop d s = a # b # drop (d + 2) s"
  by (metis Cons_nth_drop_Suc Suc_eq_plus1 Suc_lessD add_2_eq_Suc')

lemma checkpoint_keep:
  assumes "checkpoint_ok s j" "j \<le> n" "n \<le> length s" "0 < n" "s ! (n - 1) = CHR ''/''" "s ! n \<noteq> CHR ''/''" 
  shows "checkpoint_ok (take n s @ r) j"
proof -
  let ?t = "take n s @ r"
  have eq: "?t ! i = s ! i" if "i < n" for i using that assms(3) by (simp add: nth_append)
  show ?thesis
  proof (cases "j = 0")
    case True
    then show ?thesis by (simp add: checkpoint_ok_def clean_upto_def)
  next
    case False
    have c: "clean_upto s j" using assms(1) by (simp add: checkpoint_ok_def)
    have "clean_upto ?t j"
      unfolding clean_upto_def
    proof (intro allI impI)
      fix k assume k: "k < j" "k + 1 < length ?t \<and> ?t ! k = CHR ''.'' \<and> ?t ! (k + 1) = CHR ''/''"
      then have "k < n" using assms(2) by simp
      then have "s ! k = CHR ''.''" using eq k by simp
      then have "k \<noteq> n - 1" using assms(5) by auto
      then have k1: "k + 1 < n" using \<open>k < n\<close> by simp
      moreover have "dot_at ?t k = dot_at s k" using eq [of "k - 1"] eq [of "k - 2"] \<open>k < n\<close> by (auto simp: dot_at_def)
      ultimately show "\<not> dot_at ?t k" using c k(1) eq [of "k + 1"] k(2) \<open>s ! k = CHR ''.''\<close> assms(3) by (auto simp: clean_upto_def)
    qed
    moreover have "j < length ?t \<and> ?t ! j = CHR ''/'' \<or> j \<le> length ?t \<and> ?t ! (j - 1) = CHR ''/''"
    proof (cases "j < n")
      case True
      then show ?thesis using assms(1,3) False eq [of j] eq [of "j - 1"] by (auto simp: checkpoint_ok_def)
    next
      case False
      then have "j = n" using assms(2) by simp
      then show ?thesis using assms(3,4,5) eq [of "n - 1"] by simp
    qed
    ultimately show ?thesis by (simp add: checkpoint_ok_def)
  qed
qed

lemma dot_slash_step: "remove_dots (''./'' @ r) out = remove_dots r out" "remove_dots (''../'' @ r) out = remove_dots r out"
  "remove_dots (''/./'' @ r) out = remove_dots (CHR ''/'' # r) out"
  "remove_dots (''/../'' @ r) out = remove_dots (CHR ''/'' # r) (drop_last_segment out)"
  by (subst remove_dots.simps; simp add: numeral_eq_Suc)+

lemma dot_loop_correct:
  "checkpoint_ok s j \<Longrightarrow> dot_loop s j m = (s', m') \<Longrightarrow>
    remove_dots s' [] = remove_dots s [] \<and> clean_upto s' (length s') \<and> (m' \<or> \<not> m \<and> s' = s)"
proof (induction s j m rule: dot_loop.induct)
  case (1 s j m)
  have c: "clean_upto s j" using "1.prems"(1) by (simp add: checkpoint_ok_def)
  show ?case
  proof (cases "find_dot_slash s j")
    case None
    then show ?thesis using "1.prems"(2) find_dot_slash_None [OF None c] by (subst (asm) dot_loop.simps) auto
  next
    case (Some d)
    note F = find_dot_slash_Some [OF Some]
    have dd: "drop d s = CHR ''.'' # CHR ''/'' # drop (d + 2) s" using F by (intro drop_two) auto
    define r where "r = drop (d + 2) s"
    have s: "s = take d s @ CHR ''.'' # CHR ''/'' # r" using split_at [of s d] dd by (simp add: r_def)
    have cd: "clean_upto s d" by (rule find_dot_slash_clean [OF Some c])
    have len: "d + 1 < length s" using F by blast
    note run = "1.prems"(2) [unfolded dot_loop.simps [of s j m] Some option.case]
    show ?thesis
    proof (cases "d = 0 \<or> s ! (d - 1) = CHR ''/''")
      case True
      have e: "str_erase d 2 s = take d s @ r" by (simp add: str_erase_def r_def)
      have rec: "dot_loop (take d s @ r) j True = (s', m')" using run True e by simp
      have "checkpoint_ok (take d s @ r) j \<and> remove_dots (take d s @ r) [] = remove_dots s []"
      proof (cases "d = 0")
        case True
        then show ?thesis using F s dot_slash_step(1) [of r "[]"] by (simp add: checkpoint_ok_def clean_upto_def)
      next
        case False
        then have sl: "s ! (d - 1) = CHR ''/''" "0 < d" using True by auto
        have td: "take d s = take (d - 1) s @ ''/''" using sl len take_Suc_conv_app_nth [of "d - 1" s] by simp
        have se: "settled (take (d - 1) s)" using cd sl len by (intro clean_settled) (auto simp: clean_upto_def)
        have "remove_dots s [] = remove_dots (CHR ''/'' # CHR ''.'' # CHR ''/'' # r) (take (d - 1) s)"
          using remove_dots_settled [OF se, of "CHR ''/'' # CHR ''.'' # CHR ''/'' # r"] td s by simp
        also have "\<dots> = remove_dots (CHR ''/'' # r) (take (d - 1) s)" using dot_slash_step(3) [of r] by simp
        also have "\<dots> = remove_dots (take d s @ r) []"
          using remove_dots_settled [OF se, of "CHR ''/'' # r"] td by simp
        finally have "remove_dots (take d s @ r) [] = remove_dots s []" ..
        moreover have "checkpoint_ok (take d s @ r) j"
          using "1.prems"(1) F sl by (intro checkpoint_keep) auto
        ultimately show ?thesis by blast
      qed
      with "1.IH"(1) [OF Some True] rec e show ?thesis by auto
    next
      case n1: False
      show ?thesis
      proof (cases "s ! (d - 1) = CHR ''.'' \<and> d = 1")
        case True
        have "j = 0" using "1.prems"(1) F True by (cases "j = 1") (auto simp: checkpoint_ok_def)
        have e: "str_erase (d - 1) 3 s = r" using True by (simp add: str_erase_def r_def numeral_3_eq_3)
        have "take d s = ''.''" using True len by (cases s) auto
        then have "s = ''../'' @ r" using s by simp
        then have "remove_dots s [] = remove_dots r []" using dot_slash_step(2) by metis
        moreover have "checkpoint_ok r j" using \<open>j = 0\<close> by (simp add: checkpoint_ok_def clean_upto_def)
        moreover have "dot_loop r j True = (s', m')" using run n1 True e by auto
        ultimately show ?thesis using "1.IH"(2) [OF Some n1 True] e by auto
      next
        case n2: False
        show ?thesis
        proof (cases "s ! (d - 1) = CHR ''.'' \<and> s ! (d - 2) = CHR ''/''")
          case True
          then have "d \<noteq> 0" "d \<noteq> 1" using n1 n2 by auto
          then have d2: "2 \<le> d" by linarith
          define l where "l = take (d - 2) s"
          have "take d s = take (d - 2) s @ [s ! (d - 2), s ! (d - 1)]"
            using d2 len take_Suc_conv_app_nth [of "d - 2" s] take_Suc_conv_app_nth [of "d - 1" s]
            by (simp add: Suc_diff_Suc numeral_2_eq_2)
          then have sl: "s = l @ CHR ''/'' # CHR ''.'' # CHR ''.'' # CHR ''/'' # r" using s True by (simp add: l_def)
          have ll: "length l = d - 2" using len by (simp add: l_def)
          have se: "settled l" unfolding l_def using cd True len d2 by (intro clean_settled) (auto simp: clean_upto_def)
          have rd: "remove_dots s [] = remove_dots (CHR ''/'' # r) (drop_last_segment l)"
            using remove_dots_settled [OF se, of "CHR ''/'' # CHR ''.'' # CHR ''.'' # CHR ''/'' # r"] dot_slash_step(4) [of r l] sl
            by simp
          show ?thesis
          proof (cases "d = 2")
            case d: True
            have l0: "l = []" using d ll by simp
            have e: "str_erase (d - 1) 3 s = CHR ''/'' # r" using sl l0 d by (simp add: str_erase_def numeral_3_eq_3)
            have "remove_dots s [] = remove_dots (CHR ''/'' # r) []" using rd l0 by (simp add: drop_last_segment_def)
            moreover have "j \<le> 1" using "1.prems"(1) F d True by (auto simp: checkpoint_ok_def le_Suc_eq numeral_2_eq_2)
            then have "checkpoint_ok (CHR ''/'' # r) j"
              by (cases j) (auto simp: checkpoint_ok_def clean_upto_def)
            moreover have "dot_loop (CHR ''/'' # r) j True = (s', m')" using run n1 n2 True d e by simp
            ultimately show ?thesis using "1.IH"(3) [OF Some n1 n2 True d] e by auto
          next
            case d: False
            define p where "p = slash_or_start s (d - 3)"
            have "take (slash_or_start s (d - 2 - 1)) s = drop_last_segment (take (d - 2) s)"
              using d d2 len by (intro slash_or_start_eq) auto
            then have pl: "take p s = drop_last_segment l" by (simp add: p_def l_def numeral_3_eq_3 numeral_2_eq_2)
            have pd: "p \<le> d - 3" unfolding p_def by (rule slash_or_start_le)
            have e: "str_erase p (d + 1 - p) s = take p s @ CHR ''/'' # r"
            proof -
              have "p + (d + 1 - p) = d + 1" using pd by simp
              moreover have "drop (d + 1) s = CHR ''/'' # r" using dd by (metis drop_Suc list.sel(3) r_def Suc_eq_plus1 tl_drop)
              ultimately show ?thesis by (simp add: str_erase_def)
            qed
            have ok: "checkpoint_ok (take p s @ CHR ''/'' # r) p \<and> remove_dots (take p s @ CHR ''/'' # r) [] = remove_dots (CHR ''/'' # r) (take p s)"
            proof (cases "p = 0")
              case True
              then show ?thesis by (simp add: checkpoint_ok_def clean_upto_def)
            next
              case False
              then have ps: "p < length s" "s ! p = CHR ''/''" using slash_or_start_slash [of s "d - 3"] by (simp_all add: p_def)
              have cp: "clean_upto s p" using cd pd by (auto simp: clean_upto_def)
              have se: "settled (take p s)" by (rule clean_settled [OF cp ps])
              have at: "p < length (take p s @ CHR ''/'' # r)" "(take p s @ CHR ''/'' # r) ! p = CHR ''/''"
                using ps(1) by (simp_all add: nth_append)
              have "clean_upto (take p s @ CHR ''/'' # r) p"
                by (rule clean_upto_prefix [OF cp _ _ at(1) disjI1 [OF at(2)] disjI1 [OF conjI [OF ps]]])
                  (use ps(1) in simp_all)
              then have "checkpoint_ok (take p s @ CHR ''/'' # r) p" using at unfolding checkpoint_ok_def by blast
              moreover have "remove_dots (take p s @ CHR ''/'' # r) [] = remove_dots (CHR ''/'' # r) (take p s)"
                by (rule remove_dots_settled [OF se]) simp
              ultimately show ?thesis by blast
            qed
            have rec: "dot_loop (take p s @ CHR ''/'' # r) p True = (s', m')"
              using run [unfolded if_not_P [OF n1] if_not_P [OF n2] if_P [OF True] if_not_P [OF d] Let_def, folded p_def]
              unfolding e .
            from "1.IH"(4) [OF Some n1 n2 True d p_def, unfolded e, OF conjunct1 [OF ok] rec] ok rd pl
            show ?thesis by simp
          qed
        next
          case n3: False
          have "dot_loop s (d + 2) True = (s', m')"
            using run [unfolded if_not_P [OF n1] if_not_P [OF n2] if_not_P [OF n3]] .
          moreover have "clean_upto s (d + 2)"
            unfolding clean_upto_def
          proof (intro allI impI)
            fix k assume k: "k < d + 2" "k + 1 < length s \<and> s ! k = CHR ''.'' \<and> s ! (k + 1) = CHR ''/''"
            then consider "k < d" | "k = d" | "k = d + 1" by linarith
            then show "\<not> dot_at s k"
            proof cases
              case 1
              then show ?thesis using cd k by (auto simp: clean_upto_def)
            next
              case 2
              then show ?thesis using n1 n2 n3 by (auto simp: dot_at_def)
            next
              case 3
              then show ?thesis using F k by auto
            qed
          qed
          then have "checkpoint_ok s (d + 2)" using F by (auto simp: checkpoint_ok_def)
          ultimately show ?thesis using "1.IH"(5) [OF Some n1 n2 n3] by auto
        qed
      qed
    qed
  qed
qed

lemma remove_dots_end:
  "CHR ''/'' \<notin> set w \<Longrightarrow> remove_dots (CHR ''/'' # w) out =
    (if w = ''.'' then out @ ''/'' else if w = ''..'' then drop_last_segment out @ ''/'' else out @ CHR ''/'' # w)"
proof -
  assume w: "CHR ''/'' \<notin> set w"
  have nil: "remove_dots [] x = x" for x by (subst remove_dots.simps) simp
  have slash: "remove_dots ''/'' x = x @ ''/''" for x using remove_dots_segment [of "[]" "[]" x] nil by simp
  have "remove_dots ''/.'' out = remove_dots ''/'' out" by (subst remove_dots.simps) (simp add: numeral_eq_Suc)
  moreover have "remove_dots ''/..'' out = remove_dots ''/'' (drop_last_segment out)"
    by (subst remove_dots.simps) (simp add: numeral_eq_Suc)
  moreover have "w \<noteq> ''.'' \<Longrightarrow> w \<noteq> ''..'' \<Longrightarrow> remove_dots (CHR ''/'' # w) out = out @ CHR ''/'' # w"
    using remove_dots_segment [OF w, of "[]" out] nil by simp
  ultimately show ?thesis using slash by auto
qed

lemma remove_dots_alone:
  "CHR ''/'' \<notin> set w \<Longrightarrow> remove_dots w [] = (if w = ''.'' \<or> w = ''..'' then [] else w)"
proof -
  assume w: "CHR ''/'' \<notin> set w"
  have nil: "remove_dots [] x = x" for x by (subst remove_dots.simps) simp
  have "remove_dots ''.'' [] = []" "remove_dots ''..'' [] = []" by (subst remove_dots.simps; simp add: nil)+
  moreover have "w \<noteq> ''.'' \<Longrightarrow> w \<noteq> ''..'' \<Longrightarrow> remove_dots w [] = w" using remove_dots_first [OF w, of "[]"] nil by simp
  ultimately show ?thesis by auto
qed

lemma last_slash_unique:
  assumes "a @ CHR ''/'' # w = b @ CHR ''/'' # x" "CHR ''/'' \<notin> set w" "CHR ''/'' \<notin> set x"
  shows "a = b \<and> w = x"
proof -
  have "takeWhile (\<lambda>c. c \<noteq> CHR ''/'') (rev w @ CHR ''/'' # rev a) = rev w"
    "takeWhile (\<lambda>c. c \<noteq> CHR ''/'') (rev x @ CHR ''/'' # rev b) = rev x" using assms(2,3) by (auto intro: takeWhile_noslash)
  moreover have "rev w @ CHR ''/'' # rev a = rev x @ CHR ''/'' # rev b" using arg_cong [OF assms(1), of rev] by simp
  ultimately have "w = x" by simp
  with assms(1) show ?thesis by simp
qed

lemma drop_noslash: "CHR ''/'' \<notin> set s \<Longrightarrow> drop n s \<noteq> CHR ''/'' # x"
  by (metis in_set_dropD list.set_intros(1))

lemma dot_end_correct:
  assumes "clean_upto s (length s)"
  shows "fst (dot_end s m) = remove_dots s [] \<and> (snd (dot_end s m) \<or> \<not> m \<and> fst (dot_end s m) = s \<or> m)"
proof (cases "CHR ''/'' \<in> set s")
  case False
  have "drop (length s - 2) s \<noteq> ''/.''" by (rule drop_noslash [OF False])
  moreover have "drop (length s - 3) s \<noteq> ''/..''" by (rule drop_noslash [OF False])
  ultimately show ?thesis using remove_dots_alone [OF False] by (auto simp: dot_end_def)
next
  case True
  then obtain l w where s: "s = l @ CHR ''/'' # w" "CHR ''/'' \<notin> set w" by (rule last_slash)
  have se: "settled l"
  proof -
    have "clean_upto s (length l)" using assms s(1) by (auto simp: clean_upto_def)
    from clean_settled [OF this] s(1) show ?thesis by simp
  qed
  have r: "remove_dots s [] = remove_dots (CHR ''/'' # w) l" using remove_dots_settled [OF se, of "CHR ''/'' # w"] s(1) by simp
  have dot: "2 \<le> length s \<and> drop (length s - 2) s = ''/.'' \<longleftrightarrow> w = ''.''"
  proof
    assume d: "2 \<le> length s \<and> drop (length s - 2) s = ''/.''"
    then have "s = take (length s - 2) s @ CHR ''/'' # ''.''" by (metis append_take_drop_id)
    from last_slash_unique [OF trans [OF s(1) [symmetric] this] s(2)] show "w = ''.''" by simp
  qed (simp add: s(1))
  have dots: "3 \<le> length s \<and> drop (length s - 3) s = ''/..'' \<longleftrightarrow> w = ''..''"
  proof
    assume d: "3 \<le> length s \<and> drop (length s - 3) s = ''/..''"
    then have "s = take (length s - 3) s @ CHR ''/'' # ''..''" by (metis append_take_drop_id)
    from last_slash_unique [OF trans [OF s(1) [symmetric] this] s(2)] show "w = ''..''" by simp
  qed (simp add: s(1))
  have n: "s \<noteq> ''.''" "s \<noteq> ''..''" using True by auto
  consider "w = ''.''" | "w = ''..''" | "w \<noteq> ''.''" "w \<noteq> ''..''" by blast
  then show ?thesis
  proof cases
    case 1
    then have "dot_end s m = (take (length s - 1) s, True)" using dot n by (simp add: dot_end_def)
    then show ?thesis using 1 s r remove_dots_end [OF s(2)] by simp
  next
    case 2
    then have e: "dot_end s m = (if length s = 3 then (take 1 s, True)
         else (take (slash_or_start s (length s - 4)) s @ ''/'', True))" using dots dot n by (simp add: dot_end_def)
    show ?thesis
    proof (cases "l = []")
      case True
      then show ?thesis using e 2 s r remove_dots_end [OF s(2)] by (simp add: drop_last_segment_def)
    next
      case False
      have "take (slash_or_start s (length l - 1)) s = drop_last_segment (take (length l) s)"
        using False s by (intro slash_or_start_eq) auto
      moreover have "length s - 4 = length l - 1" "length s \<noteq> 3" using s 2 False by auto
      ultimately show ?thesis using e 2 s r remove_dots_end [OF s(2)] by simp
    qed
  next
    case 3
    then have "dot_end s m = (s, m)" using dot dots n by (auto simp: dot_end_def)
    then show ?thesis using 3 s r remove_dots_end [OF s(2)] by simp
  qed
qed

text \<open>The dot segments of a path, the way the code removes them.\<close>

definition dots_removed :: "string \<Rightarrow> string \<times> bool" where
  "dots_removed path = (let (path1, modified1) = dot_loop path 0 False in dot_end path1 modified1)"

lemma dots_removed_correct:
  "fst (dots_removed path) = remove_dots path [] \<and> (snd (dots_removed path) \<or> fst (dots_removed path) = path)"
proof -
  obtain p m where pm: "dot_loop path 0 False = (p, m)" by (cases "dot_loop path 0 False") auto
  have "checkpoint_ok path 0" by (simp add: checkpoint_ok_def clean_upto_def)
  from dot_loop_correct [OF this pm] have c: "remove_dots p [] = remove_dots path []" "clean_upto p (length p)" "m \<or> p = path"
    by auto
  have "snd (dot_end p m) \<or> dot_end p m = (p, m)" by (simp add: dot_end_def)
  with dot_end_correct [OF c(2), of m] c pm show ?thesis by (auto simp: dots_removed_def)
qed

section \<open>Normalization of a view\<close>

definition path_decoded :: "char \<Rightarrow> bool" where
  "path_decoded c \<longleftrightarrow> is_unreserved c \<or> is_sub_delim c \<or> c = CHR '':'' \<or> c = CHR ''@''"

definition normal :: "view \<Rightarrow> view" where
  "normal v = v\<lparr>v_scheme := map to_lower (v_scheme v), v_userinfo := pct_decode userinfo_char (v_userinfo v),
     v_host := lower_host (pct_decode host_char (v_host v)),
     v_path := remove_dots (pct_decode path_decoded (v_path v)) [],
     v_query := pct_decode query_char (v_query v), v_fragment := pct_decode query_char (v_fragment v)\<rparr>"

definition view_pct :: "view \<Rightarrow> bool" where
  "view_pct v \<longleftrightarrow> pct_wf (v_userinfo v) \<and> pct_wf (v_host v) \<and> pct_wf (v_path v) \<and> pct_wf (v_query v) \<and> pct_wf (v_fragment v)"

lemma map_comp_part:
  assumes r: "represents u v" and f: "length (f (part_text p v)) = length (part_text p v)" "f [] = []"
    and v': "view_wf v'" "\<And>q. located_in v' q = located_in v q"
    and c: "unparse v = part_before p v @ part_text p v @ c" "unparse v' = part_before p v @ f (part_text p v) @ c"
  shows "\<exists>u'. map_comp f (part_get p u) u = Inr u' \<and> represents u' v' \<and> same_rest u u'"
proof -
  have g: "part_get p u = located (length (part_before p v)) (part_text p v)" and s: "u_str u = part_before p v @ part_text p v @ c"
    using r c(1) by (simp_all add: represents_def located_in_def)
  let ?u = "u\<lparr>u_str := unparse v'\<rparr>"
  have "map_comp f (part_get p u) u = Inr ?u"
  proof (cases "part_text p v = []")
    case True
    then show ?thesis using c f(2) s by (simp add: map_comp_def g)
  next
    case False
    then show ?thesis using c(2) by (simp add: map_comp_def g s)
  qed
  moreover have "part_get q ?u = part_get q u" for q by (cases q) simp_all
  then have "represents ?u v'" using r v' by (simp add: represents_def)
  ultimately show ?thesis by (simp add: same_rest_def)
qed

lemma normalize_scheme_view:
  assumes "represents u v"
  shows "\<exists>u'. normalize_scheme u = Inr u' \<and> represents u' (v\<lparr>v_scheme := map to_lower (v_scheme v)\<rparr>) \<and> same_rest u u'"
  unfolding normalize_scheme_def part_get.simps(1) [symmetric]
proof (rule map_comp_part [OF assms, where p = Scheme, where c = "CHR '':'' # v_ssp v"])
  show "located_in (v\<lparr>v_scheme := map to_lower (v_scheme v)\<rparr>) q = located_in v q" for q
    by (cases q) (simp_all add: located_in_def located_def view_defs)
qed (use assms in \<open>simp_all add: represents_def view_wf_def view_defs\<close>)

lemma lower_host_length [simp]: "length (lower_host s) = length s"
  by (induction s rule: lower_host.induct) (auto split: list.split)

lemma lower_host_view:
  assumes "represents u v"
  shows "\<exists>u'. map_comp lower_host (u_host u) u = Inr u' \<and> represents u' (v\<lparr>v_host := lower_host (v_host v)\<rparr>) \<and> same_rest u u'"
  unfolding part_get.simps(5) [symmetric]
proof (rule map_comp_part [OF assms, where p = Host,
    where c = "v_colon v @ v_port v @ v_path v @ v_query v @ v_fragment v"])
  show "located_in (v\<lparr>v_host := lower_host (v_host v)\<rparr>) q = located_in v q" for q
    by (cases q) (simp_all add: located_in_def located_def view_defs)
  show "view_wf (v\<lparr>v_host := lower_host (v_host v)\<rparr>)"
    using assms by (auto simp: represents_def view_wf_def split: if_splits)
qed (simp_all add: view_defs)

lemma same_rest_ok: "same_rest u u' \<Longrightarrow> u_err u = URI_PARSE_OK \<Longrightarrow> u_err u' = URI_PARSE_OK"
  by (simp add: same_rest_def)

lemma normalize_authority_view:
  assumes r: "represents u v" and e: "u_err u = URI_PARSE_OK" and p: "pct_wf (v_userinfo v)" "pct_wf (v_host v)"
  shows "\<exists>u'. normalize_authority u = Inr u' \<and> same_rest u u' \<and>
    represents u' (v\<lparr>v_userinfo := pct_decode userinfo_char (v_userinfo v), v_host := lower_host (pct_decode host_char (v_host v))\<rparr>)"
proof -
  have sl: "v_userinfo v \<noteq> [] \<Longrightarrow> v_slashes v \<noteq> []" "v_host v \<noteq> [] \<Longrightarrow> v_slashes v \<noteq> []"
    using r by (auto simp: represents_def view_wf_def split: if_splits)
  obtain u1 where 1: "decode_comp userinfo_char u_userinfo set_userinfo u = Inr u1"
    "represents u1 (v\<lparr>v_userinfo := pct_decode userinfo_char (v_userinfo v)\<rparr>)" "same_rest u u1"
    using userinfo_setter.decode_view [OF r e comp_str_views(2) [OF r] p(1) sl(1)] by blast
  obtain u2 where 2: "decode_comp host_char u_host set_host u1 = Inr u2"
    "represents u2 (v\<lparr>v_userinfo := pct_decode userinfo_char (v_userinfo v), v_host := pct_decode host_char (v_host v)\<rparr>)" "same_rest u1 u2"
    using host_setter.decode_view [OF 1(2) same_rest_ok [OF 1(3) e] comp_str_views(3) [OF 1(2)], of host_char] p(2) sl(2) by auto
  obtain u3 where 3: "map_comp lower_host (u_host u2) u2 = Inr u3" "same_rest u2 u3"
    "represents u3 (v\<lparr>v_userinfo := pct_decode userinfo_char (v_userinfo v), v_host := lower_host (pct_decode host_char (v_host v))\<rparr>)"
    using lower_host_view [OF 2(2)] by auto
  show ?thesis using 1 2 3 by (auto simp: normalize_authority_def decode_authority_def intro: same_rest_trans)
qed

lemma normalize_path_view:
  assumes r: "represents u v" and e: "u_err u = URI_PARSE_OK" and p: "pct_wf (v_path v)"
  shows "\<exists>u'. normalize_path u = Inr u' \<and> same_rest u u' \<and>
    represents u' (v\<lparr>v_path := remove_dots (pct_decode path_decoded (v_path v)) []\<rparr>)"
proof -
  let ?d = "pct_decode path_decoded (v_path v)"
  have dp: "decode_path = decode_comp path_decoded u_path set_path"
    by (simp add: decode_path_def path_decoded_def [abs_def])
  obtain u1 where 1: "decode_path u = Inr u1" "represents u1 (v\<lparr>v_path := ?d\<rparr>)" "same_rest u u1"
    using path_setter.decode_view [OF r e comp_str_views(5) [OF r] p, of path_decoded] unfolding dp by auto
  have np: "normalize_path u = (if snd (dots_removed ?d) then set_path (fst (dots_removed ?d)) u1 else Inr u1)"
    using comp_str_views(5) [OF 1(2)] by (simp add: normalize_path_def 1(1) dots_removed_def Let_def split: prod.split)
  show ?thesis
  proof (cases "snd (dots_removed ?d)")
    case True
    obtain u2 where "set_path (fst (dots_removed ?d)) u1 = Inr u2"
      "represents u2 (v\<lparr>v_path := fst (dots_removed ?d)\<rparr>)" "same_rest u1 u2"
      using set_path_view [OF 1(2) same_rest_ok [OF 1(3) e]] by auto
    then show ?thesis using np True 1(3) dots_removed_correct [of ?d] by (auto intro: same_rest_trans)
  next
    case False
    then have "?d = remove_dots ?d []" using dots_removed_correct [of ?d] by auto
    then show ?thesis using np False 1 by auto
  qed
qed

lemma uri_normalize_view:
  assumes r: "represents u v" and e: "u_err u = URI_PARSE_OK" and n: "u_normalize u" and p: "view_pct v"
  shows "\<exists>u'. uri_normalize u = Inr u' \<and> represents u' (normal v) \<and> same_rest u u'"
proof -
  note P = p [unfolded view_pct_def]
  obtain u1 where 1: "normalize_scheme u = Inr u1" "represents u1 (v\<lparr>v_scheme := map to_lower (v_scheme v)\<rparr>)" "same_rest u u1"
    using normalize_scheme_view [OF r] by blast
  note e1 = same_rest_ok [OF 1(3) e]
  obtain u2 where 2: "normalize_authority u1 = Inr u2" "same_rest u1 u2"
    "represents u2 (v\<lparr>v_scheme := map to_lower (v_scheme v), v_userinfo := pct_decode userinfo_char (v_userinfo v),
       v_host := lower_host (pct_decode host_char (v_host v))\<rparr>)"
    using normalize_authority_view [OF 1(2) e1] P by auto
  note e2 = same_rest_ok [OF 2(2) e1]
  obtain u3 where 3: "normalize_path u2 = Inr u3" "same_rest u2 u3"
    "represents u3 (v\<lparr>v_scheme := map to_lower (v_scheme v), v_userinfo := pct_decode userinfo_char (v_userinfo v),
       v_host := lower_host (pct_decode host_char (v_host v)), v_path := remove_dots (pct_decode path_decoded (v_path v)) []\<rparr>)"
    using normalize_path_view [OF 2(3) e2] P by auto
  note e3 = same_rest_ok [OF 3(2) e2]
  obtain u4 where 4: "normalize_query u3 = Inr u4" "same_rest u3 u4"
    "represents u4 (v\<lparr>v_scheme := map to_lower (v_scheme v), v_userinfo := pct_decode userinfo_char (v_userinfo v),
       v_host := lower_host (pct_decode host_char (v_host v)), v_path := remove_dots (pct_decode path_decoded (v_path v)) [],
       v_query := pct_decode query_char (v_query v)\<rparr>)"
    using query_setter.decode_view [OF 3(3) e3 comp_str_views(6) [OF 3(3)], of query_char] P
    by (auto simp: normalize_query_def decode_query_def)
  note e4 = same_rest_ok [OF 4(2) e3]
  obtain u5 where 5: "normalize_fragment u4 = Inr u5" "same_rest u4 u5" "represents u5 (normal v)"
    using fragment_setter.decode_view [OF 4(3) e4 comp_str_views(7) [OF 4(3)], of query_char] P
    by (auto simp: normalize_fragment_def decode_fragment_def normal_def)
  have "same_rest u u5" using 1(3) 2(2) 3(2) 4(2) 5(2) by (simp add: same_rest_def)
  then show ?thesis using n 1(1) 2(1) 3(1) 4(1) 5 by (auto simp: uri_normalize_def)
qed

section \<open>The parser on a string\<close>

lemma represents_err [simp]: "represents (u\<lparr>u_err := e\<rparr>) v \<longleftrightarrow> represents u v"
  and represents_port [simp]: "represents (u\<lparr>u_port_num := n\<rparr>) v \<longleftrightarrow> represents u v"
  by (simp_all add: represents_def all_parts)

lemma valid_pct:
  assumes "view_valid v" "view_generic v"
  shows "view_pct v"
proof -
  note V = assms(1) [unfolded view_valid_def] and G = assms(2) [unfolded view_generic_def authority_generic_def]
  have ui: "pct_wf (v_userinfo v)"
  proof (cases "v_userinfo v = []")
    case True
    then show ?thesis by (simp add: pct_wf_def)
  next
    case False
    then have "v_userinfo v = butlast (v_userinfo v) @ ''@''" using G by (metis append_butlast_last_id)
    moreover have "pct_wf (butlast (v_userinfo v))" using V False not_allowed by (blast intro: pct_string_wf)
    moreover have "pct_wf ''@''" by (intro pct_wf_plain) simp
    ultimately show ?thesis using pct_wf_append by metis
  qed
  have hex: "list_all is_hexdig x \<Longrightarrow> CHR ''%'' \<notin> set x" for x using hex_not(3) by (auto simp: list_all_iff)
  have h16: "h16 x \<Longrightarrow> CHR ''%'' \<notin> set x" for x using hex by (simp add: h16_def)
  have oct: "dec_octet x \<Longrightarrow> CHR ''%'' \<notin> set x" for x by (auto simp: dec_octet_def list_all_iff is_digit_def)
  have v4: "ipv4_address x \<Longrightarrow> CHR ''%'' \<notin> set x" for x unfolding ipv4_address_def using oct by auto
  have col: "(\<And>p. p \<in> set ps \<Longrightarrow> CHR ''%'' \<notin> set p) \<Longrightarrow> CHR ''%'' \<notin> set (colons ps)" for ps
    by (induction ps) (auto simp: colons_def)
  have colh: "list_all h16 ps \<Longrightarrow> CHR ''%'' \<notin> set (colons ps)" for ps using col h16 by (auto simp: list_all_iff)
  have v6: "ipv6_address x \<Longrightarrow> CHR ''%'' \<notin> set x" for x
    unfolding ipv6_address_def using colh h16 v4 by (auto split: if_splits)
  have fut: "ip_future x \<Longrightarrow> CHR ''%'' \<notin> set x" for x
    unfolding ip_future_def using hex not_allowed(1) by (fastforce simp: list_all_iff)
  have pair: "octet_pair x \<Longrightarrow> CHR ''%'' \<notin> set x" for x using hex by (simp add: octet_pair_def)
  have mac: "mac_address x \<Longrightarrow> CHR ''%'' \<notin> set x" for x
    unfolding mac_address_def using col pair by (auto simp: list_all_iff)
  have reg: "pct_string host_char h \<Longrightarrow> pct_wf h" for h using pct_string_wf [where P = host_char] not_allowed(2) by blast
  have "host_valid (v_scheme v) (v_host v)" using V by blast
  then consider "v_host v = []" | x where "v_host v = CHR ''['' # x @ '']''" "CHR ''%'' \<notin> set x"
    | "mac_address (v_host v)" | "pct_string host_char (v_host v)"
    unfolding host_valid_def using v6 fut by (auto split: if_splits)
  then have "pct_wf (v_host v)" by cases (auto intro: pct_wf_plain reg simp: mac)
  moreover have "pct_wf (v_path v)" using V not_allowed by (blast intro: pct_string_wf)
  moreover have "pct_wf (v_query v)"
  proof (cases "v_query v")
    case (Cons c q)
    then have "pct_wf q" "c = CHR ''?''" using V G not_allowed by (auto intro: pct_string_wf)
    then show ?thesis using Cons pct_wf_append [OF pct_wf_plain [of "''?''"], of q] by simp
  qed (simp add: pct_wf_def)
  moreover have "pct_wf (v_fragment v)"
  proof (cases "v_fragment v")
    case (Cons c q)
    then have "pct_wf q" "c = CHR ''#''" using V G not_allowed by (auto intro: pct_string_wf)
    then show ?thesis using Cons pct_wf_append [OF pct_wf_plain [of "''#''"], of q] by simp
  qed (simp add: pct_wf_def)
  ultimately show ?thesis using ui by (simp add: view_pct_def)
qed

lemma find_colon: "CHR '':'' \<notin> set a \<Longrightarrow> find_from (\<lambda>c. c = CHR '':'') (a @ '':'' @ b) 0 = Some (length a)"
proof -
  assume "CHR '':'' \<notin> set a"
  then have "takeWhile (\<lambda>c. c \<noteq> CHR '':'') (a @ '':'' @ b) = a" by (intro takeWhile_upto) auto
  then show ?thesis using find_from_append [of "\<lambda>c. c = CHR '':''" "[]" "a @ '':'' @ b"] by simp
qed

lemma split_uri_error: "split_uri scheme s = Inl e \<Longrightarrow> e \<noteq> URI_PARSE_OK"
  by (auto simp: split_uri_def Let_def split: option.splits if_splits)

lemma uri_parse_split:
  assumes s: "u_str u0 = scheme @ '':'' @ s" "CHR '':'' \<notin> set scheme" "scheme \<noteq> []"
  shows "case split_uri scheme s of
      Inl e \<Rightarrow> \<exists>u'. uri_parse u0 = Inr u' \<and> u_err u' = e
    | Inr v \<Rightarrow> \<exists>u'. uri_parse u0 = bind_run (port_number (v_port v) 0) (\<lambda>n. parse_rest (u'\<lparr>u_port_num := n\<rparr>)) \<and>
        represents u' v \<and> u_err u' = URI_PARSE_OK \<and> u_validate u' = u_validate u0 \<and> u_normalize u' = u_normalize u0"
proof -
  define u where "u = (uri_clear False u0)\<lparr>u_scheme := \<lparr>c_off = 0, c_len = length scheme\<rparr>,
                u_ssp := \<lparr>c_off = length scheme + 1, c_len = length (u_str u0) - (length scheme + 1)\<rparr>\<rparr>"
  have u: "u_str u = scheme @ '':'' @ s" "u_scheme u = located 0 scheme" "u_ssp u = located (length scheme + 1) s"
    "u_port_num u = 0" "u_validate u = u_validate u0" "u_normalize u = u_normalize u0"
    using s by (simp_all add: u_def uri_clear_def located_def)
  have str: "u_str (uri_clear False u0) = u_str u0" by (simp add: uri_clear_def)
  have eq: "uri_parse u0 = bind_run (parse_components u) (\<lambda>(err, u1).
      if err \<noteq> URI_PARSE_OK then Inr (u1\<lparr>u_err := err\<rparr>) else parse_rest (u1\<lparr>u_err := URI_PARSE_OK\<rparr>))"
    using s find_colon [OF s(2), of s] by (simp add: uri_parse_def Let_def str u_def)
  note C = parse_components_eq [OF u(1-3)]
  show ?thesis
  proof (cases "split_uri scheme s")
    case (Inl e)
    then show ?thesis using C eq split_uri_error [OF Inl] by auto
  next
    case (Inr v)
    then obtain u1 where u1: "parse_components u = bind_run (port_number (v_port v) 0) (\<lambda>n. Inr (URI_PARSE_OK, u1\<lparr>u_port_num := n\<rparr>))"
      "represents u1 v" "same_rest u u1" using C u(4) by auto
    have sw: "u1\<lparr>u_port_num := n, u_err := URI_PARSE_OK\<rparr> = u1\<lparr>u_err := URI_PARSE_OK\<rparr>\<lparr>u_port_num := n\<rparr>" for n by simp
    have "uri_parse u0 = bind_run (port_number (v_port v) 0) (\<lambda>n. parse_rest (u1\<lparr>u_err := URI_PARSE_OK\<rparr>\<lparr>u_port_num := n\<rparr>))"
      unfolding eq u1(1) bind_run_assoc by (simp only: bind_run_Inr prod.case sw simp_thms if_False)
    then show ?thesis using Inr u1(2,3) u(5,6)
      by (auto simp: same_rest_def intro!: exI [of _ "u1\<lparr>u_err := URI_PARSE_OK\<rparr>"])
  qed
qed

lemma parse_rest_view:
  assumes r: "represents u v" and g: "view_generic v" "v_scheme v \<noteq> []" and e: "u_err u = URI_PARSE_OK"
    and f: "u_validate u" "u_normalize u"
  shows "\<exists>u'. parse_rest u = Inr u' \<and> (uri_valid u' \<longleftrightarrow> view_valid v) \<and>
    (view_valid v \<longrightarrow> represents u' (normal v) \<and> u_port_num u' = u_port_num u)"
proof -
  obtain err where err: "validate u = Inr err" "err = URI_PARSE_OK \<longleftrightarrow> view_valid v"
    using validate_view [OF r g f(1)] by (auto simp: accepts_def)
  show ?thesis
  proof (cases "view_valid v")
    case False
    then show ?thesis using err f by (simp add: parse_rest_def uri_valid_def)
  next
    case True
    obtain u' where "uri_normalize u = Inr u'" "represents u' (normal v)" "same_rest u u'"
      using uri_normalize_view [OF r e f(2) valid_pct [OF True g(1)]] by blast
    then show ?thesis using err True f by (auto simp: parse_rest_def uri_valid_def same_rest_def)
  qed
qed

lemma unparse_split:
  assumes "unparse v = s" "CHR '':'' \<notin> set (v_scheme v)"
  shows "takeWhile (\<lambda>c. c \<noteq> CHR '':'') s = v_scheme v" "s = v_scheme v @ '':'' @ v_ssp v"
proof -
  show s: "s = v_scheme v @ '':'' @ v_ssp v" using assms(1) by (simp add: unparse_def)
  show "takeWhile (\<lambda>c. c \<noteq> CHR '':'') s = v_scheme v" unfolding s using assms(2) by (intro takeWhile_upto) auto
qed

lemma valid_scheme_colon: "view_valid v \<Longrightarrow> CHR '':'' \<notin> set (v_scheme v) \<and> v_scheme v \<noteq> []"
proof -
  have "\<not> is_alpha CHR '':''" "\<not> scheme_char CHR '':''"
    by (simp_all add: is_alpha_def is_upper_def is_lower_def scheme_char_def is_alnum_def is_digit_def)
  then show "view_valid v \<Longrightarrow> CHR '':'' \<notin> set (v_scheme v) \<and> v_scheme v \<noteq> []"
    by (cases "v_scheme v") (auto simp: view_valid_def scheme_valid_def list_all_iff)
qed

lemma split_view:
  assumes nc: "CHR '':'' \<notin> set scheme"
  shows "unparse v = scheme @ '':'' @ r \<and> view_generic v \<and> CHR '':'' \<notin> set (v_scheme v) \<longleftrightarrow> split_uri scheme r = Inr v"
proof
  assume v: "unparse v = scheme @ '':'' @ r \<and> view_generic v \<and> CHR '':'' \<notin> set (v_scheme v)"
  have "takeWhile (\<lambda>c. c \<noteq> CHR '':'') (scheme @ '':'' @ r) = scheme" using nc by (intro takeWhile_upto) auto
  then have "v_scheme v = scheme" using unparse_split(1) [of v "scheme @ '':'' @ r"] v by simp
  moreover have "v_ssp v = r" using v calculation by (simp add: unparse_def)
  ultimately show "split_uri scheme r = Inr v" using generic_split_uri [of v] v by simp
next
  assume "split_uri scheme r = Inr v"
  then show "unparse v = scheme @ '':'' @ r \<and> view_generic v \<and> CHR '':'' \<notin> set (v_scheme v)"
    using split_uri_generic [of scheme r v] nc by (simp add: unparse_def)
qed

lemma uri_new_parse:
  assumes port: "\<And>v. unparse v = s \<Longrightarrow> view_generic v \<Longrightarrow> CHR '':'' \<notin> set (v_scheme v) \<Longrightarrow> \<exists>n. atoi (v_port v) = Inr n"
  shows "\<exists>u. uri_new s True True = Inr u \<and>
    (uri_valid u \<longleftrightarrow> (\<exists>v. unparse v = s \<and> view_generic v \<and> view_valid v)) \<and>
    (\<forall>v. unparse v = s \<and> view_generic v \<and> view_valid v \<longrightarrow>
      represents u (normal v) \<and> port_number (v_port v) 0 = Inr (u_port_num u))"
proof -
  let ?u0 = "uri_none\<lparr>u_str := s, u_validate := True, u_normalize := True\<rparr>"
  have str: "u_str (uri_clear False ?u0) = s" by (simp add: uri_clear_def)
  define scheme where "scheme = takeWhile (\<lambda>c. c \<noteq> CHR '':'') s"
  have nc: "CHR '':'' \<notin> set scheme" by (auto simp: scheme_def dest: set_takeWhileD)
  have sch: "v_scheme v = scheme" if "unparse v = s" "view_valid v" for v
    using unparse_split(1) [OF that(1)] valid_scheme_colon [OF that(2)] by (simp add: scheme_def)
  show ?thesis
  proof (cases "CHR '':'' \<in> set s \<and> scheme \<noteq> []")
    case False
    have no: "\<not> (unparse v = s \<and> view_valid v)" for v
      using False sch [of v] valid_scheme_colon [of v] by (auto simp: unparse_def)
    have "\<exists>u. uri_parse ?u0 = Inr u \<and> \<not> uri_valid u"
    proof (cases "CHR '':'' \<in> set s")
      case True
      then have "scheme = []" using False by blast
      then have "find_from (\<lambda>c. c = CHR '':'') s 0 = Some 0" using True find_from_append [of "\<lambda>c. c = CHR '':''" "[]" s]
        by (auto simp: scheme_def)
      moreover have "s \<noteq> []" using True by auto
      ultimately show ?thesis by (simp add: uri_parse_def Let_def str uri_valid_def)
    next
      case False
      then have "find_from (\<lambda>c. c = CHR '':'') s 0 = None" using find_from_append [of "\<lambda>c. c = CHR '':''" "[]" s] by auto
      then show ?thesis by (cases "s = []") (simp_all add: uri_parse_def Let_def uri_clear_def uri_valid_def)
    qed
    with no show ?thesis by (auto simp: uri_new_def)
  next
    case True
    obtain r where s: "s = scheme @ '':'' @ r"
    proof -
      obtain a b where "s = a @ CHR '':'' # b" "CHR '':'' \<notin> set a" using True split_list_first by metis
      moreover have "takeWhile (\<lambda>c. c \<noteq> CHR '':'') (a @ CHR '':'' # b) = a" using calculation(2) by (intro takeWhile_upto) auto
      ultimately show ?thesis using that by (simp add: scheme_def)
    qed
    have view: "unparse v = s \<and> view_generic v \<and> CHR '':'' \<notin> set (v_scheme v) \<longleftrightarrow> split_uri scheme r = Inr v" for v
      unfolding s by (rule split_view [OF nc])
    have u0: "u_str ?u0 = scheme @ '':'' @ r" using s by simp
    note P = uri_parse_split [OF u0 nc conjunct2 [OF True]]
    show ?thesis
    proof (cases "split_uri scheme r")
      case (Inl e)
      then have "\<not> (unparse v = s \<and> view_generic v \<and> view_valid v)" for v
        using view [of v] valid_scheme_colon [of v] by auto
      moreover obtain u' where "uri_parse ?u0 = Inr u'" "u_err u' = e" using P Inl by auto
      moreover have "e \<noteq> URI_PARSE_OK" by (rule split_uri_error [OF Inl])
      ultimately show ?thesis by (auto simp: uri_new_def uri_valid_def)
    next
      case (Inr v)
      note V = view [of v, THEN iffD2, OF Inr]
      obtain k where "atoi (v_port v) = Inr k" using port V by blast
      then have "\<exists>n. port_number (v_port v) 0 = Inr n" by (simp add: port_number_def)
      then obtain n where n: "port_number (v_port v) 0 = Inr n" by blast
      obtain u1 where u1: "uri_parse ?u0 = parse_rest (u1\<lparr>u_port_num := n\<rparr>)" "represents u1 v"
        "u_err u1 = URI_PARSE_OK" "u_validate u1" "u_normalize u1" using P Inr n by auto
      have ne: "v_scheme v \<noteq> []" using True split_uri_generic [OF Inr] by simp
      obtain u' where u': "parse_rest (u1\<lparr>u_port_num := n\<rparr>) = Inr u'" "uri_valid u' \<longleftrightarrow> view_valid v"
        "view_valid v \<longrightarrow> represents u' (normal v) \<and> u_port_num u' = n"
        using parse_rest_view [of "u1\<lparr>u_port_num := n\<rparr>" v] u1 V ne by auto
      have uniq: "unparse w = s \<and> view_generic w \<and> view_valid w \<longleftrightarrow> w = v \<and> view_valid v" for w
        using view [of w] valid_scheme_colon [of w] Inr V by auto
      show ?thesis unfolding uniq using u1(1) u' n by (auto simp: uri_new_def)
    qed
  qed
qed

section \<open>What query_value finds\<close>

fun split_semi :: "string \<Rightarrow> string list" where
  "split_semi [] = [[]]"
| "split_semi (c # cs) = (if c = CHR '';'' then [] # split_semi cs
     else (c # hd (split_semi cs)) # tl (split_semi cs))"

text \<open>The value of the first parameter of that name.\<close>

definition first_param :: "string \<Rightarrow> string list \<Rightarrow> string" where
  "first_param param ps = (case find (\<lambda>p. CHR ''='' \<in> set p \<and> takeWhile (\<lambda>c. c \<noteq> CHR ''='') p = param) ps of
      None \<Rightarrow> []
    | Some p \<Rightarrow> drop (length param + 1) p)"

lemma split_semi_none: "CHR '';'' \<notin> set a \<Longrightarrow> split_semi a = [a]"
  by (induction a) auto

lemma split_semi_append: "CHR '';'' \<notin> set a \<Longrightarrow> split_semi (a @ CHR '';'' # b) = a # split_semi b"
  by (induction a) auto

lemma split_semi_hd: "hd (split_semi q) = takeWhile (\<lambda>c. c \<noteq> CHR '';'') q \<and> split_semi q \<noteq> []"
  by (induction q) auto

lemma split_semi_subset: "p \<in> set (split_semi q) \<Longrightarrow> set p \<subseteq> set q"
proof (induction q arbitrary: p)
  case (Cons c q)
  then show ?case using split_semi_hd [of q] set_takeWhileD [of _ "\<lambda>c. c \<noteq> CHR '';''" q]
    by (cases "split_semi q") (fastforce split: if_splits)+
qed simp

lemma first_param_Cons:
  "first_param param (p # ps) = (if CHR ''='' \<in> set p \<and> takeWhile (\<lambda>c. c \<noteq> CHR ''='') p = param
     then drop (length param + 1) p else first_param param ps)"
  by (simp add: first_param_def)

lemma find_text:
  assumes "x \<notin> set a"
  shows "find_from (\<lambda>c. c = x) (b @ a @ x # r) (length b) = Some (length b + length a)"
proof -
  have "takeWhile (\<lambda>c. c \<noteq> x) (a @ x # r) = a" using assms by (intro takeWhile_upto) auto
  then show ?thesis using find_from_append [of "\<lambda>c. c = x" b "a @ x # r"] by simp
qed

text \<open>A character that is not in the query is found behind it, or not at all.\<close>

lemma find_behind:
  assumes "x \<notin> set q" "find_from (\<lambda>c. c = x) (b @ q @ r) (length b) = Some k"
  shows "length b + length q + length (takeWhile (\<lambda>c. c \<noteq> x) r) = k"
proof -
  have "takeWhile (\<lambda>c. c \<noteq> x) (q @ r) = q @ takeWhile (\<lambda>c. c \<noteq> x) r" using assms(1) by (auto simp: takeWhile_append)
  then show ?thesis using assms(2) find_from_append [of "\<lambda>c. c = x" b "q @ r"] by (auto split: if_splits)
qed

lemma query_loop_end: "query_end \<le> p \<Longrightarrow> query_loop s query_end param p = Inr []"
  by (subst query_loop.simps) simp

lemma query_loop_correct:
  assumes "CHR ''#'' \<notin> set q" "r = [] \<or> hd r = CHR ''#''" "CHR '';'' \<notin> set param"
  shows "query_loop (b @ c # q @ r) (length b + 1 + length q) param (length b) = Inr (first_param param (split_semi q))"
  using assms(1)
proof (induction "length q" arbitrary: b c q rule: less_induct)
  case less
  let ?s = "b @ c # q @ r" and ?e = "length b + 1 + length q"
  have s: "?s = (b @ [c]) @ q @ r" and len: "length b + 1 = length (b @ [c])" by simp_all
  show ?case
  proof (cases "CHR ''='' \<in> set q")
    case False
    have "first_param param (split_semi q) = []"
      using False split_semi_subset [of _ q] by (auto simp: first_param_def find_None_iff split: option.split dest!: find_Some_in)
    moreover have "query_loop ?s ?e param (length b) = Inr []"
    proof (cases "find_from (\<lambda>c. c = CHR ''='') ?s (length b + 1)")
      case None
      then show ?thesis by (subst query_loop.simps) simp
    next
      case (Some k)
      from find_behind [OF False, of "b @ [c]" r k] Some have "k = ?e + length (takeWhile (\<lambda>c. c \<noteq> CHR ''='') r)" by simp
      moreover have "r \<noteq> []"
        using Some find_from_append [of "\<lambda>c. c = CHR ''=''" "b @ [c]" "q @ r"] False by (auto split: if_splits)
      then have "takeWhile (\<lambda>c. c \<noteq> CHR ''='') r \<noteq> []" using assms(2) by (cases r) auto
      ultimately have "?e < k" by simp
      with Some show ?thesis by (subst query_loop.simps) simp
    qed
    ultimately show ?thesis by simp
  next
    case True
    then obtain a t where q: "q = a @ CHR ''='' # t" and a: "CHR ''='' \<notin> set a" by (metis split_list_first)
    have f: "find_from (\<lambda>c. c = CHR ''='') ?s (length b + 1) = Some (length b + 1 + length a)"
      using find_text [OF a, of "b @ [c]" "t @ r"] q by simp
    have name: "str_sub ?s (length b + 1) (length a) = Inr a"
      using str_sub_append [of "b @ [c]" a "CHR ''='' # t @ r"] q by simp
    have at: "str_at ?s (length b + 1 + length a) = Inr CHR ''=''"
      using str_at_append [of "b @ c # a" "CHR ''=''" "t @ r"] q by simp
    have tw: "takeWhile (\<lambda>c. c \<noteq> CHR ''='') (a @ CHR ''='' # x) = a" for x using a by (intro takeWhile_upto) auto
    show ?thesis
    proof (cases "a = param")
      case True
      let ?v = "takeWhile (\<lambda>c. c \<noteq> CHR '';'') t"
      have "takeWhile (\<lambda>c. c \<noteq> CHR '';'') q = param @ CHR ''='' # ?v"
        using assms(3) True q by (auto simp: takeWhile_append)
      then have sp: "split_semi q = (param @ CHR ''='' # ?v) # tl (split_semi q)"
        using split_semi_hd [of q] by (metis list.collapse)
      have "first_param param (split_semi q) = ?v" using tw True by (subst sp) (simp add: first_param_Cons)
      moreover have tv: "takeWhile (\<lambda>c. \<not> (c = CHR '';'' \<or> c = CHR ''#'')) (t @ r) = ?v"
      proof -
        let ?P = "\<lambda>c. \<not> (c = CHR '';'' \<or> c = CHR ''#'')"
        have h: "CHR ''#'' \<notin> set t" using less.prems q by simp
        have r: "takeWhile ?P r = []" using assms(2) by (cases r) auto
        have t: "takeWhile ?P t = ?v" using h by (intro takeWhile_cong) auto
        show ?thesis
        proof (cases "CHR '';'' \<in> set t")
          case True
          then show ?thesis using takeWhile_append1 [of "CHR '';''" t ?P r] t by simp
        next
          case False
          then have "takeWhile ?P (t @ r) = t @ takeWhile ?P r" using h by (intro takeWhile_append2) auto
          then have t1: "takeWhile ?P (t @ r) = t" unfolding r by simp
          have t2: "?v = t" using False by (subst takeWhile_eq_all_conv) auto
          show ?thesis by (rule trans [OF t1 t2 [symmetric]])
        qed
      qed
      have pre: "?s = (b @ c # a @ ''='') @ t @ r" "length b + 1 + length a + 1 = length (b @ c # a @ ''='')" using q by simp_all
      have "find_end (\<lambda>c. c = CHR '';'' \<or> c = CHR ''#'') ?s (length b + 1 + length a + 1) = length b + 1 + length a + 1 + length ?v"
        unfolding pre find_end_append tv ..
      moreover have "str_sub ?s (length b + 1 + length a + 1) (length ?v) = Inr ?v"
      proof -
        have "t @ r = ?v @ dropWhile (\<lambda>c. c \<noteq> CHR '';'') t @ r" by simp
        then show ?thesis unfolding pre using str_sub_append [of "b @ c # a @ ''=''" ?v "dropWhile (\<lambda>c. c \<noteq> CHR '';'') t @ r"]
          by (metis append.assoc takeWhile_dropWhile_id)
      qed
      ultimately show ?thesis using f name at True q by (subst query_loop.simps) (simp add: add.assoc)
    next
      case False
      show ?thesis
      proof (cases "CHR '';'' \<in> set q")
        case True
        then obtain p d where q2: "q = p @ CHR '';'' # d" and p: "CHR '';'' \<notin> set p" by (metis split_list_first)
        have g: "find_from (\<lambda>c. c = CHR '';'') ?s (length b + 1) = Some (length b + 1 + length p)"
          using find_text [OF p, of "b @ [c]" "d @ r"] q2 by simp
        have ih: "query_loop ?s ?e param (length b + 1 + length p) = Inr (first_param param (split_semi d))"
          using less.hyps [of d "b @ c # p"] less.prems q2 by (simp add: add.assoc)
        have nm: "(CHR ''='' \<in> set p \<and> takeWhile (\<lambda>c. c \<noteq> CHR ''='') p = param) = False"
        proof (rule eq_False [THEN iffD2, OF notI])
          assume e: "CHR ''='' \<in> set p \<and> takeWhile (\<lambda>c. c \<noteq> CHR ''='') p = param"
          then obtain a2 t2 where "p = a2 @ CHR ''='' # t2" "CHR ''='' \<notin> set a2" by (metis split_list_first)
          moreover have "takeWhile (\<lambda>c. c \<noteq> CHR ''='') (a2 @ CHR ''='' # x) = a2" for x
            using calculation(2) by (intro takeWhile_upto) auto
          ultimately have "takeWhile (\<lambda>c. c \<noteq> CHR ''='') q = param" using e q2 by (metis append.assoc append_Cons)
          then show False using tw q False by simp
        qed
        have "first_param param (split_semi q) = first_param param (split_semi d)"
          unfolding q2 split_semi_append [OF p] first_param_Cons nm by (simp only: if_False)
        moreover have "length b + 1 + length a < ?e" using q by simp
        ultimately show ?thesis using f name False g ih by (subst query_loop.simps) simp
      next
        case noq: False
        then have "first_param param (split_semi q) = []"
          unfolding split_semi_none [OF noq] first_param_Cons using tw q False by (simp add: first_param_def)
        moreover have "length b + 1 + length q \<le> k" if "find_from (\<lambda>c. c = CHR '';'') ?s (length b + 1) = Some k" for k
          using find_behind [OF noq, of "b @ [c]" r k] that by simp
        ultimately show ?thesis using f name False q by (subst query_loop.simps) (auto simp: query_loop_end split: option.split)
      qed
    qed
  qed
qed

section \<open>Properties\<close>

text \<open>
  Property C1. URI.cc:40-90 with all it calls: a URI that is built from any string with
  validation and normalization on, and whose port if it has one fits an int, is parsed without
  a failed assertion and without reading outside the string. It is found valid if and only if
  the string is a URI of RFC 3986 (with MAC addresses as hosts of the scheme eth), and then its
  offsets and lengths are those of the components, each normalised.
\<close>

theorem uri_parse_correct:
  assumes "\<And>v. unparse v = s \<Longrightarrow> view_generic v \<Longrightarrow> CHR '':'' \<notin> set (v_scheme v) \<Longrightarrow> \<exists>n. atoi (v_port v) = Inr n"
  shows "\<exists>u. uri_new s True True = Inr u \<and>
    (uri_valid u \<longleftrightarrow> (\<exists>v. unparse v = s \<and> view_generic v \<and> view_valid v)) \<and>
    (\<forall>v. unparse v = s \<and> view_generic v \<and> view_valid v \<longrightarrow>
      represents u (normal v) \<and> port_number (v_port v) 0 = Inr (u_port_num u))"
  using uri_new_parse [OF assms] by blast

lemma demo_valid: "view_valid demo_view"
  by (simp add: view_valid_def demo_view_def host_valid_def scheme_valid_def scheme_char_def is_alpha_def is_upper_def
    is_lower_def is_alnum_def pct_string_Cons path_char_def host_char_def query_char_def is_unreserved_def)

lemma atoi_empty: "atoi [] = Inr 0"
  by (simp add: atoi_def digits_val_def Let_def)

lemma demo_split: "split_uri ''http'' ''//example.org/a?b'' = Inr demo_view"
  using split_view [of "''http''" demo_view "''//example.org/a?b''"] demo_generic
  by (simp add: demo_view_def unparse_def v_ssp_def v_authority_def)

lemma uri_parse_correct_witness:
  "\<exists>u. uri_new ''http://example.org/a?b'' True True = Inr u \<and> uri_valid u \<and> comp_str u_host u = Inr ''example.org''"
proof -
  have "\<exists>n. atoi (v_port v) = Inr n" if "unparse v = ''http://example.org/a?b''" "view_generic v" "CHR '':'' \<notin> set (v_scheme v)" for v
  proof -
    have "split_uri ''http'' ''//example.org/a?b'' = Inr v"
      using split_view [of "''http''" v "''//example.org/a?b''"] that by simp
    then have "v = demo_view" using demo_split by simp
    then show ?thesis by (simp add: demo_view_def atoi_empty)
  qed
  from uri_parse_correct [OF this] obtain u where u: "uri_new ''http://example.org/a?b'' True True = Inr u"
    "uri_valid u \<longleftrightarrow> (\<exists>v. unparse v = ''http://example.org/a?b'' \<and> view_generic v \<and> view_valid v)"
    "\<And>v. unparse v = ''http://example.org/a?b'' \<Longrightarrow> view_generic v \<Longrightarrow> view_valid v \<Longrightarrow> represents u (normal v)" by blast
  have d: "unparse demo_view = ''http://example.org/a?b''" by (simp add: demo_view_def unparse_def v_ssp_def v_authority_def)
  have r: "represents u (normal demo_view)" by (rule u(3) [OF d demo_generic demo_valid])
  have "v_host (normal demo_view) = ''example.org''"
    by (simp add: normal_def demo_view_def to_lower_def is_upper_def)
  then show ?thesis using u(1,2) d demo_generic demo_valid comp_str_views(3) [OF r] by auto
qed

lemma set_ssp_parses:
  assumes "represents u v" "u_err u = URI_PARSE_OK"
  shows "set_ssp t u = uri_parse (u\<lparr>u_str := v_scheme v @ '':'' @ t\<rparr>)"
proof -
  have "part_get Ssp u = located_in v Ssp" "u_str u = unparse v" using assms(1) unfolding represents_def by blast+
  then have "str_replace (u_str u) (c_off (u_ssp u)) (c_len (u_ssp u)) t = Inr (v_scheme v @ '':'' @ t)"
    using str_replace_append [of "v_scheme v @ '':''" "v_ssp v" "[]" t] by (simp add: located_in_def unparse_def)
  then show ?thesis using assms(2) by (simp add: set_ssp_def)
qed

text \<open>What a setter leaves alone when it sets the number of the port.\<close>

definition same_but_port :: "uri \<Rightarrow> uri \<Rightarrow> bool" where
  "same_but_port u u' \<longleftrightarrow> same_rest (u\<lparr>u_port_num := u_port_num u'\<rparr>) u'"

lemma set_port_view:
  assumes "represents u v" "u_err u = URI_PARSE_OK" "v_colon v \<noteq> []" "atoi t = Inr n"
  shows "\<exists>u'. set_port t u = Inr u' \<and> represents u' (v\<lparr>v_port := t\<rparr>) \<and> u_port_num u' = of_int n \<and> same_but_port u u'"
proof -
  obtain u1 where u1: "set_part Port [Ssp, Authority, Port] [Path, Query, Fragment] t u = Inr u1"
      "represents u1 (v\<lparr>v_port := t\<rparr>)" "same_rest u u1" using set_port_part_view [OF assms(1-3)] by blast
  have get: "part_get q (u1\<lparr>u_port_num := m\<rparr>) = part_get q u1" for q m by (cases q) simp_all
  show ?thesis using u1 assms(4)
    by (intro exI [of _ "u1\<lparr>u_port_num := of_int n\<rparr>"]) (simp add: set_port_def represents_def get same_rest_def same_but_port_def)
qed

lemma set_authority_view:
  assumes "represents u v" "u_err u = URI_PARSE_OK" "t = [] \<or> take 2 t = ''//''" "split_parts (v_scheme v) t = Inr p"
    "port_number (v_port (with_authority t p v)) (u_port_num u) = Inr n"
  shows "\<exists>u'. set_authority t u = Inr u' \<and> represents u' (with_authority t p v) \<and> u_port_num u' = n \<and> same_but_port u u'"
proof -
  obtain u1 where u1: "set_authority t u = Inr (u1\<lparr>u_port_num := n\<rparr>)" "represents u1 (with_authority t p v)" "same_rest u u1"
    using set_authority_general [OF assms(1-3)] assms(4,5) by auto
  have get: "part_get q (u1\<lparr>u_port_num := m\<rparr>) = part_get q u1" for q m by (cases q) simp_all
  show ?thesis using u1
    by (intro exI [of _ "u1\<lparr>u_port_num := n\<rparr>"]) (simp add: represents_def get same_rest_def same_but_port_def)
qed

text \<open>
  Property C20. URI.cc:1394-1570: what each of the nine setters does to a URI that was parsed well and whose offsets and lengths
  are those of its components. Setting the scheme, path, query or fragment succeeds, and the URI afterwards is the one with
  that component replaced: its string is put together from the new components and every offset and length is right
  again. So does setting the userinfo or the host of a URI with an authority, and the port of one with a colon before its port (without
  one it does not, \<open>set_port_without_colon\<close>) to a text whose number fits an int, which also becomes \<open>port_num_\<close>. An authority that is empty or begins with two slashes, can be
  taken apart and has no port or one that fits an int replaces the old one with all its parts. \<open>set_ssp\<close> parses the URI with its
  new scheme-specific part from the beginning.
\<close>

theorem setters_refine:
  assumes "represents u v" "u_err u = URI_PARSE_OK"
  shows "(\<exists>u'. set_scheme t u = Inr u' \<and> represents u' (v\<lparr>v_scheme := t\<rparr>) \<and> same_rest u u') \<and>
    (\<exists>u'. set_path t u = Inr u' \<and> represents u' (v\<lparr>v_path := t\<rparr>) \<and> same_rest u u') \<and>
    (\<exists>u'. set_query t u = Inr u' \<and> represents u' (v\<lparr>v_query := t\<rparr>) \<and> same_rest u u') \<and>
    (\<exists>u'. set_fragment t u = Inr u' \<and> represents u' (v\<lparr>v_fragment := t\<rparr>) \<and> same_rest u u') \<and>
    (v_slashes v \<noteq> [] \<longrightarrow> (\<exists>u'. set_userinfo t u = Inr u' \<and> represents u' (v\<lparr>v_userinfo := t\<rparr>) \<and> same_rest u u')) \<and>
    (v_slashes v \<noteq> [] \<longrightarrow> (\<exists>u'. set_host t u = Inr u' \<and> represents u' (v\<lparr>v_host := t\<rparr>) \<and> same_rest u u')) \<and>
    (\<forall>n. v_colon v \<noteq> [] \<and> atoi t = Inr n \<longrightarrow>
       (\<exists>u'. set_port t u = Inr u' \<and> represents u' (v\<lparr>v_port := t\<rparr>) \<and> u_port_num u' = of_int n \<and> same_but_port u u')) \<and>
    (\<forall>p n. (t = [] \<or> take 2 t = ''//'') \<and> split_parts (v_scheme v) t = Inr p \<and>
         port_number (v_port (with_authority t p v)) (u_port_num u) = Inr n \<longrightarrow>
       (\<exists>u'. set_authority t u = Inr u' \<and> represents u' (with_authority t p v) \<and> u_port_num u' = n \<and> same_but_port u u')) \<and>
    set_ssp t u = uri_parse (u\<lparr>u_str := v_scheme v @ '':'' @ t\<rparr>)"
  using set_port_view [OF assms] set_authority_view [OF assms] set_ssp_parses [OF assms]
  by (intro conjI impI allI scheme_setter.set_view path_setter.set_view query_setter.set_view fragment_setter.set_view
      userinfo_setter.set_view host_setter.set_view assms TrueI) blast+

lemma setters_refine_witness:
  "\<exists>u1 u2 u3. set_path ''/index'' demo_uri = Inr u1 \<and> u_str u1 = ''http://example.org/index?b'' \<and>
    set_host ''h'' demo_uri = Inr u2 \<and> u_str u2 = ''http://h/a?b'' \<and>
    set_authority ''//h:80'' demo_uri = Inr u3 \<and> u_str u3 = ''http://h:80/a?b'' \<and> u_port_num u3 = 80"
proof -
  have e: "u_err demo_uri = URI_PARSE_OK" by (simp add: demo_uri_def)
  have s: "split_parts (v_scheme demo_view) ''//h:80'' = Inr ([], ''h'', '':'', ''80'')"
    by (simp add: split_parts_def split_userinfo_def split_host_def demo_view_def Let_def)
  have n: "port_number (v_port (with_authority ''//h:80'' ([], ''h'', '':'', ''80'') demo_view)) (u_port_num demo_uri) = Inr 80"
    by (simp add: with_authority_def port_number_def atoi_def Let_def is_space_def is_digit_def digits_val_def)
  from setters_refine [OF demo_represents e, of "''//h:80''"] s n obtain u3 where
    "set_authority ''//h:80'' demo_uri = Inr u3" "represents u3 (with_authority ''//h:80'' ([], ''h'', '':'', ''80'') demo_view)"
    "u_port_num u3 = 80" by fastforce
  moreover from setters_refine [OF demo_represents e, of "''/index''"] obtain u1 where
    "set_path ''/index'' demo_uri = Inr u1" "represents u1 (demo_view\<lparr>v_path := ''/index''\<rparr>)" by blast
  moreover have "v_slashes demo_view \<noteq> []" by (simp add: demo_view_def)
  with setters_refine [OF demo_represents e, of "''h''"] obtain u2 where
    "set_host ''h'' demo_uri = Inr u2" "represents u2 (demo_view\<lparr>v_host := ''h''\<rparr>)" by blast
  ultimately show ?thesis by (auto simp: represents_def view_defs demo_view_def with_authority_def)
qed

text \<open>
  Property C34. The loops of URI.cc:517-567, 570-617, 999-1047 and those of the query and the fragment: decoding a component whose percent signs each
  come with two hexadecimal digits fails no assertion, leaves the octets it stands for as they
  are and all its characters allowed, and decoding the result once more changes nothing.
\<close>

theorem decode_correct:
  assumes "pct_wf s" "\<not> allowed CHR ''%''"
  shows "\<exists>d r. decode_loop allowed [] s = Inr (d, r) \<and> octets (d @ r) = octets s \<and>
    (pct_string allowed s \<longrightarrow> pct_string allowed (d @ r)) \<and>
    (\<exists>d' r'. decode_loop allowed [] (d @ r) = Inr (d', r') \<and> d' @ r' = d @ r)"
proof -
  obtain d r where d: "decode_loop allowed [] s = Inr (d, r)" "d @ r = pct_decode allowed s"
    using decode_loop_eq [OF assms(1), of allowed "[]"] by auto
  moreover have "pct_wf (d @ r)" unfolding d(2) by (rule pct_decode_wf [of s allowed, OF assms])
  from decode_loop_eq [OF this, of allowed "[]"] have
    "\<exists>d' r'. decode_loop allowed [] (d @ r) = Inr (d', r') \<and> d' @ r' = pct_decode allowed (d @ r)" by auto
  ultimately show ?thesis using octets_decode [of s allowed, OF assms] decode_idem [of s allowed, OF assms] pct_decode_string [of allowed s] assms(2) by auto
qed

lemma decode_correct_witness:
  "\<exists>d r. decode_loop path_decoded [] ''%7euser%2f'' = Inr (d, r) \<and> octets (d @ r) = octets ''%7euser%2f''"
proof -
  have "pct_wf ''%7euser%2f''" by (simp add: pct_wf_def pct_string_Cons is_hexdig_def is_digit_def)
  moreover have "\<not> path_decoded CHR ''%''"
    by (simp add: path_decoded_def is_unreserved_def is_sub_delim_def is_alnum_def is_alpha_def is_upper_def is_lower_def is_digit_def)
  ultimately show ?thesis using decode_correct by blast
qed

text \<open>
  Property C33. URI.cc:918-985: the loop of normalize_path and the code behind it remove the dot
  segments of any path as the routine of RFC 3986, section 5.2.4, does.
\<close>

theorem dot_segments_rfc:
  "fst (case dot_loop path 0 False of (path1, modified1) \<Rightarrow> dot_end path1 modified1) = remove_dots path []"
  using dots_removed_correct [of path] by (simp add: dots_removed_def)

text \<open>
  A divergence. URI.cc:909-990: normalization can change what a URI means, since nothing is put
  before a path that begins with two slashes after the dot segments are gone: x:/.//a, which
  has no authority, becomes x://a, whose authority is a. The offsets still say that there is no authority.
\<close>

lemma normalize_makes_authority:
  "(case uri_new ''x:/.//a'' True True of Inr u \<Rightarrow>
      uri_valid u \<and> u_str u = ''x://a'' \<and> comp_str u_path u = Inr ''//a'' | Inl f \<Rightarrow> False) \<and>
   (case uri_new ''x://a'' True True of Inr u \<Rightarrow>
      uri_valid u \<and> comp_str u_host u = Inr ''a'' \<and> comp_str u_path u = Inr [] | Inl f \<Rightarrow> False)"
  by code_simp

text \<open>
  A divergence. URI.cc:520-533: with normalization but not validation on, a percent sign with no
  two characters after it fails an assertion, and one with no hexadecimal digit after it is
  decoded from a variable that was never set.
\<close>

lemma decode_unvalidated:
  "uri_new ''x:%'' False True = Inl Assert_failed \<and> uri_new ''x:%zz'' False True = Inl Undefined"
  by code_simp

text \<open>
  Also. URI.cc:1574-1620: query_value returns the value of the first of the parameters, which are separated by
  semicolons, that has the name asked for and an equals sign, and the empty string if
  there is none. It never reads a parameter from the fragment and never runs out of the string.
\<close>

theorem query_value_first:
  assumes "represents u v" "view_generic v" "u_err u = URI_PARSE_OK" "CHR '';'' \<notin> set param"
  shows "query_value param u = Inr (first_param param (split_semi (tl (v_query v))))"
proof (cases "v_query v")
  case Nil
  then have "c_len (u_query u) = 0" using part_lens [OF assms(1)] by simp
  then show ?thesis using assms(3) Nil by (simp add: query_value_def first_param_def)
next
  case (Cons c q)
  note G = assms(2) [unfolded view_generic_def]
  have c: "c = CHR ''?''" "CHR ''#'' \<notin> set q" using G Cons by auto
  let ?b = "part_before Query v"
  have s: "u_str u = ?b @ c # q @ v_fragment v" using assms(1) Cons by (simp add: represents_def view_defs)
  have "u_query u = located_in v Query" using assms(1) unfolding represents_def by (metis part_get.simps(8))
  then have l: "c_off (u_query u) = length ?b" "c_len (u_query u) = 1 + length q"
    using Cons by (simp_all add: located_in_def located_def del: part_before.simps)
  have "str_at (u_str u) (length ?b) = Inr CHR ''?''" unfolding s c(1) by (rule str_at_append)
  moreover have "query_loop (u_str u) (length ?b + 1 + length q) param (length ?b) = Inr (first_param param (split_semi q))"
    unfolding s using c(2) assms(4) G by (intro query_loop_correct) auto
  ultimately show ?thesis using assms(3) Cons l by (simp add: query_value_def add.assoc del: part_before.simps)
qed

lemma query_value_first_witness:
  "\<exists>u. set_query ''?foo=bar;bar=baz'' demo_uri = Inr u \<and> query_value ''bar'' u = Inr ''baz''"
proof -
  let ?v = "demo_view\<lparr>v_query := ''?foo=bar;bar=baz''\<rparr>"
  have e: "u_err demo_uri = URI_PARSE_OK" by (simp add: demo_uri_def)
  obtain u where u: "set_query ''?foo=bar;bar=baz'' demo_uri = Inr u" "represents u ?v" "same_rest demo_uri u"
    using query_setter.set_view [OF demo_represents e TrueI] by blast
  have "view_generic ?v" using demo_generic by (simp add: view_generic_def view_wf_def v_authority_def)
  moreover have "u_err u = URI_PARSE_OK" using u(3) e by (simp add: same_rest_def)
  ultimately have "query_value ''bar'' u = Inr (first_param ''bar'' (split_semi ''foo=bar;bar=baz''))"
    using query_value_first [OF u(2), of "''bar''"] by simp
  moreover have "first_param ''bar'' (split_semi ''foo=bar;bar=baz'') = ''baz''" by code_simp
  ultimately have "query_value ''bar'' u = Inr ''baz''" by (simp only:)
  with u(1) show ?thesis by blast
qed

end
