(* ===== verification/KeySerialize.thy ===== *)
theory KeySerialize
  imports Marshal
begin

text \<open>
  serialize/KeySerialize.cc: objects as text that can be a key or a file name. Numbers are
  written in hexadecimal with a fixed number of digits, strings as they are, behind their
  length where it varies, and a border ends every field. The counters \<open>cur_\<close> and \<open>buf_len_\<close> of the
  reader are 32-bit words. \<open>malloc\<close> always succeeds.
\<close>

section \<open>Printing and reading hexadecimal numbers\<close>

definition hexd :: "nat \<Rightarrow> byte" where
  "hexd n = (if n < 10 then of_nat (48 + n) else of_nat (87 + n))"

fun hex_min :: "nat \<Rightarrow> bytes" where
  "hex_min n = (if n < 16 then [hexd n] else hex_min (n div 16) @ [hexd (n mod 16)])"

declare hex_min.simps [simp del]

text \<open>What \<open>snprintf\<close> makes of \<open>%8x\<close> (with a blank as padding), \<open>%08x\<close> (with a zero) and the like.\<close>

definition print_hex :: "byte \<Rightarrow> nat \<Rightarrow> nat \<Rightarrow> bytes" where
  "print_hex pad width n = replicate (width - length (hex_min n)) pad @ hex_min n"

definition is_hexb :: "byte \<Rightarrow> bool" where
  "is_hexb b \<longleftrightarrow> (48 \<le> b \<and> b \<le> 57) \<or> (65 \<le> b \<and> b \<le> 70) \<or> (97 \<le> b \<and> b \<le> 102)"

definition hexv :: "byte \<Rightarrow> nat" where
  "hexv b = (if b \<le> 57 then unat b - 48 else if b \<le> 70 then unat b - 55 else unat b - 87)"

text \<open>
  \<open>strtoull(s, &endptr, 16)\<close> of a C string: white space, a sign, a prefix, digits. At most sixteen digits
  are ever read here, so the value does not overflow.
\<close>

definition strtoul16 :: "bytes \<Rightarrow> u64" where
  "strtoul16 t = (let s = dropWhile (\<lambda>b. b = 32 \<or> (9 \<le> b \<and> b \<le> 13)) (takeWhile (\<lambda>b. b \<noteq> 0) t);
       neg = (s \<noteq> [] \<and> hd s = 45);
       s1 = (if s \<noteq> [] \<and> (hd s = 45 \<or> hd s = 43) then tl s else s);
       s2 = (if take 2 s1 = [48, 120] \<or> take 2 s1 = [48, 88] then drop 2 s1 else s1);
       v = of_nat (foldl (\<lambda>n b. 16 * n + hexv b) 0 (takeWhile is_hexb s2))
     in if neg then - v else v)"

section \<open>Objects\<close>

text \<open>
  The calls that an object makes to \<open>process\<close>, with the ones on fields that are objects themselves: both actions override
  \<open>process(name, SerializableObject*)\<close>, so that such a field is a tree of its own, with the result \<open>None\<close> when it is not
  visited. Objects of several classes have their results in one type \<open>'o\<close>.
\<close>

datatype 'o kvisit = KDone 'o | KField string field "field \<Rightarrow> 'o kvisit" | KObject string "'o kvisit" "'o option \<Rightarrow> 'o kvisit"

section \<open>KeyMarshal\<close>

record 'b key_marshal =
  km_buf :: 'b
  km_border :: "bytes option"
  km_error :: bool

definition km_init :: "'b \<Rightarrow> bytes option \<Rightarrow> 'b key_marshal" where
  "km_init buf border = \<lparr>km_buf = buf, km_border = border, km_error = False\<rparr>"

text \<open>\<open>reserve\<close>, then writing at \<open>end()\<close>, then raising the length by \<open>n\<close>.\<close>

definition km_append :: "(nat \<Rightarrow> 'a ebuf_scheme \<Rightarrow> 'a ebuf_scheme run) \<Rightarrow> nat \<Rightarrow> bytes \<Rightarrow> nat \<Rightarrow>
    ('a ebuf_scheme) key_marshal \<Rightarrow> ('a ebuf_scheme) key_marshal run" where
  "km_append reserve room data n s = bind_run (reserve room (km_buf s)) (\<lambda>b1.
     bind_run (eb_write_end data b1) (\<lambda>b2.
     bind_run (eb_set_len (eb_len b2 + n) b2) (\<lambda>b3. Inr (s\<lparr>km_buf := b3\<rparr>))))"

text \<open>\<open>process_int\<close> and \<open>process_int64\<close>: \<open>text\<close> is what the format makes of the number.\<close>

definition km_int :: "(nat \<Rightarrow> 'a ebuf_scheme \<Rightarrow> 'a ebuf_scheme run) \<Rightarrow> bytes \<Rightarrow> nat \<Rightarrow>
    ('a ebuf_scheme) key_marshal \<Rightarrow> ('a ebuf_scheme) key_marshal run" where
  "km_int reserve txt width s =
     (if km_error s then Inr s
      else bind_run (reserve (eb_len (km_buf s) + width + 1) (km_buf s)) (\<lambda>b1.
        bind_run (eb_write_end (take width txt @ [0]) b1) (\<lambda>b2.
        bind_run (assert_run (length txt = width)) (\<lambda>_.
        bind_run (eb_set_len (eb_len b2 + width) b2) (\<lambda>b3. Inr (s\<lparr>km_buf := b3\<rparr>))))))"

definition km_put_border :: "(nat \<Rightarrow> 'a ebuf_scheme \<Rightarrow> 'a ebuf_scheme run) \<Rightarrow>
    ('a ebuf_scheme) key_marshal \<Rightarrow> ('a ebuf_scheme) key_marshal run" where
  "km_put_border reserve s = (case km_border s of
      None \<Rightarrow> Inr s
    | Some border \<Rightarrow> if km_error s then Inr s else km_append reserve (length border) border (length border) s)"

text \<open>Bytes from memory: \<open>reserve(len() + n)\<close> and \<open>memcpy\<close>.\<close>

definition km_mem :: "(nat \<Rightarrow> 'a ebuf_scheme \<Rightarrow> 'a ebuf_scheme run) \<Rightarrow> bytes \<Rightarrow> nat \<Rightarrow>
    ('a ebuf_scheme) key_marshal \<Rightarrow> ('a ebuf_scheme) key_marshal run" where
  "km_mem reserve src n s =
     (if n \<le> length src then km_append reserve (eb_len (km_buf s) + n) (take n src) n s else Inl Undefined)"

text \<open>
  \<open>%16x\<close> takes an \<open>unsigned int\<close> but gets a 64-bit argument, for which C++ does not say what is printed;
  where arguments are passed in 64-bit registers or slots, the low 32 bits are.
\<close>

definition km_carrier :: "(nat \<Rightarrow> 'a ebuf_scheme \<Rightarrow> 'a ebuf_scheme run) \<Rightarrow> carrier \<Rightarrow>
    ('a ebuf_scheme) key_marshal \<Rightarrow> ('a ebuf_scheme) key_marshal run" where
  "km_carrier reserve c s =
     (if km_error s then Inr s
      else bind_run (km_int reserve (print_hex 48 8 (unat (of_nat (car_len c) :: u32))) 8 s) (\<lambda>s1.
        bind_run (km_mem reserve (car_mem c) (car_len c) s1) (km_put_border reserve)))"

fun km_process :: "(nat \<Rightarrow> 'a ebuf_scheme \<Rightarrow> 'a ebuf_scheme run) \<Rightarrow> ('a ebuf_scheme) key_marshal \<Rightarrow> string \<Rightarrow> field \<Rightarrow>
    (('a ebuf_scheme) key_marshal \<times> field) run" where
  "km_process reserve s name (U64 i) =
     bind_run (bind_run (km_int reserve (print_hex 32 16 (unat (ucast i :: u32))) 16 s) (km_put_border reserve)) (\<lambda>s1. Inr (s1, U64 i))"
| "km_process reserve s name (U32 i) =
     bind_run (bind_run (km_int reserve (print_hex 48 8 (unat i)) 8 s) (km_put_border reserve)) (\<lambda>s1. Inr (s1, U32 i))"
| "km_process reserve s name (U16 i) =
     bind_run (bind_run (km_int reserve (print_hex 48 4 (unat i)) 4 s) (km_put_border reserve)) (\<lambda>s1. Inr (s1, U16 i))"
| "km_process reserve s name (U8 i) =
     bind_run (bind_run (km_int reserve (print_hex 48 2 (unat i)) 2 s) (km_put_border reserve)) (\<lambda>s1. Inr (s1, U8 i))"
| "km_process reserve s name (Bool b) =
     bind_run (bind_run (km_int reserve [if b then 49 else 48] 1 s) (km_put_border reserve)) (\<lambda>s1. Inr (s1, Bool b))"
| "km_process reserve s name (Bytes bs) =
     (if km_error s then Inr (s, Bytes bs)
      else bind_run (bind_run (km_mem reserve bs (length bs) s) (km_put_border reserve)) (\<lambda>s1. Inr (s1, Bytes bs)))"
| "km_process reserve s name (Carrier c) = bind_run (km_carrier reserve c s) (\<lambda>s1. Inr (s1, Carrier c))"
| "km_process reserve s name (Term c t) =
     (if km_error s then Inr (s, Term c t)
      else bind_run (car_scan c t) (\<lambda>n. let c1 = car_set_len n c
        in bind_run (km_carrier reserve c1 s) (\<lambda>s1. Inr (s1, Term c1 t))))"
| "km_process reserve s name (Str str) =
     (if km_error s then Inr (s, Str str)
      else bind_run (km_int reserve (print_hex 48 8 (unat (of_nat (length str) :: u32))) 8 s) (\<lambda>s1.
        bind_run (bind_run (km_mem reserve str (length str) s1) (km_put_border reserve)) (\<lambda>s2. Inr (s2, Str str))))"

definition km_end_action :: "(nat \<Rightarrow> 'a ebuf_scheme \<Rightarrow> 'a ebuf_scheme run) \<Rightarrow>
    ('a ebuf_scheme) key_marshal \<Rightarrow> ('a ebuf_scheme) key_marshal run" where
  "km_end_action reserve s = bind_run (reserve 1 (km_buf s)) (\<lambda>b1.
     bind_run (eb_write_end [0] b1) (\<lambda>b2. Inr (s\<lparr>km_buf := b2\<rparr>)))"

text \<open>\<open>SerializeAction::action\<close> on an object that makes the calls \<open>visit\<close>.\<close>

definition km_action :: "(nat \<Rightarrow> 'a ebuf_scheme \<Rightarrow> 'a ebuf_scheme run) \<Rightarrow>
    (('a ebuf_scheme) key_marshal \<Rightarrow> (('a ebuf_scheme) key_marshal \<times> 'o) run) \<Rightarrow> ('a ebuf_scheme) key_marshal \<Rightarrow>
    (int \<times> ('a ebuf_scheme) key_marshal \<times> 'o) run" where
  "km_action reserve visit s =
     bind_run (visit (s\<lparr>km_error := False\<rparr>)) (\<lambda>(s1, r).
     bind_run (km_end_action reserve s1) (\<lambda>s2.
     Inr (if km_error s2 then - 1 else 0, s2, r)))"

text \<open>A field that is an object: a whole action of its own, and a border. \<open>None\<close> if it was not visited.\<close>

definition km_object :: "(nat \<Rightarrow> 'a ebuf_scheme \<Rightarrow> 'a ebuf_scheme run) \<Rightarrow>
    (('a ebuf_scheme) key_marshal \<Rightarrow> (('a ebuf_scheme) key_marshal \<times> 'o) run) \<Rightarrow> ('a ebuf_scheme) key_marshal \<Rightarrow>
    (('a ebuf_scheme) key_marshal \<times> 'o option) run" where
  "km_object reserve visit s =
     (if km_error s then Inr (s, None)
      else bind_run (km_action reserve visit s) (\<lambda>(err, s1, r).
        bind_run (km_put_border reserve (if err \<noteq> 0 then s1\<lparr>km_error := True\<rparr> else s1)) (\<lambda>s2. Inr (s2, Some r))))"

primrec km_visit :: "(nat \<Rightarrow> 'a ebuf_scheme \<Rightarrow> 'a ebuf_scheme run) \<Rightarrow> 'o kvisit \<Rightarrow> ('a ebuf_scheme) key_marshal \<Rightarrow>
    (('a ebuf_scheme) key_marshal \<times> 'o) run" where
  "km_visit reserve (KDone x) s = Inr (s, x)"
| "km_visit reserve (KField name f k) s = bind_run (km_process reserve s name f) (\<lambda>(s1, f1). km_visit reserve (k f1) s1)"
| "km_visit reserve (KObject name v k) s =
     bind_run (km_object reserve (km_visit reserve v) s) (\<lambda>(s1, r). km_visit reserve (k r) s1)"

section \<open>KeyUnmarshal\<close>

record key_unmarshal =
  ku_buf :: bytes
  ku_buf_len :: u32
  ku_border_len :: u32
  ku_cur :: u32
  ku_error :: bool

definition ku_init :: "bytes \<Rightarrow> u32 \<Rightarrow> bytes option \<Rightarrow> key_unmarshal" where
  "ku_init buf buf_len border = \<lparr>ku_buf = buf, ku_buf_len = buf_len,
     ku_border_len = (case border of None \<Rightarrow> 0 | Some b \<Rightarrow> of_nat (length b)), ku_cur = 0, ku_error = False\<rparr>"

definition ku_take :: "u32 \<Rightarrow> key_unmarshal \<Rightarrow> bytes run" where
  "ku_take n s =
     (if unat (ku_cur s) + unat n \<le> length (ku_buf s)
      then Inr (take (unat n) (drop (unat (ku_cur s)) (ku_buf s))) else Inl Undefined)"

definition ku_border :: "key_unmarshal \<Rightarrow> key_unmarshal" where
  "ku_border s = s\<lparr>ku_cur := ku_cur s + ku_border_len s\<rparr>"

text \<open>
  \<open>process_int\<close> and \<open>process_int64\<close>. The digits are copied to an array of their own first, so \<open>endptr\<close>
  never equals \<open>&buf_[cur_]\<close> and the error behind that comparison is never signalled.
\<close>

definition ku_number :: "u32 \<Rightarrow> key_unmarshal \<Rightarrow> (u64 \<times> key_unmarshal) run" where
  "ku_number n s =
     (if ku_buf_len s < ku_cur s + n then Inr (0, s\<lparr>ku_error := True\<rparr>)
      else bind_run (ku_take n s) (\<lambda>d. Inr (strtoul16 d, s\<lparr>ku_cur := ku_cur s + n\<rparr>)))"

definition ku_int :: "u32 \<Rightarrow> key_unmarshal \<Rightarrow> (u32 \<times> key_unmarshal) run" where
  "ku_int n s = bind_run (ku_number n s) (\<lambda>(v, s1). Inr (ucast v, s1))"

definition ku_int64 :: "key_unmarshal \<Rightarrow> (u64 \<times> key_unmarshal) run" where
  "ku_int64 s = ku_number 16 s"

text \<open>The length of a carrier, and its bytes unless there are too few; the error flag of the length is not tested.\<close>

definition ku_sized :: "key_unmarshal \<Rightarrow> ((bytes \<times> u32) option \<times> key_unmarshal) run" where
  "ku_sized s = bind_run (ku_int 8 s) (\<lambda>(len, s1).
     if ku_buf_len s1 < ku_cur s1 + len then Inr (None, s1\<lparr>ku_error := True\<rparr>)
     else bind_run (ku_take len s1) (\<lambda>d. Inr (Some (d, len), ku_border (s1\<lparr>ku_cur := ku_cur s1 + len\<rparr>))))"

fun ku_process :: "key_unmarshal \<Rightarrow> string \<Rightarrow> field \<Rightarrow> (key_unmarshal \<times> field) run" where
  "ku_process s name (U64 i) = bind_run (ku_int64 s) (\<lambda>(v, s1).
     Inr (ku_border s1, U64 (if ku_error s1 then i else v)))"
| "ku_process s name (U32 i) = bind_run (ku_int 8 s) (\<lambda>(v, s1).
     Inr (ku_border s1, U32 (if ku_error s1 then i else v)))"
| "ku_process s name (U16 i) = bind_run (ku_int 4 s) (\<lambda>(v, s1).
     Inr (ku_border s1, U16 (if ku_error s1 then i else ucast v)))"
| "ku_process s name (U8 i) = bind_run (ku_int 2 s) (\<lambda>(v, s1).
     Inr (ku_border s1, U8 (if ku_error s1 then i else ucast v)))"
| "ku_process s name (Bool b) =
     (if ku_error s then Inr (s, Bool b)
      else if ku_buf_len s < ku_cur s + 1 then Inr (s\<lparr>ku_error := True\<rparr>, Bool b)
      else bind_run (ku_take 1 s) (\<lambda>d. Inr (ku_border (s\<lparr>ku_cur := ku_cur s + 1\<rparr>), Bool (d = [49]))))"
| "ku_process s name (Bytes bs) =
     (let len = of_nat (length bs)
      in if ku_error s then Inr (s, Bytes bs)
         else if ku_buf_len s < ku_cur s + len then Inr (s\<lparr>ku_error := True\<rparr>, Bytes bs)
         else bind_run (ku_take len s) (\<lambda>d. Inr (ku_border (s\<lparr>ku_cur := ku_cur s + len\<rparr>), Bytes d)))"
| "ku_process s name (Carrier c) = bind_run (assert_run (car_is_empty c)) (\<lambda>_.
     if ku_error s then Inr (s, Carrier c)
     else bind_run (ku_sized s) (\<lambda>(r, s1). Inr (s1, Carrier (case r of
         None \<Rightarrow> c
       | Some (d, len) \<Rightarrow> car_set_buf (Some d) (unat len) True c))))"
| "ku_process s name (Term c t) = bind_run (assert_run (car_is_empty c)) (\<lambda>_.
     if ku_error s then Inr (s, Term c t)
     else bind_run (ku_sized s) (\<lambda>(r, s1). Inr (s1, Term (case r of
         None \<Rightarrow> c
       | Some (d, len) \<Rightarrow> car_set_buf (Some (d @ [t])) (unat (len + 1)) True c) t)))"
| "ku_process s name (Str str) =
     (if ku_error s then Inr (s, Str str)
      else bind_run (ku_int 8 s) (\<lambda>(len, s1).
        if ku_error s1 then Inr (s1, Str str)
        else bind_run (ku_take len s1) (\<lambda>d. Inr (ku_border (s1\<lparr>ku_cur := ku_cur s1 + len\<rparr>), Str d))))"

definition ku_action :: "(key_unmarshal \<Rightarrow> (key_unmarshal \<times> 'o) run) \<Rightarrow> key_unmarshal \<Rightarrow> (int \<times> key_unmarshal \<times> 'o) run" where
  "ku_action visit s = bind_run (visit (s\<lparr>ku_error := False\<rparr>)) (\<lambda>(s1, r). Inr (if ku_error s1 then - 1 else 0, s1, r))"

definition ku_object :: "(key_unmarshal \<Rightarrow> (key_unmarshal \<times> 'o) run) \<Rightarrow> key_unmarshal \<Rightarrow> (key_unmarshal \<times> 'o option) run" where
  "ku_object visit s =
     (if ku_error s then Inr (s, None)
      else bind_run (ku_action visit s) (\<lambda>(err, s1, r).
        Inr (ku_border (if err \<noteq> 0 then s1\<lparr>ku_error := True\<rparr> else s1), Some r)))"

primrec ku_visit :: "'o kvisit \<Rightarrow> key_unmarshal \<Rightarrow> (key_unmarshal \<times> 'o) run" where
  "ku_visit (KDone x) s = Inr (s, x)"
| "ku_visit (KField name f k) s = bind_run (ku_process s name f) (\<lambda>(s1, f1). ku_visit (k f1) s1)"
| "ku_visit (KObject name v k) s = bind_run (ku_object (ku_visit v) s) (\<lambda>(s1, r). ku_visit (k r) s1)"

section \<open>Numbers come back\<close>

lemma hexd_props:
  assumes "n < 16"
  shows "hexv (hexd n) = n" "is_hexb (hexd n)" "hexd n \<noteq> 0"
proof -
  have "\<forall>n\<in>set [0..<16]. hexv (hexd n) = n \<and> is_hexb (hexd n) \<and> hexd n \<noteq> 0"
    by (simp add: upt_rec hexv_def hexd_def is_hexb_def)
  then show "hexv (hexd n) = n" "is_hexb (hexd n)" "hexd n \<noteq> 0" using assms by auto
qed

lemma hexb_not: "is_hexb b \<Longrightarrow> b \<noteq> 32 \<and> \<not> (9 \<le> b \<and> b \<le> 13) \<and> b \<noteq> 45 \<and> b \<noteq> 43 \<and> b \<noteq> 120 \<and> b \<noteq> 88 \<and> b \<noteq> 0"
  by (auto simp: is_hexb_def word_le_nat_alt)

lemma hex_min_props:
  "list_all is_hexb (hex_min n) \<and> hex_min n \<noteq> [] \<and> foldl (\<lambda>n b. 16 * n + hexv b) 0 (hex_min n) = n"
proof (induction n rule: hex_min.induct)
  case (1 n)
  then show ?case
    using hexd_props [of n] hexd_props [of "n mod 16"] by (subst (1 2 3) hex_min.simps) (auto simp: mult.commute)
qed

lemma hex_min_length: "0 < k \<Longrightarrow> n < 16 ^ k \<Longrightarrow> length (hex_min n) \<le> k"
proof (induction k arbitrary: n)
  case (Suc k)
  show ?case
  proof (cases "n < 16")
    case True
    then show ?thesis by (subst hex_min.simps) simp
  next
    case False
    then have "0 < k" using Suc.prems by (cases k) auto
    moreover have "n div 16 < 16 ^ k" using Suc.prems(2) by (simp add: less_mult_imp_div_less mult.commute)
    ultimately have "length (hex_min (n div 16)) \<le> k" by (rule Suc.IH)
    then show ?thesis using False by (subst hex_min.simps) simp
  qed
qed simp

lemma print_hex_length: "0 < k \<Longrightarrow> n < 16 ^ k \<Longrightarrow> length (print_hex pad k n) = k"
  using hex_min_length by (simp add: print_hex_def)

lemma strtoul16_digits:
  assumes "list_all is_hexb ds" "ds \<noteq> []"
  shows "strtoul16 (replicate m 32 @ ds) = of_nat (foldl (\<lambda>n b. 16 * n + hexv b) 0 ds)"
proof -
  have nz: "\<And>b. b \<in> set ds \<Longrightarrow> b \<noteq> 0 \<and> b \<noteq> 120 \<and> b \<noteq> 88" using assms(1) hexb_not by (auto simp: list_all_iff)
  have t1: "takeWhile (\<lambda>b. b \<noteq> 0) (replicate m 32 @ ds) = replicate m 32 @ ds"
    using nz by (auto simp: takeWhile_eq_all_conv)
  have ndigit: "\<not> (hd ds = 32 \<or> (9 \<le> hd ds \<and> hd ds \<le> 13))" using assms hexb_not by (cases ds) auto
  have t2: "dropWhile (\<lambda>b. b = 32 \<or> (9 \<le> b \<and> b \<le> 13)) (replicate m 32 @ ds) = ds"
    using ndigit assms(2) by (cases ds) (auto simp: dropWhile_append)
  have t3: "hd ds \<noteq> 45" "hd ds \<noteq> 43" using assms hexb_not by (cases ds; auto)+
  have pre: "take 2 ds \<noteq> [48, x]" if "x = 120 \<or> x = 88" for x
  proof
    assume "take 2 ds = [48, x]"
    then have "x \<in> set (take 2 ds)" by simp
    then have "x \<in> set ds" by (rule in_set_takeD)
    then show False using nz that by blast
  qed
  have t4: "take 2 ds \<noteq> [48, 120]" "take 2 ds \<noteq> [48, 88]" by (rule pre, simp)+
  have t5: "takeWhile is_hexb ds = ds" using assms(1) by (auto simp: takeWhile_eq_all_conv list_all_iff)
  show ?thesis unfolding strtoul16_def Let_def t1 t2 using t3 t4 by (simp only: t5 simp_thms if_False)
qed

lemma foldl_zeros: "foldl (\<lambda>n b. 16 * n + hexv b) 0 (replicate m 48) = 0"
  by (induction m) (simp_all add: hexv_def)

lemma strtoul16_print: "pad = 32 \<or> pad = 48 \<Longrightarrow> strtoul16 (print_hex pad k n) = of_nat n"
proof (elim disjE)
  note h = hex_min_props [of n]
  show "pad = 32 \<Longrightarrow> ?thesis" using strtoul16_digits [of "hex_min n"] h by (simp add: print_hex_def)
  have "is_hexb 48" by (simp add: is_hexb_def)
  then have "list_all is_hexb (replicate m 48 @ hex_min n)" for m using h by (auto simp: list_all_iff)
  then show "pad = 48 \<Longrightarrow> ?thesis"
    using strtoul16_digits [of "replicate (k - length (hex_min n)) 48 @ hex_min n" 0] h by (simp add: print_hex_def foldl_zeros)
qed

section \<open>The text of an object\<close>

fun key_text :: "field \<Rightarrow> bytes" where
  "key_text (U64 i) = print_hex 32 16 (unat i)"
| "key_text (U32 i) = print_hex 48 8 (unat i)"
| "key_text (U16 i) = print_hex 48 4 (unat i)"
| "key_text (U8 i) = print_hex 48 2 (unat i)"
| "key_text (Bool b) = [if b then 49 else 48]"
| "key_text (Bytes bs) = bs"
| "key_text (Carrier c) = print_hex 48 8 (car_len c) @ car_bytes c"
| "key_text (Term c t) = []"
| "key_text (Str s) = print_hex 48 8 (length s) @ s"

text \<open>64-bit numbers must fit the 32 bits that are printed; terminated buffers come back with another length.\<close>

fun key_ok :: "field \<Rightarrow> bool" where
  "key_ok (U64 i) \<longleftrightarrow> unat i < 2 ^ 32"
| "key_ok (Carrier c) \<longleftrightarrow> car_len c < 2 ^ 32 \<and> car_ok c"
| "key_ok (Str s) \<longleftrightarrow> length s < 2 ^ 32"
| "key_ok (Term c t) \<longleftrightarrow> False"
| "key_ok _ \<longleftrightarrow> True"

definition border_text :: "bytes option \<Rightarrow> bytes" where
  "border_text b = (case b of None \<Rightarrow> [] | Some t \<Rightarrow> t)"

primrec key_result :: "'o kvisit \<Rightarrow> 'o" where
  "key_result (KDone x) = x"
| "key_result (KField name f k) = key_result (k f)"
| "key_result (KObject name v k) = (let x = key_result v in key_result (k (Some x)))"

primrec visit_key_ok :: "'o kvisit \<Rightarrow> bool" where
  "visit_key_ok (KDone x) \<longleftrightarrow> True"
| "visit_key_ok (KField name f k) \<longleftrightarrow> key_ok f \<and> visit_key_ok (k f)"
| "visit_key_ok (KObject name v k) \<longleftrightarrow> visit_key_ok v \<and> visit_key_ok (k (Some (key_result v)))"

lemma key_result_let [simp]: "(let x = key_result v in f x) = f (key_result v)"
  by (simp add: Let_def)

text \<open>The text of an object: the texts of its fields, objects among them, each with the border behind it.\<close>

primrec visit_key :: "bytes option \<Rightarrow> 'o kvisit \<Rightarrow> bytes" where
  "visit_key border (KDone x) = []"
| "visit_key border (KField name f k) = key_text f @ border_text border @ visit_key border (k f)"
| "visit_key border (KObject name v k) = visit_key border v @ border_text border @ visit_key border (k (Some (key_result v)))"

lemma unat32: "n < 2 ^ 32 \<Longrightarrow> unat (of_nat n :: u32) = n"
  by (simp add: unat_of_nat take_bit_nat_eq_self_iff)

lemma unat_low32: "unat (i :: u64) < 2 ^ 32 \<Longrightarrow> unat (ucast i :: u32) = unat i"
  by (simp add: unsigned_ucast_eq take_bit_nat_eq_self_iff)

section \<open>Writing with room\<close>

definition km_room :: "nat \<Rightarrow> ('a ebuf_scheme) key_marshal \<Rightarrow> bool" where
  "km_room n s \<longleftrightarrow> eb_len (km_buf s) + n < length (eb_mem (km_buf s))"

definition km_adds :: "('a ebuf_scheme) key_marshal \<Rightarrow> bytes \<Rightarrow> ('a ebuf_scheme) key_marshal \<Rightarrow> bool" where
  "km_adds s d s' \<longleftrightarrow> eb_contents (km_buf s') = eb_contents (km_buf s) @ d \<and>
     eb_len (km_buf s') = eb_len (km_buf s) + length d \<and> length (eb_mem (km_buf s)) \<le> length (eb_mem (km_buf s')) \<and>
     km_border s' = km_border s \<and> km_error s' = km_error s"

lemma km_adds_trans: "km_adds s a s1 \<Longrightarrow> km_adds s1 b s2 \<Longrightarrow> km_adds s (a @ b) s2"
  by (auto simp: km_adds_def)

lemma km_adds_room: "km_adds s d s' \<Longrightarrow> km_room (length d + n) s \<Longrightarrow> km_room n s'"
  by (auto simp: km_adds_def km_room_def)

lemma km_room_less: "km_room n s \<Longrightarrow> m \<le> n \<Longrightarrow> km_room m s"
  by (simp add: km_room_def)

context expandable
begin

text \<open>Where there is room, it does not matter how much is asked of \<open>reserve\<close>.\<close>

lemma km_write:
  assumes "inv (km_buf s)" "km_room n s" "length d = n + e" "e \<le> 1"
  shows "\<exists>b1 b2 b3. reserve m (km_buf s) = Inr b1 \<and> eb_write_end d b1 = Inr b2 \<and>
    eb_set_len (eb_len b2 + n) b2 = Inr b3 \<and> inv b3 \<and> km_adds s (take n d) (s\<lparr>km_buf := b3\<rparr>)"
proof -
  obtain b1 ext where b1: "reserve m (km_buf s) = Inr b1" "inv b1" "eb_len b1 = eb_len (km_buf s)"
      "eb_mem b1 = eb_mem (km_buf s) @ ext" using reserve [OF assms(1)] by blast
  have c1: "eb_contents b1 = eb_contents (km_buf s)" using b1(3,4) inv_len [OF assms(1)] by (simp add: eb_contents_def)
  have r: "eb_len b1 < length (eb_mem b1)" "eb_len b1 + length d \<le> length (eb_mem b1)"
    using assms(2-4) b1(3,4) by (auto simp: km_room_def)
  obtain b2 where b2: "eb_write_end d b1 = Inr b2" "inv b2" "eb_len b2 = eb_len b1" "length (eb_mem b2) = length (eb_mem b1)"
      "take (eb_len b1 + length d) (eb_mem b2) = eb_contents b1 @ d"
    using write_end [OF b1(2) r] by metis
  have n: "eb_len b2 + n \<le> length (eb_mem b2)" using r(2) b2(3,4) assms(3) by simp
  note sl = set_len [OF b2(2) n]
  have "take (eb_len b2 + n) (eb_mem b2) = take (eb_len b2 + n) (take (eb_len b1 + length d) (eb_mem b2))"
    using b2(3) assms(3) by (simp add: min_def)
  also have "\<dots> = eb_contents b1 @ take n d"
    unfolding b2(5) using b2(3) r(1) by (simp add: eb_contents_def)
  finally have "eb_contents (b2\<lparr>eb_len := eb_len b2 + n\<rparr>) = eb_contents (km_buf s) @ take n d" using sl(3) c1 by simp
  then show ?thesis using b1 b2 sl(1,2) assms(3)
    by (intro exI [of _ b1] exI [of _ b2] exI [of _ "b2\<lparr>eb_len := eb_len b2 + n\<rparr>"]) (simp add: km_adds_def)
qed

lemma km_append_room:
  assumes "inv (km_buf s)" "km_room (length d) s"
  shows "\<exists>s'. km_append reserve m d (length d) s = Inr s' \<and> inv (km_buf s') \<and> km_adds s d s'"
proof -
  obtain b1 b2 b3 where "reserve m (km_buf s) = Inr b1" "eb_write_end d b1 = Inr b2"
    "eb_set_len (eb_len b2 + length d) b2 = Inr b3" "inv b3" "km_adds s (take (length d) d) (s\<lparr>km_buf := b3\<rparr>)"
    using km_write [OF assms, of d 0 m] by auto
  then show ?thesis by (intro exI [of _ "s\<lparr>km_buf := b3\<rparr>"]) (simp add: km_append_def)
qed

lemma km_int_room:
  assumes "inv (km_buf s)" "km_room (length d) s" "\<not> km_error s"
  shows "\<exists>s'. km_int reserve d (length d) s = Inr s' \<and> inv (km_buf s') \<and> km_adds s d s'"
proof -
  obtain b1 b2 b3 where "reserve (eb_len (km_buf s) + length d + 1) (km_buf s) = Inr b1" "eb_write_end (d @ [0]) b1 = Inr b2"
    "eb_set_len (eb_len b2 + length d) b2 = Inr b3" "inv b3" "km_adds s (take (length d) (d @ [0])) (s\<lparr>km_buf := b3\<rparr>)"
    using km_write [OF assms(1,2), of "d @ [0]" 1 "eb_len (km_buf s) + length d + 1"] by auto
  then show ?thesis using assms(3) by (intro exI [of _ "s\<lparr>km_buf := b3\<rparr>"]) (simp add: km_int_def)
qed

lemma km_border_room:
  assumes "inv (km_buf s)" "km_room (length (border_text (km_border s))) s" "\<not> km_error s"
  shows "\<exists>s'. km_put_border reserve s = Inr s' \<and> inv (km_buf s') \<and> km_adds s (border_text (km_border s)) s'"
proof (cases "km_border s")
  case None
  then show ?thesis using assms(1) by (simp add: km_put_border_def border_text_def km_adds_def)
next
  case (Some t)
  then show ?thesis using km_append_room [OF assms(1), of t "length t"] assms(2,3) by (simp add: km_put_border_def border_text_def)
qed

text \<open>A text and then the border, as every field ends.\<close>

lemma km_then_border:
  assumes "inv (km_buf s)" "km_room (length d + length (border_text (km_border s))) s" "\<not> km_error s"
    and "\<exists>s1. m = Inr s1 \<and> inv (km_buf s1) \<and> km_adds s d s1"
  shows "\<exists>s'. bind_run m (km_put_border reserve) = Inr s' \<and> inv (km_buf s') \<and> km_adds s (d @ border_text (km_border s)) s'"
proof -
  obtain s1 where s1: "m = Inr s1" "inv (km_buf s1)" "km_adds s d s1" using assms(4) by blast
  have same: "km_border s1 = km_border s" "km_error s1 = km_error s" using s1(3) by (simp_all add: km_adds_def)
  have "km_room (length (border_text (km_border s1))) s1" using km_adds_room [OF s1(3) assms(2)] same by simp
  then obtain s2 where "km_put_border reserve s1 = Inr s2" "inv (km_buf s2)" "km_adds s1 (border_text (km_border s1)) s2"
    using km_border_room [OF s1(2)] assms(3) same by auto
  with s1 km_adds_trans [OF s1(3)] same show ?thesis by auto
qed

lemma km_sized_room:
  assumes "inv (km_buf s)" "km_room (length (d @ take n src)) s" "\<not> km_error s" "n \<le> length src"
  shows "\<exists>s'. bind_run (km_int reserve d (length d) s) (km_mem reserve src n) = Inr s' \<and> inv (km_buf s') \<and>
    km_adds s (d @ take n src) s'"
proof -
  have "km_room (length d) s" by (rule km_room_less [OF assms(2)]) simp
  then obtain s1 where s1: "km_int reserve d (length d) s = Inr s1" "inv (km_buf s1)" "km_adds s d s1"
    using km_int_room [OF assms(1) _ assms(3)] by blast
  have len: "length (take n src) = n" using assms(4) by simp
  have "km_room (length (take n src)) s1" using km_adds_room [OF s1(3)] assms(2) by simp
  then obtain s2 where "km_append reserve (eb_len (km_buf s1) + n) (take n src) n s1 = Inr s2" "inv (km_buf s2)"
    "km_adds s1 (take n src) s2"
    using km_append_room [OF s1(2), of "take n src" "eb_len (km_buf s1) + n"] unfolding len by blast
  with s1 km_adds_trans [OF s1(3)] assms(4) show ?thesis by (auto simp: km_mem_def)
qed

lemma km_field_room:
  assumes "key_ok f" "inv (km_buf s)" "km_room (length (key_text f @ border_text (km_border s))) s" "\<not> km_error s"
  shows "\<exists>s'. km_process reserve s name f = Inr (s', f) \<and> inv (km_buf s') \<and>
    km_adds s (key_text f @ border_text (km_border s)) s'"
proof -
  have room: "km_room (length (key_text f) + length (border_text (km_border s))) s" using assms(3) by simp
  then have room1: "km_room (length (key_text f)) s" by (rule km_room_less) simp
  note fin = km_then_border [OF assms(2) room assms(4)] and num = km_int_room [OF assms(2) room1 assms(4)]
  note len = print_hex_length
  show ?thesis
  proof (cases f)
    case (U64 i)
    then have "length (key_text f) = 16" using assms(1) len [of 16 "unat i" 32] by simp
    with fin [OF num] U64 assms(1) unat_low32 [of i] show ?thesis by auto
  next
    case (U32 i)
    then have "length (key_text f) = 8" using len [of 8 "unat i" 48] unat_lt [of i] by simp
    with fin [OF num] U32 show ?thesis by auto
  next
    case (U16 i)
    then have "length (key_text f) = 4" using len [of 4 "unat i" 48] unat_lt [of i] by simp
    with fin [OF num] U16 show ?thesis by auto
  next
    case (U8 i)
    then have "length (key_text f) = 2" using len [of 2 "unat i" 48] unat_lt [of i] by simp
    with fin [OF num] U8 show ?thesis by auto
  next
    case (Bool b)
    then have "length (key_text f) = 1" by simp
    with fin [OF num] Bool show ?thesis by auto
  next
    case (Bytes bs)
    have "\<exists>s1. km_mem reserve bs (length bs) s = Inr s1 \<and> inv (km_buf s1) \<and> km_adds s bs s1"
      using km_append_room [OF assms(2), of bs "eb_len (km_buf s) + length bs"] room1 Bytes by (simp add: km_mem_def)
    with fin Bytes assms(4) show ?thesis by fastforce
  next
    case (Carrier c)
    have c: "car_len c < 2 ^ 32" "car_len c \<le> length (car_mem c)" using assms(1) Carrier by (auto simp: car_ok_def)
    have l: "length (print_hex 48 8 (car_len c)) = 8" using len [of 8 "car_len c" 48] c(1) by simp
    have t: "key_text f = print_hex 48 8 (car_len c) @ take (car_len c) (car_mem c)" using Carrier by (simp add: car_bytes_def)
    have "\<exists>s1. bind_run (km_int reserve (print_hex 48 8 (car_len c)) 8 s) (km_mem reserve (car_mem c) (car_len c)) = Inr s1 \<and>
        inv (km_buf s1) \<and> km_adds s (key_text f) s1"
      using km_sized_room [OF assms(2) room1 [unfolded t] assms(4) c(2)] unfolding l t by blast
    from fin [OF this] obtain s' where "bind_run (bind_run (km_int reserve (print_hex 48 8 (car_len c)) 8 s)
        (km_mem reserve (car_mem c) (car_len c))) (km_put_border reserve) = Inr s'" "inv (km_buf s')"
      "km_adds s (key_text f @ border_text (km_border s)) s'" by blast
    moreover have "km_process reserve s name f = bind_run (bind_run (bind_run (km_int reserve (print_hex 48 8 (car_len c)) 8 s)
        (km_mem reserve (car_mem c) (car_len c))) (km_put_border reserve)) (\<lambda>s1. Inr (s1, f))"
      using Carrier c(1) assms(4) by (simp add: km_carrier_def unat32 bind_run_assoc)
    ultimately show ?thesis by simp
  next
    case (Str str)
    have l: "length (print_hex 48 8 (length str)) = 8" using len [of 8 "length str" 48] assms(1) Str by simp
    have t: "key_text f = print_hex 48 8 (length str) @ take (length str) str" using Str by simp
    have "\<exists>s1. bind_run (km_int reserve (print_hex 48 8 (length str)) 8 s) (km_mem reserve str (length str)) = Inr s1 \<and>
        inv (km_buf s1) \<and> km_adds s (key_text f) s1"
      using km_sized_room [OF assms(2) room1 [unfolded t] assms(4) le_refl] unfolding l t by blast
    from fin [OF this] obtain s' where "bind_run (bind_run (km_int reserve (print_hex 48 8 (length str)) 8 s)
        (km_mem reserve str (length str))) (km_put_border reserve) = Inr s'" "inv (km_buf s')"
      "km_adds s (key_text f @ border_text (km_border s)) s'" by blast
    moreover have "km_process reserve s name f = bind_run (bind_run (bind_run (km_int reserve (print_hex 48 8 (length str)) 8 s)
        (km_mem reserve str (length str))) (km_put_border reserve)) (\<lambda>s1. Inr (s1, f))"
      using Str assms(1,4) by (simp add: unat32 bind_run_assoc)
    ultimately show ?thesis by simp
  qed (use assms(1) in simp)
qed

text \<open>An action on calls that append \<open>d\<close> appends \<open>d\<close>, and the terminating zero goes into the room behind it.\<close>

lemma km_action_adds:
  assumes "visit s = Inr (s1, x)" "inv (km_buf s1)" "km_adds s d s1" "km_room (length d) s" "\<not> km_error s"
  shows "\<exists>s'. km_action reserve visit s = Inr (0, s', x) \<and> inv (km_buf s') \<and> km_adds s d s'"
proof -
  have "km_room 0 s1" using km_adds_room [OF assms(3), of 0] assms(4) by simp
  then obtain b1 b2 b3 where e: "reserve 1 (km_buf s1) = Inr b1" "eb_write_end [0] b1 = Inr b2"
    "eb_set_len (eb_len b2 + 0) b2 = Inr b3" "inv b3" "km_adds s1 [] (s1\<lparr>km_buf := b3\<rparr>)"
    using km_write [OF assms(2), of 0 "[0]" 1 1] by auto
  have b: "b3 = b2" using e(3) by (auto simp: eb_set_len_def bind_run_eq_Inr assert_run_def split: if_splits)
  have "\<not> km_error s1" "s\<lparr>km_error := False\<rparr> = s" using assms(3,5) by (simp_all add: km_adds_def)
  moreover have "km_adds s d (s1\<lparr>km_buf := b2\<rparr>)" using km_adds_trans [OF assms(3) e(5)] b by simp
  ultimately show ?thesis using assms(1) e b by (simp add: km_action_def km_end_action_def)
qed

lemma km_run_room:
  assumes "visit_key_ok v" "inv (km_buf s)" "km_room (length (visit_key (km_border s) v)) s" "\<not> km_error s"
  shows "\<exists>s'. km_visit reserve v s = Inr (s', key_result v) \<and> inv (km_buf s') \<and>
    km_adds s (visit_key (km_border s) v) s'"
  using assms
proof (induction v arbitrary: s)
  case (KDone x)
  then show ?case by (simp add: km_adds_def)
next
  case (KField name f k)
  let ?d = "key_text f @ border_text (km_border s)"
  have room: "km_room (length ?d + length (visit_key (km_border s) (k f))) s" using KField.prems(3) by (simp add: add.assoc)
  then have "km_room (length ?d) s" by (rule km_room_less) simp
  then obtain s1 where s1: "km_process reserve s name f = Inr (s1, f)" "inv (km_buf s1)" "km_adds s ?d s1"
    using km_field_room [of f s name] KField.prems by auto
  have same: "km_border s1 = km_border s" "\<not> km_error s1" using s1(3) KField.prems(4) by (simp_all add: km_adds_def)
  have "km_room (length (visit_key (km_border s1) (k f))) s1" using km_adds_room [OF s1(3) room] same by simp
  then obtain s2 where "km_visit reserve (k f) s1 = Inr (s2, key_result (k f))" "inv (km_buf s2)"
    "km_adds s1 (visit_key (km_border s1) (k f)) s2"
    using KField.IH [OF rangeI _ s1(2)] KField.prems(1) same(2) by auto
  with s1 km_adds_trans [OF s1(3)] same(1) show ?case by auto
next
  case (KObject name v k)
  let ?v = "visit_key (km_border s) v" and ?b = "border_text (km_border s)" and ?k = "k (Some (key_result v))"
  have room: "km_room (length (?v @ ?b) + length (visit_key (km_border s) ?k)) s" using KObject.prems(3) by (simp add: add.assoc)
  have room1: "km_room (length ?v) s" "km_room (length ?v + length ?b) s" by (rule km_room_less [OF room], simp)+
  obtain s0 where s0: "km_visit reserve v s = Inr (s0, key_result v)" "inv (km_buf s0)" "km_adds s ?v s0"
    using KObject.IH(1) [of s] KObject.prems room1(1) by auto
  obtain s1 where s1: "km_action reserve (km_visit reserve v) s = Inr (0, s1, key_result v)" "inv (km_buf s1)" "km_adds s ?v s1"
    using km_action_adds [where visit = "km_visit reserve v", OF s0 room1(1) KObject.prems(4)] by blast
  obtain s2 where s2: "bind_run (Inr s1) (km_put_border reserve) = Inr s2" "inv (km_buf s2)" "km_adds s (?v @ ?b) s2"
    using km_then_border [OF KObject.prems(2) room1(2) KObject.prems(4), of "Inr s1"] s1 by blast
  have obj: "km_object reserve (km_visit reserve v) s = Inr (s2, Some (key_result v))"
    using s1(1) s2(1) KObject.prems(4) by (simp add: km_object_def)
  have same: "km_border s2 = km_border s" "\<not> km_error s2" using s2(3) KObject.prems(4) by (simp_all add: km_adds_def)
  have "km_room (length (visit_key (km_border s2) ?k)) s2" using km_adds_room [OF s2(3) room] same by simp
  then obtain s3 where "km_visit reserve ?k s2 = Inr (s3, key_result ?k)" "inv (km_buf s3)" "km_adds s2 (visit_key (km_border s2) ?k) s3"
    using KObject.IH(2) [OF rangeI _ s2(2)] KObject.prems(1) same(2) by auto
  with obj km_adds_trans [OF s2(3)] same(1) show ?case by auto
qed

lemma km_action_room:
  assumes "visit_key_ok v" "inv (km_buf s)" "km_room (length (visit_key (km_border s) v)) s" "\<not> km_error s"
  shows "\<exists>s'. km_action reserve (km_visit reserve v) s = Inr (0, s', key_result v) \<and> inv (km_buf s') \<and>
    eb_contents (km_buf s') = eb_contents (km_buf s) @ visit_key (km_border s) v"
proof -
  obtain s1 where "km_visit reserve v s = Inr (s1, key_result v)" "inv (km_buf s1)" "km_adds s (visit_key (km_border s) v) s1"
    using km_run_room [OF assms] by blast
  from km_action_adds [where visit = "km_visit reserve v", OF this assms(3,4)] show ?thesis by (auto simp: km_adds_def)
qed

end

section \<open>Reading back\<close>

definition k_left :: "key_unmarshal \<Rightarrow> bytes" where
  "k_left s = drop (unat (ku_cur s)) (take (unat (ku_buf_len s)) (ku_buf s))"

definition k_ok :: "bytes option \<Rightarrow> key_unmarshal \<Rightarrow> bool" where
  "k_ok border s \<longleftrightarrow> \<not> ku_error s \<and> unat (ku_buf_len s) \<le> length (ku_buf s) \<and> ku_cur s \<le> ku_buf_len s \<and>
     ku_border_len s = of_nat (length (border_text border))"

definition k_skip :: "nat \<Rightarrow> key_unmarshal \<Rightarrow> key_unmarshal" where
  "k_skip n s = s\<lparr>ku_cur := ku_cur s + of_nat n\<rparr>"

lemma k_skip_skip [simp]: "k_skip m (k_skip n s) = k_skip (n + m) s"
  by (simp add: k_skip_def add.assoc)

lemma k_skip_0 [simp]: "k_skip 0 s = s"
  by (simp add: k_skip_def)

lemma k_take:
  assumes "k_ok border s" "k_left s = d @ r" "n = of_nat (length d)"
  shows "ku_take n s = Inr d" "\<not> ku_buf_len s < ku_cur s + n" "s\<lparr>ku_cur := ku_cur s + n\<rparr> = k_skip (length d) s"
    "k_ok border (k_skip (length d) s)" "k_left (k_skip (length d) s) = r" "length d < 2 ^ 32"
proof -
  let ?c = "unat (ku_cur s)" and ?l = "unat (ku_buf_len s)"
  have b: "?l \<le> length (ku_buf s)" "?c \<le> ?l" "?l < 2 ^ 32"
    using assms(1) unat_lt [of "ku_buf_len s"] by (auto simp: k_ok_def word_le_nat_alt)
  have len: "?l - ?c = length d + length r" using arg_cong [OF assms(2), of length] b by (simp add: k_left_def min_def split: if_splits)
  then show d32: "length d < 2 ^ 32" using b by linarith
  have n: "unat n = length d" unfolding assms(3) by (rule unat32 [OF d32])
  have fit: "?c + length d \<le> ?l" using len b(2) by linarith
  have sum: "unat (ku_cur s + n) = ?c + length d"
    using fit b(3) n by (subst unat_add_lem [THEN iffD1]) simp_all
  have "take (length d) (drop ?c (take ?l (ku_buf s))) = d" using assms(2) by (simp add: k_left_def)
  then have "take (length d) (drop ?c (ku_buf s)) = d" using fit by (simp add: drop_take min_def split: if_splits)
  then show "ku_take n s = Inr d" using fit b(1) n by (simp add: ku_take_def)
  show "\<not> ku_buf_len s < ku_cur s + n" using sum fit by (simp add: word_less_nat_alt)
  show "s\<lparr>ku_cur := ku_cur s + n\<rparr> = k_skip (length d) s" by (simp add: k_skip_def assms(3))
  show "k_ok border (k_skip (length d) s)"
    using assms(1) sum fit by (simp add: k_ok_def k_skip_def assms(3) word_le_nat_alt)
  have "k_left (k_skip (length d) s) = drop (length d) (k_left s)"
    using sum by (simp add: k_left_def k_skip_def assms(3) add.commute)
  then show "k_left (k_skip (length d) s) = r" using assms(2) by simp
qed

lemma k_border:
  assumes "k_ok border s" "k_left s = border_text border @ r"
  shows "ku_border s = k_skip (length (border_text border)) s"
    "k_ok border (k_skip (length (border_text border)) s)" "k_left (k_skip (length (border_text border)) s) = r"
  using k_take [OF assms refl] assms(1) by (simp_all add: ku_border_def k_ok_def)

lemma k_number:
  assumes "k_ok border s" "k_left s = print_hex pad m k @ r" "pad = 32 \<or> pad = 48" "length (print_hex pad m k) = m"
  shows "ku_number (of_nat m) s = Inr (of_nat k, k_skip m s)" "k_ok border (k_skip m s)" "k_left (k_skip m s) = r"
  using k_take [OF assms(1,2), of "of_nat m"] strtoul16_print [OF assms(3)] assms(4) by (simp_all add: ku_number_def)

text \<open>What may be read into: the same kind of field, and no carrier that has a buffer already.\<close>

fun key_fits :: "field \<Rightarrow> field \<Rightarrow> bool" where
  "key_fits (Carrier _) (Carrier c) \<longleftrightarrow> car_is_empty c"
| "key_fits f g \<longleftrightarrow> field_fits f g"

inductive key_mirrors :: "('o \<Rightarrow> 'p \<Rightarrow> bool) \<Rightarrow> 'o kvisit \<Rightarrow> 'p kvisit \<Rightarrow> bool" for R where
  key_Done: "R x y \<Longrightarrow> key_mirrors R (KDone x) (KDone y)"
| key_Field: "key_ok f \<Longrightarrow> key_fits f g \<Longrightarrow>
    (\<And>f'. field_same f f' \<Longrightarrow> key_mirrors R (k f) (l f')) \<Longrightarrow>
    key_mirrors R (KField name f k) (KField name' g l)"
| key_Object: "key_mirrors R v w \<Longrightarrow>
    (\<And>y. R (key_result v) y \<Longrightarrow> key_mirrors R (k (Some (key_result v))) (l (Some y))) \<Longrightarrow>
    key_mirrors R (KObject name v k) (KObject name' w l)"

lemma key_same_refl: "key_ok f \<Longrightarrow> field_same f f"
  by (cases f) simp_all

lemma key_mirrors_ok: "key_mirrors R v w \<Longrightarrow> visit_key_ok v \<and> (\<exists>y. R (key_result v) y)"
  by (induction rule: key_mirrors.induct) (auto intro: key_same_refl)

lemma k_int:
  assumes "k_ok border s" "k_left s = print_hex 48 m k @ r" "length (print_hex 48 m k) = m" "k < 2 ^ 32"
  shows "ku_int (of_nat m) s = Inr (of_nat k, k_skip m s)" "k_ok border (k_skip m s)" "k_left (k_skip m s) = r"
proof -
  have "unat (of_nat k :: u64) = k" using assms(4) by (simp add: unat_of_nat take_bit_nat_eq_self_iff)
  then have "unat (ucast (of_nat k :: u64) :: u32) = unat (of_nat k :: u32)"
    using unat_low32 [of "of_nat k"] unat32 [OF assms(4)] assms(4) by simp
  then have "ucast (of_nat k :: u64) = (of_nat k :: u32)" by (rule unsigned_word_eqI)
  then show "ku_int (of_nat m) s = Inr (of_nat k, k_skip m s)"
    using k_number [OF assms(1,2) _ assms(3)] by (simp add: ku_int_def)
qed (use k_number [OF assms(1,2) _ assms(3)] in simp_all)

lemma k_sized:
  assumes "k_ok border s" "k_left s = print_hex 48 8 (length d) @ d @ border_text border @ r" "length d < 2 ^ 32"
  shows "ku_sized s = Inr (Some (d, of_nat (length d)), k_skip (8 + length d + length (border_text border)) s)"
    and "ku_int 8 s = Inr (of_nat (length d), k_skip 8 s)" and "k_ok border (k_skip 8 s)"
    and "k_left (k_skip 8 s) = d @ border_text border @ r"
proof -
  have "length (print_hex 48 8 (length d)) = 8" using assms(3) by (intro print_hex_length) auto
  from k_int [OF assms(1,2) this assms(3)] show i: "ku_int 8 s = Inr (of_nat (length d), k_skip 8 s)"
    "k_ok border (k_skip 8 s)" "k_left (k_skip 8 s) = d @ border_text border @ r" by simp_all
  note t = k_take [OF i(2,3) refl]
  show "ku_sized s = Inr (Some (d, of_nat (length d)), k_skip (8 + length d + length (border_text border)) s)"
    using i(1) t(1-3) k_border [OF t(4,5)] by (simp add: ku_sized_def add.assoc)
qed

lemma narrow: "(ucast (ucast (i :: u16) :: u32) :: u16) = i" "(ucast (ucast (j :: byte) :: u32) :: byte) = j"
  by (transfer, simp)+

lemma k_field:
  assumes "key_ok f" "key_fits f g" "k_ok border s" "k_left s = (key_text f @ border_text border) @ r"
  shows "\<exists>f'. ku_process s name g = Inr (k_skip (length (key_text f @ border_text border)) s, f') \<and> field_same f f' \<and>
    k_ok border (k_skip (length (key_text f @ border_text border)) s) \<and>
    k_left (k_skip (length (key_text f @ border_text border)) s) = r"
proof -
  have left: "k_left s = key_text f @ border_text border @ r" using assms(4) by simp
  note t = k_take [OF assms(3) left refl] and err = assms(3) [unfolded k_ok_def]
  note b = k_border [OF t(4,5)]
  have ne: "\<not> ku_error (k_skip m s)" for m using err by (simp add: k_skip_def)
  show ?thesis
  proof (cases f)
    case (U64 i)
    then obtain j where g: "g = U64 j" using assms(2) by (cases g) auto
    have l: "length (print_hex 32 16 (unat i)) = 16" using assms(1) U64 by (intro print_hex_length) auto
    have "ku_int64 s = Inr (i, k_skip 16 s)"
      using k_number [OF assms(3), of 32 16 "unat i" "border_text border @ r"] left l U64 by (simp add: ku_int64_def)
    then show ?thesis using g U64 b l ne by simp
  next
    case (U32 i)
    then obtain j where g: "g = U32 j" using assms(2) by (cases g) auto
    have l: "length (print_hex 48 8 (unat i)) = 8" using unat_lt [of i] by (intro print_hex_length) auto
    have "ku_int 8 s = Inr (i, k_skip 8 s)"
      using k_int [OF assms(3), of 8 "unat i" "border_text border @ r"] left l U32 unat_lt [of i] by simp
    then show ?thesis using g U32 b l ne by simp
  next
    case (U16 i)
    then obtain j where g: "g = U16 j" using assms(2) by (cases g) auto
    have l: "length (print_hex 48 4 (unat i)) = 4" using unat_lt [of i] by (intro print_hex_length) auto
    have "ku_int 4 s = Inr (of_nat (unat i), k_skip 4 s)"
      using k_int [OF assms(3), of 4 "unat i" "border_text border @ r"] left l U16 unat_lt [of i] by simp
    then show ?thesis using g U16 b l ne narrow by simp
  next
    case (U8 i)
    then obtain j where g: "g = U8 j" using assms(2) by (cases g) auto
    have l: "length (print_hex 48 2 (unat i)) = 2" using unat_lt [of i] by (intro print_hex_length) auto
    have "ku_int 2 s = Inr (of_nat (unat i), k_skip 2 s)"
      using k_int [OF assms(3), of 2 "unat i" "border_text border @ r"] left l U8 unat_lt [of i] by simp
    then show ?thesis using g U8 b l ne narrow by simp
  next
    case (Bool x)
    then obtain y where "g = Bool y" using assms(2) by (cases g) auto
    then show ?thesis using Bool b t err by auto
  next
    case (Bytes bs)
    then obtain bs' where "g = Bytes bs'" "length bs' = length bs" using assms(2) by (cases g) auto
    then show ?thesis using Bytes b t err by simp
  next
    case (Carrier c)
    then obtain c' where g: "g = Carrier c'" "car_is_empty c'" using assms(2) by (cases g) auto
    have c: "car_len c < 2 ^ 32" "car_ok c" using assms(1) Carrier by auto
    have len: "length (car_bytes c) = car_len c" using c(2) by (simp add: car_bytes_def car_ok_def)
    have l: "length (print_hex 48 8 (car_len c)) = 8" using c(1) by (intro print_hex_length) auto
    have "k_left s = print_hex 48 8 (length (car_bytes c)) @ car_bytes c @ border_text border @ r"
      using left Carrier len by simp
    from k_sized(1) [OF assms(3) this] c(1) show ?thesis
      using g Carrier b len l err
      by (simp add: car_set_buf_def car_bytes_def car_ok_def car_mem_def unat32 add.assoc)
  next
    case (Str str)
    then obtain str' where g: "g = Str str'" using assms(2) by (cases g) auto
    have l: "length (print_hex 48 8 (length str)) = 8" using assms(1) Str by (intro print_hex_length) auto
    have "k_left s = print_hex 48 8 (length str) @ str @ border_text border @ r" using left Str by simp
    note z = k_sized [OF assms(3) this]
    show ?thesis
      using z(2) k_take(1,3) [OF z(3,4) refl] k_border(1) [OF k_take(4,5) [OF z(3,4) refl]] g Str b l err ne assms(1)
      by (simp add: add.assoc)
  qed (use assms(1) in simp)
qed

lemma ku_run:
  assumes "key_mirrors R v w" "k_ok border s" "k_left s = visit_key border v @ r"
  shows "\<exists>res. ku_visit w s = Inr (k_skip (length (visit_key border v)) s, res) \<and>
    k_ok border (k_skip (length (visit_key border v)) s) \<and> k_left (k_skip (length (visit_key border v)) s) = r \<and>
    R (key_result v) res"
  using assms
proof (induction arbitrary: s r rule: key_mirrors.induct)
  case (key_Done x y)
  then show ?case by simp
next
  case (key_Field f g k l name name')
  have left: "k_left s = (key_text f @ border_text border) @ visit_key border (k f) @ r" using key_Field.prems(2) by simp
  obtain f' where
    f': "ku_process s name' g = Inr (k_skip (length (key_text f @ border_text border)) s, f')" "field_same f f'"
      "k_ok border (k_skip (length (key_text f @ border_text border)) s)"
      "k_left (k_skip (length (key_text f @ border_text border)) s) = visit_key border (k f) @ r"
    using k_field [OF key_Field.hyps(1,2) key_Field.prems(1) left, of name'] by blast
  from key_Field.IH [OF f'(2-4)] f'(1) show ?case by (auto simp: add.assoc)
next
  case (key_Object v w k l name name')
  let ?n = "length (visit_key border v)" and ?b = "length (border_text border)"
  have left: "k_left s = visit_key border v @ border_text border @ visit_key border (k (Some (key_result v))) @ r"
    using key_Object.prems(2) by simp
  from key_Object.IH(1) [OF key_Object.prems(1) left] obtain y where
    y: "ku_visit w s = Inr (k_skip ?n s, y)" "k_ok border (k_skip ?n s)" "R (key_result v) y"
      "k_left (k_skip ?n s) = border_text border @ visit_key border (k (Some (key_result v))) @ r" by blast
  note b = k_border [OF y(2,4)]
  have e: "\<not> ku_error s" "\<not> ku_error (k_skip ?n s)" and same: "s\<lparr>ku_error := False\<rparr> = s"
    using key_Object.prems(1) y(2) by (simp_all add: k_ok_def)
  then have "ku_object (ku_visit w) s = Inr (k_skip (?n + ?b) s, Some y)"
    using y(1) b(1) by (simp add: ku_object_def ku_action_def same)
  moreover from key_Object.IH(2) [OF y(3), of "k_skip (?n + ?b) s" r] b(2,3) obtain res where
    "ku_visit (l (Some y)) (k_skip (?n + ?b) s) =
       Inr (k_skip (?n + ?b + length (visit_key border (k (Some (key_result v))))) s, res)"
    "k_ok border (k_skip (?n + ?b + length (visit_key border (k (Some (key_result v))))) s)"
    "k_left (k_skip (?n + ?b + length (visit_key border (k (Some (key_result v))))) s) = r"
    "R (key_result (k (Some (key_result v)))) res" by auto
  ultimately show ?case by (auto simp: add.assoc)
qed

lemma ku_action_text:
  assumes "key_mirrors R v w" "length (visit_key border v) < 2 ^ 32"
  shows "\<exists>s res. ku_action (ku_visit w) (ku_init (visit_key border v @ rest) (of_nat (length (visit_key border v))) border) =
    Inr (0, s, res) \<and> R (key_result v) res"
proof -
  let ?s = "ku_init (visit_key border v @ rest) (of_nat (length (visit_key border v))) border"
  have "(case border of None \<Rightarrow> 0 | Some b \<Rightarrow> of_nat (length b)) = (of_nat (length (border_text border)) :: u32)"
    by (cases border) (simp_all add: border_text_def)
  then have ok: "k_ok border ?s" "k_left ?s = visit_key border v @ []"
    using assms(2) by (simp_all add: ku_init_def k_ok_def k_left_def unat32)
  obtain res where "ku_visit w ?s = Inr (k_skip (length (visit_key border v)) ?s, res)" "R (key_result v) res"
    "k_ok border (k_skip (length (visit_key border v)) ?s)" using ku_run [OF assms(1) ok] by blast
  moreover have "ku_error_update (\<lambda>_. False) ?s = ?s" by (simp add: ku_init_def)
  ultimately show ?thesis by (auto simp: ku_action_def k_ok_def)
qed

section \<open>Properties\<close>

text \<open>
  Property C14. KeySerialize.cc: keys come back. Marshalling an object without terminated buffers, with 64-bit numbers below 2^32,
  carriers not longer than their memory and lengths that fit 32 bits, with other such objects as fields to any depth, into a buffer
  that has room for the key and one more byte returns 0 and appends exactly the text of the fields, each followed by the border,
  the objects among them too; unmarshalling that text, of less than 2^32 bytes, into an object that mirrors it (the same kinds of fields,
  no carrier that has a buffer already) returns 0 with equal values.
\<close>

theorem key_roundtrip:
  assumes "key_mirrors R v w" "eb_len b + length (visit_key border v) < length (eb_mem b)"
    "length (visit_key border v) < 2 ^ 32"
  shows "\<exists>s s' res. km_action (eb_reserve junk) (km_visit (eb_reserve junk) v) (km_init (b :: ebuf) border) = Inr (0, s, key_result v) \<and>
    eb_contents (km_buf s) = eb_contents b @ visit_key border v \<and>
    ku_action (ku_visit w) (ku_init (visit_key border v @ rest) (of_nat (length (visit_key border v))) border) = Inr (0, s', res) \<and>
    R (key_result v) res"
proof -
  have "km_room (length (visit_key (km_border (km_init b border)) v)) (km_init b border)" "eb_len b \<le> length (eb_mem b)"
    "\<not> km_error (km_init b border)" using assms(2) by (simp_all add: km_room_def km_init_def)
  from heap_buf.km_action_room [OF key_mirrors_ok [OF assms(1), THEN conjunct1] _ this(1,3)] this(2)
  show ?thesis using ku_action_text [OF assms(1,3), of rest] by (auto simp: km_init_def)
qed

definition key_object :: "field \<Rightarrow> field \<Rightarrow> field list kvisit" where
  "key_object f g = KObject ''id'' (KField ''number'' f (\<lambda>f'. KDone [f'])) (\<lambda>r.
     KField ''name'' g (\<lambda>g'. KDone (case r of None \<Rightarrow> [g'] | Some x \<Rightarrow> x @ [g'])))"

lemma key_roundtrip_witness:
  "\<exists>s s' res. km_action (eb_reserve (\<lambda>_. 0)) (km_visit (eb_reserve (\<lambda>_. 0)) (key_object (U16 255) (Str [97])))
      (km_init \<lparr>eb_mem = replicate 20 0, eb_len = 0\<rparr> (Some [45])) = Inr (0, s, [U16 255, Str [97]]) \<and>
    eb_contents (km_buf s) = [48, 48, 102, 102, 45, 45, 48, 48, 48, 48, 48, 48, 48, 49, 97, 45] \<and>
    ku_action (ku_visit (key_object (U16 0) (Str [])))
      (ku_init [48, 48, 102, 102, 45, 45, 48, 48, 48, 48, 48, 48, 48, 49, 97, 45] 16 (Some [45])) = Inr (0, s', [U16 255, Str [97]])"
proof -
  have m: "key_mirrors (=) (key_object (U16 255) (Str [97])) (key_object (U16 0) (Str []))"
    unfolding key_object_def by (intro key_Object key_Field key_Done) simp_all
  have h: "print_hex 48 4 255 = [48, 48, 102, 102]" "print_hex 48 8 1 = [48, 48, 48, 48, 48, 48, 48, 49]"
    by code_simp+
  have t: "visit_key (Some [45]) (key_object (U16 255) (Str [97])) =
      [48, 48, 102, 102, 45, 45, 48, 48, 48, 48, 48, 48, 48, 49, 97, 45]"
    using h by (simp add: key_object_def border_text_def)
  show ?thesis
    using key_roundtrip [OF m, of "\<lparr>eb_mem = replicate 20 0, eb_len = 0\<rparr>" "Some [45]" "\<lambda>_. 0" "[]", unfolded t]
    by (simp add: eb_contents_def) (simp add: key_object_def)
qed

text \<open>
  A divergence. KeySerialize.cc:176-180 and ExpandableBuffer.h: \<open>end_action\<close> reserves a buffer of one byte instead of one byte
  more, so without spare room the assertion of \<open>end()\<close> fails: marshalling any non-empty string into
  a new expandable buffer dies.
\<close>

theorem key_needs_room:
  assumes "str \<noteq> []" "length str < 2 ^ 32"
  shows "km_action (eb_reserve junk) (km_visit (eb_reserve junk) (KField name (Str str) (\<lambda>f. KDone x))) (km_init \<lparr>eb_mem = [], eb_len = 0\<rparr> None) =
    Inl Assert_failed"
proof -
  have l: "length (print_hex 48 8 (length str)) = 8" using assms(2) by (intro print_hex_length) auto
  let ?t = "print_hex 48 8 (length str)" and ?km = "\<lambda>m n. \<lparr>km_buf = \<lparr>eb_mem = m, eb_len = n\<rparr>, km_border = None, km_error = False\<rparr>"
  have num: "km_int (eb_reserve junk) ?t 8 (?km [] 0) = Inr (?km (?t @ [0]) 8)"
    using l by (simp add: km_int_def eb_reserve_def eb_write_end_def eb_end_def eb_at_def eb_set_len_def mem_write_def)
  let ?m = "(?t @ [0]) @ map junk [9..<8 + length str]"
  have len: "length ?m = 8 + length str" using l assms(1) by (cases str) simp_all
  have res: "eb_reserve junk (8 + length str) \<lparr>eb_mem = ?t @ [0], eb_len = 8\<rparr> = Inr \<lparr>eb_mem = ?m, eb_len = 8\<rparr>"
    using l by (simp add: eb_reserve_def)
  have "mem_write 8 str ?m = Inr (?t @ str)" using l len by (simp add: mem_write_def)
  then have wr: "eb_write_end str \<lparr>eb_mem = ?m, eb_len = 8\<rparr> = Inr \<lparr>eb_mem = ?t @ str, eb_len = 8\<rparr>"
    using len assms(1) by (simp add: eb_write_end_def eb_end_def eb_at_def)
  have mem: "km_mem (eb_reserve junk) str (length str) (?km (?t @ [0]) 8) = Inr (?km (?t @ str) (8 + length str))"
    using res wr l by (simp add: km_mem_def km_append_def eb_set_len_def)
  have "km_end_action (eb_reserve junk) (?km (?t @ str) (8 + length str)) = Inl Assert_failed"
    using l assms(1) by (simp add: km_end_action_def eb_reserve_def eb_write_end_def eb_end_def)
  then show ?thesis
    using num mem assms(2) by (simp add: km_action_def km_init_def km_put_border_def unat32)
qed

lemma key_needs_room_witness:
  "km_action (eb_reserve (\<lambda>_. 0)) (km_visit (eb_reserve (\<lambda>_. 0)) (KField ''key'' (Str [97]) (\<lambda>f. KDone ()))) (km_init \<lparr>eb_mem = [], eb_len = 0\<rparr> None) =
    Inl Assert_failed"
  by (rule key_needs_room) simp_all

end
