(* ===== verification/InitSequencer.thy ===== *)
theory InitSequencer
  imports Prelude "HOL-Library.List_Lexorder" "HOL-Library.Char_ord"
begin

text \<open>
  util/InitSequencer.cc and util/InitSequencer.h: the steps of an initialization and their
  dependencies, the marking of the steps that a target needs, the topological sort by the
  finishing times of a depth-first search, and running the steps in that order. The map of
  the steps is the list of its entries in the order of their names. What \<open>run_component\<close> returns is an
  argument; a search that recurses for ever is the value \<open>None\<close>.
\<close>

section \<open>Steps\<close>

record step =
  st_deps :: "string list"
  st_done :: bool
  st_mark :: bool
  st_time :: int
  st_config :: bool

type_synonym steps = "(string \<times> step) list"

record sequencer =
  sq_steps :: steps
  sq_extra :: "(string \<times> string) list"
  sq_dfs_time :: int

text \<open>The name and the state of a new step; \<open>config\<close> for an \<open>InitConfigStep\<close>.\<close>

definition step_name :: "string \<Rightarrow> string \<Rightarrow> string" where
  "step_name namespace name = namespace @ ''::'' @ name"

definition step_new :: "string list \<Rightarrow> bool \<Rightarrow> step" where
  "step_new deps config = \<lparr>st_deps = deps, st_done = False, st_mark = False, st_time = - 1, st_config = config\<rparr>"

definition sq_upd :: "string \<Rightarrow> (step \<Rightarrow> step) \<Rightarrow> steps \<Rightarrow> steps" where
  "sq_upd name f = map (\<lambda>(n, s). (n, if n = name then f s else s))"

definition add_step :: "string \<Rightarrow> step \<Rightarrow> sequencer \<Rightarrow> sequencer" where
  "add_step name s sq =
     (if map_of (sq_steps sq) name \<noteq> None then sq else sq\<lparr>sq_steps := entry_insert name s (sq_steps sq)\<rparr>)"

text \<open>Registering a step keeps the entries in the order of their names, without duplicates.\<close>

lemma add_step_sorted:
  "sorted_wrt (<) (map fst (sq_steps sq)) \<Longrightarrow> sorted_wrt (<) (map fst (sq_steps (add_step name s sq)))"
  by (simp add: add_step_def map_of_eq_None_iff entry_insert_sorted del: not_None_eq)

definition get_step :: "string \<Rightarrow> steps \<Rightarrow> step run" where
  "get_step name steps = (case map_of steps name of None \<Rightarrow> Inl Assert_failed | Some s \<Rightarrow> Inr s)"

definition sq_reset :: "sequencer \<Rightarrow> sequencer" where
  "sq_reset sq = sq\<lparr>sq_steps := map (\<lambda>(n, s). (n, s\<lparr>st_done := False\<rparr>)) (sq_steps sq)\<rparr>"

definition configuration_done :: "string \<Rightarrow> sequencer \<Rightarrow> sequencer" where
  "configuration_done name sq = sq\<lparr>sq_steps := sq_upd name (\<lambda>s. s\<lparr>st_done := True\<rparr>) (sq_steps sq)\<rparr>"

section \<open>Extra dependencies\<close>

definition add_extra_dep :: "string \<Rightarrow> string \<Rightarrow> sequencer \<Rightarrow> sequencer" where
  "add_extra_dep new_dep depender sq = sq\<lparr>sq_extra := sq_extra sq @ [(new_dep, depender)]\<rparr>"

definition add_dep :: "string \<Rightarrow> step \<Rightarrow> step" where
  "add_dep d s = s\<lparr>st_deps := st_deps s @ [d]\<rparr>"

fun extra_loop :: "(string \<times> string) list \<Rightarrow> steps \<Rightarrow> steps run" where
  "extra_loop [] steps = Inr steps"
| "extra_loop ((new_dep, depender) # es) steps =
     bind_run (assert_run (map_of steps new_dep \<noteq> None)) (\<lambda>_.
     bind_run (assert_run (map_of steps depender \<noteq> None)) (\<lambda>_.
     extra_loop es (sq_upd depender (add_dep new_dep) steps)))"

definition add_extra_deps :: "sequencer \<Rightarrow> sequencer run" where
  "add_extra_deps sq = bind_run (extra_loop (sq_extra sq) (sq_steps sq)) (\<lambda>steps.
     Inr (sq\<lparr>sq_steps := steps, sq_extra := []\<rparr>))"

section \<open>Marking\<close>

text \<open>The dependencies of a step that are not marked yet go on the stack, whose top is the head.\<close>

fun mark_push :: "steps \<Rightarrow> string list \<Rightarrow> string list \<Rightarrow> string list run" where
  "mark_push steps [] stack = Inr stack"
| "mark_push steps (d # ds) stack = (case map_of steps d of
      None \<Rightarrow> Inl Panicked
    | Some s \<Rightarrow> mark_push steps ds (if \<not> st_mark s then d # stack else stack))"

definition is_marked :: "steps \<Rightarrow> string \<Rightarrow> bool" where
  "is_marked steps n \<longleftrightarrow> (\<exists>s \<in> set_option (map_of steps n). st_mark s)"

lemma map_of_upd: "map_of (sq_upd name f steps) n = (if n = name then map_option f (map_of steps n) else map_of steps n)"
  by (induction steps) (auto simp: sq_upd_def)

lemma fst_upd [simp]: "map fst (sq_upd name f steps) = map fst steps"
  by (induction steps) (auto simp: sq_upd_def)

lemma fst_set_upd [simp]: "fst ` set (sq_upd name f steps) = fst ` set steps"
  by (metis fst_upd list.set_map)

lemma is_marked_upd: "map_of steps name \<noteq> None \<Longrightarrow>
    is_marked (sq_upd name (\<lambda>s. s\<lparr>st_mark := True\<rparr>) steps) n \<longleftrightarrow> n = name \<or> is_marked steps n"
  by (auto simp: is_marked_def map_of_upd)

lemma mark_push_Inr: "mark_push steps ds stack = Inr stack' \<Longrightarrow>
    (\<exists>new. stack' = new @ stack \<and> set new = {d \<in> set ds. \<not> is_marked steps d}) \<and> (\<forall>d\<in>set ds. map_of steps d \<noteq> None)"
  by (induction ds arbitrary: stack) (force simp: is_marked_def split: option.splits if_splits)+

definition unmarked :: "steps \<Rightarrow> nat" where
  "unmarked steps = card {n \<in> fst ` set steps. \<not> is_marked steps n}"

lemma unmarked_less:
  assumes "map_of steps n \<noteq> None" "\<not> is_marked steps n"
  shows "unmarked (sq_upd n (\<lambda>s. s\<lparr>st_mark := True\<rparr>) steps) < unmarked steps"
proof -
  have "n \<in> fst ` set steps" using assms(1) by (simp add: map_of_eq_None_iff)
  then have "{k \<in> fst ` set steps. \<not> is_marked (sq_upd n (\<lambda>s. s\<lparr>st_mark := True\<rparr>) steps) k} \<subset>
      {k \<in> fst ` set steps. \<not> is_marked steps k}"
    using assms by (auto simp: is_marked_upd)
  then show ?thesis unfolding unmarked_def by (simp add: psubset_card_mono)
qed

function mark_loop :: "steps \<Rightarrow> string list \<Rightarrow> steps run" where
  "mark_loop steps [] = Inr steps"
| "mark_loop steps (n # stack) = (case map_of steps n of
      None \<Rightarrow> Inl Undefined
    | Some s \<Rightarrow>
        (let steps1 = (if \<not> st_mark s then sq_upd n (\<lambda>s. s\<lparr>st_mark := True\<rparr>) steps else steps)
         in case mark_push steps1 (st_deps s) stack of
              Inl f \<Rightarrow> Inl f
            | Inr stack1 \<Rightarrow> mark_loop steps1 stack1))"
  by pat_completeness auto
termination
proof (relation "measures [\<lambda>(steps, stack). unmarked steps, \<lambda>(steps, stack). length (filter (is_marked steps) stack)]",
    goal_cases)
  case (2 steps n stack s steps1 stack1)
  obtain new where new: "stack1 = new @ stack" "set new = {d \<in> set (st_deps s). \<not> is_marked steps1 d}"
    using mark_push_Inr [OF 2(3)] by blast
  show ?case
  proof (cases "st_mark s")
    case True
    have "filter (is_marked steps) new = []" using new(2) True 2(2) by (auto simp: filter_empty_conv)
    moreover have "is_marked steps n" using 2(1) True by (simp add: is_marked_def)
    ultimately show ?thesis using True 2(2) new(1) by simp
  next
    case False
    then have "unmarked steps1 < unmarked steps" using 2(1,2) unmarked_less [of steps n] by (simp add: is_marked_def)
    then show ?thesis by simp
  qed
qed simp

definition mark_dep :: "string \<Rightarrow> steps \<Rightarrow> steps run" where
  "mark_dep target steps = (let steps1 = map (\<lambda>(n, s). (n, s\<lparr>st_mark := False\<rparr>)) steps
     in bind_run (assert_run (map_of steps1 target \<noteq> None)) (\<lambda>_. mark_loop steps1 [target]))"

section \<open>Topological sort\<close>

text \<open>The names of the steps that depend on \<open>d\<close>.\<close>

definition dep_edges :: "steps \<Rightarrow> string \<Rightarrow> string list" where
  "dep_edges steps d = concat (map (\<lambda>(n, s). map (\<lambda>_. n) (filter (\<lambda>j. j = d) (st_deps s))) steps)"

definition time_of :: "steps \<Rightarrow> string \<Rightarrow> int" where
  "time_of steps n = (case map_of steps n of None \<Rightarrow> - 1 | Some s \<Rightarrow> st_time s)"

definition set_time :: "string \<Rightarrow> int \<Rightarrow> steps \<Rightarrow> steps" where
  "set_time n t = sq_upd n (\<lambda>s. s\<lparr>st_time := t\<rparr>)"

text \<open>
  The loop of \<open>dfs\<close> over the edges of a step, with the recursive call for each step that has no
  time yet. Every name in an edge is that of a step.
\<close>

partial_function (option) dfs_edges :: "(string \<Rightarrow> string list) \<Rightarrow> string list \<Rightarrow> steps \<Rightarrow> int \<Rightarrow> (steps \<times> int) option" where
  "dfs_edges edges cs steps t = (case cs of
      [] \<Rightarrow> Some (steps, t)
    | c # rest \<Rightarrow>
        if time_of steps c = - 1
        then Option.bind (dfs_edges edges (edges c) steps t) (\<lambda>(steps1, t1).
          dfs_edges edges rest (set_time c t1 steps1) (t1 + 1))
        else dfs_edges edges rest steps t)"

definition dfs :: "(string \<Rightarrow> string list) \<Rightarrow> string \<Rightarrow> steps \<Rightarrow> int \<Rightarrow> (steps \<times> int) option" where
  "dfs edges c steps t = Option.bind (dfs_edges edges (edges c) steps t) (\<lambda>(steps1, t1).
     Some (set_time c t1 steps1, t1 + 1))"

fun topo_loop :: "(string \<Rightarrow> string list) \<Rightarrow> string list \<Rightarrow> steps \<Rightarrow> int \<Rightarrow> (steps \<times> int) option" where
  "topo_loop edges [] steps t = Some (steps, t)"
| "topo_loop edges (c # stack) steps t = Option.bind (dfs edges c steps t) (\<lambda>(steps1, t1).
     topo_loop edges stack steps1 t1)"

definition parentless :: "steps \<Rightarrow> string list" where
  "parentless steps = map fst (filter (\<lambda>(n, s). st_deps s = []) steps)"

definition topo_sort :: "steps \<Rightarrow> (steps \<times> int) option" where
  "topo_sort steps = topo_loop (dep_edges steps) (rev (parentless steps))
     (map (\<lambda>(n, s). (n, s\<lparr>st_time := - 1\<rparr>)) steps) 0"

section \<open>Running the steps\<close>

fun deps_done :: "string list \<Rightarrow> steps \<Rightarrow> bool run" where
  "deps_done [] steps = Inr True"
| "deps_done (d # ds) steps = bind_run (get_step d steps) (\<lambda>s.
     bind_run (deps_done ds steps) (\<lambda>sat. Inr (st_done s \<and> sat)))"

text \<open>\<open>InitStep::run\<close> and \<open>InitConfigStep::run\<close>: the result and the steps afterwards.\<close>

definition step_run :: "(string \<Rightarrow> int) \<Rightarrow> string \<Rightarrow> step \<Rightarrow> steps \<Rightarrow> int \<times> steps" where
  "step_run outcome n s steps =
     (if st_config s then (0, steps)
      else if outcome n = 0 then (0, sq_upd n (\<lambda>s. s\<lparr>st_done := True\<rparr>) steps)
      else (outcome n, steps))"

text \<open>The result, the steps, and the names of the steps that were run, in order.\<close>

fun run_loop :: "(string \<Rightarrow> int) \<Rightarrow> string list \<Rightarrow> steps \<Rightarrow> (int \<times> steps \<times> string list) run" where
  "run_loop outcome [] steps = Inr (0, steps, [])"
| "run_loop outcome (n # ns) steps = (case map_of steps n of
      None \<Rightarrow> Inl Undefined
    | Some s \<Rightarrow>
        if st_mark s \<and> \<not> st_done s then
          bind_run (deps_done (st_deps s) steps) (\<lambda>sat.
          bind_run (assert_run sat) (\<lambda>_.
          let (err, steps1) = step_run outcome n s steps
          in if err \<noteq> 0 then Inr (err, steps1, [n])
             else bind_run (run_loop outcome ns steps1) (\<lambda>(err1, steps2, ran). Inr (err1, steps2, n # ran))))
        else run_loop outcome ns steps)"

text \<open>
  \<open>std::sort\<close> by decreasing time. Only steps that the search did not reach have equal times; the order
  of those is that of the map here.
\<close>

definition run_steps :: "(string \<Rightarrow> int) \<Rightarrow> steps \<Rightarrow> (int \<times> steps \<times> string list) run" where
  "run_steps outcome steps = run_loop outcome (map fst (sort_key (\<lambda>(n, s). - st_time s) steps)) steps"

definition seq_start :: "(string \<Rightarrow> int) \<Rightarrow> string \<Rightarrow> sequencer \<Rightarrow> (int \<times> sequencer \<times> string list) run option" where
  "seq_start outcome target sq = (case bind_run (add_extra_deps sq) (\<lambda>sq1.
       bind_run (mark_dep target (sq_steps sq1)) (\<lambda>steps. Inr (sq1\<lparr>sq_steps := steps\<rparr>))) of
      Inl f \<Rightarrow> Some (Inl f)
    | Inr sq1 \<Rightarrow> Option.bind (topo_sort (sq_steps sq1)) (\<lambda>(steps, t).
        Some (bind_run (run_steps outcome steps) (\<lambda>(err, steps1, ran).
          Inr (err, sq1\<lparr>sq_steps := steps1, sq_dfs_time := t\<rparr>, ran)))))"

section \<open>What marking computes\<close>

definition deps_of :: "steps \<Rightarrow> string \<Rightarrow> string list" where
  "deps_of steps n = (case map_of steps n of None \<Rightarrow> [] | Some s \<Rightarrow> st_deps s)"

text \<open>The pairs of a step and a step it depends on, and the steps that a target needs.\<close>

definition depends :: "steps \<Rightarrow> (string \<times> string) set" where
  "depends steps = {(n, d). d \<in> set (deps_of steps n)}"

definition needed :: "steps \<Rightarrow> string \<Rightarrow> string set" where
  "needed steps target = (depends steps)\<^sup>* `` {target}"

definition known :: "steps \<Rightarrow> string \<Rightarrow> bool" where
  "known steps n \<longleftrightarrow> map_of steps n \<noteq> None"

text \<open>The steps but for their marks, times and done flags.\<close>

definition same_steps :: "steps \<Rightarrow> steps \<Rightarrow> bool" where
  "same_steps steps steps' \<longleftrightarrow> map fst steps' = map fst steps \<and> (\<forall>n. known steps' n = known steps n) \<and>
     (\<forall>n. deps_of steps' n = deps_of steps n) \<and>
     (\<forall>n. map_option st_config (map_of steps' n) = map_option st_config (map_of steps n))"

lemma same_steps_refl [simp]: "same_steps steps steps"
  by (simp add: same_steps_def)

lemma same_steps_trans: "same_steps a b \<Longrightarrow> same_steps b c \<Longrightarrow> same_steps a c"
  by (simp add: same_steps_def)

lemma same_steps_depends: "same_steps a b \<Longrightarrow> depends b = depends a"
  by (simp add: same_steps_def depends_def)

lemma same_steps_upd:
  "(\<And>s. st_deps (f s) = st_deps s \<and> st_config (f s) = st_config s) \<Longrightarrow> same_steps steps (sq_upd n f steps)"
  by (auto simp: same_steps_def known_def deps_of_def map_of_upd option.map_comp split: option.splits intro: option.map_cong)

lemma map_of_all: "map_of (map (\<lambda>(n, s). (n, f s)) steps) n = map_option f (map_of steps n)"
  by (induction steps) auto

lemma fst_all: "map fst (map (\<lambda>(n, s). (n, f s)) steps) = map fst steps"
  by (induction steps) auto

lemma same_steps_all:
  "(\<And>s. st_deps (f s) = st_deps s \<and> st_config (f s) = st_config s) \<Longrightarrow>
    same_steps steps (map (\<lambda>(n, s). (n, f s)) steps)"
  unfolding same_steps_def known_def deps_of_def map_of_all fst_all
  by (auto simp: option.map_comp split: option.splits intro: option.map_cong)

lemma mark_push_ok: "\<forall>d\<in>set ds. known steps d \<Longrightarrow> \<exists>stack'. mark_push steps ds stack = Inr stack'"
  by (induction ds arbitrary: stack) (auto simp: known_def)

lemma depends_iff: "map_of steps n = Some s \<Longrightarrow> (n, d) \<in> depends steps \<longleftrightarrow> d \<in> set (st_deps s)"
  by (simp add: depends_def deps_of_def)

lemma mark_loop_correct:
  assumes "\<forall>n \<in> needed steps target. known steps n" "set stack \<subseteq> needed steps target"
    and "\<forall>n. is_marked steps n \<longrightarrow> n \<in> needed steps target \<and> (\<forall>d. (n, d) \<in> depends steps \<longrightarrow> is_marked steps d \<or> d \<in> set stack)"
    and "is_marked steps target \<or> target \<in> set stack"
  shows "\<exists>steps'. mark_loop steps stack = Inr steps' \<and> same_steps steps steps' \<and>
    (\<forall>n. is_marked steps' n \<longleftrightarrow> n \<in> needed steps target) \<and>
    (\<forall>n. map_option st_done (map_of steps' n) = map_option st_done (map_of steps n))"
  using assms
proof (induction steps stack rule: mark_loop.induct)
  case (1 steps)
  have "is_marked steps n" if "(target, n) \<in> (depends steps)\<^sup>*" for n
    using that by (induction rule: rtrancl_induct) (use "1.prems" in auto)
  then have "is_marked steps n \<longleftrightarrow> n \<in> needed steps target" for n
    using "1.prems"(3) unfolding needed_def by blast
  then show ?case by simp
next
  case (2 steps n stack)
  have n: "n \<in> needed steps target" using "2.prems"(2) by simp
  then obtain s where s: "map_of steps n = Some s" using "2.prems"(1) by (auto simp: known_def)
  define steps1 where "steps1 = (if \<not> st_mark s then sq_upd n (\<lambda>s. s\<lparr>st_mark := True\<rparr>) steps else steps)"
  have same: "same_steps steps steps1" by (auto simp: steps1_def intro: same_steps_upd)
  have marked: "is_marked steps1 k \<longleftrightarrow> k = n \<or> is_marked steps k" for k
    using s is_marked_upd [of steps n k] by (cases "st_mark s") (auto simp: steps1_def is_marked_def [of steps n])
  have dn: "map_option st_done (map_of steps1 k) = map_option st_done (map_of steps k)" for k
    by (simp add: steps1_def map_of_upd option.map_comp comp_def)
  have needed1: "needed steps1 = needed steps" using same_steps_depends [OF same] by (simp add: needed_def [abs_def])
  have deps: "d \<in> needed steps target" if "d \<in> set (st_deps s)" for d
    using n depends_iff [OF s, of d] that by (auto simp: needed_def intro: rtrancl_into_rtrancl)
  then have "\<forall>d\<in>set (st_deps s). known steps1 d" using "2.prems"(1) same by (simp add: same_steps_def)
  then obtain stack1 where push: "mark_push steps1 (st_deps s) stack = Inr stack1" using mark_push_ok by blast
  then obtain new where new: "stack1 = new @ stack" "set new = {d \<in> set (st_deps s). \<not> is_marked steps1 d}"
    using mark_push_Inr by blast
  have "\<exists>steps'. mark_loop steps1 stack1 = Inr steps' \<and> same_steps steps1 steps' \<and>
    (\<forall>n. is_marked steps' n \<longleftrightarrow> n \<in> needed steps1 target) \<and>
    (\<forall>n. map_option st_done (map_of steps' n) = map_option st_done (map_of steps1 n))"
  proof (rule "2.IH" [OF s steps1_def push])
    show "\<forall>n \<in> needed steps1 target. known steps1 n" using "2.prems"(1) same needed1 by (simp add: same_steps_def)
    show "set stack1 \<subseteq> needed steps1 target" using "2.prems"(2) new deps needed1 by auto
    show "is_marked steps1 target \<or> target \<in> set stack1" using "2.prems"(4) new marked by auto
    show "\<forall>m. is_marked steps1 m \<longrightarrow> m \<in> needed steps1 target \<and>
        (\<forall>d. (m, d) \<in> depends steps1 \<longrightarrow> is_marked steps1 d \<or> d \<in> set stack1)"
    proof (intro allI impI conjI)
      fix m assume m: "is_marked steps1 m"
      show "m \<in> needed steps1 target" using m marked n "2.prems"(3) needed1 by auto
      fix d assume d: "(m, d) \<in> depends steps1"
      show "is_marked steps1 d \<or> d \<in> set stack1"
      proof (cases "m = n")
        case True
        then have "d \<in> set (st_deps s)" using d depends_iff [OF s] same_steps_depends [OF same] by simp
        then show ?thesis using new by auto
      next
        case False
        then have "is_marked steps m" using m marked by simp
        then have "is_marked steps d \<or> d \<in> set (n # stack)" using "2.prems"(3) d same_steps_depends [OF same] by auto
        then show ?thesis using new marked by auto
      qed
    qed
  qed
  moreover have "mark_loop steps (n # stack) = mark_loop steps1 stack1" using s push by (simp add: steps1_def Let_def)
  ultimately show ?case using same same_steps_trans needed1 dn by metis
qed

lemma mark_dep_correct:
  assumes "\<forall>n \<in> needed steps target. known steps n"
  shows "\<exists>steps'. mark_dep target steps = Inr steps' \<and> same_steps steps steps' \<and>
    (\<forall>n. is_marked steps' n \<longleftrightarrow> n \<in> needed steps target) \<and>
    (\<forall>n. map_option st_done (map_of steps' n) = map_option st_done (map_of steps n))"
proof -
  let ?s = "map (\<lambda>(n, s). (n, s\<lparr>st_mark := False\<rparr>)) steps"
  have same: "same_steps steps ?s" by (rule same_steps_all) simp
  then have needed: "needed ?s = needed steps" using same_steps_depends [OF same] by (simp add: needed_def [abs_def])
  have dn: "map_option st_done (map_of ?s n) = map_option st_done (map_of steps n)" for n
    by (simp add: map_of_all option.map_comp comp_def)
  have none: "\<not> is_marked ?s n" for n by (auto simp: is_marked_def map_of_all)
  have t: "target \<in> needed steps target" by (simp add: needed_def)
  have kn: "known ?s n = known steps n" for n using same by (simp add: same_steps_def)
  have "\<exists>steps'. mark_loop ?s [target] = Inr steps' \<and> same_steps ?s steps' \<and>
    (\<forall>n. is_marked steps' n \<longleftrightarrow> n \<in> needed ?s target) \<and>
    (\<forall>n. map_option st_done (map_of steps' n) = map_option st_done (map_of ?s n))"
    by (rule mark_loop_correct) (use assms t none in \<open>auto simp: needed kn\<close>)
  then obtain steps' where m: "mark_loop ?s [target] = Inr steps'" "same_steps ?s steps'"
    "\<And>n. is_marked steps' n \<longleftrightarrow> n \<in> needed ?s target"
    "\<And>n. map_option st_done (map_of steps' n) = map_option st_done (map_of ?s n)" by blast
  have "mark_dep target steps = mark_loop ?s [target]"
    using assms t kn [of target] by (simp add: mark_dep_def Let_def known_def)
  then show ?thesis using m(1) same_steps_trans [OF same m(2)] m(3,4) needed dn
    by (intro exI [of _ steps'] conjI allI) simp_all
qed

section \<open>The search\<close>

definition timeless :: "steps \<Rightarrow> steps" where
  "timeless steps = map (\<lambda>(n, s). (n, s\<lparr>st_time := 0\<rparr>)) steps"

lemma timeless_set_time [simp]: "timeless (set_time c t steps) = timeless steps"
  by (auto simp: timeless_def set_time_def sq_upd_def)

lemma timeless_known: "known (timeless steps) n = known steps n"
  by (simp add: timeless_def known_def map_of_all)

lemma timeless_depends: "depends (timeless steps) = depends steps"
  by (auto simp: depends_def deps_of_def timeless_def map_of_all split: option.splits)

lemma time_of_set [simp]: "known steps c \<Longrightarrow> time_of (set_time c t steps) n = (if n = c then t else time_of steps n)"
  by (auto simp: time_of_def set_time_def map_of_upd known_def)

text \<open>
  Between two steps of the search: the times are different numbers below the counter, and what
  depends on a step with a time has a smaller time.
\<close>

definition topo_inv :: "(string \<times> string) set \<Rightarrow> steps \<Rightarrow> int \<Rightarrow> bool" where
  "topo_inv D steps t \<longleftrightarrow> 0 \<le> t \<and> (\<forall>n. time_of steps n \<noteq> - 1 \<longrightarrow> 0 \<le> time_of steps n \<and> time_of steps n < t) \<and>
     (\<forall>n m. time_of steps n \<noteq> - 1 \<and> time_of steps n = time_of steps m \<longrightarrow> n = m) \<and>
     (\<forall>n d. (n, d) \<in> D \<and> time_of steps d \<noteq> - 1 \<longrightarrow> time_of steps n \<noteq> - 1 \<and> time_of steps n < time_of steps d)"

definition dfs_post :: "(string \<times> string) set \<Rightarrow> string list \<Rightarrow> steps \<Rightarrow> (steps \<times> int) option \<Rightarrow> bool" where
  "dfs_post D cs steps r \<longleftrightarrow> (\<exists>steps' t'. r = Some (steps', t') \<and> topo_inv D steps' t' \<and> timeless steps' = timeless steps \<and>
     (\<forall>n. time_of steps n \<noteq> - 1 \<longrightarrow> time_of steps' n = time_of steps n) \<and> (\<forall>c\<in>set cs. time_of steps' c \<noteq> - 1) \<and>
     (\<forall>n. time_of steps' n \<noteq> - 1 \<and> time_of steps n = - 1 \<longrightarrow> (\<exists>c\<in>set cs. (n, c) \<in> D\<^sup>*)))"

lemma dfs_postE:
  assumes "dfs_post D cs steps r"
  obtains s1 t1 where "r = Some (s1, t1)" "topo_inv D s1 t1" "timeless s1 = timeless steps"
    "\<And>n. time_of steps n \<noteq> - 1 \<Longrightarrow> time_of s1 n = time_of steps n" "\<And>c. c \<in> set cs \<Longrightarrow> time_of s1 c \<noteq> - 1"
    "\<And>n. time_of s1 n \<noteq> - 1 \<Longrightarrow> time_of steps n = - 1 \<Longrightarrow> \<exists>c\<in>set cs. (n, c) \<in> D\<^sup>*"
  using assms unfolding dfs_post_def by blast

lemma dfs_edges_Nil [simp]: "dfs_edges edges [] steps t = Some (steps, t)"
  by (simp add: dfs_edges.simps)

lemma dfs_edges_Cons: "dfs_edges edges (c # cs) steps t =
    (if time_of steps c = - 1 then Option.bind (dfs edges c steps t) (\<lambda>(steps1, t1). dfs_edges edges cs steps1 t1)
     else dfs_edges edges cs steps t)"
  by (subst dfs_edges.simps) (auto simp: dfs_def Option.bind_assoc intro!: arg_cong2 [where f = Option.bind] split: prod.splits)

lemma dfs_post_Nil: "topo_inv D steps t \<Longrightarrow> dfs_post D [] steps (Some (steps, t))"
  by (simp add: dfs_post_def)

lemma dfs_post_seq:
  assumes "dfs_post D [c] steps r" "\<And>steps1 t1. r = Some (steps1, t1) \<Longrightarrow> topo_inv D steps1 t1 \<Longrightarrow>
      timeless steps1 = timeless steps \<Longrightarrow> (\<And>n. time_of steps n \<noteq> - 1 \<Longrightarrow> time_of steps1 n = time_of steps n) \<Longrightarrow>
      (\<And>n. time_of steps1 n \<noteq> - 1 \<Longrightarrow> time_of steps n = - 1 \<Longrightarrow> (n, c) \<in> D\<^sup>*) \<Longrightarrow> dfs_post D cs steps1 (f steps1 t1)"
  shows "dfs_post D (c # cs) steps (Option.bind r (\<lambda>(steps1, t1). f steps1 t1))"
proof -
  from assms(1) obtain s1 t1 where 1: "r = Some (s1, t1)" "topo_inv D s1 t1" "timeless s1 = timeless steps"
    "\<And>n. time_of steps n \<noteq> - 1 \<Longrightarrow> time_of s1 n = time_of steps n" "\<And>k. k \<in> set [c] \<Longrightarrow> time_of s1 k \<noteq> - 1"
    "\<And>n. time_of s1 n \<noteq> - 1 \<Longrightarrow> time_of steps n = - 1 \<Longrightarrow> \<exists>k\<in>set [c]. (n, k) \<in> D\<^sup>*"
    by (rule dfs_postE) blast
  have new: "\<And>n. time_of s1 n \<noteq> - 1 \<Longrightarrow> time_of steps n = - 1 \<Longrightarrow> (n, c) \<in> D\<^sup>*" using 1(6) by simp
  have post: "dfs_post D cs s1 (f s1 t1)" by (rule assms(2) [OF 1(1-3)]) (rule 1(4) new, assumption+)+
  from post obtain s2 t2 where 2: "f s1 t1 = Some (s2, t2)" "topo_inv D s2 t2" "timeless s2 = timeless s1"
    "\<And>n. time_of s1 n \<noteq> - 1 \<Longrightarrow> time_of s2 n = time_of s1 n" "\<And>c. c \<in> set cs \<Longrightarrow> time_of s2 c \<noteq> - 1"
    "\<And>n. time_of s2 n \<noteq> - 1 \<Longrightarrow> time_of s1 n = - 1 \<Longrightarrow> \<exists>c\<in>set cs. (n, c) \<in> D\<^sup>*"
    by (rule dfs_postE) (rule that, assumption+)
  show ?thesis unfolding dfs_post_def
  proof (intro exI conjI)
    show "Option.bind r (\<lambda>(steps1, t1). f steps1 t1) = Some (s2, t2)" using 1(1) 2(1) by simp
    show "\<forall>n. time_of steps n \<noteq> - 1 \<longrightarrow> time_of s2 n = time_of steps n" using 1(4) 2(4) by metis
    show "\<forall>c\<in>set (c # cs). time_of s2 c \<noteq> - 1" using 1(5) [of c] 2(4) [of c] 2(5) by auto
    show "\<forall>n. time_of s2 n \<noteq> - 1 \<and> time_of steps n = - 1 \<longrightarrow> (\<exists>c\<in>set (c # cs). (n, c) \<in> D\<^sup>*)"
      using new 2(6) unfolding list.set by blast
  qed (use 1 2 in simp_all)
qed

lemma dfs_edges_list:
  assumes "\<And>c steps t. c \<in> set cs \<Longrightarrow> timeless steps = B \<Longrightarrow> topo_inv D steps t \<Longrightarrow> time_of steps c = - 1 \<Longrightarrow>
      dfs_post D [c] steps (dfs edges c steps t)"
    and "timeless steps = B" "topo_inv D steps t"
  shows "dfs_post D cs steps (dfs_edges edges cs steps t)"
  using assms
proof (induction cs arbitrary: steps t)
  case Nil
  then show ?case by (simp add: dfs_post_Nil)
next
  case (Cons c cs)
  show ?case
  proof (cases "time_of steps c = - 1")
    case True
    have "dfs_post D (c # cs) steps (Option.bind (dfs edges c steps t) (\<lambda>(steps1, t1). dfs_edges edges cs steps1 t1))"
      by (rule dfs_post_seq [OF Cons.prems(1)]) (use Cons True in auto)
    then show ?thesis using True by (simp add: dfs_edges_Cons)
  next
    case False
    have "dfs_post D cs steps (dfs_edges edges cs steps t)" using Cons by auto
    then show ?thesis using False by (fastforce simp: dfs_edges_Cons dfs_post_def)
  qed
qed

text \<open>The steps from which the search comes back: those whose dependers are such steps.\<close>

inductive_set grounded :: "(string \<times> string) set \<Rightarrow> string set" for D where
  groundedI: "(\<And>n. (n, d) \<in> D \<Longrightarrow> n \<in> grounded D) \<Longrightarrow> d \<in> grounded D"

lemma grounded_no_cycle: "x \<in> grounded D \<Longrightarrow> (x, x) \<notin> D\<^sup>+"
proof (induction rule: grounded.induct)
  case (groundedI x)
  show ?case
  proof
    assume "(x, x) \<in> D\<^sup>+"
    then obtain y where y: "(x, y) \<in> D\<^sup>*" "(y, x) \<in> D" by (metis tranclD2)
    then have "(y, y) \<in> D\<^sup>+" by (metis rtrancl_into_trancl2)
    with groundedI y(2) show False by blast
  qed
qed

lemma dfs_node:
  assumes "c \<in> grounded D" "\<And>d. set (edges d) = {n. (n, d) \<in> D}" "\<And>n d. (n, d) \<in> D \<Longrightarrow> known B n"
    and "known B c" "timeless steps = B" "topo_inv D steps t" "time_of steps c = - 1"
  shows "dfs_post D [c] steps (dfs edges c steps t)"
  using assms
proof (induction c arbitrary: steps t rule: grounded.induct)
  case (groundedI c)
  have noc: "(c, c) \<notin> D\<^sup>+" by (rule grounded_no_cycle) (use groundedI in \<open>auto intro: grounded.groundedI\<close>)
  have "dfs_post D (edges c) steps (dfs_edges edges (edges c) steps t)"
  proof (rule dfs_edges_list [where B = B])
    fix d steps t
    assume "d \<in> set (edges c)" "timeless steps = B" "topo_inv D steps t" "time_of steps d = - 1"
    then show "dfs_post D [d] steps (dfs edges d steps t)" using groundedI by auto
  qed (use groundedI in auto)
  then obtain s1 t1 where 1: "dfs_edges edges (edges c) steps t = Some (s1, t1)" "topo_inv D s1 t1" "timeless s1 = timeless steps"
    "\<And>n. time_of steps n \<noteq> - 1 \<Longrightarrow> time_of s1 n = time_of steps n" and v: "\<And>n. n \<in> set (edges c) \<Longrightarrow> time_of s1 n \<noteq> - 1"
    and w: "\<And>n. time_of s1 n \<noteq> - 1 \<Longrightarrow> time_of steps n = - 1 \<Longrightarrow> \<exists>d\<in>set (edges c). (n, d) \<in> D\<^sup>*"
    by (rule dfs_postE) blast
  have vis: "time_of s1 n \<noteq> - 1" if "(n, c) \<in> D" for n using v that groundedI.prems(1) by simp
  have old: "\<exists>d. (d, c) \<in> D \<and> (n, d) \<in> D\<^sup>*" if "time_of s1 n \<noteq> - 1" "time_of steps n = - 1" for n
    using w [OF that] unfolding groundedI.prems(1) by blast
  have new: "time_of s1 c = - 1"
  proof (rule ccontr)
    assume "time_of s1 c \<noteq> - 1"
    then obtain d where "(d, c) \<in> D" "(c, d) \<in> D\<^sup>*" using old groundedI.prems(6) by blast
    then show False using noc by (metis rtrancl_into_trancl1)
  qed
  have kn: "known s1 c" using groundedI.prems 1(3) by (metis timeless_known)
  note I = 1(2) [unfolded topo_inv_def]
  have self: "(c, c) \<notin> D" using noc by blast
  have inv: "topo_inv D (set_time c t1 s1) (t1 + 1)"
    unfolding topo_inv_def
  proof (intro conjI allI impI)
    show "0 \<le> t1 + 1" using I by simp
  next
    fix n assume "time_of (set_time c t1 s1) n \<noteq> - 1"
    then show "0 \<le> time_of (set_time c t1 s1) n" "time_of (set_time c t1 s1) n < t1 + 1"
      using I kn by (auto split: if_splits)
  next
    fix n m assume "time_of (set_time c t1 s1) n \<noteq> - 1 \<and> time_of (set_time c t1 s1) n = time_of (set_time c t1 s1) m"
    then show "n = m" using I kn by (auto split: if_splits)
  next
    fix n d assume nd: "(n, d) \<in> D \<and> time_of (set_time c t1 s1) d \<noteq> - 1"
    have "time_of s1 n \<noteq> - 1 \<and> (if d = c then time_of s1 n < t1 else time_of s1 n < time_of s1 d)"
      using nd kn vis I by (auto split: if_splits)
    then show "time_of (set_time c t1 s1) n \<noteq> - 1" "time_of (set_time c t1 s1) n < time_of (set_time c t1 s1) d"
      using kn new by auto
  qed
  show ?case unfolding dfs_post_def
  proof (intro exI conjI)
    show "dfs edges c steps t = Some (set_time c t1 s1, t1 + 1)" using 1(1) by (simp add: dfs_def)
    show "\<forall>n. time_of steps n \<noteq> - 1 \<longrightarrow> time_of (set_time c t1 s1) n = time_of steps n" using 1(4) kn groundedI.prems by auto
    show "\<forall>n. time_of (set_time c t1 s1) n \<noteq> - 1 \<and> time_of steps n = - 1 \<longrightarrow> (\<exists>c\<in>set [c]. (n, c) \<in> D\<^sup>*)"
      using old kn by (auto split: if_splits) (metis rtrancl.rtrancl_into_rtrancl)
    show "\<forall>d\<in>set [c]. time_of (set_time c t1 s1) d \<noteq> - 1" using kn I by auto
  qed (use inv 1 in simp_all)
qed

lemma depends_Some: "(n, d) \<in> depends steps \<longleftrightarrow> (\<exists>s. map_of steps n = Some s \<and> d \<in> set (st_deps s))"
  by (cases "map_of steps n") (auto simp: depends_def deps_of_def)

lemma set_dep_edges: "distinct (map fst steps) \<Longrightarrow> set (dep_edges steps d) = {n. (n, d) \<in> depends steps}"
  by (auto simp: dep_edges_def depends_Some)

lemma depends_known: "(n, d) \<in> depends steps \<Longrightarrow> known steps n"
  by (auto simp: depends_Some known_def)

lemma finite_depends: "finite (depends steps)"
proof -
  have "depends steps \<subseteq> (\<Union>x \<in> set steps. {fst x} \<times> set (st_deps (snd x)))"
  proof
    fix p assume "p \<in> depends steps"
    then obtain n d s where p: "p = (n, d)" "map_of steps n = Some s" "d \<in> set (st_deps s)"
      by (cases p) (auto simp: depends_Some)
    then have "(n, s) \<in> set steps" by (simp add: map_of_SomeD)
    then show "p \<in> (\<Union>x \<in> set steps. {fst x} \<times> set (st_deps (snd x)))" using p by force
  qed
  then show ?thesis by (rule finite_subset) auto
qed

lemma topo_loop_ok:
  assumes "\<And>d. set (edges d) = {n. (n, d) \<in> D}" "\<And>n d. (n, d) \<in> D \<Longrightarrow> known B n"
    and "\<forall>r\<in>set stack. known B r \<and> r \<in> grounded D \<and> (\<forall>d. (r, d) \<notin> D) \<and> time_of steps r = - 1" "distinct stack"
    and "timeless steps = B" "topo_inv D steps t"
  shows "dfs_post D stack steps (topo_loop edges stack steps t)"
  using assms(3-)
proof (induction stack arbitrary: steps t)
  case Nil
  then show ?case by (simp add: dfs_post_Nil)
next
  case (Cons r stack)
  have node: "dfs_post D [r] steps (dfs edges r steps t)"
    by (rule dfs_node [OF _ assms(1,2)]) (use Cons.prems in auto)
  have "dfs_post D (r # stack) steps (Option.bind (dfs edges r steps t) (\<lambda>(steps1, t1). topo_loop edges stack steps1 t1))"
  proof (rule dfs_post_seq [OF node])
    fix s1 t1
    assume s1: "topo_inv D s1 t1" "timeless s1 = timeless steps" "\<And>n. time_of steps n \<noteq> - 1 \<Longrightarrow> time_of s1 n = time_of steps n"
      "\<And>n. time_of s1 n \<noteq> - 1 \<Longrightarrow> time_of steps n = - 1 \<Longrightarrow> (n, r) \<in> D\<^sup>*"
    have "time_of s1 q = - 1" if q: "q \<in> set stack" for q
    proof (rule ccontr)
      assume "time_of s1 q \<noteq> - 1"
      then have "(q, r) \<in> D\<^sup>*" using s1(4) Cons.prems(1) q by simp
      moreover have "q \<noteq> r" using Cons.prems(2) q by auto
      ultimately obtain d where "(q, d) \<in> D" by (metis converse_rtranclE)
      then show False using Cons.prems(1) q by auto
    qed
    then show "dfs_post D stack s1 (topo_loop edges stack s1 t1)" using Cons s1 by auto
  qed
  then show ?case by simp
qed

definition untimed :: "steps \<Rightarrow> steps" where
  "untimed steps = map (\<lambda>(n, s). (n, s\<lparr>st_time := - 1\<rparr>)) steps"

lemma untimed_props:
  "timeless (untimed steps) = timeless steps" "time_of (untimed steps) n = - 1" "topo_inv D (untimed steps) 0"
proof -
  show t: "time_of (untimed steps) n = - 1" for n
    by (simp add: untimed_def time_of_def map_of_all split: option.split)
  show "timeless (untimed steps) = timeless steps" by (auto simp: timeless_def untimed_def)
  show "topo_inv D (untimed steps) 0" by (simp add: topo_inv_def t)
qed

lemma set_parentless:
  assumes "distinct (map fst steps)"
  shows "set (parentless steps) = {n. known steps n \<and> deps_of steps n = []}"
proof -
  have "n \<in> set (parentless steps) \<longleftrightarrow> (\<exists>s. map_of steps n = Some s \<and> st_deps s = [])" for n
    using assms by (auto simp: parentless_def image_iff)
  moreover have "(known steps n \<and> deps_of steps n = []) \<longleftrightarrow> (\<exists>s. map_of steps n = Some s \<and> st_deps s = [])" for n
    by (auto simp: known_def deps_of_def)
  ultimately show ?thesis by blast
qed

lemma distinct_parentless: "distinct (map fst steps) \<Longrightarrow> distinct (parentless steps)"
  unfolding parentless_def by (simp add: distinct_map_filter)

lemma topo_sort_ok:
  assumes d: "distinct (map fst steps)"
    and g: "\<And>r. known steps r \<Longrightarrow> deps_of steps r = [] \<Longrightarrow> r \<in> grounded (depends steps)"
  shows "\<exists>steps' t. topo_sort steps = Some (steps', t) \<and> topo_inv (depends steps) steps' t \<and> timeless steps' = timeless steps \<and>
    (\<forall>r. known steps r \<and> deps_of steps r = [] \<longrightarrow> time_of steps' r \<noteq> - 1)"
proof -
  let ?D = "depends steps"
  have "dfs_post ?D (rev (parentless steps)) (untimed steps) (topo_loop (dep_edges steps) (rev (parentless steps)) (untimed steps) 0)"
  proof (rule topo_loop_ok [where B = "timeless steps"])
    show "set (dep_edges steps d) = {n. (n, d) \<in> ?D}" for d by (rule set_dep_edges [OF d])
    show "known (timeless steps) n" if "(n, d) \<in> ?D" for n d using depends_known [OF that] by (simp add: timeless_known)
    show "\<forall>r\<in>set (rev (parentless steps)). known (timeless steps) r \<and> r \<in> grounded ?D \<and> (\<forall>d. (r, d) \<notin> ?D) \<and> time_of (untimed steps) r = - 1"
      using g by (auto simp: set_parentless [OF d] timeless_known untimed_props depends_def)
  qed (use distinct_parentless [OF d] untimed_props in auto)
  then obtain s1 t1 where "topo_loop (dep_edges steps) (rev (parentless steps)) (untimed steps) 0 = Some (s1, t1)"
    "topo_inv ?D s1 t1" "timeless s1 = timeless (untimed steps)"
    "\<And>r. r \<in> set (rev (parentless steps)) \<Longrightarrow> time_of s1 r \<noteq> - 1" by (rule dfs_postE) blast
  then show ?thesis
    by (intro exI [of _ s1] exI [of _ t1])
      (simp add: topo_sort_def untimed_def [symmetric] untimed_props set_parentless [OF d])
qed

text \<open>The converse: where the search has come back, there was no cycle.\<close>

lemma dfs_edges_grounded:
  assumes "dfs_edges edges cs steps t = Some r" "\<And>d. set (edges d) = {n. (n, d) \<in> D}"
    and "\<And>n. known steps n \<Longrightarrow> time_of steps n \<noteq> - 1 \<Longrightarrow> n \<in> grounded D" "\<forall>c\<in>set cs. known steps c"
    and "\<And>n d. (n, d) \<in> D \<Longrightarrow> known steps n"
  shows "timeless (fst r) = timeless steps \<and> set cs \<subseteq> grounded D \<and>
    (\<forall>n. known steps n \<longrightarrow> time_of (fst r) n \<noteq> - 1 \<longrightarrow> n \<in> grounded D)"
proof -
  let ?P = "\<lambda>edges cs steps t r. (\<forall>d. set (edges d) = {n. (n, d) \<in> D}) \<longrightarrow>
     (\<forall>n. known steps n \<longrightarrow> time_of steps n \<noteq> - 1 \<longrightarrow> n \<in> grounded D) \<longrightarrow> (\<forall>c\<in>set cs. known steps c) \<longrightarrow>
     (\<forall>n d. (n, d) \<in> D \<longrightarrow> known steps n) \<longrightarrow>
     timeless (fst r) = timeless steps \<and> set cs \<subseteq> grounded D \<and>
     (\<forall>n. known steps n \<longrightarrow> time_of (fst r) n \<noteq> - 1 \<longrightarrow> n \<in> grounded D)"
  have "?P edges cs steps t r"
  proof (rule dfs_edges.raw_induct [where P = ?P, OF _ assms(1)], intro impI)
    fix f edges cs steps t r
    assume IH: "\<And>edges cs steps t r. f edges cs steps t = Some r \<Longrightarrow> ?P edges cs steps t r"
      and r: "(case cs of [] \<Rightarrow> Some (steps, t)
        | c # rest \<Rightarrow>
          if time_of steps c = - 1
          then Option.bind (f edges (edges c) steps t) (\<lambda>(steps1, t1). f edges rest (set_time c t1 steps1) (t1 + 1))
          else f edges rest steps t) = Some r"
      and e: "\<forall>d. set (edges d) = {n. (n, d) \<in> D}"
      and v: "\<forall>n. known steps n \<longrightarrow> time_of steps n \<noteq> - 1 \<longrightarrow> n \<in> grounded D" and k: "\<forall>c\<in>set cs. known steps c"
      and D: "\<forall>n d. (n, d) \<in> D \<longrightarrow> known steps n"
    show "timeless (fst r) = timeless steps \<and> set cs \<subseteq> grounded D \<and>
        (\<forall>n. known steps n \<longrightarrow> time_of (fst r) n \<noteq> - 1 \<longrightarrow> n \<in> grounded D)"
    proof (cases cs)
      case Nil
      then show ?thesis using r v by auto
    next
      case (Cons c rest)
      show ?thesis
      proof (cases "time_of steps c = - 1")
        case False
        then have "f edges rest steps t = Some r" using r Cons by simp
        from IH [OF this] e v k D have "timeless (fst r) = timeless steps \<and> set rest \<subseteq> grounded D \<and>
          (\<forall>n. known steps n \<longrightarrow> time_of (fst r) n \<noteq> - 1 \<longrightarrow> n \<in> grounded D)" using Cons by simp
        moreover have "c \<in> grounded D" using v k False Cons by simp
        ultimately show ?thesis using Cons by simp
      next
        case True
        then obtain s1 t1 where 1: "f edges (edges c) steps t = Some (s1, t1)"
          "f edges rest (set_time c t1 s1) (t1 + 1) = Some r"
          using r Cons by (auto split: bind_splits)
        have kc: "\<forall>n\<in>set (edges c). known steps n" using e D by auto
        have i: "timeless s1 = timeless steps" "set (edges c) \<subseteq> grounded D"
          "\<forall>n. known steps n \<longrightarrow> time_of s1 n \<noteq> - 1 \<longrightarrow> n \<in> grounded D"
          using IH [OF 1(1)] e v kc D by simp_all
        have c: "c \<in> grounded D"
        proof (rule groundedI)
          fix n assume "(n, c) \<in> D"
          then show "n \<in> grounded D" using i(2) e by blast
        qed
        have kn: "known (set_time c t1 s1) n = known steps n" for n
          using timeless_known [of "set_time c t1 s1" n] timeless_known [of steps n] i(1) by simp
        have kn1: "known s1 c" using timeless_known [of s1 c] timeless_known [of steps c] i(1) k Cons by simp
        have "\<forall>n. known (set_time c t1 s1) n \<longrightarrow> time_of (set_time c t1 s1) n \<noteq> - 1 \<longrightarrow> n \<in> grounded D"
          using i(3) c kn1 by (simp add: kn)
        then show ?thesis using IH [OF 1(2)] e k D c i(1) Cons by (simp add: kn)
      qed
    qed
  qed
  then show ?thesis using assms(2-) by blast
qed

lemma dfs_grounded:
  assumes "dfs edges c steps t = Some (s1, t1)" "\<And>d. set (edges d) = {n. (n, d) \<in> D}" "known steps c"
    and "\<And>n. known steps n \<Longrightarrow> time_of steps n \<noteq> - 1 \<Longrightarrow> n \<in> grounded D" "\<And>n d. (n, d) \<in> D \<Longrightarrow> known steps n"
  shows "timeless s1 = timeless steps \<and> c \<in> grounded D \<and> (\<forall>n. known steps n \<longrightarrow> time_of s1 n \<noteq> - 1 \<longrightarrow> n \<in> grounded D)"
proof -
  obtain s0 t0 where 0: "dfs_edges edges (edges c) steps t = Some (s0, t0)" "s1 = set_time c t0 s0"
    using assms(1) by (auto simp: dfs_def split: bind_splits)
  have "\<forall>n\<in>set (edges c). known steps n" using assms(2,5) by auto
  from dfs_edges_grounded [OF 0(1) assms(2,4) this assms(5)]
  have g: "timeless s0 = timeless steps" "set (edges c) \<subseteq> grounded D"
    "\<And>n. known steps n \<Longrightarrow> time_of s0 n \<noteq> - 1 \<Longrightarrow> n \<in> grounded D" by auto
  have c: "c \<in> grounded D"
  proof (rule groundedI)
    fix n assume "(n, c) \<in> D"
    then show "n \<in> grounded D" using g(2) assms(2) by blast
  qed
  have "known s0 c" using timeless_known [of s0 c] timeless_known [of steps c] g(1) assms(3) by simp
  then show ?thesis using 0(2) g(1,3) c by simp
qed

lemma topo_loop_grounded:
  assumes "topo_loop edges stack steps t = Some r" "\<And>d. set (edges d) = {n. (n, d) \<in> depends B}" "\<forall>c\<in>set stack. known B c"
    and "timeless steps = timeless B" "\<And>n. known B n \<Longrightarrow> time_of steps n \<noteq> - 1 \<Longrightarrow> n \<in> grounded (depends B)"
  shows "set stack \<subseteq> grounded (depends B)"
  using assms(1,3-)
proof (induction stack arbitrary: steps t)
  case (Cons c stack)
  have kn: "known steps n = known B n" for n using timeless_known Cons.prems(3) by metis
  obtain s1 t1 where 1: "dfs edges c steps t = Some (s1, t1)" "topo_loop edges stack s1 t1 = Some r"
    using Cons.prems(1) by (auto split: bind_splits)
  have "timeless s1 = timeless steps \<and> c \<in> grounded (depends B) \<and>
      (\<forall>n. known steps n \<longrightarrow> time_of s1 n \<noteq> - 1 \<longrightarrow> n \<in> grounded (depends B))"
    by (rule dfs_grounded [OF 1(1) assms(2)]) (use Cons.prems depends_known kn in auto)
  then show ?case using Cons.IH [OF 1(2)] Cons.prems kn by simp
qed simp

text \<open>For finitely many steps, a step is grounded if and only if no cycle can be reached from it.\<close>

lemma grounded_downward: "d \<in> grounded D \<Longrightarrow> (n, d) \<in> D \<Longrightarrow> n \<in> grounded D"
  by (erule grounded.cases) blast

lemma grounded_reach: "(n, d) \<in> D\<^sup>* \<Longrightarrow> d \<in> grounded D \<Longrightarrow> n \<in> grounded D"
  by (induction rule: converse_rtrancl_induct) (auto intro: grounded_downward)

lemma grounded_iff:
  assumes "finite D"
  shows "r \<in> grounded D \<longleftrightarrow> \<not> (\<exists>c. (c, r) \<in> D\<^sup>* \<and> (c, c) \<in> D\<^sup>+)"
proof
  assume "r \<in> grounded D"
  then show "\<not> (\<exists>c. (c, r) \<in> D\<^sup>* \<and> (c, c) \<in> D\<^sup>+)" using grounded_reach grounded_no_cycle by blast
next
  assume nc: "\<not> (\<exists>c. (c, r) \<in> D\<^sup>* \<and> (c, c) \<in> D\<^sup>+)"
  define R where "R = {(n, d) \<in> D. (d, r) \<in> D\<^sup>*}"
  have sub: "R\<^sup>+ \<subseteq> D\<^sup>+" unfolding R_def by (rule trancl_mono_subset) auto
  have "acyclic R"
  proof (rule acyclicI, intro allI notI)
    fix x assume x: "(x, x) \<in> R\<^sup>+"
    then have "(x, r) \<in> D\<^sup>*" by (rule tranclE) (auto simp: R_def)
    then show False using nc x sub by blast
  qed
  moreover have "finite R" unfolding R_def by (rule finite_subset [OF _ assms]) auto
  ultimately have wf: "wf R" by (rule finite_acyclic_wf [rotated])
  have "(d, r) \<in> D\<^sup>* \<longrightarrow> d \<in> grounded D" for d
    using wf
  proof (induction d rule: wf_induct_rule)
    case (less d)
    show ?case
    proof (rule impI, rule groundedI)
      fix n assume d: "(d, r) \<in> D\<^sup>*" and n: "(n, d) \<in> D"
      have "(n, r) \<in> D\<^sup>*" by (rule converse_rtrancl_into_rtrancl [OF n d])
      moreover have "(n, d) \<in> R" using n d by (simp add: R_def)
      ultimately show "n \<in> grounded D" using less.IH by blast
    qed
  qed
  then show "r \<in> grounded D" by blast
qed

lemma topo_sort_returns:
  assumes "distinct (map fst steps)"
  shows "topo_sort steps \<noteq> None \<longleftrightarrow>
    (\<forall>r. known steps r \<and> deps_of steps r = [] \<longrightarrow> r \<in> grounded (depends steps))"
proof
  assume "topo_sort steps \<noteq> None"
  then obtain r where r: "topo_loop (dep_edges steps) (rev (parentless steps)) (untimed steps) 0 = Some r"
    by (auto simp: topo_sort_def untimed_def)
  have "set (rev (parentless steps)) \<subseteq> grounded (depends steps)"
    by (rule topo_loop_grounded [OF r set_dep_edges [OF assms]])
      (simp_all only: set_rev set_parentless [OF assms] untimed_props, simp_all)
  then show "\<forall>r. known steps r \<and> deps_of steps r = [] \<longrightarrow> r \<in> grounded (depends steps)"
    using set_parentless [OF assms] by auto
next
  assume "\<forall>r. known steps r \<and> deps_of steps r = [] \<longrightarrow> r \<in> grounded (depends steps)"
  then have "\<exists>steps' t. topo_sort steps = Some (steps', t)" using topo_sort_ok [OF assms] by blast
  then show "topo_sort steps \<noteq> None" by auto
qed

section \<open>Running in order\<close>

definition is_done :: "steps \<Rightarrow> string \<Rightarrow> bool" where
  "is_done steps n \<longleftrightarrow> (\<exists>s \<in> set_option (map_of steps n). st_done s)"

definition is_config :: "steps \<Rightarrow> string \<Rightarrow> bool" where
  "is_config steps n \<longleftrightarrow> (\<exists>s \<in> set_option (map_of steps n). st_config s)"

lemma deps_done_ok: "\<forall>d\<in>set ds. is_done steps d \<Longrightarrow> deps_done ds steps = Inr True"
  by (induction ds) (auto simp: is_done_def get_step_def)

lemma done_upd: "known steps n \<Longrightarrow> is_done (sq_upd n (\<lambda>s. s\<lparr>st_done := True\<rparr>) steps) m \<longleftrightarrow> m = n \<or> is_done steps m"
  by (auto simp: is_done_def map_of_upd known_def)

lemma done_upd_rest:
  "is_marked (sq_upd n (\<lambda>s. s\<lparr>st_done := True\<rparr>) steps) m = is_marked steps m"
  "is_config (sq_upd n (\<lambda>s. s\<lparr>st_done := True\<rparr>) steps) m = is_config steps m"
  "depends (sq_upd n (\<lambda>s. s\<lparr>st_done := True\<rparr>) steps) = depends steps"
  "known (sq_upd n (\<lambda>s. s\<lparr>st_done := True\<rparr>) steps) m = known steps m"
  by (auto simp: is_marked_def is_config_def known_def depends_Some map_of_upd split: if_splits)

text \<open>What a run of the steps in \<open>ns\<close> does: who is run, in which order, and with which result.\<close>

definition ran_ok :: "(string \<Rightarrow> int) \<Rightarrow> steps \<Rightarrow> string list \<Rightarrow> int \<Rightarrow> steps \<Rightarrow> string list \<Rightarrow> bool" where
  "ran_ok outcome steps ns err steps' rs \<longleftrightarrow>
     distinct rs \<and> set rs \<subseteq> {n \<in> set ns. is_marked steps n \<and> \<not> is_done steps n} \<and>
     (\<forall>as n bs d. rs = as @ n # bs \<longrightarrow> (n, d) \<in> depends steps \<longrightarrow> is_done steps d \<or> d \<in> set as) \<and>
     (\<forall>n. is_done steps' n \<longleftrightarrow> is_done steps n \<or> n \<in> set rs \<and> outcome n = 0) \<and>
     (\<forall>n\<in>set (butlast rs). outcome n = 0) \<and> err = (if rs = [] then 0 else outcome (last rs)) \<and>
     (err = 0 \<longrightarrow> (\<forall>n\<in>set ns. is_marked steps n \<longrightarrow> is_done steps' n))"

lemma ran_ok_Cons:
  assumes "ran_ok outcome (sq_upd n (\<lambda>s. s\<lparr>st_done := True\<rparr>) steps) ns err steps' rs" "known steps n" "outcome n = 0"
    and "is_marked steps n" "\<not> is_done steps n" "\<And>d. (n, d) \<in> depends steps \<Longrightarrow> is_done steps d"
  shows "ran_ok outcome steps (n # ns) err steps' (n # rs)"
proof -
  note R = assms(1) [unfolded ran_ok_def done_upd_rest done_upd [OF assms(2)]]
  show ?thesis unfolding ran_ok_def
  proof (intro conjI)
    show "\<forall>as m bs d. n # rs = as @ m # bs \<longrightarrow> (m, d) \<in> depends steps \<longrightarrow> is_done steps d \<or> d \<in> set as"
    proof (intro allI impI)
      fix as m bs d assume e: "n # rs = as @ m # bs" and d: "(m, d) \<in> depends steps"
      show "is_done steps d \<or> d \<in> set as"
      proof (cases as)
        case Nil
        then show ?thesis using e d assms(6) by simp
      next
        case (Cons a as')
        then have "rs = as' @ m # bs" "a = n" using e by auto
        have "d = n \<or> is_done steps d \<or> d \<in> set as'" using R [THEN conjunct2, THEN conjunct2, THEN conjunct1] \<open>rs = as' @ m # bs\<close> d by blast
        then show ?thesis using \<open>a = n\<close> Cons by auto
      qed
    qed
  qed (use R assms in auto)
qed

lemma run_loop_ok:
  assumes "\<forall>n\<in>set ns. known steps n" "distinct ns"
    and "\<And>n d. is_marked steps n \<Longrightarrow> (n, d) \<in> depends steps \<Longrightarrow> is_marked steps d"
    and "\<And>xs n ys d. ns = xs @ n # ys \<Longrightarrow> is_marked steps n \<Longrightarrow> (n, d) \<in> depends steps \<Longrightarrow> is_done steps d \<or> d \<in> set xs"
    and "\<And>n. is_marked steps n \<Longrightarrow> \<not> is_config steps n \<or> is_done steps n"
  shows "\<exists>err steps' rs. run_loop outcome ns steps = Inr (err, steps', rs) \<and> ran_ok outcome steps ns err steps' rs"
  using assms
proof (induction ns arbitrary: steps)
  case Nil
  then show ?case by (simp add: ran_ok_def)
next
  case (Cons n ns)
  obtain s where s: "map_of steps n = Some s" using Cons.prems(1) by (auto simp: known_def)
  have flags: "st_mark s = is_marked steps n" "st_done s = is_done steps n" "st_config s = is_config steps n"
    using s by (simp_all add: is_marked_def is_done_def is_config_def)
  have deps: "(n, d) \<in> depends steps \<longleftrightarrow> d \<in> set (st_deps s)" for d using s by (simp add: depends_Some)
  show ?case
  proof (cases "is_marked steps n \<and> \<not> is_done steps n")
    case False
    have "is_done steps d \<or> d \<in> set xs" if a: "ns = xs @ m # ys" "is_marked steps m" "(m, d) \<in> depends steps" for xs m ys d
      using Cons.prems(4) [of "n # xs" m ys d] Cons.prems(3) [OF a(2,3)] a False by auto
    then have "\<exists>err steps' rs. run_loop outcome ns steps = Inr (err, steps', rs) \<and> ran_ok outcome steps ns err steps' rs"
      by (intro Cons.IH) (use Cons.prems in auto)
    then obtain err steps' rs where r: "run_loop outcome ns steps = Inr (err, steps', rs)" "ran_ok outcome steps ns err steps' rs"
      by blast
    have "is_marked steps n \<longrightarrow> is_done steps' n" using r(2) False by (auto simp: ran_ok_def)
    then have "ran_ok outcome steps (n # ns) err steps' rs" using r(2) unfolding ran_ok_def by auto
    then show ?thesis using r(1) s flags False by auto
  next
    case True
    have dd: "\<forall>d\<in>set (st_deps s). is_done steps d" using Cons.prems(4) [of "[]" n ns] True deps by auto
    have c: "\<not> st_config s" using Cons.prems(5) [of n] True flags by simp
    show ?thesis
    proof (cases "outcome n = 0")
      case False
      have "run_loop outcome (n # ns) steps = Inr (outcome n, steps, [n])"
        using s True flags deps_done_ok [OF dd] c False by (simp add: step_run_def)
      moreover have "ran_ok outcome steps (n # ns) (outcome n) steps [n]"
        using True False dd deps by (auto simp: ran_ok_def Cons_eq_append_conv)
      ultimately show ?thesis by blast
    next
      case ok: True
      let ?s = "sq_upd n (\<lambda>s. s\<lparr>st_done := True\<rparr>) steps"
      have kn: "known steps n" using s by (simp add: known_def)
      note upd = done_upd [OF kn] done_upd_rest
      have "\<exists>err steps' rs. run_loop outcome ns ?s = Inr (err, steps', rs) \<and> ran_ok outcome ?s ns err steps' rs"
      proof (rule Cons.IH, goal_cases)
        case (4 xs m ys d)
        then show ?case using Cons.prems(4) [of "n # xs" m ys d] unfolding upd by auto
      qed (use Cons.prems in \<open>auto simp: upd\<close>)
      then obtain err steps' rs where r: "run_loop outcome ns ?s = Inr (err, steps', rs)" "ran_ok outcome ?s ns err steps' rs"
        by blast
      have "run_loop outcome (n # ns) steps = Inr (err, steps', n # rs)"
        using s True flags deps_done_ok [OF dd] c ok r(1) by (simp add: step_run_def)
      moreover have "ran_ok outcome steps (n # ns) err steps' (n # rs)"
        using True dd deps ok by (intro ran_ok_Cons [OF r(2) kn]) auto
      ultimately show ?thesis by blast
    qed
  qed
qed


section \<open>Starting\<close>

lemma timeless_flags:
  assumes "timeless a = timeless b"
  shows "is_marked a n = is_marked b n" "is_done a n = is_done b n" "is_config a n = is_config b n" "depends a = depends b"
    "known a n = known b n" "map fst a = map fst b"
proof -
  have t: "is_marked (timeless s) n = is_marked s n" "is_done (timeless s) n = is_done s n" "is_config (timeless s) n = is_config s n"
    "map fst (timeless s) = map fst s" for s
    by (auto simp: is_marked_def is_done_def is_config_def timeless_def map_of_all)
  show "is_marked a n = is_marked b n" "is_done a n = is_done b n" "is_config a n = is_config b n"
    "map fst a = map fst b" by (metis assms t)+
  show "depends a = depends b" "known a n = known b n" by (metis assms timeless_depends timeless_known)+
qed

lemma timed_all:
  assumes "acyclic (depends steps)" "topo_inv (depends steps) steps' t" "n \<in> needed steps target"
    and "\<forall>n \<in> needed steps target. known steps n" "\<And>r. known steps r \<Longrightarrow> deps_of steps r = [] \<Longrightarrow> time_of steps' r \<noteq> - 1"
  shows "time_of steps' n \<noteq> - 1"
proof -
  have "wf ((depends steps)\<inverse>)" using assms(1) by (simp add: finite_acyclic_wf finite_depends acyclic_converse)
  then show ?thesis using assms(3)
  proof (induction n rule: wf_induct_rule)
    case (less n)
    show ?case
    proof (cases "deps_of steps n")
      case Nil
      then show ?thesis using assms(4,5) less.prems by blast
    next
      case (Cons d ds)
      then have d: "(n, d) \<in> depends steps" by (simp add: depends_def)
      then have "d \<in> needed steps target" using less.prems by (auto simp: needed_def intro: rtrancl_into_rtrancl)
      then have "time_of steps' d \<noteq> - 1" using less.IH d by simp
      then show ?thesis using assms(2) d by (simp add: topo_inv_def)
    qed
  qed
qed

definition run_order :: "steps \<Rightarrow> string list" where
  "run_order steps = map fst (sort_key (\<lambda>(n, s). - st_time s) steps)"

lemma run_order_set: "set (run_order steps) = fst ` set steps" "distinct (map fst steps) \<Longrightarrow> distinct (run_order steps)"
  by (auto simp: run_order_def distinct_map)

lemma run_order_time:
  assumes "distinct (map fst steps)"
  shows "sorted (map (\<lambda>n. - time_of steps n) (run_order steps))"
proof -
  have "map (\<lambda>n. - time_of steps n) (run_order steps) = map (\<lambda>(n, s). - st_time s) (sort_key (\<lambda>(n, s). - st_time s) steps)"
    using assms by (auto simp: run_order_def time_of_def)
  then show ?thesis by simp
qed

lemma run_order_before:
  assumes "distinct (map fst steps)" "topo_inv D steps t" "run_order steps = xs @ n # ys" "(n, d) \<in> D"
    "time_of steps d \<noteq> - 1" "known steps d"
  shows "d \<in> set xs"
proof -
  have "d \<in> set (run_order steps)" using assms(6) by (simp add: run_order_set known_def map_of_eq_None_iff)
  moreover have l: "time_of steps n < time_of steps d" using assms(2,4,5) by (simp add: topo_inv_def)
  moreover have "time_of steps m \<le> time_of steps n" if "m \<in> set ys" for m
    using run_order_time [OF assms(1)] that by (simp add: assms(3) sorted_append)
  ultimately show ?thesis using assms(3) by (metis Un_iff less_irrefl not_less set_ConsD set_append)
qed

lemma acyclic_grounded: "acyclic (depends steps) \<Longrightarrow> r \<in> grounded (depends steps)"
  by (simp add: grounded_iff finite_depends acyclic_def)

lemma extra_loop_fst: "extra_loop es steps = Inr steps' \<Longrightarrow> map fst steps' = map fst steps"
  by (induction es steps rule: extra_loop.induct) (auto simp: bind_run_eq_Inr assert_run_eq_Inr)


lemma add_extra_deps_fst: "add_extra_deps sq = Inr sq1 \<Longrightarrow> map fst (sq_steps sq1) = map fst (sq_steps sq)"
  by (auto simp: add_extra_deps_def bind_run_eq_Inr dest: extra_loop_fst)

definition start_steps :: "sequencer \<Rightarrow> steps" where
  "start_steps sq = (case add_extra_deps sq of Inl f \<Rightarrow> sq_steps sq | Inr sq1 \<Rightarrow> sq_steps sq1)"

lemma same_steps_flags:
  assumes "same_steps a b"
  shows "known b n = known a n" "needed b = needed a" "is_config b n = is_config a n" "map fst b = map fst a"
    "depends b = depends a"
proof -
  have c: "is_config s n = (map_option st_config (map_of s n) = Some True)" for s
    by (cases "map_of s n") (auto simp: is_config_def)
  show "is_config b n = is_config a n" using assms unfolding c by (simp only: same_steps_def)
  show "depends b = depends a" using assms by (rule same_steps_depends)
  then show "needed b = needed a" by (simp add: needed_def [abs_def])
  show "known b n = known a n" "map fst b = map fst a" using assms by (simp_all add: same_steps_def)
qed

lemma done_of_map: "map_option st_done (map_of b n) = map_option st_done (map_of a n) \<Longrightarrow> is_done b n = is_done a n"
  by (cases "map_of b n"; cases "map_of a n") (auto simp: is_done_def)

lemma seq_start_ok:
  fixes B :: steps
  assumes d: "distinct (map fst B)" and kn: "\<forall>n \<in> needed B target. known B n" and ac: "acyclic (depends B)"
    and cfg: "\<forall>n \<in> needed B target. \<not> is_config B n \<or> is_done B n"
  shows "\<exists>steps1 steps2 t err steps3 rs. mark_dep target B = Inr steps1 \<and> topo_sort steps1 = Some (steps2, t) \<and>
    run_steps outcome steps2 = Inr (err, steps3, rs) \<and> ran_ok outcome steps2 (run_order steps2) err steps3 rs \<and>
    (\<forall>n. is_marked steps2 n \<longleftrightarrow> n \<in> needed B target) \<and> (\<forall>n. is_done steps2 n = is_done B n) \<and>
    depends steps2 = depends B \<and> set (run_order steps2) = {n. known B n}"
proof -
  obtain s1 where 1: "mark_dep target B = Inr s1" "same_steps B s1" "\<And>n. is_marked s1 n \<longleftrightarrow> n \<in> needed B target"
    "\<And>n. map_option st_done (map_of s1 n) = map_option st_done (map_of B n)"
    using mark_dep_correct [OF kn] by blast
  note f1 = same_steps_flags [OF 1(2)]
  have d1: "distinct (map fst s1)" using d f1(4) by simp
  have ac1: "acyclic (depends s1)" using ac f1(5) by simp
  obtain s2 t where 2: "topo_sort s1 = Some (s2, t)" "topo_inv (depends s1) s2 t" "timeless s2 = timeless s1"
    "\<forall>r. known s1 r \<and> deps_of s1 r = [] \<longrightarrow> time_of s2 r \<noteq> - 1"
    using topo_sort_ok [OF d1] acyclic_grounded [OF ac1] by blast
  note f2 = timeless_flags [OF 2(3)]
  have d2: "distinct (map fst s2)" using d1 f2(6) by simp
  have inv: "topo_inv (depends B) s2 t" using 2(2) f1(5) by simp
  have closed: "d \<in> needed B target" if "n \<in> needed B target" "(n, d) \<in> depends B" for n d
    using that by (auto simp: needed_def intro: rtrancl_into_rtrancl)
  have deps0: "known B r \<and> deps_of B r = [] \<Longrightarrow> time_of s2 r \<noteq> - 1" for r
    using 2(4) 1(2) by (simp add: same_steps_def)
  have timed: "time_of s2 n \<noteq> - 1" if "n \<in> needed B target" for n
    using timed_all [OF ac inv that kn] deps0 by blast
  have dn: "is_done s2 n = is_done B n" for n using f2(2) done_of_map [OF 1(4)] by simp
  have keys: "set (run_order s2) = {n. known B n}"
    using arg_cong [OF f2(6), of set] arg_cong [OF f1(4), of set]
    by (auto simp: run_order_set known_def map_of_eq_None_iff simp del: not_None_eq)
  have "\<exists>err steps' rs. run_loop outcome (run_order s2) s2 = Inr (err, steps', rs) \<and> ran_ok outcome s2 (run_order s2) err steps' rs"
  proof (rule run_loop_ok)
    show "\<forall>n\<in>set (run_order s2). known s2 n" using keys f1(1) f2(5) by simp
    show "distinct (run_order s2)" by (rule run_order_set(2) [OF d2])
    show "is_marked s2 d" if "is_marked s2 n" "(n, d) \<in> depends s2" for n d
      using that closed by (simp add: f1 f2 1(3))
    show "is_done s2 d \<or> d \<in> set xs" if a: "run_order s2 = xs @ n # ys" "is_marked s2 n" "(n, d) \<in> depends s2" for xs n ys d
    proof -
      have "(n, d) \<in> depends B" "d \<in> needed B target" using a closed by (auto simp: f1 f2 1(3))
      then show ?thesis using run_order_before [OF d2 inv a(1)] timed kn by (simp add: f1 f2)
    qed
    show "\<not> is_config s2 n \<or> is_done s2 n" if "is_marked s2 n" for n
      using that cfg by (simp add: dn f1 f2 1(3))
  qed
  then show ?thesis using 1(1) 2(1) dn keys by (simp add: run_steps_def run_order_def f1 f2 1(3))
qed

section \<open>Properties\<close>

text \<open>
  Property C12. \<open>InitSequencer::start\<close>: when the extra dependencies name registered steps, every step that the target needs is registered, no steps depend on each
  other in a circle and the configuration steps that the target needs are done, the sequencer runs steps that the target
  needs and that are not done, each at most once and each only after all the steps it depends on are done or were run
  before it; it stops at the first step that fails and returns that step's error; when it returns 0 every step
  that the target needs is done.
\<close>
theorem seq_start_correct:
  assumes "distinct (map fst (sq_steps sq))" "add_extra_deps sq = Inr sq1"
    and "\<forall>n \<in> needed (sq_steps sq1) target. known (sq_steps sq1) n" "acyclic (depends (sq_steps sq1))"
    and "\<forall>n \<in> needed (sq_steps sq1) target. \<not> is_config (sq_steps sq1) n \<or> is_done (sq_steps sq1) n"
  shows "\<exists>err sq' names. seq_start outcome target sq = Some (Inr (err, sq', names)) \<and>
    distinct names \<and> set names \<subseteq> {n \<in> needed (sq_steps sq1) target. \<not> is_done (sq_steps sq1) n} \<and>
    (\<forall>xs n ys d. names = xs @ n # ys \<longrightarrow> (n, d) \<in> depends (sq_steps sq1) \<longrightarrow> is_done (sq_steps sq1) d \<or> d \<in> set xs) \<and>
    (\<forall>n. is_done (sq_steps sq') n \<longleftrightarrow> is_done (sq_steps sq1) n \<or> n \<in> set names \<and> outcome n = 0) \<and>
    (\<forall>n\<in>set (butlast names). outcome n = 0) \<and> err = (if names = [] then 0 else outcome (last names)) \<and>
    (err = 0 \<longrightarrow> (\<forall>n\<in>needed (sq_steps sq1) target. is_done (sq_steps sq') n))"
proof -
  have d: "distinct (map fst (sq_steps sq1))" using assms(1) add_extra_deps_fst [OF assms(2)] by simp
  obtain s1 s2 t err s3 names where s: "mark_dep target (sq_steps sq1) = Inr s1" "topo_sort s1 = Some (s2, t)"
    "run_steps outcome s2 = Inr (err, s3, names)" and r: "ran_ok outcome s2 (run_order s2) err s3 names"
    and f: "\<And>n. is_marked s2 n \<longleftrightarrow> n \<in> needed (sq_steps sq1) target" "\<And>n. is_done s2 n = is_done (sq_steps sq1) n"
    "depends s2 = depends (sq_steps sq1)" "set (run_order s2) = {n. known (sq_steps sq1) n}"
    using seq_start_ok [OF d assms(3-5)] by blast
  have "seq_start outcome target sq = Some (Inr (err, sq1\<lparr>sq_steps := s3, sq_dfs_time := t\<rparr>, names))"
    using assms(2) s by (simp add: seq_start_def)
  then show ?thesis using r assms(3) unfolding ran_ok_def f
    by (intro exI [of _ err] exI [of _ "sq1\<lparr>sq_steps := s3, sq_dfs_time := t\<rparr>"] exI [of _ names]) auto
qed

lemma seq_start_correct_witness:
  "\<exists>err sq' names. seq_start (\<lambda>_. 0) ''b'' \<lparr>sq_steps = [(''a'', step_new [] False), (''b'', step_new [] False)],
      sq_extra = [(''a'', ''b'')], sq_dfs_time = 0\<rparr> = Some (Inr (err, sq', names)) \<and>
    (\<forall>xs ys. names = xs @ ''b'' # ys \<longrightarrow> ''a'' \<in> set xs) \<and> (err = 0 \<longrightarrow> is_done (sq_steps sq') ''b'')"
proof -
  let ?B = "[(''a'', step_new [] False), (''b'', step_new [''a''] False)]"
  let ?sq = "\<lparr>sq_steps = [(''a'', step_new [] False), (''b'', step_new [] False)], sq_extra = [(''a'', ''b'')], sq_dfs_time = 0\<rparr>"
  have e: "add_extra_deps ?sq = Inr \<lparr>sq_steps = ?B, sq_extra = [], sq_dfs_time = 0\<rparr>"
    by (simp add: add_extra_deps_def sq_upd_def add_dep_def step_new_def)
  have D: "depends ?B = {(''b'', ''a'')}" by (auto simp: depends_Some step_new_def split: if_splits)
  have ac: "acyclic (depends ?B)" unfolding D acyclic_insert by (auto simp: acyclic_def)
  have n: "n = ''a'' \<or> n = ''b''" if "n \<in> needed ?B ''b''" for n
    using that by (auto simp: needed_def D elim: rtranclE)
  have "\<forall>n \<in> needed ?B ''b''. known ?B n" "\<forall>n \<in> needed ?B ''b''. \<not> is_config ?B n \<or> is_done ?B n"
    using n by (fastforce simp: known_def is_config_def step_new_def)+
  moreover have "''b'' \<in> needed ?B ''b''" by (simp add: needed_def)
  moreover have "\<not> is_done ?B ''a''" by (simp add: is_done_def step_new_def)
  ultimately show ?thesis
    using seq_start_correct [of ?sq _ "''b''" "\<lambda>_. 0", OF _ e] ac unfolding sequencer.simps D by simp blast
qed

text \<open>
  Property C35. \<open>InitSequencer::topo_sort\<close> returns if and only if no circle of steps depends, directly or
  through others, on a step without dependencies: the search marks a step only when it leaves it.
\<close>
theorem topo_sort_returns_iff:
  assumes "distinct (map fst steps)"
  shows "topo_sort steps \<noteq> None \<longleftrightarrow>
    \<not> (\<exists>c r. known steps r \<and> deps_of steps r = [] \<and> (c, r) \<in> (depends steps)\<^sup>* \<and> (c, c) \<in> (depends steps)\<^sup>+)"
  using topo_sort_returns [OF assms] unfolding grounded_iff [OF finite_depends] by blast


lemma topo_sort_returns_iff_witness:
  "topo_sort [(''a'', step_new [] False), (''b'', step_new [''a'', ''c''] False), (''c'', step_new [''b''] False)] = None"
proof -
  let ?B = "[(''a'', step_new [] False), (''b'', step_new [''a'', ''c''] False), (''c'', step_new [''b''] False)]"
  have D: "(''b'', ''a'') \<in> depends ?B" "(''b'', ''c'') \<in> depends ?B" "(''c'', ''b'') \<in> depends ?B"
    by (simp_all add: depends_Some step_new_def)
  have c: "(''b'', ''b'') \<in> (depends ?B)\<^sup>+" by (rule trancl_trans [OF r_into_trancl [OF D(2)] r_into_trancl [OF D(3)]])
  have "(''b'', ''a'') \<in> (depends ?B)\<^sup>*" using D(1) by (rule r_into_rtrancl)
  moreover have "known ?B ''a'' \<and> deps_of ?B ''a'' = []" by (simp add: known_def deps_of_def step_new_def)
  ultimately show ?thesis using topo_sort_returns_iff [of ?B] c by auto
qed

end
