(* ===== verification/StringSerialize.thy ===== *)
theory StringSerialize
  imports Marshal
begin

text \<open>
  serialize/StringSerialize.cc and .h: an object as text in a string buffer, the fields separated by a blank or
  a dot. The tables and caches of the storage layer use the text as the key of an object. A buffer is
  appended as a C string whose length \<open>append\<close> compares with \<open>strlen\<close>, which reads up to a zero byte: where there is
  none in the memory of the field, the call is undefined. \<open>std::string::data\<close> ends with a zero.
\<close>

section \<open>State\<close>

record string_ser =
  ss_buf :: ebuf
  ss_sep :: byte
  ss_options :: u32
  ss_error :: bool

definition ss_init :: "(nat \<Rightarrow> byte) \<Rightarrow> u32 \<Rightarrow> string_ser run" where
  "ss_init junk options = bind_run (bind_run (eb_init junk 0) (str_init (eb_reserve junk))) (\<lambda>b.
     Inr \<lparr>ss_buf = b, ss_sep = (if bit options 3 then 46 else 32), ss_options = options, ss_error = False\<rparr>)"

section \<open>Operations\<close>

definition ss_append :: "(ebuf \<Rightarrow> (nat \<times> ebuf) run) \<Rightarrow> string_ser \<Rightarrow> string_ser run" where
  "ss_append f s = bind_run (f (ss_buf s)) (\<lambda>(n, b). Inr (s\<lparr>ss_buf := b\<rparr>))"

definition ss_add_preamble :: "(nat \<Rightarrow> byte) \<Rightarrow> string \<Rightarrow> string \<Rightarrow> string_ser \<Rightarrow> string_ser run" where
  "ss_add_preamble junk name typ s =
     bind_run
       (if bit (ss_options s) 0 then
          bind_run (ss_append (str_append (eb_reserve junk) (cstr name) 0) s) (\<lambda>s1.
          ss_append (str_append_char (eb_reserve junk) (ss_sep s1)) s1)
        else Inr s) (\<lambda>s2.
     if bit (ss_options s2) 1 then
       bind_run (ss_append (str_append (eb_reserve junk) (cstr typ) 0) s2) (\<lambda>s3.
       ss_append (str_append_char (eb_reserve junk) (ss_sep s3)) s3)
     else Inr s2)"

text \<open>\<open>append(buf, n)\<close> of memory that need not end with a zero.\<close>

definition raw_append :: "(nat \<Rightarrow> byte) \<Rightarrow> bytes \<Rightarrow> nat \<Rightarrow> ebuf \<Rightarrow> (nat \<times> ebuf) run" where
  "raw_append junk src n b = (if 0 \<in> set src then str_append (eb_reserve junk) src n b else Inl Undefined)"

fun ss_type :: "field \<Rightarrow> string" where
  "ss_type (U64 i) = ''u_int64_t''"
| "ss_type (U32 i) = ''u_int32_t''"
| "ss_type (U16 i) = ''u_int16_t''"
| "ss_type (U8 i) = ''u_int8_t''"
| "ss_type (Bool b) = ''bool''"
| "ss_type (Bytes bs) = ''char_buf''"
| "ss_type (Str str) = ''string''"
| "ss_type (Carrier c) = ''char_buf_var''"
| "ss_type (Term c t) = ''char_buf_var''"

fun ss_value :: "(nat \<Rightarrow> byte) \<Rightarrow> field \<Rightarrow> ebuf \<Rightarrow> (nat \<times> ebuf) run" where
  "ss_value junk (U64 i) b = str_append_int (eb_reserve junk) i 10 b"
| "ss_value junk (U32 i) b = str_append_int32 (eb_reserve junk) i 10 b"
| "ss_value junk (U16 i) b = str_append_int32 (eb_reserve junk) (ucast i) 10 b"
| "ss_value junk (U8 i) b = str_append_int32 (eb_reserve junk) (ucast i) 10 b"
| "ss_value junk (Bool x) b = (if x then str_append (eb_reserve junk) (cstr ''true'') 4 b
     else str_append (eb_reserve junk) (cstr ''false'') 5 b)"
| "ss_value junk (Bytes bs) b = raw_append junk bs (length bs) b"
| "ss_value junk (Str str) b = str_append (eb_reserve junk) str (length str) b"
| "ss_value junk (Carrier c) b = raw_append junk (car_mem c) (car_len c) b"
| "ss_value junk (Term c t) b = bind_run (car_scan c t) (\<lambda>n. raw_append junk (car_mem c) n b)"

definition ss_process :: "(nat \<Rightarrow> byte) \<Rightarrow> string_ser \<Rightarrow> string \<Rightarrow> field \<Rightarrow> (string_ser \<times> field) run" where
  "ss_process junk s name f =
     bind_run (ss_add_preamble junk name (ss_type f) s) (\<lambda>s1.
     if bit (ss_options s1) 2 then Inr (s1, f)
     else bind_run (ss_append (ss_value junk f) s1) (\<lambda>s2.
          bind_run (ss_append (str_append_char (eb_reserve junk) (ss_sep s2)) s2) (\<lambda>s3. Inr (s3, f))))"

definition ss_end_action :: "string_ser \<Rightarrow> string_ser run" where
  "ss_end_action s = (if eb_len (ss_buf s) \<noteq> 0 then bind_run (str_trim 1 (ss_buf s)) (\<lambda>b. Inr (s\<lparr>ss_buf := b\<rparr>)) else Inr s)"

definition ss_action :: "(nat \<Rightarrow> byte) \<Rightarrow> 'o visit \<Rightarrow> string_ser \<Rightarrow> (int \<times> string_ser \<times> 'o) run" where
  "ss_action junk = run_action ss_error_update ss_error Inr (ss_process junk) ss_end_action"

text \<open>The key of an object in MemoryTable and DurableObjectCache: \<open>get_cache_key\<close>.\<close>

definition string_key :: "(nat \<Rightarrow> byte) \<Rightarrow> 'o visit \<Rightarrow> bytes run" where
  "string_key junk v = bind_run (ss_init junk 8) (\<lambda>s.
     bind_run (ss_action junk v s) (\<lambda>(err, s1, r).
     if err \<noteq> 0 then Inl Panicked else Inr (eb_contents (ss_buf s1))))"

section \<open>The text\<close>

fun field_text :: "field \<Rightarrow> bytes" where
  "field_text (U64 i) = fast_ultoa i 10"
| "field_text (U32 i) = fast_ultoa (ucast i) 10"
| "field_text (U16 i) = fast_ultoa (ucast (ucast i :: u32)) 10"
| "field_text (U8 i) = fast_ultoa (ucast (ucast i :: u32)) 10"
| "field_text (Bool x) = (if x then cstr ''true'' else cstr ''false'')"
| "field_text (Bytes bs) = bs"
| "field_text (Str str) = str"
| "field_text (Carrier c) = take (car_len c) (car_mem c)"
| "field_text (Term c t) = takeWhile (\<lambda>x. x \<noteq> t) (car_mem c)"

text \<open>The fields whose text is written: short numbers, and text without a zero byte that a zero byte follows.\<close>

fun field_printable :: "field \<Rightarrow> bool" where
  "field_printable (U64 i) \<longleftrightarrow> unat i < 10 ^ 15"
| "field_printable (Bytes bs) \<longleftrightarrow> False"
| "field_printable (Str str) \<longleftrightarrow> 0 \<notin> set str"
| "field_printable (Carrier c) \<longleftrightarrow> 0 < car_len c \<and> 0 \<in> set (car_mem c) \<and> car_len c \<le> length (takeWhile (\<lambda>x. x \<noteq> 0) (car_mem c))"
| "field_printable (Term c t) \<longleftrightarrow> t = 0 \<and> 0 \<in> set (car_mem c)"
| "field_printable _ \<longleftrightarrow> True"

primrec visit_fields :: "'o visit \<Rightarrow> field list" where
  "visit_fields (Done x) = []"
| "visit_fields (Process name f k) = f # visit_fields (k f)"


lemma ultoa_short: "length (fast_ultoa i 10) < 16 \<longleftrightarrow> unat i < 10 ^ 15"
proof -
  have "n < 16 \<longleftrightarrow> n \<le> 15" for n :: nat by linarith
  then show ?thesis using fast_ultoa_loop [of 10 i] ultoa_loop_length [of 10 15 "unat i"] by simp
qed

lemma ultoa_small: "unat (i :: u64) < 2 ^ 32 \<Longrightarrow> length (fast_ultoa i 10) < 16"
  unfolding ultoa_short by (erule less_trans) simp

lemma append_number:
  assumes "eb_len b \<le> length (eb_mem b)" "unat i < 10 ^ 15"
  shows "\<exists>b'. str_append_int (eb_reserve junk) i 10 b = Inr (length (fast_ultoa i 10), b') \<and>
    eb_len b' \<le> length (eb_mem b') \<and> eb_contents b' = eb_contents (b :: ebuf) @ fast_ultoa i 10"
  using heap_buf.append_int [OF assms(1), of i 10 junk] fast_ultoa_ne [of 10 i] assms(2) ultoa_short by auto

lemma ucast_small: "unat (ucast (i :: u32) :: u64) < 2 ^ 32"
proof -
  have "unat (ucast i :: u64) \<le> unat i" by (simp add: unsigned_ucast_eq)
  then show ?thesis using unat_lt [of i] by simp
qed

lemma append_number32:
  assumes "eb_len b \<le> length (eb_mem b)"
  shows "\<exists>k b'. str_append_int32 (eb_reserve junk) i 10 b = Inr (k, b') \<and>
    eb_len b' \<le> length (eb_mem b') \<and> eb_contents b' = eb_contents (b :: ebuf) @ fast_ultoa (ucast i) 10"
proof -
  have "unat (ucast i :: u64) < 10 ^ 15" using ucast_small [of i] by simp
  from append_number [OF assms this, of junk] show ?thesis by (auto simp: str_append_int32_def)
qed

lemma append_text:
  fixes b :: ebuf
  assumes "eb_len b \<le> length (eb_mem b)" "n \<le> length (takeWhile (\<lambda>c. c \<noteq> 0) src)" "n = 0 \<longrightarrow> takeWhile (\<lambda>c. c \<noteq> 0) src = []"
  shows "\<exists>k b'. str_append (eb_reserve junk) src n b = Inr (k, b') \<and>
    eb_len b' \<le> length (eb_mem b') \<and> eb_contents b' = eb_contents b @ take n src"
proof -
  have "(if n = 0 then length (takeWhile (\<lambda>c. c \<noteq> 0) src) else n) = n" using assms(3) by simp
  then show ?thesis using heap_buf.append_string [OF assms(1), of n src junk] assms(2) by auto
qed

lemma takeWhile_no_zero: "(0 :: byte) \<notin> set src \<Longrightarrow> takeWhile (\<lambda>c. c \<noteq> 0) src = src"
  by (auto simp: takeWhile_eq_all_conv)

lemma cstr_no_zero: "takeWhile (\<lambda>c. c \<noteq> 0) (cstr ''true'') = cstr ''true''" "takeWhile (\<lambda>c. c \<noteq> 0) (cstr ''false'') = cstr ''false''"
  "length (cstr ''true'') = 4" "length (cstr ''false'') = 5"
  by (simp_all add: cstr_def)

lemma ss_value_text:
  assumes "eb_len b \<le> length (eb_mem b)" "field_printable f"
  shows "\<exists>k b'. ss_value junk f b = Inr (k, b') \<and> eb_len b' \<le> length (eb_mem b') \<and>
    eb_contents b' = eb_contents b @ field_text f"
proof (cases f)
  case (U64 i)
  then show ?thesis using append_number [OF assms(1), of i junk] assms(2) by auto
next
  case (U32 i)
  then show ?thesis using append_number32 [OF assms(1), of junk i] by auto
next
  case (U16 i)
  then show ?thesis using append_number32 [OF assms(1), of junk "ucast i"] by auto
next
  case (U8 i)
  then show ?thesis using append_number32 [OF assms(1), of junk "ucast i"] by auto
next
  case (Bool x)
  then show ?thesis using append_text [OF assms(1), of 4 "cstr ''true''" junk] append_text [OF assms(1), of 5 "cstr ''false''" junk]
    by (cases x) (auto simp: cstr_no_zero)
next
  case (Str str)
  then show ?thesis using append_text [OF assms(1), of "length str" str junk] assms(2) by (auto simp: takeWhile_no_zero)
next
  case (Carrier c)
  then show ?thesis using append_text [OF assms(1), of "car_len c" "car_mem c" junk] assms(2) by (auto simp: raw_append_def)
next
  case (Term c t)
  then show ?thesis using append_text [OF assms(1), of "length (takeWhile (\<lambda>x. x \<noteq> 0) (car_mem c))" "car_mem c" junk] assms(2)
    by (auto simp: raw_append_def car_scan_def takeWhile_eq_take [symmetric])
qed (use assms(2) in simp)

text \<open>The texts of the fields, each with the dot behind it.\<close>

definition dotted :: "field list \<Rightarrow> bytes" where
  "dotted fs = concat (map (\<lambda>f. field_text f @ [46]) fs)"

definition ss_ok :: "string_ser \<Rightarrow> bool" where
  "ss_ok s \<longleftrightarrow> eb_len (ss_buf s) \<le> length (eb_mem (ss_buf s)) \<and> ss_sep s = 46 \<and> ss_options s = 8 \<and> \<not> ss_error s"

lemma key_options: "\<not> bit (8 :: u32) 0" "\<not> bit (8 :: u32) 1" "\<not> bit (8 :: u32) 2" "bit (8 :: u32) 3"
  by simp_all

lemma ss_process_text:
  assumes "ss_ok s" "field_printable f"
  shows "\<exists>s'. ss_process junk s name f = Inr (s', f) \<and> ss_ok s' \<and> eb_contents (ss_buf s') = eb_contents (ss_buf s) @ dotted [f]"
proof -
  obtain k b where b: "ss_value junk f (ss_buf s) = Inr (k, b)" "eb_len b \<le> length (eb_mem b)"
    "eb_contents b = eb_contents (ss_buf s) @ field_text f"
    using ss_value_text [OF _ assms(2)] assms(1) unfolding ss_ok_def by blast
  obtain b2 where b2: "str_append_char (eb_reserve junk) 46 b = Inr (1, b2)" "eb_len b2 \<le> length (eb_mem b2)"
    "eb_contents b2 = eb_contents b @ [46]"
    using heap_buf.append_char [OF b(2)] by blast
  have o: "ss_options s = 8" "ss_sep s = 46" using assms(1) by (simp_all add: ss_ok_def)
  have "ss_process junk s name f = Inr (s\<lparr>ss_buf := b2\<rparr>, f)"
    using b(1) b2(1) by (simp add: ss_process_def ss_add_preamble_def o key_options ss_append_def)
  then show ?thesis using b(3) b2(2,3) assms(1) by (simp add: ss_ok_def dotted_def)
qed

lemma ss_run_text:
  "ss_ok s \<Longrightarrow> list_all field_printable (visit_fields v) \<Longrightarrow>
    \<exists>s'. visit_run (ss_process junk) v s = Inr (s', visit_result v) \<and> ss_ok s' \<and>
      eb_contents (ss_buf s') = eb_contents (ss_buf s) @ dotted (visit_fields v)"
proof (induction v arbitrary: s)
  case (Process name f k)
  have p: "field_printable f" using Process.prems(2) by simp
  obtain s1 where s1: "ss_process junk s name f = Inr (s1, f)" "ss_ok s1"
    "eb_contents (ss_buf s1) = eb_contents (ss_buf s) @ dotted [f]"
    using ss_process_text [OF Process.prems(1) p] by blast
  with Process.IH [OF rangeI s1(2), of f] Process.prems(2) show ?case by (auto simp: dotted_def)
qed (simp add: dotted_def)

lemma string_key_spec:
  assumes "list_all field_printable (visit_fields v)"
  shows "string_key junk v = Inr (butlast (dotted (visit_fields v)))"
proof -
  let ?b = "\<lparr>eb_mem = map junk [0..<256], eb_len = 0\<rparr>"
  let ?s = "\<lparr>ss_buf = ?b, ss_sep = 46, ss_options = 8, ss_error = False\<rparr>"
  have i: "ss_init junk 8 = Inr ?s"
    by (simp add: ss_init_def eb_init_def str_init_def eb_reserve_def)
  have ok: "ss_ok ?s" by (simp add: ss_ok_def)
  obtain s1 where s1: "visit_run (ss_process junk) v ?s = Inr (s1, visit_result v)" "ss_ok s1"
    "eb_contents (ss_buf s1) = dotted (visit_fields v)"
    using ss_run_text [OF ok assms] by (auto simp: eb_contents_def)
  have len: "length (eb_contents (ss_buf s1)) = eb_len (ss_buf s1)" using s1(2) by (simp add: ss_ok_def eb_contents_def)
  obtain s2 where s2: "ss_end_action s1 = Inr s2" "eb_contents (ss_buf s2) = butlast (dotted (visit_fields v))" "\<not> ss_error s2"
  proof (cases "eb_len (ss_buf s1) = 0")
    case True
    then show ?thesis using that [of s1] s1(2,3) len by (simp add: ss_end_action_def ss_ok_def)
  next
    case False
    have l: "eb_len (ss_buf s1) - 1 \<le> length (eb_mem (ss_buf s1))" using s1(2) unfolding ss_ok_def by linarith
    let ?b2 = "(ss_buf s1)\<lparr>eb_len := eb_len (ss_buf s1) - 1\<rparr>"
    have "ss_end_action s1 = Inr (s1\<lparr>ss_buf := ?b2\<rparr>)"
      using False l by (simp add: ss_end_action_def str_trim_def eb_set_len_def)
    moreover have "eb_contents ?b2 = butlast (eb_contents (ss_buf s1))"
      using l len by (simp add: eb_contents_def butlast_take)
    ultimately show ?thesis using that s1(2,3) by (simp add: ss_ok_def)
  qed
  have "ss_action junk v ?s = Inr (0, s2, visit_result v)"
    using s1(1) s2(1,3) by (simp add: ss_action_def run_action_def)
  then show ?thesis using i s2(2) by (simp add: string_key_def)
qed

section \<open>Properties\<close>

text \<open>
  Also. The key of an object in the storage layer (StringSerialize with DOT_SEPARATED) is the texts of its fields
  with a dot between them, when numbers have at most fifteen digits and text has no zero byte; so
  two objects whose texts are equal have the same key, such as the pairs of strings (a.b, c) and (a, b.c).
\<close>
theorem string_key_text:
  assumes "list_all field_printable (visit_fields v)"
  shows "string_key junk v = Inr (butlast (dotted (visit_fields v)))"
  using assms by (rule string_key_spec)

definition two_strings :: "bytes \<Rightarrow> bytes \<Rightarrow> unit visit" where
  "two_strings a b = Process ''a'' (Str a) (\<lambda>_. Process ''b'' (Str b) (\<lambda>_. Done ()))"

lemma string_key_text_witness:
  "string_key (\<lambda>_. 0) (two_strings [97, 46, 98] [99]) = string_key (\<lambda>_. 0) (two_strings [97] [98, 46, 99])"
  using string_key_text [of "two_strings [97, 46, 98] [99]" "\<lambda>_. 0"] string_key_text [of "two_strings [97] [98, 46, 99]" "\<lambda>_. 0"]
  by (simp add: two_strings_def dotted_def)

text \<open>A divergence. A number of sixteen or more digits ends the program.\<close>

lemma string_key_long_number:
  assumes "10 ^ 15 \<le> unat i"
  shows "\<exists>f. string_key junk (Process ''a'' (U64 i) (\<lambda>_. Done ())) = Inl f"
proof -
  have "16 \<le> length (fast_ultoa i 10)" using ultoa_short [of i] assms by linarith
  then obtain f where f: "str_append_int (eb_reserve junk) i 10 \<lparr>eb_mem = map junk [0..<256], eb_len = 0\<rparr> = Inl f"
    by (fastforce simp: str_append_int_def Let_def assert_run_def)
  then have "string_key junk (Process ''a'' (U64 i) (\<lambda>_. Done ())) = Inl f"
    by (simp add: string_key_def ss_action_def run_action_def ss_init_def eb_init_def str_init_def eb_reserve_def
        ss_process_def ss_add_preamble_def ss_append_def key_options)
  then show ?thesis by blast
qed

end
