(* ===== verification/ObjectCache.thy ===== *)
theory ObjectCache
  imports Prelude
begin

text \<open>
  storage/DurableObjectCache.h and .tcc, with util/LRUList.h: the cache of a durable table. An
  element is live from \<open>put\<close> or \<open>get\<close> to \<open>release\<close>; the elements that are not live are on the
  LRU list and can be evicted. The key is the text that \<open>get_cache_key\<close> makes of it; a node of the list has
  an identity, and an iterator is the identity of a node (none for one that was never set). \<open>oc_freed\<close> is
  the sequence of the objects that the cache has deleted. Every operation holds the cache's
  lock and is one step; the logging is left out.
\<close>

section \<open>State\<close>

datatype cache_policy = CAP_BY_SIZE | CAP_BY_COUNT

datatype ds_result = DS_OK | DS_NOTFOUND | DS_BUFSIZE | DS_BUSY | DS_EXISTS | DS_BADTYPE | DS_ERR

record 'p cache_elem =
  ce_object :: 'p
  ce_size :: u64
  ce_live :: bool
  ce_iter :: "nat option"

record 'p ocache =
  oc_size :: u64
  oc_capacity :: u64
  oc_hits :: int
  oc_misses :: int
  oc_evictions :: int
  oc_lru :: "(nat \<times> bytes) list"
  oc_table :: "(bytes \<times> 'p cache_elem) list"
  oc_policy :: cache_policy
  oc_node :: nat
  oc_freed :: "'p list"

definition oc_init :: "u64 \<Rightarrow> cache_policy \<Rightarrow> 'p ocache" where
  "oc_init capacity policy = \<lparr>oc_size = 0, oc_capacity = capacity, oc_hits = 0, oc_misses = 0, oc_evictions = 0,
     oc_lru = [], oc_table = [], oc_policy = policy, oc_node = 0, oc_freed = []\<rparr>"

section \<open>Lists and tables\<close>

definition lru_deref :: "nat option \<Rightarrow> (nat \<times> bytes) list \<Rightarrow> bytes run" where
  "lru_deref iter lru = (case Option.bind iter (map_of lru) of None \<Rightarrow> Inl Undefined | Some key \<Rightarrow> Inr key)"

definition lru_erase :: "nat option \<Rightarrow> (nat \<times> bytes) list \<Rightarrow> (nat \<times> bytes) list run" where
  "lru_erase iter lru = (case iter of
      None \<Rightarrow> Inl Undefined
    | Some i \<Rightarrow> if i \<in> fst ` set lru then Inr (filter (\<lambda>x. fst x \<noteq> i) lru) else Inl Undefined)"

definition lru_to_back :: "nat option \<Rightarrow> (nat \<times> bytes) list \<Rightarrow> (nat \<times> bytes) list run" where
  "lru_to_back iter lru = bind_run (lru_erase iter lru) (\<lambda>rest. Inr (rest @ filter (\<lambda>x. Some (fst x) = iter) lru))"

definition table_erase :: "bytes \<Rightarrow> (bytes \<times> 'p cache_elem) list \<Rightarrow> (bytes \<times> 'p cache_elem) list" where
  "table_erase key = filter (\<lambda>x. fst x \<noteq> key)"

definition table_set :: "bytes \<Rightarrow> 'p cache_elem \<Rightarrow> (bytes \<times> 'p cache_elem) list \<Rightarrow> (bytes \<times> 'p cache_elem) list" where
  "table_set key e = map (\<lambda>(k, e0). (k, if k = key then e else e0))"

section \<open>Operations\<close>

definition oc_count :: "'p ocache \<Rightarrow> nat" where
  "oc_count c = length (oc_table c)"

definition oc_live_count :: "'p ocache \<Rightarrow> nat" where
  "oc_live_count c = length (oc_table c) - length (oc_lru c)"

definition is_over_capacity :: "u64 \<Rightarrow> 'p ocache \<Rightarrow> bool" where
  "is_over_capacity n c = (case oc_policy c of
      CAP_BY_SIZE \<Rightarrow> oc_capacity c < oc_size c + n
    | CAP_BY_COUNT \<Rightarrow> oc_capacity c < of_nat (oc_count c) + 1)"

definition evict_last :: "'p ocache \<Rightarrow> 'p ocache run" where
  "evict_last c = (case oc_lru c of
      [] \<Rightarrow> Inl Assert_failed
    | (i, key) # rest \<Rightarrow> (case map_of (oc_table c) key of
          None \<Rightarrow> Inl Assert_failed
        | Some e \<Rightarrow>
            bind_run (assert_run (ce_iter e = Some i)) (\<lambda>_.
            bind_run (assert_run (\<not> ce_live e)) (\<lambda>_.
            Inr (c\<lparr>oc_table := table_erase key (oc_table c), oc_lru := rest, oc_size := oc_size c - ce_size e,
              oc_evictions := oc_evictions c + 1, oc_freed := oc_freed c @ [ce_object e]\<rparr>)))))"

text \<open>The loop of \<open>put\<close> and that of \<open>flush\<close>; each round shortens the list.\<close>

lemma evict_last_shorter: "evict_last c = Inr c' \<Longrightarrow> length (oc_lru c') < length (oc_lru c)"
  by (auto simp: evict_last_def bind_run_eq_Inr assert_run_eq_Inr split: list.splits option.splits)

function evict_over :: "u64 \<Rightarrow> 'p ocache \<Rightarrow> 'p ocache run" where
  "evict_over n c =
     (if is_over_capacity n c \<and> oc_lru c \<noteq> []
      then (case evict_last c of Inl f \<Rightarrow> Inl f | Inr c1 \<Rightarrow> evict_over n c1)
      else Inr c)"
  by pat_completeness auto
termination by (relation "measure (\<lambda>(n, c). length (oc_lru c))") (auto simp: evict_last_shorter)

declare evict_over.simps [simp del]

definition ds_flag :: "nat \<Rightarrow> u32 \<Rightarrow> bool" where
  "ds_flag i flags = bit flags i"

text \<open>\<open>sizer\<close> is what the action of \<open>MarshalSize\<close> on the object returns, and the size it computes.\<close>

definition oc_put :: "bytes \<Rightarrow> 'p \<Rightarrow> int \<times> u64 \<Rightarrow> u32 \<Rightarrow> 'p ocache \<Rightarrow> (ds_result \<times> 'p ocache) run" where
  "oc_put key ob sizer flags c = (case map_of (oc_table c) key of
      Some e \<Rightarrow>
        if ds_flag 1 flags then Inr (DS_EXISTS, c)
        else if ce_object e = ob then Inr (DS_OK, c)
        else Inl Panicked
    | None \<Rightarrow>
        if fst sizer \<noteq> 0 then Inl Panicked
        else bind_run (evict_over (snd sizer) c) (\<lambda>c1.
          let e = \<lparr>ce_object = ob, ce_size = snd sizer, ce_live = True, ce_iter = None\<rparr>
          in bind_run (assert_run (map_of (oc_table c1) key = None)) (\<lambda>_.
             Inr (DS_OK, c1\<lparr>oc_table := (key, e) # oc_table c1, oc_size := oc_size c1 + snd sizer\<rparr>))))"

definition oc_get :: "bytes \<Rightarrow> 'p ocache \<Rightarrow> (ds_result \<times> 'p option \<times> 'p ocache) run" where
  "oc_get key c = (case map_of (oc_table c) key of
      None \<Rightarrow> Inr (DS_NOTFOUND, None, c\<lparr>oc_misses := oc_misses c + 1\<rparr>)
    | Some e \<Rightarrow>
        let c1 = c\<lparr>oc_hits := oc_hits c + 1\<rparr>
        in if \<not> ce_live e then
             bind_run (lru_deref (ce_iter e) (oc_lru c1)) (\<lambda>k.
             bind_run (assert_run (k = key)) (\<lambda>_.
             bind_run (lru_erase (ce_iter e) (oc_lru c1)) (\<lambda>lru.
             Inr (DS_OK, Some (ce_object e),
               c1\<lparr>oc_table := table_set key (e\<lparr>ce_live := True\<rparr>) (oc_table c1), oc_lru := lru\<rparr>))))
           else Inr (DS_OK, Some (ce_object e), c1))"

definition oc_is_live :: "bytes \<Rightarrow> 'p ocache \<Rightarrow> bool" where
  "oc_is_live key c = (case map_of (oc_table c) key of None \<Rightarrow> False | Some e \<Rightarrow> ce_live e)"

definition oc_release :: "bytes \<Rightarrow> 'p \<Rightarrow> 'p ocache \<Rightarrow> (ds_result \<times> 'p ocache) run" where
  "oc_release key ob c = (case map_of (oc_table c) key of
      None \<Rightarrow> Inr (DS_ERR, c)
    | Some e \<Rightarrow>
        bind_run (assert_run (ce_object e = ob)) (\<lambda>_.
        bind_run
          (if \<not> ce_live e then bind_run (lru_to_back (ce_iter e) (oc_lru c)) (\<lambda>lru. Inr (c\<lparr>oc_lru := lru\<rparr>))
           else Inr (c\<lparr>oc_lru := oc_lru c @ [(oc_node c, key)], oc_node := oc_node c + 1,
             oc_table := table_set key (e\<lparr>ce_live := False, ce_iter := Some (oc_node c)\<rparr>) (oc_table c)\<rparr>))
          (\<lambda>c1. if is_over_capacity 0 c1 then bind_run (evict_last c1) (\<lambda>c2. Inr (DS_OK, c2))
             else Inr (DS_OK, c1))))"

definition oc_del :: "bytes \<Rightarrow> 'p ocache \<Rightarrow> (ds_result \<times> 'p ocache) run" where
  "oc_del key c = (case map_of (oc_table c) key of
      None \<Rightarrow> Inr (DS_NOTFOUND, c)
    | Some e \<Rightarrow>
        if ce_live e then Inr (DS_ERR, c)
        else bind_run (lru_erase (ce_iter e) (oc_lru c)) (\<lambda>lru.
          Inr (DS_OK, c\<lparr>oc_lru := lru, oc_table := table_erase key (oc_table c), oc_size := oc_size c - ce_size e,
            oc_freed := oc_freed c @ [ce_object e]\<rparr>)))"

definition oc_remove :: "bytes \<Rightarrow> 'p ocache \<Rightarrow> (ds_result \<times> 'p ocache) run" where
  "oc_remove key c = (case map_of (oc_table c) key of
      None \<Rightarrow> Inr (DS_NOTFOUND, c)
    | Some e \<Rightarrow>
        bind_run (if ce_live e then Inr (oc_lru c) else lru_erase (ce_iter e) (oc_lru c)) (\<lambda>lru.
        Inr (DS_OK, c\<lparr>oc_lru := lru, oc_table := table_erase key (oc_table c), oc_size := oc_size c - ce_size e\<rparr>)))"

function oc_flush :: "'p ocache \<Rightarrow> (nat \<times> 'p ocache) run" where
  "oc_flush c =
     (if oc_lru c \<noteq> []
      then (case evict_last c of
          Inl f \<Rightarrow> Inl f
        | Inr c1 \<Rightarrow> bind_run (oc_flush c1) (\<lambda>(n, c2). Inr (n + 1, c2)))
      else Inr (0, c))"
  by pat_completeness auto
termination by (relation "measure (\<lambda>c. length (oc_lru c))") (auto simp: evict_last_shorter)

declare oc_flush.simps [simp del]

definition oc_reset_stats :: "'p ocache \<Rightarrow> 'p ocache" where
  "oc_reset_stats c = c\<lparr>oc_hits := 0, oc_misses := 0, oc_evictions := 0\<rparr>"


section \<open>The invariant\<close>

definition oc_ok :: "'p ocache \<Rightarrow> bool" where
  "oc_ok c \<longleftrightarrow> distinct (map fst (oc_table c)) \<and> distinct (map fst (oc_lru c)) \<and> (\<forall>i \<in> fst ` set (oc_lru c). i < oc_node c) \<and>
     (\<forall>i k. (i, k) \<in> set (oc_lru c) \<longleftrightarrow> (\<exists>e. map_of (oc_table c) k = Some e \<and> \<not> ce_live e \<and> ce_iter e = Some i)) \<and>
     (\<forall>k e. map_of (oc_table c) k = Some e \<longrightarrow> \<not> ce_live e \<longrightarrow> ce_iter e \<noteq> None) \<and>
     oc_size c = sum_list (map (\<lambda>x. ce_size (snd x)) (oc_table c))"

declare map_of_eq_Some_iff [simp del]

lemma oc_okI:
  assumes "distinct (map fst (oc_table c))" "distinct (map fst (oc_lru c))" "\<And>i. i \<in> fst ` set (oc_lru c) \<Longrightarrow> i < oc_node c"
    and "\<And>i k. (i, k) \<in> set (oc_lru c) \<longleftrightarrow> (\<exists>e. map_of (oc_table c) k = Some e \<and> \<not> ce_live e \<and> ce_iter e = Some i)"
    and "\<And>k e. map_of (oc_table c) k = Some e \<Longrightarrow> \<not> ce_live e \<Longrightarrow> ce_iter e \<noteq> None"
    and "oc_size c = sum_list (map (\<lambda>x. ce_size (snd x)) (oc_table c))"
  shows "oc_ok c"
  using assms by (simp add: oc_ok_def)

lemma oc_ok_cong:
  "oc_table c' = oc_table c \<Longrightarrow> oc_lru c' = oc_lru c \<Longrightarrow> oc_node c' = oc_node c \<Longrightarrow> oc_size c' = oc_size c \<Longrightarrow> oc_ok c' = oc_ok c"
  by (simp add: oc_ok_def)

lemma oc_init_ok: "oc_ok (oc_init capacity policy)"
  by (simp add: oc_ok_def oc_init_def)

lemma map_of_erase: "map_of (table_erase k t) j = (if j = k then None else map_of t j)"
  by (simp add: table_erase_def map_of_remove)

lemma map_of_set: "map_of (table_set k e t) j = (if j = k then map_option (\<lambda>_. e) (map_of t k) else map_of t j)"
  by (simp add: table_set_def map_of_replace)

lemma table_set_fst [simp]: "map fst (table_set k e t) = map fst t"
  by (induction t) (auto simp: table_set_def)

lemma sum_erase: "distinct (map fst t) \<Longrightarrow> map_of t k = Some e \<Longrightarrow>
    sum_list (map (\<lambda>x. ce_size (snd x)) (table_erase k t)) = sum_list (map (\<lambda>x. ce_size (snd x)) t) - ce_size e"
proof (induction t)
  case (Cons x t)
  have "table_erase k t = t" if "fst x = k" 
    unfolding table_erase_def by (rule filter_True) (use Cons.prems(1) that in \<open>metis distinct.simps(2) image_eqI list.map(2) list.set_map\<close>)
  then show ?case using Cons by (cases x) (auto simp: table_erase_def)
qed simp

lemma sum_set:
  assumes "map_of t k = Some e0" "distinct (map fst t)" "ce_size e = ce_size e0"
  shows "sum_list (map (\<lambda>x. ce_size (snd x)) (table_set k e t)) = sum_list (map (\<lambda>x. ce_size (snd x)) t)"
proof -
  have "ce_size (snd x) = ce_size e" if "x \<in> set t" "fst x = k" for x
    using assms that map_of_is_SomeI [OF assms(2), of k "snd x"] by (cases x) auto
  then have "map (\<lambda>x. ce_size (snd x)) (table_set k e t) = map (\<lambda>x. ce_size (snd x)) t"
    by (auto simp: table_set_def)
  then show ?thesis by simp
qed

lemma lru_key_unique: "oc_ok c \<Longrightarrow> (i, k) \<in> set (oc_lru c) \<Longrightarrow> (j, k) \<in> set (oc_lru c) \<Longrightarrow> i = j"
  by (auto simp: oc_ok_def)

lemma lru_node_unique: "oc_ok c \<Longrightarrow> (i, k) \<in> set (oc_lru c) \<Longrightarrow> (i, j) \<in> set (oc_lru c) \<Longrightarrow> k = j"
  unfolding oc_ok_def by (meson eq_key_imp_eq_value)

lemma oc_entry:
  assumes "oc_ok c" "map_of (oc_table c) k = Some e"
  shows "ce_live e \<Longrightarrow> filter (\<lambda>x. snd x \<noteq> k) (oc_lru c) = oc_lru c"
    and "\<not> ce_live e \<Longrightarrow> \<exists>i. ce_iter e = Some i \<and> (i, k) \<in> set (oc_lru c) \<and> map_of (oc_lru c) i = Some k \<and>
      lru_erase (ce_iter e) (oc_lru c) = Inr (filter (\<lambda>x. snd x \<noteq> k) (oc_lru c))"
proof -
  show "ce_live e \<Longrightarrow> filter (\<lambda>x. snd x \<noteq> k) (oc_lru c) = oc_lru c"
    using assms by (auto simp: filter_id_conv oc_ok_def)
  assume n: "\<not> ce_live e"
  then have "ce_iter e \<noteq> None" using assms unfolding oc_ok_def by blast
  then obtain i where i: "ce_iter e = Some i" by blast
  have mem: "(i, k) \<in> set (oc_lru c)" using assms i n by (auto simp: oc_ok_def)
  then have "map_of (oc_lru c) i = Some k" using assms(1) by (simp add: oc_ok_def)
  moreover have "filter (\<lambda>x. fst x \<noteq> i) (oc_lru c) = filter (\<lambda>x. snd x \<noteq> k) (oc_lru c)"
    using mem lru_key_unique [OF assms(1)] lru_node_unique [OF assms(1)] by (auto intro!: filter_cong)
  ultimately show "\<exists>i. ce_iter e = Some i \<and> (i, k) \<in> set (oc_lru c) \<and> map_of (oc_lru c) i = Some k \<and>
      lru_erase (ce_iter e) (oc_lru c) = Inr (filter (\<lambda>x. snd x \<noteq> k) (oc_lru c))"
    using i mem by (force simp: lru_erase_def)
qed

text \<open>Taking an entry out of the table and of the list.\<close>

lemma oc_ok_erase:
  assumes "oc_ok c" "map_of (oc_table c) k = Some e" "oc_table c' = table_erase k (oc_table c)"
    "oc_lru c' = filter (\<lambda>x. snd x \<noteq> k) (oc_lru c)" "oc_node c' = oc_node c" "oc_size c' = oc_size c - ce_size e"
  shows "oc_ok c'"
proof (rule oc_okI, unfold assms(3-6))
  have d: "distinct (map fst (oc_table c))" using assms(1) by (simp add: oc_ok_def)
  show "distinct (map fst (table_erase k (oc_table c)))" using d by (auto simp: table_erase_def distinct_map_filter)
  show "distinct (map fst (filter (\<lambda>x. snd x \<noteq> k) (oc_lru c)))" using assms(1) by (auto simp: oc_ok_def distinct_map_filter)
  show "oc_size c - ce_size e = sum_list (map (\<lambda>x. ce_size (snd x)) (table_erase k (oc_table c)))"
    using sum_erase [OF d assms(2)] assms(1) by (simp add: oc_ok_def)
qed (use assms(1) in \<open>auto simp: oc_ok_def map_of_erase split: if_splits\<close>)

lemma evict_last_ok:
  assumes "oc_ok c" "oc_lru c = (i, k) # rest"
  obtains e where "map_of (oc_table c) k = Some e" "\<not> ce_live e" "ce_iter e = Some i"
    "evict_last c = Inr (c\<lparr>oc_table := table_erase k (oc_table c), oc_lru := rest, oc_size := oc_size c - ce_size e,
       oc_evictions := oc_evictions c + 1, oc_freed := oc_freed c @ [ce_object e]\<rparr>)"
    "rest = filter (\<lambda>x. snd x \<noteq> k) (oc_lru c)"
proof -
  have "(i, k) \<in> set (oc_lru c)" using assms(2) by simp
  then obtain e where e: "map_of (oc_table c) k = Some e" "\<not> ce_live e" "ce_iter e = Some i"
    using assms(1) by (auto simp: oc_ok_def)
  have d: "distinct (map fst (oc_lru c))" using assms(1) by (simp add: oc_ok_def)
  have "snd x \<noteq> k" if x: "x \<in> set rest" for x
  proof
    assume "snd x = k"
    then have "(fst x, k) \<in> set (oc_lru c)" using x assms(2) by auto
    then have "fst x = i" using lru_key_unique [OF assms(1)] assms(2) by auto
    then show False using d x assms(2) by force
  qed
  then have "rest = filter (\<lambda>x. snd x \<noteq> k) (oc_lru c)" using assms(2) by (simp add: filter_id_conv)
  then show ?thesis using e assms(2) by (intro that [of e]) (simp_all add: evict_last_def)
qed

lemma evict_last_keeps: "oc_ok c \<Longrightarrow> evict_last c = Inr c' \<Longrightarrow> oc_ok c'"
proof (cases "oc_lru c")
  case (Cons x rest)
  assume ok: "oc_ok c" and c': "evict_last c = Inr c'"
  obtain i k where x: "x = (i, k)" by (cases x)
  obtain e where e: "map_of (oc_table c) k = Some e"
    "evict_last c = Inr (c\<lparr>oc_table := table_erase k (oc_table c), oc_lru := rest, oc_size := oc_size c - ce_size e,
       oc_evictions := oc_evictions c + 1, oc_freed := oc_freed c @ [ce_object e]\<rparr>)"
    "rest = filter (\<lambda>x. snd x \<noteq> k) (oc_lru c)"
    using evict_last_ok [OF ok Cons [unfolded x]] by metis
  show ?thesis by (rule oc_ok_erase [OF ok e(1)]) (use e c' in auto)
qed (simp add: evict_last_def)


section \<open>Evicting\<close>

text \<open>What evicting the first \<open>m\<close> entries of the list leaves.\<close>

definition oc_evict :: "nat \<Rightarrow> 'p ocache \<Rightarrow> 'p ocache" where
  "oc_evict m c = c\<lparr>oc_table := filter (\<lambda>x. fst x \<notin> snd ` set (take m (oc_lru c))) (oc_table c), oc_lru := drop m (oc_lru c),
     oc_size := oc_size c - sum_list (map (\<lambda>x. ce_size (the (map_of (oc_table c) (snd x)))) (take m (oc_lru c))),
     oc_evictions := oc_evictions c + int m,
     oc_freed := oc_freed c @ map (\<lambda>x. ce_object (the (map_of (oc_table c) (snd x)))) (take m (oc_lru c))\<rparr>"

lemma oc_evict_0 [simp]: "oc_evict 0 c = c"
  by (simp add: oc_evict_def)

lemma evict_last_evict:
  fixes c :: "'p ocache"
  assumes "oc_ok c" "oc_lru c \<noteq> []"
  shows "evict_last c = Inr (oc_evict 1 c)" "oc_ok (oc_evict 1 c)" "m < length (oc_lru c) \<Longrightarrow> oc_evict m (oc_evict 1 c) = oc_evict (Suc m) c"
proof -
  obtain i k rest where l: "oc_lru c = (i, k) # rest" using assms(2) by (cases "oc_lru c") auto
  obtain e where e: "map_of (oc_table c) k = Some e"
    "evict_last c = Inr (c\<lparr>oc_table := table_erase k (oc_table c), oc_lru := rest, oc_size := oc_size c - ce_size e,
       oc_evictions := oc_evictions c + 1, oc_freed := oc_freed c @ [ce_object e]\<rparr>)"
    "rest = filter (\<lambda>x. snd x \<noteq> k) (oc_lru c)"
    by (rule evict_last_ok [OF assms(1) l]) (rule that, assumption+)
  show r: "evict_last c = Inr (oc_evict 1 c)" using e(1,2) by (simp add: oc_evict_def l table_erase_def)
  show "oc_ok (oc_evict 1 c)" using evict_last_keeps [OF assms(1) r] .
  have k: "snd x \<noteq> k" if "x \<in> set rest" for x using that e(3) by auto
  have one: "oc_evict 1 c = c\<lparr>oc_table := table_erase k (oc_table c), oc_lru := rest, oc_size := oc_size c - ce_size e,
       oc_evictions := oc_evictions c + 1, oc_freed := oc_freed c @ [ce_object e]\<rparr>" using e(2) r by simp
  have same: "map (\<lambda>x. f (the (map_of (table_erase k (oc_table c)) (snd x)))) (take m rest) =
      map (\<lambda>x. f (the (map_of (oc_table c) (snd x)))) (take m rest)" for f :: "'p cache_elem \<Rightarrow> 'x"
    by (rule map_cong [OF refl]) (use k in \<open>auto simp: map_of_erase dest: in_set_takeD\<close>)
  have tab: "filter (\<lambda>x. fst x \<notin> snd ` set (take m rest)) (table_erase k (oc_table c)) =
      filter (\<lambda>x. fst x \<notin> snd ` set (take (Suc m) (oc_lru c))) (oc_table c)"
    unfolding table_erase_def filter_filter by (rule filter_cong) (auto simp: l)
  show "oc_evict m (oc_evict 1 c) = oc_evict (Suc m) c" if "m < length (oc_lru c)"
    unfolding one using tab by (simp add: oc_evict_def l e(1) same [of ce_size] same [of ce_object] algebra_simps)
qed

lemma evict_over_spec:
  assumes "oc_ok c"
  shows "\<exists>n\<le>length (oc_lru c). evict_over s c = Inr (oc_evict n c) \<and> oc_ok (oc_evict n c) \<and>
    (\<forall>m<n. is_over_capacity s (oc_evict m c)) \<and> (n = length (oc_lru c) \<or> \<not> is_over_capacity s (oc_evict n c))"
  using assms
proof (induction s c rule: evict_over.induct)
  case (1 s c)
  show ?case
  proof (cases "is_over_capacity s c \<and> oc_lru c \<noteq> []")
    case False
    then show ?thesis using "1.prems" by (intro exI [of _ 0]) (auto simp: evict_over.simps [of s c])
  next
    case True
    note ev = evict_last_evict [OF "1.prems"]
    have len: "length (oc_lru (oc_evict 1 c)) = length (oc_lru c) - 1" by (simp add: oc_evict_def)
    obtain n where n: "n \<le> length (oc_lru c) - 1" "evict_over s (oc_evict 1 c) = Inr (oc_evict n (oc_evict 1 c))"
      "oc_ok (oc_evict n (oc_evict 1 c))" "\<forall>m<n. is_over_capacity s (oc_evict m (oc_evict 1 c))"
      "n = length (oc_lru c) - 1 \<or> \<not> is_over_capacity s (oc_evict n (oc_evict 1 c))"
      using "1.IH" [OF True ev(1)] ev(2) True len by auto
    have pos: "0 < length (oc_lru c)" using True by simp
    have step: "m \<le> n \<Longrightarrow> oc_evict m (oc_evict 1 c) = oc_evict (Suc m) c" for m
      using ev(3) True n(1) pos by (simp add: Suc_le_eq [symmetric])
    have "is_over_capacity s (oc_evict m c)" if "m < Suc n" for m
      using that True n(4) step by (cases m) auto
    moreover have "evict_over s c = Inr (oc_evict (Suc n) c)"
      using True ev(1) n(2) step by (simp add: evict_over.simps [of s c])
    moreover have "Suc n \<le> length (oc_lru c)" using n(1) pos by arith
    ultimately show ?thesis using n(3,5) step by (intro exI [of _ "Suc n"]) auto
  qed
qed

lemma oc_flush_spec: "oc_ok c \<Longrightarrow> oc_flush c = Inr (length (oc_lru c), oc_evict (length (oc_lru c)) c) \<and> oc_ok (oc_evict (length (oc_lru c)) c)"
proof (induction c rule: oc_flush.induct)
  case (1 c)
  show ?case
  proof (cases "oc_lru c = []")
    case True
    then show ?thesis using "1.prems" by (simp add: oc_flush.simps [of c])
  next
    case False
    note ev = evict_last_evict [OF "1.prems" False]
    have len: "length (oc_lru (oc_evict 1 c)) = length (oc_lru c) - 1" by (simp add: oc_evict_def)
    have "oc_evict (length (oc_lru c) - 1) (oc_evict 1 c) = oc_evict (length (oc_lru c)) c" using ev(3) False by simp
    then show ?thesis using "1.IH" [OF False ev(1,2)] False ev(1) len by (simp add: oc_flush.simps [of c])
  qed
qed


section \<open>Every operation keeps the invariant\<close>

datatype 'p cache_op = Put bytes 'p "int \<times> u64" u32 | Get bytes | Release bytes 'p | Del bytes | Remove bytes | Flush | Reset_stats

fun oc_step :: "'p cache_op \<Rightarrow> 'p ocache \<Rightarrow> 'p ocache run" where
  "oc_step (Put key ob sizer flags) c = bind_run (oc_put key ob sizer flags c) (\<lambda>(r, c1). Inr c1)"
| "oc_step (Get key) c = bind_run (oc_get key c) (\<lambda>(r, ob, c1). Inr c1)"
| "oc_step (Release key ob) c = bind_run (oc_release key ob c) (\<lambda>(r, c1). Inr c1)"
| "oc_step (Del key) c = bind_run (oc_del key c) (\<lambda>(r, c1). Inr c1)"
| "oc_step (Remove key) c = bind_run (oc_remove key c) (\<lambda>(r, c1). Inr c1)"
| "oc_step Flush c = bind_run (oc_flush c) (\<lambda>(n, c1). Inr c1)"
| "oc_step Reset_stats c = Inr (oc_reset_stats c)"

text \<open>The calls that the cache answers by ending the program: another object for a cached key, and an object without size.\<close>

fun misuse :: "'p cache_op \<Rightarrow> 'p ocache \<Rightarrow> bool" where
  "misuse (Put key ob sizer flags) c = (case map_of (oc_table c) key of
      Some e \<Rightarrow> \<not> ds_flag 1 flags \<and> ce_object e \<noteq> ob
    | None \<Rightarrow> fst sizer \<noteq> 0)"
| "misuse (Release key ob) c = (case map_of (oc_table c) key of Some e \<Rightarrow> ce_object e \<noteq> ob | None \<Rightarrow> False)"
| "misuse _ c = False"

text \<open>The cache deletes the objects of the keys \<open>ks\<close>, and nothing else.\<close>

definition frees :: "'p cache_op \<Rightarrow> 'p ocache \<Rightarrow> 'p ocache \<Rightarrow> bool" where
  "frees op c c' \<longleftrightarrow> (\<exists>ks. oc_freed c' = oc_freed c @ map (\<lambda>k. ce_object (the (map_of (oc_table c) k))) ks \<and> distinct ks \<and>
     (\<forall>k\<in>set ks. map_of (oc_table c') k = None \<and> (\<exists>e. map_of (oc_table c) k = Some e \<and>
       (\<not> ce_live e \<or> op = Release k (ce_object e)))))"

lemma frees_none: "oc_freed c' = oc_freed c \<Longrightarrow> frees op c c'"
  unfolding frees_def by (rule exI [of _ "[]"]) simp

lemma frees_one: "oc_freed c' = oc_freed c @ [ce_object e] \<Longrightarrow> map_of (oc_table c) k = Some e \<Longrightarrow>
    map_of (oc_table c') k = None \<Longrightarrow> \<not> ce_live e \<or> op = Release k (ce_object e) \<Longrightarrow> frees op c c'"
  unfolding frees_def by (rule exI [of _ "[k]"]) simp

lemma oc_evict_frees:
  assumes "oc_ok c" "oc_freed c' = oc_freed (oc_evict n c)" "\<And>k. k \<in> snd ` set (oc_lru c) \<Longrightarrow> map_of (oc_table c') k = map_of (oc_table (oc_evict n c)) k"
  shows "frees op c c'"
  unfolding frees_def
proof (intro exI [of _ "map snd (take n (oc_lru c))"] conjI ballI)
  show "oc_freed c' = oc_freed c @ map (\<lambda>k. ce_object (the (map_of (oc_table c) k))) (map snd (take n (oc_lru c)))"
    using assms(2) by (simp add: oc_evict_def comp_def)
  have "distinct (map snd (oc_lru c))"
  proof -
    have "distinct (oc_lru c)" using assms(1) by (simp add: oc_ok_def distinct_map)
    moreover have "inj_on snd (set (oc_lru c))" using lru_key_unique [OF assms(1)] by (auto simp: inj_on_def)
    ultimately show ?thesis by (simp add: distinct_map)
  qed
  then show "distinct (map snd (take n (oc_lru c)))" by (simp add: take_map [symmetric])
  fix k assume k: "k \<in> set (map snd (take n (oc_lru c)))"
  then obtain i where i: "(i, k) \<in> set (oc_lru c)" by (auto dest: in_set_takeD)
  have "map_of (filter (\<lambda>x. fst x \<notin> S) t) k = (if k \<in> S then None else map_of t k)" for S and t :: "(bytes \<times> 'a cache_elem) list"
    by (induction t) auto
  then show "map_of (oc_table c') k = None" using assms(3) [of k] i k by (force simp: oc_evict_def)
  show "\<exists>e. map_of (oc_table c) k = Some e \<and> (\<not> ce_live e \<or> op = Release k (ce_object e))"
    using i assms(1) by (auto simp: oc_ok_def)
qed

lemma put_room_ok:
  assumes "oc_ok c" "map_of (oc_table c) key = None"
  shows "oc_ok (c\<lparr>oc_table := (key, \<lparr>ce_object = ob, ce_size = n, ce_live = True, ce_iter = None\<rparr>) # oc_table c, oc_size := oc_size c + n\<rparr>)"
proof (rule oc_okI)
  show "\<And>i k. (i, k) \<in> set (oc_lru (c\<lparr>oc_table := (key, \<lparr>ce_object = ob, ce_size = n, ce_live = True, ce_iter = None\<rparr>) # oc_table c, oc_size := oc_size c + n\<rparr>)) \<longleftrightarrow>
      (\<exists>e. map_of (oc_table (c\<lparr>oc_table := (key, \<lparr>ce_object = ob, ce_size = n, ce_live = True, ce_iter = None\<rparr>) # oc_table c, oc_size := oc_size c + n\<rparr>)) k = Some e \<and>
        \<not> ce_live e \<and> ce_iter e = Some i)"
    using assms by (auto simp: oc_ok_def)
qed (use assms in \<open>auto simp: oc_ok_def map_of_eq_None_iff split: if_splits\<close>)

text \<open>\<open>put\<close> of a new key evicts the least recently released entries, one after the other, and no more than it must.\<close>

lemma oc_put_spec:
  assumes "oc_ok c" "map_of (oc_table c) key = None" "fst sizer = 0"
  shows "\<exists>n\<le>length (oc_lru c). oc_put key ob sizer flags c = Inr (DS_OK, (oc_evict n c)
      \<lparr>oc_table := (key, \<lparr>ce_object = ob, ce_size = snd sizer, ce_live = True, ce_iter = None\<rparr>) # oc_table (oc_evict n c),
       oc_size := oc_size (oc_evict n c) + snd sizer\<rparr>) \<and>
    oc_ok (oc_evict n c) \<and> map_of (oc_table (oc_evict n c)) key = None \<and>
    (\<forall>m<n. is_over_capacity (snd sizer) (oc_evict m c)) \<and> (n = length (oc_lru c) \<or> \<not> is_over_capacity (snd sizer) (oc_evict n c))"
proof -
  obtain n where n: "n\<le>length (oc_lru c)" "evict_over (snd sizer) c = Inr (oc_evict n c)" "oc_ok (oc_evict n c)"
    "\<forall>m<n. is_over_capacity (snd sizer) (oc_evict m c)" "n = length (oc_lru c) \<or> \<not> is_over_capacity (snd sizer) (oc_evict n c)"
    using evict_over_spec [OF assms(1), of "snd sizer"] by blast
  have "map_of (oc_table (oc_evict n c)) key = None"
    using assms(2) unfolding map_of_eq_None_iff by (auto simp: oc_evict_def)
  then show ?thesis using n assms(2,3) by (intro exI [of _ n]) (simp add: oc_put_def Let_def)
qed


lemma oc_get_ok:
  assumes "oc_ok c"
  shows "\<exists>r ob c'. oc_get key c = Inr (r, ob, c') \<and> oc_ok c' \<and> oc_freed c' = oc_freed c"
proof (cases "map_of (oc_table c) key")
  case None
  then show ?thesis using assms by (simp add: oc_get_def oc_ok_def)
next
  case (Some e)
  show ?thesis
  proof (cases "ce_live e")
    case True
    then show ?thesis using Some assms by (simp add: oc_get_def oc_ok_def Let_def)
  next
    case False
    obtain i where i: "ce_iter e = Some i" "(i, key) \<in> set (oc_lru c)" "map_of (oc_lru c) i = Some key"
      "lru_erase (ce_iter e) (oc_lru c) = Inr (filter (\<lambda>x. snd x \<noteq> key) (oc_lru c))"
      using oc_entry(2) [OF assms Some False] by blast
    let ?c = "c\<lparr>oc_hits := oc_hits c + 1, oc_table := table_set key (e\<lparr>ce_live := True\<rparr>) (oc_table c),
        oc_lru := filter (\<lambda>x. snd x \<noteq> key) (oc_lru c)\<rparr>"
    have "oc_get key c = Inr (DS_OK, Some (ce_object e), ?c)"
      using Some False i by (simp add: oc_get_def lru_deref_def)
    moreover have "oc_ok ?c"
    proof (rule oc_okI)
      show "oc_size ?c = sum_list (map (\<lambda>x. ce_size (snd x)) (oc_table ?c))"
        using assms sum_set [OF Some] by (simp add: oc_ok_def)
      show "distinct (map fst (oc_lru ?c))" using assms by (auto simp: oc_ok_def distinct_map_filter)
      show "i \<in> fst ` set (oc_lru ?c) \<Longrightarrow> i < oc_node ?c" for i using assms by (auto simp: oc_ok_def)
      show "(i, k) \<in> set (oc_lru ?c) \<longleftrightarrow> (\<exists>e. map_of (oc_table ?c) k = Some e \<and> \<not> ce_live e \<and> ce_iter e = Some i)" for i k
        using assms Some by (auto simp: oc_ok_def map_of_set)
      show "map_of (oc_table ?c) k = Some e' \<Longrightarrow> \<not> ce_live e' \<Longrightarrow> ce_iter e' \<noteq> None" for k e'
        using assms Some by (auto simp: oc_ok_def map_of_set split: if_splits)
    qed (use assms in \<open>simp add: oc_ok_def\<close>)
    ultimately show ?thesis by auto
  qed
qed

text \<open>An entry that leaves the table: \<open>del\<close> and \<open>remove\<close>.\<close>

lemma lru_without:
  assumes "oc_ok c" "map_of (oc_table c) key = Some e"
  shows "(if ce_live e then Inr (oc_lru c) else lru_erase (ce_iter e) (oc_lru c)) = Inr (filter (\<lambda>x. snd x \<noteq> key) (oc_lru c))"
  using oc_entry [OF assms] by auto

lemma oc_del_ok:
  assumes "oc_ok c"
  shows "\<exists>r c'. oc_del key c = Inr (r, c') \<and> oc_ok c' \<and> frees op c c'"
proof (cases "map_of (oc_table c) key")
  case None
  then show ?thesis using assms by (simp add: oc_del_def frees_none)
next
  case (Some e)
  show ?thesis
  proof (cases "ce_live e")
    case True
    then show ?thesis using Some assms by (simp add: oc_del_def frees_none)
  next
    case False
    let ?c = "c\<lparr>oc_lru := filter (\<lambda>x. snd x \<noteq> key) (oc_lru c), oc_table := table_erase key (oc_table c),
        oc_size := oc_size c - ce_size e, oc_freed := oc_freed c @ [ce_object e]\<rparr>"
    have "oc_del key c = Inr (DS_OK, ?c)" using Some False lru_without [OF assms Some] by (simp add: oc_del_def)
    moreover have "oc_ok ?c" by (rule oc_ok_erase [OF assms Some]) simp_all
    moreover have "frees op c ?c" by (rule frees_one [OF _ Some]) (simp_all add: map_of_erase False)
    ultimately show ?thesis by blast
  qed
qed

lemma oc_remove_ok:
  assumes "oc_ok c"
  shows "\<exists>r c'. oc_remove key c = Inr (r, c') \<and> oc_ok c' \<and> oc_freed c' = oc_freed c"
proof (cases "map_of (oc_table c) key")
  case None
  then show ?thesis using assms by (simp add: oc_remove_def)
next
  case (Some e)
  let ?c = "c\<lparr>oc_lru := filter (\<lambda>x. snd x \<noteq> key) (oc_lru c), oc_table := table_erase key (oc_table c),
      oc_size := oc_size c - ce_size e\<rparr>"
  have "oc_remove key c = Inr (DS_OK, ?c)" using Some lru_without [OF assms Some] by (simp add: oc_remove_def)
  moreover have "oc_ok ?c" by (rule oc_ok_erase [OF assms Some]) simp_all
  ultimately show ?thesis by auto
qed

text \<open>\<open>release\<close> before it looks at the capacity.\<close>

definition oc_released :: "bytes \<Rightarrow> 'p cache_elem \<Rightarrow> 'p ocache \<Rightarrow> 'p ocache" where
  "oc_released key e c = (if ce_live e
     then c\<lparr>oc_lru := oc_lru c @ [(oc_node c, key)], oc_node := oc_node c + 1,
       oc_table := table_set key (e\<lparr>ce_live := False, ce_iter := Some (oc_node c)\<rparr>) (oc_table c)\<rparr>
     else c\<lparr>oc_lru := filter (\<lambda>x. snd x \<noteq> key) (oc_lru c) @ filter (\<lambda>x. snd x = key) (oc_lru c)\<rparr>)"

lemma oc_released_ok:
  assumes "oc_ok c" "map_of (oc_table c) key = Some e"
  shows "oc_ok (oc_released key e c)" "oc_lru (oc_released key e c) \<noteq> []" "oc_freed (oc_released key e c) = oc_freed c"
    "map_option ce_object (map_of (oc_table (oc_released key e c)) k) = map_option ce_object (map_of (oc_table c) k)"
    "map_of (oc_table (oc_released key e c)) k = Some e' \<Longrightarrow> \<not> ce_live e' \<Longrightarrow> k = key \<or> map_of (oc_table c) k = Some e'"
proof -
  have "oc_ok (oc_released key e c) \<and> oc_lru (oc_released key e c) \<noteq> []"
  proof (cases "ce_live e")
    case True
    let ?c = "c\<lparr>oc_lru := oc_lru c @ [(oc_node c, key)], oc_node := oc_node c + 1,
       oc_table := table_set key (e\<lparr>ce_live := False, ce_iter := Some (oc_node c)\<rparr>) (oc_table c)\<rparr>"
    have r: "oc_released key e c = ?c" using True by (simp add: oc_released_def)
    have fresh: "oc_node c \<notin> fst ` set (oc_lru c)" using assms(1) unfolding oc_ok_def by blast
    have "oc_ok ?c"
    proof (rule oc_okI)
      show "oc_size ?c = sum_list (map (\<lambda>x. ce_size (snd x)) (oc_table ?c))"
        using assms sum_set [OF assms(2)] by (simp add: oc_ok_def)
      show "distinct (map fst (oc_lru ?c))" using assms(1) fresh by (simp add: oc_ok_def)
      have "\<forall>i \<in> fst ` set (oc_lru c). i < oc_node c" using assms(1) unfolding oc_ok_def by blast
      then show "i \<in> fst ` set (oc_lru ?c) \<Longrightarrow> i < oc_node ?c" for i by auto
      show "(i, k) \<in> set (oc_lru ?c) \<longleftrightarrow> (\<exists>e. map_of (oc_table ?c) k = Some e \<and> \<not> ce_live e \<and> ce_iter e = Some i)" for i k
        using assms True by (auto simp: oc_ok_def map_of_set)
      show "map_of (oc_table ?c) k = Some e' \<Longrightarrow> \<not> ce_live e' \<Longrightarrow> ce_iter e' \<noteq> None" for k e'
        using assms by (auto simp: oc_ok_def map_of_set split: if_splits)
    qed (use assms in \<open>simp add: oc_ok_def\<close>)
    then show ?thesis using r by simp
  next
    case False
    let ?c = "c\<lparr>oc_lru := filter (\<lambda>x. snd x \<noteq> key) (oc_lru c) @ filter (\<lambda>x. snd x = key) (oc_lru c)\<rparr>"
    have r: "oc_released key e c = ?c" using False by (simp add: oc_released_def)
    have s: "set (oc_lru ?c) = set (oc_lru c)" by auto
    have d: "distinct (map fst (oc_lru c))" using assms(1) by (simp add: oc_ok_def)
    then have "distinct (map fst (filter P (oc_lru c)))" for P by (rule distinct_map_filter)
    moreover have "fst ` set (filter (\<lambda>x. snd x \<noteq> key) (oc_lru c)) \<inter> fst ` set (filter (\<lambda>x. snd x = key) (oc_lru c)) = {}"
      using lru_node_unique [OF assms(1)] by auto
    ultimately have "distinct (map fst (oc_lru ?c))" by simp
    then have "oc_ok ?c" using assms(1) s unfolding oc_ok_def by simp
    moreover have "oc_lru ?c \<noteq> []" using oc_entry(2) [OF assms False] s by force
    ultimately show ?thesis using r by simp
  qed
  then show "oc_ok (oc_released key e c)" "oc_lru (oc_released key e c) \<noteq> []" by blast+
  show "oc_freed (oc_released key e c) = oc_freed c"
    "map_option ce_object (map_of (oc_table (oc_released key e c)) k) = map_option ce_object (map_of (oc_table c) k)"
    "map_of (oc_table (oc_released key e c)) k = Some e' \<Longrightarrow> \<not> ce_live e' \<Longrightarrow> k = key \<or> map_of (oc_table c) k = Some e'"
    using assms(2) by (auto simp: oc_released_def map_of_set split: if_splits)
qed


lemma oc_release_eq:
  assumes "oc_ok c" "map_of (oc_table c) key = Some e" "ce_object e = ob"
  shows "oc_release key ob c = Inr (DS_OK, (if is_over_capacity 0 (oc_released key e c)
    then oc_evict 1 (oc_released key e c) else oc_released key e c))"
proof -
  note r = oc_released_ok [OF assms(1,2)]
  have "(if \<not> ce_live e then bind_run (lru_to_back (ce_iter e) (oc_lru c)) (\<lambda>lru. Inr (c\<lparr>oc_lru := lru\<rparr>))
      else Inr (c\<lparr>oc_lru := oc_lru c @ [(oc_node c, key)], oc_node := oc_node c + 1,
             oc_table := table_set key (e\<lparr>ce_live := False, ce_iter := Some (oc_node c)\<rparr>) (oc_table c)\<rparr>)) =
      Inr (oc_released key e c)"
  proof (cases "ce_live e")
    case False
    obtain i where i: "ce_iter e = Some i" "(i, key) \<in> set (oc_lru c)"
      "lru_erase (ce_iter e) (oc_lru c) = Inr (filter (\<lambda>x. snd x \<noteq> key) (oc_lru c))"
      using oc_entry(2) [OF assms(1,2) False] by blast
    have "filter (\<lambda>x. Some (fst x) = Some i) (oc_lru c) = filter (\<lambda>x. snd x = key) (oc_lru c)"
      using i(2) lru_key_unique [OF assms(1)] lru_node_unique [OF assms(1)] by (auto intro!: filter_cong)
    then show ?thesis using i False by (simp add: lru_to_back_def oc_released_def)
  qed (simp add: oc_released_def)
  then show ?thesis using assms(2,3) evict_last_evict(1) [OF r(1,2)] by (simp add: oc_release_def)
qed

lemma oc_release_ok:
  assumes "oc_ok c" "map_of (oc_table c) key = Some e" "ce_object e = ob"
  shows "\<exists>c'. oc_release key ob c = Inr (DS_OK, c') \<and> oc_ok c' \<and> frees (Release key ob) c c'"
proof (cases "is_over_capacity 0 (oc_released key e c)")
  case False
  then show ?thesis using oc_release_eq [OF assms] oc_released_ok [OF assms(1,2)] by (simp add: frees_none)
next
  case True
  let ?c = "oc_released key e c"
  note r = oc_released_ok [OF assms(1,2)]
  obtain i k rest where l: "oc_lru ?c = (i, k) # rest" using r(2) by (cases "oc_lru ?c") auto
  obtain e' where e': "map_of (oc_table ?c) k = Some e'" "\<not> ce_live e'"
    "evict_last ?c = Inr (?c\<lparr>oc_table := table_erase k (oc_table ?c), oc_lru := rest, oc_size := oc_size ?c - ce_size e',
       oc_evictions := oc_evictions ?c + 1, oc_freed := oc_freed ?c @ [ce_object e']\<rparr>)"
    by (rule evict_last_ok [OF r(1) l]) (rule that, assumption+)
  obtain e0 where e0: "map_of (oc_table c) k = Some e0" "ce_object e0 = ce_object e'"
    using r(4) [of k] e'(1) by (cases "map_of (oc_table c) k") auto
  have live: "\<not> ce_live e0 \<or> Release key ob = Release k (ce_object e0)"
    using r(5) [OF e'(1,2)] e'(2) e0 assms(2,3) by auto
  have ev: "oc_evict 1 ?c = ?c\<lparr>oc_table := table_erase k (oc_table ?c), oc_lru := rest, oc_size := oc_size ?c - ce_size e',
       oc_evictions := oc_evictions ?c + 1, oc_freed := oc_freed ?c @ [ce_object e']\<rparr>"
    using e'(3) evict_last_evict(1) [OF r(1,2)] by simp
  have "frees (Release key ob) c (oc_evict 1 ?c)"
    unfolding ev by (rule frees_one [OF _ e0(1) _ live]) (simp_all add: r(3) e0(2) map_of_erase)
  then show ?thesis using oc_release_eq [OF assms] True evict_last_evict(2) [OF r(1,2)] by simp
qed

lemma oc_put_ok:
  assumes "oc_ok c" "\<not> misuse (Put key ob sizer flags) c"
  shows "\<exists>r c'. oc_put key ob sizer flags c = Inr (r, c') \<and> oc_ok c' \<and> frees (Put key ob sizer flags) c c'"
proof (cases "map_of (oc_table c) key")
  case (Some e)
  then show ?thesis using assms by (auto simp: oc_put_def frees_none)
next
  case None
  then have "fst sizer = 0" using assms(2) by simp
  from oc_put_spec [OF assms(1) None this] obtain n where n: "oc_put key ob sizer flags c = Inr (DS_OK, (oc_evict n c)
      \<lparr>oc_table := (key, \<lparr>ce_object = ob, ce_size = snd sizer, ce_live = True, ce_iter = None\<rparr>) # oc_table (oc_evict n c),
       oc_size := oc_size (oc_evict n c) + snd sizer\<rparr>)" "oc_ok (oc_evict n c)" "map_of (oc_table (oc_evict n c)) key = None"
    by blast
  have "key \<notin> snd ` set (oc_lru c)" using None assms(1) by (auto simp: oc_ok_def)
  then have "frees (Put key ob sizer flags) c ((oc_evict n c)
      \<lparr>oc_table := (key, \<lparr>ce_object = ob, ce_size = snd sizer, ce_live = True, ce_iter = None\<rparr>) # oc_table (oc_evict n c),
       oc_size := oc_size (oc_evict n c) + snd sizer\<rparr>)"
    by (intro oc_evict_frees [OF assms(1)]) auto
  then show ?thesis using n(1) put_room_ok [OF n(2,3)] by blast
qed

lemma oc_step_ok:
  assumes "oc_ok c" "\<not> misuse op c"
  shows "\<exists>c'. oc_step op c = Inr c' \<and> oc_ok c' \<and> frees op c c'"
proof (cases op)
  case (Put key ob sizer flags)
  then show ?thesis using oc_put_ok [of c key ob sizer flags] assms by auto
next
  case (Get key)
  then show ?thesis using oc_get_ok [OF assms(1), of key] by (auto intro: frees_none)
next
  case (Release key ob)
  show ?thesis
  proof (cases "map_of (oc_table c) key")
    case None
    then show ?thesis using Release assms(1) by (simp add: oc_release_def frees_none)
  next
    case (Some e)
    then show ?thesis using oc_release_ok [OF assms(1) Some] Release assms(2) by auto
  qed
next
  case (Del key)
  then show ?thesis using oc_del_ok [OF assms(1), of key op] by auto
next
  case (Remove key)
  then show ?thesis using oc_remove_ok [OF assms(1), of key] by (auto intro: frees_none)
next
  case Flush
  have "frees op c (oc_evict (length (oc_lru c)) c)" by (rule oc_evict_frees [OF assms(1)]) simp_all
  then show ?thesis using Flush oc_flush_spec [OF assms(1)] by auto
next
  case Reset_stats
  have "oc_ok (oc_reset_stats c)" using assms(1) by (simp add: oc_reset_stats_def oc_ok_def)
  then show ?thesis using Reset_stats by (simp add: frees_none oc_reset_stats_def)
qed

lemma oc_step_misuse: "misuse op c \<Longrightarrow> oc_step op c = Inl Panicked \<or> oc_step op c = Inl Assert_failed"
  by (cases op) (auto simp: oc_put_def oc_release_def split: option.splits)

section \<open>Properties\<close>

text \<open>
  Property C13. DurableObjectCache: every operation keeps the cache well formed: every key has one entry, the LRU list
  holds exactly the entries that are not live, every iterator that is used is that of the entry's own
  node, and \<open>size_\<close> is the sum of the sizes. No operation reads an invalid iterator; the program ends only for another
  object under a cached key or an object without a size. The objects deleted are those of entries that were
  not live, or the one just released, each once, and their keys are gone.
\<close>
theorem oc_step_safe:
  assumes "oc_ok c"
  shows "if misuse op c then oc_step op c = Inl Panicked \<or> oc_step op c = Inl Assert_failed
    else \<exists>c' ks. oc_step op c = Inr c' \<and> oc_ok c' \<and>
      oc_freed c' = oc_freed c @ map (\<lambda>k. ce_object (the (map_of (oc_table c) k))) ks \<and> distinct ks \<and>
      (\<forall>k\<in>set ks. map_of (oc_table c') k = None \<and> (\<exists>e. map_of (oc_table c) k = Some e \<and>
        (\<not> ce_live e \<or> op = Release k (ce_object e))))"
proof (cases "misuse op c")
  case True
  then show ?thesis using oc_step_misuse by simp
next
  case False
  from oc_step_ok [OF assms False] show ?thesis using False unfolding frees_def by auto
qed

lemma oc_step_safe_witness:
  "\<exists>c' ks. oc_step (Release [97] (7 :: nat)) ((oc_init 10 CAP_BY_SIZE)
      \<lparr>oc_table := [([97], \<lparr>ce_object = 7, ce_size = 20, ce_live = True, ce_iter = None\<rparr>)], oc_size := 20\<rparr>) = Inr c' \<and>
    oc_ok c' \<and> oc_freed c' = map (\<lambda>k. 7) ks \<and> (\<forall>k\<in>set ks. k = [97 :: byte])"
proof -
  let ?c = "(oc_init 10 CAP_BY_SIZE)\<lparr>oc_table := [([97], \<lparr>ce_object = 7 :: nat, ce_size = 20, ce_live = True, ce_iter = None\<rparr>)], oc_size := 20\<rparr>"
  have ok: "oc_ok ?c" by (auto simp: oc_ok_def oc_init_def)
  have "\<not> misuse (Release [97] 7) ?c" by (simp add: oc_init_def)
  with oc_step_safe [OF ok, of "Release [97] 7"] obtain c' ks where r: "oc_step (Release [97] 7) ?c = Inr c'" "oc_ok c'"
    "oc_freed c' = oc_freed ?c @ map (\<lambda>k. ce_object (the (map_of (oc_table ?c) k))) ks"
    "\<forall>k\<in>set ks. map_of (oc_table c') k = None \<and> (\<exists>e. map_of (oc_table ?c) k = Some e \<and>
        (\<not> ce_live e \<or> Release [97] 7 = Release k (ce_object e)))"
    by (auto simp: oc_init_def)
  have k: "k = [97]" if "k \<in> set ks" for k using r(4) that by (auto simp: oc_init_def split: if_splits)
  then have "map (\<lambda>k. ce_object (the (map_of (oc_table ?c) k))) ks = map (\<lambda>k. 7) ks" by (auto simp: oc_init_def)
  then have "oc_freed c' = map (\<lambda>k. 7) ks" using r(3) by (simp add: oc_init_def)
  then show ?thesis using r(1,2) k by blast
qed

text \<open>
  Property C37. DurableObjectCache::put of a new key: as long as the new object does not fit and something can
  be evicted, the entries that were released longest ago go, in that order, and no more of them than necessary;
  then the object is added as a live entry, and the cache is within its capacity unless all other entries are live.
\<close>
theorem oc_put_evicts:
  assumes "oc_ok c" "map_of (oc_table c) key = None" "fst sizer = 0"
  shows "\<exists>c' n. oc_put key ob sizer flags c = Inr (DS_OK, c') \<and> n \<le> length (oc_lru c) \<and> oc_lru c' = drop n (oc_lru c) \<and>
    (\<forall>k. map_of (oc_table c') k =
      (if k = key then Some \<lparr>ce_object = ob, ce_size = snd sizer, ce_live = True, ce_iter = None\<rparr>
       else if k \<in> snd ` set (take n (oc_lru c)) then None else map_of (oc_table c) k)) \<and>
    (\<forall>m<n. is_over_capacity (snd sizer) (oc_evict m c)) \<and>
    (oc_lru c' \<noteq> [] \<longrightarrow> (case oc_policy c of
        CAP_BY_SIZE \<Rightarrow> oc_size c' \<le> oc_capacity c
      | CAP_BY_COUNT \<Rightarrow> of_nat (oc_count c') \<le> oc_capacity c))"
proof -
  let ?e = "\<lparr>ce_object = ob, ce_size = snd sizer, ce_live = True, ce_iter = None\<rparr>"
  obtain n where n: "n \<le> length (oc_lru c)" "oc_put key ob sizer flags c = Inr (DS_OK, (oc_evict n c)
      \<lparr>oc_table := (key, ?e) # oc_table (oc_evict n c), oc_size := oc_size (oc_evict n c) + snd sizer\<rparr>)"
    "\<forall>m<n. is_over_capacity (snd sizer) (oc_evict m c)"
    "n = length (oc_lru c) \<or> \<not> is_over_capacity (snd sizer) (oc_evict n c)"
    using oc_put_spec [OF assms] by blast
  have "map_of (filter (\<lambda>x. fst x \<notin> S) t) k = (if k \<in> S then None else map_of t k)" for S k and t :: "(bytes \<times> 'a cache_elem) list"
    by (induction t) auto
  then have "\<forall>k. map_of ((key, ?e) # oc_table (oc_evict n c)) k =
      (if k = key then Some ?e else if k \<in> snd ` set (take n (oc_lru c)) then None else map_of (oc_table c) k)"
    by (simp add: oc_evict_def)
  moreover have "drop n (oc_lru c) \<noteq> [] \<longrightarrow> \<not> is_over_capacity (snd sizer) (oc_evict n c)" using n(4) by auto
  ultimately show ?thesis using n(1-3)
    by (intro exI [of _ "(oc_evict n c)\<lparr>oc_table := (key, ?e) # oc_table (oc_evict n c), oc_size := oc_size (oc_evict n c) + snd sizer\<rparr>"]
        exI [of _ n]) (auto simp: oc_evict_def is_over_capacity_def oc_count_def add.commute not_less split: cache_policy.splits)
qed

lemma oc_put_evicts_witness:
  "\<exists>c' n. oc_put [98] (8 :: nat) (0, 5) 0 ((oc_init 10 CAP_BY_SIZE)
      \<lparr>oc_table := [([97], \<lparr>ce_object = 7, ce_size = 6, ce_live = False, ce_iter = Some 0\<rparr>)], oc_size := 6,
       oc_lru := [(0, [97])], oc_node := 1\<rparr>) = Inr (DS_OK, c') \<and> n \<le> 1 \<and> oc_lru c' = drop n [(0, [97])]"
proof -
  let ?c = "(oc_init 10 CAP_BY_SIZE) \<lparr>oc_table := [([97], \<lparr>ce_object = 7 :: nat, ce_size = 6, ce_live = False, ce_iter = Some 0\<rparr>)], oc_size := 6,
       oc_lru := [(0, [97])], oc_node := 1\<rparr>"
  have ok: "oc_ok ?c" by (auto simp: oc_ok_def oc_init_def split: if_splits)
  have "map_of (oc_table ?c) [98] = None" by (simp add: oc_init_def)
  with oc_put_evicts [OF ok, of "[98]" "(0, 5)" 8 0] show ?thesis by (auto simp: oc_init_def)
qed

text \<open>
  A divergence. Under \<open>CAP_BY_COUNT\<close>, \<open>release\<close> asks whether one more object would fit: in a cache that holds exactly as many
  objects as its capacity allows, releasing one evicts an object at once.
\<close>

lemma release_by_count_evicts:
  assumes "oc_ok c" "map_of (oc_table c) key = Some e" "ce_object e = ob" "oc_policy c = CAP_BY_COUNT"
    and "of_nat (oc_count c) = oc_capacity c" "oc_capacity c \<noteq> - 1"
  shows "\<exists>c'. oc_release key ob c = Inr (DS_OK, c') \<and> oc_evictions c' = oc_evictions c + 1"
proof -
  let ?c = "oc_released key e c"
  have "length (oc_table ?c) = length (oc_table c)" by (simp add: oc_released_def table_set_def)
  moreover have "oc_policy ?c = CAP_BY_COUNT" "oc_capacity ?c = oc_capacity c" "oc_evictions ?c = oc_evictions c"
    using assms(4) by (simp_all add: oc_released_def)
  moreover have "oc_capacity c < oc_capacity c + 1" 
    using assms(6) unatSuc [of "oc_capacity c"] by (simp add: word_less_nat_alt add_eq_0_iff add.commute)
  ultimately have "is_over_capacity 0 ?c" using assms(5) by (simp add: is_over_capacity_def oc_count_def)
  then show ?thesis using oc_release_eq [OF assms(1-3)] \<open>oc_evictions ?c = oc_evictions c\<close>
    by (simp add: oc_evict_def)
qed

end
