(* ===== verification/MemoryStore.thy ===== *)
theory MemoryStore
  imports ObjectCache StringSerialize "HOL-Library.List_Lexorder"
begin

text \<open>
  storage/MemoryStore.cc and .h: tables in memory. A table maps the text of a key object to the flat
  forms of the key and the data; the store maps names to tables. A map is the list of its entries in the order of their keys. A table
  object holds a pointer to its map, which is the name of the table here: with the table
  deleted the pointer is dangling. An iterator of a map is a key or the end.
\<close>

section \<open>State\<close>

record mem_item =
  it_key :: ebuf
  it_data :: ebuf
  it_typecode :: u32

type_synonym mem_items = "(bytes \<times> mem_item) list"

record mem_store =
  ms_init :: bool
  ms_tables :: "(bytes \<times> mem_items) list"

record mem_table =
  mt_name :: bytes
  mt_multitype :: bool

definition map_put :: "bytes \<Rightarrow> 'v \<Rightarrow> (bytes \<times> 'v) list \<Rightarrow> (bytes \<times> 'v) list" where
  "map_put k v m = (if k \<in> fst ` set m then map (\<lambda>(j, w). (j, if j = k then v else w)) m
     else entry_insert k v m)"

definition map_del :: "bytes \<Rightarrow> (bytes \<times> 'v) list \<Rightarrow> (bytes \<times> 'v) list" where
  "map_del k = filter (\<lambda>x. fst x \<noteq> k)"

section \<open>MemoryStore\<close>

definition mst_new :: mem_store where
  "mst_new = \<lparr>ms_init = False, ms_tables = []\<rparr>"

definition mst_init :: "bool \<Rightarrow> mem_store \<Rightarrow> mem_store" where
  "mst_init tidy st = st\<lparr>ms_tables := if tidy then [] else ms_tables st, ms_init := True\<rparr>"

definition mst_get_table :: "bytes \<Rightarrow> u32 \<Rightarrow> mem_store \<Rightarrow> ds_result \<times> mem_table option \<times> mem_store" where
  "mst_get_table name flags st = (case map_of (ms_tables st) name of
      None \<Rightarrow>
        if \<not> ds_flag 0 flags then (DS_NOTFOUND, None, st)
        else (DS_OK, Some \<lparr>mt_name = name, mt_multitype = ds_flag 2 flags\<rparr>,
               st\<lparr>ms_tables := map_put name [] (ms_tables st)\<rparr>)
    | Some items \<Rightarrow>
        if ds_flag 1 flags then (DS_EXISTS, None, st)
        else (DS_OK, Some \<lparr>mt_name = name, mt_multitype = ds_flag 2 flags\<rparr>, st))"

definition mst_del_table :: "bytes \<Rightarrow> mem_store \<Rightarrow> mem_store" where
  "mst_del_table name st = st\<lparr>ms_tables := map_del name (ms_tables st)\<rparr>"

definition mst_get_table_names :: "mem_store \<Rightarrow> bytes list" where
  "mst_get_table_names st = map fst (ms_tables st)"

section \<open>MemoryTable\<close>

text \<open>The operations on the map of a table; \<open>table_on\<close> finds it through the pointer.\<close>

definition table_on :: "mem_table \<Rightarrow> (mem_items \<Rightarrow> ('r \<times> mem_items) run) \<Rightarrow> mem_store \<Rightarrow> ('r \<times> mem_store) run" where
  "table_on t f st = (case map_of (ms_tables st) (mt_name t) of
      None \<Rightarrow> Inl Undefined
    | Some items \<Rightarrow> bind_run (f items) (\<lambda>(r, items1).
        Inr (r, st\<lparr>ms_tables := map_put (mt_name t) items1 (ms_tables st)\<rparr>)))"

text \<open>Marshalling into the buffer of an item: the error code and the buffer afterwards.\<close>

definition item_marshal :: "(nat \<Rightarrow> byte) \<Rightarrow> 'o visit \<Rightarrow> ebuf \<Rightarrow> (int \<times> ebuf) run" where
  "item_marshal junk v b = bind_run (bs_expandable b False False) (\<lambda>s.
     bind_run (m_action (eb_reserve junk) v s) (\<lambda>(err, s1, r).
     case bs_exp s1 of None \<Rightarrow> Inl Undefined | Some b1 \<Rightarrow> Inr (err, b1)))"

definition item_unmarshal :: "u32 \<Rightarrow> 'o visit \<Rightarrow> ebuf \<Rightarrow> (int \<times> 'o) run" where
  "item_unmarshal junk w b = bind_run (u_action junk w (bs_fixed (eb_mem b) (eb_len b) False False)) (\<lambda>(err, s, r). Inr (err, r))"

definition mt_get :: "(nat \<Rightarrow> byte) \<Rightarrow> u32 \<Rightarrow> mem_table \<Rightarrow> 'k visit \<Rightarrow> 'o visit \<Rightarrow> mem_items \<Rightarrow> (ds_result \<times> 'o option) run" where
  "mt_get junk ujunk t kv w items = bind_run (assert_run (\<not> mt_multitype t)) (\<lambda>_.
     bind_run (string_key junk kv) (\<lambda>key.
     case map_of items key of
       None \<Rightarrow> Inr (DS_NOTFOUND, None)
     | Some item \<Rightarrow> bind_run (item_unmarshal ujunk w (it_data item)) (\<lambda>(err, r).
         if err \<noteq> 0 then Inr (DS_ERR, Some r) else Inr (DS_OK, Some r))))"

text \<open>\<open>allocator\<close> makes a new object for a type code, or fails.\<close>

definition mt_get_multi :: "(nat \<Rightarrow> byte) \<Rightarrow> u32 \<Rightarrow> mem_table \<Rightarrow> 'k visit \<Rightarrow> (u32 \<Rightarrow> 'o visit option) \<Rightarrow> mem_items \<Rightarrow>
    (ds_result \<times> 'o option) run" where
  "mt_get_multi junk ujunk t kv allocator items = bind_run (assert_run (mt_multitype t)) (\<lambda>_.
     bind_run (string_key junk kv) (\<lambda>key.
     case map_of items key of
       None \<Rightarrow> Inr (DS_NOTFOUND, None)
     | Some item \<Rightarrow> (case allocator (it_typecode item) of
         None \<Rightarrow> Inr (DS_ERR, None)
       | Some w \<Rightarrow> bind_run (item_unmarshal ujunk w (it_data item)) (\<lambda>(err, r).
           if err \<noteq> 0 then Inr (DS_ERR, Some r) else Inr (DS_OK, Some r)))))"

text \<open>Filling an item; the item is in the map already, so an error leaves it there.\<close>

definition item_fill :: "(nat \<Rightarrow> byte) \<Rightarrow> 'k visit \<Rightarrow> u32 \<Rightarrow> 'o visit \<Rightarrow> mem_item \<Rightarrow> (ds_result \<times> mem_item) run" where
  "item_fill junk kv typecode v item0 =
     (let item = item0\<lparr>it_typecode := typecode\<rparr>
      in bind_run (item_marshal junk kv (it_key item)) (\<lambda>(err, kb).
         if err \<noteq> 0 then Inr (DS_ERR, item\<lparr>it_key := kb\<rparr>)
         else bind_run (item_marshal junk v (it_data item)) (\<lambda>(err1, db).
           if err1 \<noteq> 0 then Inr (DS_ERR, item\<lparr>it_key := kb, it_data := db\<rparr>)
           else Inr (DS_OK, item\<lparr>it_key := kb, it_data := db\<rparr>))))"

definition mt_put :: "(nat \<Rightarrow> byte) \<Rightarrow> 'k visit \<Rightarrow> u32 \<Rightarrow> 'o visit \<Rightarrow> u32 \<Rightarrow> mem_items \<Rightarrow> (ds_result \<times> mem_items) run" where
  "mt_put junk kv typecode v flags items = bind_run (string_key junk kv) (\<lambda>key. case map_of items key of
      None \<Rightarrow>
        if \<not> ds_flag 0 flags then Inr (DS_NOTFOUND, items)
        else bind_run (eb_init junk 0) (\<lambda>b.
          bind_run (item_fill junk kv typecode v \<lparr>it_key = b, it_data = b, it_typecode = 0\<rparr>) (\<lambda>(r, item).
          Inr (r, map_put key item items)))
    | Some item0 \<Rightarrow>
        if ds_flag 1 flags then Inr (DS_EXISTS, items)
        else bind_run (item_fill junk kv typecode v item0) (\<lambda>(r, item). Inr (r, map_put key item items)))"

definition mt_del :: "(nat \<Rightarrow> byte) \<Rightarrow> 'k visit \<Rightarrow> mem_items \<Rightarrow> (ds_result \<times> mem_items) run" where
  "mt_del junk kv items = bind_run (string_key junk kv) (\<lambda>key. Inr (case map_of items key of
      None \<Rightarrow> (DS_NOTFOUND, items)
    | Some item \<Rightarrow> (DS_OK, map_del key items)))"

definition mt_size :: "mem_items \<Rightarrow> nat" where
  "mt_size items = length items"

section \<open>MemoryIterator\<close>

record mem_iterator =
  mi_first :: bool
  mi_iter :: "bytes option"

definition mi_new :: mem_iterator where
  "mi_new = \<lparr>mi_first = True, mi_iter = None\<rparr>"

text \<open>The key after \<open>k\<close> in the map. Stepping from the end or from an entry that is gone is undefined.\<close>

definition mi_next :: "mem_items \<Rightarrow> mem_iterator \<Rightarrow> (ds_result \<times> mem_iterator) run" where
  "mi_next items it =
     bind_run
       (if mi_first it then Inr (\<lparr>mi_first = False, mi_iter = map_option fst (find (\<lambda>_. True) items)\<rparr>)
        else case mi_iter it of
            None \<Rightarrow> Inl Undefined
          | Some k \<Rightarrow> if k \<in> fst ` set items
              then Inr (it\<lparr>mi_iter := map_option fst (find (\<lambda>x. k < fst x) items)\<rparr>) else Inl Undefined)
       (\<lambda>it1. Inr (if mi_iter it1 = None then DS_NOTFOUND else DS_OK, it1))"

definition mi_get_key :: "u32 \<Rightarrow> 'k visit \<Rightarrow> mem_items \<Rightarrow> mem_iterator \<Rightarrow> (ds_result \<times> 'k) run" where
  "mi_get_key junk w items it = (case Option.bind (mi_iter it) (map_of items) of
      None \<Rightarrow> Inl Undefined
    | Some item \<Rightarrow> bind_run (item_unmarshal junk w (it_key item)) (\<lambda>(err, r).
        if err \<noteq> 0 then Inr (DS_ERR, r) else Inr (DS_OK, r)))"

section \<open>Maps in order\<close>

lemma map_of_put: "map_of (map_put k v m) j = (if j = k then Some v else map_of m j)"
proof (cases "k \<in> fst ` set m")
  case True
  then have "map_of m k \<noteq> None" by (simp add: map_of_eq_None_iff)
  then show ?thesis using True by (auto simp: map_put_def map_of_replace)
next
  case False
  then show ?thesis by (simp add: map_put_def map_of_entry_insert)
qed

lemma map_of_del: "map_of (map_del k m) j = (if j = k then None else map_of m j)"
  by (simp add: map_del_def map_of_remove)

lemma map_put_sorted: "sorted_wrt (<) (map fst m) \<Longrightarrow> sorted_wrt (<) (map fst (map_put k v m))"
proof (cases "k \<in> fst ` set m")
  case True
  assume "sorted_wrt (<) (map fst m)"
  moreover have "map fst (map (\<lambda>(j, w). (j, if j = k then v else w)) m) = map fst m" by auto
  ultimately show ?thesis using True unfolding map_put_def by (simp only: if_True)
qed (simp add: map_put_def entry_insert_sorted)

lemma map_del_sorted: "sorted_wrt (<) (map fst m) \<Longrightarrow> sorted_wrt (<) (map fst (map_del k m))"
  by (induction m) (auto simp: map_del_def)

section \<open>What is marshalled comes back\<close>

definition buf_ok :: "ebuf \<Rightarrow> bool" where
  "buf_ok b \<longleftrightarrow> eb_len b \<le> length (eb_mem b)"

lemma item_marshal_ok:
  assumes "visit_ok v" "buf_ok b"
  shows "\<exists>b'. item_marshal junk v b = Inr (0, b') \<and> buf_ok b' \<and> eb_contents b' = visit_wire v"
proof -
  let ?s = "\<lparr>bs_exp = Some (b\<lparr>eb_len := 0\<rparr>), bs_buf = [], bs_length = 0, bs_offset = 0, bs_error = False, bs_crc = False, bs_log = False\<rparr>"
  have e: "bs_expandable b False False = Inr ?s" by (simp add: bs_expandable_def eb_set_len_def)
  have "me_ok (\<lambda>b :: ebuf. eb_len b \<le> length (eb_mem b)) False ?s" by (simp add: me_ok_def me_buf_def)
  from heap_target.run_room [OF this assms(1)] obtain s1 where
    s1: "visit_run (m_process (eb_reserve junk)) v ?s = Inr (s1, visit_result v)"
      "me_ok (\<lambda>b :: ebuf. eb_len b \<le> length (eb_mem b)) False s1" "me_adds ?s (visit_wire v) s1" by blast
  obtain b' where b': "bs_exp s1 = Some b'" "buf_ok b'" "\<not> bs_error s1" "\<not> bs_crc s1"
    using s1(2) by (auto simp: me_ok_def me_buf_def buf_ok_def)
  have "eb_contents b' = visit_wire v" using s1(3) b'(1) by (simp add: me_adds_def me_buf_def eb_contents_def)
  moreover have "m_action (eb_reserve junk) v ?s = Inr (0, s1, visit_result v)"
    using s1(1) b'(3,4) by (simp add: m_action_def run_action_def m_end_action_def)
  ultimately show ?thesis using e b'(1,2) by (simp add: item_marshal_def)
qed

lemma item_unmarshal_ok:
  assumes "mirrors R v w" "eb_contents b = visit_wire v" "buf_ok b"
  shows "\<exists>r. item_unmarshal junk w b = Inr (0, r) \<and> R (visit_result v) r"
proof -
  have "length (eb_contents b) = eb_len b" using assms(3) by (simp add: eb_contents_def buf_ok_def)
  then have len: "eb_len b = length (message False v)" unfolding assms(2) by (simp add: message_def)
  have mem: "eb_mem b = message False v @ drop (eb_len b) (eb_mem b)"
    using assms(2) by (simp add: message_def eb_contents_def) (metis append_take_drop_id)
  show ?thesis
    using u_action_message [OF assms(1), of junk False "drop (eb_len b) (eb_mem b)" False]
    unfolding mem [symmetric] len [symmetric] by (auto simp: item_unmarshal_def)
qed


section \<open>A table holds the values that were put\<close>

text \<open>
  Objects of a class: \<open>ser\<close> is the class's \<open>serialize\<close>, \<open>builder\<close> a new object, and \<open>val\<close> what is
  to be kept of an object.
\<close>

locale serial_object =
  fixes ser :: "'o \<Rightarrow> 'o visit" and builder :: 'o and val :: "'o \<Rightarrow> 'v" and storable :: "'o \<Rightarrow> bool"
  assumes mirrors: "storable x \<Longrightarrow> mirrors (\<lambda>a b. val b = val x \<and> storable b) (ser x) (ser builder)"

text \<open>The interface of a table: \<open>repr i M\<close> says that the table's state \<open>i\<close> holds the values \<open>M\<close> under the texts of the keys.\<close>

locale table_store =
  fixes t_get :: "'k \<Rightarrow> 'i \<Rightarrow> (ds_result \<times> 'o option) run"
    and t_put :: "'k \<Rightarrow> 'o \<Rightarrow> u32 \<Rightarrow> 'i \<Rightarrow> (ds_result \<times> 'i) run"
    and t_del :: "'k \<Rightarrow> 'i \<Rightarrow> (ds_result \<times> 'i) run"
    and keyable :: "'k \<Rightarrow> bool" and ktext :: "'k \<Rightarrow> bytes" and val :: "'o \<Rightarrow> 'v" and storable :: "'o \<Rightarrow> bool"
    and repr :: "'i \<Rightarrow> (bytes \<rightharpoonup> 'v) \<Rightarrow> bool"
  assumes get_none: "repr i M \<Longrightarrow> keyable k \<Longrightarrow> M (ktext k) = None \<Longrightarrow> \<exists>r. t_get k i = Inr (DS_NOTFOUND, r)"
    and get_some: "repr i M \<Longrightarrow> keyable k \<Longrightarrow> M (ktext k) = Some v \<Longrightarrow>
      \<exists>x. t_get k i = Inr (DS_OK, Some x) \<and> val x = v \<and> storable x"
    and put_missing: "repr i M \<Longrightarrow> keyable k \<Longrightarrow> M (ktext k) = None \<Longrightarrow> \<not> ds_flag 0 fl \<Longrightarrow> t_put k x fl i = Inr (DS_NOTFOUND, i)"
    and put_exists: "repr i M \<Longrightarrow> keyable k \<Longrightarrow> M (ktext k) = Some v \<Longrightarrow> ds_flag 1 fl \<Longrightarrow> t_put k x fl i = Inr (DS_EXISTS, i)"
    and put_done: "repr i M \<Longrightarrow> keyable k \<Longrightarrow> storable x \<Longrightarrow>
      (case M (ktext k) of None \<Rightarrow> ds_flag 0 fl | Some v \<Rightarrow> \<not> ds_flag 1 fl) \<Longrightarrow>
      \<exists>i'. t_put k x fl i = Inr (DS_OK, i') \<and> repr i' (M(ktext k \<mapsto> val x))"
    and del_none: "repr i M \<Longrightarrow> keyable k \<Longrightarrow> M (ktext k) = None \<Longrightarrow> t_del k i = Inr (DS_NOTFOUND, i)"
    and del_some: "repr i M \<Longrightarrow> keyable k \<Longrightarrow> M (ktext k) = Some v \<Longrightarrow>
      \<exists>i'. t_del k i = Inr (DS_OK, i') \<and> repr i' (M(ktext k := None))"

definition key_ok_visit :: "'k visit \<Rightarrow> bool" where
  "key_ok_visit kv \<longleftrightarrow> visit_ok kv \<and> list_all field_printable (visit_fields kv)"

definition visit_text :: "'k visit \<Rightarrow> bytes" where
  "visit_text kv = butlast (dotted (visit_fields kv))"

definition item_holds :: "('o \<Rightarrow> 'o visit) \<Rightarrow> ('o \<Rightarrow> 'v) \<Rightarrow> ('o \<Rightarrow> bool) \<Rightarrow> 'v \<Rightarrow> mem_item \<Rightarrow> bool" where
  "item_holds ser val storable v item \<longleftrightarrow> buf_ok (it_key item) \<and> buf_ok (it_data item) \<and>
     (\<exists>x. storable x \<and> val x = v \<and> eb_contents (it_data item) = visit_wire (ser x))"

definition items_hold :: "('o \<Rightarrow> 'o visit) \<Rightarrow> ('o \<Rightarrow> 'v) \<Rightarrow> ('o \<Rightarrow> bool) \<Rightarrow> mem_items \<Rightarrow> (bytes \<rightharpoonup> 'v) \<Rightarrow> bool" where
  "items_hold ser val storable items M \<longleftrightarrow> sorted_wrt (<) (map fst items) \<and>
     (\<forall>k. rel_option (\<lambda>item v. item_holds ser val storable v item) (map_of items k) (M k))"

lemma string_key_ok: "key_ok_visit kv \<Longrightarrow> string_key junk kv = Inr (visit_text kv)"
  unfolding key_ok_visit_def visit_text_def by (blast intro: string_key_spec)

lemma item_fill_ok:
  assumes "visit_ok kv" "storable x" "visit_ok (ser x)" "buf_ok (it_key item)" "buf_ok (it_data item)"
  shows "\<exists>item'. item_fill junk kv tc (ser x) item = Inr (DS_OK, item') \<and> item_holds ser val storable (val x) item' \<and>
    it_typecode item' = tc \<and> eb_contents (it_key item') = visit_wire kv"
proof -
  obtain kb where kb: "item_marshal junk kv (it_key item) = Inr (0, kb)" "buf_ok kb" "eb_contents kb = visit_wire kv"
    using item_marshal_ok [OF assms(1,4)] by blast
  obtain db where db: "item_marshal junk (ser x) (it_data item) = Inr (0, db)" "buf_ok db" "eb_contents db = visit_wire (ser x)"
    using item_marshal_ok [OF assms(3,5)] by blast
  show ?thesis using kb db assms(2) by (auto simp: item_fill_def item_holds_def Let_def)
qed


definition unknown_type :: u32 where
  "unknown_type = 0xffffffff"

lemma items_hold_lookup:
  assumes "items_hold ser val storable items M"
  shows "M k = None \<Longrightarrow> map_of items k = None"
    and "M k = Some v \<Longrightarrow> \<exists>item. map_of items k = Some item \<and> item_holds ser val storable v item"
proof -
  have r: "rel_option (\<lambda>item v. item_holds ser val storable v item) (map_of items k) (M k)"
    using assms by (simp add: items_hold_def)
  show "M k = None \<Longrightarrow> map_of items k = None" using r by simp
  show "M k = Some v \<Longrightarrow> \<exists>item. map_of items k = Some item \<and> item_holds ser val storable v item"
    using r by (auto simp: option_rel_Some2)
qed

lemma items_hold_put:
  "items_hold ser val storable items M \<Longrightarrow> item_holds ser val storable v item \<Longrightarrow>
    items_hold ser val storable (map_put k item items) (M(k \<mapsto> v))"
  by (simp add: items_hold_def map_of_put map_put_sorted)

lemma items_hold_del:
  "items_hold ser val storable items M \<Longrightarrow> items_hold ser val storable (map_del k items) (M(k := None))"
  by (simp add: items_hold_def map_of_del map_del_sorted)

context serial_object
begin

lemma fill:
  assumes "visit_ok kv" "storable x" "buf_ok (it_key item)" "buf_ok (it_data item)"
  shows "\<exists>item'. item_fill junk kv tc (ser x) item = Inr (DS_OK, item') \<and> item_holds ser val storable (val x) item'"
  using item_fill_ok [of kv storable x ser item junk tc val] mirrors_ok [OF mirrors [OF assms(2)]] assms by blast

lemma unmarshal:
  assumes "item_holds ser val storable v item"
  shows "\<exists>x. item_unmarshal ujunk (ser builder) (it_data item) = Inr (0, x) \<and> val x = v \<and> storable x"
proof -
  obtain x where x: "storable x" "val x = v" "eb_contents (it_data item) = visit_wire (ser x)" "buf_ok (it_data item)"
    using assms by (auto simp: item_holds_def)
  show ?thesis using item_unmarshal_ok [OF mirrors [OF x(1)] x(3,4)] x(2) by blast
qed

lemma new_item: "eb_init junk 0 = Inr \<lparr>eb_mem = [], eb_len = 0\<rparr>"
  by (simp add: eb_init_def)

end

sublocale serial_object \<subseteq> mem: table_store "\<lambda>kv. mt_get junk ujunk \<lparr>mt_name = tname, mt_multitype = False\<rparr> kv (ser builder)"
    "\<lambda>kv x. mt_put junk kv unknown_type (ser x)" "mt_del junk" key_ok_visit visit_text val storable "items_hold ser val storable"
  for junk ujunk tname
proof unfold_locales
  fix i M and k :: "'d visit" and v fl x
  assume r: "items_hold ser val storable i M" and k: "key_ok_visit k"
  note t = string_key_ok [OF k]
  show "\<exists>r. mt_get junk ujunk \<lparr>mt_name = tname, mt_multitype = False\<rparr> k (ser builder) i = Inr (DS_NOTFOUND, r)" if "M (visit_text k) = None"
    using items_hold_lookup(1) [OF r that] by (simp add: mt_get_def t)
  show "\<exists>x. mt_get junk ujunk \<lparr>mt_name = tname, mt_multitype = False\<rparr> k (ser builder) i = Inr (DS_OK, Some x) \<and> val x = v \<and> storable x"
    if m: "M (visit_text k) = Some v"
  proof -
    obtain item where i: "map_of i (visit_text k) = Some item" "item_holds ser val storable v item"
      using items_hold_lookup(2) [OF r m] by blast
    obtain y where "item_unmarshal ujunk (ser builder) (it_data item) = Inr (0, y)" "val y = v" "storable y"
      using unmarshal [OF i(2), of ujunk] by blast
    then show ?thesis using i(1) by (simp add: mt_get_def t)
  qed
  show "mt_put junk k unknown_type (ser x) fl i = Inr (DS_NOTFOUND, i)" if "M (visit_text k) = None" "\<not> ds_flag 0 fl"
    using items_hold_lookup(1) [OF r that(1)] that(2) by (simp add: mt_put_def t)
  show "mt_put junk k unknown_type (ser x) fl i = Inr (DS_EXISTS, i)" if "M (visit_text k) = Some v" "ds_flag 1 fl"
    using items_hold_lookup(2) [OF r that(1)] that(2) by (auto simp: mt_put_def t)
  show "\<exists>i'. mt_put junk k unknown_type (ser x) fl i = Inr (DS_OK, i') \<and> items_hold ser val storable i' (M(visit_text k \<mapsto> val x))"
    if s: "storable x" and f: "case M (visit_text k) of None \<Rightarrow> ds_flag 0 fl | Some v \<Rightarrow> \<not> ds_flag 1 fl"
  proof (cases "M (visit_text k)")
    case None
    have "visit_ok k" using k by (simp add: key_ok_visit_def)
    then obtain item where "item_fill junk k unknown_type (ser x)
        \<lparr>it_key = \<lparr>eb_mem = [], eb_len = 0\<rparr>, it_data = \<lparr>eb_mem = [], eb_len = 0\<rparr>, it_typecode = 0\<rparr> = Inr (DS_OK, item)"
      "item_holds ser val storable (val x) item"
      using fill [OF _ s, of k "\<lparr>it_key = \<lparr>eb_mem = [], eb_len = 0\<rparr>, it_data = \<lparr>eb_mem = [], eb_len = 0\<rparr>, it_typecode = 0\<rparr>" junk unknown_type]
      by (auto simp: buf_ok_def)
    then show ?thesis using None f items_hold_lookup(1) [OF r None] items_hold_put [OF r]
      by (simp add: mt_put_def t new_item)
  next
    case (Some v)
    then obtain item0 where i0: "map_of i (visit_text k) = Some item0" "item_holds ser val storable v item0"
      using items_hold_lookup(2) [OF r] by blast
    have "visit_ok k" using k by (simp add: key_ok_visit_def)
    then obtain item where "item_fill junk k unknown_type (ser x) item0 = Inr (DS_OK, item)" "item_holds ser val storable (val x) item"
      using fill [OF _ s, of k item0 junk unknown_type] i0(2) by (auto simp: item_holds_def)
    then show ?thesis using Some f i0(1) items_hold_put [OF r] by (simp add: mt_put_def t)
  qed
  show "mt_del junk k i = Inr (DS_NOTFOUND, i)" if "M (visit_text k) = None"
    using items_hold_lookup(1) [OF r that] by (simp add: mt_del_def t)
  show "\<exists>i'. mt_del junk k i = Inr (DS_OK, i') \<and> items_hold ser val storable i' (M(visit_text k := None))" if "M (visit_text k) = Some v"
    using items_hold_lookup(2) [OF r that] items_hold_del [OF r] by (auto simp: mt_del_def t)
qed

section \<open>The shim classes\<close>

text \<open>serialize/TypeShims.h: \<open>StringShim\<close> and \<open>UIntShim\<close>, whose \<open>serialize\<close> processes one field.\<close>

definition string_shim :: "string \<Rightarrow> bytes \<Rightarrow> bytes visit" where
  "string_shim name str = Process name (Str str) (\<lambda>f. Done (case f of Str t \<Rightarrow> t | _ \<Rightarrow> str))"

definition uint_shim :: "string \<Rightarrow> u32 \<Rightarrow> u32 visit" where
  "uint_shim name n = Process name (U32 n) (\<lambda>f. Done (case f of U32 m \<Rightarrow> m | _ \<Rightarrow> n))"

interpretation string_shim: serial_object "string_shim name" "[]" id "\<lambda>s. length s < 2 ^ 32 - 4" for name
proof
  fix x :: bytes assume x: "length x < 2 ^ 32 - 4"
  show "mirrors (\<lambda>a b. id b = id x \<and> length b < 2 ^ 32 - 4) (string_shim name x) (string_shim name [])"
    unfolding string_shim_def by (rule mirrors_Process) (use x in \<open>auto intro: mirrors_Done\<close>)
qed

interpretation uint_shim: serial_object "uint_shim name" "0" id "\<lambda>_. True" for name
proof
  fix x :: u32
  show "mirrors (\<lambda>a b. id b = id x \<and> True) (uint_shim name x) (uint_shim name 0)"
    unfolding uint_shim_def by (rule mirrors_Process) (auto intro: mirrors_Done)
qed

end
