(* ===== verification/DurableTable.thy ===== *)
theory DurableTable
  imports MemoryStore
begin

text \<open>
  storage/DurableTable.h and .tcc: a table of a store behind a cache of its objects. The table's implementation is
  behind an interface (MemoryStore's table is one); \<open>k_text\<close> is the cache's key of a key object, \<open>sizer\<close> the action of
  \<open>MarshalSize\<close> on an object. Objects in memory are addresses of a heap, from which the cache deletes what
  it evicts.
\<close>

section \<open>State\<close>

record ('i, 'o) dtable =
  dt_cache :: "nat ocache option"
  dt_impl :: 'i
  dt_heap :: "nat \<Rightarrow> 'o option"
  dt_next :: nat

definition dt_new :: "'i \<Rightarrow> nat ocache option \<Rightarrow> ('i, 'o) dtable" where
  "dt_new i cache = \<lparr>dt_cache = cache, dt_impl = i, dt_heap = (\<lambda>_. None), dt_next = 0\<rparr>"

definition delete_freed :: "nat ocache \<Rightarrow> nat ocache \<Rightarrow> (nat \<Rightarrow> 'o option) \<Rightarrow> nat \<Rightarrow> 'o option" where
  "delete_freed c c' heap = (\<lambda>a. if a \<in> set (drop (length (oc_freed c)) (oc_freed c')) then None else heap a)"

section \<open>Operations\<close>

definition cleanup_put_flags :: "u32 \<Rightarrow> u32" where
  "cleanup_put_flags flags = (if ds_flag 1 flags then or flags 1 else flags)"

text \<open>Putting an object that the table has into the cache, if there is one.\<close>

definition dt_cache_put :: "('k \<Rightarrow> bytes run) \<Rightarrow> ('o \<Rightarrow> (int \<times> u64) run) \<Rightarrow> 'k \<Rightarrow> nat \<Rightarrow> 'o \<Rightarrow> u32 \<Rightarrow> ('i, 'o) dtable \<Rightarrow> ('i, 'o) dtable run" where
  "dt_cache_put k_text sizer key a x flags st = (case dt_cache st of
      None \<Rightarrow> Inr st
    | Some c \<Rightarrow>
        bind_run (k_text key) (\<lambda>k.
        bind_run (sizer x) (\<lambda>sz.
        bind_run (oc_put k a sz flags c) (\<lambda>(r, c1).
        bind_run (assert_run (r = DS_OK)) (\<lambda>_.
        Inr (st\<lparr>dt_cache := Some c1, dt_heap := delete_freed c c1 (dt_heap st)\<rparr>))))))"

text \<open>The lookup in the cache: the object if it was there.\<close>

definition dt_cache_get :: "('k \<Rightarrow> bytes run) \<Rightarrow> 'k \<Rightarrow> ('i, 'o) dtable \<Rightarrow> (nat option \<times> ('i, 'o) dtable) run" where
  "dt_cache_get k_text key st = (case dt_cache st of
      None \<Rightarrow> Inr (None, st)
    | Some c \<Rightarrow>
        bind_run (k_text key) (\<lambda>k.
        bind_run (oc_get k c) (\<lambda>(r, ob, c1).
        Inr (if r = DS_OK then ob else None, st\<lparr>dt_cache := Some c1\<rparr>))))"

text \<open>
  \<open>get\<close>: the result code, the object, whether it came from the cache. A new object that the table could not fill is
  deleted again at once.
\<close>

definition dt_get :: "('k \<Rightarrow> 'i \<Rightarrow> (ds_result \<times> 'o option) run) \<Rightarrow> ('k \<Rightarrow> bytes run) \<Rightarrow> ('o \<Rightarrow> (int \<times> u64) run) \<Rightarrow> 'k \<Rightarrow> ('i, 'o) dtable \<Rightarrow>
    (ds_result \<times> nat option \<times> bool option \<times> ('i, 'o) dtable) run" where
  "dt_get t_get k_text sizer key st = bind_run (dt_cache_get k_text key st) (\<lambda>(hit, st1). case hit of
      Some a \<Rightarrow> Inr (DS_OK, Some a, Some True, st1)
    | None \<Rightarrow>
        bind_run (t_get key (dt_impl st1)) (\<lambda>(err, r).
        if err \<noteq> DS_OK then Inr (err, None, None, st1)
        else case r of
            None \<Rightarrow> Inl Undefined
          | Some x \<Rightarrow>
              let a = dt_next st1
              in bind_run (dt_cache_put k_text sizer key a x 3 (st1\<lparr>dt_heap := (dt_heap st1)(a \<mapsto> x), dt_next := a + 1\<rparr>)) (\<lambda>st2.
                 Inr (DS_OK, Some a, Some False, st2))))"

text \<open>
  \<open>MultiTypeDurableTable::get\<close>: the implementation makes the object from its type code. An object that it made but could not
  fill stays allocated, with no pointer to it.
\<close>

definition dtm_get :: "('k \<Rightarrow> 'i \<Rightarrow> (ds_result \<times> 'o option) run) \<Rightarrow> ('k \<Rightarrow> bytes run) \<Rightarrow> ('o \<Rightarrow> (int \<times> u64) run) \<Rightarrow> 'k \<Rightarrow> ('i, 'o) dtable \<Rightarrow>
    (ds_result \<times> nat option \<times> bool option \<times> ('i, 'o) dtable) run" where
  "dtm_get t_get k_text sizer key st = bind_run (dt_cache_get k_text key st) (\<lambda>(hit, st1). case hit of
      Some a \<Rightarrow> Inr (DS_OK, Some a, Some True, st1)
    | None \<Rightarrow>
        bind_run (t_get key (dt_impl st1)) (\<lambda>(err, r).
        let a = dt_next st1;
            st2 = (case r of None \<Rightarrow> st1 | Some x \<Rightarrow> st1\<lparr>dt_heap := (dt_heap st1)(a \<mapsto> x), dt_next := a + 1\<rparr>)
        in if err \<noteq> DS_OK then Inr (err, None, None, st2)
           else case r of
               None \<Rightarrow> Inl Undefined
             | Some x \<Rightarrow> bind_run (dt_cache_put k_text sizer key a x 3 st2) (\<lambda>st3. Inr (DS_OK, Some a, Some False, st3))))"

text \<open>\<open>StaticTypedDurableTable\<close>: no cache, and the class of the object is that of the call.\<close>

definition dts_put :: "('k \<Rightarrow> 'o \<Rightarrow> u32 \<Rightarrow> 'i \<Rightarrow> (ds_result \<times> 'i) run) \<Rightarrow> 'k \<Rightarrow> 'o \<Rightarrow> u32 \<Rightarrow> ('i, 'p) dtable \<Rightarrow> (ds_result \<times> ('i, 'p) dtable) run" where
  "dts_put t_put key x flags st = bind_run (assert_run (dt_cache st = None)) (\<lambda>_.
     bind_run (t_put key x (cleanup_put_flags flags) (dt_impl st)) (\<lambda>(r, i1). Inr (r, st\<lparr>dt_impl := i1\<rparr>)))"

definition dts_get :: "('k \<Rightarrow> 'i \<Rightarrow> (ds_result \<times> 'o option) run) \<Rightarrow> 'k \<Rightarrow> ('i, 'p) dtable \<Rightarrow> (ds_result \<times> 'o option) run" where
  "dts_get t_get key st = bind_run (assert_run (dt_cache st = None)) (\<lambda>_.
     bind_run (t_get key (dt_impl st)) (\<lambda>(err, r). Inr (if err \<noteq> DS_OK then (err, None) else (DS_OK, r))))"

text \<open>\<open>get_copy\<close>: the result code and the value.\<close>

definition dt_get_copy :: "('k \<Rightarrow> 'i \<Rightarrow> (ds_result \<times> 'o option) run) \<Rightarrow> ('k \<Rightarrow> bytes run) \<Rightarrow> 'k \<Rightarrow> ('i, 'o) dtable \<Rightarrow>
    (ds_result \<times> 'o option \<times> ('i, 'o) dtable) run" where
  "dt_get_copy t_get k_text key st = bind_run (dt_cache_get k_text key st) (\<lambda>(hit, st1). case hit of
      Some a \<Rightarrow> (case dt_heap st1 a of None \<Rightarrow> Inl Undefined | Some x \<Rightarrow> Inr (DS_OK, Some x, st1))
    | None \<Rightarrow> bind_run (t_get key (dt_impl st1)) (\<lambda>(err, r). Inr (err, r, st1)))"

definition dt_put :: "('k \<Rightarrow> 'o \<Rightarrow> u32 \<Rightarrow> 'i \<Rightarrow> (ds_result \<times> 'i) run) \<Rightarrow> ('k \<Rightarrow> bytes run) \<Rightarrow> ('o \<Rightarrow> (int \<times> u64) run) \<Rightarrow>
    'k \<Rightarrow> nat \<Rightarrow> u32 \<Rightarrow> ('i, 'o) dtable \<Rightarrow> (ds_result \<times> ('i, 'o) dtable) run" where
  "dt_put t_put k_text sizer key a flags0 st = (case dt_heap st a of
      None \<Rightarrow> Inl Undefined
    | Some x \<Rightarrow>
        let flags = cleanup_put_flags flags0
        in bind_run (t_put key x flags (dt_impl st)) (\<lambda>(r, i1).
           if r \<noteq> DS_OK then Inr (r, st\<lparr>dt_impl := i1\<rparr>)
           else bind_run (dt_cache_put k_text sizer key a x flags (st\<lparr>dt_impl := i1\<rparr>)) (\<lambda>st1. Inr (DS_OK, st1))))"

definition dt_del :: "('k \<Rightarrow> 'i \<Rightarrow> (ds_result \<times> 'i) run) \<Rightarrow> ('k \<Rightarrow> bytes run) \<Rightarrow> 'k \<Rightarrow> ('i, 'o) dtable \<Rightarrow> (ds_result \<times> ('i, 'o) dtable) run" where
  "dt_del t_del k_text key st =
     bind_run
       (case dt_cache st of
          None \<Rightarrow> Inr (DS_OK, st)
        | Some c \<Rightarrow> bind_run (k_text key) (\<lambda>k. bind_run (oc_del k c) (\<lambda>(r, c1).
            Inr (r, st\<lparr>dt_cache := Some c1, dt_heap := delete_freed c c1 (dt_heap st)\<rparr>))))
       (\<lambda>(err, st1).
          if err = DS_ERR then Inr (err, st1)
          else bind_run (t_del key (dt_impl st1)) (\<lambda>(r, i1). Inr (r, st1\<lparr>dt_impl := i1\<rparr>)))"

text \<open>\<open>cache()->release(key, object)\<close>, with which the user of a table gives an object back.\<close>

definition dt_release :: "('k \<Rightarrow> bytes run) \<Rightarrow> 'k \<Rightarrow> nat \<Rightarrow> ('i, 'o) dtable \<Rightarrow> (ds_result \<times> ('i, 'o) dtable) run" where
  "dt_release k_text key a st = (case dt_cache st of
      None \<Rightarrow> Inl Undefined
    | Some c \<Rightarrow> bind_run (k_text key) (\<lambda>k. bind_run (oc_release k a c) (\<lambda>(r, c1).
        Inr (r, st\<lparr>dt_cache := Some c1, dt_heap := delete_freed c c1 (dt_heap st)\<rparr>))))"

text \<open>The size that \<open>DurableObjectCache::put\<close> asks \<open>MarshalSize\<close> for.\<close>

definition object_sizer :: "('o \<Rightarrow> 'o visit) \<Rightarrow> 'o \<Rightarrow> (int \<times> u64) run" where
  "object_sizer ser x = bind_run (ms_action False (ser x) 0) (\<lambda>(err, n, r). Inr (err, of_nat n))"

section \<open>Coherence\<close>

text \<open>Every cached object is alive and has the value that the table has under its key; no object is cached twice.\<close>

definition cache_ok :: "('o \<Rightarrow> 'v) \<Rightarrow> ('o \<Rightarrow> bool) \<Rightarrow> (bytes \<rightharpoonup> 'v) \<Rightarrow> (nat \<Rightarrow> 'o option) \<Rightarrow> nat ocache \<Rightarrow> bool" where
  "cache_ok val storable M heap c \<longleftrightarrow> oc_ok c \<and>
     (\<forall>k e. map_of (oc_table c) k = Some e \<longrightarrow> (\<exists>x. heap (ce_object e) = Some x \<and> storable x \<and> M k = Some (val x))) \<and>
     (\<forall>k k' e e'. map_of (oc_table c) k = Some e \<longrightarrow> map_of (oc_table c) k' = Some e' \<longrightarrow> ce_object e = ce_object e' \<longrightarrow> k = k')"

definition dt_ok :: "('o \<Rightarrow> 'v) \<Rightarrow> ('o \<Rightarrow> bool) \<Rightarrow> ('i \<Rightarrow> (bytes \<rightharpoonup> 'v) \<Rightarrow> bool) \<Rightarrow> (bytes \<rightharpoonup> 'v) \<Rightarrow> ('i, 'o) dtable \<Rightarrow> bool" where
  "dt_ok val storable repr M st \<longleftrightarrow> repr (dt_impl st) M \<and> (\<forall>a. dt_heap st a \<noteq> None \<longrightarrow> a < dt_next st) \<and>
     (\<forall>c. dt_cache st = Some c \<longrightarrow> cache_ok val storable M (dt_heap st) c)"

text \<open>Entries that stay keep their object.\<close>

definition keeps_objects :: "'p ocache \<Rightarrow> 'p ocache \<Rightarrow> bytes set \<Rightarrow> bool" where
  "keeps_objects c c' K \<longleftrightarrow> (\<forall>k e'. k \<notin> K \<longrightarrow> map_of (oc_table c') k = Some e' \<longrightarrow>
     (\<exists>e. map_of (oc_table c) k = Some e \<and> ce_object e = ce_object e'))"

lemma freed_not_kept:
  assumes "cache_ok val storable M heap c" "frees op c c'" "map_of (oc_table c) k = Some e" "map_of (oc_table c') k \<noteq> None"
  shows "delete_freed c c' heap (ce_object e) = heap (ce_object e)"
proof -
  obtain ks where ks: "oc_freed c' = oc_freed c @ map (\<lambda>k. ce_object (the (map_of (oc_table c) k))) ks"
    "\<And>k. k \<in> set ks \<Longrightarrow> map_of (oc_table c') k = None \<and> (\<exists>e. map_of (oc_table c) k = Some e)"
    using assms(2) unfolding frees_def by blast
  have "ce_object e \<notin> (\<lambda>k. ce_object (the (map_of (oc_table c) k))) ` set ks"
  proof
    assume "ce_object e \<in> (\<lambda>k. ce_object (the (map_of (oc_table c) k))) ` set ks"
    then obtain j where j: "j \<in> set ks" "ce_object e = ce_object (the (map_of (oc_table c) j))" by blast
    then obtain e' where e': "map_of (oc_table c) j = Some e'" using ks(2) by blast
    then have "k = j" using assms(1,3) j(2) unfolding cache_ok_def by (metis option.sel)
    then show False using ks(2) [OF j(1)] assms(4) by auto
  qed
  then show ?thesis by (simp add: delete_freed_def ks(1))
qed

lemma cache_ok_step:
  assumes "cache_ok val storable M heap c" "frees op c c'" "oc_ok c'" "keeps_objects c c' {}"
  shows "cache_ok val storable M (delete_freed c c' heap) c'"
  unfolding cache_ok_def
proof (intro conjI allI impI)
  show "oc_ok c'" by (rule assms(3))
  fix k e' assume e': "map_of (oc_table c') k = Some e'"
  then obtain e where e: "map_of (oc_table c) k = Some e" "ce_object e = ce_object e'"
    using assms(4) by (auto simp: keeps_objects_def)
  then show "\<exists>x. delete_freed c c' heap (ce_object e') = Some x \<and> storable x \<and> M k = Some (val x)"
    using freed_not_kept [OF assms(1,2) e(1)] e' assms(1) unfolding cache_ok_def by (metis option.distinct(1))
next
  fix k k' e e' assume a: "map_of (oc_table c') k = Some e" "map_of (oc_table c') k' = Some e'" "ce_object e = ce_object e'"
  then obtain d d' where "map_of (oc_table c) k = Some d" "ce_object d = ce_object e" "map_of (oc_table c) k' = Some d'" "ce_object d' = ce_object e'"
    using assms(4) unfolding keeps_objects_def by (metis empty_iff)
  then show "k = k'" using assms(1) a(3) unfolding cache_ok_def by metis
qed


section \<open>The cache's operations once more\<close>

lemma keeps_refl: "oc_table c' = oc_table c \<Longrightarrow> keeps_objects c c' K"
  by (auto simp: keeps_objects_def)

lemma keeps_erase: "oc_table c' = table_erase k (oc_table c) \<Longrightarrow> keeps_objects c c' K"
  by (auto simp: keeps_objects_def map_of_erase split: if_splits)

lemma oc_get_miss: "map_of (oc_table c) k = None \<Longrightarrow> oc_get k c = Inr (DS_NOTFOUND, None, c\<lparr>oc_misses := oc_misses c + 1\<rparr>)"
  by (simp add: oc_get_def)

lemma oc_get_hit:
  assumes "oc_ok c" "map_of (oc_table c) k = Some e"
  shows "\<exists>c'. oc_get k c = Inr (DS_OK, Some (ce_object e), c') \<and> oc_ok c' \<and> oc_freed c' = oc_freed c \<and> keeps_objects c c' {} \<and>
    oc_is_live k c'"
proof -
  obtain r ob c' where r: "oc_get k c = Inr (r, ob, c')" "oc_ok c'" "oc_freed c' = oc_freed c" using oc_get_ok [OF assms(1)] by blast
  moreover have "r = DS_OK \<and> ob = Some (ce_object e) \<and> keeps_objects c c' {} \<and> oc_is_live k c'"
    using r(1) assms(2)
    by (auto simp: oc_get_def Let_def bind_run_eq_Inr keeps_objects_def map_of_set oc_is_live_def split: if_splits)
  ultimately show ?thesis by blast
qed

lemma oc_del_keeps:
  assumes "oc_ok c"
  shows "\<exists>r c'. oc_del k c = Inr (r, c') \<and> oc_ok c' \<and> frees (Del k) c c' \<and> keeps_objects c c' {} \<and>
    (if oc_is_live k c then r = DS_ERR else r \<noteq> DS_ERR \<and> map_of (oc_table c') k = None)"
proof -
  obtain r c' where r: "oc_del k c = Inr (r, c')" "oc_ok c'" "frees (Del k) c c'" using oc_del_ok [OF assms] by blast
  moreover have "keeps_objects c c' {} \<and> (if oc_is_live k c then r = DS_ERR else r \<noteq> DS_ERR \<and> map_of (oc_table c') k = None)"
    using r(1) by (auto simp: oc_del_def bind_run_eq_Inr keeps_objects_def map_of_erase oc_is_live_def split: option.splits if_splits)
  ultimately show ?thesis by blast
qed

lemma oc_release_keeps:
  assumes "oc_ok c" "map_of (oc_table c) k = Some e"
  shows "\<exists>c'. oc_release k (ce_object e) c = Inr (DS_OK, c') \<and> oc_ok c' \<and> frees (Release k (ce_object e)) c c' \<and> keeps_objects c c' {}"
proof -
  obtain c' where c': "oc_release k (ce_object e) c = Inr (DS_OK, c')" "oc_ok c'" "frees (Release k (ce_object e)) c c'"
    using oc_release_ok [OF assms refl] by blast
  have 1: "keeps_objects c (oc_released k e c) {}"
    using assms(2) by (auto simp: keeps_objects_def oc_released_def map_of_set)
  have sub: "map_of (filter (\<lambda>x. fst x \<notin> S) t) j = (if j \<in> S then None else map_of t j)" for S j and t :: "(bytes \<times> 'a cache_elem) list"
    by (induction t) auto
  have "oc_table c' = oc_table (oc_released k e c) \<or> oc_table c' = filter (\<lambda>x. fst x \<notin> snd ` set (take 1 (oc_lru (oc_released k e c)))) (oc_table (oc_released k e c))"
    using oc_release_eq [OF assms refl] c'(1) by (auto simp: oc_evict_def split: if_splits)
  then have "keeps_objects c c' {}" using 1 unfolding keeps_objects_def by (auto simp: sub split: if_splits)
  then show ?thesis using c' by blast
qed

lemma oc_put_keeps:
  assumes "oc_ok c" "map_of (oc_table c) k = None" "fst sz = 0"
  shows "\<exists>c'. oc_put k a sz fl c = Inr (DS_OK, c') \<and> oc_ok c' \<and> frees (cache_op.Put k a sz fl) c c' \<and> keeps_objects c c' {k} \<and>
    map_option ce_object (map_of (oc_table c') k) = Some a"
proof -
  obtain n where n: "oc_put k a sz fl c = Inr (DS_OK, (oc_evict n c)
      \<lparr>oc_table := (k, \<lparr>ce_object = a, ce_size = snd sz, ce_live = True, ce_iter = None\<rparr>) # oc_table (oc_evict n c),
       oc_size := oc_size (oc_evict n c) + snd sz\<rparr>)"
    using oc_put_spec [OF assms] by blast
  have "\<not> misuse (cache_op.Put k a sz fl) c" using assms(2,3) by simp
  then obtain c' where c': "oc_put k a sz fl c = Inr (DS_OK, c')" "oc_ok c'" "frees (cache_op.Put k a sz fl) c c'"
    using oc_put_ok [OF assms(1), of k a sz fl] n by auto
  have sub: "map_of (filter (\<lambda>x. fst x \<notin> S) t) j = (if j \<in> S then None else map_of t j)" for S j and t :: "(bytes \<times> 'a cache_elem) list"
    by (induction t) auto
  have "keeps_objects c c' {k} \<and> map_option ce_object (map_of (oc_table c') k) = Some a"
    using n c'(1) by (auto simp: keeps_objects_def oc_evict_def sub split: if_splits)
  then show ?thesis using c' by blast
qed

definition live_text :: "bytes \<Rightarrow> ('i, 'o) dtable \<Rightarrow> bool" where
  "live_text t st \<longleftrightarrow> (case dt_cache st of None \<Rightarrow> False | Some c \<Rightarrow> oc_is_live t c)"

lemma flags_cleaned: "ds_flag 1 (cleanup_put_flags fl) = ds_flag 1 fl" "ds_flag 0 (cleanup_put_flags fl) = (ds_flag 0 fl \<or> ds_flag 1 fl)"
  by (auto simp: cleanup_put_flags_def ds_flag_def bit_or_iff bit_1_iff)

lemmas flags_simps = flags_cleaned flags_cleaned [unfolded One_nat_def]

lemma flags_create_excl: "ds_flag 1 3" "ds_flag 0 3"
  by (simp_all add: ds_flag_def)

section \<open>A table with a cache is a map\<close>

locale cached_table = table_store t_get t_put t_del keyable ktext val storable repr
  for t_get :: "'k \<Rightarrow> 'i \<Rightarrow> (ds_result \<times> 'o option) run" and t_put and t_del
    and keyable ktext and val :: "'o \<Rightarrow> 'v" and storable repr +
  fixes k_text :: "'k \<Rightarrow> bytes run" and sizer :: "'o \<Rightarrow> (int \<times> u64) run"
  assumes k_text: "keyable k \<Longrightarrow> k_text k = Inr (ktext k)"
    and sizer: "storable x \<Longrightarrow> \<exists>n. sizer x = Inr (0, n)"
begin

lemma cache_get_ok:
  assumes "dt_ok val storable repr M st" "keyable k"
  shows "\<exists>hit st'. dt_cache_get k_text k st = Inr (hit, st') \<and> dt_ok val storable repr M st' \<and> dt_impl st' = dt_impl st \<and>
    dt_heap st' = dt_heap st \<and> dt_next st' = dt_next st \<and>
    (case hit of
       Some a \<Rightarrow> \<exists>x. dt_heap st a = Some x \<and> M (ktext k) = Some (val x)
     | None \<Rightarrow> \<forall>c. dt_cache st' = Some c \<longrightarrow> map_of (oc_table c) (ktext k) = None)"
proof (cases "dt_cache st")
  case None
  then show ?thesis using assms(1) by (simp add: dt_cache_get_def)
next
  case (Some c)
  have ok: "cache_ok val storable M (dt_heap st) c" using assms(1) Some by (simp add: dt_ok_def)
  then have oc: "oc_ok c" by (simp add: cache_ok_def)
  show ?thesis
  proof (cases "map_of (oc_table c) (ktext k)")
    case None
    have "cache_ok val storable M (dt_heap st) (c\<lparr>oc_misses := oc_misses c + 1\<rparr>)" using ok by (simp add: cache_ok_def oc_ok_def)
    then show ?thesis using Some assms None by (simp add: dt_cache_get_def k_text oc_get_miss dt_ok_def)
  next
    case e: (Some e)
    obtain c' where c': "oc_get (ktext k) c = Inr (DS_OK, Some (ce_object e), c')" "oc_ok c'" "oc_freed c' = oc_freed c" "keeps_objects c c' {}"
      using oc_get_hit [OF oc e] by blast
    have "delete_freed c c' (dt_heap st) = dt_heap st" using c'(3) by (simp add: delete_freed_def)
    then have "cache_ok val storable M (dt_heap st) c'"
      using cache_ok_step [OF ok frees_none [OF c'(3)] c'(2,4)] by simp
    moreover obtain x where "dt_heap st (ce_object e) = Some x" "M (ktext k) = Some (val x)"
      using ok e unfolding cache_ok_def by blast
    ultimately show ?thesis using Some assms c'(1) by (simp add: dt_cache_get_def k_text dt_ok_def)
  qed
qed

text \<open>A new entry, for an object that is not cached yet.\<close>

lemma cache_put_new:
  assumes "dt_ok val storable repr M st" "keyable k" "storable x" "dt_heap st a = Some x" "M (ktext k) = Some (val x)"
    and "\<And>c. dt_cache st = Some c \<Longrightarrow> map_of (oc_table c) (ktext k) = None"
    and "\<And>c j e. dt_cache st = Some c \<Longrightarrow> map_of (oc_table c) j = Some e \<Longrightarrow> ce_object e \<noteq> a"
  shows "\<exists>st'. dt_cache_put k_text sizer k a x fl st = Inr st' \<and> dt_ok val storable repr M st' \<and> dt_heap st' a = Some x \<and>
    dt_impl st' = dt_impl st"
proof (cases "dt_cache st")
  case None
  then show ?thesis using assms(1,4) by (simp add: dt_cache_put_def)
next
  case (Some c)
  have ok: "cache_ok val storable M (dt_heap st) c" using assms(1) Some by (simp add: dt_ok_def)
  then have oc: "oc_ok c" by (simp add: cache_ok_def)
  obtain n where n: "sizer x = Inr (0, n)" using sizer [OF assms(3)] by blast
  obtain c' where c': "oc_put (ktext k) a (0, n) fl c = Inr (DS_OK, c')" "oc_ok c'" "frees (cache_op.Put (ktext k) a (0, n) fl) c c'"
    "keeps_objects c c' {ktext k}" "map_option ce_object (map_of (oc_table c') (ktext k)) = Some a"
    using oc_put_keeps [OF oc assms(6) [OF Some], of "(0, n)" a fl] by auto
  let ?h = "delete_freed c c' (dt_heap st)"
  have old: "\<exists>e. map_of (oc_table c) j = Some e \<and> ce_object e = ce_object e'"
    if "map_of (oc_table c') j = Some e'" "j \<noteq> ktext k" for j e' using c'(4) that by (simp add: keeps_objects_def)
  have a: "?h a = Some x"
  proof -
    obtain ks where ks: "oc_freed c' = oc_freed c @ map (\<lambda>k. ce_object (the (map_of (oc_table c) k))) ks"
      "\<And>k. k \<in> set ks \<Longrightarrow> \<exists>e. map_of (oc_table c) k = Some e" using c'(3) unfolding frees_def by blast
    have "a \<notin> (\<lambda>k. ce_object (the (map_of (oc_table c) k))) ` set ks" using ks(2) assms(7) [OF Some] by force
    then show ?thesis using assms(4) by (simp add: delete_freed_def ks(1))
  qed
  have new: "ce_object e' = a" if "map_of (oc_table c') (ktext k) = Some e'" for e' using c'(5) that by simp
  have "cache_ok val storable M ?h c'"
    unfolding cache_ok_def
  proof (intro conjI allI impI)
    fix j e' assume e': "map_of (oc_table c') j = Some e'"
    show "\<exists>x. ?h (ce_object e') = Some x \<and> storable x \<and> M j = Some (val x)"
    proof (cases "j = ktext k")
      case True
      then show ?thesis using new e' a assms(3,5) by auto
    next
      case False
      obtain e where e: "map_of (oc_table c) j = Some e" "ce_object e = ce_object e'" using old [OF e' False] by blast
      have "?h (ce_object e) = dt_heap st (ce_object e)" using freed_not_kept [OF ok c'(3) e(1)] e' by simp
      then show ?thesis using ok e unfolding cache_ok_def by metis
    qed
  next
    fix j j' e e' assume e: "map_of (oc_table c') j = Some e" "map_of (oc_table c') j' = Some e'" "ce_object e = ce_object e'"
    consider "j = ktext k" "j' = ktext k" | "j = ktext k" "j' \<noteq> ktext k" | "j \<noteq> ktext k" "j' = ktext k" | "j \<noteq> ktext k" "j' \<noteq> ktext k" by blast
    then show "j = j'"
    proof cases
      case 2
      then show ?thesis using new [of e] old [OF e(2)] assms(7) [OF Some] e by metis
    next
      case 3
      then show ?thesis using new [of e'] old [OF e(1)] assms(7) [OF Some] e by metis
    next
      case 4
      then show ?thesis using old [OF e(1)] old [OF e(2)] e(3) ok unfolding cache_ok_def by metis
    qed simp
  qed (rule c'(2))
  moreover have "?h b \<noteq> None \<Longrightarrow> b < dt_next st" for b using assms(1) by (simp add: dt_ok_def delete_freed_def split: if_splits)
  ultimately have "dt_ok val storable repr M (st\<lparr>dt_cache := Some c', dt_heap := ?h\<rparr>)" using assms(1) by (simp add: dt_ok_def)
  moreover have "dt_cache_put k_text sizer k a x fl st = Inr (st\<lparr>dt_cache := Some c', dt_heap := ?h\<rparr>)"
    using Some assms(2) n c'(1) by (simp add: dt_cache_put_def k_text)
  ultimately show ?thesis using a by simp
qed

lemma get_ok:
  assumes "dt_ok val storable repr M st" "keyable k"
  shows "\<exists>r a from_cache st'. dt_get t_get k_text sizer k st = Inr (r, a, from_cache, st') \<and> dt_ok val storable repr M st' \<and>
    (case M (ktext k) of
       None \<Rightarrow> r = DS_NOTFOUND
     | Some v \<Rightarrow> r = DS_OK \<and> (\<exists>b x. a = Some b \<and> dt_heap st' b = Some x \<and> val x = v))"
proof -
  obtain hit st1 where h: "dt_cache_get k_text k st = Inr (hit, st1)" "dt_ok val storable repr M st1"
    "dt_impl st1 = dt_impl st" "dt_heap st1 = dt_heap st"
    "case hit of Some a \<Rightarrow> \<exists>x. dt_heap st a = Some x \<and> M (ktext k) = Some (val x)
     | None \<Rightarrow> \<forall>c. dt_cache st1 = Some c \<longrightarrow> map_of (oc_table c) (ktext k) = None"
    using cache_get_ok [OF assms] by blast
  show ?thesis
  proof (cases hit)
    case (Some a)
    then show ?thesis using h by (auto simp: dt_get_def)
  next
    case None
    have repr: "repr (dt_impl st1) M" using h(2) by (simp add: dt_ok_def)
    show ?thesis
    proof (cases "M (ktext k)")
      case n: None
      then show ?thesis using get_none [OF repr assms(2)] h None by (auto simp: dt_get_def)
    next
      case v: (Some v)
      obtain x where x: "t_get k (dt_impl st1) = Inr (DS_OK, Some x)" "val x = v" "storable x"
        using get_some [OF repr assms(2) v] by blast
      let ?a = "dt_next st1"
      let ?st = "st1\<lparr>dt_heap := (dt_heap st1)(?a \<mapsto> x), dt_next := ?a + 1\<rparr>"
      have live: "ce_object e \<noteq> ?a \<and> dt_heap st1 (ce_object e) \<noteq> None" if "dt_cache st1 = Some c" "map_of (oc_table c) j = Some e" for c j e
      proof -
        have "dt_heap st1 (ce_object e) \<noteq> None" using h(2) that unfolding dt_ok_def cache_ok_def by blast
        moreover have "dt_heap st1 ?a = None" using h(2) unfolding dt_ok_def by (metis less_irrefl)
        ultimately show ?thesis by metis
      qed
      have "dt_ok val storable repr M ?st"
        unfolding dt_ok_def
      proof (intro conjI allI impI)
        show "repr (dt_impl ?st) M" using repr by simp
        show "dt_heap ?st a \<noteq> None \<Longrightarrow> a < dt_next ?st" for a
          using h(2) by (auto simp: dt_ok_def less_Suc_eq split: if_splits)
        fix c assume c: "dt_cache ?st = Some c"
        then have "cache_ok val storable M (dt_heap st1) c" using h(2) by (simp add: dt_ok_def)
        then show "cache_ok val storable M (dt_heap ?st) c" using live c unfolding cache_ok_def by (simp; metis)
      qed
      from cache_put_new [OF this assms(2) x(3), of ?a 3] v x(2) None h(5) live
      obtain st' where "dt_cache_put k_text sizer k ?a x 3 ?st = Inr st'" "dt_ok val storable repr M st'" "dt_heap st' ?a = Some x"
        by auto
      then show ?thesis using h(1) None x(1,2) v by (simp add: dt_get_def)
    qed
  qed
qed

lemma put_ok:
  assumes "dt_ok val storable repr M st" "keyable k" "storable x" "dt_heap st a = Some x"
    and "\<And>c j e. dt_cache st = Some c \<Longrightarrow> map_of (oc_table c) j = Some e \<Longrightarrow> (ce_object e = a) = (j = ktext k)"
  shows "\<exists>r st'. dt_put t_put k_text sizer k a fl st = Inr (r, st') \<and>
    (if M (ktext k) = None \<and> \<not> ds_flag 0 fl \<and> \<not> ds_flag 1 fl then r = DS_NOTFOUND \<and> dt_ok val storable repr M st'
     else if M (ktext k) \<noteq> None \<and> ds_flag 1 fl then r = DS_EXISTS \<and> dt_ok val storable repr M st'
     else r = DS_OK \<and> dt_ok val storable repr (M(ktext k \<mapsto> val x)) st')"
proof -
  let ?fl = "cleanup_put_flags fl"
  have repr: "repr (dt_impl st) M" using assms(1) by (simp add: dt_ok_def)
  have same: "st\<lparr>dt_impl := dt_impl st\<rparr> = st" by simp
  consider (missing) "M (ktext k) = None" "\<not> ds_flag 0 fl" "\<not> ds_flag 1 fl" | (there) v where "M (ktext k) = Some v" "ds_flag 1 fl"
    | (fine) "case M (ktext k) of None \<Rightarrow> ds_flag 0 ?fl | Some v \<Rightarrow> \<not> ds_flag 1 ?fl"
    by (cases "M (ktext k)") (auto simp: flags_simps)
  then show ?thesis
  proof cases
    case missing
    then have "dt_put t_put k_text sizer k a fl st = Inr (DS_NOTFOUND, st)"
      using put_missing [OF repr assms(2) missing(1), of ?fl x] assms(4) by (simp add: dt_put_def flags_simps Let_def)
    then show ?thesis using missing assms(1) by auto
  next
    case there
    then have "dt_put t_put k_text sizer k a fl st = Inr (DS_EXISTS, st)"
      using put_exists [OF repr assms(2) there(1), of ?fl x] assms(4) by (simp add: dt_put_def flags_simps Let_def)
    then show ?thesis using there assms(1) by auto
  next
    case fine
    let ?M = "M(ktext k \<mapsto> val x)"
    obtain i1 where i1: "t_put k x ?fl (dt_impl st) = Inr (DS_OK, i1)" "repr i1 ?M" using put_done [OF repr assms(2,3) fine] by blast
    let ?st = "st\<lparr>dt_impl := i1\<rparr>"
    have coh: "cache_ok val storable ?M (dt_heap st) c" if c: "dt_cache st = Some c" for c
    proof -
      have "cache_ok val storable M (dt_heap st) c" using assms(1) c by (simp add: dt_ok_def)
      then show ?thesis using assms(3,4) assms(5) [OF c] unfolding cache_ok_def by (simp; metis)
    qed
    have ok: "dt_ok val storable repr ?M ?st" using assms(1) i1(2) coh by (simp add: dt_ok_def)
    have "\<exists>st'. dt_cache_put k_text sizer k a x ?fl ?st = Inr st' \<and> dt_ok val storable repr ?M st'"
    proof (cases "\<exists>c e. dt_cache st = Some c \<and> map_of (oc_table c) (ktext k) = Some e")
      case True
      then obtain c e where c: "dt_cache st = Some c" "map_of (oc_table c) (ktext k) = Some e" by blast
      have e: "ce_object e = a" using assms(5) [OF c] by simp
      have "M (ktext k) \<noteq> None" using assms(1) c unfolding dt_ok_def cache_ok_def by (metis option.distinct(1))
      then have "\<not> ds_flag 1 ?fl" using fine by auto
      moreover obtain n where "sizer x = Inr (0, n)" using sizer [OF assms(3)] by blast
      moreover have "delete_freed c c (dt_heap st) = dt_heap st" by (simp add: delete_freed_def)
      ultimately have "dt_cache_put k_text sizer k a x ?fl ?st = Inr ?st"
        using c e assms(2) by (simp add: dt_cache_put_def k_text oc_put_def)
      then show ?thesis using ok by blast
    next
      case False
      then have no: "map_of (oc_table c) (ktext k) = None" if "dt_cache ?st = Some c" for c using that by simp
      have "ce_object e \<noteq> a" if "dt_cache ?st = Some c" "map_of (oc_table c) j = Some e" for c j e
        using assms(5) [of c j e] no that by auto
      then show ?thesis using cache_put_new [OF ok assms(2,3), of a ?fl] assms(4) no by auto
    qed
    then obtain st' where "dt_cache_put k_text sizer k a x ?fl ?st = Inr st'" "dt_ok val storable repr ?M st'" by blast
    then have "dt_put t_put k_text sizer k a fl st = Inr (DS_OK, st')" using i1(1) assms(4) by (simp add: dt_put_def Let_def)
    moreover have "\<not> (M (ktext k) = None \<and> \<not> ds_flag 0 fl \<and> \<not> ds_flag 1 fl)" "\<not> (M (ktext k) \<noteq> None \<and> ds_flag 1 fl)"
      using fine by (auto simp: flags_simps split: option.splits)
    ultimately show ?thesis using \<open>dt_ok val storable repr ?M st'\<close> by auto
  qed
qed

lemma del_ok:
  assumes "dt_ok val storable repr M st" "keyable k"
  shows "\<exists>r st'. dt_del t_del k_text k st = Inr (r, st') \<and>
    (if live_text (ktext k) st then r = DS_ERR \<and> dt_ok val storable repr M st'
     else r = (if M (ktext k) = None then DS_NOTFOUND else DS_OK) \<and> dt_ok val storable repr (M(ktext k := None)) st')"
proof -
  have final: "\<exists>r i1. t_del k (dt_impl st) = Inr (r, i1) \<and> r = (if M (ktext k) = None then DS_NOTFOUND else DS_OK) \<and>
      repr i1 (M(ktext k := None))"
  proof (cases "M (ktext k)")
    case None
    then have "M(ktext k := None) = M" by auto
    then show ?thesis using del_none [of _ M, OF _ assms(2) None] assms(1) None by (simp add: dt_ok_def)
  next
    case (Some v)
    then show ?thesis using del_some [of _ M, OF _ assms(2) Some] assms(1) by (simp add: dt_ok_def)
  qed
  show ?thesis
  proof (cases "dt_cache st")
    case None
    then show ?thesis using final assms(1) by (auto simp: dt_del_def dt_ok_def live_text_def)
  next
    case (Some c)
    have ok: "cache_ok val storable M (dt_heap st) c" using assms(1) Some by (simp add: dt_ok_def)
    then have oc: "oc_ok c" by (simp add: cache_ok_def)
    obtain r c' where c': "oc_del (ktext k) c = Inr (r, c')" "oc_ok c'" "frees (Del (ktext k)) c c'" "keeps_objects c c' {}"
      "if oc_is_live (ktext k) c then r = DS_ERR else r \<noteq> DS_ERR \<and> map_of (oc_table c') (ktext k) = None"
      using oc_del_keeps [OF oc] by blast
    let ?h = "delete_freed c c' (dt_heap st)"
    have co: "cache_ok val storable M ?h c'" by (rule cache_ok_step [OF ok c'(3,2,4)])
    have heap: "?h b \<noteq> None \<Longrightarrow> b < dt_next st" for b using assms(1) by (simp add: dt_ok_def delete_freed_def split: if_splits)
    show ?thesis
    proof (cases "oc_is_live (ktext k) c")
      case True
      then show ?thesis using Some assms c'(1,5) co heap by (simp add: dt_del_def k_text live_text_def dt_ok_def)
    next
      case False
      then have gone: "map_of (oc_table c') (ktext k) = None" "r \<noteq> DS_ERR" using c'(5) by auto
      have "cache_ok val storable (M(ktext k := None)) ?h c'" using co gone(1) unfolding cache_ok_def by auto
      then show ?thesis using Some False assms c'(1) gone(2) final heap by (auto simp: dt_del_def k_text live_text_def dt_ok_def)
    qed
  qed
qed

lemma release_ok:
  assumes "dt_ok val storable repr M st" "keyable k" "dt_cache st = Some c" "map_of (oc_table c) (ktext k) = Some e"
  shows "\<exists>st'. dt_release k_text k (ce_object e) st = Inr (DS_OK, st') \<and> dt_ok val storable repr M st'"
proof -
  have ok: "cache_ok val storable M (dt_heap st) c" using assms(1,3) by (simp add: dt_ok_def)
  then have oc: "oc_ok c" by (simp add: cache_ok_def)
  obtain c' where c': "oc_release (ktext k) (ce_object e) c = Inr (DS_OK, c')" "oc_ok c'"
    "frees (Release (ktext k) (ce_object e)) c c'" "keeps_objects c c' {}"
    using oc_release_keeps [OF oc assms(4)] by blast
  have "cache_ok val storable M (delete_freed c c' (dt_heap st)) c'" by (rule cache_ok_step [OF ok c'(3,2,4)])
  moreover have "delete_freed c c' (dt_heap st) b \<noteq> None \<Longrightarrow> b < dt_next st" for b
    using assms(1) by (simp add: dt_ok_def delete_freed_def split: if_splits)
  ultimately show ?thesis using assms c'(1) by (simp add: dt_release_def k_text dt_ok_def)
qed

end


sublocale serial_object \<subseteq> cached: cached_table "\<lambda>kv. mt_get junk ujunk \<lparr>mt_name = tname, mt_multitype = False\<rparr> kv (ser builder)"
    "\<lambda>kv x. mt_put junk kv unknown_type (ser x)" "mt_del junk" key_ok_visit visit_text val storable "items_hold ser val storable"
    "string_key junk" "object_sizer ser"
  for junk ujunk tname
proof unfold_locales
  show "string_key junk k = Inr (visit_text k)" if "key_ok_visit k" for k :: "'d visit" using that by (rule string_key_ok)
  show "\<exists>n. object_sizer ser x = Inr (0, n)" if "storable x" for x
    using ms_action_size [OF mirrors_ok [OF mirrors [OF that]], of False] by (simp add: object_sizer_def)
qed

text \<open>The operations of a \<open>SingleTypeDurableTable\<close> with a cache on a table of a MemoryStore.\<close>

definition mem_dt_get where
  "mem_dt_get junk ujunk tname ser builder =
     dt_get (\<lambda>kv. mt_get junk ujunk \<lparr>mt_name = tname, mt_multitype = False\<rparr> kv (ser builder)) (string_key junk) (object_sizer ser)"

definition mem_dt_put where
  "mem_dt_put junk ser = dt_put (\<lambda>kv x. mt_put junk kv unknown_type (ser x)) (string_key junk) (object_sizer ser)"

definition mem_dt_del where
  "mem_dt_del junk = dt_del (mt_del junk) (string_key junk)"

context serial_object
begin

lemma mem_get_ok:
  assumes "dt_ok val storable (items_hold ser val storable) M st" "key_ok_visit k"
  shows "\<exists>r a c st'. mem_dt_get junk ujunk tname ser builder k st = Inr (r, a, c, st') \<and>
      dt_ok val storable (items_hold ser val storable) M st' \<and>
      (case M (visit_text k) of
         None \<Rightarrow> r = DS_NOTFOUND
       | Some v \<Rightarrow> r = DS_OK \<and> (\<exists>b x. a = Some b \<and> dt_heap st' b = Some x \<and> val x = v))"
  unfolding mem_dt_get_def by (rule cached.get_ok [OF assms])

lemma mem_put_ok:
  assumes "dt_ok val storable (items_hold ser val storable) M st" "key_ok_visit k" "storable x" "dt_heap st a = Some x"
    and "\<forall>c j e. dt_cache st = Some c \<longrightarrow> map_of (oc_table c) j = Some e \<longrightarrow> (ce_object e = a) = (j = visit_text k)"
  shows "\<exists>r st'. mem_dt_put junk ser k a fl st = Inr (r, st') \<and>
    (if M (visit_text k) = None \<and> \<not> ds_flag 0 fl \<and> \<not> ds_flag 1 fl
       then r = DS_NOTFOUND \<and> dt_ok val storable (items_hold ser val storable) M st'
     else if M (visit_text k) \<noteq> None \<and> ds_flag 1 fl
       then r = DS_EXISTS \<and> dt_ok val storable (items_hold ser val storable) M st'
     else r = DS_OK \<and> dt_ok val storable (items_hold ser val storable) (M(visit_text k \<mapsto> val x)) st')"
  unfolding mem_dt_put_def by (rule cached.put_ok [OF assms(1-4)]) (use assms(5) in blast)

lemma mem_del_ok:
  assumes "dt_ok val storable (items_hold ser val storable) M st" "key_ok_visit k"
  shows "\<exists>r st'. mem_dt_del junk k st = Inr (r, st') \<and>
    (if live_text (visit_text k) st then r = DS_ERR \<and> dt_ok val storable (items_hold ser val storable) M st'
     else r = (if M (visit_text k) = None then DS_NOTFOUND else DS_OK) \<and>
       dt_ok val storable (items_hold ser val storable) (M(visit_text k := None)) st')"
  unfolding mem_dt_del_def by (rule cached.del_ok [OF assms])

end

section \<open>Properties\<close>

text \<open>
  Property C4. A \<open>SingleTypeDurableTable\<close> with a cache on a MemoryStore table is a map from the texts of keys to values, for keys
  that \<open>StringSerialize\<close> can print (no 64-bit number of too many digits, no raw buffer, no zero byte in a text) and objects that survive
  marshalling (as in the round trip of \<open>Marshal\<close>); different keys with the same text are one entry (\<open>string_key_text\<close>).
  \<open>get\<close> returns the value last put under the key's text, whether the object was cached or read back from its flat form, and
  \<open>DS_NOTFOUND\<close> if there is none. \<open>put\<close> obeys DS_CREATE and DS_EXCL and otherwise stores the value, provided that it is called with
  the very object that the cache has under that key, if it has one, and with an object that the cache has under no other key
  (\<open>DurableObjectCache::put\<close> panics on a different object). \<open>del\<close> refuses a live object and otherwise removes the value. Every
  cached object stays alive and equal to what the table has, whatever the cache evicts.
\<close>
theorem durable_table_is_map:
  assumes "serial_object ser builder val storable" "key_ok_visit k" "dt_ok val storable (items_hold ser val storable) M st"
  shows "(\<exists>r a c st'. mem_dt_get junk ujunk tname ser builder k st = Inr (r, a, c, st') \<and>
      dt_ok val storable (items_hold ser val storable) M st' \<and>
      (case M (visit_text k) of
         None \<Rightarrow> r = DS_NOTFOUND
       | Some v \<Rightarrow> r = DS_OK \<and> (\<exists>b x. a = Some b \<and> dt_heap st' b = Some x \<and> val x = v))) \<and>
    (\<forall>a x. dt_heap st a = Some x \<and> storable x \<and>
       (\<forall>c j e. dt_cache st = Some c \<longrightarrow> map_of (oc_table c) j = Some e \<longrightarrow> (ce_object e = a) = (j = visit_text k)) \<longrightarrow>
       (\<exists>r st'. mem_dt_put junk ser k a fl st = Inr (r, st') \<and>
         (if M (visit_text k) = None \<and> \<not> ds_flag 0 fl \<and> \<not> ds_flag 1 fl
            then r = DS_NOTFOUND \<and> dt_ok val storable (items_hold ser val storable) M st'
          else if M (visit_text k) \<noteq> None \<and> ds_flag 1 fl
            then r = DS_EXISTS \<and> dt_ok val storable (items_hold ser val storable) M st'
          else r = DS_OK \<and> dt_ok val storable (items_hold ser val storable) (M(visit_text k \<mapsto> val x)) st'))) \<and>
    (\<exists>r st'. mem_dt_del junk k st = Inr (r, st') \<and>
      (if live_text (visit_text k) st then r = DS_ERR \<and> dt_ok val storable (items_hold ser val storable) M st'
       else r = (if M (visit_text k) = None then DS_NOTFOUND else DS_OK) \<and>
         dt_ok val storable (items_hold ser val storable) (M(visit_text k := None)) st'))"
  using serial_object.mem_get_ok [OF assms(1,3,2), of junk ujunk tname] serial_object.mem_put_ok [OF assms(1,3,2)]
    serial_object.mem_del_ok [OF assms(1,3,2), of junk] by blast

lemma durable_table_is_map_witness:
  "\<exists>st1 r a c st2. mem_dt_put (\<lambda>_. 0) (string_shim ''s'') (uint_shim ''k'' 7) 0 1
      ((dt_new [] (Some (oc_init 100 CAP_BY_SIZE)))\<lparr>dt_heap := (\<lambda>_. None)(0 \<mapsto> [104, 105]), dt_next := 1\<rparr>) = Inr (DS_OK, st1) \<and>
    mem_dt_get (\<lambda>_. 0) 0 [116] (string_shim ''s'') [] (uint_shim ''k'' 7) st1 = Inr (r, a, c, st2) \<and>
    r = DS_OK \<and> (\<exists>b. a = Some b \<and> dt_heap st2 b = Some [104, 105])"
proof -
  let ?R = "items_hold (string_shim ''s'') id (\<lambda>s. length s < 2 ^ 32 - 4)"
  let ?st = "(dt_new [] (Some (oc_init 100 CAP_BY_SIZE)))\<lparr>dt_heap := (\<lambda>_. None)(0 \<mapsto> [104, 105]), dt_next := 1\<rparr>"
  let ?k = "uint_shim ''k'' 7"
  have ok: "dt_ok id (\<lambda>s. length s < 2 ^ 32 - 4) ?R Map.empty ?st"
    by (auto simp: dt_ok_def dt_new_def items_hold_def cache_ok_def oc_ok_def oc_init_def split: if_splits)
  have k: "key_ok_visit ?k" by (simp add: key_ok_visit_def uint_shim_def)
  have so: "serial_object (string_shim ''s'') [] id (\<lambda>s. length s < 2 ^ 32 - 4)" by (rule string_shim.serial_object_axioms)
  have "ds_flag 0 (1 :: u32)" "\<not> ds_flag (Suc 0) (1 :: u32)" by (simp_all add: ds_flag_def)
  moreover have "dt_heap ?st 0 = Some [104, 105] \<and> length [104 :: byte, 105] < 2 ^ 32 - 4 \<and>
      (\<forall>c j e. dt_cache ?st = Some c \<longrightarrow> map_of (oc_table c) j = Some e \<longrightarrow> (ce_object e = 0) = (j = visit_text ?k))"
    by (simp add: dt_new_def oc_init_def)
  ultimately obtain st1 where 1: "mem_dt_put (\<lambda>_. 0) (string_shim ''s'') ?k 0 1 ?st = Inr (DS_OK, st1)"
      "dt_ok id (\<lambda>s. length s < 2 ^ 32 - 4) ?R (Map.empty(visit_text ?k \<mapsto> [104, 105])) st1"
    using durable_table_is_map [OF so k ok, of "\<lambda>_. 0" 0 "[116]" 1, THEN conjunct2, THEN conjunct1, rule_format, of 0 "[104, 105]"]
    by auto
  note 2 = durable_table_is_map [OF so k 1(2), of "\<lambda>_. 0" 0 "[116]", THEN conjunct1]
  show ?thesis using 1(1) 2 by auto
qed

text \<open>
  A divergence. \<open>get_copy\<close> takes the object from the cache with \<open>get\<close>, which makes it live, but gives the caller only a copy: nobody
  has a reason to release the object, so it can no longer be evicted or deleted.
\<close>

lemma get_copy_leaves_live:
  assumes "dt_cache st = Some c" "oc_ok c" "map_of (oc_table c) key = Some e" "k_text k = Inr key"
    "dt_get_copy t_get k_text k st = Inr (r, x, st')"
  shows "live_text key st'"
proof -
  obtain c' where "oc_get key c = Inr (DS_OK, Some (ce_object e), c')" "oc_is_live key c'"
    using oc_get_hit [OF assms(2,3)] by blast
  then show ?thesis using assms(1,4,5) by (auto simp: dt_get_copy_def dt_cache_get_def live_text_def split: option.splits)
qed

end
