(* ===== verification/Locks.thy ===== *)
theory Locks
  imports Prelude "HOL-Library.Multiset"
begin

text \<open>
  thread/SpinLock.cc with thread/Lock.h and thread/Atomic-x86.h, and thread/SXLock.h. The threads of a
  spin lock are interleaved at every access to the memory they share; a thread is a number other than 0, and
  \<open>sp_pc\<close> is where it is in \<open>lock\<close>, \<open>unlock\<close> or \<open>try_lock\<close>. \<open>sp_depth\<close> counts the calls with which a thread
  got the lock and has not given it back. \<open>atomic_cmpxchg32\<close> returns the value from before the
  swap. The accesses of an SXLock are made under a lock and are one step each.
\<close>

section \<open>Spin locks\<close>

datatype sp_point = Idle
  | Lock_is_locked | Lock_is_mine | Lock_again | Lock_add_waiter | Lock_spin | Lock_remove_waiter | Lock_check | Lock_set_holder
  | Unlock_is_locked | Unlock_is_mine | Unlock_count | Unlock_clear_holder | Unlock_clear_count | Unlock_yield
  | Try_is_locked | Try_is_mine | Try_again | Try_exchange | Try_check | Try_set_holder

record spin =
  sp_count :: u32
  sp_holder :: nat
  sp_waiters :: u32
  sp_pc :: "nat \<Rightarrow> sp_point"
  sp_depth :: "nat \<Rightarrow> nat"
  sp_failed :: bool

definition spin_init :: spin where
  "spin_init = \<lparr>sp_count = 0, sp_holder = 0, sp_waiters = 0, sp_pc = (\<lambda>_. Idle), sp_depth = (\<lambda>_. 0), sp_failed = False\<rparr>"

definition sp_goto :: "nat \<Rightarrow> sp_point \<Rightarrow> spin \<Rightarrow> spin" where
  "sp_goto t p s = s\<lparr>sp_pc := (sp_pc s)(t := p)\<rparr>"

definition sp_return :: "nat \<Rightarrow> nat \<Rightarrow> spin \<Rightarrow> spin" where
  "sp_return t depth s = s\<lparr>sp_pc := (sp_pc s)(t := Idle), sp_depth := (sp_depth s)(t := depth)\<rparr>"

text \<open>\<open>atomic_cmpxchg32(&lock_count_, o, n)\<close>: the old value and the new state.\<close>

definition cmpxchg_count :: "u32 \<Rightarrow> u32 \<Rightarrow> spin \<Rightarrow> u32 \<times> spin" where
  "cmpxchg_count old new s = (sp_count s, if sp_count s = old then s\<lparr>sp_count := new\<rparr> else s)"

text \<open>The steps of a thread inside \<open>lock\<close>, inside \<open>unlock\<close> and inside \<open>try_lock\<close>. A failed assertion stops everything.\<close>

definition lock_step :: "nat \<Rightarrow> spin \<Rightarrow> spin option" where
  "lock_step t s = (case sp_pc s t of
      Lock_is_locked \<Rightarrow> Some (sp_goto t (if sp_count s \<noteq> 0 then Lock_is_mine else Lock_add_waiter) s)
    | Lock_is_mine \<Rightarrow> Some (sp_goto t (if sp_holder s = t then Lock_again else Lock_add_waiter) s)
    | Lock_again \<Rightarrow> Some (sp_return t (sp_depth s t + 1) (s\<lparr>sp_count := sp_count s + 1\<rparr>))
    | Lock_add_waiter \<Rightarrow> Some (sp_goto t Lock_spin (s\<lparr>sp_waiters := sp_waiters s + 1\<rparr>))
    | Lock_spin \<Rightarrow> (let (old, s1) = cmpxchg_count 0 1 s in Some (if old \<noteq> 0 then s1 else sp_goto t Lock_remove_waiter s1))
    | Lock_remove_waiter \<Rightarrow> Some (sp_goto t Lock_check (s\<lparr>sp_waiters := sp_waiters s - 1\<rparr>))
    | Lock_check \<Rightarrow> Some (if sp_count s = 1 then sp_goto t Lock_set_holder s else s\<lparr>sp_failed := True\<rparr>)
    | Lock_set_holder \<Rightarrow> Some (sp_return t 1 (s\<lparr>sp_holder := t\<rparr>))
    | _ \<Rightarrow> None)"

definition unlock_step :: "nat \<Rightarrow> spin \<Rightarrow> spin option" where
  "unlock_step t s = (case sp_pc s t of
      Unlock_is_locked \<Rightarrow> Some (if sp_count s \<noteq> 0 then sp_goto t Unlock_is_mine s else s\<lparr>sp_failed := True\<rparr>)
    | Unlock_is_mine \<Rightarrow> Some (if sp_holder s = t then sp_goto t Unlock_count s else s\<lparr>sp_failed := True\<rparr>)
    | Unlock_count \<Rightarrow> Some (if 1 < sp_count s then sp_return t (sp_depth s t - 1) (s\<lparr>sp_count := sp_count s - 1\<rparr>)
        else sp_goto t Unlock_clear_holder s)
    | Unlock_clear_holder \<Rightarrow> Some (sp_goto t Unlock_clear_count (s\<lparr>sp_holder := 0\<rparr>))
    | Unlock_clear_count \<Rightarrow> Some (sp_goto t Unlock_yield (s\<lparr>sp_count := 0, sp_depth := (sp_depth s)(t := 0)\<rparr>))
    | Unlock_yield \<Rightarrow> Some (sp_goto t Idle s)
    | _ \<Rightarrow> None)"

definition try_step :: "nat \<Rightarrow> spin \<Rightarrow> spin option" where
  "try_step t s = (case sp_pc s t of
      Try_is_locked \<Rightarrow> Some (sp_goto t (if sp_count s \<noteq> 0 then Try_is_mine else Try_exchange) s)
    | Try_is_mine \<Rightarrow> Some (sp_goto t (if sp_holder s = t then Try_again else Try_exchange) s)
    | Try_again \<Rightarrow> Some (sp_return t (sp_depth s t + 1) (s\<lparr>sp_count := sp_count s + 1\<rparr>))
    | Try_exchange \<Rightarrow> (let (got_lock, s1) = cmpxchg_count 0 1 s in Some (sp_goto t (if got_lock \<noteq> 0 then Try_check else Idle) s1))
    | Try_check \<Rightarrow> Some (if sp_holder s = 0 then sp_goto t Try_set_holder s else s\<lparr>sp_failed := True\<rparr>)
    | Try_set_holder \<Rightarrow> Some (sp_return t 1 (s\<lparr>sp_holder := t\<rparr>))
    | _ \<Rightarrow> None)"

text \<open>
  The steps of a system whose threads call \<open>lock\<close>, and \<open>unlock\<close> as often as they have got the lock; no
  thread holds it more than \<open>2^32 - 2\<close> times at once. The second relation has \<open>try_lock\<close> as well.
\<close>

inductive spin_step :: "spin \<Rightarrow> spin \<Rightarrow> bool" where
  call_lock: "\<not> sp_failed s \<Longrightarrow> t \<noteq> 0 \<Longrightarrow> sp_pc s t = Idle \<Longrightarrow> sp_depth s t < 4294967294 \<Longrightarrow> spin_step s (sp_goto t Lock_is_locked s)"
| in_lock: "\<not> sp_failed s \<Longrightarrow> t \<noteq> 0 \<Longrightarrow> lock_step t s = Some s' \<Longrightarrow> spin_step s s'"
| call_unlock: "\<not> sp_failed s \<Longrightarrow> t \<noteq> 0 \<Longrightarrow> sp_pc s t = Idle \<Longrightarrow> 0 < sp_depth s t \<Longrightarrow> spin_step s (sp_goto t Unlock_is_locked s)"
| in_unlock: "\<not> sp_failed s \<Longrightarrow> t \<noteq> 0 \<Longrightarrow> unlock_step t s = Some s' \<Longrightarrow> spin_step s s'"

inductive spin_try_step :: "spin \<Rightarrow> spin \<Rightarrow> bool" where
  no_try: "spin_step s s' \<Longrightarrow> spin_try_step s s'"
| call_try: "\<not> sp_failed s \<Longrightarrow> t \<noteq> 0 \<Longrightarrow> sp_pc s t = Idle \<Longrightarrow> sp_depth s t < 4294967294 \<Longrightarrow> spin_try_step s (sp_goto t Try_is_locked s)"
| in_try: "\<not> sp_failed s \<Longrightarrow> t \<noteq> 0 \<Longrightarrow> try_step t s = Some s' \<Longrightarrow> spin_try_step s s'"

inductive_cases spin_stepE: "spin_step s s'"

text \<open>The same steps by a schedule: who calls what, and who makes a step inside its call.\<close>

datatype spin_move = Call_lock nat | Call_unlock nat | Call_try nat | Go nat

definition spin_move :: "spin_move \<Rightarrow> spin \<Rightarrow> spin option" where
  "spin_move m s = (if sp_failed s then None else case m of
      Call_lock t \<Rightarrow> if t \<noteq> 0 \<and> sp_pc s t = Idle \<and> sp_depth s t < 4294967294 then Some (sp_goto t Lock_is_locked s) else None
    | Call_unlock t \<Rightarrow> if t \<noteq> 0 \<and> sp_pc s t = Idle \<and> 0 < sp_depth s t then Some (sp_goto t Unlock_is_locked s) else None
    | Call_try t \<Rightarrow> if t \<noteq> 0 \<and> sp_pc s t = Idle \<and> sp_depth s t < 4294967294 then Some (sp_goto t Try_is_locked s) else None
    | Go t \<Rightarrow> if t = 0 then None else
        case lock_step t s of Some s' \<Rightarrow> Some s' | None \<Rightarrow>
        case unlock_step t s of Some s' \<Rightarrow> Some s' | None \<Rightarrow> try_step t s)"

fun spin_run :: "spin_move list \<Rightarrow> spin \<Rightarrow> spin option" where
  "spin_run [] s = Some s"
| "spin_run (m # ms) s = (case spin_move m s of None \<Rightarrow> None | Some s' \<Rightarrow> spin_run ms s')"

definition without_try :: "spin_move list \<Rightarrow> bool" where
  "without_try ms \<longleftrightarrow> list_all (\<lambda>m. case m of Call_try t \<Rightarrow> False | _ \<Rightarrow> True) ms"

section \<open>Mutual exclusion\<close>

definition acquiring :: "sp_point set" where
  "acquiring = {Lock_remove_waiter, Lock_check, Lock_set_holder}"

definition owns :: "spin \<Rightarrow> nat \<Rightarrow> bool" where
  "owns s t \<longleftrightarrow> 0 < sp_depth s t \<or> sp_pc s t \<in> acquiring"

text \<open>What holds of each thread, and of all of them.\<close>

definition thread_ok :: "spin \<Rightarrow> nat \<Rightarrow> bool" where
  "thread_ok s t \<longleftrightarrow> (sp_pc s t \<in> acquiring \<longrightarrow> sp_depth s t = 0 \<and> sp_count s = 1) \<and>
     (0 < sp_depth s t \<longrightarrow> unat (sp_count s) = sp_depth s t \<and> (sp_holder s = t \<or> sp_pc s t = Unlock_clear_count)) \<and>
     (sp_holder s = t \<longrightarrow> t \<noteq> 0 \<longrightarrow> 0 < sp_depth s t) \<and>
     (sp_pc s t \<in> {Lock_is_locked, Lock_is_mine, Lock_again} \<longrightarrow> sp_depth s t < 4294967294) \<and>
     (sp_pc s t \<in> {Lock_again, Unlock_is_locked, Unlock_is_mine, Unlock_count} \<longrightarrow> 0 < sp_depth s t) \<and>
     (sp_pc s t \<in> {Unlock_clear_holder, Unlock_clear_count} \<longrightarrow> sp_depth s t = 1) \<and>
     (sp_pc s t = Unlock_clear_count \<longrightarrow> sp_holder s = 0) \<and>
     (sp_pc s t \<in> {Lock_add_waiter, Lock_spin, Unlock_yield} \<longrightarrow> sp_depth s t = 0) \<and>
     sp_pc s t \<notin> {Try_is_locked, Try_is_mine, Try_again, Try_exchange, Try_check, Try_set_holder}"

definition spin_ok :: "spin \<Rightarrow> bool" where
  "spin_ok s \<longleftrightarrow> \<not> sp_failed s \<and> (\<forall>t. thread_ok s t) \<and> (\<forall>t u. owns s t \<longrightarrow> owns s u \<longrightarrow> t = u) \<and>
     (sp_count s \<noteq> 0 \<longleftrightarrow> (\<exists>t. owns s t)) \<and> (\<forall>t. owns s t \<longrightarrow> t \<noteq> 0)"

lemma spin_init_ok: "spin_ok spin_init"
  by (simp add: spin_ok_def spin_init_def thread_ok_def owns_def acquiring_def)

lemma spin_okD:
  assumes "spin_ok s"
  shows "thread_ok s t" "owns s t \<Longrightarrow> owns s u \<Longrightarrow> t = u" "sp_count s = 0 \<Longrightarrow> \<not> owns s t" "owns s t \<Longrightarrow> sp_count s \<noteq> 0"
    "owns s t \<Longrightarrow> t \<noteq> 0" "\<not> sp_failed s"
  using assms unfolding spin_ok_def by blast+

lemma spin_okI:
  assumes "\<And>t. thread_ok s t" "\<And>t u. owns s t \<Longrightarrow> owns s u \<Longrightarrow> t = u" "sp_count s \<noteq> 0 \<longleftrightarrow> (\<exists>t. owns s t)"
    "\<And>t. owns s t \<Longrightarrow> t \<noteq> 0" "\<not> sp_failed s"
  shows "spin_ok s"
  using assms unfolding spin_ok_def by blast

text \<open>A step of a thread while no other thread owns the lock, and a step of a thread that does not own it and leaves it alone.\<close>

lemma solo_ok:
  assumes "spin_ok s" "t \<noteq> 0" "\<And>u. u \<noteq> t \<Longrightarrow> \<not> owns s u" "\<And>u. u \<noteq> t \<Longrightarrow> sp_pc s' u = sp_pc s u \<and> sp_depth s' u = sp_depth s u"
    and "sp_holder s' = 0 \<or> sp_holder s' = t \<or> sp_holder s' = sp_holder s" "thread_ok s' t" "\<not> sp_failed s'" "sp_count s' \<noteq> 0 \<longleftrightarrow> owns s' t"
  shows "spin_ok s'"
proof -
  have no: "\<not> owns s' u" if "u \<noteq> t" for u using assms(3,4) [OF that] by (simp add: owns_def)
  have "thread_ok s' u" for u
  proof (cases "u = t")
    case False
    have "thread_ok s u" by (rule spin_okD(1) [OF assms(1)])
    moreover have "sp_depth s u = 0" "sp_pc s u \<notin> acquiring" using assms(3) [OF False] by (simp_all add: owns_def)
    ultimately show ?thesis using assms(4) [OF False] assms(5) False by (auto simp: thread_ok_def)
  qed (use assms(6) in simp)
  moreover have "(\<exists>u. owns s' u) \<longleftrightarrow> owns s' t" by (metis no)
  ultimately show ?thesis using assms(2,7,8) by (intro spin_okI) (metis no)+
qed

lemma pass_ok:
  assumes "spin_ok s" "\<not> owns s t" "\<not> owns s' t" "thread_ok s' t" "\<not> sp_failed s'"
    and "sp_count s' = sp_count s" "sp_holder s' = sp_holder s" "sp_depth s' = sp_depth s" "\<And>u. u \<noteq> t \<Longrightarrow> sp_pc s' u = sp_pc s u"
  shows "spin_ok s'"
proof -
  have same: "owns s' u = owns s u" for u using assms(2,3,8,9) by (cases "u = t") (simp_all add: owns_def)
  have "thread_ok s' u" for u
  proof (cases "u = t")
    case False
    then show ?thesis using spin_okD(1) [OF assms(1), of u] assms(6-9) by (simp add: thread_ok_def)
  qed (use assms(4) in simp)
  moreover have "sp_count s \<noteq> 0 \<longleftrightarrow> (\<exists>u. owns s u)" using assms(1) unfolding spin_ok_def by blast
  ultimately show ?thesis using assms(5,6) spin_okD(2,5) [OF assms(1)] by (intro spin_okI) (simp_all add: same)
qed

lemma goto_fields [simp]:
  "sp_count (sp_goto t p s) = sp_count s" "sp_holder (sp_goto t p s) = sp_holder s" "sp_depth (sp_goto t p s) = sp_depth s"
  "sp_failed (sp_goto t p s) = sp_failed s" "sp_pc (sp_goto t p s) = (sp_pc s)(t := p)"
  "sp_count (sp_return t d s) = sp_count s" "sp_holder (sp_return t d s) = sp_holder s" "sp_depth (sp_return t d s) = (sp_depth s)(t := d)"
  "sp_failed (sp_return t d s) = sp_failed s" "sp_pc (sp_return t d s) = (sp_pc s)(t := Idle)"
  by (simp_all add: sp_goto_def sp_return_def)

text \<open>A step that only moves a thread to another point, on either side of owning the lock.\<close>

lemma goto_ok:
  assumes "spin_ok s" "t \<noteq> 0" "thread_ok (sp_goto t p s) t" "owns (sp_goto t p s) t = owns s t"
  shows "spin_ok (sp_goto t p s)"
proof (cases "owns s t")
  case True
  have "sp_count s \<noteq> 0" by (rule spin_okD(4) [OF assms(1) True])
  moreover have "\<not> owns s u" if "u \<noteq> t" for u using spin_okD(2) [OF assms(1) True, of u] that by blast
  ultimately show ?thesis using assms(3,4) True spin_okD(6) [OF assms(1)] by (intro solo_ok [OF assms(1,2)]) simp_all
next
  case False
  then show ?thesis using assms(3,4) spin_okD(6) [OF assms(1)] by (intro pass_ok [OF assms(1) False]) simp_all
qed

lemma waiters_ok: "spin_ok (s\<lparr>sp_waiters := w\<rparr>) = spin_ok s"
  by (simp add: spin_ok_def thread_ok_def owns_def)

lemma lock_step_ok:
  assumes "spin_ok s" "t \<noteq> 0" "lock_step t s = Some s'"
  shows "spin_ok s'"
proof -
  note ok = spin_okD(1) [OF assms(1), of t] and live = spin_okD(6) [OF assms(1)]
  have others: "u \<noteq> t \<Longrightarrow> owns s t \<Longrightarrow> \<not> owns s u" for u using spin_okD(2) [OF assms(1)] by blast
  show ?thesis
  proof (cases "sp_pc s t")
    case Lock_is_locked
    have "sp_depth s t = 0" if "sp_count s = 0" using spin_okD(3) [OF assms(1) that, of t] by (simp add: owns_def)
    moreover have s': "s' = sp_goto t (if sp_count s \<noteq> 0 then Lock_is_mine else Lock_add_waiter) s"
      using assms(3) Lock_is_locked by (simp add: lock_step_def)
    ultimately show ?thesis unfolding s'
      by (intro goto_ok [OF assms(1,2)]) (use assms(2) ok Lock_is_locked in \<open>auto simp: thread_ok_def owns_def acquiring_def\<close>)
  next
    case Lock_is_mine
    have s': "s' = sp_goto t (if sp_holder s = t then Lock_again else Lock_add_waiter) s"
      using assms(3) Lock_is_mine by (simp add: lock_step_def)
    show ?thesis unfolding s'
      by (intro goto_ok [OF assms(1,2)]) (use assms(2) ok Lock_is_mine in \<open>auto simp: thread_ok_def owns_def acquiring_def\<close>)
  next
    case Lock_again
    have d: "0 < sp_depth s t" "unat (sp_count s) = sp_depth s t" "sp_depth s t < 4294967294" "sp_holder s = t"
      using ok Lock_again by (auto simp: thread_ok_def)
    have c: "unat (sp_count s + 1) = sp_depth s t + 1" using d(2,3) by (subst unat_add_lem [THEN iffD1]) simp_all
    have "thread_ok (sp_return t (sp_depth s t + 1) (s\<lparr>sp_count := sp_count s + 1\<rparr>)) t"
      using c d by (simp add: thread_ok_def acquiring_def)
    moreover have "sp_count s + 1 \<noteq> 0" using c by (metis Suc_eq_plus1 nat.distinct(1) unat_0)
    moreover have "s' = sp_return t (sp_depth s t + 1) (s\<lparr>sp_count := sp_count s + 1\<rparr>)" using assms(3) Lock_again by (simp add: lock_step_def)
    ultimately show ?thesis using others d live
      by (intro solo_ok [OF assms(1,2)]) (auto simp: owns_def)
  next
    case Lock_add_waiter
    have "spin_ok (sp_goto t Lock_spin s)"
      by (rule goto_ok [OF assms(1,2)]) (use ok Lock_add_waiter in \<open>auto simp: thread_ok_def owns_def acquiring_def\<close>)
    moreover have "s' = (sp_goto t Lock_spin s)\<lparr>sp_waiters := sp_waiters s + 1\<rparr>"
      using assms(3) Lock_add_waiter by (auto simp: lock_step_def sp_goto_def)
    ultimately show ?thesis by (simp add: waiters_ok)
  next
    case Lock_spin
    show ?thesis
    proof (cases "sp_count s = 0")
      case True
      have no: "\<not> owns s u" for u by (rule spin_okD(3) [OF assms(1) True])
      have "s' = sp_goto t Lock_remove_waiter (s\<lparr>sp_count := 1\<rparr>)"
        using assms(3) Lock_spin True by (simp add: lock_step_def cmpxchg_count_def)
      then show ?thesis using no ok Lock_spin live
        by (intro solo_ok [OF assms(1,2)]) (auto simp: thread_ok_def owns_def acquiring_def)
    next
      case False
      then show ?thesis using assms(1,3) Lock_spin by (simp add: lock_step_def cmpxchg_count_def)
    qed
  next
    case Lock_remove_waiter
    have "spin_ok (sp_goto t Lock_check s)"
      by (rule goto_ok [OF assms(1,2)]) (use ok Lock_remove_waiter in \<open>auto simp: thread_ok_def owns_def acquiring_def\<close>)
    moreover have "s' = (sp_goto t Lock_check s)\<lparr>sp_waiters := sp_waiters s - 1\<rparr>"
      using assms(3) Lock_remove_waiter by (auto simp: lock_step_def sp_goto_def)
    ultimately show ?thesis by (simp add: waiters_ok)
  next
    case Lock_check
    then have "sp_count s = 1" using ok by (simp add: thread_ok_def acquiring_def)
    then have s': "s' = sp_goto t Lock_set_holder s" using assms(3) Lock_check by (simp add: lock_step_def)
    show ?thesis unfolding s'
      by (rule goto_ok [OF assms(1,2)]) (use ok Lock_check in \<open>auto simp: thread_ok_def owns_def acquiring_def\<close>)
  next
    case Lock_set_holder
    then have o: "owns s t" and c: "sp_count s = 1" using ok by (auto simp: owns_def thread_ok_def acquiring_def)
    have "s' = sp_return t 1 (s\<lparr>sp_holder := t\<rparr>)" using assms(3) Lock_set_holder by (simp add: lock_step_def)
    then show ?thesis using others [OF _ o] c live assms(2)
      by (intro solo_ok [OF assms(1,2)]) (auto simp: owns_def thread_ok_def acquiring_def)
  qed (use assms(3) in \<open>simp_all add: lock_step_def\<close>)
qed

lemma unlock_step_ok:
  assumes "spin_ok s" "t \<noteq> 0" "unlock_step t s = Some s'"
  shows "spin_ok s'"
proof -
  note ok = spin_okD(1) [OF assms(1), of t] and live = spin_okD(6) [OF assms(1)]
  have others: "u \<noteq> t \<Longrightarrow> owns s t \<Longrightarrow> \<not> owns s u" for u using spin_okD(2) [OF assms(1)] by blast
  have cnt: "0 < sp_depth s t \<Longrightarrow> sp_count s \<noteq> 0" using spin_okD(4) [OF assms(1), of t] by (simp add: owns_def)
  show ?thesis
  proof (cases "sp_pc s t")
    case Unlock_is_locked
    then have "0 < sp_depth s t" using ok by (simp add: thread_ok_def)
    then have s': "s' = sp_goto t Unlock_is_mine s" using assms(3) Unlock_is_locked cnt by (simp add: unlock_step_def)
    show ?thesis unfolding s'
      by (rule goto_ok [OF assms(1,2)]) (use ok Unlock_is_locked in \<open>auto simp: thread_ok_def owns_def acquiring_def\<close>)
  next
    case Unlock_is_mine
    then have "sp_holder s = t" using ok by (simp add: thread_ok_def)
    then have s': "s' = sp_goto t Unlock_count s" using assms(3) Unlock_is_mine by (simp add: unlock_step_def)
    show ?thesis unfolding s'
      by (rule goto_ok [OF assms(1,2)]) (use ok Unlock_is_mine in \<open>auto simp: thread_ok_def owns_def acquiring_def\<close>)
  next
    case Unlock_count
    have d: "0 < sp_depth s t" "unat (sp_count s) = sp_depth s t" "sp_holder s = t" using ok Unlock_count by (auto simp: thread_ok_def)
    show ?thesis
    proof (cases "1 < sp_count s")
      case True
      then have g: "1 < sp_depth s t" using d(2) by (simp add: word_less_nat_alt)
      have "unat (sp_count s - 1) = sp_depth s t - 1" using True d(2) by (simp add: unat_sub word_le_nat_alt word_less_nat_alt)
      moreover from this have "sp_count s - 1 \<noteq> 0" using g by (metis diff_is_0_eq not_le unat_0)
      moreover have "s' = sp_return t (sp_depth s t - 1) (s\<lparr>sp_count := sp_count s - 1\<rparr>)"
        using assms(3) Unlock_count True by (simp add: unlock_step_def)
      ultimately show ?thesis using others d g live
        by (intro solo_ok [OF assms(1,2)]) (auto simp: owns_def thread_ok_def acquiring_def)
    next
      case False
      have "sp_depth s t = 1" using False d by (simp add: word_less_nat_alt)
      moreover have s': "s' = sp_goto t Unlock_clear_holder s" using assms(3) Unlock_count False by (simp add: unlock_step_def)
      ultimately show ?thesis unfolding s'
        by (intro goto_ok [OF assms(1,2)]) (use ok Unlock_count in \<open>auto simp: thread_ok_def owns_def acquiring_def\<close>)
    qed
  next
    case Unlock_clear_holder
    then have d: "sp_depth s t = 1" "unat (sp_count s) = 1" using ok by (auto simp: thread_ok_def)
    have s': "s' = sp_goto t Unlock_clear_count (s\<lparr>sp_holder := 0\<rparr>)" using assms(3) Unlock_clear_holder by (simp add: unlock_step_def)
    show ?thesis unfolding s'
      by (rule solo_ok [OF assms(1,2)]) (use d others cnt live assms(2) in \<open>auto simp: owns_def thread_ok_def acquiring_def\<close>)
  next
    case Unlock_clear_count
    then have d: "sp_depth s t = 1" "sp_holder s = 0" using ok by (auto simp: thread_ok_def)
    have s': "s' = sp_goto t Unlock_yield (s\<lparr>sp_count := 0, sp_depth := (sp_depth s)(t := 0)\<rparr>)"
      using assms(3) Unlock_clear_count by (simp add: unlock_step_def)
    show ?thesis unfolding s'
      by (rule solo_ok [OF assms(1,2)]) (use d others live assms(2) ok in \<open>auto simp: owns_def thread_ok_def acquiring_def\<close>)
  next
    case Unlock_yield
    have s': "s' = sp_goto t Idle s" using assms(3) Unlock_yield by (simp add: unlock_step_def)
    show ?thesis unfolding s'
      by (rule goto_ok [OF assms(1,2)]) (use ok Unlock_yield in \<open>auto simp: thread_ok_def owns_def acquiring_def\<close>)
  qed (use assms(3) in \<open>simp_all add: unlock_step_def\<close>)
qed

theorem spin_step_ok: "spin_step s s' \<Longrightarrow> spin_ok s \<Longrightarrow> spin_ok s'"
proof (induction rule: spin_step.induct)
  case (call_lock s t)
  have "sp_depth s t < 4294967294" by fact
  then show ?case using call_lock spin_okD(1) [OF call_lock(5), of t]
    by (intro goto_ok) (auto simp: thread_ok_def owns_def acquiring_def)
next
  case (in_lock s t s')
  show ?case by (rule lock_step_ok [OF in_lock(4,2,3)])
next
  case (call_unlock s t)
  then show ?case using spin_okD(1) [OF call_unlock(5), of t]
    by (intro goto_ok) (auto simp: thread_ok_def owns_def acquiring_def)
next
  case (in_unlock s t s')
  show ?case by (rule unlock_step_ok [OF in_unlock(4,2,3)])
qed

lemma spin_steps_ok: "spin_step\<^sup>*\<^sup>* spin_init s \<Longrightarrow> spin_ok s"
  by (induction rule: rtranclp_induct) (auto intro: spin_init_ok spin_step_ok)

text \<open>A schedule runs the steps of the relations.\<close>

lemma spin_move_try_step: "spin_move m s = Some s' \<Longrightarrow> spin_try_step s s'"
  by (auto simp: spin_move_def split: if_splits spin_move.splits option.splits intro: spin_try_step.intros spin_step.intros)

lemma spin_run_try_steps: "spin_run ms s = Some s' \<Longrightarrow> spin_try_step\<^sup>*\<^sup>* s s'"
  by (induction ms arbitrary: s)
    (auto split: option.splits dest!: spin_move_try_step intro: converse_rtranclp_into_rtranclp)

lemma try_step_None: "thread_ok s t \<Longrightarrow> try_step t s = None"
  by (cases "sp_pc s t") (simp_all add: thread_ok_def try_step_def)

lemma spin_move_step:
  assumes "spin_move m s = Some s'" "spin_ok s" "case m of Call_try t \<Rightarrow> False | _ \<Rightarrow> True"
  shows "spin_step s s'"
proof (cases m)
  case (Go t)
  have "try_step t s = None" by (rule try_step_None [OF spin_okD(1) [OF assms(2)]])
  then have "t \<noteq> 0 \<and> (lock_step t s = Some s' \<or> unlock_step t s = Some s')"
    using assms(1) Go by (auto simp: spin_move_def split: if_splits option.splits)
  then show ?thesis using spin_okD(6) [OF assms(2)] by (blast intro: in_lock in_unlock)
qed (use assms(1,3) in \<open>auto simp: spin_move_def split: if_splits intro: call_lock call_unlock\<close>)

lemma spin_run_steps: "spin_run ms s = Some s' \<Longrightarrow> spin_ok s \<Longrightarrow> without_try ms \<Longrightarrow> spin_step\<^sup>*\<^sup>* s s'"
proof (induction ms arbitrary: s)
  case (Cons m ms)
  obtain s1 where s1: "spin_move m s = Some s1" "spin_run ms s1 = Some s'" using Cons(2) by (auto split: option.splits)
  have "spin_step s s1" using spin_move_step [OF s1(1) Cons(3)] Cons(4) by (simp add: without_try_def)
  moreover have "spin_step\<^sup>*\<^sup>* s1 s'" using Cons(1) [OF s1(2)] spin_step_ok [OF calculation Cons(3)] Cons(4) by (simp add: without_try_def)
  ultimately show ?case by (rule converse_rtranclp_into_rtranclp)
qed simp

lemmas spin_run_simps = spin_move_def spin_init_def sp_goto_def sp_return_def lock_step_def unlock_step_def try_step_def
  cmpxchg_count_def

text \<open>
  Property C7. However the threads of a spin lock without \<open>try_lock\<close> are interleaved, with fewer than 2^32 - 1 calls of \<open>lock\<close> nested, the lock is never inside
  two of them at once, the thread that has it has called \<open>lock\<close> as often as \<open>lock_count_\<close> says and can always
  call \<open>unlock\<close> without a failed assertion, and a thread that spins while no thread has the lock gets it with its next step.
\<close>

theorem spin_lock_exclusive:
  assumes "spin_step\<^sup>*\<^sup>* spin_init s"
  shows "\<not> sp_failed s \<and> (0 < sp_depth s t \<longrightarrow> 0 < sp_depth s u \<longrightarrow> t = u) \<and>
    (0 < sp_depth s t \<longrightarrow> unat (sp_count s) = sp_depth s t \<and> t \<noteq> 0) \<and>
    (sp_pc s t = Lock_spin \<longrightarrow> (\<forall>u. \<not> owns s u) \<longrightarrow>
       lock_step t s = Some (sp_goto t Lock_remove_waiter (s\<lparr>sp_count := 1\<rparr>)))"
proof -
  have ok: "spin_ok s" by (rule spin_steps_ok [OF assms])
  have o: "0 < sp_depth s v \<Longrightarrow> owns s v" for v by (simp add: owns_def)
  have free: "sp_count s = 0" if "\<forall>u. \<not> owns s u" using ok that unfolding spin_ok_def by blast
  have "unat (sp_count s) = sp_depth s t" if "0 < sp_depth s t" using spin_okD(1) [OF ok, of t] that by (simp add: thread_ok_def)
  then show ?thesis using o spin_okD(2,5,6) [OF ok] free
    by (intro conjI impI) (blast | simp add: lock_step_def cmpxchg_count_def)+
qed

lemma spin_lock_exclusive_witness:
  "\<exists>s. spin_run [Call_lock 1, Go 1, Go 1, Go 1, Go 1, Go 1, Go 1] spin_init = Some s \<and> sp_depth s 1 = 1 \<and> sp_depth s 2 = 0 \<and> sp_count s = 1"
proof -
  define ms where "ms = [Call_lock 1, Go 1, Go 1, Go 1, Go 1, Go 1, Go 1]"
  have r: "case spin_run ms spin_init of Some s \<Rightarrow> sp_depth s 1 = 1 | None \<Rightarrow> False" "without_try ms"
    by (simp_all add: ms_def spin_run_simps without_try_def)
  obtain s where s: "spin_run ms spin_init = Some s" "sp_depth s 1 = 1" using r(1) by (auto split: option.splits)
  have "\<not> 0 < sp_depth s 2" "unat (sp_count s) = 1"
    using spin_lock_exclusive [OF spin_run_steps [OF s(1) spin_init_ok r(2)], of 1 2] s(2) by simp_all
  then show ?thesis using s unfolding ms_def by (metis neq0_conv unat_1 word_unat_eq_iff)
qed

text \<open>
  A divergence. \<open>try_lock\<close> takes the old value 0 of a free lock for a failure and the old value 1 of a
  taken lock for success: with it two threads are inside at once, and on a free lock it returns 1 and leaves the
  lock taken by nobody.
\<close>

lemma try_lock_breaks_exclusion: "\<exists>s. spin_try_step\<^sup>*\<^sup>* spin_init s \<and> sp_depth s 1 = 1 \<and> sp_depth s 2 = 1"
proof -
  define ms where "ms = [Call_lock 1, Go 1, Go 1, Go 1, Go 1, Call_try 2, Go 2, Go 2, Go 2, Go 2, Go 2, Go 1, Go 1]"
  have "case spin_run ms spin_init of Some s \<Rightarrow> sp_depth s 1 = 1 \<and> sp_depth s 2 = 1 | None \<Rightarrow> False"
    by (simp add: ms_def spin_run_simps)
  then show ?thesis using spin_run_try_steps by (auto split: option.splits)
qed

lemma try_lock_takes_and_fails:
  "\<exists>s. spin_run [Call_try 1, Go 1, Go 1] spin_init = Some s \<and> sp_pc s 1 = Idle \<and> sp_depth s 1 = 0 \<and> sp_count s = 1"
proof -
  have "case spin_run [Call_try 1, Go 1, Go 1] spin_init of
      Some s \<Rightarrow> sp_pc s 1 = Idle \<and> sp_depth s 1 = 0 \<and> sp_count s = 1 | None \<Rightarrow> False" by (simp add: spin_run_simps)
  then show ?thesis by (auto split: option.splits)
qed

section \<open>Shared and exclusive locks\<close>

text \<open>
  The counters of an SXLock, the threads inside (each as often as it entered) and whether \<open>exit\<close> was called. An operation
  that has to spin is None.
\<close>

record sxlock =
  scount :: int
  xcount :: int
  sx_readers :: "nat multiset"
  sx_writers :: "nat multiset"
  sx_exited :: bool

definition sx_init :: sxlock where
  "sx_init = \<lparr>scount = 0, xcount = 0, sx_readers = {#}, sx_writers = {#}, sx_exited = False\<rparr>"

definition shared_lock :: "nat \<Rightarrow> sxlock \<Rightarrow> sxlock option" where
  "shared_lock t x = (if 0 < xcount x then None else Some (x\<lparr>scount := scount x + 1, sx_readers := add_mset t (sx_readers x)\<rparr>))"

definition shared_unlock :: "nat \<Rightarrow> sxlock \<Rightarrow> sxlock" where
  "shared_unlock t x = x\<lparr>scount := scount x - 1, sx_readers := sx_readers x - {#t#}\<rparr>"

definition exclusive_lock :: "nat \<Rightarrow> sxlock \<Rightarrow> sxlock option" where
  "exclusive_lock t x = (if 0 < xcount x \<and> 0 < scount x then None
     else let x = x\<lparr>xcount := xcount x + 1\<rparr> in
       Some (if xcount x \<noteq> 1 then x\<lparr>sx_exited := True\<rparr> else x\<lparr>sx_writers := add_mset t (sx_writers x)\<rparr>))"

definition exclusive_unlock :: "nat \<Rightarrow> sxlock \<Rightarrow> sxlock" where
  "exclusive_unlock t x = (let x = x\<lparr>xcount := xcount x - 1\<rparr> in
     if xcount x \<noteq> 0 then x\<lparr>sx_exited := True\<rparr> else x\<lparr>sx_writers := sx_writers x - {#t#}\<rparr>)"

inductive sx_step :: "sxlock \<Rightarrow> sxlock \<Rightarrow> bool" where
  sx_shared: "\<not> sx_exited x \<Longrightarrow> shared_lock t x = Some y \<Longrightarrow> sx_step x y"
| sx_shared_end: "\<not> sx_exited x \<Longrightarrow> t \<in># sx_readers x \<Longrightarrow> sx_step x (shared_unlock t x)"
| sx_exclusive: "\<not> sx_exited x \<Longrightarrow> exclusive_lock t x = Some y \<Longrightarrow> sx_step x y"
| sx_exclusive_end: "\<not> sx_exited x \<Longrightarrow> t \<in># sx_writers x \<Longrightarrow> sx_step x (exclusive_unlock t x)"

definition sx_ok :: "sxlock \<Rightarrow> bool" where
  "sx_ok x \<longleftrightarrow> scount x = int (size (sx_readers x)) \<and> (\<not> sx_exited x \<longrightarrow> xcount x = int (size (sx_writers x))) \<and>
     size (sx_writers x) \<le> 1 \<and> (sx_exited x \<longrightarrow> size (sx_writers x) = 1 \<and> sx_readers x = {#})"

lemma sx_step_ok: "sx_step x y \<Longrightarrow> sx_ok x \<Longrightarrow> sx_ok y"
proof (induction rule: sx_step.induct)
  case (sx_shared x t y)
  then show ?case by (auto simp: sx_ok_def shared_lock_def split: if_splits)
next
  case (sx_shared_end x t)
  have "0 < size (sx_readers x)" using sx_shared_end(2) by (metis gr0I size_eq_0_iff_empty empty_iff set_mset_empty)
  then show ?case using sx_shared_end
    by (auto simp: sx_ok_def shared_unlock_def size_Diff_singleton)
next
  case (sx_exclusive x t y)
  then show ?case by (cases "sx_writers x") (auto simp: sx_ok_def exclusive_lock_def Let_def split: if_splits)
next
  case (sx_exclusive_end x t)
  then have "size (sx_writers x) = 1"
    by (metis sx_ok_def One_nat_def Suc_leI gr0I le_antisym size_eq_0_iff_empty empty_iff set_mset_empty)
  then show ?case using sx_exclusive_end
    by (auto simp: sx_ok_def exclusive_unlock_def Let_def size_Diff_singleton)
qed

lemma sx_init_ok: "sx_ok sx_init"
  by (simp add: sx_ok_def sx_init_def)

lemma sx_steps_ok: "sx_step\<^sup>*\<^sup>* sx_init x \<Longrightarrow> sx_ok x"
  by (induction rule: rtranclp_induct) (auto intro: sx_init_ok sx_step_ok)

text \<open>
  Property C38. In every reachable state of an SXLock whose process has not called \<open>exit\<close> the counters count the threads
  inside, at most one of them is a writer, and no unlock of a thread that is inside calls \<open>exit\<close>. The next
  \<open>exclusive_lock\<close> calls \<open>exit\<close> exactly when there is a writer and no reader.
\<close>

theorem sxlock_one_writer:
  assumes "sx_step\<^sup>*\<^sup>* sx_init x" "\<not> sx_exited x"
  shows "scount x = int (size (sx_readers x)) \<and> xcount x = int (size (sx_writers x)) \<and> size (sx_writers x) \<le> 1 \<and>
    (t \<in># sx_writers x \<longrightarrow> \<not> sx_exited (exclusive_unlock t x)) \<and>
    ((\<exists>y. exclusive_lock t x = Some y \<and> sx_exited y) \<longleftrightarrow> sx_writers x \<noteq> {#} \<and> sx_readers x = {#})"
proof -
  have ok: "sx_ok x" by (rule sx_steps_ok [OF assms(1)])
  then have c: "scount x = int (size (sx_readers x))" "xcount x = int (size (sx_writers x))" "size (sx_writers x) \<le> 1"
    using assms(2) by (auto simp: sx_ok_def)
  have "\<not> sx_exited (exclusive_unlock t x)" if "t \<in># sx_writers x"
  proof -
    have "sx_step x (exclusive_unlock t x)" by (rule sx_exclusive_end [OF assms(2) that])
    then have "sx_ok (exclusive_unlock t x)" using ok by (rule sx_step_ok)
    then show ?thesis using that assms(2) c by (cases "sx_writers x") (auto simp: exclusive_unlock_def Let_def)
  qed
  moreover have "(\<exists>y. exclusive_lock t x = Some y \<and> sx_exited y) \<longleftrightarrow> sx_writers x \<noteq> {#} \<and> sx_readers x = {#}"
    using c assms(2) by (cases "sx_writers x") (auto simp: exclusive_lock_def Let_def nonempty_has_size)
  ultimately show ?thesis using c by blast
qed

lemma sxlock_one_writer_witness:
  "\<exists>x. exclusive_lock 1 sx_init = Some x \<and> scount x = 0 \<and> xcount x = 1 \<and> (\<exists>y. exclusive_lock 2 x = Some y \<and> sx_exited y)"
proof -
  define x where "x = sx_init\<lparr>xcount := 1, sx_writers := {#1#}\<rparr>"
  have l: "exclusive_lock 1 sx_init = Some x" "\<not> sx_exited x" by (simp_all add: x_def sx_init_def exclusive_lock_def)
  have "sx_step sx_init x" by (rule sx_exclusive [OF _ l(1)]) (simp add: sx_init_def)
  from sxlock_one_writer [OF r_into_rtranclp [of sx_step, OF this] l(2), of 2] show ?thesis using l(1) by (auto simp: x_def sx_init_def)
qed

text \<open>
  A divergence. \<open>exclusive_lock\<close> spins only while there is a writer and a reader, so that a writer enters
  while a reader is inside.
\<close>

lemma writer_beside_reader: "\<exists>x. sx_step\<^sup>*\<^sup>* sx_init x \<and> \<not> sx_exited x \<and> 1 \<in># sx_readers x \<and> 2 \<in># sx_writers x"
proof -
  define x where "x = sx_init\<lparr>scount := 1, sx_readers := {#1#}\<rparr>"
  define y where "y = x\<lparr>xcount := 1, sx_writers := {#2#}\<rparr>"
  have "sx_step sx_init x" by (rule sx_shared [of _ 1]) (simp_all add: x_def sx_init_def shared_lock_def)
  moreover have "sx_step x y" by (rule sx_exclusive [of _ 2]) (simp_all add: y_def x_def sx_init_def exclusive_lock_def)
  ultimately show ?thesis by (intro exI [of _ y]) (auto simp: y_def x_def sx_init_def)
qed

end
