(* ===== verification/MsgQueue.thy ===== *)
theory MsgQueue
  imports Prelude "HOL-Library.Multiset"
begin

text \<open>
  thread/MsgQueue.tcc and thread/Notifier.cc: a queue between threads with a pipe that holds a byte for every message. What
  a thread does under the lock is one step, so that \<open>notify\<close> gives way only where it sleeps because the pipe is
  full, and \<open>wait\<close> only in \<open>poll\<close>. There is one consumer and any number of producers. The capacity of the pipe is a
  parameter. \<open>mq_sent\<close> and \<open>mq_got\<close> record what was pushed and popped.
\<close>

section \<open>The pipe\<close>

datatype mq_failure = Slow_reader | Not_enough_notify | Read_error | Many_waiters | Queue_empty | Queue_not_empty

text \<open>
  \<open>drain_pipe\<close> with \<open>drained\<close> bytes read and \<open>n\<close> left in the pipe: what is left when it returns. It panics on an
  empty pipe and calls \<open>exit\<close> when a read returns 0.
\<close>

function drain_loop :: "nat \<Rightarrow> nat \<Rightarrow> nat \<Rightarrow> mq_failure + nat" where
  "drain_loop bytes drained n =
    (let ret = min (if bytes = 0 then 256 else min 256 (bytes - drained)) n in
     if n = 0 then Inl Not_enough_notify else if ret = 0 then Inl Read_error else
     if bytes = 0 \<or> drained + ret = bytes then Inr (n - ret)
     else if ret < 256 then Inr (n - ret)
     else drain_loop bytes (drained + ret) (n - ret))"
  by pat_completeness auto
termination by (relation "measure (\<lambda>(bytes, drained, n). n)") (auto simp: min_def split: if_splits)

declare drain_loop.simps [simp del]

definition drain_pipe :: "nat \<Rightarrow> nat \<Rightarrow> mq_failure + nat" where
  "drain_pipe bytes n = drain_loop bytes 0 n"

lemma drain_loop_correct:
  assumes "drained < bytes" "bytes \<le> drained + n"
  shows "drain_loop bytes drained n = Inr (n - (bytes - drained))"
  using assms
proof (induction bytes drained n rule: drain_loop.induct)
  case (1 bytes drained n)
  show ?case
  proof (cases "bytes - drained \<le> 256")
    case True
    then have "min (min 256 (bytes - drained)) n = bytes - drained" using 1(3) by auto
    then show ?thesis using 1(2,3) by (subst drain_loop.simps) (simp add: Let_def)
  next
    case False
    then have r: "min (min 256 (bytes - drained)) n = 256" using 1(3) by auto
    have "drain_loop bytes (drained + 256) (n - 256) = Inr (n - 256 - (bytes - (drained + 256)))"
      by (rule 1(1) [of 256]) (use 1(2,3) False r in auto)
    then show ?thesis using r False 1(2,3) by (subst drain_loop.simps) (simp add: Let_def)
  qed
qed

lemma drain_loop_short:
  assumes "drained + n < bytes"
  shows "drain_loop bytes drained n = (if 256 dvd n then Inl Not_enough_notify else Inr 0)"
  using assms
proof (induction bytes drained n rule: drain_loop.induct)
  case (1 bytes drained n)
  show ?case
  proof (cases "n < 256")
    case True
    then have r: "min (if bytes = 0 then 256 else min 256 (bytes - drained)) n = n" using 1(2) by auto
    have "256 dvd n \<longleftrightarrow> n = 0" using True by (auto dest: dvd_imp_le)
    then show ?thesis using 1(2) True by (subst drain_loop.simps) (simp only: r Let_def, simp)
  next
    case False
    then have r: "min (if bytes = 0 then 256 else min 256 (bytes - drained)) n = 256" using 1(2) by auto
    have "drain_loop bytes (drained + 256) (n - 256) = (if 256 dvd n - 256 then Inl Not_enough_notify else Inr 0)"
      by (rule 1(1) [of 256]) (use 1(2) False r in auto)
    moreover have "256 dvd n - 256 \<longleftrightarrow> 256 dvd n" using False by (simp add: dvd_minus_self)
    ultimately show ?thesis using 1(2) False by (subst drain_loop.simps) (simp only: r Let_def, simp)
  qed
qed

text \<open>
  Also. \<open>drain_pipe\<close> of a number of bytes the pipe holds takes exactly these. Asked for more than the pipe
  holds it empties the pipe, unless the pipe holds a multiple of 256 bytes: then it panics as on an empty pipe. With 0,
  which is to drain everything, it takes at most 256 bytes.
\<close>

theorem drain_pipe_correct:
  "drain_pipe bytes n =
    (if n = 0 then Inl Not_enough_notify
     else if bytes = 0 then Inr (n - 256)
     else if bytes \<le> n then Inr (n - bytes)
     else if 256 dvd n then Inl Not_enough_notify else Inr 0)"
proof -
  have "drain_loop 0 0 n = Inr (n - 256)" if "n \<noteq> 0" using that by (subst drain_loop.simps) (auto simp: Let_def min_def)
  moreover have "drain_loop bytes 0 0 = Inl Not_enough_notify" for bytes by (subst drain_loop.simps) (simp add: Let_def)
  ultimately show ?thesis by (simp add: drain_pipe_def drain_loop_correct drain_loop_short)
qed

lemma drain_one [simp]: "drain_pipe 1 n = (if n = 0 then Inl Not_enough_notify else Inr (n - 1))" "drain_pipe (Suc 0) n = (if n = 0 then Inl Not_enough_notify else Inr (n - 1))"
  by (simp_all add: drain_pipe_def drain_loop_correct drain_loop.simps [of _ _ 0])

section \<open>The queue\<close>

text \<open>Where the consumer is; a producer that sleeps because the pipe is full has its message and \<open>num_retries\<close>.\<close>

datatype mq_consumer = Working | Polling | Notified

record 'a msgq =
  mq_queue :: "'a list"
  mq_pipe :: nat
  mq_count :: int
  mq_waiter :: bool
  mq_when_empty :: bool
  mq_consumer :: mq_consumer
  mq_sleeping :: "nat \<rightharpoonup> 'a \<times> bool \<times> nat"
  mq_failure :: "mq_failure option"
  mq_sent :: "'a list"
  mq_got :: "'a list"
  mq_fronts :: bool

definition mq_new :: "'a msgq" where
  "mq_new = \<lparr>mq_queue = [], mq_pipe = 0, mq_count = 0, mq_waiter = False, mq_when_empty = False, mq_consumer = Working,
     mq_sleeping = Map.empty, mq_failure = None, mq_sent = [], mq_got = [], mq_fronts = False\<rparr>"

definition mq_fail :: "mq_failure \<Rightarrow> 'a msgq \<Rightarrow> 'a msgq" where
  "mq_fail e q = q\<lparr>mq_failure := Some e\<rparr>"

definition mq_insert :: "'a \<Rightarrow> bool \<Rightarrow> 'a msgq \<Rightarrow> 'a msgq" where
  "mq_insert m at_back q = (if at_back then q\<lparr>mq_queue := mq_queue q @ [m], mq_sent := mq_sent q @ [m]\<rparr>
     else q\<lparr>mq_queue := m # mq_queue q, mq_sent := m # mq_sent q, mq_fronts := True\<rparr>)"

text \<open>\<open>write(write_fd(), &b, 1)\<close> and \<open>++count_\<close>; None when the pipe is full.\<close>

definition mq_write :: "nat \<Rightarrow> 'a msgq \<Rightarrow> 'a msgq option" where
  "mq_write cap q = (if mq_pipe q < cap then Some (q\<lparr>mq_pipe := mq_pipe q + 1, mq_count := mq_count q + 1\<rparr>) else None)"

definition mq_drain :: "'a msgq \<Rightarrow> 'a msgq" where
  "mq_drain q = (case drain_pipe 1 (mq_pipe q) of Inl e \<Rightarrow> mq_fail e q
     | Inr n \<Rightarrow> q\<lparr>mq_pipe := n, mq_count := mq_count q - (int (mq_pipe q) - int n)\<rparr>)"

text \<open>\<open>push\<close> by producer \<open>p\<close>: the decision to notify, the first write and the rest when it succeeds; and what it does when it wakes up.\<close>

definition mq_push :: "nat \<Rightarrow> nat \<Rightarrow> 'a \<Rightarrow> bool \<Rightarrow> 'a msgq \<Rightarrow> 'a msgq" where
  "mq_push cap p m at_back q = (if \<not> mq_when_empty q \<or> mq_queue q = [] then
     case mq_write cap q of Some q \<Rightarrow> mq_insert m at_back q
       | None \<Rightarrow> q\<lparr>mq_sleeping := (mq_sleeping q)(p \<mapsto> (m, at_back, 1))\<rparr>
     else mq_insert m at_back q)"

definition mq_push_retry :: "nat \<Rightarrow> nat \<Rightarrow> 'a \<Rightarrow> bool \<Rightarrow> nat \<Rightarrow> 'a msgq \<Rightarrow> 'a msgq" where
  "mq_push_retry cap p m at_back num_retries q = (case mq_write cap q of
       Some q \<Rightarrow> mq_insert m at_back (q\<lparr>mq_sleeping := (mq_sleeping q)(p := None)\<rparr>)
     | None \<Rightarrow> if num_retries + 1 = 600 then mq_fail Slow_reader q
         else q\<lparr>mq_sleeping := (mq_sleeping q)(p \<mapsto> (m, at_back, num_retries + 1))\<rparr>)"

text \<open>\<open>pop_blocking\<close> up to \<open>poll\<close>, and from there when it waited; \<open>mq_take\<close> is \<open>front\<close> and \<open>pop_front\<close>.\<close>

definition mq_take :: "'a msgq \<Rightarrow> 'a msgq" where
  "mq_take q = q\<lparr>mq_queue := tl (mq_queue q), mq_got := mq_got q @ [hd (mq_queue q)]\<rparr>"

definition mq_take_drain :: "'a msgq \<Rightarrow> 'a msgq" where
  "mq_take_drain q = (let q = mq_take q in if \<not> mq_when_empty q \<or> mq_queue q = [] then mq_drain q else q)"

definition mq_pop_blocking :: "'a msgq \<Rightarrow> 'a msgq" where
  "mq_pop_blocking q = (if mq_queue q = [] then
       if mq_waiter q then mq_fail Many_waiters q else q\<lparr>mq_waiter := True, mq_consumer := Polling\<rparr>
     else mq_take_drain q)"

definition mq_pop_notified :: "'a msgq \<Rightarrow> 'a msgq" where
  "mq_pop_notified q = (let q = mq_drain (q\<lparr>mq_waiter := False, mq_consumer := Working\<rparr>) in
     if mq_failure q \<noteq> None then q else if mq_queue q = [] then mq_fail Queue_empty q else mq_take q)"

definition mq_try_pop :: "'a msgq \<Rightarrow> 'a msgq \<times> bool" where
  "mq_try_pop q = (if mq_queue q = [] then (q, False) else (mq_take_drain q, True))"

definition mq_notify_when_empty :: "'a msgq \<Rightarrow> 'a msgq" where
  "mq_notify_when_empty q = (if mq_queue q \<noteq> [] then mq_fail Queue_not_empty q else q\<lparr>mq_when_empty := True\<rparr>)"

text \<open>The steps; None for one that is not possible.\<close>

datatype 'a mq_op = Push nat 'a bool | Push_retry nat | Pop | Poll_returns | Pop_notified | Try_pop | When_empty

definition mq_step :: "nat \<Rightarrow> 'a mq_op \<Rightarrow> 'a msgq \<Rightarrow> 'a msgq option" where
  "mq_step cap op q = (if mq_failure q \<noteq> None then None else case op of
      Push p m at_back \<Rightarrow> if mq_sleeping q p = None then Some (mq_push cap p m at_back q) else None
    | Push_retry p \<Rightarrow> (case mq_sleeping q p of None \<Rightarrow> None | Some (m, at_back, num_retries) \<Rightarrow> Some (mq_push_retry cap p m at_back num_retries q))
    | Pop \<Rightarrow> if mq_consumer q = Working then Some (mq_pop_blocking q) else None
    | Poll_returns \<Rightarrow> if mq_consumer q = Polling \<and> 0 < mq_pipe q then Some (q\<lparr>mq_consumer := Notified\<rparr>) else None
    | Pop_notified \<Rightarrow> if mq_consumer q = Notified then Some (mq_pop_notified q) else None
    | Try_pop \<Rightarrow> if mq_consumer q = Working then Some (fst (mq_try_pop q)) else None
    | When_empty \<Rightarrow> Some (mq_notify_when_empty q))"

fun mq_run :: "nat \<Rightarrow> 'a mq_op list \<Rightarrow> 'a msgq \<Rightarrow> 'a msgq option" where
  "mq_run cap [] q = Some q"
| "mq_run cap (op # ops) q = (case mq_step cap op q of None \<Rightarrow> None | Some q' \<Rightarrow> mq_run cap ops q')"

section \<open>One byte for every message\<close>

text \<open>The invariant without \<open>notify_when_empty\<close>.\<close>

definition mq_ok :: "nat \<Rightarrow> 'a msgq \<Rightarrow> bool" where
  "mq_ok cap q \<longleftrightarrow> \<not> mq_when_empty q \<and> mq_pipe q = length (mq_queue q) \<and> mq_count q = int (mq_pipe q) \<and> mq_pipe q \<le> cap \<and>
     (mq_waiter q \<longleftrightarrow> mq_consumer q \<noteq> Working) \<and> (mq_consumer q = Notified \<longrightarrow> mq_queue q \<noteq> []) \<and>
     mq_failure q \<in> {None, Some Slow_reader} \<and>
     mset (mq_sent q) = mset (mq_got q) + mset (mq_queue q) \<and> (\<not> mq_fronts q \<longrightarrow> mq_sent q = mq_got q @ mq_queue q)"

lemmas mq_op_defs = mq_push_def mq_push_retry_def mq_pop_blocking_def mq_pop_notified_def mq_try_pop_def mq_notify_when_empty_def
  mq_take_drain_def mq_take_def mq_drain_def mq_write_def mq_insert_def mq_fail_def Let_def

lemma mq_new_ok: "mq_ok cap mq_new"
  by (simp add: mq_ok_def mq_new_def)

lemma mq_push_ok: "mq_ok cap q \<Longrightarrow> mq_ok cap (mq_push cap p m b q)"
  by (simp add: mq_ok_def mq_op_defs)

lemma mq_push_retry_ok: "mq_ok cap q \<Longrightarrow> mq_ok cap (mq_push_retry cap p m b k q)"
  by (simp add: mq_ok_def mq_op_defs)

lemma mq_take_drain_ok: "mq_ok cap q \<Longrightarrow> mq_failure q = None \<Longrightarrow> mq_consumer q = Working \<Longrightarrow> mq_queue q \<noteq> [] \<Longrightarrow> mq_ok cap (mq_take_drain q)"
  by (cases "mq_queue q") (simp_all add: mq_ok_def mq_op_defs)

lemma mq_pop_notified_ok: "mq_ok cap q \<Longrightarrow> mq_failure q = None \<Longrightarrow> mq_consumer q = Notified \<Longrightarrow> mq_ok cap (mq_pop_notified q)"
  by (cases "mq_queue q") (simp_all add: mq_ok_def mq_op_defs)

lemma mq_step_ok:
  assumes "mq_step cap op q = Some q'" "mq_ok cap q" "op \<noteq> When_empty"
  shows "mq_ok cap q'"
proof -
  have none: "mq_failure q = None" using assms(1) by (auto simp: mq_step_def split: if_splits)
  note s = assms(1) [unfolded mq_step_def none, simplified]
  show ?thesis
  proof (cases op)
    case (Push p m b)
    then show ?thesis using s mq_push_ok [OF assms(2)] by (auto split: if_splits)
  next
    case (Push_retry p)
    then show ?thesis using s mq_push_retry_ok [OF assms(2)] by (auto split: option.splits)
  next
    case Pop
    then have w: "mq_consumer q = Working" "q' = mq_pop_blocking q" using s by (auto split: if_splits)
    show ?thesis
    proof (cases "mq_queue q = []")
      case True
      then show ?thesis using w assms(2) by (simp add: mq_pop_blocking_def mq_ok_def)
    qed (use w mq_take_drain_ok [OF assms(2) none] in \<open>simp add: mq_pop_blocking_def\<close>)
  next
    case Poll_returns
    then show ?thesis using s assms(2) by (auto simp: mq_ok_def split: if_splits)
  next
    case Pop_notified
    then show ?thesis using s mq_pop_notified_ok [OF assms(2) none] by (auto split: if_splits)
  next
    case Try_pop
    then show ?thesis using s mq_take_drain_ok [OF assms(2) none] assms(2) by (auto simp: mq_try_pop_def split: if_splits)
  qed (use assms(3) in simp)
qed

lemma mq_run_ok: "mq_run cap ops q = Some q' \<Longrightarrow> mq_ok cap q \<Longrightarrow> When_empty \<notin> set ops \<Longrightarrow> mq_ok cap q'"
  by (induction ops arbitrary: q) (auto split: option.splits dest: mq_step_ok)

text \<open>
  Property C8. A message queue with one consumer, in every interleaving of its producers' pushes and retries with the consumer's
  \<open>pop_blocking\<close> and \<open>try_pop\<close>: the pipe holds a byte for every message, no assertion fails and nothing panics except a
  producer that found the pipe full 600 times, no message is lost or doubled, messages pushed at the back come out in their order,
  and a consumer that waits while there is a message can wake up and gets the first one.
\<close>

theorem blocking_queue_correct:
  assumes "mq_run cap ops mq_new = Some q" "When_empty \<notin> set ops"
  shows "mq_failure q \<in> {None, Some Slow_reader} \<and> mq_pipe q = length (mq_queue q) \<and> mq_count q = int (mq_pipe q) \<and>
    mset (mq_sent q) = mset (mq_got q) + mset (mq_queue q) \<and> (\<not> mq_fronts q \<longrightarrow> mq_sent q = mq_got q @ mq_queue q) \<and>
    (mq_failure q = None \<longrightarrow> mq_consumer q = Polling \<longrightarrow> mq_queue q \<noteq> [] \<longrightarrow>
      (\<exists>q'. mq_run cap [Poll_returns, Pop_notified] q = Some q' \<and> mq_failure q' = None \<and> mq_got q' = mq_got q @ [hd (mq_queue q)]))"
proof -
  have ok: "mq_ok cap q" using mq_run_ok [OF assms(1) mq_new_ok assms(2)] .
  have "\<exists>q'. mq_run cap [Poll_returns, Pop_notified] q = Some q' \<and> mq_failure q' = None \<and> mq_got q' = mq_got q @ [hd (mq_queue q)]"
    if "mq_failure q = None" "mq_consumer q = Polling" "mq_queue q \<noteq> []"
    using ok that by (simp add: mq_ok_def mq_step_def mq_op_defs)
  then show ?thesis using ok by (auto simp: mq_ok_def)
qed

lemma blocking_queue_correct_witness:
  "\<exists>q. mq_run 1 [Pop, Push 1 CHR ''a'' True, Push 2 CHR ''b'' True, Poll_returns, Pop_notified, Push_retry 2, Pop] mq_new = Some q \<and>
     mq_sent q = ''ab'' \<and> mq_got q = ''ab'' \<and> mset (mq_sent q) = mset (mq_got q)"
proof -
  define ops where "ops = [Pop, Push 1 CHR ''a'' True, Push 2 CHR ''b'' True, Poll_returns, Pop_notified, Push_retry 2, Pop]"
  have "case mq_run 1 ops mq_new of Some q \<Rightarrow> mq_sent q = ''ab'' \<and> mq_got q = ''ab'' \<and> mq_queue q = [] | None \<Rightarrow> False"
    by (simp add: ops_def mq_step_def mq_op_defs mq_new_def)
  then obtain q where q: "mq_run 1 ops mq_new = Some q" "mq_sent q = ''ab''" "mq_got q = ''ab''" "mq_queue q = []"
    by (auto split: option.splits)
  have "When_empty \<notin> set ops" by (simp add: ops_def)
  then have "mset (mq_sent q) = mset (mq_got q)" using blocking_queue_correct [OF q(1)] q(4) by simp
  then show ?thesis using q by (auto simp: ops_def)
qed

section \<open>One byte while there are messages\<close>

definition mq_drained_ok :: "'a msgq \<Rightarrow> bool" where
  "mq_drained_ok q \<longleftrightarrow> mq_when_empty q \<and> mq_pipe q = (if mq_queue q = [] then 0 else 1) \<and> mq_sleeping q = Map.empty \<and>
     mq_failure q = None \<and> mq_sent q = mq_got q @ mq_queue q"

definition mq_polled :: "'a mq_op \<Rightarrow> bool" where
  "mq_polled op \<longleftrightarrow> (case op of Push p m at_back \<Rightarrow> at_back | Push_retry p \<Rightarrow> True | Try_pop \<Rightarrow> True | _ \<Rightarrow> False)"

lemma mq_step_drained_ok:
  assumes "mq_step cap op q = Some q'" "mq_drained_ok q" "mq_polled op" "0 < cap"
  shows "mq_drained_ok q'"
proof (cases op)
  case (Push p m b)
  then show ?thesis using assms by (auto simp: mq_drained_ok_def mq_polled_def mq_step_def mq_op_defs split: if_splits)
next
  case Try_pop
  then show ?thesis using assms
    by (cases "mq_queue q") (auto simp: mq_drained_ok_def mq_step_def mq_op_defs split: if_splits)
qed (use assms in \<open>auto simp: mq_polled_def mq_step_def mq_drained_ok_def split: if_splits\<close>)

lemma mq_run_drained_ok:
  "mq_run cap ops q = Some q' \<Longrightarrow> mq_drained_ok q \<Longrightarrow> list_all mq_polled ops \<Longrightarrow> 0 < cap \<Longrightarrow> mq_drained_ok q'"
  by (induction ops arbitrary: q) (auto split: option.splits dest: mq_step_drained_ok)

text \<open>
  Also. A queue set to \<open>notify_when_empty\<close> whose consumers poll the pipe themselves and take messages with \<open>try_pop\<close> alone:
  the pipe holds one byte exactly while there are messages, no producer sleeps and nothing panics, and messages pushed at the back
  come out in their order.
\<close>

theorem polled_queue_correct:
  assumes "mq_run cap (When_empty # ops) mq_new = Some q" "list_all mq_polled ops" "0 < cap"
  shows "mq_failure q = None \<and> mq_pipe q = (if mq_queue q = [] then 0 else 1) \<and> mq_sleeping q = Map.empty \<and>
    mq_sent q = mq_got q @ mq_queue q"
proof -
  have "mq_run cap ops (mq_new\<lparr>mq_when_empty := True\<rparr>) = Some q"
    using assms(1) by (simp add: mq_step_def mq_notify_when_empty_def mq_new_def)
  moreover have "mq_drained_ok (mq_new\<lparr>mq_when_empty := True\<rparr>)" by (simp add: mq_drained_ok_def mq_new_def)
  ultimately have "mq_drained_ok q" using assms(2,3) by (rule mq_run_drained_ok)
  then show ?thesis by (simp add: mq_drained_ok_def)
qed

lemma polled_queue_correct_witness:
  "\<exists>q. mq_run 1 [When_empty, Push 1 CHR ''a'' True, Push 2 CHR ''b'' True, Try_pop] mq_new = Some q \<and> mq_pipe q = 1 \<and> mq_got q = ''a''"
proof -
  define ops where "ops = [Push 1 CHR ''a'' True, Push 2 CHR ''b'' True, Try_pop]"
  have "case mq_run 1 (When_empty # ops) mq_new of Some q \<Rightarrow> mq_queue q = ''b'' \<and> mq_got q = ''a'' | None \<Rightarrow> False"
    by (simp add: ops_def mq_step_def mq_op_defs mq_new_def)
  then obtain q where q: "mq_run 1 (When_empty # ops) mq_new = Some q" "mq_queue q = ''b''" "mq_got q = ''a''"
    by (auto simp del: mq_run.simps split: option.splits)
  have "list_all mq_polled ops" by (simp add: ops_def mq_polled_def)
  then have "mq_pipe q = 1" using polled_queue_correct [OF q(1)] q(2) by simp
  then show ?thesis using q by (auto simp: ops_def simp del: mq_run.simps)
qed

text \<open>
  A divergence. A consumer that drains such a queue before it blocks, but blocks in \<open>pop_blocking\<close>: the wait takes the only byte
  for two messages, and the \<open>try_pop\<close> that empties the queue panics on the empty pipe.
\<close>

lemma wait_takes_the_byte:
  assumes "0 < cap"
  shows "\<exists>q. mq_run cap [When_empty, Pop, Push 1 a True, Push 1 b True, Poll_returns, Pop_notified, Try_pop] mq_new = Some q \<and>
     mq_failure q = Some Not_enough_notify"
  using assms by (simp add: mq_step_def mq_op_defs mq_new_def)

end
