(* ===== verification/BufferedIO.thy ===== *)
theory BufferedIO
  imports Buffers
begin

text \<open>
  io/BufferedIO.cc: buffered input and output of a client (a socket or a file) on a StreamBuffer. The client is not
  modelled: \<open>rd timeout n c\<close> is what \<open>read\<close> or \<open>timeout_read\<close> of \<open>n\<close> bytes returns in the client's state \<open>c\<close>, with the bytes
  that it read, and \<open>wr data c\<close> what \<open>write\<close> returns. A loop over them that never ends is the value None. A line or a piece of
  the input that the code points to inside the buffer is the list of its bytes; the logging is left out.
\<close>

section \<open>Input\<close>

record 'c binput =
  bi_client :: 'c
  bi_buf :: stream
  bi_seen_eof :: bool

definition bi_init :: "(nat \<Rightarrow> byte) \<Rightarrow> 'c \<Rightarrow> 'c binput" where
  "bi_init junk c = \<lparr>bi_client = c, bi_buf = st_init junk 1024, bi_seen_eof = False\<rparr>"

definition bi_eof :: "'c binput \<Rightarrow> bool" where
  "bi_eof b \<longleftrightarrow> st_fullbytes (bi_buf b) = 0 \<and> bi_seen_eof b"

type_synonym 'c reader = "int \<Rightarrow> nat \<Rightarrow> 'c \<Rightarrow> (int \<times> bytes) \<times> 'c"

definition internal_read :: "'c reader \<Rightarrow> (nat \<Rightarrow> byte) \<Rightarrow> nat \<Rightarrow> int \<Rightarrow> 'c binput \<Rightarrow> (int \<times> 'c binput) run" where
  "internal_read rd junk len timeout b =
     bind_run (assert_run (0 < len)) (\<lambda>_.
     bind_run (assert_run (st_fullbytes (bi_buf b) < len)) (\<lambda>_.
     bind_run (st_reserve_nat junk len (bi_buf b)) (\<lambda>buf.
     let ((cc, d), c) = rd timeout (st_tailbytes buf) (bi_client b);
         b = b\<lparr>bi_client := c, bi_buf := buf\<rparr>
     in if cc = 0 then Inr (cc, b\<lparr>bi_seen_eof := True\<rparr>)
        else if cc < 0 then Inr (cc, b)
        else bind_run (mem_write (st_end buf) d (st_mem buf)) (\<lambda>mem.
             bind_run (st_fill (nat cc) (buf\<lparr>st_mem := mem\<rparr>)) (\<lambda>buf.
             Inr (int (min (st_fullbytes buf) len), b\<lparr>bi_buf := buf\<rparr>))))))"

text \<open>\<open>find_nl\<close>: \<open>memchr\<close> to the first byte of the newline, then \<open>memcmp\<close>.\<close>

function find_nl_loop :: "bytes \<Rightarrow> bytes \<Rightarrow> nat \<Rightarrow> nat option" where
  "find_nl_loop nl rest offset =
    (let skip = length (takeWhile (\<lambda>x. x \<noteq> hd (nl @ [0])) rest); rest = drop skip rest; offset = offset + skip in
     if rest = [] \<or> length rest < length nl then None
     else if take (length nl) rest = nl then Some offset
     else find_nl_loop nl (tl rest) (offset + 1))"
  by pat_completeness auto
termination by (relation "measure (\<lambda>(nl, rest, offset). length rest)") auto

declare find_nl_loop.simps [simp del]

definition find_nl :: "bytes \<Rightarrow> stream \<Rightarrow> nat option" where
  "find_nl nl buf = find_nl_loop nl (st_data buf) 0"

text \<open>Each result has the return value, the bytes it points to, and the new state.\<close>

partial_function (option) read_line :: "'c reader \<Rightarrow> (nat \<Rightarrow> byte) \<Rightarrow> bytes \<Rightarrow> int \<Rightarrow> 'c binput \<Rightarrow>
    (int \<times> bytes \<times> 'c binput) run option" where
  "read_line rd junk nl timeout b = (case find_nl nl (bi_buf b) of
      Some endl \<Rightarrow> Some (bind_run (st_consume (endl + length nl) (bi_buf b)) (\<lambda>buf.
        Inr (int (endl + length nl), take (endl + length nl) (st_data (bi_buf b)), b\<lparr>bi_buf := buf\<rparr>)))
    | None \<Rightarrow> (case internal_read rd junk (st_fullbytes (bi_buf b) + 256) timeout b of
        Inl e \<Rightarrow> Some (Inl e)
      | Inr (cc, b) \<Rightarrow> if cc \<le> 0 then Some (Inr (cc, [], b)) else read_line rd junk nl timeout b))"

partial_function (option) read_bytes_loop :: "'c reader \<Rightarrow> (nat \<Rightarrow> byte) \<Rightarrow> nat \<Rightarrow> int \<Rightarrow> nat \<Rightarrow> 'c binput \<Rightarrow>
    (int \<times> bytes \<times> 'c binput) run option" where
  "read_bytes_loop rd junk len timeout got b =
    (if got < len
     then (case internal_read rd junk len timeout b of
        Inl e \<Rightarrow> Some (Inl e)
      | Inr (cc, b) \<Rightarrow> if cc \<le> 0 then Some (Inr (cc, [], b)) else read_bytes_loop rd junk len timeout (nat cc) b)
     else Some (bind_run (st_consume len (bi_buf b)) (\<lambda>buf. Inr (int len, take len (st_data (bi_buf b)), b\<lparr>bi_buf := buf\<rparr>))))"

definition read_bytes :: "'c reader \<Rightarrow> (nat \<Rightarrow> byte) \<Rightarrow> nat \<Rightarrow> int \<Rightarrow> 'c binput \<Rightarrow> (int \<times> bytes \<times> 'c binput) run option" where
  "read_bytes rd junk len timeout b =
    (if len = 0 then Some (Inl Assert_failed) else read_bytes_loop rd junk len timeout (st_fullbytes (bi_buf b)) b)"

definition read_some_bytes :: "'c reader \<Rightarrow> (nat \<Rightarrow> byte) \<Rightarrow> int \<Rightarrow> 'c binput \<Rightarrow> (int \<times> bytes \<times> 'c binput) run" where
  "read_some_bytes rd junk timeout b =
    (let rest = (\<lambda>b. bind_run (st_consume (st_fullbytes (bi_buf b)) (bi_buf b)) (\<lambda>buf.
           Inr (int (st_fullbytes (bi_buf b)), st_data (bi_buf b), b\<lparr>bi_buf := buf\<rparr>))) in
     if st_fullbytes (bi_buf b) = 0
     then bind_run (assert_run (st_start (bi_buf b) = st_end (bi_buf b))) (\<lambda>_.
          bind_run (internal_read rd junk (st_tailbytes (bi_buf b)) timeout b) (\<lambda>(cc, b).
          if cc \<le> 0 then Inr (cc, [], b)
          else bind_run (assert_run (0 < st_fullbytes (bi_buf b))) (\<lambda>_. rest b)))
     else rest b)"

definition get_char :: "'c reader \<Rightarrow> (nat \<Rightarrow> byte) \<Rightarrow> int \<Rightarrow> 'c binput \<Rightarrow> (byte \<times> 'c binput) run" where
  "get_char rd junk timeout b =
    (let rest = (\<lambda>b. bind_run (st_consume 1 (bi_buf b)) (\<lambda>buf. Inr (hd (st_data (bi_buf b)), b\<lparr>bi_buf := buf\<rparr>))) in
     if st_fullbytes (bi_buf b) = 0
     then bind_run (internal_read rd junk (st_tailbytes (bi_buf b)) timeout b) (\<lambda>(cc, b).
          if cc \<le> 0 then Inr (0, b)
          else bind_run (assert_run (0 < st_fullbytes (bi_buf b))) (\<lambda>_. rest b))
     else rest b)"

section \<open>Output\<close>

record 'c boutput =
  bo_client :: 'c
  bo_buf :: stream
  bo_limit :: nat

definition bo_init :: "(nat \<Rightarrow> byte) \<Rightarrow> 'c \<Rightarrow> 'c boutput" where
  "bo_init junk c = \<lparr>bo_client = c, bo_buf = st_init junk 1024, bo_limit = 256\<rparr>"

type_synonym 'c writer = "bytes \<Rightarrow> 'c \<Rightarrow> int \<times> 'c"

partial_function (option) bo_flush_loop :: "'c writer \<Rightarrow> int \<Rightarrow> 'c boutput \<Rightarrow> (int \<times> 'c boutput) run option" where
  "bo_flush_loop wr so_far b =
    (if 0 < st_fullbytes (bo_buf b)
     then (case wr (st_data (bo_buf b)) (bo_client b) of (cc, c) \<Rightarrow>
       if cc < 0 then Some (Inr (cc, b\<lparr>bo_client := c\<rparr>))
       else (case st_consume (nat cc) (bo_buf b) of
           Inl e \<Rightarrow> Some (Inl e)
         | Inr buf \<Rightarrow> bo_flush_loop wr (so_far + cc) (b\<lparr>bo_client := c, bo_buf := buf\<rparr>)))
     else Some (Inr (so_far, b)))"

definition bo_flush :: "'c writer \<Rightarrow> 'c boutput \<Rightarrow> (int \<times> 'c boutput) run option" where
  "bo_flush wr b = bo_flush_loop wr 0 b"

text \<open>The call of \<open>flush\<close> when more bytes than the limit are waiting; what it returns is not used.\<close>

definition bo_flush_over :: "'c writer \<Rightarrow> int \<Rightarrow> 'c boutput \<Rightarrow> (int \<times> 'c boutput) run option" where
  "bo_flush_over wr ret b =
    (if 0 < bo_limit b \<and> bo_limit b < st_fullbytes (bo_buf b)
     then Option.bind (bo_flush wr b) (\<lambda>r. Some (bind_run r (\<lambda>(_, b). Inr (ret, b))))
     else Some (Inr (ret, b)))"

text \<open>\<open>write(bp, len)\<close> of a C string or of \<open>len\<close> bytes; \<open>bp\<close> is the memory from \<open>bp\<close> on.\<close>

definition bo_write :: "'c writer \<Rightarrow> (nat \<Rightarrow> byte) \<Rightarrow> bytes \<Rightarrow> nat \<Rightarrow> 'c boutput \<Rightarrow> (int \<times> 'c boutput) run option" where
  "bo_write wr junk bp len b =
    (if len = 0 \<and> 0 \<notin> set bp then Some (Inl Undefined)
     else let len = (if len = 0 then length (takeWhile (\<lambda>x. x \<noteq> 0) bp) else len) in
     if length bp < len then Some (Inl Undefined)
     else (case st_put_nat junk (take len bp) (bo_buf b) of
         Inl e \<Rightarrow> Some (Inl e)
       | Inr buf \<Rightarrow> bo_flush_over wr (int len) (b\<lparr>bo_buf := buf\<rparr>)))"

definition bo_clear_buf :: "'c boutput \<Rightarrow> 'c boutput" where
  "bo_clear_buf b = b\<lparr>bo_buf := st_clear (bo_buf b)\<rparr>"

definition bo_set_flush_limit :: "nat \<Rightarrow> 'c boutput \<Rightarrow> 'c boutput" where
  "bo_set_flush_limit limit b = b\<lparr>bo_limit := limit\<rparr>"

text \<open>
  What \<open>log_vsnprintf\<close> writes into \<open>n > 0\<close> bytes of a text that is \<open>t\<close> in full; it returns the length of \<open>t\<close>, and -1 when there are
  no bytes to write to. \<open>args\<close> says whether the format has conversions: then the second call takes arguments from a
  \<open>va_list\<close> that the first one has used up, which is undefined.
\<close>

definition snprintf_bytes :: "nat \<Rightarrow> bytes \<Rightarrow> bytes" where
  "snprintf_bytes n t = (if n = 0 then [] else take (n - 1) t @ [0])"

definition bo_vformat_buf :: "'c writer \<Rightarrow> (nat \<Rightarrow> byte) \<Rightarrow> bool \<Rightarrow> bytes \<Rightarrow> 'c boutput \<Rightarrow> (int \<times> 'c boutput) run option" where
  "bo_vformat_buf wr junk args t b =
    (let nfree = st_tailbytes (bo_buf b); len = length t in
     case bind_run (assert_run (0 < nfree)) (\<lambda>_.
       bind_run (mem_write (st_end (bo_buf b)) (snprintf_bytes nfree t) (st_mem (bo_buf b))) (\<lambda>mem.
       let buf = (bo_buf b)\<lparr>st_mem := mem\<rparr> in
       bind_run (if nfree \<le> len
           then bind_run (st_reserve_nat junk len buf) (\<lambda>buf.
             if args then Inl Undefined
             else bind_run (mem_write (st_end buf) (snprintf_bytes len t) (st_mem buf)) (\<lambda>mem.
             Inr (buf\<lparr>st_mem := mem\<rparr>)))
           else Inr buf) (st_fill len))) of
       Inl e \<Rightarrow> Some (Inl e)
     | Inr buf \<Rightarrow> bo_flush_over wr (int len) (b\<lparr>bo_buf := buf\<rparr>))"

definition bo_printf :: "'c writer \<Rightarrow> (nat \<Rightarrow> byte) \<Rightarrow> bool \<Rightarrow> bytes \<Rightarrow> 'c boutput \<Rightarrow> (int \<times> 'c boutput) run option" where
  "bo_printf wr junk args t b =
    Option.bind (bo_vformat_buf wr junk args t b) (\<lambda>r. case r of
        Inl e \<Rightarrow> Some (Inl e)
      | Inr (ret, b) \<Rightarrow> Option.bind (bo_flush wr b) (\<lambda>r. Some (bind_run r (\<lambda>(_, b). Inr (ret, b)))))"

section \<open>Clients\<close>

text \<open>
  What the code relies on. A reader hands out the bytes of a finite stream in order, at most as many as it is asked for; 0 is
  the end of the stream, a negative value an error or a timeout that loses nothing. A writer takes a non-empty
  part of what it is given, or fails and takes nothing.
\<close>

definition reads_from :: "'c reader \<Rightarrow> ('c \<Rightarrow> bytes) \<Rightarrow> bool" where
  "reads_from rd content \<longleftrightarrow> (\<forall>timeout n c cc d c'. 0 < n \<longrightarrow> rd timeout n c = ((cc, d), c') \<longrightarrow>
     (if 0 < cc then d \<noteq> [] \<and> length d = nat cc \<and> length d \<le> n \<and> content c = d @ content c'
      else content c' = content c \<and> (cc = 0 \<longrightarrow> content c = [])))"

text \<open>A client that does not fail before the end of the stream.\<close>

definition reads_all :: "'c reader \<Rightarrow> ('c \<Rightarrow> bytes) \<Rightarrow> bool" where
  "reads_all rd content \<longleftrightarrow> reads_from rd content \<and>
     (\<forall>timeout n c. 0 < n \<longrightarrow> content c \<noteq> [] \<longrightarrow> 0 < fst (fst (rd timeout n c)))"

definition writes_to :: "'c writer \<Rightarrow> ('c \<Rightarrow> bytes) \<Rightarrow> bool" where
  "writes_to wr written \<longleftrightarrow> (\<forall>d c cc c'. d \<noteq> [] \<longrightarrow> wr d c = (cc, c') \<longrightarrow>
     (if 0 < cc then nat cc \<le> length d \<and> written c' = written c @ take (nat cc) d else cc < 0 \<and> written c' = written c))"

text \<open>A client that never fails to take a part of what it is given.\<close>

definition writes_all :: "'c writer \<Rightarrow> bool" where
  "writes_all wr \<longleftrightarrow> (\<forall>d c. d \<noteq> [] \<longrightarrow> 0 < fst (wr d c))"

section \<open>Lines\<close>

text \<open>The first place of the newline.\<close>

definition first_at :: "bytes \<Rightarrow> bytes \<Rightarrow> nat \<Rightarrow> bool" where
  "first_at nl s i \<longleftrightarrow> take (length nl) (drop i s) = nl \<and> i + length nl \<le> length s \<and>
     (\<forall>j<i. take (length nl) (drop j s) \<noteq> nl)"

lemma find_nl_loop_correct:
  assumes "nl \<noteq> []" "s = pre @ rest" "offset = length pre" "\<forall>j<length pre. take (length nl) (drop j s) \<noteq> nl"
  shows "case find_nl_loop nl rest offset of Some i \<Rightarrow> first_at nl s i
    | None \<Rightarrow> \<forall>j. take (length nl) (drop j s) \<noteq> nl"
  using assms
proof (induction nl rest offset arbitrary: pre rule: find_nl_loop.induct)
  case (1 nl rest offset)
  let ?c = "hd (nl @ [0])"
  let ?w = "takeWhile (\<lambda>x. x \<noteq> ?c) rest" and ?r = "dropWhile (\<lambda>x. x \<noteq> ?c) rest"
  have c: "?c = hd nl" using 1(2) by simp
  have r: "drop (length ?w) rest = ?r" by (simp add: dropWhile_eq_drop)
  have split: "s = (pre @ ?w) @ ?r" using 1(3) by simp
  have before: "take (length nl) (drop j s) \<noteq> nl" if "j < length (pre @ ?w)" for j
  proof (cases "j < length pre")
    case True then show ?thesis using 1(5) by simp
  next
    case False
    then have j: "j - length pre < length ?w" using that by simp
    then have "hd (drop j s) = ?w ! (j - length pre)"
      using False less_le_trans [OF j length_takeWhile_le] by (simp add: 1(3) hd_drop_conv_nth takeWhile_nth j)
    moreover have "?w ! (j - length pre) \<noteq> hd nl" using nth_mem [OF j] c by (metis (full_types) set_takeWhileD)
    moreover have "hd (take (length nl) (drop j s)) = hd (drop j s)" using 1(2) by (cases nl) (auto simp: hd_take)
    ultimately show ?thesis by metis
  qed
  have far: "take (length nl) (drop j s) \<noteq> nl" if "length ?r < length nl" "length (pre @ ?w) \<le> j" for j
  proof -
    have "length (drop j s) \<le> length ?r" using that(2) by (subst split) (simp del: append_assoc)
    then show ?thesis using that(1) by (metis length_take min.coboundedI1 leD)
  qed
  note step = find_nl_loop.simps [of nl rest offset, unfolded Let_def r]
  show ?case
  proof (cases "?r = [] \<or> length ?r < length nl")
    case True
    then have "length ?r < length nl" using 1(2) by (metis length_greater_0_conv list.size(3))
    then have "\<forall>j. take (length nl) (drop j s) \<noteq> nl" using before far by (metis not_le)
    then show ?thesis using True by (simp add: step)
  next
    case False
    have here: "drop (length (pre @ ?w)) s = ?r" by (subst split) (simp add: r)
    show ?thesis
    proof (cases "take (length nl) ?r = nl")
      case True
      have "first_at nl s (offset + length ?w)"
        unfolding first_at_def using True False here before 1(4) split
        by (metis (no_types, lifting) length_append not_le add_le_cancel_left)
      then show ?thesis using True False by (auto simp: step)
    next
      case not: False
      have tl: "s = (pre @ ?w @ [hd ?r]) @ tl ?r" using split False by simp
      have nf: "\<forall>j<length (pre @ ?w @ [hd ?r]). take (length nl) (drop j s) \<noteq> nl"
        using before here not by (auto simp: less_Suc_eq)
      have "case find_nl_loop nl (tl ?r) (offset + length ?w + 1) of Some i \<Rightarrow> first_at nl s i
          | None \<Rightarrow> \<forall>j. take (length nl) (drop j s) \<noteq> nl"
        by (rule 1(1) [OF refl refl refl, unfolded r, where pre = "pre @ ?w @ [hd ?r]"]) (use nf False not 1(2,4) tl in \<open>auto simp only: length_append list.size append_assoc append.simps\<close>)
      then show ?thesis using False not by (auto simp: step)
    qed
  qed
qed

lemma find_nl_correct:
  assumes "nl \<noteq> []"
  shows "case find_nl nl buf of Some i \<Rightarrow> first_at nl (st_data buf) i | None \<Rightarrow> \<forall>j. take (length nl) (drop j (st_data buf)) \<noteq> nl"
  unfolding find_nl_def by (rule find_nl_loop_correct [OF assms, where pre = "[]"]) simp_all

lemma first_at_append: "first_at nl s i \<Longrightarrow> first_at nl (s @ t) i"
proof -
  assume a: "first_at nl s i"
  have "take (length nl) (drop j (s @ t)) = take (length nl) (drop j s)" if "j \<le> i" for j
    using a that by (auto simp: first_at_def)
  then show ?thesis using a by (auto simp: first_at_def)
qed

lemma st_data_length: "st_ok b \<Longrightarrow> length (st_data b) = st_fullbytes b"
  by (auto simp: st_data_def st_ok_def st_fullbytes_def)

text \<open>What has arrived and what is still to come.\<close>

definition bi_pending :: "('c \<Rightarrow> bytes) \<Rightarrow> 'c binput \<Rightarrow> bytes" where
  "bi_pending content b = st_data (bi_buf b) @ content (bi_client b)"

lemma internal_read_ok:
  assumes "reads_from rd content" "st_ok (bi_buf b)" "st_fullbytes (bi_buf b) < len"
  shows "\<exists>cc b'. internal_read rd junk len timeout b = Inr (cc, b') \<and> st_ok (bi_buf b') \<and> bi_pending content b' = bi_pending content b \<and>
    (0 < cc \<longrightarrow> cc = int (min (st_fullbytes (bi_buf b')) len) \<and> length (content (bi_client b')) < length (content (bi_client b)) \<and>
       0 < st_fullbytes (bi_buf b')) \<and>
    (cc \<le> 0 \<longrightarrow> st_data (bi_buf b') = st_data (bi_buf b) \<and> content (bi_client b') = content (bi_client b)) \<and>
    (cc \<le> 0 \<longrightarrow> reads_all rd content \<longrightarrow> content (bi_client b) = []) \<and>
    (cc = 0 \<longrightarrow> content (bi_client b) = [] \<and> bi_seen_eof b') \<and> (cc \<noteq> 0 \<longrightarrow> bi_seen_eof b' = bi_seen_eof b)"
proof -
  obtain buf where buf: "st_reserve_nat junk len (bi_buf b) = Inr buf" "st_ok buf" "st_data buf = st_data (bi_buf b)" "len \<le> st_tailbytes buf"
    using st_reserve_ok [OF assms(2)] by blast
  have n: "0 < st_tailbytes buf" "0 < len" using buf(4) assms(3) by auto
  obtain cc d c where rd: "rd timeout (st_tailbytes buf) (bi_client b) = ((cc, d), c)" by (metis surj_pair)
  note client = assms(1) [unfolded reads_from_def, rule_format, OF n(1) rd]
  show ?thesis
  proof (cases "0 < cc")
    case False
    moreover have "content (bi_client b) = []" if "reads_all rd content"
      using that rd n(1) False unfolding reads_all_def by (metis fst_conv)
    ultimately show ?thesis using client buf n rd assms(3) by (cases "cc = 0") (auto simp: internal_read_def Let_def bi_pending_def)
  next
    case True
    have d: "d \<noteq> []" "length d = nat cc" "length d \<le> st_tailbytes buf" "content (bi_client b) = d @ content c"
      using client True by auto
    let ?m = "take (st_end buf) (st_mem buf) @ d @ drop (st_end buf + length d) (st_mem buf)"
    let ?buf = "buf\<lparr>st_mem := ?m, st_end := st_end buf + length d\<rparr>"
    have "st_end buf + length d \<le> length (st_mem buf)" using buf(2) d(3) by (auto simp: st_ok_def st_tailbytes_def)
    then have w: "mem_write (st_end buf) d (st_mem buf) = Inr ?m" "length ?m = length (st_mem buf)" by (simp_all add: mem_write_ok)
    have f: "st_fill (nat cc) (buf\<lparr>st_mem := ?m\<rparr>) = Inr ?buf" using d(2,3) w(2) by (simp add: st_fill_def st_tailbytes_def)
    note ap = st_append_ok [OF buf(2) d(3)]
    have full: "0 < st_fullbytes ?buf" using st_data_length [OF ap(1)] ap(2) d(1) by (metis append_is_Nil_conv length_greater_0_conv)
    define k where "k = int (min (st_fullbytes ?buf) len)"
    have k: "0 < k" using full n(2) by (simp add: k_def)
    have "internal_read rd junk len timeout b = Inr (k, b\<lparr>bi_client := c, bi_buf := ?buf\<rparr>)"
      unfolding k_def using True n assms(3) buf(1) by (simp add: internal_read_def rd w(1) f)
    then show ?thesis using ap full k d(1,4) buf(3) by (simp add: bi_pending_def k_def [symmetric])
  qed
qed

lemma read_line_spec:
  assumes "reads_from rd content" "st_ok (bi_buf b)" "nl \<noteq> []"
  shows "\<exists>cc line b'. read_line rd junk nl timeout b = Some (Inr (cc, line, b')) \<and> st_ok (bi_buf b') \<and>
    (if 0 < cc then \<exists>i. first_at nl (bi_pending content b) i \<and> nat cc = i + length nl \<and>
         line = take (nat cc) (bi_pending content b) \<and> bi_pending content b' = drop (nat cc) (bi_pending content b)
     else line = [] \<and> bi_pending content b' = bi_pending content b \<and>
       (cc = 0 \<or> reads_all rd content \<longrightarrow> (\<forall>j. take (length nl) (drop j (bi_pending content b)) \<noteq> nl)))"
  using assms(2)
proof (induction "length (content (bi_client b))" arbitrary: b rule: less_induct)
  case less
  show ?case
  proof (cases "find_nl nl (bi_buf b)")
    case (Some i)
    have at: "first_at nl (st_data (bi_buf b)) i" using find_nl_correct [OF assms(3), of "bi_buf b"] Some by simp
    then have le: "i + length nl \<le> length (st_data (bi_buf b))" by (simp add: first_at_def)
    then obtain buf where buf: "st_consume (i + length nl) (bi_buf b) = Inr buf" "st_ok buf"
        "st_data buf = drop (i + length nl) (st_data (bi_buf b))"
      using st_consume_ok [OF less(2), of "i + length nl"] by auto
    have "read_line rd junk nl timeout b =
        Some (Inr (int (i + length nl), take (i + length nl) (st_data (bi_buf b)), b\<lparr>bi_buf := buf\<rparr>))"
      by (subst read_line.simps) (simp add: Some buf(1))
    moreover have "first_at nl (bi_pending content b) i" unfolding bi_pending_def by (rule first_at_append [OF at])
    moreover have "0 < int (i + length nl)" "nat (int (i + length nl)) = i + length nl" using assms(3) by (cases nl, auto)+
    ultimately show ?thesis using buf le by (auto simp: bi_pending_def simp del: of_nat_add)
  next
    case None
    obtain cc b1 where r: "internal_read rd junk (st_fullbytes (bi_buf b) + 256) timeout b = Inr (cc, b1)" "st_ok (bi_buf b1)"
        "bi_pending content b1 = bi_pending content b"
        "0 < cc \<longrightarrow> length (content (bi_client b1)) < length (content (bi_client b))"
        "cc \<le> 0 \<longrightarrow> st_data (bi_buf b1) = st_data (bi_buf b)"
        "cc = 0 \<longrightarrow> content (bi_client b) = []" "cc \<le> 0 \<longrightarrow> reads_all rd content \<longrightarrow> content (bi_client b) = []"
      using internal_read_ok [OF assms(1) less(2), of "st_fullbytes (bi_buf b) + 256" junk timeout] by auto
    have step: "read_line rd junk nl timeout b = (if cc \<le> 0 then Some (Inr (cc, [], b1)) else read_line rd junk nl timeout b1)"
      by (subst read_line.simps) (simp add: None r(1))
    show ?thesis
    proof (cases "0 < cc")
      case True
      then have e: "read_line rd junk nl timeout b = read_line rd junk nl timeout b1" using step by simp
      show ?thesis unfolding e r(3) [symmetric] by (rule less(1)) (use True r(2,4) in simp_all)
    next
      case False
      have "\<forall>j. take (length nl) (drop j (st_data (bi_buf b))) \<noteq> nl" using find_nl_correct [OF assms(3), of "bi_buf b"] None by simp
      then show ?thesis using False r step by (auto simp: bi_pending_def)
    qed
  qed
qed

lemma read_bytes_loop_spec:
  assumes "reads_from rd content" "st_ok (bi_buf b)" "got < len \<longleftrightarrow> st_fullbytes (bi_buf b) < len"
  shows "\<exists>cc d b'. read_bytes_loop rd junk len timeout got b = Some (Inr (cc, d, b')) \<and> st_ok (bi_buf b') \<and>
    (if cc = int len then d = take len (bi_pending content b) \<and> length d = len \<and> bi_pending content b' = drop len (bi_pending content b)
     else cc \<le> 0 \<and> d = [] \<and> bi_pending content b' = bi_pending content b \<and> (cc = 0 \<longrightarrow> length (bi_pending content b) < len))"
  using assms(2,3)
proof (induction "length (content (bi_client b))" arbitrary: b got rule: less_induct)
  case less
  note full = st_data_length [OF less(2)]
  show ?case
  proof (cases "st_fullbytes (bi_buf b) < len")
    case False
    then obtain buf where buf: "st_consume len (bi_buf b) = Inr buf" "st_ok buf" "st_data buf = drop len (st_data (bi_buf b))"
      using st_consume_ok [OF less(2), of len] full by auto
    have "read_bytes_loop rd junk len timeout got b = Some (Inr (int len, take len (st_data (bi_buf b)), b\<lparr>bi_buf := buf\<rparr>))"
      using False less(3) by (subst read_bytes_loop.simps) (simp add: buf(1))
    then show ?thesis using buf full False by (auto simp: bi_pending_def)
  next
    case True
    obtain cc b1 where r: "internal_read rd junk len timeout b = Inr (cc, b1)" "st_ok (bi_buf b1)"
        "bi_pending content b1 = bi_pending content b"
        "0 < cc \<longrightarrow> cc = int (min (st_fullbytes (bi_buf b1)) len) \<and> length (content (bi_client b1)) < length (content (bi_client b))"
        "cc = 0 \<longrightarrow> content (bi_client b) = []"
      using internal_read_ok [OF assms(1) less(2) True, of junk timeout] by auto
    have step: "read_bytes_loop rd junk len timeout got b =
        (if cc \<le> 0 then Some (Inr (cc, [], b1)) else read_bytes_loop rd junk len timeout (nat cc) b1)"
      using True less(3) by (subst read_bytes_loop.simps) (simp add: r(1))
    show ?thesis
    proof (cases "0 < cc")
      case pos: True
      then have e: "read_bytes_loop rd junk len timeout got b = read_bytes_loop rd junk len timeout (nat cc) b1" using step by simp
      show ?thesis unfolding e r(3) [symmetric] by (rule less(1)) (use pos r(2,4) in auto)
    next
      case False
      then show ?thesis using r step True full by (auto simp: bi_pending_def)
    qed
  qed
qed

lemma read_bytes_spec:
  assumes "reads_from rd content" "st_ok (bi_buf b)" "0 < len"
  shows "\<exists>cc d b'. read_bytes rd junk len timeout b = Some (Inr (cc, d, b')) \<and> st_ok (bi_buf b') \<and>
    (if cc = int len then d = take len (bi_pending content b) \<and> length d = len \<and> bi_pending content b' = drop len (bi_pending content b)
     else cc \<le> 0 \<and> d = [] \<and> bi_pending content b' = bi_pending content b \<and> (cc = 0 \<longrightarrow> length (bi_pending content b) < len))"
  using read_bytes_loop_spec [OF assms(1,2), of "st_fullbytes (bi_buf b)" len junk timeout] assms(3) by (auto simp: read_bytes_def)

lemma first_byte:
  assumes "st_ok buf" "0 < st_fullbytes buf"
  shows "\<exists>buf'. st_consume 1 buf = Inr buf' \<and> st_ok buf' \<and> st_data buf = hd (st_data buf) # st_data buf'"
proof -
  have l: "1 \<le> length (st_data buf)" using assms st_data_length by simp
  then obtain x xs where "st_data buf = x # xs" by (cases "st_data buf") auto
  then show ?thesis using st_consume_ok [OF assms(1), of 1] l by auto
qed

lemma get_char_spec:
  assumes "reads_from rd content" "st_ok (bi_buf b)" "st_fullbytes (bi_buf b) = 0 \<longrightarrow> 0 < st_tailbytes (bi_buf b)"
  shows "\<exists>c b'. get_char rd junk timeout b = Inr (c, b') \<and> st_ok (bi_buf b') \<and>
    (bi_pending content b = c # bi_pending content b' \<or> c = 0 \<and> bi_pending content b' = bi_pending content b)"
proof -
  have rest: "\<exists>buf. st_consume 1 (bi_buf b1) = Inr buf \<and> st_ok buf \<and>
      bi_pending content b1 = hd (st_data (bi_buf b1)) # bi_pending content (b1\<lparr>bi_buf := buf\<rparr>)"
    if h: "st_ok (bi_buf b1)" "0 < st_fullbytes (bi_buf b1)" for b1 :: "'a binput"
  proof -
    obtain buf where buf: "st_consume 1 (bi_buf b1) = Inr buf" "st_ok buf" "st_data (bi_buf b1) = hd (st_data (bi_buf b1)) # st_data buf"
      using first_byte [OF h] by blast
    have "bi_pending content b1 = hd (st_data (bi_buf b1)) # bi_pending content (b1\<lparr>bi_buf := buf\<rparr>)"
      unfolding bi_pending_def by (subst buf(3)) simp
    then show ?thesis using buf(1,2) by blast
  qed
  show ?thesis
  proof (cases "st_fullbytes (bi_buf b) = 0")
    case False
    then show ?thesis using rest [OF assms(2)] by (auto simp: get_char_def)
  next
    case True
    then have "st_fullbytes (bi_buf b) < st_tailbytes (bi_buf b)" using assms(3) by simp
    from internal_read_ok [OF assms(1,2) this, of junk timeout] obtain cc b1 where
      r: "internal_read rd junk (st_tailbytes (bi_buf b)) timeout b = Inr (cc, b1)" "st_ok (bi_buf b1)"
        "bi_pending content b1 = bi_pending content b" "0 < cc \<longrightarrow> 0 < st_fullbytes (bi_buf b1)" by auto
    show ?thesis
    proof (cases "0 < cc")
      case pos: True
      then show ?thesis using rest [of b1] r True by (auto simp: get_char_def)
    qed (use r True in \<open>auto simp: get_char_def\<close>)
  qed
qed

text \<open>A line that is there is read when the client does not fail.\<close>

lemma first_at_unique: "first_at nl s i \<Longrightarrow> first_at nl s j \<Longrightarrow> i = j"
  unfolding first_at_def by (metis linorder_neqE_nat)

lemma read_line_there:
  assumes "reads_all rd content" "st_ok (bi_buf b)" "nl \<noteq> []" "bi_pending content b = line @ nl @ rest" "first_at nl (line @ nl @ rest) (length line)"
  shows "\<exists>b'. read_line rd junk nl timeout b = Some (Inr (int (length line + length nl), line @ nl, b')) \<and> st_ok (bi_buf b') \<and>
    bi_pending content b' = rest"
proof -
  have rf: "reads_from rd content" using assms(1) by (simp add: reads_all_def)
  obtain cc l b' where r: "read_line rd junk nl timeout b = Some (Inr (cc, l, b'))" "st_ok (bi_buf b')"
    "if 0 < cc then \<exists>i. first_at nl (bi_pending content b) i \<and> nat cc = i + length nl \<and>
         l = take (nat cc) (bi_pending content b) \<and> bi_pending content b' = drop (nat cc) (bi_pending content b)
     else l = [] \<and> bi_pending content b' = bi_pending content b \<and>
       (cc = 0 \<or> reads_all rd content \<longrightarrow> (\<forall>j. take (length nl) (drop j (bi_pending content b)) \<noteq> nl))"
    using read_line_spec [OF rf assms(2,3)] by blast
  have "take (length nl) (drop (length line) (bi_pending content b)) = nl" using assms(4) by simp
  then have "0 < cc" using r(3) assms(1) by (metis (no_types, lifting))
  then have "nat cc = length line + length nl" "l = take (nat cc) (line @ nl @ rest)" "bi_pending content b' = drop (nat cc) (line @ nl @ rest)"
    using r(3) assms(4) first_at_unique [OF _ assms(5)] by auto
  moreover from this(1) \<open>0 < cc\<close> have "cc = int (length line + length nl)" by linarith
  ultimately show ?thesis using r(1,2) by simp
qed

section \<open>Text\<close>

lemma st_write_fill:
  assumes "st_ok buf" "length d \<le> st_tailbytes buf" "n \<le> length d"
  shows "\<exists>m buf'. mem_write (st_end buf) d (st_mem buf) = Inr m \<and> length m = length (st_mem buf) \<and> st_ok (buf\<lparr>st_mem := m\<rparr>) \<and>
    st_data (buf\<lparr>st_mem := m\<rparr>) = st_data buf \<and>
    st_fill n (buf\<lparr>st_mem := m\<rparr>) = Inr buf' \<and> st_ok buf' \<and> st_data buf' = st_data buf @ take n d"
proof -
  let ?m = "take (st_end buf) (st_mem buf) @ d @ drop (st_end buf + length d) (st_mem buf)"
  have le: "st_start buf \<le> st_end buf" "st_end buf + length d \<le> length (st_mem buf)" "st_mem buf \<noteq> []"
    using assms(1,2) by (auto simp: st_ok_def st_tailbytes_def)
  then have ne: "?m \<noteq> []" by (cases "st_end buf") auto
  have w: "mem_write (st_end buf) d (st_mem buf) = Inr ?m" "length ?m = length (st_mem buf)" using le by (simp_all add: mem_write_ok)
  have f: "st_fill n (buf\<lparr>st_mem := ?m\<rparr>) = Inr (buf\<lparr>st_mem := ?m, st_end := st_end buf + n\<rparr>)"
    using assms(2,3) w(2) by (simp add: st_fill_def st_tailbytes_def)
  have "take (st_end buf + n - st_start buf) (drop (st_start buf) ?m) =
      take (st_end buf - st_start buf) (drop (st_start buf) (st_mem buf)) @ take n d"
    using le(1,2) assms(3) by (simp add: drop_take)
  then have "st_data (buf\<lparr>st_mem := ?m, st_end := st_end buf + n\<rparr>) = st_data buf @ take n d"
    by (simp add: st_data_def st_fullbytes_def)
  moreover have "st_data (buf\<lparr>st_mem := ?m\<rparr>) = st_data buf" using le(1,2) by (simp add: st_data_def st_fullbytes_def drop_take)
  moreover have "st_ok (buf\<lparr>st_mem := ?m, st_end := st_end buf + n\<rparr>)" "st_ok (buf\<lparr>st_mem := ?m\<rparr>)"
    using le assms(3) w(2) ne by (simp_all add: st_ok_def)
  ultimately show ?thesis using w f by blast
qed

text \<open>What has been written or waits to be.\<close>

definition bo_out :: "('c \<Rightarrow> bytes) \<Rightarrow> 'c boutput \<Rightarrow> bytes" where
  "bo_out written b = written (bo_client b) @ st_data (bo_buf b)"

text \<open>
  How the room behind the waiting bytes changes when some of them are written: it does not shrink, and all of the memory is free when
  nothing is left of something.
\<close>

definition room_kept :: "stream \<Rightarrow> stream \<Rightarrow> bool" where
  "room_kept buf buf' \<longleftrightarrow> length (st_mem buf') = length (st_mem buf) \<and> st_tailbytes buf \<le> st_tailbytes buf' \<and>
     (st_data buf' = [] \<longrightarrow> st_data buf = [] \<or> st_tailbytes buf' = length (st_mem buf'))"

lemma room_kept_refl [simp]: "room_kept buf buf"
  by (simp add: room_kept_def)

lemma room_kept_trans: "room_kept a b \<Longrightarrow> room_kept b c \<Longrightarrow> st_tailbytes b \<le> length (st_mem b) \<Longrightarrow> st_tailbytes c \<le> length (st_mem c) \<Longrightarrow> room_kept a c"
  by (auto simp: room_kept_def)

lemma st_tailbytes_le: "st_tailbytes b \<le> length (st_mem b)"
  by (simp add: st_tailbytes_def)

lemma st_consume_room:
  assumes "st_ok buf" "st_consume n buf = Inr buf'" "0 < n"
  shows "room_kept buf buf'"
  using assms st_data_length [OF assms(1)]
  by (auto simp: st_consume_def bind_run_eq_Inr assert_run_def room_kept_def st_tailbytes_def st_data_def st_fullbytes_def st_ok_def split: if_splits)

lemma bo_flush_loop_ok:
  assumes "writes_to wr written" "st_ok (bo_buf b)" "0 \<le> so_far"
  shows "\<exists>ret b'. bo_flush_loop wr so_far b = Some (Inr (ret, b')) \<and> st_ok (bo_buf b') \<and> bo_out written b' = bo_out written b \<and>
    bo_limit b' = bo_limit b \<and> (0 \<le> ret \<longrightarrow> st_data (bo_buf b') = []) \<and> room_kept (bo_buf b) (bo_buf b') \<and> (writes_all wr \<longrightarrow> 0 \<le> ret)"
  using assms(2,3)
proof (induction "st_fullbytes (bo_buf b)" arbitrary: b so_far rule: less_induct)
  case less
  note len = st_data_length [OF less(2)]
  show ?case
  proof (cases "0 < st_fullbytes (bo_buf b)")
    case False
    then show ?thesis using len less(2,3) by (subst bo_flush_loop.simps) simp
  next
    case True
    obtain cc c where wr: "wr (st_data (bo_buf b)) (bo_client b) = (cc, c)" by (metis surj_pair)
    have ne: "st_data (bo_buf b) \<noteq> []" using True len by auto
    note client = assms(1) [unfolded writes_to_def, rule_format, OF this wr]
    show ?thesis
    proof (cases "0 < cc")
      case False
      then have "bo_flush_loop wr so_far b = Some (Inr (cc, b\<lparr>bo_client := c\<rparr>))"
        using client True by (subst bo_flush_loop.simps) (simp add: wr)
      moreover have "\<not> writes_all wr" using False ne wr unfolding writes_all_def by (metis fst_conv)
      ultimately show ?thesis using client False less(2) by (simp add: bo_out_def)
    next
      case pos: True
      then obtain buf where buf: "st_consume (nat cc) (bo_buf b) = Inr buf" "st_ok buf" "st_data buf = drop (nat cc) (st_data (bo_buf b))"
        using st_consume_ok [OF less(2), of "nat cc"] client by auto
      have room: "room_kept (bo_buf b) buf" using st_consume_room [OF less(2) buf(1)] pos by simp
      let ?b = "b\<lparr>bo_client := c, bo_buf := buf\<rparr>"
      have "st_fullbytes buf = st_fullbytes (bo_buf b) - nat cc"
        using st_data_length [OF buf(2)] buf(3) len by simp
      then have small: "st_fullbytes (bo_buf ?b) < st_fullbytes (bo_buf b)" using pos True by simp
      have e: "bo_flush_loop wr so_far b = bo_flush_loop wr (so_far + cc) ?b"
        using pos True by (subst bo_flush_loop.simps) (simp add: wr buf(1))
      have out: "bo_out written ?b = bo_out written b" using client pos buf(3) by (simp add: bo_out_def)
      have ok: "st_ok (bo_buf ?b)" "0 \<le> so_far + cc" using buf(2) pos less(3) by simp_all
      obtain ret b' where r: "bo_flush_loop wr (so_far + cc) ?b = Some (Inr (ret, b'))" "st_ok (bo_buf b')" "bo_out written b' = bo_out written ?b"
          "bo_limit b' = bo_limit ?b" "0 \<le> ret \<longrightarrow> st_data (bo_buf b') = []" "room_kept (bo_buf ?b) (bo_buf b')" "writes_all wr \<longrightarrow> 0 \<le> ret"
        using less(1) [OF small ok] by blast
      have "room_kept (bo_buf b) (bo_buf b')"
        using room_kept_trans [OF room _ st_tailbytes_le st_tailbytes_le] r(6) by simp
      then show ?thesis using r unfolding e out by simp
    qed
  qed
qed

lemma bo_flush_ok:
  assumes "writes_to wr written" "st_ok (bo_buf b)"
  shows "\<exists>ret b'. bo_flush wr b = Some (Inr (ret, b')) \<and> st_ok (bo_buf b') \<and> bo_out written b' = bo_out written b \<and>
    bo_limit b' = bo_limit b \<and> (0 \<le> ret \<longrightarrow> st_data (bo_buf b') = []) \<and> room_kept (bo_buf b) (bo_buf b') \<and> (writes_all wr \<longrightarrow> 0 \<le> ret)"
  using bo_flush_loop_ok [OF assms] by (simp add: bo_flush_def)

lemma bo_flush_over_ok:
  assumes "writes_to wr written" "st_ok (bo_buf b)"
  shows "\<exists>b'. bo_flush_over wr ret b = Some (Inr (ret, b')) \<and> st_ok (bo_buf b') \<and> bo_out written b' = bo_out written b \<and>
    room_kept (bo_buf b) (bo_buf b')"
proof (cases "0 < bo_limit b \<and> bo_limit b < st_fullbytes (bo_buf b)")
  case True
  obtain r b' where "bo_flush wr b = Some (Inr (r, b'))" "st_ok (bo_buf b')" "bo_out written b' = bo_out written b" "room_kept (bo_buf b) (bo_buf b')"
    using bo_flush_ok [OF assms] by blast
  then show ?thesis using True by (simp add: bo_flush_over_def)
next
  case False
  then show ?thesis using assms(2) by (auto simp: bo_flush_over_def)
qed

lemma bo_write_ok:
  assumes "writes_to wr written" "st_ok (bo_buf b)" "0 < len" "len \<le> length bp"
  shows "\<exists>b'. bo_write wr junk bp len b = Some (Inr (int len, b')) \<and> st_ok (bo_buf b') \<and> bo_out written b' = bo_out written b @ take len bp"
proof -
  obtain buf where buf: "st_put_nat junk (take len bp) (bo_buf b) = Inr buf" "st_ok buf" "st_data buf = st_data (bo_buf b) @ take len bp"
    using st_put_ok [OF assms(2)] by blast
  have "st_ok (bo_buf (b\<lparr>bo_buf := buf\<rparr>))" using buf(2) by simp
  from bo_flush_over_ok [OF assms(1) this, of "int len"] show ?thesis
    using buf assms(3,4) by (auto simp: bo_write_def Let_def bo_out_def)
qed

lemma bo_write_string:
  assumes "writes_to wr written" "st_ok (bo_buf b)" "0 \<notin> set s" "s \<noteq> []"
  shows "\<exists>b'. bo_write wr junk (s @ 0 # rest) 0 b = Some (Inr (int (length s), b')) \<and> st_ok (bo_buf b') \<and>
    bo_out written b' = bo_out written b @ s"
proof -
  have t: "takeWhile (\<lambda>x. x \<noteq> 0) (s @ 0 # rest) = s" using assms(3) by (induction s) auto
  have "bo_write wr junk (s @ 0 # rest) 0 b = bo_write wr junk (s @ 0 # rest) (length s) b"
    using assms(4) by (simp add: bo_write_def t Let_def)
  then show ?thesis using bo_write_ok [OF assms(1,2), of "length s" "s @ 0 # rest" junk] assms(4) by simp
qed

text \<open>When a text can be formatted, and what arrives of it.\<close>

definition formats :: "bool \<Rightarrow> nat \<Rightarrow> bytes \<Rightarrow> bool" where
  "formats args room t \<longleftrightarrow> length t < room \<or> \<not> args \<and> 0 < room"

definition text_out :: "nat \<Rightarrow> bytes \<Rightarrow> bytes" where
  "text_out room t = (if length t < room then t else butlast t @ [0])"

lemma st_fill_room:
  "st_fill n b = Inr b' \<Longrightarrow> st_mem b' = st_mem b \<and> st_tailbytes b = st_tailbytes b' + n"
  by (auto simp: st_fill_def bind_run_eq_Inr assert_run_def st_tailbytes_def split: if_splits)

lemma st_reserve_mem:
  assumes "st_ok b" "st_reserve_nat junk n b = Inr b'"
  shows "length (st_mem b) \<le> length (st_mem b')"
  using assms st_moveup_ok(4) [OF assms(1)]
  by (auto simp: st_reserve_nat_def st_realloc_def Let_def bind_run_eq_Inr split: if_splits)

lemma bo_vformat_buf_ok:
  assumes "writes_to wr written" "st_ok (bo_buf b)" "formats args (st_tailbytes (bo_buf b)) t"
  shows "\<exists>b'. bo_vformat_buf wr junk args t b = Some (Inr (int (length t), b')) \<and> st_ok (bo_buf b') \<and>
    bo_out written b' = bo_out written b @ text_out (st_tailbytes (bo_buf b)) t \<and> length (st_mem (bo_buf b)) \<le> length (st_mem (bo_buf b')) \<and>
    (length t < st_tailbytes (bo_buf b) \<longrightarrow> st_tailbytes (bo_buf b) \<le> st_tailbytes (bo_buf b') + length t) \<and>
    (t \<noteq> [] \<longrightarrow> st_data (bo_buf b') = [] \<longrightarrow> st_tailbytes (bo_buf b') = length (st_mem (bo_buf b')))"
proof -
  let ?buf = "bo_buf b" let ?n = "st_tailbytes ?buf"
  have l: "length (snprintf_bytes ?n t) \<le> ?n" by (auto simp: snprintf_bytes_def)
  have pos: "0 < ?n" using assms(3) by (auto simp: formats_def)
  have "\<exists>buf'. bind_run (mem_write (st_end ?buf) (snprintf_bytes ?n t) (st_mem ?buf)) (\<lambda>mem.
       let buf = ?buf\<lparr>st_mem := mem\<rparr> in
       bind_run (if ?n \<le> length t
           then bind_run (st_reserve_nat junk (length t) buf) (\<lambda>buf.
             if args then Inl Undefined
             else bind_run (mem_write (st_end buf) (snprintf_bytes (length t) t) (st_mem buf)) (\<lambda>mem.
             Inr (buf\<lparr>st_mem := mem\<rparr>)))
           else Inr buf) (st_fill (length t))) = Inr buf' \<and> st_ok buf' \<and> st_data buf' = st_data ?buf @ text_out ?n t \<and>
      length (st_mem ?buf) \<le> length (st_mem buf') \<and> (length t < ?n \<longrightarrow> ?n \<le> st_tailbytes buf' + length t)"
  proof (cases "?n \<le> length t")
    case False
    then have s: "snprintf_bytes ?n t = t @ [0]" by (simp add: snprintf_bytes_def)
    then obtain m buf' where m: "mem_write (st_end ?buf) (t @ [0]) (st_mem ?buf) = Inr m" "length m = length (st_mem ?buf)"
        "st_fill (length t) (?buf\<lparr>st_mem := m\<rparr>) = Inr buf'" "st_ok buf'" "st_data buf' = st_data ?buf @ t"
      using st_write_fill [OF assms(2) l, of "length t"] by auto
    have "st_mem buf' = m" "st_tailbytes (?buf\<lparr>st_mem := m\<rparr>) = st_tailbytes buf' + length t"
      using st_fill_room [OF m(3)] by simp_all
    then have "length (st_mem buf') = length (st_mem ?buf)" "?n = st_tailbytes buf' + length t"
      using m(2) by (simp_all add: st_tailbytes_def)
    then show ?thesis using m s False by (auto simp: text_out_def Let_def)
  next
    case True
    then have na: "\<not> args" using assms(3) by (simp add: formats_def)
    obtain m where m: "mem_write (st_end ?buf) (snprintf_bytes ?n t) (st_mem ?buf) = Inr m" "st_ok (?buf\<lparr>st_mem := m\<rparr>)"
        "st_data (?buf\<lparr>st_mem := m\<rparr>) = st_data ?buf" "length m = length (st_mem ?buf)"
      using st_write_fill [OF assms(2) l, of 0] by auto
    obtain buf where buf: "st_reserve_nat junk (length t) (?buf\<lparr>st_mem := m\<rparr>) = Inr buf" "st_ok buf" "st_data buf = st_data ?buf"
        "length t \<le> st_tailbytes buf"
      using st_reserve_ok [OF m(2), of junk "length t"] m(3) by auto
    have grows: "length (st_mem ?buf) \<le> length (st_mem buf)" using st_reserve_mem [OF m(2) buf(1)] m(4) by simp
    have s: "length (snprintf_bytes (length t) t) = length t" "take (length t) (snprintf_bytes (length t) t) = text_out ?n t"
      using True pos by (cases t; simp add: snprintf_bytes_def text_out_def butlast_conv_take)+
    from st_write_fill [OF buf(2), of "snprintf_bytes (length t) t" "length t"] buf(4) s
    obtain m2 buf' where "mem_write (st_end buf) (snprintf_bytes (length t) t) (st_mem buf) = Inr m2" "length m2 = length (st_mem buf)"
        "st_fill (length t) (buf\<lparr>st_mem := m2\<rparr>) = Inr buf'" "st_ok buf'" "st_data buf' = st_data buf @ text_out ?n t" by auto
    moreover from this(3) have "length (st_mem buf') = length m2" by (auto simp: st_fill_def bind_run_eq_Inr)
    ultimately show ?thesis using True na m(1) buf(1,3) grows by (simp add: Let_def)
  qed
  then obtain buf' where r: "bo_vformat_buf wr junk args t b = bo_flush_over wr (int (length t)) (b\<lparr>bo_buf := buf'\<rparr>)"
      "st_ok buf'" "st_data buf' = st_data ?buf @ text_out ?n t" "length (st_mem ?buf) \<le> length (st_mem buf')"
      "length t < ?n \<longrightarrow> ?n \<le> st_tailbytes buf' + length t"
    using pos unfolding bo_vformat_buf_def Let_def by auto
  have "st_ok (bo_buf (b\<lparr>bo_buf := buf'\<rparr>))" using r(2) by simp
  from bo_flush_over_ok [OF assms(1) this, of "int (length t)"] obtain b' where
    b': "bo_flush_over wr (int (length t)) (b\<lparr>bo_buf := buf'\<rparr>) = Some (Inr (int (length t), b'))" "st_ok (bo_buf b')"
      "bo_out written b' = bo_out written (b\<lparr>bo_buf := buf'\<rparr>)" "room_kept buf' (bo_buf b')" by auto
  have "t \<noteq> [] \<Longrightarrow> st_data buf' \<noteq> []" using r(3) by (auto simp: text_out_def)
  then show ?thesis using r b' by (auto simp: bo_out_def room_kept_def)
qed

lemma bo_vformat_buf_fault:
  assumes "st_ok (bo_buf b)" "\<not> formats args (st_tailbytes (bo_buf b)) t"
  shows "bo_vformat_buf wr junk args t b = Some (Inl (if st_tailbytes (bo_buf b) = 0 then Assert_failed else Undefined))"
proof (cases "st_tailbytes (bo_buf b) = 0")
  case True
  then show ?thesis by (simp add: bo_vformat_buf_def)
next
  case False
  let ?buf = "bo_buf b" let ?n = "st_tailbytes ?buf"
  have "length (snprintf_bytes ?n t) \<le> ?n" by (auto simp: snprintf_bytes_def)
  then obtain m where m: "mem_write (st_end ?buf) (snprintf_bytes ?n t) (st_mem ?buf) = Inr m" "st_ok (?buf\<lparr>st_mem := m\<rparr>)"
    using st_write_fill [OF assms(1), of "snprintf_bytes ?n t" 0] by auto
  from st_reserve_ok [OF this(2), of junk "length t"] show ?thesis
    using False assms(2) m(1) by (auto simp: bo_vformat_buf_def formats_def)
qed

lemma bo_printf_ok:
  assumes "writes_to wr written" "st_ok (bo_buf b)" "formats args (st_tailbytes (bo_buf b)) t"
  shows "\<exists>b'. bo_printf wr junk args t b = Some (Inr (int (length t), b')) \<and> st_ok (bo_buf b') \<and>
    bo_out written b' = bo_out written b @ text_out (st_tailbytes (bo_buf b)) t \<and> length (st_mem (bo_buf b)) \<le> length (st_mem (bo_buf b')) \<and>
    (writes_all wr \<longrightarrow> t \<noteq> [] \<longrightarrow> st_data (bo_buf b') = [] \<and> st_tailbytes (bo_buf b') = length (st_mem (bo_buf b')))"
proof -
  obtain b1 where b1: "bo_vformat_buf wr junk args t b = Some (Inr (int (length t), b1))" "st_ok (bo_buf b1)"
      "bo_out written b1 = bo_out written b @ text_out (st_tailbytes (bo_buf b)) t" "length (st_mem (bo_buf b)) \<le> length (st_mem (bo_buf b1))"
      "t \<noteq> [] \<longrightarrow> st_data (bo_buf b1) = [] \<longrightarrow> st_tailbytes (bo_buf b1) = length (st_mem (bo_buf b1))"
    using bo_vformat_buf_ok [OF assms] by blast
  obtain r b2 where b2: "bo_flush wr b1 = Some (Inr (r, b2))" "st_ok (bo_buf b2)" "bo_out written b2 = bo_out written b1"
      "0 \<le> r \<longrightarrow> st_data (bo_buf b2) = []" "room_kept (bo_buf b1) (bo_buf b2)" "writes_all wr \<longrightarrow> 0 \<le> r"
    using bo_flush_ok [OF assms(1) b1(2)] by blast
  have "st_tailbytes (bo_buf b2) = length (st_mem (bo_buf b2))" if "t \<noteq> []" "st_data (bo_buf b2) = []"
  proof (cases "st_data (bo_buf b1) = []")
    case True
    then have "bo_flush wr b1 = Some (Inr (0, b1))"
      using st_data_length [OF b1(2)] by (simp add: bo_flush_def bo_flush_loop.simps)
    then show ?thesis using b1(5) b2(1) True that by auto
  next
    case False
    then show ?thesis using b2(5) that(2) by (simp add: room_kept_def)
  qed
  then show ?thesis using b1 b2 by (auto simp: bo_printf_def room_kept_def)
qed

lemma bo_printf_fault:
  assumes "st_ok (bo_buf b)" "\<not> formats args (st_tailbytes (bo_buf b)) t"
  shows "bo_printf wr junk args t b = Some (Inl (if st_tailbytes (bo_buf b) = 0 then Assert_failed else Undefined))"
  using bo_vformat_buf_fault [OF assms] by (simp add: bo_printf_def)

text \<open>
  Property C36. \<open>read_line\<close> on a client that hands out a finite stream returns: either the bytes of the input up to and including the first
  newline, which it takes from the input whatever pieces they arrived in, or, with nothing taken, 0 when the stream has ended
  without a newline, or the client's error.
\<close>

theorem read_line_correct:
  assumes "reads_from rd content" "st_ok (bi_buf b)" "nl \<noteq> []"
  shows "\<exists>cc line b'. read_line rd junk nl timeout b = Some (Inr (cc, line, b')) \<and> st_ok (bi_buf b') \<and>
    (if 0 < cc then \<exists>i. first_at nl (bi_pending content b) i \<and> nat cc = i + length nl \<and>
         line = take (nat cc) (bi_pending content b) \<and> bi_pending content b' = drop (nat cc) (bi_pending content b)
     else line = [] \<and> bi_pending content b' = bi_pending content b \<and>
       (cc = 0 \<longrightarrow> (\<forall>j. take (length nl) (drop j (bi_pending content b)) \<noteq> nl)))"
proof -
  obtain cc line b' where "read_line rd junk nl timeout b = Some (Inr (cc, line, b'))" "st_ok (bi_buf b')"
    "if 0 < cc then \<exists>i. first_at nl (bi_pending content b) i \<and> nat cc = i + length nl \<and>
         line = take (nat cc) (bi_pending content b) \<and> bi_pending content b' = drop (nat cc) (bi_pending content b)
     else line = [] \<and> bi_pending content b' = bi_pending content b \<and>
       (cc = 0 \<or> reads_all rd content \<longrightarrow> (\<forall>j. take (length nl) (drop j (bi_pending content b)) \<noteq> nl))"
    using read_line_spec [OF assms] by blast
  then show ?thesis by (intro exI [of _ cc] exI [of _ line] exI [of _ b']) (auto split: if_splits)
qed

text \<open>A client whose reads and writes are of at most two bytes.\<close>

definition pair_reader :: "bytes reader" where
  "pair_reader timeout n c = ((int (length (take (min 2 n) c)), take (min 2 n) c), drop (min 2 n) c)"

definition pair_writer :: "bytes writer" where
  "pair_writer d c = (int (length (take 2 d)), c @ take 2 d)"

lemma pair_reader: "reads_from pair_reader id"
  by (auto simp: reads_from_def pair_reader_def)

lemma pair_writer: "writes_to pair_writer id"
  by (auto simp: writes_to_def pair_writer_def min_def)

lemma read_line_correct_witness:
  "\<exists>cc line b'. read_line pair_reader (\<lambda>_. 0) [13, 10] (- 1) (bi_init (\<lambda>_. 0) [72, 13, 10, 10]) = Some (Inr (cc, line, b')) \<and>
     (0 < cc \<longrightarrow> take 2 (drop (nat cc - 2) [72, 13, 10, 10]) = [13, 10 :: byte])"
proof -
  let ?b = "bi_init (\<lambda>_. 0) [72, 13, 10, 10 :: byte]"
  have ok: "st_ok (bi_buf ?b)" "bi_pending id ?b = [72, 13, 10, 10]" by (simp_all add: bi_init_def st_init_ok bi_pending_def)
  have "[13, 10 :: byte] \<noteq> []" by simp
  from read_line_correct [OF pair_reader ok(1) this, of "\<lambda>_. 0" "- 1"] show ?thesis unfolding ok(2) by (auto simp: first_at_def numeral_2_eq_2 split: if_splits)
qed

text \<open>
  Also. What \<open>printf\<close> on a BufferedOutput adds to the bytes that are written or wait to be: the formatted text, if it is
  shorter than the free space of the buffer. A text that is not is formatted again, into room for exactly its length: a zero byte takes the place of
  its last character, although the whole length is returned. With no free space at all an assertion fails, and
  with arguments the second formatting is undefined.
\<close>

theorem printf_adds_text:
  assumes "writes_to wr written" "st_ok (bo_buf b)"
  shows "if st_tailbytes (bo_buf b) = 0 then bo_printf wr junk args t b = Some (Inl Assert_failed)
    else if args \<and> st_tailbytes (bo_buf b) \<le> length t then bo_printf wr junk args t b = Some (Inl Undefined)
    else \<exists>b'. bo_printf wr junk args t b = Some (Inr (int (length t), b')) \<and> st_ok (bo_buf b') \<and>
      bo_out written b' = bo_out written b @ (if length t < st_tailbytes (bo_buf b) then t else butlast t @ [0])"
  using bo_printf_ok [OF assms, of args t junk] bo_printf_fault [OF assms(2), of args t wr junk]
  by (auto simp: formats_def text_out_def)

lemma printf_adds_text_witness:
  "\<exists>b'. bo_printf pair_writer (\<lambda>_. 0) False (replicate 1024 65) (bo_init (\<lambda>_. 0) []) = Some (Inr (1024, b')) \<and>
     bo_out id b' = replicate 1023 65 @ [0]"
proof -
  have ok: "st_ok (bo_buf (bo_init (\<lambda>_. 0) ([] :: bytes)))" by (simp add: bo_init_def st_init_ok)
  have out: "bo_out id (bo_init (\<lambda>_. 0) ([] :: bytes)) = []" by (simp add: bo_out_def bo_init_def st_init_ok)
  have tail: "st_tailbytes (bo_buf (bo_init (\<lambda>_. 0) ([] :: bytes))) = 1024" by (simp add: bo_init_def st_init_def st_tailbytes_def)
  have last: "butlast (replicate 1024 (65 :: byte)) = replicate 1023 65" by (simp add: butlast_conv_take)
  show ?thesis using printf_adds_text [OF pair_writer ok, of "\<lambda>_. 0" False "replicate 1024 65"] unfolding out tail last by auto
qed

end
