(* ===== verification/Smtp.thy ===== *)
theory Smtp
  imports BufferedIO
begin

text \<open>
  smtp/SMTP.cc and smtp/BasicSMTP.cc: both ends of an SMTP session over buffered input and output, and the sender and the
  handler for whole messages. The virtual methods of a handler are a record of functions on its state; what a
  sender's methods return is a record of values. A loop that reads a client that never ends is the value None. The
  logging is left out.
\<close>

section \<open>C strings\<close>

definition c_string :: "bytes \<Rightarrow> bytes" where
  "c_string s = takeWhile (\<lambda>c. c \<noteq> 0) s"

definition strcasecmp_eq :: "bytes \<Rightarrow> string \<Rightarrow> bool" where
  "strcasecmp_eq s t \<longleftrightarrow> map lower_byte (c_string s) = map lower_byte (cstr t)"

definition strncasecmp_eq :: "bytes \<Rightarrow> string \<Rightarrow> nat \<Rightarrow> bool" where
  "strncasecmp_eq s t n \<longleftrightarrow> map lower_byte (take n (c_string s)) = map lower_byte (take n (cstr t))"

text \<open>\<open>%d\<close> and \<open>strtoul(s, &end, 10)\<close> of a few characters: the value and how many were read.\<close>

fun nat_digits :: "nat \<Rightarrow> bytes" where
  "nat_digits n = (if n < 10 then [48 + of_nat n] else nat_digits (n div 10) @ [48 + of_nat (n mod 10)])"

definition int_digits :: "int \<Rightarrow> bytes" where
  "int_digits i = (if i < 0 then 45 # nat_digits (nat (- i)) else nat_digits (nat i))"

definition strtoul10 :: "bytes \<Rightarrow> int \<times> nat" where
  "strtoul10 s =
    (let blanks = takeWhile (\<lambda>c. c = 32 \<or> 9 \<le> c \<and> c \<le> 13) s; r = drop (length blanks) s;
         sign = takeWhile (\<lambda>c. c = 43 \<or> c = 45) (take 1 r); ds = takeWhile (\<lambda>c. 48 \<le> c \<and> c \<le> 57) (drop (length sign) r);
         v = foldl (\<lambda>n d. 10 * n + int (unat d - 48)) 0 ds in
     if ds = [] then (0, 0) else (if sign = [45] then - v else v, length blanks + length sign + length ds))"

text \<open>The next step of a call that may not return and may fail.\<close>

definition bind_call :: "('e + 'a) option \<Rightarrow> ('a \<Rightarrow> ('e + 'b) option) \<Rightarrow> ('e + 'b) option" where
  "bind_call m f = Option.bind m (\<lambda>r. case r of Inl e \<Rightarrow> Some (Inl e) | Inr x \<Rightarrow> f x)"

lemma bind_call_simps [simp]: "bind_call (Some (Inr x)) f = f x" "bind_call (Some (Inl e)) f = Some (Inl e)" "bind_call None f = None"
  by (simp_all add: bind_call_def)

lemma bind_call_mono [partial_function_mono]:
  assumes "mono_option B" "\<And>y. mono_option (\<lambda>f. C y f)"
  shows "mono_option (\<lambda>f. bind_call (B f) (\<lambda>y. C y f))"
  unfolding bind_call_def
proof (rule bind_mono [OF assms(1)])
  fix r
  show "mono_option (\<lambda>f. case r of Inl e \<Rightarrow> Some (Inl e) | Inr x \<Rightarrow> C x f)"
    by (cases r) (simp_all add: assms(2) option.const_mono)
qed

section \<open>Sessions\<close>

record ('c, 'd) smtp =
  sm_in :: "'c binput"
  sm_out :: "'d boutput"
  sm_domain :: bytes
  sm_timeout :: int

text \<open>The operations on the streams, with the functions of the clients and of the allocator as arguments.\<close>

record ('c, 'd) smtp_env =
  se_read :: "'c reader"
  se_write :: "'d writer"
  se_junk :: "nat \<Rightarrow> byte"

definition nl :: bytes where
  "nl = [13, 10]"

definition sm_read_line :: "('c, 'd) smtp_env \<Rightarrow> ('c, 'd) smtp \<Rightarrow> (int \<times> bytes \<times> ('c, 'd) smtp) run option" where
  "sm_read_line env sm = bind_call (read_line (se_read env) (se_junk env) nl (sm_timeout sm) (sm_in sm)) (\<lambda>(cc, line, b).
     Some (Inr (cc, line, sm\<lparr>sm_in := b\<rparr>)))"

definition sm_output :: "('d boutput \<Rightarrow> (int \<times> 'd boutput) run option) \<Rightarrow> ('c, 'd) smtp \<Rightarrow> (int \<times> ('c, 'd) smtp) run option" where
  "sm_output f sm = bind_call (f (sm_out sm)) (\<lambda>(ret, b). Some (Inr (ret, sm\<lparr>sm_out := b\<rparr>)))"

definition sm_printf :: "('c, 'd) smtp_env \<Rightarrow> bool \<Rightarrow> bytes \<Rightarrow> ('c, 'd) smtp \<Rightarrow> (int \<times> ('c, 'd) smtp) run option" where
  "sm_printf env args t = sm_output (bo_printf (se_write env) (se_junk env) args t)"

definition sm_write :: "('c, 'd) smtp_env \<Rightarrow> bytes \<Rightarrow> nat \<Rightarrow> ('c, 'd) smtp \<Rightarrow> (int \<times> ('c, 'd) smtp) run option" where
  "sm_write env bp len = sm_output (bo_write (se_write env) (se_junk env) bp len)"

definition sm_puts :: "('c, 'd) smtp_env \<Rightarrow> string \<Rightarrow> ('c, 'd) smtp \<Rightarrow> (int \<times> ('c, 'd) smtp) run option" where
  "sm_puts env s = sm_write env (cstr s @ [0]) 0"

definition crlf :: string where
  "crlf = [CHR 0x0D, CHR 0x0A]"

definition response_code :: "int \<Rightarrow> bytes \<Rightarrow> bytes option" where
  "response_code code domain =
    (if code = 211 then Some (cstr (''System status, or system help reply'' @ crlf))
     else if code = 214 then Some (cstr (''Help message'' @ crlf))
     else if code = 220 then Some (domain @ cstr ('' Service ready'' @ crlf))
     else if code = 221 then Some (domain @ cstr ('' Service closing transmission channel'' @ crlf))
     else if code = 250 then Some (cstr (''Requested mail action okay, completed'' @ crlf))
     else if code = 251 then Some (cstr (''User not local; will forward to nowhere.net'' @ crlf))
     else if code = 354 then Some (cstr (''Start mail input; end with <CRLF>.<CRLF>'' @ crlf))
     else if code = 421 then Some (cstr (''tierstore Service not available, closing transmission channel'' @ crlf))
     else if code = 450 then Some (cstr (''Requested mail action not taken: mailbox unavailable'' @ crlf))
     else if code = 451 then Some (cstr (''Requested action aborted: local error in processing'' @ crlf))
     else if code = 452 then Some (cstr (''Requested action not taken: insufficient system storage'' @ crlf))
     else if code = 500 then Some (cstr (''Syntax error, command unrecognized'' @ crlf))
     else if code = 501 then Some (cstr (''Syntax error in parameters or arguments'' @ crlf))
     else if code = 502 then Some (cstr (''Command not implemented'' @ crlf))
     else if code = 503 then Some (cstr (''Bad sequence of commands'' @ crlf))
     else if code = 504 then Some (cstr (''Command parameter not implemented'' @ crlf))
     else if code = 550 then Some (cstr (''Requested action not taken: mailbox unavailable'' @ crlf))
     else if code = 551 then Some (cstr (''User not local; please try nowhere.net'' @ crlf))
     else if code = 552 then Some (cstr (''Requested mail action aborted: exceeded storage allocation'' @ crlf))
     else if code = 553 then Some (cstr (''Requested action not taken: mailbox name not allowed'' @ crlf))
     else if code = 554 then Some (cstr (''Transaction failed'' @ crlf))
     else None)"

text \<open>
  \<open>printf\<close> of a null format is undefined. Two of the formats have a conversion, for the domain; the others leave the argument alone.
\<close>

definition send_response :: "('c, 'd) smtp_env \<Rightarrow> int \<Rightarrow> ('c, 'd) smtp \<Rightarrow> (int \<times> ('c, 'd) smtp) run option" where
  "send_response env code sm =
     bind_call (sm_output (bo_vformat_buf (se_write env) (se_junk env) True (int_digits code @ [32])) sm) (\<lambda>(err, sm).
       if err < 0 then Some (Inr (err, sm))
       else case response_code code (sm_domain sm) of None \<Rightarrow> Some (Inl Undefined) | Some t \<Rightarrow> sm_printf env (code = 220 \<or> code = 221) t sm)"

definition process_response :: "('c, 'd) smtp_env \<Rightarrow> int \<Rightarrow> ('c, 'd) smtp \<Rightarrow> (int \<times> ('c, 'd) smtp) run option" where
  "process_response env expected_code sm = bind_call (sm_read_line env sm) (\<lambda>(cc, line, sm).
     Some (Inr (
       if cc < 0 then - 1 else if cc = 0 then 221 else if cc < 3 then 500
       else case strtoul10 (c_string (take 3 line)) of (code, end) \<Rightarrow>
         if end \<noteq> 3 then 501 else if code \<noteq> expected_code then 503 else 0, sm)))"

section \<open>The client\<close>

record sender =
  sd_helo :: bytes
  sd_from :: bytes
  sd_to :: "bytes list"
  sd_received :: bytes
  sd_data :: bytes

text \<open>\<open>find_first_of\<close> of a line end from \<open>start\<close>, or the length.\<close>

definition line_end :: "bytes \<Rightarrow> nat \<Rightarrow> nat" where
  "line_end msg start = start + length (takeWhile (\<lambda>c. c \<noteq> 13 \<and> c \<noteq> 10) (drop start msg))"

text \<open>The loop over the lines of the message: it escapes a dot and ends each line with a newline. A position never passes the end.\<close>

function send_lines :: "('c, 'd) smtp_env \<Rightarrow> bytes \<Rightarrow> nat \<Rightarrow> ('c, 'd) smtp \<Rightarrow> (unit \<times> ('c, 'd) smtp) run option" where
  "send_lines env msg start sm =
    (let end = line_end msg start; bp = drop start msg in
     bind_call (if hd (bp @ [0]) = 46 then sm_puts env ''.'' sm else Some (Inr (0, sm))) (\<lambda>(_, sm).
     bind_call (if end \<noteq> start then sm_write env bp (end - start) sm else Some (Inr (0, sm))) (\<lambda>(_, sm).
     bind_call (sm_puts env crlf sm) (\<lambda>(_, sm).
       if length msg \<le> end then Some (Inr ((), sm))
       else let start = (if hd (drop (end + 1) msg @ [0]) = 10 then end + 2 else end + 1) in
         if length msg \<le> start then Some (Inr ((), sm)) else send_lines env msg start sm))))"
  by pat_completeness auto
termination
  by (relation "measure (\<lambda>(env, msg, start, sm). length msg - start)")
    (auto simp: line_end_def split: if_splits)

declare send_lines.simps [simp del]

fun send_recipients :: "('c, 'd) smtp_env \<Rightarrow> bytes list \<Rightarrow> ('c, 'd) smtp \<Rightarrow> (int \<times> ('c, 'd) smtp) run option" where
  "send_recipients env [] sm = Some (Inr (0, sm))"
| "send_recipients env (t # ts) sm =
     bind_call (sm_printf env True (cstr ''RCPT TO: '' @ c_string t @ nl) sm) (\<lambda>(_, sm).
     bind_call (process_response env 250 sm) (\<lambda>(err, sm).
     if err \<noteq> 0 then Some (Inr (err, sm)) else send_recipients env ts sm))"

definition send_message :: "('c, 'd) smtp_env \<Rightarrow> bytes \<Rightarrow> bytes \<Rightarrow> ('c, 'd) smtp \<Rightarrow> (unit \<times> ('c, 'd) smtp) run option" where
  "send_message env received data sm =
     bind_call (if received \<noteq> [] then sm_write env received (length received) sm else Some (Inr (0, sm))) (\<lambda>(_, sm).
     bind_call (send_lines env data 0 sm) (\<lambda>(_, sm).
     bind_call (sm_puts env (''.'' @ crlf) sm) (\<lambda>(_, sm).
     bind_call (sm_output (bo_flush (se_write env)) sm) (\<lambda>(_, sm).
       Some (Inr ((), sm))))))"

definition client_session :: "('c, 'd) smtp_env \<Rightarrow> sender \<Rightarrow> bool \<Rightarrow> ('c, 'd) smtp \<Rightarrow> (int \<times> ('c, 'd) smtp) run option" where
  "client_session env sd first_session sm =
     bind_call (if \<not> first_session then Some (Inr (0, sm))
       else bind_call (process_response env 220 sm) (\<lambda>(err, sm).
         if err \<noteq> 0 then Some (Inr (err, sm))
         else bind_call (sm_printf env True (cstr ''HELO '' @ c_string (sd_helo sd) @ nl) sm) (\<lambda>(_, sm). process_response env 250 sm)))
     (\<lambda>(err, sm). if err \<noteq> 0 then Some (Inr (err, sm)) else
     bind_call (sm_printf env True (cstr ''MAIL FROM: '' @ c_string (sd_from sd) @ nl) sm) (\<lambda>(_, sm).
     bind_call (process_response env 250 sm) (\<lambda>(err, sm). if err \<noteq> 0 then Some (Inr (err, sm)) else
     bind_call (send_recipients env (sd_to sd) sm) (\<lambda>(err, sm). if err \<noteq> 0 then Some (Inr (err, sm)) else
     bind_call (sm_printf env False (cstr ''DATA'' @ nl) sm) (\<lambda>(_, sm).
     bind_call (process_response env 354 sm) (\<lambda>(err, sm). if err \<noteq> 0 then Some (Inr (err, sm)) else
     bind_call (send_message env (sd_received sd) (sd_data sd) sm) (\<lambda>(_, sm).
       process_response env 250 sm)))))))"

section \<open>The server\<close>

record 'h handler =
  h_HELO :: "bytes \<Rightarrow> 'h \<Rightarrow> (int \<times> 'h) run"
  h_MAIL :: "bytes \<Rightarrow> 'h \<Rightarrow> (int \<times> 'h) run"
  h_RCPT :: "bytes \<Rightarrow> 'h \<Rightarrow> (int \<times> 'h) run"
  h_RSET :: "'h \<Rightarrow> (int \<times> 'h) run"
  h_QUIT :: "'h \<Rightarrow> (int \<times> 'h) run"
  h_DATA_begin :: "'h \<Rightarrow> (int \<times> 'h) run"
  h_DATA_line :: "bytes \<Rightarrow> 'h \<Rightarrow> (int \<times> 'h) run"
  h_DATA_end :: "'h \<Rightarrow> (int \<times> 'h) run"

text \<open>Writing the zero over the newline of a line that was read; \<open>SKIP_WS\<close>.\<close>

definition cut_line :: "bytes \<Rightarrow> bytes run" where
  "cut_line line = (let n = length line - 2 in
     bind_run (assert_run (2 \<le> length line \<and> line ! n = 13)) (\<lambda>_. Inr (line[n := 0])))"

definition skip_ws :: "bytes \<Rightarrow> bytes option" where
  "skip_ws s = (let r = dropWhile (\<lambda>c. c = 32) s in if hd (r @ [0]) = 0 then None else Some (c_string r))"

definition call_h :: "(int \<times> 'h) run \<Rightarrow> 's \<Rightarrow> (int \<times> 's \<times> 'h) run option" where
  "call_h r sm = Some (bind_run r (\<lambda>(resp, h). Inr (resp, sm, h)))"

partial_function (option) read_message :: "('c, 'd) smtp_env \<Rightarrow> 'h handler \<Rightarrow> ('c, 'd) smtp \<Rightarrow> 'h \<Rightarrow> (int \<times> ('c, 'd) smtp \<times> 'h) run option" where
  "read_message env hd_ops sm h = bind_call (sm_read_line env sm) (\<lambda>(cc, line, sm).
     if cc \<le> 0 then Some (Inr (- 1, sm, h))
     else bind_call (Some (cut_line line)) (\<lambda>mail_line.
       if hd mail_line = 46 \<and> length (c_string mail_line) = 1 then call_h (h_DATA_end hd_ops h) sm
       else bind_call (Some (h_DATA_line hd_ops (c_string (if hd mail_line = 46 then tl mail_line else mail_line)) h)) (\<lambda>(err, h).
         if err \<noteq> 0 then Some (Inr (err, sm, h)) else read_message env hd_ops sm h)))"

definition process_cmd :: "('c, 'd) smtp_env \<Rightarrow> 'h handler \<Rightarrow> ('c, 'd) smtp \<Rightarrow> 'h \<Rightarrow> (int \<times> ('c, 'd) smtp \<times> 'h) run option" where
  "process_cmd env hd_ops sm h = bind_call (sm_read_line env sm) (\<lambda>(cc, line, sm).
     if cc < 0 then Some (Inr (- 1, sm, h)) else if cc = 0 then Some (Inr (0, sm, h)) else if cc < 4 then Some (Inr (500, sm, h))
     else bind_call (Some (cut_line line)) (\<lambda>line.
     let cmd = take 4 line; reply = (\<lambda>code. Some (Inr (code, sm, h))) in
     if strcasecmp_eq cmd ''HELO'' then
       if line ! 4 \<noteq> 32 then reply 501
       else (case skip_ws (drop 5 line) of None \<Rightarrow> reply 501 | Some domain \<Rightarrow> call_h (h_HELO hd_ops domain h) sm)
     else if strcasecmp_eq cmd ''MAIL'' then
       if \<not> strncasecmp_eq line ''MAIL FROM:'' 10 then reply 501
       else (case skip_ws (drop 10 line) of None \<Rightarrow> reply 501 | Some addr \<Rightarrow> call_h (h_MAIL hd_ops addr h) sm)
     else if strcasecmp_eq cmd ''RCPT'' then
       if \<not> strncasecmp_eq line ''RCPT TO:'' 8 then reply 501
       else (case skip_ws (drop 8 line) of None \<Rightarrow> reply 501 | Some to \<Rightarrow> call_h (h_RCPT hd_ops to h) sm)
     else if strcasecmp_eq cmd ''DATA'' then
       bind_call (Some (h_DATA_begin hd_ops h)) (\<lambda>(err, h).
         if err \<noteq> 0 then Some (Inr (err, sm, h))
         else bind_call (send_response env 354 sm) (\<lambda>(_, sm). read_message env hd_ops sm h))
     else if strcasecmp_eq cmd ''RSET'' then call_h (h_RSET hd_ops h) sm
     else if strcasecmp_eq cmd ''NOOP'' then reply 220
     else if strcasecmp_eq cmd ''QUIT'' then
       bind_call (Some (h_QUIT hd_ops h)) (\<lambda>(_, h). Some (Inr (221, sm, h)))
     else if \<exists>c \<in> set [''TURN'', ''SEND'', ''SOML'', ''SAML'', ''VRFY'', ''EXPN'', ''EHLO'']. strcasecmp_eq cmd c then reply 502
     else reply 500))"

partial_function (option) server_loop :: "('c, 'd) smtp_env \<Rightarrow> 'h handler \<Rightarrow> int \<Rightarrow> ('c, 'd) smtp \<Rightarrow> 'h \<Rightarrow> (int \<times> ('c, 'd) smtp \<times> 'h) run option" where
  "server_loop env hd_ops err sm h = bind_call (process_cmd env hd_ops sm h) (\<lambda>(resp, sm, h).
     if 0 < resp
     then bind_call (send_response env resp sm) (\<lambda>(err, sm).
       if resp = 221 then Some (Inr (err, sm, h)) else server_loop env hd_ops err sm h)
     else Some (Inr (err, sm, h)))"

definition server_session :: "('c, 'd) smtp_env \<Rightarrow> 'h handler \<Rightarrow> ('c, 'd) smtp \<Rightarrow> 'h \<Rightarrow> (int \<times> ('c, 'd) smtp \<times> 'h) run option" where
  "server_session env hd_ops sm h = bind_call (send_response env 220 sm) (\<lambda>(err, sm).
     if err < 0 then Some (Inr (err, sm, h)) else server_loop env hd_ops err sm h)"

section \<open>Whole messages\<close>

record message =
  msg_from :: bytes
  msg_to :: "bytes list"
  msg_text :: bytes

definition msg_valid :: "message \<Rightarrow> bool" where
  "msg_valid m \<longleftrightarrow> msg_from m \<noteq> [] \<and> msg_to m \<noteq> [] \<and> msg_text m \<noteq> []"

definition msg_clear :: "message \<Rightarrow> message" where
  "msg_clear m = m\<lparr>msg_from := [], msg_to := [], msg_text := []\<rparr>"

definition basic_sender :: "bytes \<Rightarrow> message \<Rightarrow> sender" where
  "basic_sender helo_domain m =
     \<lparr>sd_helo = helo_domain, sd_from = msg_from m, sd_to = msg_to m, sd_received = [], sd_data = msg_text m\<rparr>"

text \<open>The current message of the handler, and the messages it has passed to \<open>message_recvd\<close>.\<close>

record basic =
  cur_msg :: message
  received :: "message list"

definition basic_MAIL :: "bytes \<Rightarrow> basic \<Rightarrow> (int \<times> basic) run" where
  "basic_MAIL addr h = Inr (if addr = [] then (501, h) else (250, h\<lparr>cur_msg := (cur_msg h)\<lparr>msg_from := addr\<rparr>\<rparr>))"

definition basic_RCPT :: "bytes \<Rightarrow> basic \<Rightarrow> (int \<times> basic) run" where
  "basic_RCPT to h = Inr (if to = [] then (501, h) else (250, h\<lparr>cur_msg := (cur_msg h)\<lparr>msg_to := msg_to (cur_msg h) @ [to]\<rparr>\<rparr>))"

definition basic_DATA_begin :: "basic \<Rightarrow> (int \<times> basic) run" where
  "basic_DATA_begin h = bind_run (assert_run (length (msg_text (cur_msg h)) = 0)) (\<lambda>_. Inr (0, h))"

definition basic_DATA_line :: "bytes \<Rightarrow> basic \<Rightarrow> (int \<times> basic) run" where
  "basic_DATA_line line h = Inr (0, h\<lparr>cur_msg := (cur_msg h)\<lparr>msg_text := msg_text (cur_msg h) @ line @ nl\<rparr>\<rparr>)"

definition basic_DATA_end :: "basic \<Rightarrow> (int \<times> basic) run" where
  "basic_DATA_end h = (let h = (if msg_valid (cur_msg h) then h\<lparr>received := received h @ [cur_msg h]\<rparr> else h) in
     Inr (250, h\<lparr>cur_msg := msg_clear (cur_msg h)\<rparr>))"

definition basic_handler :: "basic handler" where
  "basic_handler = \<lparr>h_HELO = (\<lambda>domain h. Inr (250, h)), h_MAIL = basic_MAIL, h_RCPT = basic_RCPT, h_RSET = (\<lambda>h. Inr (250, h)),
     h_QUIT = (\<lambda>h. Inr (221, h)), h_DATA_begin = basic_DATA_begin, h_DATA_line = basic_DATA_line, h_DATA_end = basic_DATA_end\<rparr>"

lemma basic_handler_sel [simp]:
  "h_DATA_begin basic_handler = basic_DATA_begin" "h_DATA_line basic_handler = basic_DATA_line" "h_DATA_end basic_handler = basic_DATA_end"
  by (simp_all add: basic_handler_def)

section \<open>Lines on the wire\<close>

text \<open>A line of a message, the message of some lines, and what the client sends for them.\<close>

definition plain_line :: "bytes \<Rightarrow> bool" where
  "plain_line l \<longleftrightarrow> 0 \<notin> set l \<and> 10 \<notin> set l \<and> 13 \<notin> set l"

definition lines_text :: "bytes list \<Rightarrow> bytes" where
  "lines_text ls = concat (map (\<lambda>l. l @ nl) ls)"

definition stuffed :: "bytes \<Rightarrow> bytes" where
  "stuffed l = (if hd (l @ [0]) = 46 then 46 # l else l)"

text \<open>A step of an SMTP object that only writes.\<close>

definition wrote :: "('d \<Rightarrow> bytes) \<Rightarrow> bytes \<Rightarrow> ('c, 'd) smtp \<Rightarrow> ('c, 'd) smtp \<Rightarrow> bool" where
  "wrote written d sm sm' \<longleftrightarrow> (\<exists>b. sm' = sm\<lparr>sm_out := b\<rparr> \<and> st_ok (bo_buf b) \<and> bo_out written b = bo_out written (sm_out sm) @ d)"

lemma wrote_nil: "st_ok (bo_buf (sm_out sm)) \<Longrightarrow> wrote written [] sm sm"
  by (auto simp: wrote_def intro: exI [of _ "sm_out sm"])

lemma wrote_trans: "wrote written d1 sm sm1 \<Longrightarrow> wrote written d2 sm1 sm2 \<Longrightarrow> wrote written (d1 @ d2) sm sm2"
  by (auto simp: wrote_def)

lemma wrote_keeps: "wrote written d sm sm' \<Longrightarrow> sm_in sm' = sm_in sm \<and> sm_domain sm' = sm_domain sm \<and> sm_timeout sm' = sm_timeout sm \<and>
    st_ok (bo_buf (sm_out sm')) \<and> bo_out written (sm_out sm') = bo_out written (sm_out sm) @ d"
  by (auto simp: wrote_def)

lemma sm_write_ok:
  assumes "writes_to (se_write env) written" "st_ok (bo_buf (sm_out sm))" "0 < len" "len \<le> length bp"
  shows "\<exists>r sm'. sm_write env bp len sm = Some (Inr (r, sm')) \<and> wrote written (take len bp) sm sm'"
  using bo_write_ok [OF assms, of "se_junk env"] by (auto simp: sm_write_def sm_output_def wrote_def)

lemma sm_puts_ok:
  assumes "writes_to (se_write env) written" "st_ok (bo_buf (sm_out sm))" "0 \<notin> set (cstr s)" "cstr s \<noteq> []"
  shows "\<exists>r sm'. sm_puts env s sm = Some (Inr (r, sm')) \<and> wrote written (cstr s) sm sm'"
  using bo_write_string [OF assms, of "se_junk env" "[]"] by (auto simp: sm_puts_def sm_write_def sm_output_def wrote_def)

lemma crlf_nl: "cstr crlf = nl"
  by (simp add: cstr_def crlf_def nl_def)

text \<open>One round of the loop, at a line that ends with the message or with one of the two characters.\<close>

lemma send_lines_step:
  assumes "writes_to (se_write env) written" "st_ok (bo_buf (sm_out sm))" "plain_line l"
    and "drop start msg = l @ r" "hd (r @ [13]) = 13 \<or> hd (r @ [13]) = 10" "start \<le> length msg"
  shows "\<exists>sm'. wrote written (stuffed l @ nl) sm sm' \<and> send_lines env msg start sm =
    (let next_start = start + length l + (if hd (tl r @ [0]) = 10 then 2 else 1) in
     if length msg \<le> next_start then Some (Inr ((), sm')) else send_lines env msg next_start sm')"
proof -
  have "takeWhile (\<lambda>c. c \<noteq> 13 \<and> c \<noteq> 10) (l @ r) = l"
    using assms(3,5) by (induction l) (cases r; auto simp: plain_line_def)+
  then have end_: "line_end msg start = start + length l" using assms(4) by (simp add: line_end_def)
  have len: "length msg = start + length l + length r"
    using assms(4,6) by (metis append_take_drop_id length_append length_take min.absorb2 add.assoc)
  have dot: "hd ((l @ r) @ [0]) = 46 \<longleftrightarrow> hd (l @ [0]) = 46" using assms(5) by (cases l; cases r) auto
  obtain r1 sm1 where a: "(if hd (drop start msg @ [0]) = 46 then sm_puts env ''.'' sm else Some (Inr (0, sm))) = Some (Inr (r1, sm1))"
      "wrote written (if hd (l @ [0]) = 46 then [46] else []) sm sm1"
    using sm_puts_ok [OF assms(1,2), of "''.''"] wrote_nil [OF assms(2)] unfolding assms(4) dot
    by (cases "hd (l @ [0]) = 46") (auto simp: cstr_def)
  note k1 = wrote_keeps [OF a(2)]
  obtain r2 sm2 where b: "(if line_end msg start \<noteq> start then sm_write env (drop start msg) (line_end msg start - start) sm1 else Some (Inr (0, sm1))) =
        Some (Inr (r2, sm2))" "wrote written l sm1 sm2"
    using sm_write_ok [OF assms(1), of sm1 "length l" "l @ r"] wrote_nil [of sm1 written] k1 unfolding end_ assms(4) by (cases "l = []") auto
  note k2 = wrote_keeps [OF b(2)]
  obtain r3 sm3 where c: "sm_puts env crlf sm2 = Some (Inr (r3, sm3))" "wrote written nl sm2 sm3"
    using sm_puts_ok [OF assms(1), of sm2 crlf] k2 unfolding crlf_nl by (auto simp: nl_def)
  have all: "wrote written (stuffed l @ nl) sm sm3"
    using wrote_trans [OF wrote_trans [OF a(2) b(2)] c(2)] by (auto simp: stuffed_def split: if_splits)
  have behind: "drop (start + length l + 1) msg = tl r"
  proof -
    have "drop (length l + 1) (drop start msg) = tl r" unfolding assms(4) by (simp add: drop_Suc)
    then show ?thesis by (simp add: add.commute add.left_commute)
  qed
  have "send_lines env msg start sm = (if length msg \<le> line_end msg start then Some (Inr ((), sm3))
      else if length msg \<le> (if hd (drop (line_end msg start + 1) msg @ [0]) = 10 then line_end msg start + 2 else line_end msg start + 1)
        then Some (Inr ((), sm3))
        else send_lines env msg (if hd (drop (line_end msg start + 1) msg @ [0]) = 10 then line_end msg start + 2 else line_end msg start + 1) sm3)"
    by (subst send_lines.simps) (simp only: Let_def a(1) b(1) c(1) bind_call_simps prod.case)
  then have "send_lines env msg start sm =
    (let next_start = start + length l + (if hd (tl r @ [0]) = 10 then 2 else 1) in
     if length msg \<le> next_start then Some (Inr ((), sm3)) else send_lines env msg next_start sm3)"
    unfolding end_ behind using len by (cases "r = []") (simp_all add: Let_def)
  then show ?thesis using all by blast
qed

lemma send_lines_ok:
  assumes "writes_to (se_write env) written" "st_ok (bo_buf (sm_out sm))" "ls \<noteq> []" "list_all plain_line ls"
    and "msg = pre @ lines_text ls" "start = length pre"
  shows "\<exists>sm'. send_lines env msg start sm = Some (Inr ((), sm')) \<and> wrote written (lines_text (map stuffed ls)) sm sm'"
  using assms(2-6)
proof (induction ls arbitrary: pre start sm)
  case (Cons l ls)
  have l: "plain_line l" "list_all plain_line ls" using Cons(4) by simp_all
  have msg: "msg = (pre @ l @ nl) @ lines_text ls" using Cons(5) by (simp add: lines_text_def)
  have rest: "drop start msg = l @ nl @ lines_text ls" "start \<le> length msg" using msg Cons(6) by simp_all
  have hd: "hd ((nl @ lines_text ls) @ [13]) = 13 \<or> hd ((nl @ lines_text ls) @ [13]) = 10" by (simp add: nl_def)
  obtain sm3 where w: "wrote written (stuffed l @ nl) sm sm3"
      and "send_lines env msg start sm =
        (let next_start = start + length l + (if hd (tl (nl @ lines_text ls) @ [0]) = 10 then 2 else 1) in
         if length msg \<le> next_start then Some (Inr ((), sm3)) else send_lines env msg next_start sm3)"
    using send_lines_step [OF assms(1) Cons(2) l(1) rest(1) hd rest(2)] by blast
  moreover have "length msg \<le> start + length l + 2 \<longleftrightarrow> ls = []"
    using msg Cons(6) by (cases ls) (simp_all add: nl_def lines_text_def)
  ultimately have step: "send_lines env msg start sm =
      (if ls = [] then Some (Inr ((), sm3)) else send_lines env msg (start + length l + 2) sm3)"
    by (simp add: Let_def nl_def)
  show ?case
  proof (cases "ls = []")
    case True
    then show ?thesis using step w by (simp add: lines_text_def)
  next
    case False
    have ok: "st_ok (bo_buf (sm_out sm3))" using wrote_keeps [OF w] by blast
    have "start + length l + 2 = length (pre @ l @ nl)" using Cons(6) by (simp add: nl_def)
    from Cons(1) [OF ok False l(2) msg this] obtain sm' where "send_lines env msg (start + length l + 2) sm3 = Some (Inr ((), sm'))"
        "wrote written (lines_text (map stuffed ls)) sm3 sm'" by blast
    then show ?thesis using step False wrote_trans [OF w] by (auto simp: lines_text_def)
  qed
qed simp

lemma send_message_ok:
  assumes "writes_to (se_write env) written" "st_ok (bo_buf (sm_out sm))" "ls \<noteq> []" "list_all plain_line ls"
  shows "\<exists>sm'. send_message env [] (lines_text ls) sm = Some (Inr ((), sm')) \<and> wrote written (lines_text (map stuffed ls) @ 46 # nl) sm sm'"
proof -
  obtain sm1 where a: "send_lines env (lines_text ls) 0 sm = Some (Inr ((), sm1))" "wrote written (lines_text (map stuffed ls)) sm sm1"
    using send_lines_ok [OF assms, of "lines_text ls" "[]" 0] by auto
  have dot: "cstr (''.'' @ crlf) = 46 # nl" by (simp add: cstr_def crlf_def nl_def)
  obtain r sm2 where b: "sm_puts env (''.'' @ crlf) sm1 = Some (Inr (r, sm2))" "wrote written (46 # nl) sm1 sm2"
    using sm_puts_ok [OF assms(1), of sm1 "''.'' @ crlf"] wrote_keeps [OF a(2)] unfolding dot by (auto simp: nl_def)
  obtain r' b' where c: "bo_flush (se_write env) (sm_out sm2) = Some (Inr (r', b'))" "st_ok (bo_buf b')" "bo_out written b' = bo_out written (sm_out sm2)"
    using bo_flush_ok [OF assms(1), of "sm_out sm2"] wrote_keeps [OF b(2)] by blast
  have "wrote written [] sm2 (sm2\<lparr>sm_out := b'\<rparr>)" using c(2,3) by (auto simp: wrote_def)
  with wrote_trans [OF wrote_trans [OF a(2) b(2)]] have "wrote written (lines_text (map stuffed ls) @ 46 # nl) sm (sm2\<lparr>sm_out := b'\<rparr>)" by fastforce
  then show ?thesis using a(1) b(1) c(1) by (auto simp: send_message_def sm_output_def)
qed

lemma first_nl:
  assumes "13 \<notin> set l"
  shows "first_at nl (l @ nl @ rest) (length l)"
proof -
  have "take (length nl) (drop j (l @ nl @ rest)) \<noteq> nl" if "j < length l" for j
  proof -
    have "hd (drop j (l @ nl @ rest)) = l ! j" using that by (simp add: hd_drop_conv_nth nth_append)
    moreover have "l ! j \<noteq> 13" using assms nth_mem [OF that] by metis
    moreover have "drop j (l @ nl @ rest) \<noteq> []" using that by simp
    ultimately show ?thesis by (cases "drop j (l @ nl @ rest)") (auto simp: nl_def)
  qed
  then show ?thesis by (auto simp: first_at_def)
qed

lemma sm_read_line_there:
  assumes "reads_all (se_read env) content" "st_ok (bi_buf (sm_in sm))" "bi_pending content (sm_in sm) = l @ nl @ rest" "13 \<notin> set l"
  shows "\<exists>b. sm_read_line env sm = Some (Inr (int (length l) + 2, l @ nl, sm\<lparr>sm_in := b\<rparr>)) \<and> st_ok (bi_buf b) \<and> bi_pending content b = rest"
proof -
  have "nl \<noteq> []" "length nl = 2" by (simp_all add: nl_def)
  from read_line_there [OF assms(1,2) this(1) assms(3) first_nl [OF assms(4)], of "se_junk env" "sm_timeout sm"] this(2)
  show ?thesis by (auto simp: sm_read_line_def)
qed

lemma cut_line_nl: "cut_line (l @ nl) = Inr (l @ [0, 10])"
  by (simp add: cut_line_def nl_def nth_append list_update_append)

lemma c_string_plain: "0 \<notin> set l \<Longrightarrow> c_string (l @ 0 # r) = l"
  by (induction l) (auto simp: c_string_def)

text \<open>Reading the lines of a message up to the dot.\<close>

lemma read_message_ok:
  assumes "reads_all (se_read env) content" "st_ok (bi_buf (sm_in sm))" "list_all plain_line ls"
    and "bi_pending content (sm_in sm) = lines_text (map stuffed ls) @ 46 # nl @ rest"
  shows "\<exists>b. read_message env basic_handler sm h =
      call_h (basic_DATA_end (h\<lparr>cur_msg := (cur_msg h)\<lparr>msg_text := msg_text (cur_msg h) @ lines_text ls\<rparr>\<rparr>)) (sm\<lparr>sm_in := b\<rparr>) \<and>
    st_ok (bi_buf b) \<and> bi_pending content b = rest"
  using assms(2-4)
proof (induction ls arbitrary: sm h)
  case Nil
  have "bi_pending content (sm_in sm) = [46] @ nl @ rest" using Nil(3) by (simp add: lines_text_def)
  from sm_read_line_there [OF assms(1) Nil(1) this] obtain b where
    b: "sm_read_line env sm = Some (Inr (3, [46] @ nl, sm\<lparr>sm_in := b\<rparr>))" "st_ok (bi_buf b)" "bi_pending content b = rest" by auto
  have "c_string ([46] @ [0, 10]) = [46]" by (simp add: c_string_def)
  then have "read_message env basic_handler sm h = call_h (basic_DATA_end h) (sm\<lparr>sm_in := b\<rparr>)"
    by (subst read_message.simps) (simp add: b(1) cut_line_nl del: append_Cons)
  then show ?case using b by (auto simp: lines_text_def)
next
  case (Cons l ls)
  have l: "plain_line l" "list_all plain_line ls" using Cons(3) by simp_all
  then have s: "13 \<notin> set (stuffed l)" "0 \<notin> set l" "0 \<notin> set (stuffed l)" by (auto simp: plain_line_def stuffed_def)
  have "bi_pending content (sm_in sm) = stuffed l @ nl @ (lines_text (map stuffed ls) @ 46 # nl @ rest)"
    using Cons(4) by (simp add: lines_text_def)
  from sm_read_line_there [OF assms(1) Cons(2) this s(1)] obtain b where
    b: "sm_read_line env sm = Some (Inr (int (length (stuffed l)) + 2, stuffed l @ nl, sm\<lparr>sm_in := b\<rparr>))" "st_ok (bi_buf b)"
      "bi_pending content b = lines_text (map stuffed ls) @ 46 # nl @ rest" by blast
  let ?h = "h\<lparr>cur_msg := (cur_msg h)\<lparr>msg_text := msg_text (cur_msg h) @ l @ nl\<rparr>\<rparr>"
  have c: "c_string (stuffed l @ [0, 10]) = stuffed l" "c_string (l @ [0, 10]) = l" using s c_string_plain by (metis append_Cons append_Nil)+
  have "\<not> (hd (stuffed l @ [0, 10]) = 46 \<and> length (stuffed l) = 1)" by (cases l) (auto simp: stuffed_def)
  moreover have "(if hd (stuffed l @ [0, 10]) = 46 then tl (stuffed l @ [0, 10]) else stuffed l @ [0, 10]) = l @ [0, 10]"
    by (cases l) (auto simp: stuffed_def)
  ultimately have step: "read_message env basic_handler sm h = read_message env basic_handler (sm\<lparr>sm_in := b\<rparr>) ?h"
    by (subst read_message.simps) (auto simp: b(1) cut_line_nl c basic_DATA_line_def)
  have ok: "st_ok (bi_buf (sm_in (sm\<lparr>sm_in := b\<rparr>)))" "bi_pending content (sm_in (sm\<lparr>sm_in := b\<rparr>)) = lines_text (map stuffed ls) @ 46 # nl @ rest"
    using b by simp_all
  show ?case using Cons(1) [OF ok(1) l(2) ok(2), of ?h] unfolding step by (simp add: lines_text_def)
qed

text \<open>The room that a reply needs in the output buffer: for the code, a blank and what \<open>log_vsnprintf\<close> puts behind them, and for the domain.\<close>

lemma send_response_ok:
  assumes "writes_to (se_write env) written" "st_ok (bo_buf (sm_out sm))" "response_code code (sm_domain sm) = Some t" "t \<noteq> []"
    and "length (int_digits code) + 1 < st_tailbytes (bo_buf (sm_out sm))"
    and "code = 220 \<or> code = 221 \<Longrightarrow> length (int_digits code) + 1 + length t < st_tailbytes (bo_buf (sm_out sm))"
  shows "\<exists>ret b. send_response env code sm = Some (Inr (ret, sm\<lparr>sm_out := b\<rparr>)) \<and> st_ok (bo_buf b) \<and> 0 \<le> ret \<and>
    (writes_all (se_write env) \<longrightarrow> st_data (bo_buf b) = [] \<and> st_tailbytes (bo_buf (sm_out sm)) \<le> st_tailbytes (bo_buf b))"
proof -
  let ?c = "int_digits code @ [32]" and ?args = "code = 220 \<or> code = 221"
  have f: "formats True (st_tailbytes (bo_buf (sm_out sm))) ?c" using assms(5) by (simp add: formats_def)
  obtain b where b: "bo_vformat_buf (se_write env) (se_junk env) True ?c (sm_out sm) = Some (Inr (int (length ?c), b))" "st_ok (bo_buf b)"
      "st_tailbytes (bo_buf (sm_out sm)) \<le> st_tailbytes (bo_buf b) + length ?c" "length (st_mem (bo_buf (sm_out sm))) \<le> length (st_mem (bo_buf b))"
    using bo_vformat_buf_ok [OF assms(1,2) f, of "se_junk env"] assms(5) by auto
  have g: "formats ?args (st_tailbytes (bo_buf b)) t" using assms(5,6) b(3) by (auto simp: formats_def)
  obtain b' where b': "bo_printf (se_write env) (se_junk env) ?args t b = Some (Inr (int (length t), b'))" "st_ok (bo_buf b')"
      "length (st_mem (bo_buf b)) \<le> length (st_mem (bo_buf b'))"
      "writes_all (se_write env) \<longrightarrow> st_data (bo_buf b') = [] \<and> st_tailbytes (bo_buf b') = length (st_mem (bo_buf b'))"
    using bo_printf_ok [OF assms(1) b(2) g, of "se_junk env"] assms(4) by auto
  have "st_tailbytes (bo_buf (sm_out sm)) \<le> length (st_mem (bo_buf b'))"
    using st_tailbytes_le [of "bo_buf (sm_out sm)"] b(4) b'(3) by linarith
  moreover have "send_response env code sm = Some (Inr (int (length t), sm\<lparr>sm_out := b'\<rparr>))"
    using b(1) b'(1) assms(3) by (simp add: send_response_def sm_output_def sm_printf_def)
  ultimately show ?thesis using b'(2,4) by (intro exI [of _ "int (length t)"] exI [of _ b']) simp
qed

text \<open>What a session does with the command DATA and the message behind it.\<close>

lemma process_data_ok:
  assumes "reads_all (se_read env) content" "writes_to (se_write env) written" "st_ok (bi_buf (sm_in sm))" "st_ok (bo_buf (sm_out sm))"
    and "bi_pending content (sm_in sm) = cstr ''DATA'' @ nl @ lines_text (map stuffed ls) @ 46 # nl @ rest" "list_all plain_line ls"
    and "msg_text (cur_msg h) = []" "4 < st_tailbytes (bo_buf (sm_out sm))"
  shows "\<exists>sm'. process_cmd env basic_handler sm h =
      call_h (basic_DATA_end (h\<lparr>cur_msg := (cur_msg h)\<lparr>msg_text := lines_text ls\<rparr>\<rparr>)) sm' \<and> bi_pending content (sm_in sm') = rest"
proof -
  have "13 \<notin> set (cstr ''DATA'')" by (simp add: cstr_def)
  from sm_read_line_there [OF assms(1,3,5) this] obtain b where
    b: "sm_read_line env sm = Some (Inr (int (length (cstr ''DATA'')) + 2, cstr ''DATA'' @ nl, sm\<lparr>sm_in := b\<rparr>))" "st_ok (bi_buf b)"
      "bi_pending content b = lines_text (map stuffed ls) @ 46 # nl @ rest" by blast
  have "response_code 354 (sm_domain (sm\<lparr>sm_in := b\<rparr>)) = Some (cstr (''Start mail input; end with <CRLF>.<CRLF>'' @ crlf))"
    by (simp add: response_code_def)
  moreover have "length (int_digits 354) = 3" by (simp add: int_digits_def)
  ultimately have "\<exists>ret b'. send_response env 354 (sm\<lparr>sm_in := b\<rparr>) = Some (Inr (ret, sm\<lparr>sm_in := b, sm_out := b'\<rparr>))"
    using send_response_ok [OF assms(2), of "sm\<lparr>sm_in := b\<rparr>" 354] assms(4,8) by (auto simp: cstr_def)
  then obtain ret b' where
    s: "send_response env 354 (sm\<lparr>sm_in := b\<rparr>) = Some (Inr (ret, sm\<lparr>sm_in := b, sm_out := b'\<rparr>))" by auto
  have len: "length (cstr ''DATA'') = 4" by (simp add: cstr_def)
  have cmp: "\<not> strcasecmp_eq (cstr ''DATA'') ''HELO''" "\<not> strcasecmp_eq (cstr ''DATA'') ''MAIL''" "\<not> strcasecmp_eq (cstr ''DATA'') ''RCPT''"
    "strcasecmp_eq (cstr ''DATA'') ''DATA''" by (simp_all add: strcasecmp_eq_def c_string_def cstr_def lower_byte_def)
  have "process_cmd env basic_handler sm h = read_message env basic_handler (sm\<lparr>sm_in := b, sm_out := b'\<rparr>) h"
    using assms(7) by (simp add: process_cmd_def b(1) cut_line_nl len cmp s basic_DATA_begin_def Let_def)
  moreover have ok: "st_ok (bi_buf (sm_in (sm\<lparr>sm_in := b, sm_out := b'\<rparr>)))"
      "bi_pending content (sm_in (sm\<lparr>sm_in := b, sm_out := b'\<rparr>)) = lines_text (map stuffed ls) @ 46 # nl @ rest" using b(2,3) by simp_all
  moreover have "msg_text (cur_msg h) @ lines_text ls = lines_text ls" using assms(7) by simp
  ultimately show ?thesis using read_message_ok [OF assms(1) ok(1) assms(6) ok(2), of h] by auto
qed

text \<open>
  Property C5. A message of lines that end with a newline, sent by the client with the dots at the beginning of its lines doubled, arrives as it
  is: what the client writes makes the server, when it reads it behind the command DATA, in whatever pieces, pass the message with
  its sender and recipients to \<open>message_recvd\<close>, answer 250 and go on behind it. The server's output buffer must have room for the five
  bytes of a reply's code (it has 1024 when nothing waits to be written): with less the reply 354 is undefined or fails an assertion.
\<close>

theorem smtp_message_arrives:
  assumes "writes_to (se_write env) written" "st_ok (bo_buf (sm_out sm))" "ls \<noteq> []" "list_all plain_line ls"
  shows "\<exists>sm1 w. send_message env [] (lines_text ls) sm = Some (Inr ((), sm1)) \<and> bo_out written (sm_out sm1) = bo_out written (sm_out sm) @ w \<and>
    (\<forall>senv content swritten ssm h rest. reads_all (se_read senv) content \<longrightarrow> writes_to (se_write senv) swritten \<longrightarrow>
       st_ok (bi_buf (sm_in ssm)) \<longrightarrow> st_ok (bo_buf (sm_out ssm)) \<longrightarrow> 4 < st_tailbytes (bo_buf (sm_out ssm)) \<longrightarrow>
       bi_pending content (sm_in ssm) = cstr ''DATA'' @ nl @ w @ rest \<longrightarrow>
       msg_from (cur_msg h) \<noteq> [] \<longrightarrow> msg_to (cur_msg h) \<noteq> [] \<longrightarrow> msg_text (cur_msg h) = [] \<longrightarrow>
       (\<exists>ssm1 h1. process_cmd senv basic_handler ssm h = Some (Inr (250, ssm1, h1)) \<and> bi_pending content (sm_in ssm1) = rest \<and>
          received h1 = received h @ [(cur_msg h)\<lparr>msg_text := lines_text ls\<rparr>] \<and> cur_msg h1 = msg_clear (cur_msg h)))"
proof -
  obtain sm1 where s: "send_message env [] (lines_text ls) sm = Some (Inr ((), sm1))" "wrote written (lines_text (map stuffed ls) @ 46 # nl) sm sm1"
    using send_message_ok [OF assms] by blast
  have ne: "lines_text ls \<noteq> []" using assms(3) by (cases ls) (simp_all add: lines_text_def nl_def)
  have "\<exists>ssm1 h1. process_cmd senv basic_handler ssm h = Some (Inr (250, ssm1, h1)) \<and> bi_pending content (sm_in ssm1) = rest \<and>
      received h1 = received h @ [(cur_msg h)\<lparr>msg_text := lines_text ls\<rparr>] \<and> cur_msg h1 = msg_clear (cur_msg h)"
    if "reads_all (se_read senv) content" "writes_to (se_write senv) swritten" "st_ok (bi_buf (sm_in ssm))" "st_ok (bo_buf (sm_out ssm))"
      "bi_pending content (sm_in ssm) = cstr ''DATA'' @ nl @ (lines_text (map stuffed ls) @ 46 # nl) @ rest"
      "msg_from (cur_msg h) \<noteq> []" "msg_to (cur_msg h) \<noteq> []" "msg_text (cur_msg h) = []" "4 < st_tailbytes (bo_buf (sm_out ssm))"
      for senv content swritten ssm h rest
    using process_data_ok [OF that(1-4) _ assms(4) that(8,9), of rest] that(5-7) ne
    by (auto simp: basic_DATA_end_def msg_valid_def msg_clear_def call_h_def Let_def)
  then show ?thesis using s wrote_keeps [OF s(2)] by blast
qed

definition demo_env :: "(bytes, bytes) smtp_env" where
  "demo_env = \<lparr>se_read = pair_reader, se_write = pair_writer, se_junk = (\<lambda>_. 0)\<rparr>"

definition demo_smtp :: "bytes \<Rightarrow> (bytes, bytes) smtp" where
  "demo_smtp input = \<lparr>sm_in = bi_init (\<lambda>_. 0) input, sm_out = bo_init (\<lambda>_. 0) [], sm_domain = [104], sm_timeout = - 1\<rparr>"

lemma smtp_message_arrives_witness:
  "\<exists>sm1 w ssm1 h1. send_message demo_env [] [46, 13, 10, 97, 13, 10] (demo_smtp []) = Some (Inr ((), sm1)) \<and> bo_out id (sm_out sm1) = w \<and>
     process_cmd demo_env basic_handler (demo_smtp (cstr ''DATA'' @ nl @ w))
       \<lparr>cur_msg = \<lparr>msg_from = [102], msg_to = [[116]], msg_text = []\<rparr>, received = []\<rparr> = Some (Inr (250, ssm1, h1)) \<and>
     received h1 = [\<lparr>msg_from = [102], msg_to = [[116]], msg_text = [46, 13, 10, 97, 13, 10]\<rparr>]"
proof -
  have env: "writes_to (se_write demo_env) id" "reads_all (se_read demo_env) id"
    using pair_writer pair_reader by (auto simp: demo_env_def reads_all_def pair_reader_def)
  have ok: "st_ok (bo_buf (sm_out (demo_smtp i)))" "st_ok (bi_buf (sm_in (demo_smtp i)))" "bi_pending id (sm_in (demo_smtp i)) = i"
    "bo_out id (sm_out (demo_smtp i)) = []" "4 < st_tailbytes (bo_buf (sm_out (demo_smtp i)))" for i
    by (simp_all add: demo_smtp_def bo_init_def bi_init_def st_init_ok bi_pending_def bo_out_def) (simp add: st_init_def st_tailbytes_def)
  have ls: "[[46], [97]] \<noteq> ([] :: bytes list)" "list_all plain_line [[46], [97]]" "lines_text [[46], [97]] = [46, 13, 10, 97, 13, 10]"
    by (simp_all add: plain_line_def lines_text_def nl_def)
  let ?h = "\<lparr>cur_msg = \<lparr>msg_from = [102], msg_to = [[116]], msg_text = []\<rparr>, received = []\<rparr>"
  from smtp_message_arrives [OF env(1) ok(1) [of "[]"] ls(1,2)] obtain sm1 w where
    s: "send_message demo_env [] (lines_text [[46], [97]]) (demo_smtp []) = Some (Inr ((), sm1))"
      "bo_out id (sm_out sm1) = bo_out id (sm_out (demo_smtp [])) @ w"
    and srv: "\<And>senv content swritten ssm h rest. reads_all (se_read senv) content \<Longrightarrow> writes_to (se_write senv) swritten \<Longrightarrow>
       st_ok (bi_buf (sm_in ssm)) \<Longrightarrow> st_ok (bo_buf (sm_out ssm)) \<Longrightarrow> 4 < st_tailbytes (bo_buf (sm_out ssm)) \<Longrightarrow>
       bi_pending content (sm_in ssm) = cstr ''DATA'' @ nl @ w @ rest \<Longrightarrow>
       msg_from (cur_msg h) \<noteq> [] \<Longrightarrow> msg_to (cur_msg h) \<noteq> [] \<Longrightarrow> msg_text (cur_msg h) = [] \<Longrightarrow>
       (\<exists>ssm1 h1. process_cmd (senv :: (bytes, bytes) smtp_env) basic_handler ssm h = Some (Inr (250, ssm1, h1)) \<and> bi_pending content (sm_in ssm1) = rest \<and>
          received h1 = received h @ [(cur_msg h)\<lparr>msg_text := lines_text [[46], [97]]\<rparr>] \<and> cur_msg h1 = msg_clear (cur_msg h))"
    by blast
  have p: "bi_pending id (sm_in (demo_smtp (cstr ''DATA'' @ nl @ w))) = cstr ''DATA'' @ nl @ w @ []" by (simp add: ok)
  from srv [OF env(2,1) ok(2) ok(1) ok(5) p, of ?h] s show ?thesis unfolding ls(3) by (auto simp: ok(4))
qed

text \<open>A divergence. The client takes two line feeds in a row for one newline, and a message of no lines for an empty line.\<close>

lemma blank_line_lost:
  assumes "writes_to (se_write env) written" "st_ok (bo_buf (sm_out sm))"
  shows "\<exists>sm1. send_lines env [97, 10, 10, 98] 0 sm = Some (Inr ((), sm1)) \<and> wrote written (lines_text [[97], [98]]) sm sm1"
proof -
  have l: "plain_line [97]" "plain_line [98]" by (simp_all add: plain_line_def)
  obtain sm1 where a: "wrote written (stuffed [97] @ nl) sm sm1" "send_lines env [97, 10, 10, 98] 0 sm = send_lines env [97, 10, 10, 98] 3 sm1"
    using send_lines_step [OF assms l(1), of 0 "[97, 10, 10, 98]" "[10, 10, 98]"] by (auto simp: numeral_3_eq_3)
  obtain sm2 where b: "wrote written (stuffed [98] @ nl) sm1 sm2" "send_lines env [97, 10, 10, 98] 3 sm1 = Some (Inr ((), sm2))"
    using send_lines_step [OF assms(1) _ l(2), of sm1 3 "[97, 10, 10, 98]" "[]"] wrote_keeps [OF a(1)] by auto
  show ?thesis using a(2) b(2) wrote_trans [OF a(1) b(1)] by (auto simp: lines_text_def stuffed_def)
qed

text \<open>A divergence. RSET does not reset anything: the recipients from before it get the next message too.\<close>

lemma rset_keeps_recipients:
  "h_RSET basic_handler h = Inr (250, h)"
  "bind_run (h_RSET basic_handler h) (\<lambda>(_, h). bind_run (h_RCPT basic_handler [99] h) (\<lambda>(_, h). Inr (msg_to (cur_msg h)))) = Inr (msg_to (cur_msg h) @ [[99]])"
  by (simp_all add: basic_handler_def basic_RCPT_def)

section \<open>The end of a session\<close>

definition sm_ok :: "('c, 'd) smtp \<Rightarrow> bool" where
  "sm_ok sm \<longleftrightarrow> st_ok (bi_buf (sm_in sm)) \<and> st_ok (bo_buf (sm_out sm))"

text \<open>\<open>safe\<close>: every write has succeeded and the domain fits, so that no output waits and there is room for a reply.\<close>

definition sm_room :: "('c, 'd) smtp \<Rightarrow> bool" where
  "sm_room sm \<longleftrightarrow> st_fullbytes (bo_buf (sm_out sm)) = 0 \<and> length (sm_domain sm) + 43 < st_tailbytes (bo_buf (sm_out sm))"

definition sm_inv :: "bool \<Rightarrow> ('c, 'd) smtp \<Rightarrow> bool" where
  "sm_inv safe sm \<longleftrightarrow> sm_ok sm \<and> (safe \<longrightarrow> sm_room sm)"

definition replies :: "int set" where
  "replies = {220, 221, 250, 500, 501, 502}"

text \<open>\<open>before\<close> is the length of the input before a step; a step that goes on has read some of it.\<close>

definition stepped :: "('c \<Rightarrow> bytes) \<Rightarrow> bool \<Rightarrow> nat \<Rightarrow> (int \<times> ('c, 'd) smtp \<times> basic) run option \<Rightarrow> bool" where
  "stepped content safe before r \<longleftrightarrow> (\<not> safe \<and> (\<exists>e. r = Some (Inl e))) \<or> (\<exists>resp sm h. r = Some (Inr (resp, sm, h)) \<and> sm_inv safe sm \<and>
     (0 < resp \<longrightarrow> resp \<in> replies \<and> msg_text (cur_msg h) = [] \<and> length (bi_pending content (sm_in sm)) < before))"

lemma stepped_if: "(P \<Longrightarrow> stepped content safe n a) \<Longrightarrow> (\<not> P \<Longrightarrow> stepped content safe n b) \<Longrightarrow> stepped content safe n (if P then a else b)"
  by simp

lemma stepped_option:
  "stepped content safe n a \<Longrightarrow> (\<And>x. stepped content safe n (f x)) \<Longrightarrow> stepped content safe n (case m of None \<Rightarrow> a | Some x \<Rightarrow> f x)"
  by (cases m) simp_all

lemma sm_read_line_spec:
  assumes "reads_from (se_read env) content" "sm_ok sm"
  shows "\<exists>cc line b. sm_read_line env sm = Some (Inr (cc, line, sm\<lparr>sm_in := b\<rparr>)) \<and> sm_ok (sm\<lparr>sm_in := b\<rparr>) \<and>
    (0 < cc \<longrightarrow> (\<exists>l. line = l @ nl) \<and> length (bi_pending content b) < length (bi_pending content (sm_in sm)))"
proof -
  have "nl \<noteq> []" by (simp add: nl_def)
  from read_line_spec [OF assms(1) _ this, of "sm_in sm" "se_junk env" "sm_timeout sm"] assms(2) obtain cc line b where
    r: "read_line (se_read env) (se_junk env) nl (sm_timeout sm) (sm_in sm) = Some (Inr (cc, line, b))" "st_ok (bi_buf b)"
      "0 < cc \<longrightarrow> (\<exists>i. first_at nl (bi_pending content (sm_in sm)) i \<and> nat cc = i + length nl \<and>
         line = take (nat cc) (bi_pending content (sm_in sm)) \<and> bi_pending content b = drop (nat cc) (bi_pending content (sm_in sm)))"
    unfolding sm_ok_def by (auto split: if_splits)
  have "(\<exists>l. line = l @ nl) \<and> length (bi_pending content b) < length (bi_pending content (sm_in sm))" if pos: "0 < cc"
  proof -
    obtain i where i: "first_at nl (bi_pending content (sm_in sm)) i" "nat cc = i + length nl"
      "line = take (i + length nl) (bi_pending content (sm_in sm))" "bi_pending content b = drop (i + length nl) (bi_pending content (sm_in sm))"
      using r(3) pos by auto
    have "line = take i (bi_pending content (sm_in sm)) @ nl" using i(1,3) by (simp add: first_at_def take_add)
    moreover have "length nl = 2" by (simp add: nl_def)
    ultimately show ?thesis using i(1,4) by (auto simp: first_at_def)
  qed
  then show ?thesis using r(1,2) assms(2) by (auto simp: sm_read_line_def sm_ok_def)
qed

lemma sm_read_line_inv:
  assumes "reads_from (se_read env) content" "sm_inv safe sm"
  shows "\<exists>cc line b. sm_read_line env sm = Some (Inr (cc, line, sm\<lparr>sm_in := b\<rparr>)) \<and> sm_inv safe (sm\<lparr>sm_in := b\<rparr>) \<and>
    (0 < cc \<longrightarrow> (\<exists>l. line = l @ nl) \<and> length (bi_pending content b) < length (bi_pending content (sm_in sm)))"
  using sm_read_line_spec [OF assms(1), of sm] assms(2) by (fastforce simp: sm_inv_def sm_room_def)

lemma read_message_steps:
  assumes "reads_from (se_read env) content" "sm_inv safe sm" "length (bi_pending content (sm_in sm)) < before"
  shows "stepped content safe before (read_message env basic_handler sm h)"
  using assms(2,3)
proof (induction "length (bi_pending content (sm_in sm))" arbitrary: sm h rule: less_induct)
  case less
  obtain cc line b where r: "sm_read_line env sm = Some (Inr (cc, line, sm\<lparr>sm_in := b\<rparr>))" "sm_inv safe (sm\<lparr>sm_in := b\<rparr>)"
    "0 < cc \<longrightarrow> (\<exists>l. line = l @ nl) \<and> length (bi_pending content b) < length (bi_pending content (sm_in sm))"
    using sm_read_line_inv [OF assms(1) less(2)] by blast
  show ?case
  proof (cases "0 < cc")
    case False
    then show ?thesis using r(2) by (subst read_message.simps) (simp add: r(1) stepped_def)
  next
    case True
    then obtain l where l: "line = l @ nl" "length (bi_pending content b) < length (bi_pending content (sm_in sm))" using r(3) by blast
    show ?thesis
    proof (cases "hd (l @ [0, 10]) = 46 \<and> length (c_string (l @ [0, 10])) = 1")
      case dot: True
      have "read_message env basic_handler sm h = call_h (basic_DATA_end h) (sm\<lparr>sm_in := b\<rparr>)"
        using True dot by (subst read_message.simps) (simp add: r(1) l(1) cut_line_nl)
      then show ?thesis using r(2) l(2) less(3)
        by (auto simp: call_h_def basic_DATA_end_def Let_def stepped_def msg_clear_def replies_def)
    next
      case False
      have "read_message env basic_handler sm h = read_message env basic_handler (sm\<lparr>sm_in := b\<rparr>)
          (snd (projr (basic_DATA_line (c_string (if hd (l @ [0, 10]) = 46 then tl (l @ [0, 10]) else l @ [0, 10])) h)))"
        using True False by (subst read_message.simps) (auto simp: r(1) l(1) cut_line_nl basic_DATA_line_def)
      then show ?thesis using less(1) [of "sm\<lparr>sm_in := b\<rparr>"] l(2) r(2) less(3) by auto
    qed
  qed
qed

lemma response_lengths:
  assumes "code \<in> insert 354 replies"
  shows "\<exists>t. response_code code domain = Some t \<and> t \<noteq> [] \<and> (code = 220 \<or> code = 221 \<longrightarrow> length t \<le> length domain + 39)"
    and "length (int_digits code) = 3"
  using assms by (auto simp: replies_def response_code_def cstr_def crlf_def int_digits_def)

lemma send_response_spec:
  assumes "writes_to (se_write env) written" "safe \<Longrightarrow> writes_all (se_write env)" "sm_inv safe sm" "code \<in> insert 354 replies"
  shows "(\<not> safe \<and> (\<exists>e. send_response env code sm = Some (Inl e))) \<or>
    (\<exists>ret b. send_response env code sm = Some (Inr (ret, sm\<lparr>sm_out := b\<rparr>)) \<and> sm_inv safe (sm\<lparr>sm_out := b\<rparr>) \<and> 0 \<le> ret)"
proof -
  let ?c = "int_digits code @ [32]" and ?args = "code = 220 \<or> code = 221" and ?room = "st_tailbytes (bo_buf (sm_out sm))"
  obtain t where t: "response_code code (sm_domain sm) = Some t" "t \<noteq> []" "?args \<longrightarrow> length t \<le> length (sm_domain sm) + 39"
    using response_lengths(1) [OF assms(4)] by blast
  have ok: "st_ok (bi_buf (sm_in sm))" "st_ok (bo_buf (sm_out sm))" using assms(3) by (simp_all add: sm_inv_def sm_ok_def)
  show ?thesis
  proof (cases safe)
    case True
    then have "length (int_digits code) + 1 < ?room" "?args \<Longrightarrow> length (int_digits code) + 1 + length t < ?room"
      using assms(3) t(3) response_lengths(2) [OF assms(4)] by (auto simp: sm_inv_def sm_room_def)
    from send_response_ok [OF assms(1) ok(2) t(1,2) this] obtain ret b where
      "send_response env code sm = Some (Inr (ret, sm\<lparr>sm_out := b\<rparr>))" "st_ok (bo_buf b)" "0 \<le> ret"
      "st_data (bo_buf b) = []" "?room \<le> st_tailbytes (bo_buf b)" using assms(2) [OF True] by blast
    then show ?thesis using assms(3) ok st_data_length [of "bo_buf b"] by (auto simp: sm_inv_def sm_ok_def sm_room_def)
  next
    case False
    show ?thesis
    proof (cases "formats True ?room ?c")
      case bad: False
      then show ?thesis using False bo_vformat_buf_fault [OF ok(2) bad] by (simp add: send_response_def sm_output_def)
    next
      case True
      from bo_vformat_buf_ok [OF assms(1) ok(2) True] obtain b where
        b: "bo_vformat_buf (se_write env) (se_junk env) True ?c (sm_out sm) = Some (Inr (int (length ?c), b))" "st_ok (bo_buf b)" by blast
      show ?thesis
      proof (cases "formats ?args (st_tailbytes (bo_buf b)) t")
        case bad: False
        then show ?thesis using False bo_printf_fault [OF b(2) bad] b(1) t(1)
          by (simp add: send_response_def sm_output_def sm_printf_def)
      next
        case True
        from bo_printf_ok [OF assms(1) b(2) True] obtain b' where
          "bo_printf (se_write env) (se_junk env) ?args t b = Some (Inr (int (length t), b'))" "st_ok (bo_buf b')" by blast
        then have "send_response env code sm = Some (Inr (int (length t), sm\<lparr>sm_out := b'\<rparr>)) \<and> sm_inv safe (sm\<lparr>sm_out := b'\<rparr>)"
          using False ok(1) b(1) t(1) by (simp add: send_response_def sm_output_def sm_printf_def sm_inv_def sm_ok_def)
        then show ?thesis by (intro disjI2 exI [of _ "int (length t)"] exI [of _ b']) simp
      qed
    qed
  qed
qed

lemma process_cmd_steps:
  assumes "reads_from (se_read env) content" "writes_to (se_write env) written" "safe \<Longrightarrow> writes_all (se_write env)"
    and "sm_inv safe sm" "msg_text (cur_msg h) = []"
  shows "stepped content safe (length (bi_pending content (sm_in sm))) (process_cmd env basic_handler sm h)"
proof -
  obtain cc line b where r: "sm_read_line env sm = Some (Inr (cc, line, sm\<lparr>sm_in := b\<rparr>))" "sm_inv safe (sm\<lparr>sm_in := b\<rparr>)"
    "0 < cc \<longrightarrow> (\<exists>l. line = l @ nl) \<and> length (bi_pending content b) < length (bi_pending content (sm_in sm))"
    using sm_read_line_inv [OF assms(1,4)] by blast
  show ?thesis
  proof (cases "cc < 4")
    case True
    then show ?thesis using r assms(5) by (auto simp: process_cmd_def stepped_def replies_def)
  next
    case False
    then obtain l where l: "line = l @ nl" and less: "length (bi_pending content b) < length (bi_pending content (sm_in sm))" using r(3) by auto
    let ?sm = "sm\<lparr>sm_in := b\<rparr>"
    have reply: "stepped content safe (length (bi_pending content (sm_in sm))) (Some (Inr (code, ?sm, h')))"
      if "code \<in> replies" "msg_text (cur_msg h') = []" for code h'
      using that r(2) less by (simp add: stepped_def)
    have handled: "stepped content safe (length (bi_pending content (sm_in sm))) (call_h (h_HELO basic_handler a h) ?sm)"
      "stepped content safe (length (bi_pending content (sm_in sm))) (call_h (h_MAIL basic_handler a h) ?sm)"
      "stepped content safe (length (bi_pending content (sm_in sm))) (call_h (h_RCPT basic_handler a h) ?sm)"
      "stepped content safe (length (bi_pending content (sm_in sm))) (call_h (h_RSET basic_handler h) ?sm)" for a
      using reply assms(5) by (simp_all add: call_h_def basic_handler_def basic_MAIL_def basic_RCPT_def replies_def)
    have data: "stepped content safe (length (bi_pending content (sm_in sm)))
      (bind_call (Some (h_DATA_begin basic_handler h)) (\<lambda>(err, h).
         if err \<noteq> 0 then Some (Inr (err, ?sm, h))
         else bind_call (send_response env 354 ?sm) (\<lambda>(_, sm). read_message env basic_handler sm h)))"
    proof -
      consider e where "\<not> safe" "send_response env 354 ?sm = Some (Inl e)"
        | ret b' where "send_response env 354 ?sm = Some (Inr (ret, ?sm\<lparr>sm_out := b'\<rparr>))" "sm_inv safe (?sm\<lparr>sm_out := b'\<rparr>)"
        using send_response_spec [OF assms(2,3) r(2), of 354] by auto
      then show ?thesis
      proof cases
        case 1
        then show ?thesis by (simp add: basic_DATA_begin_def assms(5) stepped_def)
      next
        case 2
        then show ?thesis using read_message_steps [OF assms(1) 2(2)] less by (simp add: basic_DATA_begin_def assms(5))
      qed
    qed
    have quit: "stepped content safe (length (bi_pending content (sm_in sm)))
      (bind_call (Some (h_QUIT basic_handler h)) (\<lambda>(_, h). Some (Inr (221, ?sm, h))))"
      using reply assms(5) by (simp add: basic_handler_def replies_def)
    have codes: "220 \<in> replies" "500 \<in> replies" "501 \<in> replies" "502 \<in> replies" by (simp_all add: replies_def)
    have c: "(cc < 0) = False" "(cc = 0) = False" "(cc < 4) = False" using False by simp_all
    show ?thesis unfolding process_cmd_def r(1) l bind_call_simps prod.case c if_False cut_line_nl Let_def
      by (intro stepped_if stepped_option handled data quit reply codes assms(5))
  qed
qed

text \<open>The loop of the session, by the length of the input that is left.\<close>

lemma server_loop_ends:
  assumes "reads_from (se_read env) content" "writes_to (se_write env) written" "safe \<Longrightarrow> writes_all (se_write env)"
    and "sm_inv safe sm" "msg_text (cur_msg h) = []"
  shows "\<exists>r. server_loop env basic_handler err sm h = Some r \<and> (safe \<longrightarrow> (\<exists>x. r = Inr x))"
  using assms(4,5)
proof (induction "length (bi_pending content (sm_in sm))" arbitrary: sm h err rule: less_induct)
  case less
  from process_cmd_steps [OF assms(1-3) less(2,3)] consider e where "\<not> safe" "process_cmd env basic_handler sm h = Some (Inl e)"
    | resp sm1 h1 where "process_cmd env basic_handler sm h = Some (Inr (resp, sm1, h1))" "sm_inv safe sm1"
      "0 < resp \<longrightarrow> resp \<in> replies \<and> msg_text (cur_msg h1) = [] \<and> length (bi_pending content (sm_in sm1)) < length (bi_pending content (sm_in sm))"
    unfolding stepped_def by blast
  then show ?case
  proof cases
    case 1
    then show ?thesis by (subst server_loop.simps) simp
  next
    case r: 2
    show ?thesis
    proof (cases "0 < resp")
      case False
      then show ?thesis by (subst server_loop.simps) (simp add: r(1))
    next
      case True
      then have "resp \<in> insert 354 replies" using r(3) by simp
      from send_response_spec [OF assms(2,3) r(2) this] consider e where "\<not> safe" "send_response env resp sm1 = Some (Inl e)"
        | ret b where "send_response env resp sm1 = Some (Inr (ret, sm1\<lparr>sm_out := b\<rparr>))" "sm_inv safe (sm1\<lparr>sm_out := b\<rparr>)" by blast
      then show ?thesis
      proof cases
        case 1
        then show ?thesis using True by (subst server_loop.simps) (simp add: r(1))
      next
        case s: 2
        have "\<exists>r. server_loop env basic_handler ret (sm1\<lparr>sm_out := b\<rparr>) h1 = Some r \<and> (safe \<longrightarrow> (\<exists>x. r = Inr x))"
          by (rule less(1)) (use r(3) True s(2) in auto)
        then show ?thesis using True by (subst server_loop.simps) (simp add: r(1) s(1))
      qed
    qed
  qed
qed

text \<open>
  Property C18. A session of the server with the basic handler ends on every finite input of a client whose writes take something or
  fail, whatever commands the input holds and in whatever pieces it arrives. When the output buffer is empty at the beginning, has
  room for the domain and 44 bytes more, and no write fails, it ends with a return: no assertion fails, nothing is undefined and
  every reply has a text. (Otherwise it may also end at a reply that does not fit behind the output that waits.)
\<close>

theorem smtp_session_ends:
  assumes "reads_from (se_read env) content" "writes_to (se_write env) written" "sm_ok sm" "msg_text (cur_msg h) = []"
  shows "\<exists>r. server_session env basic_handler sm h = Some r \<and>
    (writes_all (se_write env) \<and> st_fullbytes (bo_buf (sm_out sm)) = 0 \<and> length (sm_domain sm) + 43 < st_tailbytes (bo_buf (sm_out sm)) \<longrightarrow>
       (\<exists>err sm' h'. r = Inr (err, sm', h')))"
proof -
  define safe where "safe \<longleftrightarrow> writes_all (se_write env) \<and> sm_room sm"
  have w: "safe \<Longrightarrow> writes_all (se_write env)" and inv: "sm_inv safe sm" using assms(3) by (simp_all add: safe_def sm_inv_def)
  have "(220 :: int) \<in> insert 354 replies" by (simp add: replies_def)
  from send_response_spec [OF assms(2) w inv this] consider e where "\<not> safe" "send_response env 220 sm = Some (Inl e)"
    | ret b where "send_response env 220 sm = Some (Inr (ret, sm\<lparr>sm_out := b\<rparr>))" "sm_inv safe (sm\<lparr>sm_out := b\<rparr>)" "0 \<le> ret" by blast
  then have "\<exists>r. server_session env basic_handler sm h = Some r \<and> (safe \<longrightarrow> (\<exists>x. r = Inr x))"
  proof cases
    case 1
    then show ?thesis by (simp add: server_session_def)
  next
    case 2
    then show ?thesis using server_loop_ends [OF assms(1,2) w 2(2) assms(4), of ret] by (simp add: server_session_def)
  qed
  then show ?thesis unfolding safe_def sm_room_def by auto
qed

lemma smtp_session_ends_witness:
  "\<exists>err sm' h'. server_session demo_env basic_handler (demo_smtp (cstr ''NOOP'' @ nl @ cstr ''DATA'' @ nl))
     \<lparr>cur_msg = \<lparr>msg_from = [], msg_to = [], msg_text = []\<rparr>, received = []\<rparr> = Some (Inr (err, sm', h'))"
proof -
  have env: "reads_from (se_read demo_env) id" "writes_to (se_write demo_env) id" "writes_all (se_write demo_env)"
    using pair_writer pair_reader by (simp_all add: demo_env_def writes_all_def pair_writer_def)
  have ok: "sm_ok (demo_smtp i)" for i by (simp add: sm_ok_def demo_smtp_def bo_init_def bi_init_def st_init_ok)
  have room: "st_fullbytes (bo_buf (sm_out (demo_smtp i))) = 0"
    "length (sm_domain (demo_smtp i)) + 43 < st_tailbytes (bo_buf (sm_out (demo_smtp i)))" for i
    by (simp_all add: demo_smtp_def bo_init_def st_init_def st_tailbytes_def st_fullbytes_def)
  let ?h = "\<lparr>cur_msg = \<lparr>msg_from = [], msg_to = [], msg_text = []\<rparr>, received = []\<rparr>"
  have h: "msg_text (cur_msg ?h) = []" by simp
  from smtp_session_ends [OF env(1,2) ok h] env(3) room show ?thesis by (metis (no_types, lifting))
qed

end
