(* ===== verification/SparseArray.thy ===== *)
theory SparseArray
  imports Prelude
begin

text \<open>
  util/SparseArray.h: an array of which only blocks are stored. The list of blocks is in ascending order; the pointer that
  \<open>allocate\<close> returns is the place of a block in the list and an offset in it. \<open>esize\<close> is the size of an element: reallocating
  to a number of bytes leaves room for the elements that fit, and what new memory holds is given by \<open>junk\<close>. Elements that were never
  written are \<open>zero\<close>, what \<open>calloc\<close> and the default constructor give.
\<close>

section \<open>Blocks\<close>

record 'a block =
  bk_offset :: nat
  bk_size :: nat
  bk_data :: "'a list"

definition bk_end :: "'a block \<Rightarrow> nat" where
  "bk_end b = bk_offset b + bk_size b"

definition bk_new :: "'a \<Rightarrow> nat \<Rightarrow> nat \<Rightarrow> 'a block" where
  "bk_new zero offset sz = \<lparr>bk_offset = offset, bk_size = sz, bk_data = replicate sz zero\<rparr>"

text \<open>\<open>realloc\<close> of a block's memory to a number of bytes.\<close>

definition bk_realloc :: "(nat \<Rightarrow> 'a) \<Rightarrow> nat \<Rightarrow> nat \<Rightarrow> 'a list \<Rightarrow> 'a list" where
  "bk_realloc junk esize n data = (let elts = n div esize in take elts data @ map junk [length data..<elts])"

text \<open>Copying elements to a place in a block's memory.\<close>

definition bk_copy :: "nat \<Rightarrow> 'a list \<Rightarrow> 'a list \<Rightarrow> 'a list run" where
  "bk_copy off xs data = (if off + length xs \<le> length data then Inr (take off data @ xs @ drop (off + length xs) data) else Inl Undefined)"

text \<open>\<open>operator[]\<close>.\<close>

fun sa_get :: "'a \<Rightarrow> 'a block list \<Rightarrow> nat \<Rightarrow> 'a run" where
  "sa_get zero [] offset = Inr zero"
| "sa_get zero (b # bs) offset =
    (if bk_offset b \<le> offset \<and> offset < bk_end b
     then if offset - bk_offset b < length (bk_data b) then Inr (bk_data b ! (offset - bk_offset b)) else Inl Undefined
     else if offset < bk_offset b then Inr zero
     else sa_get zero bs offset)"

definition sa_size :: "'a block list \<Rightarrow> nat" where
  "sa_size bs = (if bs = [] then 0 else bk_end (last bs))"

text \<open>
  The first loop of \<open>allocate\<close>: how many blocks it steps over, and whether it found a block that contains the new one or one
  to merge with.
\<close>

datatype sa_found = Contained | Merge | Nothing

fun sa_search :: "nat \<Rightarrow> nat \<Rightarrow> 'a block list \<Rightarrow> (nat \<times> sa_found) run" where
  "sa_search offset sz [] = Inr (0, Nothing)"
| "sa_search offset sz (b # bs) =
    (if bk_end b \<le> offset then bind_run (sa_search offset sz bs) (\<lambda>(n, f). Inr (n + 1, f))
     else if bk_offset b \<le> offset \<and> offset + sz \<le> bk_end b then Inr (0, Contained)
     else if bk_offset b \<le> offset \<and> offset < bk_end b \<and> bk_end b < offset + sz then Inr (0, Merge)
     else if offset < bk_offset b then Inr (0, Nothing)
     else Inl Panicked)"

text \<open>The second loop: the blocks behind the new block that it takes in.\<close>

fun sa_tail :: "(nat \<Rightarrow> 'a) \<Rightarrow> nat \<Rightarrow> 'a block \<Rightarrow> 'a block list \<Rightarrow> ('a block \<times> 'a block list) run" where
  "sa_tail junk esize b [] = Inr (b, [])"
| "sa_tail junk esize b (t # ts) =
    (if bk_end b < bk_offset t then Inr (b, t # ts)
     else if bk_offset t \<le> bk_end b \<and> bk_end t \<le> bk_end b
     then bind_run (bk_copy (bk_offset t - bk_offset b) (take (bk_size t) (bk_data t)) (bk_data b)) (\<lambda>d.
       sa_tail junk esize (b\<lparr>bk_data := d\<rparr>) ts)
     else if bk_offset t \<le> bk_end b
     then let new_size = bk_end t - bk_offset b in
       bind_run (bk_copy (bk_offset t - bk_offset b) (take (bk_size t) (bk_data t)) (bk_realloc junk esize new_size (bk_data b))) (\<lambda>d.
       sa_tail junk esize (b\<lparr>bk_size := new_size, bk_data := d\<rparr>) ts)
     else Inl Panicked)"

definition sa_allocate :: "'a \<Rightarrow> (nat \<Rightarrow> 'a) \<Rightarrow> nat \<Rightarrow> nat \<Rightarrow> nat \<Rightarrow> 'a block list \<Rightarrow> ('a block list \<times> nat \<times> nat) run" where
  "sa_allocate zero junk esize offset sz bs =
    bind_run (sa_search offset sz bs) (\<lambda>(n, found).
    if found = Contained then Inr (bs, n, offset - bk_offset (bs ! n))
    else
      let (b, rest) = (if found = Merge
          then let b = bs ! n; new_size = offset + sz - bk_offset b in
            (b\<lparr>bk_size := new_size, bk_data := bk_realloc junk esize (esize * new_size) (bk_data b)\<rparr>, drop (n + 1) bs)
          else (bk_new zero offset sz, drop n bs)) in
      bind_run (sa_tail junk esize b rest) (\<lambda>(b, rest).
      Inr (take n bs @ b # rest, n, offset - bk_offset b)))"

definition sa_range_write :: "'a \<Rightarrow> (nat \<Rightarrow> 'a) \<Rightarrow> nat \<Rightarrow> nat \<Rightarrow> 'a list \<Rightarrow> 'a block list \<Rightarrow> 'a block list run" where
  "sa_range_write zero junk esize offset xs bs =
    bind_run (sa_allocate zero junk esize offset (length xs) bs) (\<lambda>(bs, n, off).
    bind_run (bk_copy off xs (bk_data (bs ! n))) (\<lambda>d. Inr (bs[n := (bs ! n)\<lparr>bk_data := d\<rparr>])))"

section \<open>The array that the blocks stand for\<close>

definition in_block :: "'a block \<Rightarrow> nat \<Rightarrow> bool" where
  "in_block b i \<longleftrightarrow> bk_offset b \<le> i \<and> i < bk_end b"

fun sa_ok :: "'a block list \<Rightarrow> bool" where
  "sa_ok [] = True"
| "sa_ok (b # bs) \<longleftrightarrow> length (bk_data b) = bk_size b \<and> (\<forall>t\<in>set bs. bk_end b \<le> bk_offset t) \<and> sa_ok bs"

fun sa_at :: "'a \<Rightarrow> 'a block list \<Rightarrow> nat \<Rightarrow> 'a" where
  "sa_at zero [] i = zero"
| "sa_at zero (b # bs) i = (if in_block b i then bk_data b ! (i - bk_offset b) else sa_at zero bs i)"

lemma sa_at_outside: "\<forall>t\<in>set bs. \<not> in_block t i \<Longrightarrow> sa_at zero bs i = zero"
  by (induction bs) auto

lemma sa_at_append: "sa_at zero (as @ bs) i = (if \<exists>t\<in>set as. in_block t i then sa_at zero as i else sa_at zero bs i)"
  by (induction as) auto

lemma sa_ok_append: "sa_ok (as @ bs) \<longleftrightarrow> sa_ok as \<and> sa_ok bs \<and> (\<forall>a\<in>set as. \<forall>b\<in>set bs. bk_end a \<le> bk_offset b)"
  by (induction as) auto

lemma bk_offset_end: "bk_offset b \<le> bk_end b"
  by (simp add: bk_end_def)

lemma sa_get_ok: "sa_ok bs \<Longrightarrow> sa_get zero bs i = Inr (sa_at zero bs i)"
proof (induction bs)
  case (Cons b bs)
  have "sa_at zero bs i = zero" if "i < bk_offset b"
    using Cons(2) that bk_offset_end [of b] by (intro sa_at_outside) (fastforce simp: in_block_def)
  then show ?case using Cons by (auto simp: in_block_def bk_end_def)
qed simp

lemma bk_copy_ok:
  assumes "off + length xs \<le> length d"
  shows "\<exists>d'. bk_copy off xs d = Inr d' \<and> length d' = length d \<and>
    (\<forall>i<length d. d' ! i = (if off \<le> i \<and> i < off + length xs then xs ! (i - off) else d ! i))"
  using assms by (auto simp: bk_copy_def nth_append min_def)

lemma sa_ok_size: "sa_ok bs \<Longrightarrow> t \<in> set bs \<Longrightarrow> bk_end t \<le> sa_size bs"
proof (induction bs)
  case (Cons b bs)
  show ?case
  proof (cases "bs = []")
    case False
    then have "bk_end b \<le> bk_offset (last bs)" using Cons(2) last_in_set [of bs] by auto
    then have "bk_end b \<le> sa_size bs" using False bk_offset_end [of "last bs"] by (simp add: sa_size_def)
    then show ?thesis using Cons False by (auto simp: sa_size_def)
  qed (use Cons in \<open>simp add: sa_size_def\<close>)
qed simp

text \<open>Taking in a block that begins inside or right behind the new one; elements are of one byte.\<close>

lemma sa_tail_absorb:
  assumes "length (bk_data b) = bk_size b" "length (bk_data t) = bk_size t" "bk_offset b \<le> bk_offset t" "bk_offset t \<le> bk_end b"
  shows "\<exists>b2. sa_tail junk 1 b (t # ts) = sa_tail junk 1 b2 ts \<and> bk_offset b2 = bk_offset b \<and> length (bk_data b2) = bk_size b2 \<and>
    bk_end b2 = max (bk_end b) (bk_end t) \<and>
    (\<forall>i. sa_at zero [b2] i = (if in_block t i then bk_data t ! (i - bk_offset t) else sa_at zero [b] i))"
proof -
  let ?off = "bk_offset t - bk_offset b"
  let ?n = "max (bk_size b) (?off + bk_size t)"
  let ?d = "if bk_end t \<le> bk_end b then bk_data b else bk_realloc junk 1 (bk_end t - bk_offset b) (bk_data b)"
  have d: "length ?d = ?n" "\<forall>i<bk_size b. ?d ! i = bk_data b ! i"
    using assms by (auto simp: bk_realloc_def bk_end_def max_def nth_append Let_def)
  obtain d' where d': "bk_copy ?off (bk_data t) ?d = Inr d'" "length d' = ?n"
      "\<forall>i<?n. d' ! i = (if ?off \<le> i \<and> i < ?off + bk_size t then bk_data t ! (i - ?off) else ?d ! i)"
    using bk_copy_ok [of ?off "bk_data t" ?d] d(1) assms(2) by auto
  let ?b = "b\<lparr>bk_size := ?n, bk_data := d'\<rparr>"
  have n: "bk_offset b + ?n = max (bk_end b) (bk_end t)" using assms(3) by (simp add: bk_end_def max_def) linarith
  have "?n = (if bk_end t \<le> bk_end b then bk_size b else bk_end t - bk_offset b)" using assms(3) by (auto simp: bk_end_def max_def)
  then have "sa_tail junk 1 b (t # ts) = sa_tail junk 1 ?b ts" using assms(2,4) d'(1) by (auto simp: Let_def)
  moreover have "sa_at zero [?b] i = (if in_block t i then bk_data t ! (i - bk_offset t) else sa_at zero [b] i)" for i
  proof (cases "in_block ?b i")
    case True
    then have i: "bk_offset b \<le> i" "i - bk_offset b < ?n" by (auto simp: in_block_def bk_end_def)
    obtain k where k: "k = i - bk_offset b" by blast
    have in_: "in_block t i \<longleftrightarrow> ?off \<le> k \<and> k < ?off + bk_size t"
      using i(1) assms(3) unfolding k in_block_def bk_end_def by linarith
    have here: "sa_at zero [?b] i = d' ! k" using True k by simp
    have kn: "k < ?n" using i(2) k by simp
    show ?thesis
    proof (cases "in_block t i")
      case True
      moreover have "i - bk_offset t = k - ?off" using assms(3) unfolding k by simp
      ultimately show ?thesis using d'(3) kn in_ unfolding here by simp
    next
      case False
      then have "k < bk_size b" "in_block b i"
        using i(1) i(2) [unfolded less_max_iff_disj] assms(3,4) unfolding k in_block_def bk_end_def by linarith+
      then show ?thesis using False d'(3) d(2) kn in_ k unfolding here by auto
    qed
  next
    case False
    then have "\<not> in_block t i" "\<not> in_block b i" using assms(3,4) by (auto simp: in_block_def bk_end_def)
    then show ?thesis using False by simp
  qed
  ultimately show ?thesis using d'(2) n by (intro exI [of _ ?b]) (simp add: bk_end_def)
qed

lemma sa_tail_ok:
  assumes "length (bk_data b) = bk_size b" "sa_ok ts" "\<forall>t\<in>set ts. bk_offset b \<le> bk_offset t"
  shows "\<exists>b' rest. sa_tail junk 1 b ts = Inr (b', rest) \<and> sa_ok (b' # rest) \<and> bk_offset b' = bk_offset b \<and> bk_end b \<le> bk_end b' \<and>
    set rest \<subseteq> set ts \<and> sa_size (b' # rest) = max (bk_end b) (sa_size ts) \<and>
    (\<forall>i. sa_at zero (b' # rest) i = (if \<exists>t\<in>set ts. in_block t i then sa_at zero ts i else sa_at zero [b] i))"
  using assms
proof (induction ts arbitrary: b)
  case Nil
  then show ?case by (simp add: sa_size_def)
next
  case (Cons t ts)
  have t: "length (bk_data t) = bk_size t" "\<forall>u\<in>set ts. bk_end t \<le> bk_offset u" "sa_ok ts" "bk_offset b \<le> bk_offset t"
    using Cons(3,4) by simp_all
  show ?case
  proof (cases "bk_end b < bk_offset t")
    case True
    have far: "\<forall>u\<in>set (t # ts). bk_end b < bk_offset u" using t(2) True bk_offset_end [of t] by fastforce
    then have "\<not> in_block b i" if "\<exists>u\<in>set (t # ts). in_block u i" for i
      using that by (auto simp: in_block_def simp del: list.set)
    moreover have "sa_at zero (t # ts) i = zero" if "\<not> (\<exists>u\<in>set (t # ts). in_block u i)" for i
      using that by (intro sa_at_outside) auto
    ultimately have at: "sa_at zero (b # t # ts) i = (if \<exists>u\<in>set (t # ts). in_block u i then sa_at zero (t # ts) i else sa_at zero [b] i)" for i
      by (subst sa_at.simps(2)) (simp del: list.set)
    have size: "sa_size (b # t # ts) = max (bk_end b) (sa_size (t # ts))"
      using sa_ok_size [OF Cons(3), of t] True bk_offset_end [of t] by (simp add: sa_size_def max_def)
    have "sa_ok (b # t # ts)" "sa_tail junk 1 b (t # ts) = Inr (b, t # ts)" using far True Cons(2,3) by (simp_all add: less_imp_le)
    then show ?thesis using at size by blast
  next
    case False
    then obtain b2 where b2: "sa_tail junk 1 b (t # ts) = sa_tail junk 1 b2 ts" "bk_offset b2 = bk_offset b" "length (bk_data b2) = bk_size b2"
        "bk_end b2 = max (bk_end b) (bk_end t)"
        "\<And>i. sa_at zero [b2] i = (if in_block t i then bk_data t ! (i - bk_offset t) else sa_at zero [b] i)"
      using sa_tail_absorb [OF Cons(2) t(1,4)] by (meson not_less)
    obtain b' rest where r: "sa_tail junk 1 b2 ts = Inr (b', rest)" "sa_ok (b' # rest)" "bk_offset b' = bk_offset b2" "bk_end b2 \<le> bk_end b'"
        "set rest \<subseteq> set ts" "sa_size (b' # rest) = max (bk_end b2) (sa_size ts)"
        "\<And>i. sa_at zero (b' # rest) i = (if \<exists>t\<in>set ts. in_block t i then sa_at zero ts i else sa_at zero [b2] i)"
      using Cons(1) [of b2] b2(2,3) t(3) Cons(4) by auto
    have size: "max (bk_end b) (sa_size (t # ts)) = max (bk_end b2) (sa_size ts)"
      using sa_ok_size [OF Cons(3), of t] b2(4) by (auto simp: sa_size_def max_def)
    have "sa_at zero (b' # rest) i = (if \<exists>u\<in>set (t # ts). in_block u i then sa_at zero (t # ts) i else sa_at zero [b] i)" for i
    proof -
      have "\<not> in_block t i" if "\<exists>u\<in>set ts. in_block u i" using that t(2) by (fastforce simp: in_block_def)
      then show ?thesis unfolding r(7) b2(5) unfolding sa_at.simps(2) [of zero t ts] by auto
    qed
    then show ?thesis using r b2(1,2,4) size by (intro exI [of _ b'] exI [of _ rest]) auto
  qed
qed

text \<open>The first loop: the blocks before the new one end before it; what it finds there.\<close>

lemma sa_search_ok:
  assumes "sa_ok bs"
  shows "\<exists>n found. sa_search offset sz bs = Inr (n, found) \<and> n \<le> length bs \<and> (\<forall>b\<in>set (take n bs). bk_end b \<le> offset) \<and>
    (found = Contained \<longrightarrow> n < length bs \<and> bk_offset (bs ! n) \<le> offset \<and> offset < bk_end (bs ! n) \<and> offset + sz \<le> bk_end (bs ! n)) \<and>
    (found = Merge \<longrightarrow> n < length bs \<and> bk_offset (bs ! n) \<le> offset \<and> offset < bk_end (bs ! n) \<and> bk_end (bs ! n) < offset + sz) \<and>
    (found = Nothing \<longrightarrow> (\<forall>b\<in>set (drop n bs). offset < bk_offset b))"
  using assms
proof (induction bs)
  case (Cons b bs)
  show ?case
  proof (cases "bk_end b \<le> offset")
    case True
    obtain n found where r: "sa_search offset sz bs = Inr (n, found)" "n \<le> length bs" "\<forall>b\<in>set (take n bs). bk_end b \<le> offset"
        "found = Contained \<longrightarrow> n < length bs \<and> bk_offset (bs ! n) \<le> offset \<and> offset < bk_end (bs ! n) \<and> offset + sz \<le> bk_end (bs ! n)"
        "found = Merge \<longrightarrow> n < length bs \<and> bk_offset (bs ! n) \<le> offset \<and> offset < bk_end (bs ! n) \<and> bk_end (bs ! n) < offset + sz"
        "found = Nothing \<longrightarrow> (\<forall>b\<in>set (drop n bs). offset < bk_offset b)"
      using Cons by auto
    then show ?thesis using True by (intro exI [of _ "n + 1"] exI [of _ found]) auto
  next
    case False
    have "\<forall>u\<in>set bs. offset < bk_offset u" using Cons(2) False by fastforce
    then show ?thesis using False bk_offset_end [of b] by (intro exI [of _ 0]) (auto simp: not_le)
  qed
qed simp

text \<open>The block that takes the new range, and the blocks behind it: the one to merge with, grown, or a new one.\<close>

definition sa_fits :: "'a \<Rightarrow> nat \<Rightarrow> nat \<Rightarrow> 'a block list \<Rightarrow> 'a block \<Rightarrow> 'a block list \<Rightarrow> bool" where
  "sa_fits zero offset sz ds b rest \<longleftrightarrow> length (bk_data b) = bk_size b \<and> bk_end b = offset + sz \<and> bk_offset b \<le> offset \<and>
    (bk_offset b = offset \<or> (\<exists>c\<in>set ds. bk_offset b = bk_offset c)) \<and> (\<forall>u\<in>set rest. bk_offset b \<le> bk_offset u) \<and> sa_ok rest \<and> set rest \<subseteq> set ds \<and>
    max (offset + sz) (sa_size rest) = max (sa_size ds) (offset + sz) \<and>
    (\<forall>i. i < offset \<or> offset + sz \<le> i \<longrightarrow>
      (if \<exists>u\<in>set rest. in_block u i then sa_at zero rest i else sa_at zero [b] i) = sa_at zero ds i)"

lemma sa_size_append: "\<forall>b\<in>set as. bk_end b \<le> offset \<Longrightarrow> max (sa_size (as @ bs)) (offset + sz) = max (sa_size bs) (offset + sz)"
  using last_in_set [of as] by (cases "as = []"; cases "bs = []") (fastforce simp: sa_size_def)+

lemma sa_size_Cons: "sa_ok (b # bs) \<Longrightarrow> sa_size (b # bs) = max (bk_end b) (sa_size bs)"
  using sa_ok_size [of "b # bs" b] by (auto simp: sa_size_def max_def)

lemma sa_merged:
  assumes ok: "sa_ok (c # es)" and c: "bk_offset c \<le> offset" "offset < bk_end c" "bk_end c < offset + sz"
  shows "sa_fits zero offset sz (c # es)
    (c\<lparr>bk_size := offset + sz - bk_offset c, bk_data := bk_realloc junk 1 (offset + sz - bk_offset c) (bk_data c)\<rparr>) es"
    (is "sa_fits _ _ _ _ ?b _")
proof -
  have d: "length (bk_data c) = bk_size c" using ok by simp
  have l: "length (bk_data ?b) = bk_size ?b" "bk_end ?b = offset + sz" "bk_offset ?b = bk_offset c"
    using c d by (auto simp: bk_realloc_def bk_end_def)
  have size: "max (offset + sz) (sa_size es) = max (sa_size (c # es)) (offset + sz)"
    unfolding sa_size_Cons [OF ok] using c(3) by (simp add: max_def)
  have at: "(if \<exists>u\<in>set es. in_block u i then sa_at zero es i else sa_at zero [?b] i) = sa_at zero (c # es) i"
    if i: "i < offset \<or> offset + sz \<le> i" for i
  proof -
    have "in_block ?b i \<longleftrightarrow> in_block c i" using i c l(2,3) by (auto simp: in_block_def)
    moreover have "bk_data ?b ! (i - bk_offset c) = bk_data c ! (i - bk_offset c)" if "in_block c i"
      using that d c by (auto simp: bk_realloc_def in_block_def bk_end_def nth_append)
    moreover have "\<not> in_block c i" if "\<exists>u\<in>set es. in_block u i" using that ok by (fastforce simp: in_block_def)
    moreover have "sa_at zero es i = zero" if "\<not> (\<exists>u\<in>set es. in_block u i)" using that by (intro sa_at_outside) auto
    ultimately show ?thesis using l(3) by auto
  qed
  have "\<forall>u\<in>set es. bk_offset c \<le> bk_offset u" using ok bk_offset_end [of c] by fastforce
  then show ?thesis unfolding sa_fits_def using l size at ok c(1) by (auto simp del: sa_at.simps)
qed

lemma sa_fresh: "sa_ok ds \<Longrightarrow> \<forall>u\<in>set ds. offset < bk_offset u \<Longrightarrow> sa_fits zero offset sz ds (bk_new zero offset sz) ds"
  using sa_at_outside [of ds _ zero] by (auto simp: sa_fits_def bk_new_def bk_end_def in_block_def max.commute less_imp_le)

text \<open>The block that \<open>allocate\<close> returns has room, and nothing outside the new range has changed.\<close>

lemma sa_allocate_ok:
  assumes "sa_ok bs"
  shows "\<exists>pre b post. sa_allocate zero junk 1 offset sz bs = Inr (pre @ b # post, length pre, offset - bk_offset b) \<and> sa_ok (pre @ b # post) \<and>
    bk_offset b \<le> offset \<and> offset + sz \<le> bk_end b \<and> sa_size (pre @ b # post) = max (sa_size bs) (offset + sz) \<and>
    (\<forall>i. i < offset \<or> offset + sz \<le> i \<longrightarrow> sa_at zero (pre @ b # post) i = sa_at zero bs i)"
proof -
  obtain n found where s: "sa_search offset sz bs = Inr (n, found)" "n \<le> length bs" "\<forall>b\<in>set (take n bs). bk_end b \<le> offset"
      "found = Contained \<longrightarrow> n < length bs \<and> bk_offset (bs ! n) \<le> offset \<and> offset < bk_end (bs ! n) \<and> offset + sz \<le> bk_end (bs ! n)"
      "found = Merge \<longrightarrow> n < length bs \<and> bk_offset (bs ! n) \<le> offset \<and> offset < bk_end (bs ! n) \<and> bk_end (bs ! n) < offset + sz"
      "found = Nothing \<longrightarrow> (\<forall>b\<in>set (drop n bs). offset < bk_offset b)"
    using sa_search_ok [OF assms] by blast
  have split: "bs = take n bs @ drop n bs" "length (take n bs) = n" using s(2) by simp_all
  have ok: "sa_ok (take n bs)" "sa_ok (drop n bs)" "\<forall>a\<in>set (take n bs). \<forall>b\<in>set (drop n bs). bk_end a \<le> bk_offset b"
    using assms sa_ok_append [of "take n bs" "drop n bs"] by simp_all
  show ?thesis
  proof (cases "found = Contained")
    case True
    then have n: "n < length bs" and c: "bk_offset (bs ! n) \<le> offset" "offset + sz \<le> bk_end (bs ! n)" using s(4) by auto
    have e: "bs = take n bs @ bs ! n # drop (Suc n) bs" using n by (rule id_take_nth_drop)
    have "sa_allocate zero junk 1 offset sz bs = Inr (bs, n, offset - bk_offset (bs ! n))" using True s(1) by (simp add: sa_allocate_def)
    moreover have "sa_size bs = max (sa_size bs) (offset + sz)"
      using sa_ok_size [OF assms nth_mem [OF n]] c(2) by (simp add: max_def)
    ultimately show ?thesis using e c split(2) assms
      by (intro exI [of _ "take n bs"] exI [of _ "bs ! n"] exI [of _ "drop (Suc n) bs"]) (metis (no_types, lifting))
  next
    case False
    have "\<exists>b rest. sa_fits zero offset sz (drop n bs) b rest \<and> sa_allocate zero junk 1 offset sz bs =
      bind_run (sa_tail junk 1 b rest) (\<lambda>(b, rest). Inr (take n bs @ b # rest, n, offset - bk_offset b))"
    proof (cases "found = Merge")
      case True
      then have m: "bk_offset (bs ! n) \<le> offset" "offset < bk_end (bs ! n)" "bk_end (bs ! n) < offset + sz" and
        e: "drop n bs = bs ! n # drop (n + 1) bs" using s(5) by (auto simp: Cons_nth_drop_Suc)
      show ?thesis using sa_merged [OF ok(2) [unfolded e] m] True s(1) unfolding e by (force simp: sa_allocate_def Let_def)
    next
      case not: False
      then have "found = Nothing" using False by (cases found) auto
      then show ?thesis using sa_fresh [OF ok(2)] s(1,6) by (force simp: sa_allocate_def)
    qed
    then obtain b rest where f: "sa_fits zero offset sz (drop n bs) b rest" "sa_allocate zero junk 1 offset sz bs =
      bind_run (sa_tail junk 1 b rest) (\<lambda>(b, rest). Inr (take n bs @ b # rest, n, offset - bk_offset b))" by blast
    obtain b' post where t: "sa_tail junk 1 b rest = Inr (b', post)" "sa_ok (b' # post)" "bk_offset b' = bk_offset b" "bk_end b \<le> bk_end b'"
        "set post \<subseteq> set rest" "sa_size (b' # post) = max (bk_end b) (sa_size rest)"
        "\<And>i. sa_at zero (b' # post) i = (if \<exists>t\<in>set rest. in_block t i then sa_at zero rest i else sa_at zero [b] i)"
      using sa_tail_ok [of b rest junk zero] f(1) unfolding sa_fits_def by blast
    have far: "\<forall>u\<in>set (take n bs). \<forall>v\<in>set (b' # post). bk_end u \<le> bk_offset v"
      using f(1) t(3,5) s(3) ok(3) unfolding sa_fits_def by auto
    have "sa_ok (take n bs @ b' # post)" using ok(1) t(2) far by (simp only: sa_ok_append)
    moreover have "sa_size (take n bs @ b' # post) = max (sa_size bs) (offset + sz)"
      using t(6) f(1) sa_size_append [OF s(3), of "drop n bs" sz] by (simp add: sa_fits_def sa_size_def)
    moreover have "sa_at zero (take n bs @ b' # post) i = sa_at zero bs i" if "i < offset \<or> offset + sz \<le> i" for i
    proof -
      have at: "(if \<exists>t\<in>set rest. in_block t i then sa_at zero rest i else sa_at zero [b] i) = sa_at zero (drop n bs) i"
        using that f(1) unfolding sa_fits_def by blast
      show ?thesis using sa_at_append [of zero "take n bs" "drop n bs" i] unfolding sa_at_append t(7) at append_take_drop_id by simp
    qed
    moreover have "sa_allocate zero junk 1 offset sz bs = Inr (take n bs @ b' # post, length (take n bs), offset - bk_offset b')"
      using f(2) t(1) split(2) by simp
    ultimately show ?thesis using f(1) t(3,4) unfolding sa_fits_def by (intro exI [of _ "take n bs"] exI [of _ b'] exI [of _ post]) auto
  qed
qed

text \<open>
  Property C39. Writing a range of an array of bytes (range_write): whatever blocks the range touches, the elements of the range are the
  ones written and every other element is as it was; the size is the end of the last range, and \<open>operator[]\<close> reads this array.
\<close>

theorem sparse_array_write:
  assumes "sa_ok bs"
  shows "\<exists>bs'. sa_range_write zero junk 1 offset xs bs = Inr bs' \<and> sa_ok bs' \<and> sa_size bs' = max (sa_size bs) (offset + length xs) \<and>
    (\<forall>i. sa_get zero bs' i = (if offset \<le> i \<and> i < offset + length xs then Inr (xs ! (i - offset)) else sa_get zero bs i))"
proof -
  obtain pre b post where a: "sa_allocate zero junk 1 offset (length xs) bs = Inr (pre @ b # post, length pre, offset - bk_offset b)"
      "sa_ok (pre @ b # post)" "bk_offset b \<le> offset" "offset + length xs \<le> bk_end b"
      "sa_size (pre @ b # post) = max (sa_size bs) (offset + length xs)"
      "\<forall>i. i < offset \<or> offset + length xs \<le> i \<longrightarrow> sa_at zero (pre @ b # post) i = sa_at zero bs i"
    using sa_allocate_ok [OF assms] by blast
  let ?off = "offset - bk_offset b"
  have len: "length (bk_data b) = bk_size b" using a(2) by (simp add: sa_ok_append)
  then have "?off + length xs \<le> length (bk_data b)" using a(3,4) by (simp add: bk_end_def)
  then obtain d where d: "bk_copy ?off xs (bk_data b) = Inr d" "length d = length (bk_data b)"
      "\<forall>i<length (bk_data b). d ! i = (if ?off \<le> i \<and> i < ?off + length xs then xs ! (i - ?off) else bk_data b ! i)"
    using bk_copy_ok by blast
  let ?b = "b\<lparr>bk_data := d\<rparr>"
  have b: "bk_end ?b = bk_end b" "\<And>i. in_block ?b i = in_block b i" by (simp_all add: bk_end_def in_block_def)
  have w: "sa_range_write zero junk 1 offset xs bs = Inr (pre @ ?b # post)" using a(1) d(1) by (simp add: sa_range_write_def)
  have ok: "sa_ok (pre @ ?b # post)" using a(2) d(2) b(1) by (simp add: sa_ok_append)
  have pre: "\<not> in_block u i" if "u \<in> set pre" "in_block b i" for u i using a(2) that by (fastforce simp: sa_ok_append in_block_def)
  have "sa_at zero (pre @ ?b # post) i = (if offset \<le> i \<and> i < offset + length xs then xs ! (i - offset) else sa_at zero (pre @ b # post) i)" for i
  proof (cases "in_block b i")
    case True
    then have i: "i - bk_offset b < length (bk_data b)" "bk_offset b \<le> i" using len by (auto simp: in_block_def bk_end_def)
    have "d ! (i - bk_offset b) = (if offset \<le> i \<and> i < offset + length xs then xs ! (i - offset) else bk_data b ! (i - bk_offset b))"
      using d(3) i a(3) by auto
    moreover have "\<not> (\<exists>u\<in>set pre. in_block u i)" using pre True by blast
    ultimately show ?thesis unfolding sa_at_append using True b(2) by simp
  next
    case False
    then have no: "(offset \<le> i \<and> i < offset + length xs) = False" using a(3,4) by (auto simp: in_block_def)
    show ?thesis unfolding sa_at_append no using False b(2) by simp
  qed
  then have "sa_get zero (pre @ ?b # post) i = (if offset \<le> i \<and> i < offset + length xs then Inr (xs ! (i - offset)) else sa_get zero bs i)" for i
    using a(6) sa_get_ok [OF ok] sa_get_ok [OF assms] by auto
  moreover have "sa_size (pre @ ?b # post) = sa_size (pre @ b # post)" using b(1) by (simp add: sa_size_def)
  ultimately show ?thesis using w ok a(5) by auto
qed

definition sa_two :: "nat block list" where
  "sa_two = [\<lparr>bk_offset = 2, bk_size = 2, bk_data = [1, 2]\<rparr>, \<lparr>bk_offset = 6, bk_size = 3, bk_data = [3, 4, 5]\<rparr>]"

theorem sparse_array_write_witness:
  "sa_ok sa_two \<and> (\<exists>bs'. sa_range_write 0 (\<lambda>_. 9) 1 3 [7, 7, 7, 7] sa_two = Inr bs' \<and> sa_size bs' = 9 \<and> sa_get 0 bs' 7 = Inr 4)"
proof -
  have ok: "sa_ok sa_two" by (simp add: sa_two_def bk_end_def)
  obtain bs' where w: "sa_range_write 0 (\<lambda>_. 9) 1 3 [7, 7, 7, 7] sa_two = Inr bs'"
      "sa_size bs' = max (sa_size sa_two) (3 + length [7, 7, 7, 7 :: nat])"
      "\<forall>i. sa_get 0 bs' i = (if 3 \<le> i \<and> i < 3 + length [7, 7, 7, 7 :: nat] then Inr ([7, 7, 7, 7] ! (i - 3)) else sa_get 0 sa_two i)"
    using sparse_array_write [OF ok, of 0 "\<lambda>_. 9" 3 "[7, 7, 7, 7]"] by blast
  have "sa_get 0 bs' 7 = Inr 4" unfolding w(3) [rule_format, of 7] by (simp add: sa_two_def bk_end_def)
  moreover have "sa_size bs' = 9" unfolding w(2) by (simp add: sa_size_def sa_two_def bk_end_def)
  ultimately show ?thesis using ok w(1) by blast
qed

text \<open>
  A divergence. The second loop reallocates to a number of elements where \<open>realloc\<close> takes bytes: with elements of four
  bytes, writing a range that runs into the middle of a block leaves too little memory, and copying the block's data writes past its end.
\<close>

theorem sparse_array_short_realloc:
  "sa_range_write 0 junk 4 1 [7, 7] [\<lparr>bk_offset = 2, bk_size = 2, bk_data = [1, 2 :: nat]\<rparr>] = Inl Undefined"
  "\<exists>bs. sa_range_write 0 junk 1 1 [7, 7] [\<lparr>bk_offset = 2, bk_size = 2, bk_data = [1, 2 :: nat]\<rparr>] = Inr bs"
  by (simp_all add: sa_range_write_def sa_allocate_def bk_end_def bk_new_def bk_realloc_def bk_copy_def Let_def)

end
