(* ===== verification/CheckedLog.thy ===== *)
theory CheckedLog
  imports Marshal
begin

text \<open>
  storage/CheckedLog.h and storage/CheckedLog.cc: a log of records that a checksum protects. A descriptor is the bytes of its file
  and the position at which the next read or write happens; reads and writes of a file are complete unless the
  file ends. A character is signed, so the reader's length is sign-extended from the bytes; a length that came out negative is
  passed to \<open>reserve\<close> as a size that no allocation has, and \<open>reserve\<close> panics.
\<close>

section \<open>A file behind a descriptor\<close>

record fdesc =
  fd_bytes :: bytes
  fd_pos :: nat

definition fd_read :: "nat \<Rightarrow> fdesc \<Rightarrow> bytes \<times> fdesc" where
  "fd_read n f = (let bs = take n (drop (fd_pos f) (fd_bytes f)) in (bs, f\<lparr>fd_pos := fd_pos f + length bs\<rparr>))"

definition fd_write :: "bytes \<Rightarrow> fdesc \<Rightarrow> fdesc" where
  "fd_write bs f = f\<lparr>fd_bytes := take (fd_pos f) (fd_bytes f) @ replicate (fd_pos f - length (fd_bytes f)) 0 @ bs @
     drop (fd_pos f + length bs) (fd_bytes f), fd_pos := fd_pos f + length bs\<rparr>"

section \<open>Writing\<close>

text \<open>The constructor goes to the end of the file.\<close>

definition clw_init :: "fdesc \<Rightarrow> fdesc" where
  "clw_init f = f\<lparr>fd_pos := length (fd_bytes f)\<rparr>"

definition write_record :: "bytes \<Rightarrow> fdesc \<Rightarrow> fdesc" where
  "write_record buf f =
     (let len = of_nat (length buf) :: u32;
          len_buf = [ucast (drop_bit 24 len), ucast (drop_bit 16 len), ucast (drop_bit 8 len), ucast len];
          crc = fst (crc_value (crc_update (crc_update (crc_reset \<lparr>crc_val = 0, crc_finished = 0\<rparr>) len_buf) buf));
          crc_buf = [ucast (drop_bit 24 crc), ucast (drop_bit 16 crc), ucast (drop_bit 8 crc), ucast crc]
      in fd_write buf (fd_write len_buf (fd_write crc_buf (fd_write [42] f))))"

section \<open>Reading\<close>

datatype log_result = No_err | End_log | Bad_crc | Ignored

record log_reader =
  lr_fd :: fdesc
  lr_cur :: int

definition clr_init :: "fdesc \<Rightarrow> log_reader" where
  "clr_init f = \<lparr>lr_fd = f, lr_cur = 0\<rparr>"

text \<open>One read of a whole piece, which advances \<open>cur_offset_\<close> when all of it came.\<close>

definition lr_piece :: "nat \<Rightarrow> log_reader \<Rightarrow> bytes option \<times> log_reader" where
  "lr_piece n r = (let (bs, f) = fd_read n (lr_fd r)
     in if length bs \<noteq> n then (None, r\<lparr>lr_fd := f\<rparr>) else (Some bs, r\<lparr>lr_fd := f, lr_cur := lr_cur r + int n\<rparr>))"

definition lr_len :: "bytes \<Rightarrow> int" where
  "lr_len b = sint (push_bit 24 (scast (b ! 0)) OR push_bit 16 (scast (b ! 1)) OR push_bit 8 (scast (b ! 2)) OR scast (b ! 3) :: u32)"

definition read_data :: "(nat \<Rightarrow> byte) \<Rightarrow> byte \<Rightarrow> bytes \<Rightarrow> bytes \<Rightarrow> ebuf \<Rightarrow> log_reader \<Rightarrow> (log_result \<times> ebuf \<times> log_reader) run" where
  "read_data junk ignore crc_buf len_buf buf r =
     (let len = lr_len len_buf
      in if len > int (length (fd_bytes (lr_fd r))) - lr_cur r then Inr (Bad_crc, buf, r)
      else if len < 0 then Inl Panicked
      else bind_run (eb_reserve junk (nat len) buf) (\<lambda>buf1.
      bind_run (eb_raw_buf buf1) (\<lambda>mem.
      let (bs, f) = fd_read (nat len) (lr_fd r);
          r1 = r\<lparr>lr_fd := f, lr_cur := lr_cur r + int (length bs)\<rparr>
      in bind_run (mem_write 0 bs mem) (\<lambda>mem1.
      let buf2 = buf1\<lparr>eb_mem := mem1\<rparr>
      in if length bs \<noteq> nat len then Inr (Bad_crc, buf2, r1)
      else let crc = fst (crc_value (crc_update (crc_update (crc_reset \<lparr>crc_val = 0, crc_finished = 0\<rparr>) len_buf) (take (nat len) mem1)))
      in bind_run (crc_from_bytes crc_buf) (\<lambda>want.
      Inr (if crc \<noteq> want then Bad_crc else if ignore = 33 then Ignored else No_err, buf2, r1))))))"

definition read_record :: "(nat \<Rightarrow> byte) \<Rightarrow> ebuf \<Rightarrow> log_reader \<Rightarrow> (log_result \<times> ebuf \<times> log_reader) run" where
  "read_record junk buf r =
     (if lr_cur r = int (length (fd_bytes (lr_fd r))) then Inr (End_log, buf, r)
      else case lr_piece 1 r of
        (None, r1) \<Rightarrow> Inr (Bad_crc, buf, r1)
      | (Some ignore, r1) \<Rightarrow> (case lr_piece 4 r1 of
        (None, r2) \<Rightarrow> Inr (Bad_crc, buf, r2)
      | (Some crc_buf, r2) \<Rightarrow> (case lr_piece 4 r2 of
        (None, r3) \<Rightarrow> Inr (Bad_crc, buf, r3)
      | (Some len_buf, r3) \<Rightarrow> read_data junk (hd ignore) crc_buf len_buf buf r3)))"

section \<open>The bytes of a log\<close>

definition rec_bytes :: "bytes \<Rightarrow> bytes" where
  "rec_bytes x = (let len = be32 (of_nat (length x)) in 42 # be32 (crc_of (len @ x)) @ len @ x)"

lemma rec_length: "length (rec_bytes x) = 9 + length x"
  by (simp add: rec_bytes_def Let_def)

lemma fd_write_end: "fd_pos f = length (fd_bytes f) \<Longrightarrow>
    fd_write bs f = \<lparr>fd_bytes = fd_bytes f @ bs, fd_pos = length (fd_bytes f @ bs)\<rparr>"
  by (cases f) (simp add: fd_write_def)

lemma crc_two: "fst (crc_value (crc_update (crc_update (crc_reset c) a) b)) = crc_of (a @ b)"
proof -
  have loop: "crc_update_loop c (a @ b) = crc_update_loop (crc_update_loop c a) b" for c
    by (induction a arbitrary: c) simp_all
  show ?thesis by (simp add: crc_of_def crc_value_def crc_update_def crc_reset_def loop Let_def)
qed

lemma write_record_end: "fd_pos f = length (fd_bytes f) \<Longrightarrow>
    write_record x f = \<lparr>fd_bytes = fd_bytes f @ rec_bytes x, fd_pos = length (fd_bytes f @ rec_bytes x)\<rparr>"
  by (simp add: write_record_def fd_write_end crc_two rec_bytes_def be32_def Let_def)

lemma write_records_end: "fd_pos f = length (fd_bytes f) \<Longrightarrow>
    foldl (\<lambda>f x. write_record x f) f xs = \<lparr>fd_bytes = fd_bytes f @ concat (map rec_bytes xs), fd_pos = length (fd_bytes f @ concat (map rec_bytes xs))\<rparr>"
  by (induction xs arbitrary: f) (simp_all add: write_record_end)

text \<open>The lengths that the reader's signed characters leave as they are: no byte of them has its highest bit set.\<close>

definition plain_len :: "u32 \<Rightarrow> bool" where
  "plain_len n \<longleftrightarrow> \<not> bit n 7 \<and> \<not> bit n 15 \<and> \<not> bit n 23 \<and> \<not> bit n 31"

lemma scast_plain: "\<not> bit b 7 \<Longrightarrow> (scast b :: u32) = ucast b" for b :: byte
proof (rule bit_word_eqI)
  fix k assume "\<not> bit b 7" "k < LENGTH(32)"
  then show "bit (scast b :: u32) k = bit (ucast b :: u32) k"
    by (cases "k < 7"; cases "k = 7") (auto simp: bit_simps min_def dest: bit_imp_le_length)
qed

lemma lr_len_plain:
  assumes "plain_len n"
  shows "lr_len (be32 n) = uint n"
proof -
  have "\<not> bit (be32 n ! 0) 7" "\<not> bit (be32 n ! 1) 7" "\<not> bit (be32 n ! 2) 7" "\<not> bit (be32 n ! 3) 7"
    using assms by (auto simp: plain_len_def be32_def bit_simps)
  then have "lr_len (be32 n) = sint (of_be32 (be32 n))" by (simp add: lr_len_def of_be32_def scast_plain del: One_nat_def)
  moreover have "k < 31" if "bit n k" for k
    using that bit_imp_le_length [OF that] assms by (cases "k = 31") (auto simp: plain_len_def)
  then have "sint n = uint n"
    unfolding sint_uint by (intro bit_eqI) (use assms in \<open>auto simp: bit_simps min_def not_le dest: leD\<close>)
  ultimately show ?thesis by (simp add: of_be32_be32)
qed

lemma lr_len_not_plain:
  assumes "\<not> plain_len n"
  shows "lr_len (be32 n) < 0"
proof -
  have "bit (be32 n ! 0) 7 \<or> bit (be32 n ! 1) 7 \<or> bit (be32 n ! 2) 7 \<or> bit (be32 n ! 3) 7"
    using assms by (auto simp: plain_len_def be32_def bit_simps)
  then have "bit (push_bit 24 (scast (be32 n ! 0)) OR push_bit 16 (scast (be32 n ! 1)) OR push_bit 8 (scast (be32 n ! 2)) OR
      scast (be32 n ! 3) :: u32) (LENGTH(32) - Suc 0)"
    by (auto simp: bit_simps min_def)
  then show ?thesis unfolding lr_len_def bit_last_iff .
qed

section \<open>Reading what was written\<close>

text \<open>A reader in its file, and what is still to be read.\<close>

definition lr_at :: "bytes \<Rightarrow> log_reader \<Rightarrow> bool" where
  "lr_at rest r \<longleftrightarrow> (\<exists>pre. fd_bytes (lr_fd r) = pre @ rest \<and> fd_pos (lr_fd r) = length pre \<and> lr_cur r = int (length pre))"

lemma lr_at_left: "lr_at rest r \<Longrightarrow> int (length (fd_bytes (lr_fd r))) - lr_cur r = int (length rest)"
  by (auto simp: lr_at_def)

lemma lr_at_piece:
  assumes "lr_at (d @ e) r" "length d = n"
  shows "\<exists>r'. lr_piece n r = (Some d, r') \<and> lr_at e r'"
proof -
  obtain pre where "fd_bytes (lr_fd r) = pre @ d @ e" "fd_pos (lr_fd r) = length pre" "lr_cur r = int (length pre)"
    using assms(1) by (auto simp: lr_at_def)
  then show ?thesis using assms(2) by (auto simp: lr_piece_def fd_read_def lr_at_def intro!: exI [of _ "pre @ d"])
qed

lemma lr_at_short: "lr_at rest r \<Longrightarrow> length rest < n \<Longrightarrow> \<exists>r'. lr_piece n r = (None, r')"
  by (auto simp: lr_at_def lr_piece_def fd_read_def)

text \<open>A record whose bytes came out as \<open>crc\<close>, \<open>len\<close> and \<open>y\<close>, the length being that of \<open>y\<close>.\<close>

lemma read_data_ok:
  assumes "lr_at (y @ rest) r" "plain_len n" "length y = unat n" "length crc = 4" "y = [] \<Longrightarrow> eb_mem buf \<noteq> []"
  shows "\<exists>buf' r'. read_data junk ignore crc (be32 n) buf r =
    Inr (if crc_of (be32 n @ y) \<noteq> of_be32 crc then Bad_crc else if ignore = 33 then Ignored else No_err, buf', r') \<and>
    take (length y) (eb_mem buf') = y \<and> length y \<le> length (eb_mem buf') \<and> eb_mem buf' \<noteq> [] \<and> lr_at rest r'"
proof -
  have len: "lr_len (be32 n) = int (length y)" using lr_len_plain [OF assms(2)] assms(3) by simp
  have room: "\<not> int (length y) > int (length (fd_bytes (lr_fd r))) - lr_cur r" using lr_at_left [OF assms(1)] by simp
  obtain buf1 where buf1: "eb_reserve junk (length y) buf = Inr buf1" "length y \<le> length (eb_mem buf1)" "eb_mem buf1 \<noteq> []"
    using assms(5) by (cases "length (eb_mem buf) < length y"; cases "eb_mem buf = []") (auto simp: eb_reserve_def)
  have d: "take (length y) (drop (fd_pos (lr_fd r)) (fd_bytes (lr_fd r))) = y" using assms(1) by (auto simp: lr_at_def)
  let ?r = "r\<lparr>lr_fd := (lr_fd r)\<lparr>fd_pos := fd_pos (lr_fd r) + length y\<rparr>, lr_cur := lr_cur r + int (length y)\<rparr>"
  let ?b = "buf1\<lparr>eb_mem := y @ drop (length y) (eb_mem buf1)\<rparr>"
  have "read_data junk ignore crc (be32 n) buf r =
    Inr (if crc_of (be32 n @ y) \<noteq> of_be32 crc then Bad_crc else if ignore = 33 then Ignored else No_err, ?b, ?r)"
    using room buf1 d
    by (simp add: read_data_def len fd_read_def eb_raw_buf_def mem_write_def crc_two of_be32_crc assms(4) Let_def)
  moreover obtain pre where "fd_bytes (lr_fd r) = pre @ y @ rest" "fd_pos (lr_fd r) = length pre" "lr_cur r = int (length pre)"
    using assms(1) unfolding lr_at_def by blast
  then have "lr_at rest ?r" unfolding lr_at_def by (intro exI [of _ "pre @ y"]) simp
  moreover have "eb_mem ?b \<noteq> []" using buf1(2,3) by auto
  ultimately show ?thesis by (intro exI [of _ ?b] exI [of _ ?r]) simp
qed

text \<open>A whole record, of which the data may have changed since it was written.\<close>

lemma read_record_ok:
  assumes at: "lr_at (42 # be32 c @ be32 (of_nat (length y)) @ y @ rest) r" and y: "plain_len (of_nat (length y))" "length y < 2 ^ 32"
    "y = [] \<Longrightarrow> eb_mem buf \<noteq> []"
  shows "\<exists>buf' r'. read_record junk buf r =
    Inr (if crc_of (be32 (of_nat (length y)) @ y) \<noteq> c then Bad_crc else No_err, buf', r') \<and>
    take (length y) (eb_mem buf') = y \<and> length y \<le> length (eb_mem buf') \<and> eb_mem buf' \<noteq> [] \<and> lr_at rest r'"
proof -
  let ?n = "of_nat (length y) :: u32"
  obtain r1 where r1: "lr_piece 1 r = (Some [42], r1)" "lr_at (be32 c @ be32 ?n @ y @ rest) r1"
    using lr_at_piece [of "[42]" "be32 c @ be32 ?n @ y @ rest" r 1] at by auto
  obtain r2 where r2: "lr_piece 4 r1 = (Some (be32 c), r2)" "lr_at (be32 ?n @ y @ rest) r2" using lr_at_piece [OF r1(2)] by auto
  obtain r3 where r3: "lr_piece 4 r2 = (Some (be32 ?n), r3)" "lr_at (y @ rest) r3" using lr_at_piece [OF r2(2)] by auto
  have more: "lr_cur r \<noteq> int (length (fd_bytes (lr_fd r)))" using lr_at_left [OF at] by auto
  have n: "length y = unat ?n" using y(2) by (simp add: unat_of_nat take_bit_nat_eq_self_iff)
  have "read_record junk buf r = read_data junk 42 (be32 c) (be32 ?n) buf r3" using more r1(1) r2(1) r3(1) by (simp add: read_record_def)
  then show ?thesis using read_data_ok [OF r3(2) y(1) n be_lengths(2) [of c] y(3), where junk = junk and ignore = 42] by (auto simp: of_be32_be32)
qed

text \<open>The beginning of a record whose write was cut short.\<close>

lemma read_record_torn:
  assumes at: "lr_at (take j (rec_bytes x)) r" and j: "0 < j" "j < length (rec_bytes x)" and x: "plain_len (of_nat (length x))" "length x < 2 ^ 32"
  shows "\<exists>buf' r'. read_record junk buf r = Inr (Bad_crc, buf', r')"
proof -
  let ?n = "of_nat (length x) :: u32" and ?c = "crc_of (be32 (of_nat (length x)) @ x)"
  have more: "lr_cur r \<noteq> int (length (fd_bytes (lr_fd r)))" using lr_at_left [OF at] j by auto
  have "take j (rec_bytes x) = [42] @ take (j - 1) (be32 ?c @ be32 ?n @ x)"
    using j(1) by (cases j) (simp_all add: rec_bytes_def Let_def)
  then obtain r1 where r1: "lr_piece 1 r = (Some [42], r1)" "lr_at (take (j - 1) (be32 ?c @ be32 ?n @ x)) r1"
    using lr_at_piece [of "[42]" _ r 1] at by (metis length_Cons list.size(3) One_nat_def)
  show ?thesis
  proof (cases "j - 1 < 4")
    case True
    then show ?thesis using lr_at_short [OF r1(2), of 4] more r1(1) by (auto simp: read_record_def)
  next
    case False
    then have "take (j - 1) (be32 ?c @ be32 ?n @ x) = be32 ?c @ take (j - 5) (be32 ?n @ x)" by simp
    then obtain r2 where r2: "lr_piece 4 r1 = (Some (be32 ?c), r2)" "lr_at (take (j - 5) (be32 ?n @ x)) r2"
      using lr_at_piece [of "be32 ?c" _ r1 4] r1(2) by auto
    show ?thesis
    proof (cases "j - 5 < 4")
      case True
      then show ?thesis using lr_at_short [OF r2(2), of 4] more r1(1) r2(1) by (auto simp: read_record_def)
    next
      case False
      then have "take (j - 5) (be32 ?n @ x) = be32 ?n @ take (j - 9) x" by simp
      then obtain r3 where r3: "lr_piece 4 r2 = (Some (be32 ?n), r3)" "lr_at (take (j - 9) x) r3"
        using lr_at_piece [of "be32 ?n" _ r2 4] r2(2) by auto
      have "lr_len (be32 ?n) = int (length x)"
        using lr_len_plain [OF x(1)] x(2) by (simp add: unsigned_of_nat take_bit_nat_eq_self)
      then have "lr_len (be32 ?n) > int (length (fd_bytes (lr_fd r3))) - lr_cur r3"
        using lr_at_left [OF r3(2)] j(2) False by (simp add: rec_length min_def)
      then show ?thesis using more r1(1) r2(1) r3(1) by (simp add: read_record_def read_data_def)
    qed
  qed
qed

text \<open>Several calls of \<open>read_record\<close> into one buffer: what each returns, and the memory of the buffer after it.\<close>

primrec read_log :: "(nat \<Rightarrow> byte) \<Rightarrow> nat \<Rightarrow> ebuf \<Rightarrow> log_reader \<Rightarrow> ((log_result \<times> bytes) list \<times> ebuf \<times> log_reader) run" where
  "read_log junk 0 buf r = Inr ([], buf, r)"
| "read_log junk (Suc n) buf r = bind_run (read_record junk buf r) (\<lambda>(res, buf1, r1).
     bind_run (read_log junk n buf1 r1) (\<lambda>(out, buf2, r2). Inr ((res, eb_mem buf1) # out, buf2, r2)))"

definition log_ok :: "bytes \<Rightarrow> bool" where
  "log_ok x \<longleftrightarrow> plain_len (of_nat (length x)) \<and> length x < 2 ^ 32 \<and> x \<noteq> []"

lemma read_log_ok:
  "\<forall>x\<in>set xs. log_ok x \<Longrightarrow> lr_at (concat (map rec_bytes xs) @ rest) r \<Longrightarrow>
    \<exists>out buf' r'. read_log junk (length xs) buf r = Inr (out, buf', r') \<and> lr_at rest r' \<and>
      list_all2 (\<lambda>x (res, mem). res = No_err \<and> take (length x) mem = x) xs out"
proof (induction xs arbitrary: buf r)
  case (Cons x xs)
  let ?n = "of_nat (length x) :: u32"
  have at: "lr_at (42 # be32 (crc_of (be32 ?n @ x)) @ be32 ?n @ x @ concat (map rec_bytes xs) @ rest) r"
    using Cons(3) rec_bytes_def [of x] by (simp add: Let_def)
  have x: "plain_len ?n" "length x < 2 ^ 32" "x = [] \<Longrightarrow> eb_mem buf \<noteq> []" using Cons(2) by (auto simp: log_ok_def)
  obtain buf1 r1 where 1: "read_record junk buf r = Inr (No_err, buf1, r1)" "take (length x) (eb_mem buf1) = x"
      "lr_at (concat (map rec_bytes xs) @ rest) r1"
    using read_record_ok [OF at x, of junk] by auto
  then show ?case using Cons(1) [of r1 buf1] Cons(2) by fastforce
qed simp

lemma read_log_append:
  "read_log junk (m + n) buf r = bind_run (read_log junk m buf r) (\<lambda>(out1, buf1, r1).
     bind_run (read_log junk n buf1 r1) (\<lambda>(out2, buf2, r2). Inr (out1 @ out2, buf2, r2)))"
  by (induction m arbitrary: buf r) (auto simp: bind_run_assoc case_prod_beta bind_run_def split: sum.splits)

text \<open>
  Property C40. A checked log guards against short writes: records are appended to a file (write_record), the last write may be cut
  short at any byte; a reader then gets every complete record, in order and with its data, and after them the
  end of the log or BAD_CRC, never a record that was not written. Records are not empty, and no byte of their
  lengths has its highest bit set.
\<close>

theorem checked_log_short_write:
  assumes "\<forall>y\<in>set xs. log_ok y" "log_ok x" "j < length (rec_bytes x)"
  shows "let f = foldl (\<lambda>f x. write_record x f) (clw_init \<lparr>fd_bytes = [], fd_pos = 0\<rparr>) xs;
      g = write_record x f;
      cut = \<lparr>fd_bytes = take (length (fd_bytes f) + j) (fd_bytes g), fd_pos = 0\<rparr>
    in \<exists>out mem buf' r'. read_log junk (length xs + 1) buf (clr_init cut) =
        Inr (out @ [(if j = 0 then End_log else Bad_crc, mem)], buf', r') \<and>
      list_all2 (\<lambda>x (res, mem). res = No_err \<and> take (length x) mem = x) xs out"
proof -
  define f where "f = foldl (\<lambda>f x. write_record x f) (clw_init \<lparr>fd_bytes = [], fd_pos = 0\<rparr>) xs"
  let ?log = "concat (map rec_bytes xs)"
  have f: "fd_bytes f = ?log" "fd_pos f = length ?log" using write_records_end by (simp_all add: f_def clw_init_def)
  then have g: "fd_bytes (write_record x f) = ?log @ rec_bytes x" by (simp add: write_record_end)
  let ?r = "clr_init \<lparr>fd_bytes = take (length (fd_bytes f) + j) (fd_bytes (write_record x f)), fd_pos = 0\<rparr>"
  have "lr_at (?log @ take j (rec_bytes x)) ?r" by (simp add: lr_at_def clr_init_def f g)
  then obtain out buf1 r1 where 1: "read_log junk (length xs) buf ?r = Inr (out, buf1, r1)" "lr_at (take j (rec_bytes x)) r1"
      "list_all2 (\<lambda>x (res, mem). res = No_err \<and> take (length x) mem = x) xs out"
    using read_log_ok [OF assms(1)] by blast
  have "\<exists>buf2 r2. read_record junk buf1 r1 = Inr (if j = 0 then End_log else Bad_crc, buf2, r2)"
  proof (cases "j = 0")
    case True
    then show ?thesis using lr_at_left [OF 1(2)] by (simp add: read_record_def)
  next
    case False
    then show ?thesis using read_record_torn [OF 1(2) _ assms(3)] assms(2) by (simp add: log_ok_def)
  qed
  then obtain buf2 r2 where "read_log junk 1 buf1 r1 = Inr ([(if j = 0 then End_log else Bad_crc, eb_mem buf2)], buf2, r2)" by auto
  then have "read_log junk (length xs + 1) buf ?r = Inr (out @ [(if j = 0 then End_log else Bad_crc, eb_mem buf2)], buf2, r2)"
    using 1(1) unfolding read_log_append by simp
  then show ?thesis unfolding Let_def f_def [symmetric] using 1(3) by blast
qed

lemma read_record_bad:
  assumes "lr_at (42 # be32 c @ be32 n @ y @ rest) r" "n = of_nat (length y)" "plain_len n" "length y < 2 ^ 32" "y \<noteq> []"
    "crc_of (be32 n @ y) \<noteq> c"
  shows "\<exists>buf' r'. read_record junk buf r = Inr (Bad_crc, buf', r') \<and> lr_at rest r'"
  using read_record_ok [of c y rest r buf junk] assms by auto

text \<open>
  Also. The checksum of a record: when up to four consecutive bytes of its data changed in the file, the reader returns BAD_CRC.
\<close>

theorem checked_log_detects:
  assumes "log_ok (p @ e @ q)" "length e' = length e" "length e \<le> 4" "e' \<noteq> e"
    "lr_at (42 # be32 (crc_of (be32 (of_nat (length (p @ e @ q))) @ p @ e @ q)) @ be32 (of_nat (length (p @ e @ q))) @ p @ e' @ q @ rest) r"
  shows "\<exists>buf' r'. read_record junk buf r = Inr (Bad_crc, buf', r') \<and> lr_at rest r'"
proof -
  let ?x = "p @ e @ q" and ?y = "p @ e' @ q"
  let ?n = "of_nat (length ?x) :: u32"
  have len: "length ?x = length ?y" using assms(2) by simp
  have "crc_of ((be32 ?n @ p) @ e @ q) \<noteq> crc_of ((be32 ?n @ p) @ e' @ q)" by (rule crc_detects_burst_lemma) (use assms in auto)
  then have "crc_of (be32 ?n @ ?y) \<noteq> crc_of (be32 ?n @ ?x)" by simp
  moreover have "?y \<noteq> []" "length ?y < 2 ^ 32" using assms(1) len by (auto simp: log_ok_def)
  moreover have "lr_at (42 # be32 (crc_of (be32 ?n @ ?x)) @ be32 ?n @ ?y @ rest) r" using assms(5) by simp
  ultimately show ?thesis using read_record_bad [of _ ?n ?y rest r junk buf] assms(1) len unfolding log_ok_def by metis
qed

theorem checked_log_short_write_witness:
  "\<exists>out mem buf' r'. read_log (\<lambda>_. 0) (length [[1, 2 :: byte]] + 1) \<lparr>eb_mem = [], eb_len = 0\<rparr>
      (clr_init \<lparr>fd_bytes = take (11 + 5) (fd_bytes (write_record [7] (write_record [1, 2] (clw_init \<lparr>fd_bytes = [], fd_pos = 0\<rparr>)))), fd_pos = 0\<rparr>) =
      Inr (out @ [(Bad_crc, mem)], buf', r') \<and>
    list_all2 (\<lambda>x (res, mem). res = No_err \<and> take (length x) mem = x) [[1, 2]] out"
proof -
  have ok: "\<forall>y\<in>set [[1, 2 :: byte]]. log_ok y" "log_ok [7]" by (simp_all add: log_ok_def plain_len_def)
  have f: "length (fd_bytes (write_record [1, 2] (clw_init \<lparr>fd_bytes = [], fd_pos = 0\<rparr>))) = 11"
    by (simp add: write_record_end clw_init_def rec_length)
  have j: "5 < length (rec_bytes [7 :: byte])" by (simp add: rec_length)
  show ?thesis using checked_log_short_write [OF ok j, of "\<lambda>_. 0" "\<lparr>eb_mem = [], eb_len = 0\<rparr>"] by (simp only: Let_def foldl.simps f) simp
qed

text \<open>
  A divergence. The reader puts the length together from signed characters: a byte of the length with its highest bit set
  makes the length negative, and the reader panics instead of returning the record, of 128 bytes for instance.
\<close>

theorem checked_log_long_record:
  assumes "\<not> plain_len (of_nat (length x))" "lr_at (rec_bytes x @ rest) r"
  shows "read_record junk buf r = Inl Panicked"
proof -
  let ?n = "of_nat (length x) :: u32" and ?c = "crc_of (be32 (of_nat (length x)) @ x)"
  have at: "lr_at ([42] @ be32 ?c @ be32 ?n @ x @ rest) r" using assms(2) by (simp add: rec_bytes_def Let_def)
  obtain r1 where r1: "lr_piece 1 r = (Some [42], r1)" "lr_at (be32 ?c @ be32 ?n @ x @ rest) r1" using lr_at_piece [OF at, of 1] by auto
  obtain r2 where r2: "lr_piece 4 r1 = (Some (be32 ?c), r2)" "lr_at (be32 ?n @ x @ rest) r2" using lr_at_piece [OF r1(2)] by auto
  obtain r3 where r3: "lr_piece 4 r2 = (Some (be32 ?n), r3)" "lr_at (x @ rest) r3" using lr_at_piece [OF r2(2)] by auto
  have more: "lr_cur r \<noteq> int (length (fd_bytes (lr_fd r)))" using lr_at_left [OF at] by auto
  have "lr_len (be32 ?n) < 0" using lr_len_not_plain [OF assms(1)] .
  moreover have "\<not> lr_len (be32 ?n) > int (length (fd_bytes (lr_fd r3))) - lr_cur r3" using calculation lr_at_left [OF r3(2)] by simp
  ultimately show ?thesis using more r1(1) r2(1) r3(1) by (simp add: read_record_def read_data_def)
qed

theorem checked_log_long_record_witness:
  "read_record (\<lambda>_. 0) \<lparr>eb_mem = [], eb_len = 0\<rparr> (clr_init \<lparr>fd_bytes = rec_bytes (replicate 128 0), fd_pos = 0\<rparr>) = Inl Panicked"
  by (rule checked_log_long_record [where rest = "[]"]) (simp_all add: plain_len_def lr_at_def clr_init_def)

text \<open>Also. An empty record read into a buffer without memory fails the assertion of \<open>raw_buf\<close>.\<close>

theorem checked_log_empty_record:
  "read_record junk \<lparr>eb_mem = [], eb_len = 0\<rparr> (clr_init \<lparr>fd_bytes = rec_bytes [], fd_pos = 0\<rparr>) = Inl Assert_failed"
proof -
  have "plain_len 0" by (simp add: plain_len_def)
  then have "lr_len [0, 0, 0, 0] = 0" using lr_len_plain [of 0] by (simp add: be32_def)
  then show ?thesis
    by (simp add: read_record_def lr_piece_def fd_read_def clr_init_def rec_bytes_def be32_def read_data_def eb_reserve_def
        eb_raw_buf_def Let_def numeral_eq_Suc)
qed

end
