(* ===== verification/StreamSerialize.thy ===== *)
theory StreamSerialize
  imports Marshal
begin

text \<open>
  serialize/StreamSerialize.h and .cc: an object written to and read from a stream of bytes. The streams are interfaces
  (io/ByteStream.h): \<open>wr\<close> and \<open>rd\<close> are arguments, the methods \<open>write\<close> and \<open>read\<close> of the stream that an action is made for, and return the
  stream afterwards and an error code, \<open>rd\<close> also the bytes it put into the buffer. What is relied on of them are the
  locales \<open>out_stream\<close> and \<open>in_stream\<close>.
\<close>

section \<open>StreamSerialize\<close>

record 'st stream_action =
  act_stream :: 'st
  act_error :: bool

definition act_init :: "'st \<Rightarrow> 'st stream_action" where
  "act_init st = \<lparr>act_stream = st, act_error = False\<rparr>"

text \<open>What the methods share: nothing after an error, else a write and its error code. The bytes come from memory that must have them.\<close>

definition so_put :: "('st \<Rightarrow> bytes \<Rightarrow> ('st \<times> int) run) \<Rightarrow> bytes \<Rightarrow> nat \<Rightarrow> 'st stream_action \<Rightarrow> 'st stream_action run" where
  "so_put wr src n s =
     (if act_error s then Inr s
      else if n \<le> length src
      then bind_run (wr (act_stream s) (take n src)) (\<lambda>(st, err). Inr (s\<lparr>act_stream := st, act_error := err \<noteq> 0\<rparr>))
      else Inl Undefined)"

definition so_carrier :: "('st \<Rightarrow> bytes \<Rightarrow> ('st \<times> int) run) \<Rightarrow> carrier \<Rightarrow> 'st stream_action \<Rightarrow> 'st stream_action run" where
  "so_carrier wr c s = (let len = (of_nat (car_len c) :: u32) in
     bind_run (so_put wr (be32 len) 4 s) (\<lambda>s1. so_put wr (car_mem c) (unat len) s1))"

fun so_process :: "('st \<Rightarrow> bytes \<Rightarrow> ('st \<times> int) run) \<Rightarrow> 'st stream_action \<Rightarrow> string \<Rightarrow> field \<Rightarrow> ('st stream_action \<times> field) run" where
  "so_process wr s name (U64 i) = bind_run (so_put wr (be64 i) 8 s) (\<lambda>s1. Inr (s1, U64 i))"
| "so_process wr s name (U32 i) = bind_run (so_put wr (be32 i) 4 s) (\<lambda>s1. Inr (s1, U32 i))"
| "so_process wr s name (U16 i) = bind_run (so_put wr (be16 i) 2 s) (\<lambda>s1. Inr (s1, U16 i))"
| "so_process wr s name (U8 i) = bind_run (so_put wr [i] 1 s) (\<lambda>s1. Inr (s1, U8 i))"
| "so_process wr s name (Bool b) = bind_run (so_put wr [if b then 1 else 0] 1 s) (\<lambda>s1. Inr (s1, Bool b))"
| "so_process wr s name (Bytes bs) = bind_run (so_put wr bs (length bs) s) (\<lambda>s1. Inr (s1, Bytes bs))"
| "so_process wr s name (Carrier c) = bind_run (so_carrier wr c s) (\<lambda>s1. Inr (s1, Carrier c))"
| "so_process wr s name (Term c t) = bind_run (car_scan c t) (\<lambda>n.
     let c1 = car_set_len (n + 1) c in bind_run (so_carrier wr c1 s) (\<lambda>s1. Inr (s1, Term c1 t)))"
| "so_process wr s name (Str str) =
     (if act_error s then Inr (s, Str str)
      else let len = (of_nat (length str) :: u32) in
        bind_run (so_put wr (be32 len) 4 s) (\<lambda>s1.
        bind_run (so_put wr str (unat len) s1) (\<lambda>s2. Inr (s2, Str str))))"

definition so_action :: "('st \<Rightarrow> bytes \<Rightarrow> ('st \<times> int) run) \<Rightarrow> ('st \<Rightarrow> 'st) \<Rightarrow> ('st \<Rightarrow> 'st) \<Rightarrow> 'o visit \<Rightarrow> 'st stream_action \<Rightarrow>
    (int \<times> 'st stream_action \<times> 'o) run" where
  "so_action wr begin_stream end_stream = run_action act_error_update act_error
     (\<lambda>s. Inr (s\<lparr>act_stream := begin_stream (act_stream s)\<rparr>)) (so_process wr) (\<lambda>s. Inr (s\<lparr>act_stream := end_stream (act_stream s)\<rparr>))"

section \<open>StreamUnserialize\<close>

text \<open>A read into memory of a number of bytes: what came, unless the stream reported an error.\<close>

definition si_read :: "('st \<Rightarrow> nat \<Rightarrow> ('st \<times> bytes \<times> int) run) \<Rightarrow> nat \<Rightarrow> 'st stream_action \<Rightarrow> ('st stream_action \<times> bytes \<times> int) run" where
  "si_read rd n s = bind_run (rd (act_stream s) n) (\<lambda>(st, bs, err).
     Inr (s\<lparr>act_stream := st, act_error := act_error s \<or> err \<noteq> 0\<rparr>, bs, err))"

definition si_get :: "('st \<Rightarrow> nat \<Rightarrow> ('st \<times> bytes \<times> int) run) \<Rightarrow> nat \<Rightarrow> 'st stream_action \<Rightarrow> ('st stream_action \<times> bytes option) run" where
  "si_get rd n s =
     (if act_error s then Inr (s, None)
      else bind_run (si_read rd n s) (\<lambda>(s1, bs, err). Inr (s1, if err \<noteq> 0 then None else Some bs)))"

text \<open>The carrier's method tests neither the error flag before it reads nor that the length was read; \<open>junk\<close> is an uninitialised length.\<close>

definition si_carrier :: "u32 \<Rightarrow> ('st \<Rightarrow> nat \<Rightarrow> ('st \<times> bytes \<times> int) run) \<Rightarrow> carrier \<Rightarrow> 'st stream_action \<Rightarrow> ('st stream_action \<times> carrier) run" where
  "si_carrier junk rd c s =
     bind_run (si_get rd 4 s) (\<lambda>(s1, r).
     let len = (case r of None \<Rightarrow> junk | Some b \<Rightarrow> of_be32 b) in
     bind_run (si_read rd (unat len) s1) (\<lambda>(s2, bs, err).
     Inr (s2, if err \<noteq> 0 then c else car_set_buf (Some bs) (unat len) True c)))"

fun si_process :: "u32 \<Rightarrow> ('st \<Rightarrow> nat \<Rightarrow> ('st \<times> bytes \<times> int) run) \<Rightarrow> 'st stream_action \<Rightarrow> string \<Rightarrow> field \<Rightarrow>
    ('st stream_action \<times> field) run" where
  "si_process junk rd s name (U64 i) = bind_run (si_get rd 8 s) (\<lambda>(s1, r). Inr (s1, case r of None \<Rightarrow> U64 i | Some b \<Rightarrow> U64 (of_be64 b)))"
| "si_process junk rd s name (U32 i) = bind_run (si_get rd 4 s) (\<lambda>(s1, r). Inr (s1, case r of None \<Rightarrow> U32 i | Some b \<Rightarrow> U32 (of_be32 b)))"
| "si_process junk rd s name (U16 i) = bind_run (si_get rd 2 s) (\<lambda>(s1, r). Inr (s1, case r of None \<Rightarrow> U16 i | Some b \<Rightarrow> U16 (of_be16 b)))"
| "si_process junk rd s name (U8 i) = bind_run (si_get rd 1 s) (\<lambda>(s1, r). Inr (s1, case r of None \<Rightarrow> U8 i | Some b \<Rightarrow> U8 (b ! 0)))"
| "si_process junk rd s name (Bool x) = bind_run (si_get rd 1 s) (\<lambda>(s1, r). Inr (s1, case r of None \<Rightarrow> Bool x | Some b \<Rightarrow> Bool (b ! 0 \<noteq> 0)))"
| "si_process junk rd s name (Bytes bs) =
     (if act_error s then Inr (s, Bytes bs)
      else bind_run (si_read rd (length bs) s) (\<lambda>(s1, got, err). Inr (s1, Bytes (got @ drop (length got) bs))))"
| "si_process junk rd s name (Carrier c) = bind_run (si_carrier junk rd c s) (\<lambda>(s1, c1). Inr (s1, Carrier c1))"
| "si_process junk rd s name (Term c t) = bind_run (si_carrier junk rd c s) (\<lambda>(s1, c1). Inr (s1, Term c1 t))"
| "si_process junk rd s name (Str str) =
     bind_run (si_get rd 4 s) (\<lambda>(s1, r). case r of
       None \<Rightarrow> Inr (s1, Str str)
     | Some b \<Rightarrow> bind_run (si_get rd (unat (of_be32 b)) s1) (\<lambda>(s2, r2). Inr (s2, case r2 of None \<Rightarrow> Str str | Some bs \<Rightarrow> Str bs)))"

definition si_action :: "u32 \<Rightarrow> ('st \<Rightarrow> nat \<Rightarrow> ('st \<times> bytes \<times> int) run) \<Rightarrow> ('st \<Rightarrow> 'st) \<Rightarrow> ('st \<Rightarrow> 'st) \<Rightarrow> 'o visit \<Rightarrow>
    'st stream_action \<Rightarrow> (int \<times> 'st stream_action \<times> 'o) run" where
  "si_action junk rd begin_stream end_stream = run_action act_error_update act_error
     (\<lambda>s. Inr (s\<lparr>act_stream := begin_stream (act_stream s)\<rparr>)) (si_process junk rd) (\<lambda>s. Inr (s\<lparr>act_stream := end_stream (act_stream s)\<rparr>))"

section \<open>A stream that is written\<close>

text \<open>The contract of a stream without errors: \<open>content\<close> is what has been written to it.\<close>

locale out_stream =
  fixes wr :: "'st \<Rightarrow> bytes \<Rightarrow> ('st \<times> int) run"
    and good :: "'st \<Rightarrow> bool"
    and content :: "'st \<Rightarrow> bytes"
  assumes write_ok: "good st \<Longrightarrow> \<exists>st'. wr st bs = Inr (st', 0) \<and> good st' \<and> content st' = content st @ bs"
begin

definition sink_ok :: "'st stream_action \<Rightarrow> bool" where
  "sink_ok s \<longleftrightarrow> good (act_stream s) \<and> \<not> act_error s"

definition sink_adds :: "'st stream_action \<Rightarrow> bytes \<Rightarrow> 'st stream_action \<Rightarrow> bool" where
  "sink_adds s bs s' \<longleftrightarrow> content (act_stream s') = content (act_stream s) @ bs"

lemma so_put_ok: "sink_ok s \<Longrightarrow> n \<le> length src \<Longrightarrow> \<exists>s'. so_put wr src n s = Inr s' \<and> sink_ok s' \<and> sink_adds s (take n src) s'"
  using write_ok [of "act_stream s" "take n src"] by (auto simp: so_put_def sink_ok_def sink_adds_def)

lemma so_put_two:
  assumes "sink_ok s" "length a = m" "n \<le> length b"
  shows "\<exists>s1 s2. so_put wr a m s = Inr s1 \<and> so_put wr b n s1 = Inr s2 \<and> sink_ok s1 \<and> sink_ok s2 \<and> sink_adds s (a @ take n b) s2"
  using so_put_ok [OF assms(1), of m a] so_put_ok [OF _ assms(3)] assms(2) by (fastforce simp: sink_adds_def)

lemma so_field:
  assumes "sink_ok s" "field_ok f"
  shows "\<exists>s'. so_process wr s name f = Inr (s', f) \<and> sink_ok s' \<and> sink_adds s (wire f) s'"
proof (cases f)
  case (Carrier c)
  then have c: "unat (of_nat (car_len c) :: u32) = car_len c" "car_len c \<le> length (car_mem c)"
    using assms(2) by (auto simp: car_ok_def unat_of_nat take_bit_nat_eq_self)
  show ?thesis using so_put_two [OF assms(1) be_lengths(2) c(2), of "of_nat (car_len c)"] Carrier c(1) assms(2)
    by (auto simp: so_carrier_def car_bytes_def car_ok_def Let_def)
next
  case (Str str)
  then have "unat (of_nat (length str) :: u32) = length str" using assms(2) by (simp add: unat_of_nat take_bit_nat_eq_self)
  then show ?thesis using so_put_two [OF assms(1) be_lengths(2), of "length str" str "of_nat (length str)"] Str assms
    by (auto simp: Let_def sink_ok_def)
qed (use assms so_put_ok [OF assms(1), of "length (wire f)" "wire f"] in auto)

lemma so_stuck: "act_error s \<Longrightarrow> field_ok f \<Longrightarrow> so_process wr s name f = Inr (s, f)"
  by (cases f) (simp_all add: so_put_def so_carrier_def Let_def)

end

sublocale out_stream \<subseteq> byte_sink "so_process wr" sink_ok act_error "\<lambda>_ _. True" sink_adds
  by unfold_locales (use so_field in \<open>auto simp: so_stuck sink_adds_def\<close>)

section \<open>A stream that is read\<close>

locale in_stream =
  fixes rd :: "'st \<Rightarrow> nat \<Rightarrow> ('st \<times> bytes \<times> int) run"
    and left :: "'st \<Rightarrow> bytes \<Rightarrow> bool"
  assumes read_ok: "left st (d @ r) \<Longrightarrow> \<exists>st'. rd st (length d) = Inr (st', d, 0) \<and> left st' r"
begin

definition source :: "bytes \<Rightarrow> 'st stream_action \<Rightarrow> bool" where
  "source r s \<longleftrightarrow> left (act_stream s) r \<and> \<not> act_error s"

lemma si_read_ok: "source (d @ r) s \<Longrightarrow> length d = n \<Longrightarrow> \<exists>s'. si_read rd n s = Inr (s', d, 0) \<and> source r s'"
  using read_ok [of "act_stream s" d r] by (auto simp: si_read_def source_def)

lemma si_get_ok: "source (d @ r) s \<Longrightarrow> length d = n \<Longrightarrow> \<exists>s'. si_get rd n s = Inr (s', Some d) \<and> source r s'"
  using si_read_ok [of d r s n] by (auto simp: si_get_def source_def)

lemma si_carrier_ok:
  assumes "source (be32 (of_nat (length d)) @ d @ r) s" "length d < 2 ^ 32"
  shows "\<exists>s'. si_carrier junk rd c s = Inr (s', \<lparr>car_buf = Some d, car_len = length d, car_own = True\<rparr>) \<and> source r s'"
proof -
  have n: "unat (of_nat (length d) :: u32) = length d" using assms(2) by (simp add: unat_of_nat take_bit_nat_eq_self)
  obtain s1 where s1: "si_get rd 4 s = Inr (s1, Some (be32 (of_nat (length d))))" "source (d @ r) s1"
    using si_get_ok [OF assms(1), of 4] by auto
  then show ?thesis using si_read_ok [OF s1(2), of "length d"] n by (auto simp: si_carrier_def of_be32_be32 car_set_buf_def)
qed

lemma si_field:
  assumes "field_ok f" "field_fits f g" "source (wire f @ r) s"
  shows "\<exists>s' f'. si_process junk rd s name g = Inr (s', f') \<and> field_same f f' \<and> source r s'"
proof (cases f)
  case (Carrier c)
  with assms(2) obtain c' where g: "g = Carrier c'" by (cases g) auto
  have c: "car_len c < 2 ^ 32" "length (car_bytes c) = car_len c" using assms(1) Carrier by (auto simp: car_bytes_def car_ok_def)
  have "source (be32 (of_nat (length (car_bytes c))) @ car_bytes c @ r) s" using assms(3) Carrier c(2) by simp
  then show ?thesis using si_carrier_ok [of "car_bytes c" r s junk c'] c Carrier g
    by (auto simp: car_bytes_def car_ok_def car_mem_def)
next
  case (Str str)
  with assms(2) obtain str' where g: "g = Str str'" by (cases g) auto
  have n: "unat (of_nat (length str) :: u32) = length str" using assms(1) Str by (simp add: unat_of_nat take_bit_nat_eq_self)
  obtain s1 where s1: "si_get rd 4 s = Inr (s1, Some (be32 (of_nat (length str))))" "source (str @ r) s1"
    using si_get_ok [of "be32 (of_nat (length str))" "str @ r" s 4] assms(3) Str by auto
  then show ?thesis using si_get_ok [OF s1(2), of "length str"] n g Str by (auto simp: of_be32_be32)
next
  case (Bytes bs)
  with assms(2) obtain bs' where g: "g = Bytes bs'" "length bs' = length bs" by (cases g) auto
  then show ?thesis using si_read_ok [of bs r s "length bs"] assms(3) Bytes by (auto simp: source_def)
qed (use assms si_get_ok [of "wire f" r s "length (wire f)"] in \<open>cases g; auto simp: of_be16_be16 of_be32_be32 of_be64_be64\<close>)+

lemma si_run:
  "mirrors R v w \<Longrightarrow> source (visit_wire v @ r) s \<Longrightarrow>
    \<exists>s' res. visit_run (si_process junk rd) w s = Inr (s', res) \<and> R (visit_result v) res \<and> source r s'"
proof (induction arbitrary: s rule: mirrors.induct)
  case (mirrors_Process f g k l name name')
  obtain s1 f1 where 1: "si_process junk rd s name' g = Inr (s1, f1)" "field_same f f1" "source (visit_wire (k f) @ r) s1"
    using si_field [OF mirrors_Process(1,2), of "visit_wire (k f) @ r" s junk name'] mirrors_Process(5) by auto
  from mirrors_Process(4) [OF 1(2,3)] 1(1) show ?case by auto
qed auto

end

end
