(* ===== verification/FileBacked.thy ===== *)
theory FileBacked
  imports StreamSerialize
begin

text \<open>
  storage/FileBackedObject.h and .cc, FileBackedObjectStream.cc, FileBackedObjectStore.cc: objects in files, with transactions, and
  the streams through which serializable objects are put into them. Of the file system the model has names, files and open descriptors;
  a call fails where its documentation says so for the state (a missing name, a name that exists already), not for lack of space or
  rights. An object's mutex is recursive, and an operation holds it throughout. A descriptor that is no longer open
  is \<open>None\<close>, the code's -1.
\<close>

section \<open>The file system\<close>

record fsys =
  fs_names :: "string \<Rightarrow> nat option"
  fs_data :: "nat \<Rightarrow> bytes"
  fs_disk :: "nat \<Rightarrow> bytes"
  fs_fds :: "nat \<Rightarrow> (nat \<times> nat) option"
  fs_next :: nat
  fs_next_fd :: nat

text \<open>Bytes put into a file at an offset; the gap behind its end is filled with zeros, unless there is nothing to write.\<close>

definition file_put :: "nat \<Rightarrow> bytes \<Rightarrow> bytes \<Rightarrow> bytes" where
  "file_put off bs d =
     (if bs = [] then d else take off d @ replicate (off - length d) 0 @ bs @ drop (off + length bs) d)"

definition file_resize :: "nat \<Rightarrow> bytes \<Rightarrow> bytes" where
  "file_resize n d = take n d @ replicate (n - length d) 0"

definition fs_open :: "string \<Rightarrow> fsys \<Rightarrow> nat option \<times> fsys" where
  "fs_open p fs = (case fs_names fs p of None \<Rightarrow> (None, fs)
     | Some i \<Rightarrow> (Some (fs_next_fd fs), fs\<lparr>fs_fds := (fs_fds fs)(fs_next_fd fs \<mapsto> (i, 0)), fs_next_fd := fs_next_fd fs + 1\<rparr>))"

text \<open>Creating a file that must not exist yet (\<open>O_CREAT | O_EXCL\<close>) and closing it: whether it was created.\<close>

definition fs_create :: "string \<Rightarrow> bytes \<Rightarrow> fsys \<Rightarrow> bool \<times> fsys" where
  "fs_create p bs fs = (case fs_names fs p of Some i \<Rightarrow> (False, fs)
     | None \<Rightarrow> (True, fs\<lparr>fs_names := (fs_names fs)(p \<mapsto> fs_next fs), fs_data := (fs_data fs)(fs_next fs := bs),
         fs_disk := (fs_disk fs)(fs_next fs := []), fs_next := fs_next fs + 1\<rparr>))"

definition fs_close :: "nat \<Rightarrow> fsys \<Rightarrow> fsys" where
  "fs_close fd fs = fs\<lparr>fs_fds := (fs_fds fs)(fd := None)\<rparr>"

definition fs_seek :: "nat \<Rightarrow> nat \<Rightarrow> fsys \<Rightarrow> fsys" where
  "fs_seek fd off fs = (case fs_fds fs fd of None \<Rightarrow> fs | Some (i, pos) \<Rightarrow> fs\<lparr>fs_fds := (fs_fds fs)(fd \<mapsto> (i, off))\<rparr>)"

definition fs_read :: "nat \<Rightarrow> nat \<Rightarrow> fsys \<Rightarrow> bytes \<times> fsys" where
  "fs_read fd n fs = (case fs_fds fs fd of None \<Rightarrow> ([], fs)
     | Some (i, pos) \<Rightarrow> (let bs = take n (drop pos (fs_data fs i)) in (bs, fs\<lparr>fs_fds := (fs_fds fs)(fd \<mapsto> (i, pos + length bs))\<rparr>)))"

definition fs_write :: "nat \<Rightarrow> bytes \<Rightarrow> fsys \<Rightarrow> fsys" where
  "fs_write fd bs fs = (case fs_fds fs fd of None \<Rightarrow> fs
     | Some (i, pos) \<Rightarrow> fs\<lparr>fs_data := (fs_data fs)(i := file_put pos bs (fs_data fs i)), fs_fds := (fs_fds fs)(fd \<mapsto> (i, pos + length bs))\<rparr>)"

definition fs_end :: "nat \<Rightarrow> fsys \<Rightarrow> nat" where
  "fs_end fd fs = (case fs_fds fs fd of None \<Rightarrow> 0 | Some (i, pos) \<Rightarrow> length (fs_data fs i))"

definition fs_truncate :: "nat \<Rightarrow> nat \<Rightarrow> fsys \<Rightarrow> fsys" where
  "fs_truncate fd n fs = (case fs_fds fs fd of None \<Rightarrow> fs
     | Some (i, pos) \<Rightarrow> fs\<lparr>fs_data := (fs_data fs)(i := file_resize n (fs_data fs i))\<rparr>)"

definition fs_sync :: "nat \<Rightarrow> fsys \<Rightarrow> fsys" where
  "fs_sync fd fs = (case fs_fds fs fd of None \<Rightarrow> fs | Some (i, pos) \<Rightarrow> fs\<lparr>fs_disk := (fs_disk fs)(i := fs_data fs i)\<rparr>)"

definition fs_unlink :: "string \<Rightarrow> fsys \<Rightarrow> bool \<times> fsys" where
  "fs_unlink p fs = (fs_names fs p \<noteq> None, fs\<lparr>fs_names := (fs_names fs)(p := None)\<rparr>)"

definition fs_rename :: "string \<Rightarrow> string \<Rightarrow> fsys \<Rightarrow> bool \<times> fsys" where
  "fs_rename p q fs = (case fs_names fs p of None \<Rightarrow> (False, fs)
     | Some i \<Rightarrow> (True, fs\<lparr>fs_names := (fs_names fs)(p := None, q \<mapsto> i)\<rparr>))"

definition fs_link :: "string \<Rightarrow> string \<Rightarrow> fsys \<Rightarrow> bool \<times> fsys" where
  "fs_link p q fs = (case fs_names fs p of None \<Rightarrow> (False, fs)
     | Some i \<Rightarrow> if fs_names fs q = None then (True, fs\<lparr>fs_names := (fs_names fs)(q \<mapsto> i)\<rparr>) else (False, fs))"

text \<open>\<open>FileUtils::fast_copy\<close>: \<open>False\<close> for its error.\<close>

definition fast_copy :: "string \<Rightarrow> string \<Rightarrow> fsys \<Rightarrow> bool \<times> fsys" where
  "fast_copy src dest fs = (case fs_names fs src of None \<Rightarrow> (False, fs) | Some i \<Rightarrow> fs_create dest (fs_data fs i) fs)"

section \<open>FileBackedObject\<close>

record fbo =
  fb_name :: string
  fb_fd :: "nat option"
  fb_flags :: u32
  fb_cur :: nat
  fb_opens :: nat

type_synonym fb_state = "fsys \<times> fbo"

definition fb_init :: "string \<Rightarrow> u32 \<Rightarrow> nat \<Rightarrow> fbo" where
  "fb_init name flags junk = \<lparr>fb_name = name, fb_fd = None, fb_flags = flags, fb_cur = junk, fb_opens = 0\<rparr>"

definition fb_destroy :: "fb_state \<Rightarrow> fsys" where
  "fb_destroy st = (case st of (fs, x) \<Rightarrow> case fb_fd x of None \<Rightarrow> fs | Some fd \<Rightarrow> fs_close fd fs)"

definition fb_open :: "fb_state \<Rightarrow> fb_state run" where
  "fb_open st = (case st of (fs, x) \<Rightarrow>
     bind_run (assert_run (\<not> bit (fb_flags x) 8)) (\<lambda>_.
     if fb_fd x \<noteq> None then Inr (fs, x)
     else case fs_open (fb_name x) fs of
       (None, fs1) \<Rightarrow> Inl Assert_failed
     | (Some fd, fs1) \<Rightarrow> Inr (fs1, x\<lparr>fb_fd := Some fd, fb_cur := 0\<rparr>)))"

definition fb_close :: "fb_state \<Rightarrow> fb_state" where
  "fb_close st = (case st of (fs, x) \<Rightarrow> (case fb_fd x of
       None \<Rightarrow> (fs, x)
     | Some fd \<Rightarrow> if fb_opens x > 0 then (fs, x) else (fs_close fd fs, x\<lparr>fb_fd := None\<rparr>)))"

definition fb_set_flags :: "u32 \<Rightarrow> fb_state \<Rightarrow> fb_state" where
  "fb_set_flags flags st = (case st of (fs, x) \<Rightarrow> fb_close (fs, x\<lparr>fb_flags := flags\<rparr>))"

definition fb_size :: "fb_state \<Rightarrow> nat run" where
  "fb_size st = (case st of (fs, x) \<Rightarrow> case fs_names fs (fb_name x) of None \<Rightarrow> Inl Assert_failed | Some i \<Rightarrow> Inr (length (fs_data fs i)))"

text \<open>An open descriptor and its number, which the assertions after \<open>open\<close> ask for.\<close>

definition fb_get_fd :: "fbo \<Rightarrow> nat run" where
  "fb_get_fd x = (case fb_fd x of None \<Rightarrow> Inl Assert_failed | Some fd \<Rightarrow> Inr fd)"

definition fb_seek :: "nat \<Rightarrow> nat \<Rightarrow> fb_state \<Rightarrow> fb_state" where
  "fb_seek fd off st = (case st of (fs, x) \<Rightarrow> if fb_cur x \<noteq> off then (fs_seek fd off fs, x\<lparr>fb_cur := off\<rparr>) else (fs, x))"

definition fb_read_bytes :: "nat \<Rightarrow> nat \<Rightarrow> fb_state \<Rightarrow> (bytes \<times> fb_state) run" where
  "fb_read_bytes off n st =
     bind_run (fb_open st) (\<lambda>st1.
     bind_run (fb_get_fd (snd st1)) (\<lambda>fd.
     let (fs, x) = fb_seek fd off st1; (bs, fs1) = fs_read fd n fs
     in Inr (bs, fb_close (fs1, x\<lparr>fb_cur := fb_cur x + length bs\<rparr>))))"

definition fb_write_bytes :: "nat \<Rightarrow> bytes \<Rightarrow> fb_state \<Rightarrow> fb_state run" where
  "fb_write_bytes off bs st =
     bind_run (fb_open st) (\<lambda>st1.
     bind_run (fb_get_fd (snd st1)) (\<lambda>fd.
     let (fs, x) = fb_seek fd off st1
     in Inr (fb_close (fs_write fd bs fs, x\<lparr>fb_cur := fb_cur x + length bs\<rparr>))))"

definition fb_append_bytes :: "bytes \<Rightarrow> fb_state \<Rightarrow> fb_state run" where
  "fb_append_bytes bs st =
     bind_run (fb_open st) (\<lambda>(fs, x).
     bind_run (fb_get_fd x) (\<lambda>fd.
     let off = fs_end fd fs in fb_write_bytes off bs (fs_seek fd off fs, x\<lparr>fb_cur := off\<rparr>)))"

definition fb_truncate :: "nat \<Rightarrow> fb_state \<Rightarrow> fb_state run" where
  "fb_truncate n st =
     bind_run (fb_open st) (\<lambda>(fs, x).
     bind_run (fb_get_fd x) (\<lambda>fd. Inr (fb_close (fs_truncate fd n fs, x))))"

definition fb_fsync_data :: "fb_state \<Rightarrow> fb_state" where
  "fb_fsync_data st = (case st of (fs, x) \<Rightarrow> (case fb_fd x of None \<Rightarrow> fs | Some fd \<Rightarrow> fs_sync fd fs, x))"

text \<open>\<open>unlink\<close> closes every descriptor but 0.\<close>

definition fb_unlink :: "fb_state \<Rightarrow> fb_state run" where
  "fb_unlink st = (case st of (fs, x) \<Rightarrow>
     let (fs1, fd1) = (case fb_fd x of None \<Rightarrow> (fs, None) | Some fd \<Rightarrow> if fd \<noteq> 0 then (fs_close fd fs, None) else (fs, Some fd));
         (ok, fs2) = fs_unlink (fb_name x) fs1
     in bind_run (assert_run ok) (\<lambda>_.
        Inr (fs2, x\<lparr>fb_name := ''/INVALID_FILE'', fb_fd := fd1, fb_flags := set_bit 8 (fb_flags x)\<rparr>)))"

definition fb_reload :: "fb_state \<Rightarrow> fb_state run" where
  "fb_reload st = fb_open (fb_close st)"

text \<open>\<open>far\<close>: the other name is on another device, where no link can be made and the contents are copied.\<close>

definition fb_replace_with_file :: "bool \<Rightarrow> string \<Rightarrow> fb_state \<Rightarrow> (bool \<times> fb_state) run" where
  "fb_replace_with_file far name st =
     (let old = fb_name (snd st) in
     bind_run (fb_unlink st) (\<lambda>(fs, x).
     bind_run (assert_run (fb_fd x = None)) (\<lambda>_.
     let (ok, fs1) = (if far then fast_copy name old fs else fs_link name old fs)
     in Inr (if ok then (True, fs1, x\<lparr>fb_name := old, fb_flags := unset_bit 8 (fb_flags x)\<rparr>) else (False, fs1, x)))))"

section \<open>Transactions\<close>

definition fb_scope_begin :: "fb_state \<Rightarrow> fb_state run" where
  "fb_scope_begin st = (case st of (fs, x) \<Rightarrow> fb_open (fs, x\<lparr>fb_opens := fb_opens x + 1\<rparr>))"

definition fb_scope_end :: "fb_state \<Rightarrow> fb_state" where
  "fb_scope_end st = (case st of (fs, x) \<Rightarrow>
     let x1 = x\<lparr>fb_opens := fb_opens x - 1\<rparr> in if fb_opens x1 = 0 then fb_close (fs, x1) else (fs, x1))"

text \<open>
  A transaction on an object is the object of the \<open>.tx\<close> file, or \<open>None\<close> after \<open>commit\<close> or \<open>abort\<close>; the object itself is the one that
  the operations take and return.
\<close>

definition tx_name :: "fbo \<Rightarrow> string" where
  "tx_name x = fb_name x @ ''.tx''"

definition tx_start :: "u32 \<Rightarrow> nat \<Rightarrow> fb_state \<Rightarrow> (fsys \<times> fbo option) run" where
  "tx_start flags junk st = (case st of (fs, x) \<Rightarrow>
     bind_run
       (if bit flags 1 then Inr (snd (fs_create (tx_name x) [] fs))
        else case fast_copy (fb_name x) (tx_name x) fs of (ok, fs1) \<Rightarrow> bind_run (assert_run ok) (\<lambda>_. Inr fs1)) (\<lambda>fs1.
     Inr (fs1, Some (fb_init (tx_name x) flags junk))))"

definition tx_commit :: "fbo option \<Rightarrow> fb_state \<Rightarrow> (fbo option \<times> fb_state) run" where
  "tx_commit tx st = (case tx of
       None \<Rightarrow> Inr (None, st)
     | Some t \<Rightarrow> (case st of (fs, x) \<Rightarrow>
         let (fs1, t1) = fb_fsync_data (fs, t);
             (ok, fs2) = fs_rename (fb_name t1) (fb_name x) fs1
         in bind_run (assert_run ok) (\<lambda>_.
            bind_run (fb_reload (fs2, x)) (\<lambda>(fs3, x1). Inr (None, fb_destroy (fs3, t1), x1)))))"

definition tx_abort :: "fbo option \<Rightarrow> fb_state \<Rightarrow> (fbo option \<times> fb_state) run" where
  "tx_abort tx st = (case tx of
       None \<Rightarrow> Inl Undefined
     | Some t \<Rightarrow> (case st of (fs, x) \<Rightarrow> bind_run (fb_unlink (fs, t)) (\<lambda>st1. Inr (None, fb_destroy st1, x))))"

definition tx_destroy :: "fbo option \<Rightarrow> fb_state \<Rightarrow> (fbo option \<times> fb_state) run" where
  "tx_destroy = tx_commit"

section \<open>Streams, and serializable objects in a file\<close>

record fb_stream =
  st_object :: fb_state
  st_offset :: nat

definition out_write :: "fb_stream \<Rightarrow> bytes \<Rightarrow> (fb_stream \<times> int) run" where
  "out_write s bs = bind_run (fb_write_bytes (st_offset s) bs (st_object s)) (\<lambda>st.
     Inr (s\<lparr>st_object := st, st_offset := st_offset s + length bs\<rparr>, 0))"

definition in_read :: "fb_stream \<Rightarrow> nat \<Rightarrow> (fb_stream \<times> bytes \<times> int) run" where
  "in_read s n = bind_run (fb_read_bytes (st_offset s) n (st_object s)) (\<lambda>(bs, st).
     bind_run (assert_run (length bs = n)) (\<lambda>_.
     Inr (s\<lparr>st_object := st, st_offset := st_offset s + n\<rparr>, bs, 0)))"

definition fb_serialize :: "'o visit \<Rightarrow> int \<Rightarrow> fb_state \<Rightarrow> (int \<times> fb_state \<times> 'o) run" where
  "fb_serialize obj offset st =
     bind_run (fb_scope_begin st) (\<lambda>st1.
     bind_run (fb_open st1) (\<lambda>st2.
     bind_run (fb_size st2) (\<lambda>size.
     bind_run (fb_get_fd (snd st2)) (\<lambda>fd.
     let at = int size + offset;
         (fs, x) = st2;
         st3 = (if at = int (fb_cur x) then (fs, x)
           else if at \<ge> 0 then (fs_seek fd (nat at) fs, x\<lparr>fb_cur := nat at\<rparr>)
           else (fs, x\<lparr>fb_cur := if size = 0 then 0 else 2 ^ 64 - 1\<rparr>))
     in bind_run (so_action out_write id id obj (act_init \<lparr>st_object = st3, st_offset = fb_cur (snd st3)\<rparr>)) (\<lambda>(ret, s, res).
        Inr (ret, fb_scope_end (st_object (act_stream s)), res))))))"

definition fb_unserialize :: "u32 \<Rightarrow> 'o visit \<Rightarrow> fb_state \<Rightarrow> (int \<times> fb_state \<times> 'o) run" where
  "fb_unserialize junk obj st =
     bind_run (si_action junk in_read id id obj (act_init \<lparr>st_object = st, st_offset = 0\<rparr>)) (\<lambda>(ret, s, res).
     Inr (ret, st_object (act_stream s), res))"

section \<open>FileBackedObjectStore\<close>

text \<open>The store is its root directory; \<open>entries\<close> is what \<open>readdir\<close> returns one after the other.\<close>

definition object_path :: "string \<Rightarrow> string \<Rightarrow> string" where
  "object_path root key = root @ ''/'' @ key"

definition object_exists :: "string \<Rightarrow> string \<Rightarrow> fsys \<Rightarrow> bool" where
  "object_exists root key fs \<longleftrightarrow> fs_names fs (object_path root key) \<noteq> None"

definition new_object :: "string \<Rightarrow> string \<Rightarrow> fsys \<Rightarrow> (int \<times> fsys) run" where
  "new_object root key fs =
     (if object_exists root key fs then Inr (- 1, fs)
      else case fs_create (object_path root key) [] fs of (ok, fs1) \<Rightarrow> bind_run (assert_run ok) (\<lambda>_. Inr (0, fs1)))"

definition get_handle :: "string \<Rightarrow> string \<Rightarrow> u32 \<Rightarrow> nat \<Rightarrow> fsys \<Rightarrow> fbo run" where
  "get_handle root key flags junk fs =
     bind_run (assert_run (object_exists root key fs)) (\<lambda>_. Inr (fb_init (object_path root key) flags junk))"

definition del_object :: "string \<Rightarrow> string \<Rightarrow> fsys \<Rightarrow> (int \<times> fsys) run" where
  "del_object root key fs =
     (if \<not> object_exists root key fs then Inr (- 1, fs)
      else case fs_unlink (object_path root key) fs of (ok, fs1) \<Rightarrow> bind_run (assert_run ok) (\<lambda>_. Inr (0, fs1)))"

definition copy_object :: "string \<Rightarrow> string \<Rightarrow> string \<Rightarrow> fsys \<Rightarrow> (int \<times> fsys) run" where
  "copy_object root src dest fs =
     (if \<not> object_exists root src fs then Inr (- 1, fs)
      else if object_exists root dest fs then Inr (- 1, fs)
      else case fast_copy (object_path root src) (object_path root dest) fs of (ok, fs1) \<Rightarrow> bind_run (assert_run ok) (\<lambda>_. Inr (0, fs1)))"

definition get_stats :: "string list \<Rightarrow> nat" where
  "get_stats entries = length entries + 1"

definition get_object_names :: "string list \<Rightarrow> string list" where
  "get_object_names entries = filter (\<lambda>e. \<not> (e = ''.'' \<or> e = ''..'')) entries"

section \<open>A file as a sequence of bytes\<close>

text \<open>
  The state an object can be in between operations, as long as its file is not unlinked or renamed behind its back: its descriptor is
  of the file that its name stands for, at the offset that it keeps.
\<close>

definition fs_ok :: "fsys \<Rightarrow> bool" where
  "fs_ok fs \<longleftrightarrow> (\<forall>p i. fs_names fs p = Some i \<longrightarrow> i < fs_next fs) \<and> (\<forall>fd v. fs_fds fs fd = Some v \<longrightarrow> fd < fs_next_fd fs \<and> fst v < fs_next fs)"

definition fb_ok :: "fb_state \<Rightarrow> bool" where
  "fb_ok st \<longleftrightarrow> (case st of (fs, x) \<Rightarrow> fs_ok fs \<and> \<not> bit (fb_flags x) 8 \<and>
     (\<exists>i. fs_names fs (fb_name x) = Some i \<and> (case fb_fd x of None \<Rightarrow> True | Some fd \<Rightarrow> fs_fds fs fd = Some (i, fb_cur x))))"

definition fb_contents :: "fb_state \<Rightarrow> bytes" where
  "fb_contents st = (case st of (fs, x) \<Rightarrow> case fs_names fs (fb_name x) of None \<Rightarrow> [] | Some i \<Rightarrow> fs_data fs i)"

text \<open>What an operation leaves alone: names, other files, and the descriptors of others.\<close>

definition fb_only :: "fb_state \<Rightarrow> fb_state \<Rightarrow> bool" where
  "fb_only st st' \<longleftrightarrow> (case st of (fs, x) \<Rightarrow> case st' of (fs', x') \<Rightarrow>
     fs_names fs' = fs_names fs \<and> fs_next fs' = fs_next fs \<and> fs_next_fd fs \<le> fs_next_fd fs' \<and>
     fb_name x' = fb_name x \<and> fb_flags x' = fb_flags x \<and> fb_opens x' = fb_opens x \<and> fs_disk fs' = fs_disk fs \<and>
     (\<forall>i. fs_names fs (fb_name x) \<noteq> Some i \<longrightarrow> fs_data fs' i = fs_data fs i) \<and>
     (\<forall>fd. fd < fs_next_fd fs \<longrightarrow> fb_fd x \<noteq> Some fd \<longrightarrow> fs_fds fs' fd = fs_fds fs fd) \<and>
     (\<forall>fd. fb_fd x' = Some fd \<longrightarrow> fb_fd x = Some fd \<or> fs_next_fd fs \<le> fd))"

lemma fb_only_refl: "fb_only st st"
  by (simp add: fb_only_def split: prod.splits)

lemma fb_only_trans: "fb_only a b \<Longrightarrow> fb_only b c \<Longrightarrow> fb_only a c"
  by (cases a; cases b; cases c; simp add: fb_only_def) (metis order.trans order_less_le_trans leD)

lemma fs_ok_names [dest]: "fs_ok fs \<Longrightarrow> fs_names fs p = Some i \<Longrightarrow> i < fs_next fs"
  by (simp add: fs_ok_def)

lemma fs_ok_fds [dest]: "fs_ok fs \<Longrightarrow> fs_fds fs fd = Some v \<Longrightarrow> fd < fs_next_fd fs \<and> fst v < fs_next fs"
  unfolding fs_ok_def by blast

lemma fs_ok_data [simp]: "fs_ok (fs\<lparr>fs_data := d\<rparr>) = fs_ok fs" "fs_ok (fs\<lparr>fs_disk := d\<rparr>) = fs_ok fs"
  by (simp_all add: fs_ok_def)

lemma fs_ok_position: "fs_ok fs \<Longrightarrow> fs_fds fs fd = Some (i, p) \<Longrightarrow> fs_ok (fs\<lparr>fs_fds := (fs_fds fs)(fd \<mapsto> (i, q))\<rparr>)"
  by (force simp: fs_ok_def)

lemma fs_ok_position_data: "fs_ok fs \<Longrightarrow> fs_fds fs fd = Some (i, p) \<Longrightarrow> fs_ok (fs\<lparr>fs_data := d, fs_fds := (fs_fds fs)(fd \<mapsto> (i, q))\<rparr>)"
  using fs_ok_position [of "fs\<lparr>fs_data := d\<rparr>"] by simp

lemma fs_ok_close: "fs_ok fs \<Longrightarrow> fs_ok (fs_close fd fs)"
  by (simp add: fs_ok_def fs_close_def)

lemma fs_ok_open: "fs_ok fs \<Longrightarrow> fs_names fs p = Some i \<Longrightarrow>
    fs_ok (fs\<lparr>fs_fds := (fs_fds fs)(fs_next_fd fs \<mapsto> (i, 0)), fs_next_fd := Suc (fs_next_fd fs)\<rparr>)"
  by (force simp: fs_ok_def less_Suc_eq)

lemmas fs_ok_intros = fs_ok_position fs_ok_position_data fs_ok_close fs_ok_open

text \<open>A step of an object: from a state to another in which the file has the contents \<open>c\<close>, and nothing else changed.\<close>

definition fb_step :: "fb_state \<Rightarrow> fb_state \<Rightarrow> bytes \<Rightarrow> bool" where
  "fb_step st st' c \<longleftrightarrow> fb_ok st' \<and> fb_only st st' \<and> fb_contents st' = c"

lemma fb_step_trans: "fb_step a b c \<Longrightarrow> fb_step b d e \<Longrightarrow> fb_step a d e"
  by (auto simp: fb_step_def intro: fb_only_trans)

lemma fb_step_refl: "fb_ok st \<Longrightarrow> fb_step st st (fb_contents st)"
  by (simp add: fb_step_def fb_only_refl)

lemma fb_close_ok: "fb_ok st \<Longrightarrow> fb_step st (fb_close st) (fb_contents st)"
  by (cases st; cases "fb_fd (snd st)")
    (auto simp: fb_step_def fb_close_def fb_ok_def fb_only_def fb_contents_def fs_ok_close, auto simp: fs_close_def)

lemma fb_open_ok: "fb_ok st \<Longrightarrow> \<exists>st' fd. fb_open st = Inr st' \<and> fb_fd (snd st') = Some fd \<and> fb_step st st' (fb_contents st)"
  by (cases st; cases "fb_fd (snd st)")
    (auto simp: fb_step_def fb_open_def fb_ok_def fb_only_def fb_contents_def fs_ok_intros fs_open_def split: if_splits)

lemma fb_seek_ok: "fb_ok st \<Longrightarrow> fb_fd (snd st) = Some fd \<Longrightarrow>
    fb_step st (fb_seek fd off st) (fb_contents st) \<and> fb_fd (snd (fb_seek fd off st)) = Some fd \<and> fb_cur (snd (fb_seek fd off st)) = off"
  by (cases st) (auto simp: fb_step_def fb_seek_def fb_ok_def fb_only_def fb_contents_def fs_ok_intros fs_seek_def split: if_splits)

lemma fs_write_ok: "fb_ok (fs, x) \<Longrightarrow> fb_fd x = Some fd \<Longrightarrow>
    fb_step (fs, x) (fs_write fd bs fs, x\<lparr>fb_cur := fb_cur x + length bs\<rparr>) (file_put (fb_cur x) bs (fb_contents (fs, x)))"
  by (auto simp: fb_step_def fb_ok_def fb_only_def fb_contents_def fs_ok_intros fs_write_def split: if_splits)

lemma fs_read_ok: "fb_ok (fs, x) \<Longrightarrow> fb_fd x = Some fd \<Longrightarrow> \<exists>fs'. fs_read fd n fs = (take n (drop (fb_cur x) (fb_contents (fs, x))), fs') \<and>
    fb_step (fs, x) (fs', x\<lparr>fb_cur := fb_cur x + length (take n (drop (fb_cur x) (fb_contents (fs, x))))\<rparr>) (fb_contents (fs, x))"
  by (auto simp: fb_step_def fb_ok_def fb_only_def fb_contents_def fs_ok_intros fs_read_def Let_def split: if_splits)

lemma fs_truncate_ok: "fb_ok (fs, x) \<Longrightarrow> fb_fd x = Some fd \<Longrightarrow> fb_step (fs, x) (fs_truncate fd n fs, x) (file_resize n (fb_contents (fs, x)))"
  by (auto simp: fb_step_def fb_ok_def fb_only_def fb_contents_def fs_ok_intros fs_truncate_def split: if_splits)

lemma fb_step_ok: "fb_step a b c \<Longrightarrow> fb_ok b" "fb_step a b c \<Longrightarrow> fb_contents b = c"
  by (simp_all add: fb_step_def)

lemma fb_close_step: "fb_step a b c \<Longrightarrow> fb_step a (fb_close b) c"
  using fb_step_trans [OF _ fb_close_ok] fb_step_ok by metis

lemma fb_read_bytes_ok:
  assumes "fb_ok st"
  shows "\<exists>st'. fb_read_bytes off n st = Inr (take n (drop off (fb_contents st)), st') \<and> fb_step st st' (fb_contents st)"
proof -
  obtain st1 fd where 1: "fb_open st = Inr st1" "fb_fd (snd st1) = Some fd" "fb_step st st1 (fb_contents st)" using fb_open_ok [OF assms] by blast
  obtain fs x where 2: "fb_seek fd off st1 = (fs, x)" by (cases "fb_seek fd off st1")
  have 3: "fb_step st1 (fs, x) (fb_contents st)" "fb_fd x = Some fd" "fb_cur x = off"
    using fb_seek_ok [OF fb_step_ok(1) [OF 1(3)] 1(2), of off] fb_step_ok(2) [OF 1(3)] 2 by auto
  obtain fs' where 4: "fs_read fd n fs = (take n (drop off (fb_contents st)), fs')"
      "fb_step (fs, x) (fs', x\<lparr>fb_cur := off + length (take n (drop off (fb_contents st)))\<rparr>) (fb_contents st)"
    using fs_read_ok [OF fb_step_ok(1) [OF 3(1)] 3(2), of n] fb_step_ok(2) [OF 3(1)] 3(3) by auto
  show ?thesis using fb_close_step [OF fb_step_trans [OF fb_step_trans [OF 1(3) 3(1)] 4(2)]] 1 2 3 4(1)
    by (simp add: fb_read_bytes_def fb_get_fd_def)
qed

lemma fb_write_bytes_ok:
  assumes "fb_ok st"
  shows "\<exists>st'. fb_write_bytes off bs st = Inr st' \<and> fb_step st st' (file_put off bs (fb_contents st))"
proof -
  obtain st1 fd where 1: "fb_open st = Inr st1" "fb_fd (snd st1) = Some fd" "fb_step st st1 (fb_contents st)" using fb_open_ok [OF assms] by blast
  obtain fs x where 2: "fb_seek fd off st1 = (fs, x)" by (cases "fb_seek fd off st1")
  have 3: "fb_step st1 (fs, x) (fb_contents st)" "fb_fd x = Some fd" "fb_cur x = off"
    using fb_seek_ok [OF fb_step_ok(1) [OF 1(3)] 1(2), of off] fb_step_ok(2) [OF 1(3)] 2 by auto
  have 4: "fb_step (fs, x) (fs_write fd bs fs, x\<lparr>fb_cur := off + length bs\<rparr>) (file_put off bs (fb_contents st))"
    using fs_write_ok [OF fb_step_ok(1) [OF 3(1)] 3(2), of bs] fb_step_ok(2) [OF 3(1)] 3(3) by simp
  show ?thesis using fb_close_step [OF fb_step_trans [OF fb_step_trans [OF 1(3) 3(1)] 4]] 1 2 3
    by (simp add: fb_write_bytes_def fb_get_fd_def)
qed

lemma fb_append_bytes_ok:
  assumes "fb_ok st"
  shows "\<exists>st'. fb_append_bytes bs st = Inr st' \<and> fb_step st st' (fb_contents st @ bs)"
proof -
  obtain fs x fd where 1: "fb_open st = Inr (fs, x)" "fb_fd x = Some fd" "fb_step st (fs, x) (fb_contents st)"
    using fb_open_ok [OF assms] by (metis prod.collapse)
  let ?off = "length (fb_contents st)"
  have e: "fs_end fd fs = ?off" using fb_step_ok [OF 1(3)] 1(2) by (auto simp: fb_ok_def fb_contents_def fs_end_def)
  let ?s = "(fs_seek fd ?off fs, x\<lparr>fb_cur := ?off\<rparr>)"
  have 2: "fb_step (fs, x) ?s (fb_contents st)"
    using fb_step_ok [OF 1(3)] 1(2) by (auto simp: fb_step_def fb_ok_def fb_only_def fb_contents_def fs_ok_intros fs_seek_def split: if_splits)
  obtain st' where 3: "fb_write_bytes ?off bs ?s = Inr st'" "fb_step ?s st' (file_put ?off bs (fb_contents st))"
    using fb_write_bytes_ok [OF fb_step_ok(1) [OF 2], of ?off bs] fb_step_ok(2) [OF 2] by auto
  have "file_put ?off bs (fb_contents st) = fb_contents st @ bs" by (simp add: file_put_def)
  then show ?thesis using fb_step_trans [OF fb_step_trans [OF 1(3) 2] 3(2)] 3(1) 1 e by (simp add: fb_append_bytes_def fb_get_fd_def)
qed

lemma fb_truncate_ok:
  assumes "fb_ok st"
  shows "\<exists>st'. fb_truncate n st = Inr st' \<and> fb_step st st' (file_resize n (fb_contents st))"
proof -
  obtain fs x fd where 1: "fb_open st = Inr (fs, x)" "fb_fd x = Some fd" "fb_step st (fs, x) (fb_contents st)"
    using fb_open_ok [OF assms] by (metis prod.collapse)
  have 2: "fb_step (fs, x) (fs_truncate fd n fs, x) (file_resize n (fb_contents st))"
    using fs_truncate_ok [OF fb_step_ok(1) [OF 1(3)] 1(2), of n] fb_step_ok(2) [OF 1(3)] by simp
  show ?thesis using fb_close_step [OF fb_step_trans [OF 1(3) 2]] 1 by (simp add: fb_truncate_def fb_get_fd_def)
qed

section \<open>Objects as files\<close>

datatype file_op = Read nat nat | Write nat bytes | Append bytes | Truncate nat

fun fb_exec :: "fb_state \<Rightarrow> file_op \<Rightarrow> fb_state run" where
  "fb_exec st (Read off n) = bind_run (fb_read_bytes off n st) (\<lambda>(bs, st1). Inr st1)"
| "fb_exec st (Write off bs) = fb_write_bytes off bs st"
| "fb_exec st (Append bs) = fb_append_bytes bs st"
| "fb_exec st (Truncate n) = fb_truncate n st"

fun file_exec :: "bytes \<Rightarrow> file_op \<Rightarrow> bytes" where
  "file_exec d (Read off n) = d"
| "file_exec d (Write off bs) = file_put off bs d"
| "file_exec d (Append bs) = d @ bs"
| "file_exec d (Truncate n) = file_resize n d"

lemma fb_exec_ok:
  assumes "fb_ok st"
  shows "\<exists>st'. fb_exec st p = Inr st' \<and> fb_step st st' (file_exec (fb_contents st) p)"
proof (cases p)
  case (Read off n)
  then show ?thesis using fb_read_bytes_ok [OF assms, of off n] by auto
qed (use fb_write_bytes_ok [OF assms] fb_append_bytes_ok [OF assms] fb_truncate_ok [OF assms] in simp_all)

lemma fb_run_ok: "fb_ok st \<Longrightarrow> \<exists>st'. run_all fb_exec st ps = Inr st' \<and> fb_step st st' (foldl file_exec (fb_contents st) ps)"
proof (induction ps arbitrary: st)
  case (Cons p ps)
  then obtain st1 where 1: "fb_exec st p = Inr st1" "fb_step st st1 (file_exec (fb_contents st) p)" using fb_exec_ok by blast
  obtain st2 where "run_all fb_exec st1 ps = Inr st2" "fb_step st1 st2 (foldl file_exec (file_exec (fb_contents st) p) ps)"
    using Cons.IH [OF fb_step_ok(1) [OF 1(2)]] fb_step_ok(2) [OF 1(2)] by auto
  then show ?case using 1 fb_step_trans [OF 1(2)] by auto
qed (use fb_step_refl in auto)

section \<open>Transactions are atomic\<close>

text \<open>Another object on another file does not notice what happens to this one.\<close>

lemma fb_frame:
  assumes "fb_ok (fs, x)" "fb_step (fs, t) (fs', t') c" "fs_names fs (fb_name t) = Some j" "fs_names fs (fb_name x) = Some i" "i \<noteq> j"
    "fb_fd t = None"
  shows "fb_ok (fs', x)" "fb_contents (fs', x) = fb_contents (fs, x)"
proof -
  have o: "fs_names fs' = fs_names fs" "fs_data fs' i = fs_data fs i" "fs_ok fs'" "\<And>fd. fd < fs_next_fd fs \<Longrightarrow> fs_fds fs' fd = fs_fds fs fd"
    using assms(2,3,5,6) by (auto simp: fb_step_def fb_only_def fb_ok_def)
  show "fb_contents (fs', x) = fb_contents (fs, x)" using o(1,2) assms(4) by (simp add: fb_contents_def)
  have "fb_fd x = Some fd \<Longrightarrow> fs_fds fs' fd = fs_fds fs fd" for fd
    using assms(1) o(4) by (auto simp: fb_ok_def)
  then show "fb_ok (fs', x)" using assms(1) o(1,3) by (auto simp: fb_ok_def split: option.splits)
qed

lemma tx_name_other: "tx_name x \<noteq> fb_name x"
  by (simp add: tx_name_def)

lemma tx_start_ok:
  assumes ok: "fb_ok (fs, x)" and new: "fs_names fs (tx_name x) = None" and flags: "\<not> bit flags 8"
  shows "\<exists>fs1 t. tx_start flags junk (fs, x) = Inr (fs1, Some t) \<and> fb_ok (fs1, t) \<and> fb_ok (fs1, x) \<and> fb_name t = tx_name x \<and> fb_fd t = None \<and>
    fs_names fs1 = (fs_names fs)(tx_name x \<mapsto> fs_next fs) \<and> fb_contents (fs1, x) = fb_contents (fs, x) \<and>
    fb_contents (fs1, t) = (if bit flags 1 then [] else fb_contents (fs, x))"
proof -
  obtain i where i: "fs_names fs (fb_name x) = Some i" "i < fs_next fs" using ok by (auto simp: fb_ok_def)
  let ?fs = "\<lambda>bs. fs\<lparr>fs_names := (fs_names fs)(tx_name x \<mapsto> fs_next fs), fs_data := (fs_data fs)(fs_next fs := bs),
      fs_disk := (fs_disk fs)(fs_next fs := []), fs_next := fs_next fs + 1\<rparr>"
  let ?bs = "if bit flags 1 then [] else fb_contents (fs, x)"
  have "fs_ok (?fs bs)" for bs using ok by (auto simp: fs_ok_def fb_ok_def less_Suc_eq)
  moreover have "tx_start flags junk (fs, x) = Inr (?fs ?bs, Some (fb_init (tx_name x) flags junk))"
    using i(1) new by (simp add: tx_start_def fs_create_def fast_copy_def fb_contents_def)
  ultimately show ?thesis using ok i new flags tx_name_other [of x]
    by (auto simp: fb_ok_def fb_contents_def fb_init_def split: option.splits)
qed

lemma tx_commit_ok:
  assumes x: "fb_ok (fs, x)" "fb_opens x = 0" and t: "fb_ok (fs, t)" "fb_name t \<noteq> fb_name x"
  shows "\<exists>fs' x'. tx_commit (Some t) (fs, x) = Inr (None, fs', x') \<and> fb_ok (fs', x') \<and> fb_contents (fs', x') = fb_contents (fs, t) \<and>
    fb_name x' = fb_name x \<and> fs_names fs' (fb_name t) = None"
proof -
  obtain j where j: "fs_names fs (fb_name t) = Some j" using t(1) by (auto simp: fb_ok_def)
  define fs1 where "fs1 = fst (fb_fsync_data (fs, t))"
  have f1: "fb_fsync_data (fs, t) = (fs1, t)" "fs_names fs1 = fs_names fs" "fs_data fs1 = fs_data fs" "fs_ok fs1" "fs_next_fd fs1 = fs_next_fd fs"
    using t(1) by (auto simp: fs1_def fb_fsync_data_def fs_sync_def fb_ok_def split: option.splits)
  let ?fs2 = "fs1\<lparr>fs_names := (fs_names fs1)(fb_name t := None, fb_name x \<mapsto> j)\<rparr>"
  have r: "fs_rename (fb_name t) (fb_name x) fs1 = (True, ?fs2)" using j f1(2) by (simp add: fs_rename_def)
  have ok2: "fs_ok ?fs2" using f1(2,4) j by (auto simp: fs_ok_def split: if_splits)
  have d: "fs_data ?fs2 j = fb_contents (fs, t)" using j f1(3) by (simp add: fb_contents_def)
  have c: "\<exists>fs3. fb_close (?fs2, x) = (fs3, x\<lparr>fb_fd := None\<rparr>) \<and> fs_ok fs3 \<and> fs_names fs3 = fs_names ?fs2 \<and> fs_data fs3 = fs_data ?fs2 \<and>
      fs_next_fd fs3 = fs_next_fd fs"
    using f1(5) x(2) ok2 fs_ok_close [OF ok2] by (cases "fb_fd x") (auto simp: fb_close_def fs_close_def)
  then obtain fs3 where c: "fb_close (?fs2, x) = (fs3, x\<lparr>fb_fd := None\<rparr>)" "fs_ok fs3" "fs_names fs3 = fs_names ?fs2" "fs_data fs3 = fs_data ?fs2"
      "fs_next_fd fs3 = fs_next_fd fs"
    by blast
  let ?x = "x\<lparr>fb_fd := Some (fs_next_fd fs3), fb_cur := 0\<rparr>"
  let ?fs4 = "fs3\<lparr>fs_fds := (fs_fds fs3)(fs_next_fd fs3 \<mapsto> (j, 0)), fs_next_fd := fs_next_fd fs3 + 1\<rparr>"
  have o: "fb_reload (?fs2, x) = Inr (?fs4, ?x)" using c x(1) by (simp add: fb_reload_def fb_open_def fs_open_def fb_ok_def)
  have ok4: "fs_ok ?fs4" using fs_ok_open [OF c(2), of "fb_name x" j] c(3) by simp
  have new: "fb_fd t \<noteq> Some (fs_next_fd fs3)" using t(1) c(5) by (auto simp: fb_ok_def)
  have "fs_names (fb_destroy (?fs4, t)) = fs_names ?fs2" "fs_data (fb_destroy (?fs4, t)) = fs_data fs" "fs_ok (fb_destroy (?fs4, t))"
      "fs_fds (fb_destroy (?fs4, t)) (fs_next_fd fs3) = Some (j, 0)"
    using new fs_ok_close [OF ok4] ok4 c(3,4) f1(3) by (cases "fb_fd t"; simp add: fb_destroy_def fs_close_def)+
  then have "fb_ok (fb_destroy (?fs4, t), ?x)" "fb_contents (fb_destroy (?fs4, t), ?x) = fb_contents (fs, t)"
      "fs_names (fb_destroy (?fs4, t)) (fb_name t) = None"
    using d f1(3) t(2) x(1) by (auto simp: fb_ok_def fb_contents_def)
  moreover have "tx_commit (Some t) (fs, x) = Inr (None, fb_destroy (?fs4, t), ?x)"
    unfolding tx_commit_def using f1(1) r o by simp
  ultimately show ?thesis by auto
qed

lemma tx_abort_ok:
  assumes x: "fb_ok (fs, x)" and t: "fb_ok (fs, t)" "fb_name t \<noteq> fb_name x" "fb_fd t = None \<or> fb_fd t \<noteq> fb_fd x"
  shows "\<exists>fs'. tx_abort (Some t) (fs, x) = Inr (None, fs', x) \<and> fb_ok (fs', x) \<and> fb_contents (fs', x) = fb_contents (fs, x) \<and>
    fs_names fs' = (fs_names fs)(fb_name t := None)"
proof -
  obtain j where j: "fs_names fs (fb_name t) = Some j" using t(1) by (auto simp: fb_ok_def)
  have ok: "fs_ok fs" using x by (simp add: fb_ok_def)
  then have names: "fs_ok (fs\<lparr>fs_names := (fs_names fs)(p := None)\<rparr>)" for p by (auto simp: fs_ok_def)
  obtain fs' where "tx_abort (Some t) (fs, x) = Inr (None, fs', x)" "fs_names fs' = (fs_names fs)(fb_name t := None)" "fs_ok fs'"
      "fs_data fs' = fs_data fs" "\<forall>fd. fb_fd t \<noteq> Some fd \<longrightarrow> fs_fds fs' fd = fs_fds fs fd"
  proof (cases "fb_fd t")
    case None
    then show ?thesis using that [of "fs\<lparr>fs_names := (fs_names fs)(fb_name t := None)\<rparr>"] j names
      by (simp add: tx_abort_def fb_unlink_def fs_unlink_def fb_destroy_def)
  next
    case (Some fd)
    have "(fs_close fd fs)\<lparr>fs_names := (fs_names fs)(fb_name t := None)\<rparr> = fs_close fd (fs\<lparr>fs_names := (fs_names fs)(fb_name t := None)\<rparr>)"
      by (simp add: fs_close_def)
    then have "tx_abort (Some t) (fs, x) = Inr (None, fs_close fd (fs\<lparr>fs_names := (fs_names fs)(fb_name t := None)\<rparr>), x)"
      using Some j by (cases "fd = 0") (simp_all add: tx_abort_def fb_unlink_def fs_unlink_def fb_destroy_def, simp_all add: fs_close_def)
    then show ?thesis using that fs_ok_close [OF names, of fd] Some by (simp add: fs_close_def)
  qed
  then show ?thesis using x t(2,3) by (auto simp: fb_ok_def fb_contents_def split: option.splits)
qed

text \<open>
  Property C21. Operations on an object in a file are operations on a sequence of bytes (read_bytes, write_bytes, append_bytes, truncate), whether it
  is open or not and wherever its offset stands: a write of some bytes behind the end fills the gap with zeros, and a write of none changes nothing.
  A read returns the bytes from its offset on, and neither other files nor the names change.
\<close>

theorem file_object_refines:
  assumes "fb_ok st"
  shows "\<exists>st' st''. run_all fb_exec st ps = Inr st' \<and> fb_contents st' = foldl file_exec (fb_contents st) ps \<and>
    fb_read_bytes off n st' = Inr (take n (drop off (foldl file_exec (fb_contents st) ps)), st'') \<and> fb_ok st'' \<and> fb_contents st'' = fb_contents st' \<and>
    fs_names (fst st'') = fs_names (fst st) \<and> (\<forall>i. fs_names (fst st) (fb_name (snd st)) \<noteq> Some i \<longrightarrow> fs_data (fst st'') i = fs_data (fst st) i)"
proof -
  obtain st' where 1: "run_all fb_exec st ps = Inr st'" "fb_step st st' (foldl file_exec (fb_contents st) ps)" using fb_run_ok [OF assms] by blast
  note c = fb_step_ok [OF 1(2)]
  obtain st'' where 2: "fb_read_bytes off n st' = Inr (take n (drop off (foldl file_exec (fb_contents st) ps)), st'')"
      "fb_step st' st'' (foldl file_exec (fb_contents st) ps)"
    using fb_read_bytes_ok [OF c(1), of off n] unfolding c(2) by blast
  have "fb_step st st'' (foldl file_exec (fb_contents st) ps)" by (rule fb_step_trans [OF 1(2) 2(2)])
  then show ?thesis using 1(1) 2(1) c(2) by (intro exI [of _ st'] exI [of _ st'']) (simp add: fb_step_def fb_only_def split: prod.splits)
qed

text \<open>
  Property C3. A transaction is atomic: whatever is done to its object, the file has its old contents until \<open>commit\<close>, which
  gives it those of the transaction's object; \<open>abort\<close> leaves the file and the names as they were. The transaction begins with a copy of the
  file, or with a blank file (INIT_BLANK); its name is free, and the object is not held open by a scope.
\<close>

theorem tx_atomic:
  assumes "fb_ok (fs, x)" "fs_names fs (tx_name x) = None" "\<not> bit flags 8" "fb_opens x = 0"
  shows "\<exists>fs1 t fs2 t2 fs3 x3 fs4. tx_start flags junk (fs, x) = Inr (fs1, Some t) \<and> run_all fb_exec (fs1, t) ps = Inr (fs2, t2) \<and>
    fb_contents (fs1, x) = fb_contents (fs, x) \<and> fb_contents (fs2, x) = fb_contents (fs, x) \<and>
    tx_commit (Some t2) (fs2, x) = Inr (None, fs3, x3) \<and> fb_ok (fs3, x3) \<and> fb_name x3 = fb_name x \<and>
      fb_contents (fs3, x3) = foldl file_exec (if bit flags 1 then [] else fb_contents (fs, x)) ps \<and> fs_names fs3 (tx_name x) = None \<and>
    tx_abort (Some t2) (fs2, x) = Inr (None, fs4, x) \<and> fb_ok (fs4, x) \<and>
      fb_contents (fs4, x) = fb_contents (fs, x) \<and> fs_names fs4 = fs_names fs"
proof -
  obtain fs1 t where 1: "tx_start flags junk (fs, x) = Inr (fs1, Some t)" "fb_ok (fs1, t)" "fb_ok (fs1, x)" "fb_name t = tx_name x" "fb_fd t = None"
      "fs_names fs1 = (fs_names fs)(tx_name x \<mapsto> fs_next fs)" "fb_contents (fs1, x) = fb_contents (fs, x)"
      "fb_contents (fs1, t) = (if bit flags 1 then [] else fb_contents (fs, x))"
    using tx_start_ok [OF assms(1-3)] by blast
  obtain fs2 t2 where 2: "run_all fb_exec (fs1, t) ps = Inr (fs2, t2)" "fb_step (fs1, t) (fs2, t2) (foldl file_exec (fb_contents (fs1, t)) ps)"
    using fb_run_ok [OF 1(2)] by (metis prod.collapse)
  obtain i where i: "fs_names fs1 (fb_name x) = Some i" "i \<noteq> fs_next fs"
    using assms(1) 1(6) tx_name_other [of x] by (auto simp: fb_ok_def dest: fs_ok_names)
  have j: "fs_names fs1 (fb_name t) = Some (fs_next fs)" using 1(4,6) by simp
  note fr = fb_frame [OF 1(3) 2(2) j i(1) i(2) 1(5)]
  have t2: "fb_ok (fs2, t2)" "fb_name t2 = tx_name x" "fs_names fs2 = fs_names fs1" "fb_fd t2 = Some fd \<Longrightarrow> fs_next_fd fs1 \<le> fd" for fd
    using 2(2) 1(4,5) by (auto simp: fb_step_def fb_only_def)
  have "fd < fs_next_fd fs1" if "fb_fd x = Some fd" for fd using 1(3) that by (auto simp: fb_ok_def dest: fs_ok_fds)
  then have "fb_fd t2 = None \<or> fb_fd t2 \<noteq> fb_fd x" using t2(4) by (metis leD option.exhaust)
  then obtain fs4 where 4: "tx_abort (Some t2) (fs2, x) = Inr (None, fs4, x)" "fb_ok (fs4, x)" "fb_contents (fs4, x) = fb_contents (fs2, x)"
      "fs_names fs4 = (fs_names fs2)(tx_name x := None)"
    using tx_abort_ok [OF fr(1) t2(1)] t2(2) tx_name_other [of x] by auto
  obtain fs3 x3 where 3: "tx_commit (Some t2) (fs2, x) = Inr (None, fs3, x3)" "fb_ok (fs3, x3)" "fb_contents (fs3, x3) = fb_contents (fs2, t2)"
      "fb_name x3 = fb_name x" "fs_names fs3 (tx_name x) = None"
    using tx_commit_ok [OF fr(1) assms(4) t2(1)] t2(2) tx_name_other [of x] by auto
  have "fs_names fs4 = fs_names fs" unfolding 4(4) t2(3) 1(6) using assms(2) by auto
  then show ?thesis using 1(1,7,8) 2 3 4(1-3) fr(2) fb_step_ok(2) [OF 2(2)] by auto
qed

section \<open>Serializable objects in files\<close>

text \<open>The streams on an object keep the contracts of the streams: written at the end, and read from an offset.\<close>

definition out_at_end :: "fb_state \<Rightarrow> fb_stream \<Rightarrow> bool" where
  "out_at_end st0 s \<longleftrightarrow> fb_step st0 (st_object s) (fb_contents (st_object s)) \<and> st_offset s = length (fb_contents (st_object s))"

definition in_left :: "fb_state \<Rightarrow> fb_stream \<Rightarrow> bytes \<Rightarrow> bool" where
  "in_left st0 s r \<longleftrightarrow> fb_step st0 (st_object s) (fb_contents st0) \<and> (\<exists>d. fb_contents st0 = d @ r \<and> st_offset s = length d)"

interpretation file_out: out_stream out_write "out_at_end st0" "\<lambda>s. fb_contents (st_object s)" for st0
proof
  fix s bs assume s: "out_at_end st0 s"
  then obtain st' where st': "fb_write_bytes (st_offset s) bs (st_object s) = Inr st'"
      "fb_step (st_object s) st' (file_put (st_offset s) bs (fb_contents (st_object s)))"
    using fb_write_bytes_ok fb_step_ok(1) unfolding out_at_end_def by blast
  have "file_put (st_offset s) bs (fb_contents (st_object s)) = fb_contents (st_object s) @ bs" using s by (simp add: out_at_end_def file_put_def)
  then show "\<exists>s'. out_write s bs = Inr (s', 0) \<and> out_at_end st0 s' \<and> fb_contents (st_object s') = fb_contents (st_object s) @ bs"
    using st' s fb_step_trans fb_step_ok(2) [OF st'(2)] by (fastforce simp: out_write_def out_at_end_def)
qed

interpretation file_in: in_stream in_read "in_left st0" for st0
proof
  fix s d r assume s: "in_left st0 s (d @ r)"
  then obtain e where e: "fb_contents st0 = e @ d @ r" "st_offset s = length e" "fb_step st0 (st_object s) (fb_contents st0)"
    unfolding in_left_def by blast
  obtain st' where st': "fb_read_bytes (st_offset s) (length d) (st_object s) = Inr (d, st')" "fb_step (st_object s) st' (fb_contents st0)"
    using fb_read_bytes_ok [OF fb_step_ok(1) [OF e(3)], of "st_offset s" "length d"] fb_step_ok(2) [OF e(3)] e(1,2) by auto
  show "\<exists>s'. in_read s (length d) = Inr (s', d, 0) \<and> in_left st0 s' r"
    using st' e fb_step_trans [OF e(3) st'(2)] by (auto simp: in_read_def in_left_def intro!: exI [of _ "e @ d"])
qed

lemma fb_scope_ok:
  assumes "fb_ok (fs, x)"
  shows "\<exists>st'. fb_scope_begin (fs, x) = Inr st' \<and> fb_step (fs, x\<lparr>fb_opens := fb_opens x + 1\<rparr>) st' (fb_contents (fs, x))"
proof -
  have "fb_ok (fs, x\<lparr>fb_opens := fb_opens x + 1\<rparr>)" using assms by (cases "fb_fd x") (simp_all add: fb_ok_def)
  moreover have "fb_contents (fs, x\<lparr>fb_opens := fb_opens x + 1\<rparr>) = fb_contents (fs, x)" by (simp add: fb_contents_def)
  ultimately show ?thesis using fb_open_ok by (fastforce simp: fb_scope_begin_def)
qed

lemma fb_scope_end_ok:
  assumes "fb_ok (fs, x)"
  shows "fb_ok (fb_scope_end (fs, x))" "fb_contents (fb_scope_end (fs, x)) = fb_contents (fs, x)"
proof -
  have "fb_ok (fs, x\<lparr>fb_opens := fb_opens x - 1\<rparr>)" using assms by (cases "fb_fd x") (simp_all add: fb_ok_def)
  moreover have "fb_contents (fs, x\<lparr>fb_opens := fb_opens x - 1\<rparr>) = fb_contents (fs, x)" by (simp add: fb_contents_def)
  ultimately show "fb_ok (fb_scope_end (fs, x))" "fb_contents (fb_scope_end (fs, x)) = fb_contents (fs, x)"
    using fb_close_ok [of "(fs, x\<lparr>fb_opens := fb_opens x - 1\<rparr>)"] by (auto simp: fb_scope_end_def fb_step_def Let_def)
qed

text \<open>Without an offset, \<open>serialize\<close> appends the object.\<close>

lemma fb_serialize_ok:
  assumes "fb_ok st" "visit_ok v"
  shows "\<exists>st'. fb_serialize v 0 st = Inr (0, st', visit_result v) \<and> fb_ok st' \<and> fb_contents st' = fb_contents st @ visit_wire v"
proof -
  obtain fs x where st: "st = (fs, x)" by (cases st)
  obtain st1 where 1: "fb_scope_begin st = Inr st1" "fb_step (fs, x\<lparr>fb_opens := fb_opens x + 1\<rparr>) st1 (fb_contents st)"
    using fb_scope_ok assms(1) unfolding st by blast
  obtain fs2 x2 fd where 2: "fb_open st1 = Inr (fs2, x2)" "fb_fd x2 = Some fd" "fb_step st1 (fs2, x2) (fb_contents st)"
    using fb_open_ok [OF fb_step_ok(1) [OF 1(2)]] fb_step_ok(2) [OF 1(2)] by (metis prod.collapse)
  let ?n = "length (fb_contents st)"
  have size: "fb_size (fs2, x2) = Inr ?n" using fb_step_ok [OF 2(3)] by (auto simp: fb_size_def fb_ok_def fb_contents_def)
  define st3 where "st3 = fb_seek fd ?n (fs2, x2)"
  have 3: "fb_step (fs2, x2) st3 (fb_contents st)" "fb_cur (snd st3) = ?n"
    using fb_seek_ok [OF fb_step_ok(1) [OF 2(3)], of fd ?n] 2(2) fb_step_ok(2) [OF 2(3)] by (simp_all add: st3_def)
  have st3: "(if int ?n + 0 = int (fb_cur x2) then (fs2, x2)
      else if int ?n + 0 \<ge> 0 then (fs_seek fd (nat (int ?n + 0)) fs2, x2\<lparr>fb_cur := nat (int ?n + 0)\<rparr>)
      else (fs2, x2\<lparr>fb_cur := if ?n = 0 then 0 else 2 ^ 64 - 1\<rparr>)) = st3"
    by (simp add: st3_def fb_seek_def)
  let ?s = "act_init \<lparr>st_object = st3, st_offset = ?n\<rparr>"
  have "out_at_end st3 \<lparr>st_object = st3, st_offset = ?n\<rparr>"
    using fb_step_refl [OF fb_step_ok(1) [OF 3(1)]] fb_step_ok(2) [OF 3(1)] by (simp add: out_at_end_def)
  then have "file_out.sink_ok st3 ?s" by (simp add: file_out.sink_ok_def act_init_def)
  then obtain s4 where 4: "visit_run (so_process out_write) v ?s = Inr (s4, visit_result v)" "file_out.sink_ok st3 s4" "file_out.sink_adds ?s (visit_wire v) s4"
    using file_out.run_room [OF _ assms(2), of st3 ?s] by blast
  have a: "so_action out_write id id v ?s = Inr (0, s4, visit_result v)"
    using 4(1,2) by (simp add: so_action_def run_action_def act_init_def file_out.sink_ok_def)
  obtain fs5 x5 where 5: "st_object (act_stream s4) = (fs5, x5)" by (cases "st_object (act_stream s4)")
  have o: "fb_ok (fs5, x5)" "fb_contents (fs5, x5) = fb_contents st @ visit_wire v"
    using 4(2,3) 5 fb_step_ok(2) [OF 3(1)] by (auto simp: file_out.sink_ok_def file_out.sink_adds_def out_at_end_def fb_step_def act_init_def)
  have "fb_serialize v 0 st = Inr (0, fb_scope_end (fs5, x5), visit_result v)"
    unfolding fb_serialize_def using 1(1) 2(1,2) size a 3(2) by (simp only: bind_run_Inr fb_get_fd_def snd_conv option.case Let_def case_prod_conv st3) (simp add: 5)
  then show ?thesis using fb_scope_end_ok [OF o(1)] o(2) by simp
qed

text \<open>
  Property C15. An object that is serialized into an empty file is read back from it: by an object that mirrors it (the same kinds of fields, as in the round trip of
  Marshal; none of them terminated buffers, and with lengths that fit 32 bits), with equal values, whatever that held before, and both calls
  return 0.
\<close>

theorem file_roundtrip:
  assumes "fb_ok st" "fb_contents st = []" "mirrors R v w"
  shows "\<exists>st' st'' res. fb_serialize v 0 st = Inr (0, st', visit_result v) \<and> fb_contents st' = visit_wire v \<and>
    fb_unserialize junk w st' = Inr (0, st'', res) \<and> R (visit_result v) res \<and> fb_ok st'' \<and> fb_contents st'' = visit_wire v"
proof -
  obtain st' where 1: "fb_serialize v 0 st = Inr (0, st', visit_result v)" "fb_ok st'" "fb_contents st' = visit_wire v"
    using fb_serialize_ok [OF assms(1) mirrors_ok [OF assms(3)]] assms(2) by auto
  let ?s = "act_init \<lparr>st_object = st', st_offset = 0\<rparr>"
  have "file_in.source st' (visit_wire v @ []) ?s"
    using fb_step_refl [OF 1(2)] 1(3) by (simp add: file_in.source_def act_init_def in_left_def)
  then obtain s2 res where 2: "visit_run (si_process junk in_read) w ?s = Inr (s2, res)" "R (visit_result v) res" "file_in.source st' [] s2"
    using file_in.si_run [OF assms(3)] by blast
  have "fb_unserialize junk w st' = Inr (0, st_object (act_stream s2), res)"
    using 2(1,3) by (simp add: fb_unserialize_def si_action_def run_action_def act_init_def file_in.source_def)
  moreover have "fb_ok (st_object (act_stream s2))" "fb_contents (st_object (act_stream s2)) = visit_wire v"
    using 2(3) 1(3) by (auto simp: file_in.source_def in_left_def fb_step_def)
  ultimately show ?thesis using 1 2(2) by blast
qed

section \<open>The store is a map\<close>

definition store_map :: "string \<Rightarrow> fsys \<Rightarrow> string \<Rightarrow> bytes option" where
  "store_map root fs key = map_option (fs_data fs) (fs_names fs (object_path root key))"

lemma object_path_eq [simp]: "object_path root key = object_path root key' \<longleftrightarrow> key = key'"
  by (simp add: object_path_def)

lemma fs_create_map:
  assumes "fs_ok fs" "fs_names fs (object_path root key) = None"
  shows "\<exists>fs'. fs_create (object_path root key) bs fs = (True, fs') \<and> fs_ok fs' \<and> store_map root fs' = (store_map root fs)(key \<mapsto> bs)"
proof -
  let ?fs = "snd (fs_create (object_path root key) bs fs)"
  have "fs_create (object_path root key) bs fs = (True, ?fs)" using assms(2) by (simp add: fs_create_def)
  moreover have "fs_ok ?fs" using assms by (auto simp: fs_create_def fs_ok_def less_Suc_eq)
  moreover have "store_map root ?fs k = ((store_map root fs)(key \<mapsto> bs)) k" for k
    using assms fs_ok_names [OF assms(1), of "object_path root k"]
    by (cases "fs_names fs (object_path root k)") (auto simp: store_map_def fs_create_def)
  ultimately show ?thesis by blast
qed

text \<open>
  Also. The store's operations are those of a map from keys to contents: \<open>new_object\<close> and \<open>copy_object\<close> add an entry, \<open>del_object\<close>
  removes one, and each returns -1 and changes nothing when the key is there already, or is not.
\<close>

theorem file_store_is_map:
  assumes "fs_ok fs"
  shows "\<exists>fs'. new_object root key fs = Inr (if store_map root fs key = None then 0 else - 1, fs') \<and> fs_ok fs' \<and>
      store_map root fs' = (if store_map root fs key = None then (store_map root fs)(key \<mapsto> []) else store_map root fs)"
    "\<exists>fs'. del_object root key fs = Inr (if store_map root fs key = None then - 1 else 0, fs') \<and> fs_ok fs' \<and>
      store_map root fs' = (store_map root fs)(key := None)"
    "\<exists>fs'. copy_object root key dest fs = Inr (if store_map root fs key \<noteq> None \<and> store_map root fs dest = None then 0 else - 1, fs') \<and> fs_ok fs' \<and>
      store_map root fs' = (if store_map root fs key \<noteq> None \<and> store_map root fs dest = None
        then (store_map root fs)(dest := store_map root fs key) else store_map root fs)"
proof -
  have none: "store_map root fs k = None \<longleftrightarrow> fs_names fs (object_path root k) = None" for k by (simp add: store_map_def)
  show "\<exists>fs'. new_object root key fs = Inr (if store_map root fs key = None then 0 else - 1, fs') \<and> fs_ok fs' \<and>
      store_map root fs' = (if store_map root fs key = None then (store_map root fs)(key \<mapsto> []) else store_map root fs)"
    using assms fs_create_map [OF assms, of root key "[]"] by (cases "fs_names fs (object_path root key)") (auto simp: new_object_def object_exists_def none)
  let ?fs = "fs\<lparr>fs_names := (fs_names fs)(object_path root key := None)\<rparr>"
  have "fs_ok ?fs" using assms by (auto simp: fs_ok_def)
  moreover have "store_map root ?fs = (store_map root fs)(key := None)" by (rule ext) (simp add: store_map_def)
  moreover have "(store_map root fs)(key := None) = store_map root fs" if "store_map root fs key = None" using that by (rule fun_upd_idem)
  ultimately show "\<exists>fs'. del_object root key fs = Inr (if store_map root fs key = None then - 1 else 0, fs') \<and> fs_ok fs' \<and>
      store_map root fs' = (store_map root fs)(key := None)"
    using assms by (cases "fs_names fs (object_path root key)") (auto simp: del_object_def object_exists_def none fs_unlink_def)
  show "\<exists>fs'. copy_object root key dest fs = Inr (if store_map root fs key \<noteq> None \<and> store_map root fs dest = None then 0 else - 1, fs') \<and> fs_ok fs' \<and>
      store_map root fs' = (if store_map root fs key \<noteq> None \<and> store_map root fs dest = None
        then (store_map root fs)(dest := store_map root fs key) else store_map root fs)"
  proof (cases "fs_names fs (object_path root key) \<noteq> None \<and> fs_names fs (object_path root dest) = None")
    case True
    then obtain i where i: "fs_names fs (object_path root key) = Some i" by blast
    then have "store_map root fs key = Some (fs_data fs i)" by (simp add: store_map_def)
    then show ?thesis using True i fs_create_map [OF assms, of root dest "fs_data fs i"]
      by (auto simp: copy_object_def object_exists_def none fast_copy_def)
  next
    case False
    then show ?thesis using assms by (auto simp: copy_object_def object_exists_def none)
  qed
qed

section \<open>Concrete instances\<close>

definition sample_fs :: fsys where
  "sample_fs = \<lparr>fs_names = [''a'' \<mapsto> 0, ''b'' \<mapsto> 1], fs_data = (\<lambda>_. [])(0 := [1, 2]), fs_disk = (\<lambda>_. []), fs_fds = (\<lambda>_. None), fs_next = 2, fs_next_fd = 3\<rparr>"

lemma sample_fs_ok: "fb_ok (sample_fs, fb_init ''a'' 0 0)" "fb_ok (sample_fs, fb_init ''b'' 0 0)"
  "fb_contents (sample_fs, fb_init ''a'' 0 0) = [1, 2]" "fb_contents (sample_fs, fb_init ''b'' 0 0) = []"
  by (auto simp: fb_ok_def fs_ok_def sample_fs_def fb_init_def fb_contents_def split: if_splits)

theorem file_object_refines_witness:
  "\<exists>st' st''. run_all fb_exec (sample_fs, fb_init ''a'' 0 0) [Write 1 [9], Append [7]] = Inr st' \<and> fb_contents st' = [1, 9, 7] \<and>
    fb_read_bytes 1 5 st' = Inr ([9, 7], st'') \<and> fs_data (fst st'') 1 = []"
proof -
  have "foldl file_exec [1, 2] [Write 1 [9], Append [7]] = [1, 9, 7]" by (simp add: file_put_def)
  then show ?thesis using file_object_refines [OF sample_fs_ok(1), of "[Write 1 [9], Append [7]]" 1 5]
    unfolding sample_fs_ok(3) by (fastforce simp: sample_fs_def fb_init_def)
qed

theorem tx_atomic_witness:
  "\<exists>fs1 t fs2 t2 fs3 x3. tx_start 0 0 (sample_fs, fb_init ''a'' 0 0) = Inr (fs1, Some t) \<and> run_all fb_exec (fs1, t) [Truncate 1, Append [7]] = Inr (fs2, t2) \<and>
    fb_contents (fs2, fb_init ''a'' 0 0) = [1, 2] \<and> tx_commit (Some t2) (fs2, fb_init ''a'' 0 0) = Inr (None, fs3, x3) \<and> fb_contents (fs3, x3) = [1, 7]"
proof -
  have free: "fs_names sample_fs (tx_name (fb_init ''a'' 0 0)) = None" "\<not> bit (0 :: u32) 8" "fb_opens (fb_init ''a'' 0 0) = 0"
    by (simp_all add: sample_fs_def tx_name_def fb_init_def)
  have "foldl file_exec (if bit (0 :: u32) 1 then [] else [1, 2]) [Truncate 1, Append [7]] = [1, 7]" by (simp add: file_resize_def)
  then show ?thesis using tx_atomic [OF sample_fs_ok(1) free, of 0 "[Truncate 1, Append [7]]"] unfolding sample_fs_ok(3) by metis
qed

theorem file_roundtrip_witness:
  "\<exists>st' st'' res. fb_serialize (sample_object (Str [7, 8])) 0 (sample_fs, fb_init ''b'' 0 0) = Inr (0, st', Str [7, 8]) \<and>
    fb_unserialize 0 (sample_object (Str [])) st' = Inr (0, st'', res) \<and> Str [7, 8] = res"
proof -
  have "visit_result (sample_object (Str [7, 8])) = Str [7, 8]" by (simp add: sample_object_def)
  then show ?thesis using file_roundtrip [OF sample_fs_ok(2,4) sample_mirrors, of 0] by metis
qed

section \<open>Divergences\<close>

lemma fb_opens_kept:
  "fb_open st = Inr st1 \<Longrightarrow> fb_opens (snd st1) = fb_opens (snd st)"
  "fb_opens (snd (fb_seek fd off st)) = fb_opens (snd st)"
  by (auto simp: fb_open_def fb_seek_def assert_run_def split: prod.splits option.splits if_splits)

lemma fb_close_closes: "fb_opens (snd st) = 0 \<Longrightarrow> fb_fd (snd (fb_close st)) = None"
  by (cases st) (auto simp: fb_close_def split: option.splits)

lemma fb_write_closes:
  assumes "fb_write_bytes off bs st = Inr st1" "fb_opens (snd st) = 0"
  shows "fb_fd (snd st1) = None"
proof -
  obtain st2 fd where 1: "fb_open st = Inr st2" "fb_get_fd (snd st2) = Inr fd"
      "(let (fs, x) = fb_seek fd off st2 in Inr (fb_close (fs_write fd bs fs, x\<lparr>fb_cur := fb_cur x + length bs\<rparr>))) = (Inr st1 :: fb_state run)"
    using assms(1) by (auto simp: fb_write_bytes_def bind_run_eq_Inr)
  obtain fs x where 2: "fb_seek fd off st2 = (fs, x)" by (cases "fb_seek fd off st2")
  then have "fb_opens x = 0" using fb_opens_kept(1) [OF 1(1)] fb_opens_kept(2) [of fd off st2] assms(2) by simp
  then show ?thesis using fb_close_closes 1(3) 2 by auto
qed

text \<open>
  A divergence. Between two operations the file of a transaction's object is closed, and what \<open>commit\<close> hands to \<open>fdatasync\<close> is -1: a commit
  does not bring the data to the disk before it renames the file.
\<close>

theorem commit_does_not_sync:
  assumes "fb_opens t = 0" "fb_ok (fs, t)" "fb_write_bytes off bs (fs, t) = Inr (fs1, t1)" "tx_commit (Some t1) (fs1, x) = Inr (r, fs2, x2)"
  shows "fs_disk fs2 = fs_disk fs"
proof -
  have "fb_step (fs, t) (fs1, t1) (file_put off bs (fb_contents (fs, t)))" using fb_write_bytes_ok [OF assms(2), of off bs] assms(3) by auto
  then have d: "fs_disk fs1 = fs_disk fs" by (simp add: fb_step_def fb_only_def)
  have fd: "fb_fd t1 = None" using fb_write_closes [OF assms(3)] assms(1) by simp
  show ?thesis using assms(4) fd d
    by (auto simp: tx_commit_def fb_fsync_data_def fs_rename_def fb_reload_def fb_open_def fs_open_def fb_close_def fs_close_def fb_destroy_def
        assert_run_def bind_run_eq_Inr split: option.splits if_splits)
qed

text \<open>
  A divergence. \<open>commit\<close> reloads the object, but \<open>close\<close> does nothing while a scope holds it open, and \<open>open\<close> nothing on an open file: the object
  goes on with the file that the transaction has replaced.
\<close>

theorem commit_under_scope:
  assumes x: "fb_ok (fs, x)" "fb_fd x = Some fd" "0 < fb_opens x" and t: "fb_ok (fs, t)" "fb_fd t = None" "fb_name t \<noteq> fb_name x"
  shows "\<exists>fs' st. tx_commit (Some t) (fs, x) = Inr (None, fs', x) \<and> fb_contents (fs', x) = fb_contents (fs, t) \<and>
    fb_read_bytes off n (fs', x) = Inr (take n (drop off (fb_contents (fs, x))), st)"
proof -
  obtain i j where n: "fs_names fs (fb_name x) = Some i" "fs_names fs (fb_name t) = Some j" "fs_fds fs fd = Some (i, fb_cur x)" "\<not> bit (fb_flags x) 8"
    using x(1,2) t(1) by (auto simp: fb_ok_def)
  let ?fs = "fs\<lparr>fs_names := (fs_names fs)(fb_name t := None, fb_name x \<mapsto> j)\<rparr>"
  have "tx_commit (Some t) (fs, x) = Inr (None, ?fs, x)"
    using n x t by (simp add: tx_commit_def fb_fsync_data_def fs_rename_def fb_reload_def fb_close_def fb_open_def fb_destroy_def)
  moreover have "fb_contents (?fs, x) = fb_contents (fs, t)" using n by (simp add: fb_contents_def)
  moreover have "\<exists>st. fb_read_bytes off n (?fs, x) = Inr (take n (drop off (fb_contents (fs, x))), st)"
    using n x by (cases "fb_cur x = off") (simp_all add: fb_read_bytes_def fb_open_def fb_get_fd_def fb_seek_def fs_seek_def fs_read_def fb_contents_def Let_def)
  ultimately show ?thesis by blast
qed

text \<open>
  A divergence. A blank transaction (INIT_BLANK) is not blank when a file of its name is left over from before: that the file could not be
  created is not noticed.
\<close>

theorem blank_tx_not_blank:
  assumes "bit flags 1" "fs_names fs (tx_name x) = Some j"
  shows "\<exists>t. tx_start flags junk (fs, x) = Inr (fs, Some t) \<and> fb_contents (fs, t) = fs_data fs j"
  using assms by (simp add: tx_start_def fs_create_def fb_contents_def fb_init_def)

text \<open>
  A divergence. \<open>serialize\<close> appends an object, and \<open>unserialize\<close> reads from the beginning: a file that is written twice gives back the first object.
\<close>

theorem unserialize_reads_first:
  assumes "fb_ok st" "fb_contents st = visit_wire u" "mirrors R u w" "visit_ok v"
  shows "\<exists>st' st'' res. fb_serialize v 0 st = Inr (0, st', visit_result v) \<and> fb_unserialize junk w st' = Inr (0, st'', res) \<and> R (visit_result u) res"
proof -
  obtain st' where 1: "fb_serialize v 0 st = Inr (0, st', visit_result v)" "fb_ok st'" "fb_contents st' = visit_wire u @ visit_wire v"
    using fb_serialize_ok [OF assms(1,4)] assms(2) by auto
  let ?s = "act_init \<lparr>st_object = st', st_offset = 0\<rparr>"
  have "file_in.source st' (visit_wire u @ visit_wire v) ?s"
    using fb_step_refl [OF 1(2)] 1(3) by (simp add: file_in.source_def act_init_def in_left_def)
  then obtain s2 res where 2: "visit_run (si_process junk in_read) w ?s = Inr (s2, res)" "R (visit_result u) res" "file_in.source st' (visit_wire v) s2"
    using file_in.si_run [OF assms(3)] by blast
  have "fb_unserialize junk w st' = Inr (0, st_object (act_stream s2), res)"
    using 2(1,3) by (simp add: fb_unserialize_def si_action_def run_action_def act_init_def file_in.source_def)
  then show ?thesis using 1(1) 2(2) by blast
qed

text \<open>
  A divergence. An object's file that is shorter than what is read from it ends the process: the stream asserts that every byte came instead of
  returning an error.
\<close>

theorem short_file_asserts:
  assumes "fb_ok st" "length (fb_contents st) < off + n" "0 < n"
  shows "in_read \<lparr>st_object = st, st_offset = off\<rparr> n = Inl Assert_failed"
  using fb_read_bytes_ok [OF assms(1), of off n] assms(2,3) by (auto simp: in_read_def assert_run_def)

text \<open>A divergence. The count of a store's objects includes the two directories and the end of the list.\<close>

theorem stats_count_three_more: "''.'' \<notin> set names \<Longrightarrow> ''..'' \<notin> set names \<Longrightarrow>
    get_stats (''.'' # ''..'' # names) = length (get_object_names (''.'' # ''..'' # names)) + 3"
  by (induction names) (auto simp: get_stats_def get_object_names_def)

end
