(* ===== verification/DebugLog.thy ===== *)
theory DebugLog
  imports Buffers GlobMatch TextCodec
begin

text \<open>
  debug/Log.h and debug/Log.cc: the rules that decide which messages are printed, the file they come from, and the
  line that is printed. A C string is the list of its bytes before the terminator. What \<open>log_vsnprintf\<close>, which calls formatters of the clients, does with
  the caller's arguments, the time and the text of a pointer are arguments, as are the sizes that the build configures (\<open>maxline\<close>, \<open>maxpath\<close>, \<open>iovmax\<close>);
  \<open>junk\<close> is what a local array holds. Writing to the descriptor of the log takes everything, and is atomic under the log's lock.
\<close>

section \<open>Levels\<close>

datatype level = LOG_INVALID | LOG_DEBUG | LOG_INFO | LOG_NOTICE | LOG_WARN | LOG_ERR | LOG_CRIT | LOG_ALWAYS

fun level_num :: "level \<Rightarrow> int" where
  "level_num LOG_INVALID = - 1"
| "level_num LOG_DEBUG = 1"
| "level_num LOG_INFO = 2"
| "level_num LOG_NOTICE = 3"
| "level_num LOG_WARN = 4"
| "level_num LOG_ERR = 5"
| "level_num LOG_CRIT = 6"
| "level_num LOG_ALWAYS = 7"

definition log_levelnames :: "(bytes \<times> level) list" where
  "log_levelnames = [(cstr ''debug'', LOG_DEBUG), (cstr ''info'', LOG_INFO), (cstr ''notice'', LOG_NOTICE), (cstr ''warning'', LOG_WARN),
     (cstr ''warn'', LOG_WARN), (cstr ''error'', LOG_ERR), (cstr ''err'', LOG_ERR), (cstr ''critical'', LOG_CRIT), (cstr ''crit'', LOG_CRIT),
     (cstr ''always'', LOG_ALWAYS)]"

definition level2str :: "level \<Rightarrow> bytes" where
  "level2str l = (case find (\<lambda>(s, m). m = l) log_levelnames of None \<Rightarrow> cstr ''(unknown level)'' | Some (s, m) \<Rightarrow> s)"

definition str2level :: "bytes \<Rightarrow> level" where
  "str2level s = (case find (\<lambda>(n, l). map lower_byte n = map lower_byte s) log_levelnames of None \<Rightarrow> LOG_INVALID | Some (n, l) \<Rightarrow> l)"

section \<open>State\<close>

record log_rule =
  rule_path :: bytes
  rule_level :: level

record dlog =
  lg_inited :: bool
  lg_shutdown :: bool
  lg_flags :: u32
  lg_rules0 :: "log_rule list"
  lg_rules1 :: "log_rule list"
  lg_first :: bool
  lg_debug_path :: bytes
  lg_prefix :: bytes
  lg_threshold :: level
  lg_out :: bytes

text \<open>\<open>rule_list_\<close> points to one of the two lists.\<close>

definition lg_rules :: "dlog \<Rightarrow> log_rule list" where
  "lg_rules lg = (if lg_first lg then lg_rules0 lg else lg_rules1 lg)"

text \<open>The constructor: \<open>OUTPUT_PATH | OUTPUT_TIME | OUTPUT_LEVEL\<close>, and the second list.\<close>

definition lg_new :: "level \<Rightarrow> bytes \<Rightarrow> dlog" where
  "lg_new threshold out = \<lparr>lg_inited = False, lg_shutdown = False, lg_flags = 7, lg_rules0 = [], lg_rules1 = [], lg_first = False,
     lg_debug_path = [], lg_prefix = [], lg_threshold = threshold, lg_out = out\<rparr>"

section \<open>Rules\<close>

definition rule_compare :: "log_rule \<Rightarrow> log_rule \<Rightarrow> bool" where
  "rule_compare r1 r2 \<longleftrightarrow> length (rule_path r1) > length (rule_path r2) \<or>
     length (rule_path r1) = length (rule_path r2) \<and> level_num (rule_level r1) < level_num (rule_level r2)"

fun find_rule_in :: "bytes \<Rightarrow> log_rule list \<Rightarrow> log_rule option run" where
  "find_rule_in path [] = Inr None"
| "find_rule_in path (r # rs) =
     (if length (rule_path r) > length path then find_rule_in path rs
      else if take (length (rule_path r)) path = rule_path r then Inr (Some r)
      else if cstr_at (rule_path r) = 43
      then bind_run (fixed_glob (tl (rule_path r)) path) (\<lambda>m. if m then Inr (Some r) else find_rule_in path rs)
      else find_rule_in path rs)"

definition find_rule :: "bytes \<Rightarrow> dlog \<Rightarrow> log_rule option run" where
  "find_rule path lg = bind_run (assert_run (lg_inited lg)) (\<lambda>_. find_rule_in path (lg_rules lg))"

definition log_level :: "bytes \<Rightarrow> dlog \<Rightarrow> level run" where
  "log_level path lg = bind_run (find_rule path lg) (\<lambda>r. Inr (case r of None \<Rightarrow> lg_threshold lg | Some r \<Rightarrow> rule_level r))"

definition log_enabled :: "level \<Rightarrow> bytes \<Rightarrow> dlog \<Rightarrow> bool run" where
  "log_enabled level path lg = bind_run (log_level path lg) (\<lambda>th. Inr (level_num th \<le> level_num level))"

text \<open>The test that \<open>log\<close> and \<open>vlogf\<close> make of the path and then of the class.\<close>

definition log_wanted :: "level \<Rightarrow> bytes \<Rightarrow> bytes option \<Rightarrow> dlog \<Rightarrow> bool run" where
  "log_wanted level path classname lg =
     bind_run (log_enabled level path lg) (\<lambda>e.
     if e then Inr True else (case classname of None \<Rightarrow> Inr False | Some c \<Rightarrow> log_enabled level c lg))"

definition dump_rules :: "dlog \<Rightarrow> bytes run" where
  "dump_rules lg = bind_run (assert_run (lg_inited lg)) (\<lambda>_.
     Inr (concat (map (\<lambda>r. rule_path r @ [32] @ level2str (rule_level r) @ [10]) (lg_rules lg))))"

section \<open>The prefix of a line\<close>

text \<open>\<open>snprintf(ptr, n, ...)\<close> of a text into memory, and what \<open>gen_prefix\<close> does after each: the place and room that are left.\<close>

definition snprintf_at :: "nat \<Rightarrow> nat \<Rightarrow> bytes \<Rightarrow> bytes \<Rightarrow> bytes run" where
  "snprintf_at ptr n text mem = (if n = 0 then Inr mem else mem_write ptr (take (n - 1) text @ [0]) mem)"

fun add_pieces :: "bytes list \<Rightarrow> bytes \<Rightarrow> nat \<Rightarrow> nat \<Rightarrow> nat \<Rightarrow> (nat \<times> bytes) run" where
  "add_pieces [] mem ptr n prefix_len = Inr (prefix_len, mem)"
| "add_pieces (t # ts) mem ptr n prefix_len =
     bind_run (snprintf_at ptr n t mem) (\<lambda>mem1.
     let len = min (length t) n in add_pieces ts mem1 (ptr + len) (n - len) (prefix_len + length t))"

text \<open>\<open>%u\<close>, \<open>%06u\<close> and \<open>%-19.19s\<close>.\<close>

function log_decimal :: "nat \<Rightarrow> bytes" where
  "log_decimal n = (if n < 10 then [48 + of_nat n] else log_decimal (n div 10) @ [48 + of_nat (n mod 10)])"
  by pat_completeness auto
termination by (relation "measure id") auto

declare log_decimal.simps [simp del]

definition log_06u :: "nat \<Rightarrow> bytes" where
  "log_06u n = replicate (6 - length (log_decimal n)) 48 @ log_decimal n"

definition log_19s :: "bytes \<Rightarrow> bytes" where
  "log_19s s = take 19 s @ replicate (19 - length s) 32"

definition ascii_upper :: "byte \<Rightarrow> byte" where
  "ascii_upper c = (if 97 \<le> c \<and> c \<le> 122 then c - 32 else c)"

definition prefix_pieces :: "u32 \<times> u32 \<Rightarrow> bytes \<Rightarrow> level \<Rightarrow> bytes option \<Rightarrow> bytes option \<Rightarrow> dlog \<Rightarrow> bytes list" where
  "prefix_pieces tm path level classname ptr_text lg =
     (let on = bit (lg_flags lg);
          color_begin = if on 11 then 27 # cstr ''[33m'' else [];
          color_end = if on 11 then 27 # cstr ''[0m'' else [];
          color_level = if on 11 then 27 # cstr ''[36m'' else [];
          class_text = (case classname of None \<Rightarrow> cstr ''(No_Class)'' | Some c \<Rightarrow> c)
      in [color_begin @ [91] @ (if lg_prefix lg \<noteq> [] then lg_prefix lg @ [32] else [])] @
         (if on 1 then [log_decimal (unat (fst tm)) @ [46] @ log_06u (unat (snd tm)) @ [32]] else []) @
         (if on 0 then [(if on 10 then log_19s path else path) @ [32]] else []) @
         (if on 3 then [(if on 10 then log_19s class_text else class_text) @ [32]] else []) @
         (case ptr_text of None \<Rightarrow> [] | Some p \<Rightarrow> if on 4 then [p @ [32]] else []) @
         (if on 2 then [color_level @ (if on 10 then [ascii_upper (hd (level2str level))] else level2str level) @ color_begin] else []) @
         [[93] @ color_end @ [32]])"

definition gen_prefix :: "u32 \<times> u32 \<Rightarrow> bytes \<Rightarrow> nat \<Rightarrow> bytes \<Rightarrow> level \<Rightarrow> bytes option \<Rightarrow> bytes option \<Rightarrow> dlog \<Rightarrow> (nat \<times> bytes) run" where
  "gen_prefix tm mem buflen path level classname ptr_text lg = add_pieces (prefix_pieces tm path level classname ptr_text lg) mem 0 buflen 0"

section \<open>Lines\<close>

text \<open>\<open>output\<close>: the pieces go to the descriptor together.\<close>

definition log_output :: "bytes list \<Rightarrow> dlog \<Rightarrow> int \<times> dlog" where
  "log_output iov lg = (if lg_shutdown lg then (- 1, lg) else (int (length (concat iov)), lg\<lparr>lg_out := lg_out lg @ concat iov\<rparr>))"

definition guard :: bytes where
  "guard = cstr ''[guard]'' @ [0]"

definition trunc :: bytes where
  "trunc = cstr ''... (truncated)'' @ [0]"

text \<open>\<open>sizeof\<close> of the pointer to the marker, not of the marker.\<close>

definition sizeof_trunc :: nat where
  "sizeof_trunc = 8"

text \<open>
  \<open>log_vsnprintf\<close> on a format and its arguments: what it writes when it is given so much room, and what it returns, as a \<open>size_t\<close>. It
  calls the formatters of the caller's objects, which may write more than the room they are given.
\<close>

type_synonym formatter = "nat \<Rightarrow> bytes \<times> nat"

definition log_vsnprintf :: "nat \<Rightarrow> nat \<Rightarrow> formatter \<Rightarrow> bytes \<Rightarrow> (nat \<times> bytes) run" where
  "log_vsnprintf ptr n fmt mem = (case fmt n of (bs, len) \<Rightarrow> bind_run (mem_write ptr bs mem) (\<lambda>mem1. Inr (len, mem1)))"

text \<open>What \<open>vlogf\<close> does once the line is wanted: the memory of \<open>buf_fixed\<close> and the length of the line in it.\<close>

definition vlogf_line :: "nat \<Rightarrow> (nat \<Rightarrow> byte) \<Rightarrow> u32 \<times> u32 \<Rightarrow> bytes \<Rightarrow> level \<Rightarrow> bytes option \<Rightarrow> bytes option \<Rightarrow> formatter \<Rightarrow> dlog \<Rightarrow> (nat \<times> bytes) run" where
  "vlogf_line maxline junk tm path level classname ptr_text fmt lg =
     bind_run (gen_prefix tm (map junk [0..<maxline + 1] @ guard) maxline path level classname ptr_text lg) (\<lambda>(prefix_len, buf).
     let (ptr, buflen) = (if prefix_len < maxline then (prefix_len, maxline - prefix_len) else (maxline, 0)) in
     bind_run (log_vsnprintf ptr buflen fmt buf) (\<lambda>(data_len, buf).
     bind_run
       (if data_len < buflen then Inr (ptr + data_len, buf)
        else if maxline > 0
        then let chars_to_copy = (if maxline > sizeof_trunc then sizeof_trunc else maxline) in
          bind_run (mem_write (maxline - chars_to_copy) (take (chars_to_copy - 1) trunc) buf) (\<lambda>buf.
          bind_run (mem_write (maxline - 1) [0] buf) (\<lambda>buf. Inr (maxline - 1, buf)))
        else Inr (0, buf)) (\<lambda>(ptr, buf).
     bind_run (if ptr > 0 \<and> buf ! (ptr - 1) \<noteq> 10 then bind_run (mem_write ptr [10] buf) (\<lambda>buf. Inr (ptr + 1, buf)) else Inr (ptr, buf)) (\<lambda>(ptr, buf).
     bind_run (mem_write ptr [0] buf) (\<lambda>buf. Inr (ptr, buf))))))"

text \<open>The guard is checked in debug builds; \<open>no_panic\<close> is \<open>__debug_no_panic_on_overflow\<close>.\<close>

definition slash_path :: "nat \<Rightarrow> bytes \<Rightarrow> bytes" where
  "slash_path maxpath path = (if cstr_at path \<noteq> 47 then take (maxpath - 1) (47 # path) else path)"

definition vlogf :: "bool \<Rightarrow> bool \<Rightarrow> nat \<Rightarrow> nat \<Rightarrow> (nat \<Rightarrow> byte) \<Rightarrow> u32 \<times> u32 \<Rightarrow> bytes option \<Rightarrow> level \<Rightarrow> bytes option \<Rightarrow> bytes option \<Rightarrow> formatter option \<Rightarrow>
    dlog \<Rightarrow> (int \<times> dlog) run" where
  "vlogf ndebug no_panic maxline maxpath junk tm path level classname ptr_text fmt lg =
     bind_run (assert_run (lg_inited lg)) (\<lambda>_.
     if lg_shutdown lg then Inr (- 1, lg)
     else case (path, fmt) of
       (Some path, Some fmt) \<Rightarrow>
         (let path = slash_path maxpath path in
          bind_run (log_wanted level path classname lg) (\<lambda>wanted.
          if \<not> wanted then Inr (0, lg)
          else bind_run (vlogf_line maxline junk tm path level classname ptr_text fmt lg) (\<lambda>(n, buf).
            if \<not> ndebug \<and> drop (maxline + 1) buf \<noteq> guard then (if no_panic then Inr (- 1, lg) else Inl Panicked)
            else Inr (log_output [take n buf] lg))))
     | _ \<Rightarrow> Inr (- 1, lg))"

text \<open>The loop over the lines of a message, and the other message function.\<close>

function log_lines :: "nat \<Rightarrow> bytes \<Rightarrow> bytes \<Rightarrow> bytes list \<Rightarrow> int \<Rightarrow> dlog \<Rightarrow> int \<times> dlog" where
  "log_lines iovmax prefix msg iov rval lg =
     (if 10 \<notin> set msg then (case log_output iov lg of (n, lg) \<Rightarrow> (rval + n, lg))
      else let l = takeWhile (\<lambda>c. c \<noteq> 10) msg; iov1 = iov @ [prefix, l @ [10]]; rest = drop (length l + 1) msg in
        if length iov1 = iovmax then (case log_output iov1 lg of (n, lg) \<Rightarrow> log_lines iovmax prefix rest [] (rval + n) lg)
        else log_lines iovmax prefix rest iov1 rval lg)"
  by pat_completeness auto
termination by (relation "measure (\<lambda>(_, _, msg, _). length msg)") (auto intro!: diff_less simp: length_pos_if_in_set)

declare log_lines.simps [simp del]

definition log_msg :: "nat \<Rightarrow> (nat \<Rightarrow> byte) \<Rightarrow> u32 \<times> u32 \<Rightarrow> bytes \<Rightarrow> level \<Rightarrow> bytes option \<Rightarrow> bytes option \<Rightarrow> bytes \<Rightarrow> bool \<Rightarrow> dlog \<Rightarrow> (int \<times> dlog) run" where
  "log_msg iovmax junk tm path level classname ptr_text msg each_line lg =
     bind_run (assert_run (lg_inited lg)) (\<lambda>_.
     if lg_shutdown lg then Inr (- 1, lg)
     else bind_run (log_wanted level path classname lg) (\<lambda>wanted.
     if \<not> wanted then Inr (0, lg)
     else bind_run (gen_prefix tm (map junk [0..<1024]) 1024 path level classname ptr_text lg) (\<lambda>(prefix_len, prefix).
     if msg = [] then Inl Undefined
     else bind_run (assert_run (\<not> each_line \<or> last msg = 10)) (\<lambda>_.
     if prefix_len > length prefix then Inl Undefined
     else Inr (if each_line then log_lines iovmax (take prefix_len prefix) msg [] 0 lg
       else log_output ([take prefix_len prefix, msg] @ (if last msg = 10 then [] else [[10]])) lg)))))"

section \<open>The file of rules\<close>

text \<open>\<open>while (P(*p)) ++p\<close> from an index of the buffer, and the C string that begins there.\<close>

definition scan_while :: "(byte \<Rightarrow> bool) \<Rightarrow> bytes \<Rightarrow> nat \<Rightarrow> nat run" where
  "scan_while P m i = (if dropWhile P (drop i m) = [] then Inl Undefined else Inr (i + length (takeWhile P (drop i m))))"

definition string_at :: "bytes \<Rightarrow> nat \<Rightarrow> bytes" where
  "string_at m i = takeWhile (\<lambda>c. c \<noteq> 0) (drop i m)"

definition strstr_in :: "bytes \<Rightarrow> bytes \<Rightarrow> bool" where
  "strstr_in s t \<longleftrightarrow> (\<exists>i\<in>set [0..<length s + 1]. take (length t) (drop i s) = t)"

definition log_options :: "bytes \<Rightarrow> u32 \<Rightarrow> u32" where
  "log_options s flags =
     (let off = (\<lambda>t n f. if strstr_in s (cstr t) then unset_bit n f else f); on = (\<lambda>t n f. if strstr_in s (cstr t) then set_bit n f else f)
      in on ''classname'' 3 (on ''object'' 4 (on ''color'' 11 (on ''brief'' 10 (off ''no_level'' 2 (off ''no_time'' 1 (off ''no_path'' 0 flags)))))))"

text \<open>One line, which \<open>fgets\<close> put into the buffer: the buffer and the flags afterwards, and the rule, if it has one.\<close>

definition parse_line :: "bool \<Rightarrow> bytes \<Rightarrow> u32 \<Rightarrow> (bytes \<times> u32 \<times> log_rule option) run" where
  "parse_line ndebug m flags =
     bind_run (scan_while c_isspace m 0) (\<lambda>path.
     if m ! path = 0 then Inr (m, flags, None)
     else if m ! path = 35 then Inr (m, flags, None)
     else if m ! path = 37 then Inr (m, log_options (string_at m path) flags, None)
     else bind_run (scan_while (\<lambda>c. c \<noteq> 0 \<and> \<not> c_isspace c) m path) (\<lambda>e.
       let m = m[e := 0] in
       bind_run (scan_while c_isspace m (e + 1)) (\<lambda>level.
       bind_run (scan_while (\<lambda>c. \<not> c_isspace c) m level) (\<lambda>rest.
       let m = m[rest := 0]; threshold = str2level (string_at m level) in
       Inr (m, flags, if threshold = LOG_INVALID \<or> ndebug \<and> threshold = LOG_DEBUG then None
         else Some \<lparr>rule_path = string_at m path, rule_level = threshold\<rparr>)))))"

text \<open>\<open>fgets(buf, 1024, fp)\<close>: up to a newline, the end of the file or 1023 characters.\<close>

definition fgets_line :: "bytes \<Rightarrow> bytes" where
  "fgets_line content = take 1023 (take (length (takeWhile (\<lambda>c. c \<noteq> 10) content) + 1) content)"

lemma fgets_line_some: "content \<noteq> [] \<Longrightarrow> fgets_line content \<noteq> []"
  by (cases content) (simp_all add: fgets_line_def)

function parse_lines :: "bool \<Rightarrow> bytes \<Rightarrow> bytes \<Rightarrow> u32 \<Rightarrow> log_rule list \<Rightarrow> (u32 \<times> log_rule list) run" where
  "parse_lines ndebug content m flags rules =
     (if content = [] then Inr (flags, rules)
      else let line = fgets_line content in
        bind_run (parse_line ndebug (line @ [0] @ drop (length line + 1) m) flags) (\<lambda>(m1, flags1, r).
        parse_lines ndebug (drop (length line) content) m1 flags1 (rules @ (case r of None \<Rightarrow> [] | Some r \<Rightarrow> [r]))))"
  by pat_completeness auto
termination by (relation "measure (\<lambda>(_, content, _). length content)") (auto intro!: diff_less simp: fgets_line_some)

declare parse_lines.simps [simp del]

definition expand_home :: "bytes option \<Rightarrow> bytes \<Rightarrow> bytes" where
  "expand_home home path =
     (if take 2 path = [126, 47]
      then let h = (case home of None \<Rightarrow> [47] | Some [] \<Rightarrow> [47] | Some h \<Rightarrow> h)
        in take 255 (if last h = 47 then h @ drop 2 path else h @ drop 1 path)
      else path)"

definition reparsed_text :: "nat \<Rightarrow> bytes" where
  "reparsed_text n = cstr ''reparsed debug file... found '' @ log_decimal n @ cstr '' rules''"

text \<open>\<open>say\<close> is \<open>logf\<close>, for the message of a reparse, which still goes by the old rules.\<close>

definition parse_debug_file :: "bool \<Rightarrow> (bytes \<Rightarrow> level \<Rightarrow> bytes \<Rightarrow> dlog \<Rightarrow> (int \<times> dlog) run) \<Rightarrow> (nat \<Rightarrow> byte) \<Rightarrow> bytes option \<Rightarrow>
    (bytes \<Rightarrow> bytes option) \<Rightarrow> bytes option \<Rightarrow> dlog \<Rightarrow> dlog run" where
  "parse_debug_file ndebug say junk home files arg lg =
     (let path = (case arg of None \<Rightarrow> lg_debug_path lg | Some p \<Rightarrow> p);
          path1 = expand_home home path;
          fill = (\<lambda>rules lg. if lg_first lg then lg\<lparr>lg_rules1 := rules\<rparr> else lg\<lparr>lg_rules0 := rules\<rparr>);
          lg1 = (fill [] lg)\<lparr>lg_debug_path := path1\<rparr>
      in if path = [] then Inr lg
      else case files path1 of
        None \<Rightarrow> Inr lg1
      | Some content \<Rightarrow>
          bind_run (parse_lines ndebug content (map junk [0..<1024]) (lg_flags lg) []) (\<lambda>(flags, rules).
          let lg2 = (fill rules lg1)\<lparr>lg_flags := flags\<rparr> in
          bind_run (if lg_inited lg then say (cstr ''/log'') LOG_ALWAYS (reparsed_text (length rules)) lg2 else Inr (0, lg2)) (\<lambda>(n, lg3).
          Inr (lg3\<lparr>lg_first := \<not> lg_first lg3\<rparr>))))"

definition log_do_init :: "bool \<Rightarrow> (bytes \<Rightarrow> level \<Rightarrow> bytes \<Rightarrow> dlog \<Rightarrow> (int \<times> dlog) run) \<Rightarrow> (nat \<Rightarrow> byte) \<Rightarrow> bytes option \<Rightarrow>
    (bytes \<Rightarrow> bytes option) \<Rightarrow> level \<Rightarrow> bytes option \<Rightarrow> bytes option \<Rightarrow> dlog \<Rightarrow> dlog run" where
  "log_do_init ndebug say junk home files defaultlvl prefix debug_path lg =
     bind_run (assert_run (\<not> lg_inited lg)) (\<lambda>_.
     bind_run (assert_run (\<not> lg_shutdown lg)) (\<lambda>_.
     let lg1 = (case prefix of None \<Rightarrow> lg | Some p \<Rightarrow> lg\<lparr>lg_prefix := p\<rparr>);
         lvl = (if ndebug \<and> defaultlvl = LOG_DEBUG then LOG_INFO else defaultlvl)
     in bind_run (parse_debug_file ndebug say junk home files debug_path (lg1\<lparr>lg_threshold := lvl\<rparr>)) (\<lambda>lg2. Inr (lg2\<lparr>lg_inited := True\<rparr>))))"

text \<open>\<open>shutdown\<close>, with \<open>fini\<close>; its message is of level debug.\<close>

definition log_shutdown :: "bool \<Rightarrow> (bytes \<Rightarrow> level \<Rightarrow> bytes \<Rightarrow> dlog \<Rightarrow> (int \<times> dlog) run) \<Rightarrow> dlog \<Rightarrow> dlog run" where
  "log_shutdown ndebug say lg =
     (if \<not> lg_inited lg \<or> lg_shutdown lg then Inr lg
      else bind_run
        (if ndebug then Inr (0, lg)
         else bind_run (log_enabled LOG_DEBUG (cstr ''/log'') lg) (\<lambda>e. if e then say (cstr ''/log'') LOG_DEBUG (cstr ''shutting down'') lg else Inr (0, lg))) (\<lambda>(n, lg1).
      Inr (lg1\<lparr>lg_rules0 := [], lg_rules1 := [], lg_shutdown := True\<rparr>)))"

section \<open>What a line contains\<close>

lemma snprintf_at_ok: "ptr + n \<le> length mem \<Longrightarrow> snprintf_at ptr n t mem =
    Inr (if n = 0 then mem else take ptr mem @ take (n - 1) t @ [0] @ drop (ptr + min (length t) (n - 1) + 1) mem)"
  by (cases n) (auto simp: snprintf_at_def mem_write_def min_def)

lemma add_pieces_ok:
  "ptr + n \<le> length mem \<Longrightarrow> add_pieces ts mem ptr n k =
    Inr (k + length (concat ts), if n = 0 \<or> ts = [] then mem
      else take ptr mem @ take (n - 1) (concat ts) @ [0] @ drop (ptr + min (length (concat ts)) (n - 1) + 1) mem)"
proof (induction ts arbitrary: mem ptr n k)
  case (Cons t ts)
  show ?case
  proof (cases "n = 0")
    case True
    then show ?thesis using Cons by (simp add: snprintf_at_def add.assoc)
  next
    case n: False
    note False = n
    let ?m = "take ptr mem @ take (n - 1) t @ [0] @ drop (ptr + min (length t) (n - 1) + 1) mem"
    have m: "snprintf_at ptr n t mem = Inr ?m" "length ?m = length mem"
      using Cons(2) False by (simp_all add: snprintf_at_ok min_def)
    have s: "add_pieces (t # ts) mem ptr n k = add_pieces ts ?m (ptr + min (length t) n) (n - min (length t) n) (k + length t)"
      using m(1) by (simp add: Let_def)
    have r: "ptr + min (length t) n + (n - min (length t) n) \<le> length ?m" unfolding m(2) using Cons(2) by simp
    note e = trans [OF s Cons.IH [OF r]]
    show ?thesis
    proof (cases "length t < n")
      case True
      then have t: "min (length t) n = length t" "min (length t) (n - 1) = length t" "take (n - 1) t = t" by simp_all
      have m1: "take (ptr + length t) ?m = take ptr mem @ t" using t(3) Cons(2) by simp
      have m2: "drop (ptr + length t + j + 1) ?m = drop (ptr + (length t + j) + 1) mem" for j
        unfolding t(2,3) using Cons(2) by (simp add: ac_simps)
      let ?j = "min (length (concat ts)) (n - length t - 1)"
      have "take (n - 1) (concat (t # ts)) = t @ take (n - length t - 1) (concat ts)" using True by simp
      moreover have "min (length t + c) (n - 1) = length t + min c (n - length t - 1)" for c
        using True by arith
      then have "min (length (concat (t # ts))) (n - 1) = length t + ?j" by (simp only: concat.simps length_append)
      ultimately show ?thesis
        using True False t(3) unfolding e t(1) m1 m2 [of ?j] by (cases "ts = []") (simp_all only: if_False list.distinct concat.simps
            append_Nil2 length_append list.size append.assoc simp_thms add.assoc, simp_all add: t)
    next
      case False
      then show ?thesis using n unfolding e by (simp add: min_def)
    qed
  qed
qed simp

text \<open>The text of a line: its prefix and the message; and the line that is printed.\<close>

definition line_of :: "nat \<Rightarrow> bytes \<Rightarrow> bytes" where
  "line_of maxline t =
     (if length t < maxline then if t \<noteq> [] \<and> last t = 10 then t else t @ [10]
      else take (maxline - 8) t @ cstr ''... (tr'' @ [10])"

text \<open>The last two steps of \<open>vlogf\<close> on its buffer: the newline and the terminator.\<close>

definition finish_line :: "nat \<Rightarrow> bytes \<Rightarrow> (nat \<times> bytes) run" where
  "finish_line ptr buf =
     bind_run (if ptr > 0 \<and> buf ! (ptr - 1) \<noteq> 10 then bind_run (mem_write ptr [10] buf) (\<lambda>buf. Inr (ptr + 1, buf)) else Inr (ptr, buf)) (\<lambda>(ptr, buf).
     bind_run (mem_write ptr [0] buf) (\<lambda>buf. Inr (ptr, buf)))"

lemma finish_line_ok:
  assumes "t \<noteq> []" "length t < m" "length rest = m + 1 - length t"
  shows "\<exists>buf. finish_line (length t) (t @ rest @ g) = Inr (if last t = 10 then length t else length t + 1, buf) \<and>
    take (if last t = 10 then length t else length t + 1) buf = (if last t = 10 then t else t @ [10]) \<and> drop (m + 1) buf = g"
proof -
  have l: "(t @ rest @ g) ! (length t - 1) = last t" using assms(1) by (simp add: nth_append last_conv_nth)
  obtain a b where r: "rest = a # b" using assms(2,3) by (cases rest) auto
  obtain c d where b: "b = c # d" using assms(2,3) r by (cases b) auto
  have m: "m + 1 - length t = Suc (Suc (length d))" using assms(3) r b by simp
  show ?thesis using assms(1,2) l r b m by (auto simp: finish_line_def mem_write_def)
qed

lemma marker_write:
  assumes "m \<le> length t" "8 \<le> m" "length x = 7"
  shows "mem_write (m - 8) x (take (m - 1) t @ [0] @ r) = Inr (take (m - 8) t @ x @ [0] @ r)"
proof -
  have "m - 8 + length x = length (take (m - 1) t)" using assms by simp
  then have "drop (m - 8 + length x) (take (m - 1) t @ [0] @ r) = [0] @ r" by simp
  moreover have "take (m - 8) (take (m - 1) t @ [0] @ r) = take (m - 8) t" using assms by (simp add: min_def)
  ultimately show ?thesis using assms by (simp add: mem_write_def)
qed

lemma mem_write_same: "length t = k \<Longrightarrow> mem_write k [0] (t @ [0] @ r) = Inr (t @ [0] @ r)"
  by (simp add: mem_write_def)

text \<open>A format whose text is \<open>msg\<close>, with formatters that keep to their room, as they must: what \<open>snprintf\<close> does; without room there is nothing to write.\<close>

definition prints :: "formatter \<Rightarrow> bytes \<Rightarrow> bool" where
  "prints fmt msg \<longleftrightarrow> (\<forall>n. 0 < n \<longrightarrow> fmt n = (take (n - 1) msg @ [0], length msg)) \<and> fst (fmt 0) = []"

definition plain_format :: "bytes \<Rightarrow> formatter" where
  "plain_format msg n = (if n = 0 then [] else take (n - 1) msg @ [0], length msg)"

lemma prints_plain: "prints (plain_format msg) msg"
  by (simp add: prints_def plain_format_def)

lemma log_vsnprintf_prints:
  "prints fmt msg \<Longrightarrow> ptr \<le> length mem \<Longrightarrow> log_vsnprintf ptr n fmt mem =
    bind_run (snprintf_at ptr n msg mem) (\<lambda>mem1. Inr (if n = 0 then snd (fmt 0) else length msg, mem1))"
  by (cases "fmt 0") (auto simp: prints_def log_vsnprintf_def snprintf_at_def mem_write_def)

lemma vlogf_line_ok:
  assumes "8 \<le> m" "prints fmt msg"
  shows "\<exists>n buf. vlogf_line m junk tm path level classname p fmt lg = Inr (n, buf) \<and>
    take n buf = line_of m (concat (prefix_pieces tm path level classname p lg) @ msg) \<and> drop (m + 1) buf = guard"
proof -
  let ?ps = "prefix_pieces tm path level classname p lg"
  let ?P = "concat ?ps" and ?b = "map junk [0..<m + 1]"
  have ne: "?ps \<noteq> []" "?P \<noteq> []" by (auto simp: prefix_pieces_def Let_def)
  let ?b1 = "take (m - 1) ?P @ [0] @ drop (min (length ?P) (m - 1) + 1) ?b @ guard"
  have g: "gen_prefix tm (?b @ guard) m path level classname p lg = Inr (length ?P, ?b1)"
    using assms(1) ne by (simp add: gen_prefix_def add_pieces_ok min_def)
  have l1: "m \<le> length ?b1" using assms(1) by (simp add: min_def)
  let ?T = "?P @ msg"
  define body where "body = (\<lambda>(prefix_len, buf).
     let (ptr, buflen) = (if prefix_len < m then (prefix_len, m - prefix_len) else (m, 0)) in
     bind_run (snprintf_at ptr buflen msg buf) (\<lambda>buf.
     bind_run
       (if length msg < buflen then Inr (ptr + length msg, buf)
        else if m > 0
        then let chars_to_copy = (if m > sizeof_trunc then sizeof_trunc else m) in
          bind_run (mem_write (m - chars_to_copy) (take (chars_to_copy - 1) trunc) buf) (\<lambda>buf.
          bind_run (mem_write (m - 1) [0] buf) (\<lambda>buf. Inr (m - 1, buf)))
        else Inr (0, buf)) (\<lambda>(ptr, buf). finish_line ptr buf)))"
  have vg: "vlogf_line m junk tm path level classname p fmt lg = body (length ?P, b)"
    if "gen_prefix tm (?b @ guard) m path level classname p lg = Inr (length ?P, b)" "m \<le> length b" for b
    unfolding vlogf_line_def body_def finish_line_def that(1) bind_run_Inr case_prod_conv
    using that(2) by (cases "length ?P < m") (simp_all add: log_vsnprintf_prints [OF assms(2)] bind_run_assoc)
  note v = vg [OF g l1]
  show ?thesis
  proof (cases "length ?T < m")
    case True
    then have "?b1 = ?P @ [0] @ drop (length ?P + 1) ?b @ guard" by simp
    then have "snprintf_at (length ?P) (m - length ?P) msg ?b1 = Inr (?T @ ([0] @ drop (length ?T + 1) ?b) @ guard)"
      using True assms(1) by (simp add: snprintf_at_ok min_def ac_simps)
    moreover have "length ?P < m" "length msg < m - length ?P" using True by simp_all
    ultimately have e: "body (length ?P, ?b1) = finish_line (length ?T) (?T @ ([0] @ drop (length ?T + 1) ?b) @ guard)"
      unfolding body_def by simp
    have T: "?T \<noteq> []" "length ([0] @ drop (length ?T + 1) ?b) = m + 1 - length ?T" using ne(2) True by auto
    show ?thesis using finish_line_ok [OF T(1) True T(2), of guard] True T(1) unfolding v e line_of_def by (metis (no_types, lifting))
  next
    case False
    let ?b2 = "take (m - 1) ?T @ [0] @ drop m ?b @ guard"
    let ?t = "take (m - 8) ?T @ cstr ''... (tr''"
    have b2: "\<exists>ptr n. body (length ?P, ?b1) = body2 ?b2" if "body2 = (\<lambda>buf.
        bind_run (mem_write (m - 8) (take 7 trunc) buf) (\<lambda>buf. bind_run (mem_write (m - 1) [0] buf) (\<lambda>buf. finish_line (m - 1) buf)))" for body2
    proof (cases "length ?P < m")
      case True
      then have "?b1 = ?P @ [0] @ drop (length ?P + 1) ?b @ guard" by simp
      then have "snprintf_at (length ?P) (m - length ?P) msg ?b1 = Inr ?b2"
        using True False assms(1) by (simp add: snprintf_at_ok min_def)
      then show ?thesis using True False assms(1) unfolding that body_def by (auto simp: sizeof_trunc_def bind_run_assoc Let_def)
    next
      case P: False
      then have "?b1 = ?b2" using assms(1) by (cases m) (simp_all add: min_def)
      then show ?thesis using P assms(1) unfolding that body_def by (auto simp: sizeof_trunc_def bind_run_assoc snprintf_at_def Let_def)
    qed
    have tr: "take 7 trunc = cstr ''... (tr''" "length (cstr ''... (tr'') = 7" "last (cstr ''... (tr'') \<noteq> 10" "cstr ''... (tr'' \<noteq> []"
      by (simp_all add: trunc_def cstr_def)
    have "last ?t = last (cstr ''... (tr'')" by (rule last_appendR) (rule tr(4))
    then have t2: "last ?t \<noteq> 10" using tr(3) by (simp only: not_False_eq_True)
    have t1: "length ?t = m - 1" using False assms(1) by (simp add: tr(2))
    have "?t \<noteq> []" using tr(4) by blast
    note t = t1 t2 this
    have "mem_write (m - 8) (take 7 trunc) ?b2 = Inr (?t @ ([0] @ drop m ?b) @ guard)"
      using marker_write [of m ?T "cstr ''... (tr''" "drop m ?b @ guard"] False assms(1) tr(2) unfolding tr(1) by (simp only: not_less append.assoc)
    moreover have "mem_write (m - 1) [0] (?t @ ([0] @ drop m ?b) @ guard) = Inr (?t @ ([0] @ drop m ?b) @ guard)"
      using mem_write_same [OF t(1), of "drop m ?b @ guard"] by (simp only: append.assoc)
    ultimately have e: "body (length ?P, ?b1) = finish_line (length ?t) (?t @ ([0] @ drop m ?b) @ guard)" using b2 [OF refl] t(1) by simp
    have l: "length ?t < m" "length ([0] @ drop m ?b) = m + 1 - length ?t" using t(1) assms(1) by auto
    have "line_of m ?T = ?t @ [10]" using False by (simp add: line_of_def)
    then show ?thesis using finish_line_ok [OF t(3) l, of guard] t(2) unfolding v e by (metis (no_types, lifting))
  qed
qed

text \<open>The lines of a message that ends with a newline.\<close>

fun msg_lines :: "bytes \<Rightarrow> bytes list" where
  "msg_lines [] = []"
| "msg_lines (c # cs) = (if c = 10 then [] # msg_lines cs else case msg_lines cs of [] \<Rightarrow> [] | l # ls \<Rightarrow> (c # l) # ls)"

lemma msg_lines_end: "10 \<notin> set l \<Longrightarrow> msg_lines (l @ 10 # rest) = l # msg_lines rest"
  by (induction l) auto

lemma msg_lines_none: "10 \<notin> set l \<Longrightarrow> msg_lines l = []"
  by (induction l) auto

lemma log_lines_ok:
  assumes "\<not> lg_shutdown lg"
  shows "log_lines iovmax prefix msg iov r lg =
    (r + int (length (concat iov @ concat (map (\<lambda>l. prefix @ l @ [10]) (msg_lines msg)))),
     lg\<lparr>lg_out := lg_out lg @ concat iov @ concat (map (\<lambda>l. prefix @ l @ [10]) (msg_lines msg))\<rparr>)"
  using assms
proof (induction iovmax prefix msg iov r lg rule: log_lines.induct)
  case (1 iovmax prefix msg iov r lg)
  show ?case
  proof (cases "10 \<in> set msg")
    case False
    then show ?thesis using 1(3) by (simp add: log_lines.simps [of _ _ msg] log_output_def msg_lines_none)
  next
    case True
    let ?l = "takeWhile (\<lambda>c. c \<noteq> 10) msg" and ?rest = "drop (length (takeWhile (\<lambda>c. c \<noteq> 10) msg) + 1) msg"
    obtain x xs where d: "dropWhile (\<lambda>c. c \<noteq> 10) msg = x # xs" "x = 10"
      using True hd_dropWhile [of "\<lambda>c. c \<noteq> 10" msg] by (cases "dropWhile (\<lambda>c. c \<noteq> 10) msg") (auto simp: dropWhile_eq_Nil_conv)
    have w: "msg = ?l @ x # xs" unfolding d(1) [symmetric] by simp
    have "?rest = drop (length ?l + 1) (?l @ x # xs)" by (rule arg_cong [OF w])
    then have "msg = ?l @ 10 # ?rest" using w d(2) by simp
    moreover have "10 \<notin> set ?l" by (auto dest: set_takeWhileD)
    ultimately have m: "msg_lines msg = ?l # msg_lines ?rest" using msg_lines_end by metis
    have nn: "\<not> 10 \<notin> set msg" using True by simp
    show ?thesis
    proof (cases "length (iov @ [prefix, ?l @ [10]]) = iovmax")
      case len: True
      show ?thesis using 1(1) [OF nn refl refl refl len prod.collapse] 1(3) len True
        by (subst log_lines.simps) (simp add: log_output_def m Let_def)
    next
      case len: False
      show ?thesis using 1(2) [OF nn refl refl refl len] 1(3) len True
        by (subst log_lines.simps) (simp add: m Let_def)
    qed
  qed
qed

section \<open>Reading back the rules\<close>

text \<open>The rules that a file can say: no blanks or zeros in the path, which does not begin a comment or an option.\<close>

definition rule_ok :: "log_rule \<Rightarrow> bool" where
  "rule_ok r \<longleftrightarrow> rule_path r \<noteq> [] \<and> (\<forall>c\<in>set (rule_path r). c \<noteq> 0 \<and> \<not> c_isspace c) \<and> hd (rule_path r) \<notin> {35, 37} \<and>
     length (rule_path r) \<le> 1000 \<and> rule_level r \<noteq> LOG_INVALID"

text \<open>Builds without debugging leave out the rules of level debug.\<close>

definition rule_kept :: "bool \<Rightarrow> log_rule \<Rightarrow> bool" where
  "rule_kept ndebug r \<longleftrightarrow> \<not> (ndebug \<and> rule_level r = LOG_DEBUG)"

definition rule_text :: "log_rule \<Rightarrow> bytes" where
  "rule_text r = rule_path r @ [32] @ level2str (rule_level r) @ [10]"

lemma level2str_ok: "l \<noteq> LOG_INVALID \<Longrightarrow> str2level (level2str l) = l \<and> length (level2str l) \<le> 8 \<and> level2str l \<noteq> [] \<and>
    (\<forall>c\<in>set (level2str l). c \<noteq> 0 \<and> \<not> c_isspace c)"
  by (cases l) (simp_all add: str2level_def level2str_def log_levelnames_def cstr_def lower_byte_def c_isspace_def)

lemma scan_while_ok: "\<forall>c\<in>set xs. P c \<Longrightarrow> \<not> P y \<Longrightarrow> drop i m = xs @ y # zs \<Longrightarrow> scan_while P m i = Inr (i + length xs)"
  by (simp add: scan_while_def dropWhile_append takeWhile_append)

lemma parse_line_rule:
  assumes "rule_ok r"
  shows "\<exists>m'. parse_line ndebug (rule_text r @ [0] @ rest) flags = Inr (m', flags, if rule_kept ndebug r then Some r else None) \<and> length m' = length (rule_text r @ [0] @ rest)"
proof -
  let ?p = "rule_path r" and ?l = "level2str (rule_level r)"
  let ?m = "rule_text r @ [0] @ rest"
  have p: "?p \<noteq> []" "\<forall>c\<in>set ?p. c \<noteq> 0 \<and> \<not> c_isspace c" "?p ! 0 \<notin> {0, 35, 37}" "\<not> c_isspace (?p ! 0)"
    using assms by (auto simp: rule_ok_def hd_conv_nth)
  have l: "str2level ?l = rule_level r" "?l \<noteq> []" "\<forall>c\<in>set ?l. c \<noteq> 0 \<and> \<not> c_isspace c"
    using level2str_ok [of "rule_level r"] assms by (auto simp: rule_ok_def)
  have 1: "scan_while c_isspace ?m 0 = Inr 0" "?m ! 0 = ?p ! 0"
    using p by (cases ?p; simp add: scan_while_def rule_text_def)+
  have 2: "scan_while (\<lambda>c. c \<noteq> 0 \<and> \<not> c_isspace c) ?m 0 = Inr (length ?p)"
    using scan_while_ok [of ?p _ 32 0 ?m] p(2) by (simp add: rule_text_def c_isspace_def)
  let ?m1 = "?p @ [0] @ ?l @ [10] @ [0] @ rest"
  have m1: "?m[length ?p := 0] = ?m1" by (simp add: rule_text_def list_update_append)
  have 3: "scan_while c_isspace ?m1 (length ?p + 1) = Inr (length ?p + 1)"
    using l(2,3) by (cases ?l) (simp_all add: scan_while_def)
  have 4: "scan_while (\<lambda>c. \<not> c_isspace c) ?m1 (length ?p + 1) = Inr (length ?p + 1 + length ?l)"
    using scan_while_ok [of ?l "\<lambda>c. \<not> c_isspace c" 10 "length ?p + 1" ?m1 "[0] @ rest"] l(3) by (simp add: c_isspace_def)
  let ?m2 = "?p @ [0] @ ?l @ [0] @ [0] @ rest"
  have m2: "?m1[length ?p + 1 + length ?l := 0] = ?m2" by (simp add: list_update_append)
  have s: "string_at ?m2 0 = ?p" "string_at ?m2 (length ?p + 1) = ?l"
    using p(2) l(3) by (simp_all add: string_at_def takeWhile_append)
  have "parse_line ndebug m flags = Inr (m2, flags, if rule_kept ndebug r then Some r else None)"
    if "scan_while c_isspace m 0 = Inr 0" "m ! 0 \<notin> {0, 35, 37}" "scan_while (\<lambda>c. c \<noteq> 0 \<and> \<not> c_isspace c) m 0 = Inr e" "m[e := 0] = m1"
      "scan_while c_isspace m1 (e + 1) = Inr (e + 1)" "scan_while (\<lambda>c. \<not> c_isspace c) m1 (e + 1) = Inr f" "m1[f := 0] = m2"
      "string_at m2 0 = ?p" "string_at m2 (e + 1) = ?l" for m e m1 f m2
    using that l(1) assms by (auto simp: parse_line_def rule_ok_def rule_kept_def Let_def)
  from this [OF 1(1) _ 2 m1 3 4 m2 s] show ?thesis using p(3) 1(2) by (simp add: rule_text_def)
qed

lemma fgets_rule: "rule_ok r \<Longrightarrow> fgets_line (rule_text r @ rest) = rule_text r"
proof -
  assume ok: "rule_ok r"
  let ?t = "rule_path r @ [32] @ level2str (rule_level r)"
  have l: "length (level2str (rule_level r)) \<le> 8" "10 \<notin> set (level2str (rule_level r))"
    using ok level2str_ok [of "rule_level r"] by (auto simp: rule_ok_def c_isspace_def)
  have "10 \<notin> set (rule_path r)" using ok by (auto simp: rule_ok_def c_isspace_def)
  then have n: "10 \<notin> set ?t" using l(2) by simp
  have "takeWhile (\<lambda>c. c \<noteq> 10) (rule_text r @ rest) = ?t" using n by (simp add: rule_text_def takeWhile_append)
  moreover have "length ?t + 1 \<le> 1023" using l(1) ok by (simp add: rule_ok_def)
  ultimately show ?thesis by (simp add: fgets_line_def rule_text_def)
qed

lemma parse_lines_rules:
  "\<forall>r\<in>set rs. rule_ok r \<Longrightarrow> length m = 1024 \<Longrightarrow>
    parse_lines ndebug (concat (map rule_text rs)) m flags rules = Inr (flags, rules @ filter (rule_kept ndebug) rs)"
proof (induction rs arbitrary: m rules)
  case Nil
  then show ?case by (simp add: parse_lines.simps)
next
  case (Cons r rs)
  let ?t = "rule_text r"
  have ok: "rule_ok r" using Cons(2) by simp
  have f: "fgets_line (concat (map rule_text (r # rs))) = ?t" using fgets_rule [OF ok] by simp
  have "length ?t + 1 \<le> 1024" using ok level2str_ok [of "rule_level r"] by (auto simp: rule_ok_def rule_text_def)
  then obtain m' where m': "parse_line ndebug (?t @ [0] @ drop (length ?t + 1) m) flags = Inr (m', flags, if rule_kept ndebug r then Some r else None)" "length m' = 1024"
    using parse_line_rule [OF ok, of ndebug "drop (length ?t + 1) m" flags] Cons(3) by auto
  have ne: "concat (map rule_text (r # rs)) \<noteq> []" by (simp add: rule_text_def)
  have "parse_lines ndebug (concat (map rule_text (r # rs))) m flags rules =
      parse_lines ndebug (drop (length ?t) (concat (map rule_text (r # rs)))) m' flags
        (rules @ (case if rule_kept ndebug r then Some r else None of None \<Rightarrow> [] | Some r \<Rightarrow> [r]))"
    using m'(1) by (subst parse_lines.simps) (simp only: ne f Let_def if_False bind_run_Inr case_prod_conv)
  then show ?case using Cons.IH [OF _ m'(2), of "rules @ (if rule_kept ndebug r then [r] else [])"] Cons(2) by (simp split: if_splits)
qed

section \<open>Properties\<close>

definition rule_matches :: "bytes \<Rightarrow> log_rule \<Rightarrow> bool" where
  "rule_matches path r \<longleftrightarrow> take (length (rule_path r)) path = rule_path r"

lemma find_rule_first: "\<forall>r\<in>set rs. cstr_at (rule_path r) \<noteq> 43 \<Longrightarrow> find_rule_in path rs = Inr (find (rule_matches path) rs)"
proof (induction rs)
  case (Cons r rs)
  have "\<not> rule_matches path r" if "length path < length (rule_path r)"
    using that arg_cong [of _ _ length, of "take (length (rule_path r)) path" "rule_path r"] by (auto simp: rule_matches_def)
  then show ?case using Cons by (auto simp: rule_matches_def)
qed simp

text \<open>
  Property C31. Which rule decides on a path (find_rule): in a list in the order of rule_compare, without globs, it is a rule whose path the path begins with, no
  other such rule is longer, and none as long has a lower level; and when there is none, the default threshold decides.
\<close>

theorem find_rule_most_specific:
  assumes "lg_inited lg" "\<forall>r\<in>set (lg_rules lg). cstr_at (rule_path r) \<noteq> 43" "sorted_wrt (\<lambda>a b. \<not> rule_compare b a) (lg_rules lg)"
  shows "if \<forall>r\<in>set (lg_rules lg). \<not> rule_matches path r then log_level path lg = Inr (lg_threshold lg)
    else \<exists>r\<in>set (lg_rules lg). find_rule path lg = Inr (Some r) \<and> log_level path lg = Inr (rule_level r) \<and> rule_matches path r \<and>
      (\<forall>q\<in>set (lg_rules lg). if rule_matches path q \<and> q \<noteq> r
        then length (rule_path q) < length (rule_path r) \<or> rule_path q = rule_path r \<and> level_num (rule_level r) \<le> level_num (rule_level q) else True)"
proof -
  let ?rs = "lg_rules lg"
  have f: "find_rule path lg = Inr (find (rule_matches path) ?rs)" using assms(1,2) by (simp add: find_rule_def find_rule_first)
  show ?thesis
  proof (cases "find (rule_matches path) ?rs")
    case None
    then show ?thesis using f None [unfolded find_None_iff] by (auto simp: log_level_def)
  next
    case (Some r)
    obtain ys zs where s: "?rs = ys @ r # zs" "rule_matches path r" "\<forall>y\<in>set ys. \<not> rule_matches path y"
      using find_Some_split [OF Some] by blast
    have "if rule_matches path q \<and> q \<noteq> r then length (rule_path q) < length (rule_path r) \<or>
        rule_path q = rule_path r \<and> level_num (rule_level r) \<le> level_num (rule_level q) else True" if "q \<in> set ?rs" for q
    proof (cases "rule_matches path q \<and> q \<noteq> r")
      case True
      then have "q \<in> set zs" using that s by auto
      then have "\<not> rule_compare q r" using assms(3) s(1) by (auto simp: sorted_wrt_append)
      moreover have "rule_path q = rule_path r" if "length (rule_path q) = length (rule_path r)"
        using True s(2) that unfolding rule_matches_def by metis
      ultimately show ?thesis using True by (auto simp: rule_compare_def)
    qed auto
    then show ?thesis using f Some s by (auto simp: log_level_def)
  qed
qed

definition sample_log :: dlog where
  "sample_log = (lg_new LOG_INFO [])\<lparr>lg_inited := True, lg_rules1 := [\<lparr>rule_path = [47, 97], rule_level = LOG_DEBUG\<rparr>, \<lparr>rule_path = [47], rule_level = LOG_ERR\<rparr>]\<rparr>"

theorem find_rule_most_specific_witness: "\<exists>r. find_rule [47, 97, 98] sample_log = Inr (Some r) \<and> rule_level r = LOG_DEBUG"
proof -
  have a: "lg_inited sample_log" "\<forall>r\<in>set (lg_rules sample_log). cstr_at (rule_path r) \<noteq> 43"
      "sorted_wrt (\<lambda>a b. \<not> rule_compare b a) (lg_rules sample_log)"
    by (simp_all add: sample_log_def lg_new_def lg_rules_def cstr_at_def rule_compare_def)
  show ?thesis using find_rule_most_specific [OF a, of "[47, 97, 98]"]
    by (auto simp: sample_log_def lg_new_def lg_rules_def rule_matches_def split: if_splits)
qed

text \<open>What a call of \<open>vlogf\<close> prints, and the text it is about.\<close>

lemma log_line_prints:
  assumes "lg_inited lg" "\<not> lg_shutdown lg" "8 \<le> maxline" "log_wanted level (slash_path maxpath path) classname lg = Inr wanted" "prints fmt msg"
  shows "vlogf ndebug no_panic maxline maxpath junk tm (Some path) level classname p (Some fmt) lg =
    Inr (if wanted
      then let line = line_of maxline (concat (prefix_pieces tm (slash_path maxpath path) level classname p lg) @ msg)
        in (int (length line), lg\<lparr>lg_out := lg_out lg @ line\<rparr>)
      else (0, lg))"
proof -
  obtain n buf where "vlogf_line maxline junk tm (slash_path maxpath path) level classname p fmt lg = Inr (n, buf)"
      "take n buf = line_of maxline (concat (prefix_pieces tm (slash_path maxpath path) level classname p lg) @ msg)" "drop (maxline + 1) buf = guard"
    using vlogf_line_ok [OF assms(3,5)] by blast
  then show ?thesis using assms by (simp add: vlogf_def log_output_def Let_def)
qed

text \<open>
  Property C16. A message in its fixed buffer (vlogf), for every prefix, every path (one that does not begin with a slash gets one and is cut to LOG_MAX_PATHLEN) and
  every text of the format whose formatters keep to the room they are given: the buffer does not overflow and its guard stays; what is
  printed is the prefix and the text, with a newline if it has none, or, when they are not shorter than LOG_MAX_LINELEN, of at least 8, their
  beginning with a mark; a message below its threshold is not printed. (A formatter that writes on is caught by the guard,
  \<open>overrun_caught\<close>.)
\<close>

theorem log_line_correct:
  assumes "lg_inited lg" "\<not> lg_shutdown lg" "8 \<le> maxline" "log_wanted level (slash_path maxpath path) classname lg = Inr wanted" "prints fmt msg"
  shows "vlogf ndebug no_panic maxline maxpath junk tm (Some path) level classname p (Some fmt) lg =
    Inr (if wanted
      then let line = line_of maxline (concat (prefix_pieces tm (slash_path maxpath path) level classname p lg) @ msg)
        in (int (length line), lg\<lparr>lg_out := lg_out lg @ line\<rparr>)
      else (0, lg))"
  using assms by (rule log_line_prints)

theorem log_line_correct_witness:
  "\<exists>r. vlogf False False 20 64 (\<lambda>_. 0) (1, 2) (Some [97]) LOG_DEBUG None None (Some (plain_format [104, 105])) (sample_log\<lparr>lg_flags := 1\<rparr>) = Inr r \<and>
    lg_out (snd r) = [91, 47, 97, 32, 93, 32, 104, 105, 10]"
proof -
  let ?lg = "sample_log\<lparr>lg_flags := 1\<rparr>"
  have a: "lg_inited ?lg" "\<not> lg_shutdown ?lg" "(8 :: nat) \<le> 20" "log_wanted LOG_DEBUG (slash_path 64 [97]) None ?lg = Inr True"
    by (simp_all add: sample_log_def lg_new_def log_wanted_def log_enabled_def log_level_def find_rule_def lg_rules_def cstr_at_def slash_path_def)
  have p: "concat (prefix_pieces (1, 2) (slash_path 64 [97]) LOG_DEBUG None None ?lg) = [91, 47, 97, 32, 93, 32]"
    by (simp add: prefix_pieces_def sample_log_def lg_new_def slash_path_def cstr_at_def Let_def)
  show ?thesis using log_line_correct [OF a prints_plain, of False False "\<lambda>_. 0" "(1, 2)" None "[104, 105]"] unfolding p
    by (simp add: line_of_def Let_def sample_log_def lg_new_def)
qed

text \<open>
  Also. A message of several lines is printed line by line, each behind the prefix, in whatever portions the pieces go to the descriptor; the
  prefix must fit in its buffer of 1024 bytes.
\<close>

theorem log_multiline_correct:
  assumes "lg_inited lg" "\<not> lg_shutdown lg" "log_wanted level path classname lg = Inr True" "msg \<noteq> []" "last msg = 10"
    "length (concat (prefix_pieces tm path level classname p lg)) < 1024"
  shows "\<exists>n. log_msg iovmax junk tm path level classname p msg True lg =
    Inr (n, lg\<lparr>lg_out := lg_out lg @ concat (map (\<lambda>l. concat (prefix_pieces tm path level classname p lg) @ l @ [10]) (msg_lines msg))\<rparr>)"
proof -
  let ?ps = "prefix_pieces tm path level classname p lg" and ?m = "map junk [0..<1024]"
  have "?ps \<noteq> []" by (simp add: prefix_pieces_def Let_def)
  then have g: "gen_prefix tm ?m 1024 path level classname p lg = Inr (length (concat ?ps), concat ?ps @ [0] @ drop (length (concat ?ps) + 1) ?m)"
    using assms(6) add_pieces_ok [of 0 1024 ?m ?ps 0] by (simp add: gen_prefix_def del: upt_rec_numeral)
  have "length (concat ?ps) \<le> length (concat ?ps @ [0] @ drop (length (concat ?ps) + 1) ?m)" by simp
  then show ?thesis using assms(1-5) g log_lines_ok [OF assms(2), of iovmax "concat ?ps" msg "[]" 0]
    by (simp add: log_msg_def not_less del: concat.simps upt_rec_numeral)
qed

text \<open>The lines are those of the message.\<close>

lemma msg_lines_concat: "msg \<noteq> [] \<Longrightarrow> last msg = 10 \<Longrightarrow> concat (map (\<lambda>l. l @ [10]) (msg_lines msg)) = msg"
proof (induction msg)
  case (Cons c cs)
  then show ?case by (cases "cs = []"; cases "msg_lines cs") auto
qed simp

text \<open>
  Property C30. The file of rules: a log that is initialised with a file has the rules that the file lists (without those of level debug, in a build without
  debugging), in the order of the file (which is not the one that the comment in find_rule speaks of, \<open>rules_not_sorted\<close>), and
  dump_rules prints their lines. Paths are at most 1000 characters without blanks and zeros and do not begin like a comment or an option.
\<close>

theorem rules_roundtrip:
  assumes "\<forall>r\<in>set rs. rule_ok r" "path \<noteq> []" "files (expand_home home path) = Some (concat (map rule_text rs))"
  shows "\<exists>lg. log_do_init ndebug say junk home files lvl prefix (Some path) (lg_new th out) = Inr lg \<and> lg_inited lg \<and>
    lg_rules lg = filter (\<lambda>r. \<not> (ndebug \<and> rule_level r = LOG_DEBUG)) rs \<and>
    dump_rules lg = Inr (concat (map rule_text (filter (\<lambda>r. \<not> (ndebug \<and> rule_level r = LOG_DEBUG)) rs)))"
  using parse_lines_rules [OF assms(1), of "map junk [0..<1024]" ndebug, unfolded rule_kept_def [abs_def]] assms(2,3)
  by (auto simp: log_do_init_def parse_debug_file_def lg_new_def dump_rules_def lg_rules_def rule_text_def [abs_def] Let_def simp del: upt_rec_numeral split: option.splits)

theorem rules_roundtrip_witness:
  "\<exists>lg. log_do_init True (\<lambda>_ _ _ lg. Inr (0, lg)) (\<lambda>_. 0) None
      [[102] \<mapsto> concat (map rule_text [\<lparr>rule_path = [47], rule_level = LOG_INFO\<rparr>, \<lparr>rule_path = [47, 97], rule_level = LOG_DEBUG\<rparr>])] LOG_ERR None
      (Some [102]) (lg_new LOG_ERR []) = Inr lg \<and> lg_rules lg = [\<lparr>rule_path = [47], rule_level = LOG_INFO\<rparr>]"
proof -
  let ?rs = "[\<lparr>rule_path = [47], rule_level = LOG_INFO\<rparr>, \<lparr>rule_path = [47, 97], rule_level = LOG_DEBUG\<rparr>]"
  have a: "\<forall>r\<in>set ?rs. rule_ok r" "[102 :: byte] \<noteq> []" by (simp_all add: rule_ok_def c_isspace_def)
  let ?f = "[[102] \<mapsto> concat (map rule_text ?rs)]"
  have f: "?f (expand_home None [102]) = Some (concat (map rule_text ?rs))" by (simp add: expand_home_def)
  note rt = rules_roundtrip [of ?rs "[102]" ?f None True "\<lambda>_ _ _ lg. Inr (0, lg)" "\<lambda>_. 0" LOG_ERR None LOG_ERR "[]", OF a f]
  have "filter (\<lambda>r. \<not> (True \<and> rule_level r = LOG_DEBUG)) ?rs = [\<lparr>rule_path = [47], rule_level = LOG_INFO\<rparr>]" by simp
  with rt show ?thesis by metis
qed

section \<open>Divergences\<close>

text \<open>
  A divergence. Nothing sorts the rules: rule_compare is never called, the rules stay in the order of the file, and a general rule before a special
  one decides for both.
\<close>

theorem rules_not_sorted:
  "parse_lines False (concat (map rule_text [\<lparr>rule_path = [47], rule_level = LOG_INFO\<rparr>, \<lparr>rule_path = [47, 97], rule_level = LOG_DEBUG\<rparr>])) (replicate 1024 0) 7 [] =
    Inr (7, [\<lparr>rule_path = [47], rule_level = LOG_INFO\<rparr>, \<lparr>rule_path = [47, 97], rule_level = LOG_DEBUG\<rparr>])"
  "find_rule_in [47, 97] [\<lparr>rule_path = [47], rule_level = LOG_INFO\<rparr>, \<lparr>rule_path = [47, 97], rule_level = LOG_DEBUG\<rparr>] =
    Inr (Some \<lparr>rule_path = [47], rule_level = LOG_INFO\<rparr>)"
proof -
  show "parse_lines False (concat (map rule_text [\<lparr>rule_path = [47], rule_level = LOG_INFO\<rparr>, \<lparr>rule_path = [47, 97], rule_level = LOG_DEBUG\<rparr>])) (replicate 1024 0) 7 [] =
    Inr (7, [\<lparr>rule_path = [47], rule_level = LOG_INFO\<rparr>, \<lparr>rule_path = [47, 97], rule_level = LOG_DEBUG\<rparr>])"
    using parse_lines_rules [of "[\<lparr>rule_path = [47], rule_level = LOG_INFO\<rparr>, \<lparr>rule_path = [47, 97], rule_level = LOG_DEBUG\<rparr>]" "replicate 1024 0" False 7 "[]"]
    by (simp add: rule_ok_def rule_kept_def c_isspace_def)
qed simp

text \<open>A divergence. A glob that is longer than the path is not tried, even when it matches.\<close>

theorem long_glob_skipped:
  "find_rule_in [47, 97] [\<lparr>rule_path = [43, 47, 97, 42], rule_level = LOG_ERR\<rparr>] = Inr None" "glob_match [47, 97, 42] [47, 97]"
  by simp_all

text \<open>
  A divergence. The last line of a file without a newline: the scan for the end of the level runs over the terminator, and from the end of
  the buffer if no blank of an earlier line is left there.
\<close>

theorem last_line_overrun: "parse_line False (cstr ''/a info'' @ [0] @ replicate n 0) flags = Inl Undefined"
proof -
  let ?m = "[47, 97, 32, 105, 110, 102, 111] @ [0] @ replicate n (0 :: byte)"
  have m: "cstr ''/a info'' @ [0] @ replicate n 0 = ?m" by (simp add: cstr_def)
  let ?m1 = "[47, 97, 0, 105, 110, 102, 111] @ [0] @ replicate n (0 :: byte)"
  have "dropWhile (\<lambda>c. \<not> c_isspace c) (replicate n 0) = []" by (auto simp: dropWhile_eq_Nil_conv c_isspace_def)
  then have "scan_while c_isspace ?m 0 = Inr 0" "scan_while (\<lambda>c. c \<noteq> 0 \<and> \<not> c_isspace c) ?m 0 = Inr 2"
      "scan_while c_isspace ?m1 3 = Inr 3" "scan_while (\<lambda>c. \<not> c_isspace c) ?m1 3 = Inl Undefined"
    by (simp_all add: scan_while_def c_isspace_def)
  moreover have "?m[2 := 0] = ?m1" unfolding numeral_2_eq_2 by (simp only: list_update.simps nat.case append_Cons append_Nil)
  ultimately show ?thesis unfolding m by (simp add: parse_line_def Let_def)
qed

text \<open>A divergence. A prefix of more than 1024 bytes is cut in its buffer, but \<open>log\<close> prints as many bytes as it would have had.\<close>

theorem log_prefix_overrun:
  assumes "lg_inited lg" "\<not> lg_shutdown lg" "log_wanted level path classname lg = Inr True" "msg \<noteq> []" "last msg = 10"
    "1024 < length (concat (prefix_pieces tm path level classname p lg))"
  shows "log_msg iovmax junk tm path level classname p msg each lg = Inl Undefined"
proof -
  let ?ps = "prefix_pieces tm path level classname p lg" and ?m = "map junk [0..<1024]"
  have "?ps \<noteq> []" by (simp add: prefix_pieces_def Let_def)
  then have "\<exists>m. gen_prefix tm ?m 1024 path level classname p lg = Inr (length (concat ?ps), m) \<and> length m = 1024"
    using assms(6) add_pieces_ok [of 0 1024 ?m ?ps 0] by (simp add: gen_prefix_def del: upt_rec_numeral)
  then show ?thesis using assms by (auto simp: log_msg_def simp del: upt_rec_numeral)
qed

text \<open>
  A divergence. Log.h says that an entry may be as long as LOG_MAX_LINELEN without being cut; one of exactly that length, prefix included, is cut.
\<close>

lemma exact_line_cut:
  assumes "lg_inited lg" "\<not> lg_shutdown lg" "8 \<le> maxline" "log_wanted level (slash_path maxpath path) classname lg = Inr True" "prints fmt msg"
    "t = concat (prefix_pieces tm (slash_path maxpath path) level classname p lg) @ msg" "length t = maxline"
  shows "vlogf ndebug no_panic maxline maxpath junk tm (Some path) level classname p (Some fmt) lg =
    Inr (int maxline, lg\<lparr>lg_out := lg_out lg @ take (maxline - 8) t @ cstr ''... (tr'' @ [10]\<rparr>)"
proof -
  have "length (cstr ''... (tr'') = 7" by (simp add: cstr_def)
  then show ?thesis
    using log_line_prints [OF assms(1-5), of ndebug no_panic junk tm p] assms(3,6,7) by (simp add: line_of_def Let_def)
qed

text \<open>
  Also. A formatter that writes more than its room, into the guard but not beyond the buffer, is caught in a debug build, unless what it writes there is
  the guard itself. (The formatter of log-test.cc that is to show this writes one byte more than that, behind the buffer.)
\<close>

lemma mem_write_beyond: "mem_write off d m = Inr m1 \<Longrightarrow> off + length d \<le> k \<Longrightarrow> drop k m1 = drop k m"
  by (auto simp: mem_write_def split: if_splits)

lemma mem_write_some: "off + length d \<le> length m \<Longrightarrow> \<exists>m1. mem_write off d m = Inr m1 \<and> length m1 = length m"
  by (simp add: mem_write_def)

lemma mem_write_keeps:
  "off + length d \<le> length m \<Longrightarrow> off + length d \<le> k \<Longrightarrow> \<exists>m1. mem_write off d m = Inr m1 \<and> length m1 = length m \<and> drop k m1 = drop k m"
  using mem_write_some mem_write_beyond by blast

lemma finish_line_beyond:
  assumes "ptr + 2 \<le> length buf" "ptr + 1 \<le> k"
  shows "\<exists>n m. finish_line ptr buf = Inr (n, m) \<and> drop (k + 1) m = drop (k + 1) buf"
proof (cases "ptr > 0 \<and> buf ! (ptr - 1) \<noteq> 10")
  case True
  obtain b1 where b1: "mem_write ptr [10] buf = Inr b1" "length b1 = length buf" "drop (k + 1) b1 = drop (k + 1) buf"
    using mem_write_some [of ptr "[10]" buf] mem_write_beyond [of ptr "[10]" buf _ "k + 1"] assms by auto
  obtain b2 where "mem_write (ptr + 1) [0] b1 = Inr b2" "drop (k + 1) b2 = drop (k + 1) b1"
    using mem_write_some [of "ptr + 1" "[0]" b1] mem_write_beyond [of "ptr + 1" "[0]" b1 _ "k + 1"] assms b1(2) by auto
  then show ?thesis using True b1 by (simp add: finish_line_def)
next
  case False
  obtain b2 where "mem_write ptr [0] buf = Inr b2" "drop (k + 1) b2 = drop (k + 1) buf"
    using mem_write_some [of ptr "[0]" buf] mem_write_beyond [of ptr "[0]" buf _ "k + 1"] assms by auto
  then show ?thesis using False by (auto simp: finish_line_def)
qed

lemma overrun_caught:
  assumes "lg_inited lg" "\<not> lg_shutdown lg" "8 \<le> maxline" "log_wanted level (slash_path maxpath path) classname lg = Inr True"
    and P: "P = concat (prefix_pieces tm (slash_path maxpath path) level classname p lg)" "length P < maxline"
    and fmt: "fmt (maxline - length P) = (bs, n)" "maxline - length P \<le> n" "length bs = maxline - length P + k" "1 < k" "k \<le> 9"
    and over: "drop (maxline - length P + 1) bs \<noteq> take (k - 1) guard"
  shows "vlogf False no_panic maxline maxpath junk tm (Some path) level classname p (Some fmt) lg = (if no_panic then Inr (- 1, lg) else Inl Panicked)"
proof -
  let ?b = "map junk [0..<maxline + 1]" and ?ps = "prefix_pieces tm (slash_path maxpath path) level classname p lg"
  let ?b1 = "P @ [0] @ drop (length P + 1) ?b @ guard"
  have ne: "?ps \<noteq> []" by (simp add: prefix_pieces_def Let_def)
  have gl: "length guard = 8" by (simp add: guard_def cstr_def)
  have g: "gen_prefix tm (?b @ guard) maxline (slash_path maxpath path) level classname p lg = Inr (length P, ?b1)"
    using assms(3) P ne by (simp add: gen_prefix_def add_pieces_ok min_def)
  have l1: "length ?b1 = maxline + 9" using P(2) gl by simp
  let ?b2 = "P @ bs @ drop (k - 1) guard"
  have X: "length ([0] @ drop (length P + 1) ?b) = maxline + 1 - length P" using P(2) by simp
  have "drop (length P + length bs) (P @ X @ g) = drop (k - 1) g" if "length X = maxline + 1 - length P" for X and g :: bytes
    using that fmt(3,4) P(2) by simp
  from this [OF X, of guard] have "drop (length P + length bs) ?b1 = drop (k - 1) guard" by (simp only: append.assoc)
  then have w: "mem_write (length P) bs ?b1 = Inr ?b2" using l1 fmt(3,5) P(2) by (simp add: mem_write_def del: append_assoc)
  have l2: "length ?b2 = maxline + 9" using fmt(3-5) P(2) gl by simp
  have d2: "drop (maxline + 1) ?b2 = drop (maxline - length P + 1) bs @ drop (k - 1) guard"
    using P(2) fmt(3,4) by (simp add: Suc_diff_le)
  have bad: "drop (maxline + 1) ?b2 \<noteq> guard"
  proof
    assume "drop (maxline + 1) ?b2 = guard"
    then have "take (k - 1) (drop (maxline - length P + 1) bs @ drop (k - 1) guard) = take (k - 1) guard" unfolding d2 by simp
    moreover have "length (drop (maxline - length P + 1) bs) = k - 1" using fmt(3) P(2) by simp
    ultimately show False using over by simp
  qed
  let ?tr = "take 7 trunc"
  have tl: "length ?tr = 7" by (simp add: trunc_def cstr_def)
  obtain b3 where b3: "mem_write (maxline - 8) ?tr ?b2 = Inr b3" "length b3 = maxline + 9" "drop (maxline + 1) b3 = drop (maxline + 1) ?b2"
  proof -
    have "maxline - 8 + length ?tr \<le> length ?b2" "maxline - 8 + length ?tr \<le> maxline + 1" unfolding tl l2 using assms(3) by simp_all
    from mem_write_keeps [OF this] show ?thesis using that unfolding l2 by blast
  qed
  obtain b4 where b4: "mem_write (maxline - 1) [0] b3 = Inr b4" "length b4 = maxline + 9" "drop (maxline + 1) b4 = drop (maxline + 1) b3"
  proof -
    have "maxline - 1 + length [0 :: byte] \<le> length b3" "maxline - 1 + length [0 :: byte] \<le> maxline + 1" using b3(2) assms(3) by simp_all
    from mem_write_keeps [OF this] show ?thesis using that unfolding b3(2) by blast
  qed
  obtain i b5 where b5: "finish_line (maxline - 1) b4 = Inr (i, b5)" "drop (maxline + 1) b5 = drop (maxline + 1) b4"
    using finish_line_beyond [of "maxline - 1" b4 maxline] b4(2) assms(3) by auto
  have ch: "(if maxline > sizeof_trunc then sizeof_trunc else maxline) = 8" using assms(3) by (simp add: sizeof_trunc_def)
  have "vlogf_line maxline junk tm (slash_path maxpath path) level classname p fmt lg = Inr (i, b5)"
    using g w b3(1) b4(1) b5(1) P(2) fmt(1,2) assms(3)
    by (simp add: vlogf_line_def log_vsnprintf_def ch finish_line_def Let_def)
  then show ?thesis using assms(1,2,4) bad b3(3) b4(3) b5(2) by (simp add: vlogf_def Let_def)
qed

end
