(* ===== verification/Spec2Isabelle.thy ===== *)
theory Spec2Isabelle
  imports SparseBitmap LruCache TokenBucket Crc32 TextCodec GlobMatch Buffers Serialize Marshal Timers
    Uri UriValidate UriNormalize KeySerialize InitSequencer StringSerialize ObjectCache MemoryStore DurableTable
    Locks MsgQueue BufferedIO Smtp SparseArray CheckedLog StreamSerialize FileBacked DebugLog
begin

text \<open>
  A verification library for the core of oasys, the C++ support library of the delay-tolerant networking
  reference implementation. The source files are named relative to src/.

  \<^bold>\<open>The parts and how they use each other.\<close> Data structures (util/) stand alone: a bitmap of ranges, an LRU
  cache, buffers, a token bucket over a time type, a checksum, text codings and a pattern matcher. Serialization
  (serialize/) visits the fields of an object with an action: the flat binary form and its sizes write to and read from
  buffers and use the checksum; keys are a second, textual form, and text keys a third. Storage (storage/) puts
  objects into tables: a table in memory keeps marshalled objects under marshalled keys, and a durable table puts a
  cache of live objects, indexed by text keys and bounded by marshalled sizes, in front of any table; objects in files have
  transactions, and streams through which serializable objects are put into them, and a log keeps records with checksums. Threads
  (thread/) have spin locks, shared locks, message queues over a notifier, and timers on a priority queue. A URI class parses,
  validates, normalizes and edits URIs in one string. An initialization sequencer runs steps in an order that respects their
  dependencies. Buffered input and output (io/) put the byte queue in front of a client, and the two ends of an SMTP session
  (smtp/) talk over them. The log (debug/) decides by rules over paths and patterns which messages are printed.

  \<^bold>\<open>Conventions.\<close> A class is a record of its members, with the member's name behind a prefix; an operation is a function on
  the record with the method's name. An operation that can fail an assertion, panic, call \<open>exit\<close> or run into undefined
  behaviour (reading outside memory, through a null or dangling pointer) returns a value of the type \<open>run\<close>
  of Prelude, a sum whose left side says what went wrong; the theorems that a result is \<open>Inr\<close> are the safety theorems.
  Integers that the code lets wrap are words of their width; sizes of objects in memory are natural numbers. A
  loop is structural recursion, a function with a measure, or, where it may run for ever, a
  \<open>partial_function\<close> into \<open>option\<close> whose value None is that it does not return (\<open>sb_clear_loop\<close>, \<open>timer_loop\<close>, \<open>dfs_edges\<close>, and the loops over a client); there is
  no fuel. The log, the clock, \<open>run_component\<close>, the capacity of a pipe or of a vector, the formatters of a message and the bytes that an allocation
  leaves unspecified are arguments.

  \<^bold>\<open>The theories.\<close>
  Prelude: the type \<open>run\<close> and its combinators with their simplification rules (\<open>run_simps\<close>), bytes and words, sorted
  association lists for \<open>std::map\<close>.
  SparseBitmap (util/SparseBitmap): \<open>sb_set\<close>, \<open>sb_clear\<close>, the queries and the iterator against the set of bits; what \<open>clear\<close> does
  when it splits a range, with and without room in the vector (without, it goes on with an iterator that the insertion has invalidated), and that on an
  empty range inside an entry it splits until there is no room (\<open>sb_clear_empty_diverges\<close>).
  LruCache (util/Cache.h, LRUList.h, CacheCapacityHelper.h): the invariant of all operations, the entry that a put evicts,
  what a get returns. Copying, assigning and destroying external handles (\<open>ext_copy\<close>,
  \<open>ext_assign\<close>, \<open>ext_unpin\<close>) keep the difference between the pins of an entry and the handles to it (\<open>ext_copy_balance\<close> and its neighbours). The helper's interface is the locale \<open>cache_helper\<close>, interpreted by the capacity helper.
  TokenBucket (util/Time, util/TokenBucket): arithmetic on times (an instance of \<open>linorder\<close>), with the carry that goes wrong
  (\<open>time_add_carry\<close>), and the bound on the rate of a bucket, with what happens to a bucket in debt (\<open>tb_debt\<close>) and when the clock goes
  back (\<open>tb_clock_back\<close>).
  Crc32 (util/CRC32): the table against division by the polynomial, and the errors that the checksum detects.
  TextCodec (util/Base16.cc, util/TextCode.cc) and GlobMatch (util/Glob): round trips and where they fail, and the matcher
  against the language of its patterns.
  Buffers (util/StreamBuffer, ExpandableBuffer.h, ScratchBuffer.h, StringBuffer): a byte queue as a refinement of a
  list, with sizes that wrap at 64 bits (\<open>reserve_wraps\<close>), texts in growing memory. The virtual \<open>reserve\<close> is the locale \<open>expandable\<close>, interpreted by the heap buffer and by the buffer
  that begins in static memory.
  Serialize (serialize/Serialize, SerializableVector.tcc, util/BufferCarrier.h): the fields of an object as a tree, and the locale
  \<open>byte_sink\<close> of an action that adds bytes.
  Marshal (serialize/MarshalSerialize, BufferedSerializeAction): writing, reading, measuring and copying objects. The locale
  \<open>marshal_target\<close> extends \<open>byte_sink\<close> by a sublocale and is interpreted for a fixed buffer, a heap buffer and a scratch buffer;
  measuring is another \<open>byte_sink\<close>. Round trip, exact size, equality of a copy; \<open>crc_mismatch_needs_log\<close> and \<open>terminated_off_by_one\<close>
  are divergences.
  KeySerialize (serialize/KeySerialize): the key of an object, with objects as its fields to any depth (the tree \<open>kvisit\<close>), can be read back,
  and which writes miss a byte of room.
  StringSerialize (serialize/StringSerialize): the text of a key, and the numbers that it cannot print
  (\<open>string_key_long_number\<close>).
  ObjectCache (storage/DurableObjectCache): the invariant of the table of live and idle objects and their LRU list under
  every operation, which operations fail and how, what a put evicts; \<open>release_by_count_evicts\<close>.
  MemoryStore (storage/MemoryStore, serialize/TypeShims.h): the store, its tables and iterators. The locale
  \<open>serial_object\<close> is a kind of object whose fields can be read back (interpreted by the string and integer shims), \<open>table_store\<close> a
  table as a finite map; every serial object makes a memory table one (a sublocale).
  DurableTable (storage/DurableTable): get, put and del of a table behind a cache, over the locale \<open>cached_table\<close>, which extends
  \<open>table_store\<close>, and that the pair behaves like a map; \<open>get_copy_leaves_live\<close>.
  Timers (thread/Timer): scheduling, cancelling and running timers, the counter of the pending ones and signals. Callbacks are
  arguments that may schedule and cancel; a round calls no timer twice or too early, a call fails only where a callback breaks its contract in the
  state that the round gave it, and a run ends when its callbacks add no timers.
  Locks (thread/SpinLock, Lock.h, Atomic-x86.h, SXLock.h): mutual exclusion of spin locks in every interleaving of
  single accesses, and how \<open>try_lock\<close> breaks it; the counters of shared locks and a writer beside a reader
  (\<open>writer_beside_reader\<close>).
  MsgQueue (thread/MsgQueue, Notifier): draining a pipe, a queue with one byte in the pipe for every message, a queue with
  one while there are any, and a mixture that panics (\<open>wait_takes_the_byte\<close>).
  Uri, UriValidate, UriNormalize (util/URI): the components as slices of one string, that a setter changes its component only (the
  locale \<open>uri_setter\<close>, interpreted by six of the setters; \<open>setters_refine\<close> in UriNormalize adds the other three), the validators against grammars, percent decoding, dot segments against the
  algorithm of RFC 3986, queries, and the whole parse.
  SparseArray (util/SparseArray.h): writing ranges and reading elements of an array of which blocks are stored, and the
  reallocation that is too short for elements of more than a byte (\<open>sparse_array_short_realloc\<close>).
  CheckedLog (storage/CheckedLog): whatever is cut off the end of a log, its complete records are read back, and nothing else; lengths that
  the reader cannot read (\<open>checked_log_long_record\<close>).
  StreamSerialize (serialize/StreamSerialize): objects on byte streams. The streams are the locales \<open>out_stream\<close>, which by a sublocale is
  a \<open>byte_sink\<close>, and \<open>in_stream\<close>.
  FileBacked (storage/FileBackedObject, FileBackedObjectStream, FileBackedObjectStore): a model of names, files and descriptors; an object as a
  sequence of bytes, atomic transactions, the round trip of a serializable object (the two streams interpret the locales above), the store as
  a map; \<open>commit_does_not_sync\<close>, \<open>commit_under_scope\<close>, \<open>blank_tx_not_blank\<close> and others are divergences.
  DebugLog (debug/Log): the rule that decides on a path, the line in its fixed buffer with the guard behind it, messages of several lines, and
  the file of rules read back. A text is made by a formatter that is an argument: one that keeps to its room, or one that writes on and is caught by the
  guard (\<open>overrun_caught\<close>); \<open>exact_line_cut\<close>, \<open>rules_not_sorted\<close>, \<open>last_line_overrun\<close>, \<open>log_prefix_overrun\<close> and \<open>long_glob_skipped\<close> are divergences.
  BufferedIO (io/BufferedIO): lines and bytes from a client that delivers its stream in pieces, texts to a client that takes
  them in pieces. What is relied on of the clients are \<open>reads_from\<close>, \<open>reads_all\<close>, \<open>writes_to\<close> and \<open>writes_all\<close>. A line is the input up to the first
  newline; a formatted text that does not fit loses its last character, or, with arguments, is formatted with a \<open>va_list\<close> that is used up
  (\<open>printf_adds_text\<close>).
  Smtp (smtp/SMTP, BasicSMTP): a message that the client sends arrives at the server's handler as it is, and a session ends on
  every input, without a failure when its output does not pile up; \<open>blank_line_lost\<close> and \<open>rset_keeps_recipients\<close> are divergences.
  InitSequencer (util/InitSequencer): what a start runs and in which order, and that the sort returns exactly when no
  cycle can be reached.

  \<^bold>\<open>Assumed or simplified.\<close> Allocations succeed. Memory is sequentially consistent, and an operation that holds a lock
  throughout is one step. The template integers of the bitmap's width are not tracked. The clients of a StreamBuffer in other
  theories put less than \<open>2^61\<close> bytes into it (\<open>st_reserve_nat\<close>, equal to \<open>st_reserve\<close> there by \<open>st_reserve_exact\<close>). Strings are shorter than \<open>2^31\<close> characters. Characters are classified as in the C locale. Equal
  elements that \<open>std::sort\<close> may order in any way keep their order. Sequence numbers of timers do not wrap, and the counters of the
  caches do not overflow. \<open>%16x\<close> of a 64-bit argument prints its low 32 bits. The size of an object is computed even where
  the code skips it because the object is cached. Assertions of the URI class that repeat a test made before them are left
  out. Conversions to and from \<open>double\<close> are not modelled.

  \<^bold>\<open>Not modelled.\<close> Wrappers of the operating system (sockets, files, processes, threads, mutexes, terminals, Bluetooth and AX.25),
  which hardly compute; databases behind foreign libraries (Berkeley DB, ODBC); code generated from schemas
  (storage/DS) and vendored code (ext/xsd, compat, debug/vfprintf.c, util/md5-rsa.c, util/jenkins_hash.cc); the Tcl commands,
  rotating and redirecting the log, stack traces; the serializers to SQL, XML, Tcl lists and text that is read by people, whose output is
  what the formatting functions of the C library print; option parsing into pointers of arbitrary types; and the tests.
\<close>

end
